(* ===== verification/Pager_Prelude.thy ===== *)
theory Pager_Prelude
  imports Main "HOL-Library.Word" "HOL-Library.Signed_Division"
begin

text \<open>
  Shared vocabulary of the development.

  \<^item> The integer types of the C++ sources by their width on the RP2040 (a 32-bit
    little-endian ARM: \<open>short\<close> has 16 bits, \<open>int\<close> and \<open>long\<close> 32, \<open>long long\<close> 64).
  \<^item> \<open>fault\<close>: the ways a run can leave the defined behaviour of C++ (reading or writing
    outside an array, following a null or a freed pointer, overflowing a signed integer, dividing by
    zero, leaving a function by an exception nobody catches, reading a variable before it
    is set, converting a floating-point number to an integer type that cannot hold it). Every operation that can do so returns \<open>fault + 'a\<close>; \<open>rbind\<close> sequences
    two of them.
  \<^item> \<open>heap\<close>: objects behind pointers that can be null or freed.
  \<^item> Checked array access (\<open>arr_get\<close>, \<open>arr_put\<close>, \<open>blit\<close>) and the counting loop
    \<open>for_loop\<close> of the sources, with an invariant rule.
  \<^item> Little-endian views of memory (\<open>le_bytes\<close>, \<open>le_word\<close>), which is what a cast
    between pointers to bytes, shorts and ints means on this machine.
\<close>

unbundle bit_operations_syntax

section \<open>Types and faults\<close>

type_synonym u8 = "8 word"
type_synonym u16 = "16 word"
type_synonym u32 = "32 word"
type_synonym u64 = "64 word"

datatype fault =
    OutOfBounds
  | NullPointer
  | SignedOverflow
  | DivideByZero
  | UncaughtException
  | Uninitialised
  | UseAfterFree
  | UndefinedConversion

type_synonym 'a result = "fault + 'a"

named_theorems fault_simps "unfolding of the fault monad and of checked accesses"

definition rbind :: "'a result \<Rightarrow> ('a \<Rightarrow> 'b result) \<Rightarrow> 'b result" where
  "rbind m f = (case m of Inl e \<Rightarrow> Inl e | Inr x \<Rightarrow> f x)"

lemma rbind_simps [simp]:
  "rbind (Inl e) f = Inl e"
  "rbind (Inr x) f = f x"
  by (simp_all add: rbind_def)

lemma rbind_eq_Inr: "rbind m f = Inr y \<longleftrightarrow> (\<exists>x. m = Inr x \<and> f x = Inr y)"
  by (cases m) simp_all

lemma rbind_assoc: "rbind (rbind m f) g = rbind m (\<lambda>x. rbind (f x) g)"
  by (cases m) simp_all

lemma rbind_if: "rbind (if b then m else m') f = (if b then rbind m f else rbind m' f)"
  by simp

text \<open>Runs with a bound on their waiting: \<open>None\<close> is a run that is still waiting.\<close>

definition obind :: "'a result option \<Rightarrow> ('a \<Rightarrow> 'b result option) \<Rightarrow> 'b result option" where
  "obind m f = (case m of None \<Rightarrow> None | Some (Inl e) \<Rightarrow> Some (Inl e) | Some (Inr x) \<Rightarrow> f x)"

lemma obind_simps [simp]:
  "obind None f = None"
  "obind (Some (Inl e)) f = Some (Inl e)"
  "obind (Some (Inr x)) f = f x"
  by (simp_all add: obind_def)

section \<open>Checked arrays\<close>

definition arr_get :: "'a list \<Rightarrow> nat \<Rightarrow> 'a result" where
  "arr_get xs i = (if i < length xs then Inr (xs ! i) else Inl OutOfBounds)"

definition arr_put :: "'a list \<Rightarrow> nat \<Rightarrow> 'a \<Rightarrow> 'a list result" where
  "arr_put xs i v = (if i < length xs then Inr (xs[i := v]) else Inl OutOfBounds)"

text \<open>\<open>memcpy(dst + off, src, n)\<close>, with both ends checked.\<close>

definition blit :: "'a list \<Rightarrow> nat \<Rightarrow> 'a list \<Rightarrow> nat \<Rightarrow> 'a list result" where
  "blit dst off src n =
     (if n \<le> length src \<and> off + n \<le> length dst
      then Inr (take off dst @ take n src @ drop (off + n) dst)
      else Inl OutOfBounds)"

lemma arr_get_Inr [fault_simps]: "i < length xs \<Longrightarrow> arr_get xs i = Inr (xs ! i)"
  by (simp add: arr_get_def)

lemma arr_put_Inr [fault_simps]: "i < length xs \<Longrightarrow> arr_put xs i v = Inr (xs[i := v])"
  by (simp add: arr_put_def)

lemma blit_Inr [fault_simps]:
  "n \<le> length src \<Longrightarrow> off + n \<le> length dst \<Longrightarrow>
     blit dst off src n = Inr (take off dst @ take n src @ drop (off + n) dst)"
  by (simp add: blit_def)

lemma length_blit: "blit dst off src n = Inr dst' \<Longrightarrow> length dst' = length dst"
  by (auto simp: blit_def split: if_splits)

lemma blit_same_end: "length src = length dst \<Longrightarrow> blit dst 0 src (length src) = Inr src"
  by (simp add: blit_def)

section \<open>C strings\<close>

abbreviation NUL :: char where "NUL \<equiv> CHR 0x00"

text \<open>What a function that reads up to the terminator sees of a string.\<close>

definition c_str :: "string \<Rightarrow> string" where
  "c_str s = takeWhile (\<lambda>c. c \<noteq> NUL) s"

lemma c_str_plain [simp]: "NUL \<notin> set s \<Longrightarrow> c_str s = s"
  unfolding c_str_def by (auto simp: takeWhile_eq_all_conv)

lemma c_str_no_NUL [simp]: "NUL \<notin> set (c_str s)"
  unfolding c_str_def by (auto dest: set_takeWhileD)

lemma c_str_terminated [simp]: "NUL \<notin> set t \<Longrightarrow> c_str (t @ NUL # r) = t"
  unfolding c_str_def by (induction t) auto

lemma length_c_str: "length (c_str s) \<le> length s"
  by (simp add: c_str_def length_takeWhile_le)

section \<open>Objects\<close>

text \<open>A heap of objects: \<open>new\<close> takes the next address, \<open>delete\<close> empties the cell.\<close>

type_synonym 'a heap = "'a option list"

definition heap_new :: "'a \<Rightarrow> 'a heap \<Rightarrow> nat \<times> 'a heap" where
  "heap_new p h = (length h, h @ [Some p])"

definition heap_get :: "'a heap \<Rightarrow> nat option \<Rightarrow> 'a result" where
  "heap_get h ptr = (case ptr of
       None \<Rightarrow> Inl NullPointer
     | Some a \<Rightarrow> rbind (arr_get h a) (\<lambda>cell.
         case cell of None \<Rightarrow> Inl UseAfterFree | Some p \<Rightarrow> Inr p))"

definition heap_update :: "nat option \<Rightarrow> ('a \<Rightarrow> 'a) \<Rightarrow> 'a heap \<Rightarrow> 'a heap result" where
  "heap_update ptr f h = rbind (heap_get h ptr) (\<lambda>p. Inr (h[the ptr := Some (f p)]))"

definition heap_delete :: "nat option \<Rightarrow> 'a heap \<Rightarrow> 'a heap result" where
  "heap_delete ptr h = (case ptr of
       None \<Rightarrow> Inr h
     | Some a \<Rightarrow> rbind (heap_get h ptr) (\<lambda>_. Inr (h[a := None])))"

section \<open>Counting loops\<close>

text \<open>\<open>for (i = a; i < a + k; i++) s = body(i, s)\<close>\<close>

primrec loop_from :: "nat \<Rightarrow> nat \<Rightarrow> (nat \<Rightarrow> 's \<Rightarrow> 's result) \<Rightarrow> 's \<Rightarrow> 's result" where
  "loop_from a 0 body s = Inr s"
| "loop_from a (Suc k) body s = rbind (body a s) (loop_from (Suc a) k body)"

definition for_loop :: "nat \<Rightarrow> (nat \<Rightarrow> 's \<Rightarrow> 's result) \<Rightarrow> 's \<Rightarrow> 's result" where
  "for_loop n body s = loop_from 0 n body s"

lemma loop_from_invariant:
  assumes "P a s"
    and "\<And>i s. a \<le> i \<Longrightarrow> i < a + k \<Longrightarrow> P i s \<Longrightarrow> \<exists>s'. body i s = Inr s' \<and> P (Suc i) s'"
  shows "\<exists>s'. loop_from a k body s = Inr s' \<and> P (a + k) s'"
  using assms
proof (induction k arbitrary: a s)
  case 0
  then show ?case by simp
next
  case (Suc k)
  from Suc.prems(2) [of a s] Suc.prems(1)
  obtain s1 where s1: "body a s = Inr s1" "P (Suc a) s1" by auto
  have "\<exists>s'. loop_from (Suc a) k body s1 = Inr s' \<and> P (Suc a + k) s'"
    by (rule Suc.IH [OF s1(2)]) (use Suc.prems(2) in auto)
  with s1 show ?case by simp
qed

lemma for_loop_invariant:
  assumes "P 0 s"
    and "\<And>i s. i < n \<Longrightarrow> P i s \<Longrightarrow> \<exists>s'. body i s = Inr s' \<and> P (Suc i) s'"
  shows "\<exists>s'. for_loop n body s = Inr s' \<and> P n s'"
  using loop_from_invariant [of P 0 s n body] assms by (simp add: for_loop_def)

section \<open>Lists\<close>

lemma take_Suc_update: "i < length ys \<Longrightarrow> take (Suc i) (ys[i := v]) = take i ys @ [v]"
  by (simp add: take_Suc_conv_app_nth)

lemma map_nth_take: "i \<le> length xs \<Longrightarrow> map ((!) xs) [0..<i] = take i xs"
  by (rule nth_equalityI) simp_all

lemma length_concat_const:
  "(\<And>x. x \<in> set xs \<Longrightarrow> length (f x) = k) \<Longrightarrow> length (concat (map f xs)) = k * length xs"
  by (induction xs) auto

section \<open>Words\<close>

lemma word_xor_cancel: "a XOR x = a XOR y \<longleftrightarrow> x = y" for a x y :: "'a::len word"
proof
  assume "a XOR x = a XOR y"
  then have "a XOR (a XOR x) = a XOR (a XOR y)" by simp
  then show "x = y" by (simp flip: xor.assoc)
qed simp

lemma unat_drop_bit: "unat (drop_bit k w) = unat w div 2 ^ k" for w :: "'a::len word"
  unfolding unat_drop_bit_eq by (rule drop_bit_eq_div)

lemma unat_drop_bit_1: "unat (drop_bit (Suc 0) w) = unat w div 2" for w :: "'a::len word"
  using unat_drop_bit [of "Suc 0" w] by simp

lemma word_pos_iff: "0 < w \<longleftrightarrow> w \<noteq> 0" for w :: "'a::len word"
  by (simp add: word_gt_0)

lemma word_odd_iff: "w AND 1 \<noteq> 0 \<longleftrightarrow> odd (unat w)" for w :: "'a::len word"
proof -
  have "odd (unat w) \<longleftrightarrow> bit w 0"
    by (simp add: bit_unsigned_iff flip: bit_0 [of "unat w"])
  then show ?thesis by (simp add: and_one_eq bit_0 odd_iff_mod_2_eq_one [symmetric])
qed

lemma uint_of_int_mod:
  assumes "0 < m" and "m \<le> 2 ^ LENGTH('a)"
  shows "uint (word_of_int (v mod m) :: 'a::len word) = v mod m"
proof -
  have "0 \<le> v mod m" "v mod m < 2 ^ LENGTH('a)"
    using assms pos_mod_bound [of m v] by (simp, linarith)
  then show ?thesis by (simp add: unsigned_of_int take_bit_int_eq_self)
qed

section \<open>Little-endian memory\<close>

definition le_bytes :: "nat \<Rightarrow> 'a::len word \<Rightarrow> u8 list" where
  "le_bytes n w = map (\<lambda>i. ucast (drop_bit (8 * i) w)) [0..<n]"

primrec le_word :: "u8 list \<Rightarrow> 'a::len word" where
  "le_word [] = 0"
| "le_word (b # bs) = ucast b OR push_bit 8 (le_word bs)"

lemma length_le_bytes [simp]: "length (le_bytes n w) = n"
  by (simp add: le_bytes_def)

lemma le_bytes_Suc: "le_bytes (Suc n) w = ucast w # le_bytes n (drop_bit 8 w)"
proof -
  have "[0..<Suc n] = 0 # map Suc [0..<n]"
    by (simp add: upt_conv_Cons map_Suc_upt del: upt_Suc)
  then show ?thesis
    by (simp add: le_bytes_def comp_def drop_bit_drop_bit add.commute del: upt_Suc)
qed

lemma le_bytes_0 [simp]: "le_bytes 0 w = []"
  by (simp add: le_bytes_def)

lemma bit_le_word:
  "bit (le_word bs :: 'a::len word) n \<longleftrightarrow>
     n < LENGTH('a) \<and> n div 8 < length bs \<and> bit (bs ! (n div 8)) (n mod 8)"
proof (induction bs arbitrary: n)
  case Nil
  then show ?case by simp
next
  case (Cons b bs)
  show ?case
  proof (cases "n < 8")
    case True
    then show ?thesis
      by (auto simp: bit_or_iff bit_push_bit_iff bit_ucast_iff dest: bit_imp_le_length)
  next
    case False
    then have d: "n div 8 = Suc ((n - 8) div 8)" and m: "n mod 8 = (n - 8) mod 8"
      by (auto simp: le_div_geq le_mod_geq)
    have "\<not> bit b n" using False by (auto dest: bit_imp_le_length)
    then show ?thesis using False
      by (auto simp: bit_or_iff bit_push_bit_iff bit_ucast_iff Cons.IH d m)
  qed
qed

lemma bit_le_bytes:
  "i < n \<Longrightarrow> bit (le_bytes n w ! i) j \<longleftrightarrow> j < 8 \<and> bit w (8 * i + j)"
  by (auto simp: le_bytes_def bit_ucast_iff bit_drop_bit_eq dest: bit_imp_le_length)

lemma le_word_le_bytes:
  fixes w :: "'a::len word"
  assumes "LENGTH('a) \<le> 8 * n"
  shows "(le_word (le_bytes n w) :: 'a word) = w"
proof (rule bit_word_eqI)
  fix j assume j: "j < LENGTH('a)"
  with assms have "j div 8 < n" by auto
  then show "bit (le_word (le_bytes n w) :: 'a word) j \<longleftrightarrow> bit w j"
    using j by (simp add: bit_le_word bit_le_bytes)
qed

lemma le_bytes_le_word:
  assumes "length bs = n" and "8 * n \<le> LENGTH('a::len)"
  shows "le_bytes n (le_word bs :: 'a word) = bs"
proof (rule nth_equalityI)
  show "length (le_bytes n (le_word bs :: 'a word)) = length bs"
    using assms by simp
  fix i assume "i < length (le_bytes n (le_word bs :: 'a word))"
  then have i: "i < n" by simp
  show "le_bytes n (le_word bs :: 'a word) ! i = bs ! i"
  proof (rule bit_word_eqI)
    fix j assume "j < LENGTH(8)"
    then have j: "j < 8" by simp
    with i assms have "8 * i + j < LENGTH('a)" by auto
    with i j assms show "bit (le_bytes n (le_word bs :: 'a word) ! i) j \<longleftrightarrow> bit (bs ! i) j"
      by (simp add: bit_le_bytes bit_le_word)
  qed
qed

section \<open>Arrays of words over a byte buffer\<close>

text \<open>\<open>words_of k n bs\<close> reads \<open>n\<close> consecutive \<open>k\<close>-byte words, which is indexing the buffer
  through a pointer cast; \<open>bytes_of k ws\<close> is the buffer those words occupy.\<close>

definition words_of :: "nat \<Rightarrow> nat \<Rightarrow> u8 list \<Rightarrow> 'a::len word list" where
  "words_of k n bs = map (\<lambda>i. le_word (take k (drop (k * i) bs))) [0..<n]"

definition bytes_of :: "nat \<Rightarrow> 'a::len word list \<Rightarrow> u8 list" where
  "bytes_of k ws = concat (map (le_bytes k) ws)"

lemma length_words_of [simp]: "length (words_of k n bs) = n"
  by (simp add: words_of_def)

lemma length_bytes_of [simp]: "length (bytes_of k ws) = k * length ws"
  by (induction ws) (simp_all add: bytes_of_def)

lemma bytes_of_simps [simp]:
  "bytes_of k [] = []"
  "bytes_of k (w # ws) = le_bytes k w @ bytes_of k ws"
  "bytes_of k (ws @ ws') = bytes_of k ws @ bytes_of k ws'"
  by (simp_all add: bytes_of_def)

lemma words_of_Suc:
  "words_of k (Suc n) bs = le_word (take k bs) # words_of k n (drop k bs)"
proof -
  have "[0..<Suc n] = 0 # map Suc [0..<n]"
    by (simp add: upt_conv_Cons map_Suc_upt del: upt_Suc)
  then show ?thesis by (simp add: words_of_def comp_def ac_simps del: upt_Suc)
qed

lemma words_of_0 [simp]: "words_of k 0 bs = []"
  by (simp add: words_of_def)

lemma words_of_bytes_of:
  fixes ws :: "'a::len word list"
  assumes "LENGTH('a) \<le> 8 * k"
  shows "words_of k (length ws) (bytes_of k ws) = ws"
  by (induction ws) (simp_all add: words_of_Suc le_word_le_bytes [OF assms])

lemma bytes_of_words_of:
  assumes "8 * k \<le> LENGTH('a::len)" and "length bs = k * n"
  shows "bytes_of k (words_of k n bs :: 'a word list) = bs"
  using assms(2)
proof (induction n arbitrary: bs)
  case (Suc n)
  then have "bytes_of k (words_of k n (drop k bs) :: 'a word list) = drop k bs" by simp
  with Suc.prems show ?case by (simp add: words_of_Suc le_bytes_le_word [OF _ assms(1)])
qed simp

section \<open>Signed 64-bit words\<close>

lemma sint_nonneg:
  fixes w :: u64
  assumes "\<not> w <s 0"
  shows "sint w = uint w"
proof -
  have "0 \<le> sint w" using assms by (simp add: word_sless_alt)
  moreover have "sint w < 2 ^ 63" using sint_lt [of w] by simp
  ultimately have "take_bit 64 (sint w) = sint w" by (simp add: take_bit_int_eq_self)
  then show ?thesis by (simp add: uint_sint)
qed

lemma sint_negative: "w <s 0 \<Longrightarrow> sint w < 0"
  by (simp add: word_sless_alt)

lemma sint_small:
  fixes w :: u64
  assumes "uint w < 2 ^ 63"
  shows "sint w = uint w"
proof -
  have "signed_take_bit 63 (uint w) = uint w"
    using assms by (intro signed_take_bit_int_eq_self) (auto intro: order_trans [OF _ uint_ge_0])
  then show ?thesis unfolding sint_uint by (simp only: len_of_numeral_defs) simp
qed

end
