(* ===== verification/Crc.thy ===== *)
theory Crc
  imports Pager_Prelude
begin

text \<open>
  \<open>src/pagers-common/crc.cpp\<close>: the table-driven CRC-16 (polynomial \<open>0xA001\<close>, start
  value 0, least significant bit first) with its table built lazily on the first call. The
  two static variables of the file are the record \<open>crc_state\<close>, passed through every call.

  The lemmas show that the table look-up is one byte of the bit-serial register, that the
  call never reads outside its table or input and gives the bit-serial checksum whatever
  calls came before, and that the checksum separates messages that differ in one byte or
  in two adjacent bytes.
\<close>

section \<open>The code\<close>

definition CRC_POLY_16 :: u16 where "CRC_POLY_16 = 0xA001"
definition CRC_START_16 :: u16 where "CRC_START_16 = 0x0000"

record crc_state =
  crc_tab16 :: "u16 list"
  crc_tab16_init :: bool

text \<open>The inner loop of \<open>init_crc16_tab\<close>: one step on the pair \<open>(crc, c)\<close>.\<close>

definition crc_tab_bit :: "u16 \<times> u16 \<Rightarrow> u16 \<times> u16" where
  "crc_tab_bit = (\<lambda>(crc, c).
     ((if (crc XOR c) AND 0x0001 \<noteq> 0 then drop_bit 1 crc XOR CRC_POLY_16 else drop_bit 1 crc),
      drop_bit 1 c))"

definition crc_tab_entry :: "nat \<Rightarrow> u16" where
  "crc_tab_entry i = fst ((crc_tab_bit ^^ 8) (0, of_nat i))"

definition init_crc16_tab :: "crc_state \<Rightarrow> crc_state result" where
  "init_crc16_tab st =
     rbind (for_loop 256 (\<lambda>i tab. arr_put tab i (crc_tab_entry i)) (crc_tab16 st))
       (\<lambda>tab. Inr (st\<lparr>crc_tab16 := tab, crc_tab16_init := True\<rparr>))"

text \<open>One byte of the main loop; \<open>crc_16\<close> itself. A null \<open>input_str\<close> is \<open>None\<close>.\<close>

definition crc_byte :: "u16 list \<Rightarrow> u16 \<Rightarrow> u8 \<Rightarrow> u16 result" where
  "crc_byte tab crc b =
     rbind (arr_get tab (unat ((crc XOR ucast b) AND 0x00FF)))
       (\<lambda>t. Inr (drop_bit 8 crc XOR t))"

definition crc_16 :: "crc_state \<Rightarrow> u8 list option \<Rightarrow> nat \<Rightarrow> (u16 \<times> crc_state) result" where
  "crc_16 st input_str num_bytes =
     rbind (if \<not> crc_tab16_init st then init_crc16_tab st else Inr st) (\<lambda>st'.
     rbind (case input_str of
              None \<Rightarrow> Inr CRC_START_16
            | Some bs \<Rightarrow>
                for_loop num_bytes
                  (\<lambda>a crc. rbind (arr_get bs a) (crc_byte (crc_tab16 st') crc)) CRC_START_16)
       (\<lambda>crc. Inr (crc, st')))"

text \<open>The state at program start, and what every call keeps of it.\<close>

definition crc_init :: crc_state where
  "crc_init = \<lparr>crc_tab16 = replicate 256 0, crc_tab16_init = False\<rparr>"

definition crc_inv :: "crc_state \<Rightarrow> bool" where
  "crc_inv st \<longleftrightarrow> length (crc_tab16 st) = 256 \<and>
     (crc_tab16_init st \<longrightarrow> crc_tab16 st = map crc_tab_entry [0..<256])"

section \<open>The bit-serial register\<close>

definition crc_shift :: "u16 \<Rightarrow> u16" where
  "crc_shift c = (if bit c 0 then drop_bit 1 c XOR CRC_POLY_16 else drop_bit 1 c)"

definition crc_feed :: "u16 \<Rightarrow> u8 \<Rightarrow> u16" where
  "crc_feed c b = (crc_shift ^^ 8) (c XOR ucast b)"

definition crc_bitwise :: "u8 list \<Rightarrow> u16" where
  "crc_bitwise bs = foldl crc_feed 0 bs"

lemma crc_feed_unroll:
  "crc_feed c b = crc_shift (crc_shift (crc_shift (crc_shift
     (crc_shift (crc_shift (crc_shift (crc_shift (c XOR ucast b))))))))"
  by (simp add: crc_feed_def eval_nat_numeral)

lemma bit_crc_shift:
  "bit (crc_shift c) n \<longleftrightarrow> bit c (Suc n) \<noteq> (bit c 0 \<and> bit CRC_POLY_16 n)"
  by (simp add: crc_shift_def bit_xor_iff bit_drop_bit_eq)

lemma crc_shift_xor: "crc_shift (x XOR y) = crc_shift x XOR crc_shift y"
  by (rule bit_word_eqI) (auto simp: bit_crc_shift bit_xor_iff)

lemma crc_shifts_xor: "(crc_shift ^^ k) (x XOR y) = (crc_shift ^^ k) x XOR (crc_shift ^^ k) y"
  by (induction k) (simp_all add: crc_shift_xor)

text \<open>The polynomial's top bit remembers whether the register was odd: no step loses information.\<close>

lemma crc_shift_inj: "crc_shift x = crc_shift y \<Longrightarrow> x = y"
proof (rule bit_word_eqI)
  fix n assume eq: "crc_shift x = crc_shift y" and n: "n < LENGTH(16)"
  have same: "bit x (Suc k) \<noteq> (bit x 0 \<and> bit CRC_POLY_16 k) \<longleftrightarrow>
      bit y (Suc k) \<noteq> (bit y 0 \<and> bit CRC_POLY_16 k)" for k
    using eq bit_crc_shift [of x k] bit_crc_shift [of y k] by simp
  have "bit CRC_POLY_16 15" by (simp add: CRC_POLY_16_def)
  moreover have "\<not> bit x 16" "\<not> bit y 16" by (auto dest: bit_imp_le_length)
  ultimately have low: "bit x 0 \<longleftrightarrow> bit y 0"
    using same [of 15] by simp
  show "bit x n \<longleftrightarrow> bit y n"
    by (cases n) (use low same in auto)
qed

lemma crc_shifts_inj: "(crc_shift ^^ k) x = (crc_shift ^^ k) y \<Longrightarrow> x = y"
  by (induction k) (auto dest: crc_shift_inj)

lemma crc_shifts_low_zero:
  "(\<forall>i<k. \<not> bit x i) \<Longrightarrow> (crc_shift ^^ k) x = drop_bit k x"
proof (induction k)
  case (Suc k)
  then have "\<not> bit (drop_bit k x) 0" by (simp add: bit_drop_bit_eq)
  with Suc show ?case by (simp add: crc_shift_def drop_bit_drop_bit)
qed simp

section \<open>The table computes the register\<close>

lemma crc_tab_bits:
  "(crc_tab_bit ^^ k) (crc, c) = (crc', c') \<Longrightarrow>
     crc' XOR c' = (crc_shift ^^ k) (crc XOR c) \<and> c' = drop_bit k c"
proof (induction k arbitrary: crc' c')
  case (Suc k)
  obtain crc1 c1 where k: "(crc_tab_bit ^^ k) (crc, c) = (crc1, c1)" by fastforce
  from Suc.IH [OF k] have IH: "crc1 XOR c1 = (crc_shift ^^ k) (crc XOR c)" "c1 = drop_bit k c"
    by blast+
  have odd: "(v AND 0x0001 \<noteq> 0) = bit v 0" for v :: u16
    by (simp add: and_one_eq bit_0 odd_iff_mod_2_eq_one)
  from Suc.prems k have c': "c' = drop_bit 1 c1"
    and crc': "crc' = (if bit (crc1 XOR c1) 0 then drop_bit 1 crc1 XOR CRC_POLY_16 else drop_bit 1 crc1)"
    by (auto simp: crc_tab_bit_def odd)
  have "crc' XOR c' = crc_shift (crc1 XOR c1)"
    by (auto simp: crc' c' crc_shift_def drop_bit_xor ac_simps)
  with IH c' show ?case by (simp add: drop_bit_drop_bit)
qed simp

lemma drop_bit_small_of_nat: "i < 256 \<Longrightarrow> drop_bit 8 (of_nat i :: u16) = 0"
  unfolding drop_bit_eq_div word_arith_nat_div by (simp add: unat_of_nat)

lemma crc_tab_entry_eq: "i < 256 \<Longrightarrow> crc_tab_entry i = (crc_shift ^^ 8) (of_nat i)"
proof -
  assume i: "i < 256"
  obtain crc' c' where k: "(crc_tab_bit ^^ 8) (0, of_nat i) = (crc', c' :: u16)" by fastforce
  have "c' = drop_bit 8 (of_nat i)" using crc_tab_bits [OF k] by simp
  also have "\<dots> = 0"
    using i by (rule drop_bit_small_of_nat)
  finally have "c' = 0" .
  with crc_tab_bits [OF k, THEN conjunct1] k show ?thesis by (simp add: crc_tab_entry_def)
qed

lemma crc_split_low:
  "(crc_shift ^^ 8) x = drop_bit 8 x XOR (crc_shift ^^ 8) (x AND 0x00FF)"
proof -
  have mask: "(0x00FF :: u16) = mask 8" by (simp add: mask_eq_exp_minus_1)
  have x: "x = (x AND 0x00FF) XOR (push_bit 8 (drop_bit 8 x))"
    unfolding mask
    by (rule bit_word_eqI) (auto simp: bit_simps)
  have "(crc_shift ^^ 8) (push_bit 8 (drop_bit 8 x)) = drop_bit 8 (push_bit 8 (drop_bit 8 x))"
    by (rule crc_shifts_low_zero) (simp add: bit_push_bit_iff)
  also have "\<dots> = drop_bit 8 x"
    by (rule bit_word_eqI) (auto simp: bit_simps dest: bit_imp_le_length)
  finally have "(crc_shift ^^ 8) (push_bit 8 (drop_bit 8 x)) = drop_bit 8 x" .
  with crc_shifts_xor [of 8 "x AND 0x00FF" "push_bit 8 (drop_bit 8 x)"] x
  show ?thesis by (metis xor.commute)
qed

lemma crc_byte_table:
  "crc_byte (map crc_tab_entry [0..<256]) crc b = Inr (crc_feed crc b)"
proof -
  let ?x = "crc XOR ucast b"
  have "unat (?x AND 0x00FF) \<le> unat (0x00FF :: u16)"
    by (rule word_and_le1 [THEN word_le_nat_alt [THEN iffD1]])
  then have i: "unat (?x AND 0x00FF) < 256" by simp
  have d: "drop_bit 8 ?x = drop_bit 8 crc"
    by (rule bit_word_eqI) (auto simp: bit_simps dest: bit_imp_le_length)
  show ?thesis
    using i crc_split_low [of ?x]
    by (simp add: crc_byte_def arr_get_def crc_tab_entry_eq crc_feed_def d del: drop_bit_xor)
qed

lemma init_crc16_tab_spec:
  assumes "length (crc_tab16 st) = 256"
  shows "init_crc16_tab st =
    Inr (st\<lparr>crc_tab16 := map crc_tab_entry [0..<256], crc_tab16_init := True\<rparr>)"
proof -
  have "\<exists>tab. for_loop 256 (\<lambda>i tab. arr_put tab i (crc_tab_entry i)) (crc_tab16 st) = Inr tab \<and>
      (length tab = 256 \<and> take 256 tab = map crc_tab_entry [0..<256])"
    by (rule for_loop_invariant [where
          P = "\<lambda>i tab. length tab = 256 \<and> take i tab = map crc_tab_entry [0..<i]"])
      (use assms in \<open>auto simp: arr_put_def take_Suc_update\<close>)
  then show ?thesis by (auto simp: init_crc16_tab_def)
qed

lemma crc_loop_spec:
  assumes "n \<le> length bs"
  shows "for_loop n (\<lambda>a crc. rbind (arr_get bs a) (crc_byte (map crc_tab_entry [0..<256]) crc))
      CRC_START_16 = Inr (crc_bitwise (take n bs))"
proof -
  have "\<exists>c. for_loop n (\<lambda>a crc. rbind (arr_get bs a) (crc_byte (map crc_tab_entry [0..<256]) crc))
      CRC_START_16 = Inr c \<and> c = crc_bitwise (take n bs)"
    by (rule for_loop_invariant [where P = "\<lambda>i c. c = crc_bitwise (take i bs)"])
      (use assms in \<open>auto simp: crc_bitwise_def CRC_START_16_def arr_get_def crc_byte_table
         take_Suc_conv_app_nth\<close>)
  then show ?thesis by simp
qed

definition crc_ready :: "crc_state \<Rightarrow> crc_state" where
  "crc_ready st = st\<lparr>crc_tab16 := map crc_tab_entry [0..<256], crc_tab16_init := True\<rparr>"

lemma crc_inv_init: "crc_inv crc_init"
  by (simp add: crc_inv_def crc_init_def)

lemma crc_inv_ready: "crc_inv (crc_ready st)"
  by (simp add: crc_inv_def crc_ready_def)

lemma crc_table_ready:
  assumes "crc_inv st"
  shows "(if \<not> crc_tab16_init st then init_crc16_tab st else Inr st) = Inr (crc_ready st)"
proof (cases "crc_tab16_init st")
  case True
  with assms have "crc_tab16 st = map crc_tab_entry [0..<256]" by (simp add: crc_inv_def)
  with True show ?thesis by (simp add: crc_ready_def)
next
  case False
  with assms show ?thesis by (simp add: crc_inv_def crc_ready_def init_crc16_tab_spec)
qed

lemma crc_16_null: "crc_inv st \<Longrightarrow> crc_16 st None n = Inr (0, crc_ready st)"
  by (simp add: crc_16_def crc_table_ready CRC_START_16_def del: not_not)

lemma crc_16_value:
  assumes "crc_inv st" and "n \<le> length bs"
  shows "crc_16 st (Some bs) n = Inr (crc_bitwise (take n bs), crc_ready st)"
proof -
  have tab: "crc_tab16 (crc_ready st) = map crc_tab_entry [0..<256]"
    by (simp add: crc_ready_def)
  show ?thesis
    unfolding crc_16_def crc_table_ready [OF assms(1)] rbind_simps option.case tab
      crc_loop_spec [OF assms(2)] ..
qed

section \<open>What the checksum separates\<close>

lemma crc_feed_inj_state: "crc_feed x b = crc_feed y b \<Longrightarrow> x = y"
proof -
  assume "crc_feed x b = crc_feed y b"
  then have "x XOR ucast b = y XOR ucast b"
    unfolding crc_feed_def by (rule crc_shifts_inj)
  then have "(x XOR ucast b) XOR ucast b = (y XOR ucast b) XOR ucast b" by simp
  then show "x = y" by (simp add: xor.assoc)
qed

lemma crc_feeds_inj_state: "foldl crc_feed x bs = foldl crc_feed y bs \<Longrightarrow> x = y"
  by (induction bs arbitrary: x y) (auto dest: crc_feed_inj_state)

text \<open>Two bytes fed one after the other are sixteen steps on the register with both mixed in.\<close>

lemma crc_feed_two:
  "crc_feed (crc_feed c a) b = (crc_shift ^^ 16) (c XOR (ucast a XOR push_bit 8 (ucast b)))"
proof -
  have "(crc_shift ^^ 8) (push_bit 8 (ucast b :: u16)) = drop_bit 8 (push_bit 8 (ucast b :: u16))"
    by (rule crc_shifts_low_zero) (simp add: bit_push_bit_iff)
  also have "\<dots> = ucast b"
    by (rule bit_word_eqI) (auto simp: bit_simps dest: bit_imp_le_length)
  finally have b: "(crc_shift ^^ 8) (push_bit 8 (ucast b :: u16)) = ucast b" .
  have sixteen: "(crc_shift ^^ 16) v = (crc_shift ^^ 8) ((crc_shift ^^ 8) v)" for v
  proof -
    have "(16 :: nat) = 8 + 8" by simp
    then show ?thesis by (simp only: funpow_add comp_apply)
  qed
  show ?thesis
    unfolding crc_feed_def sixteen xor.assoc [symmetric]
    by (simp only: crc_shifts_xor [of 8 _ "push_bit 8 (ucast b)"] b)
qed

lemma two_bytes_inj:
  assumes "(ucast a XOR push_bit 8 (ucast b) :: u16) = ucast a' XOR push_bit 8 (ucast b')"
  shows "(a :: u8) = a' \<and> (b :: u8) = b'"
proof
  have bits: "bit (ucast a XOR push_bit 8 (ucast b) :: u16) n \<longleftrightarrow>
      bit (ucast a' XOR push_bit 8 (ucast b') :: u16) n" for n
    by (simp add: assms)
  show "a = a'"
  proof (rule bit_word_eqI)
    fix n assume "n < LENGTH(8)"
    then show "bit a n \<longleftrightarrow> bit a' n" using bits [of n] by (simp add: bit_simps)
  qed
  show "b = b'"
  proof (rule bit_word_eqI)
    fix n assume n: "n < LENGTH(8)"
    have "\<not> bit a (n + 8)" "\<not> bit a' (n + 8)" by (auto dest: bit_imp_le_length)
    with n show "bit b n \<longleftrightarrow> bit b' n" using bits [of "n + 8"] by (simp add: bit_simps)
  qed
qed

lemma crc_bitwise_two_bytes:
  assumes "crc_bitwise (xs @ [a, b] @ ys) = crc_bitwise (xs @ [a', b'] @ ys)"
  shows "a = a' \<and> b = b'"
proof -
  from assms have "crc_feed (crc_feed (foldl crc_feed 0 xs) a) b =
      crc_feed (crc_feed (foldl crc_feed 0 xs) a') b'"
    by (auto simp: crc_bitwise_def dest: crc_feeds_inj_state)
  then have "foldl crc_feed 0 xs XOR (ucast a XOR push_bit 8 (ucast b)) =
      foldl crc_feed 0 xs XOR (ucast a' XOR push_bit 8 (ucast b'))"
    unfolding crc_feed_two by (rule crc_shifts_inj)
  then have "(ucast a XOR push_bit 8 (ucast b) :: u16) = ucast a' XOR push_bit 8 (ucast b')"
    by (simp only: word_xor_cancel)
  then show ?thesis by (rule two_bytes_inj)
qed

section \<open>Properties\<close>

text \<open>C14. \<open>crc_16\<close> computes the bit-serial CRC-16 of the first \<open>num_bytes\<close> bytes of its input,
  never indexes outside the table or the input, and gives the same value whether or not an
  earlier call has already built the static table.\<close>

theorem crc_16_is_bitwise_crc:
  assumes "crc_inv st" and "n \<le> length bs"
  shows "\<exists>st'. crc_16 st (Some bs) n = Inr (crc_bitwise (take n bs), st') \<and> crc_inv st' \<and>
           crc_tab16_init st'"
  using crc_16_value [OF assms] crc_inv_ready [of st] by (simp add: crc_ready_def)

theorem crc_16_is_bitwise_crc_witness:
  "\<exists>st'. crc_16 crc_init (Some [0x31, 0x32, 0x33, 0x34, 0x35, 0x36, 0x37, 0x38, 0x39]) 9 =
     Inr (0xBB3D, st') \<and> crc_inv st' \<and> crc_tab16_init st'"
proof -
  let ?bs = "[0x31, 0x32, 0x33, 0x34, 0x35, 0x36, 0x37, 0x38, 0x39] :: u8 list"
  have "crc_bitwise (take 9 ?bs) = 0xBB3D"
    by (simp add: crc_bitwise_def crc_feed_unroll crc_shift_def CRC_POLY_16_def)
  with crc_16_is_bitwise_crc [OF crc_inv_init, of 9 ?bs] show ?thesis by simp
qed

end
