(* ===== verification/Fermat.thy ===== *)
theory Fermat
  imports Main
begin

text \<open>
  The arithmetic behind the key pair of \<open>src/pagers-common/security.cpp\<close>: primality by
  trial division up to the square root, Fermat's little theorem by the binomial expansion,
  and the exponent identity \<open>a ^ (1 + k * (p - 1)) mod p = a mod p\<close> that makes
  exponentiation by \<open>d\<close> and then by \<open>e\<close> the identity modulo both prime factors. Nothing
  here mentions the program.
\<close>

definition coprime_below :: "nat \<Rightarrow> bool" where
  "coprime_below p \<longleftrightarrow> 1 < p \<and> (\<forall>k. 0 < k \<longrightarrow> k < p \<longrightarrow> coprime k p)"

definition no_divisor_below :: "nat \<Rightarrow> nat \<Rightarrow> bool" where
  "no_divisor_below r p \<longleftrightarrow> list_all (\<lambda>d. p mod d \<noteq> 0) [2..<r]"

lemma trial_division:
  assumes "1 < p" and "no_divisor_below r p" and "p < r * r"
  shows "coprime_below p"
proof -
  have nodiv: "\<not> d dvd p" if "2 \<le> d" "d < r" for d
    using assms(2) that by (auto simp: no_divisor_below_def list_all_iff mod_eq_0_iff_dvd)
  have "coprime k p" if k: "0 < k" "k < p" for k
  proof (rule ccontr)
    assume "\<not> coprime k p"
    define g where "g = gcd k p"
    have g1: "g \<noteq> 1" using \<open>\<not> coprime k p\<close> by (simp add: g_def coprime_iff_gcd_eq_1)
    have g0: "g \<noteq> 0" using k by (simp add: g_def)
    have "g dvd p" by (simp add: g_def)
    then obtain h where h: "p = g * h" by blast
    have "g \<le> k" using k by (simp add: g_def dvd_imp_le)
    with k h have "h \<noteq> 1" by auto
    moreover have "h \<noteq> 0" using h assms(1) by (cases h) auto
    ultimately have h2: "2 \<le> h" by simp
    have g2: "2 \<le> g" using g0 g1 by simp
    have "g < r \<or> h < r"
    proof (rule ccontr)
      assume "\<not> (g < r \<or> h < r)"
      then have "r * r \<le> g * h" by (simp add: mult_le_mono)
      with h assms(3) show False by simp
    qed
    then show False using nodiv [of g] nodiv [of h] g2 h2 h by auto
  qed
  with assms(1) show ?thesis by (simp add: coprime_below_def)
qed

lemma dvd_binomial:
  assumes "coprime_below p" and "0 < k" and "k < p"
  shows "p dvd (p choose k)"
proof -
  obtain p' k' where p: "p = Suc p'" and k: "k = Suc k'"
    using assms(2,3) by (metis gr0_implies_Suc less_nat_zero_code old.nat.exhaust)
  have "(p choose k) * k = p * (p' choose k')"
    using Suc_times_binomial_eq [of p' k'] by (simp add: p k)
  then have "p dvd (p choose k) * k" by simp
  moreover have "coprime p k"
    using assms by (simp add: coprime_below_def coprime_commute)
  ultimately show ?thesis by (simp add: coprime_dvd_mult_left_iff)
qed

lemma power_Suc_mod:
  assumes "coprime_below p"
  shows "(Suc a) ^ p mod p = (a ^ p + 1) mod p"
proof -
  have p: "0 < p" using assms by (simp add: coprime_below_def)
  have split: "{..p} = insert 0 (insert p {0<..<p})" using p by auto
  have "(Suc a) ^ p = (a + 1) ^ p" by simp
  also have "\<dots> = (\<Sum>k\<le>p. (p choose k) * a ^ k * 1 ^ (p - k))"
    by (subst binomial_ring) simp
  also have "\<dots> = 1 + (a ^ p + (\<Sum>k\<in>{0<..<p}. (p choose k) * a ^ k))"
    unfolding split using p by simp
  finally have eq: "(Suc a) ^ p = (a ^ p + 1) + (\<Sum>k\<in>{0<..<p}. (p choose k) * a ^ k)"
    by simp
  have "p dvd (\<Sum>k\<in>{0<..<p}. (p choose k) * a ^ k)"
    by (rule dvd_sum) (use dvd_binomial [OF assms] in auto)
  then show ?thesis unfolding eq by (metis dvd_eq_mod_eq_0 mod_add_right_eq add_0_right)
qed

lemma fermat_little:
  assumes "coprime_below p"
  shows "a ^ p mod p = a mod p"
proof (induction a)
  case 0
  then show ?case using assms by (simp add: coprime_below_def zero_power)
next
  case (Suc a)
  have "(Suc a) ^ p mod p = (a ^ p + 1) mod p" by (rule power_Suc_mod [OF assms])
  also have "\<dots> = (a + 1) mod p" using Suc.IH by (metis mod_add_left_eq)
  finally show ?case by simp
qed

lemma power_exponent_period:
  assumes "coprime_below p"
  shows "a ^ (1 + k * (p - 1)) mod p = a mod p"
proof (induction k)
  case (Suc k)
  have p: "p = Suc (p - 1)" using assms by (simp add: coprime_below_def)
  have "a ^ (1 + Suc k * (p - 1)) = a ^ (1 + k * (p - 1)) * a ^ (p - 1)"
    by (simp add: power_add)
  then have "a ^ (1 + Suc k * (p - 1)) mod p = (a * a ^ (p - 1)) mod p"
    using Suc.IH by (metis mod_mult_left_eq)
  also have "a * a ^ (p - 1) = a ^ p" by (subst (2) p) simp
  also have "a ^ p mod p = a mod p" by (rule fermat_little [OF assms])
  finally show ?case .
qed simp

lemma power_power_mod: "((a::nat) ^ d mod n) ^ e mod n = a ^ (d * e) mod n"
  by (simp add: power_mod power_mult)

lemma mod_two_factors:
  assumes "coprime p q" and "x mod p = m mod p" and "x mod q = m mod q"
  shows "x mod (p * q) = (m::nat) mod (p * q)"
proof -
  have dvd: "int p dvd int x - int m" "int q dvd int x - int m"
    using assms(2,3) by (metis mod_eq_dvd_iff of_nat_mod)+
  have "coprime (int p) (int q)" using assms(1) by simp
  with dvd have "int (p * q) dvd int x - int m" by (simp add: divides_mult)
  then show ?thesis by (metis mod_eq_dvd_iff of_nat_eq_iff of_nat_mod)
qed

text \<open>The identity for a modulus of two primes and any exponent that is 1 modulo both \<open>p - 1\<close> and \<open>q - 1\<close>.\<close>

lemma two_prime_round_trip:
  assumes "coprime_below p" "coprime_below q" "coprime p q"
    and "x = 1 + j * (p - 1)" "x = 1 + k * (q - 1)"
    and "m < p * q"
  shows "m ^ x mod (p * q) = m"
proof -
  have "m ^ x mod p = m mod p" unfolding assms(4) by (rule power_exponent_period [OF assms(1)])
  moreover have "m ^ x mod q = m mod q" unfolding assms(5) by (rule power_exponent_period [OF assms(2)])
  ultimately have "m ^ x mod (p * q) = m mod (p * q)" by (rule mod_two_factors [OF assms(3)])
  with assms(6) show ?thesis by simp
qed

end
