(* ===== verification/Security.thy ===== *)
theory Security
  imports Pager_Prelude Fermat
begin

text \<open>
  \<open>src/pagers-common/security.cpp\<close>: modular exponentiation by squaring on 64-bit signed
  intermediates, the 32-bit key pair, and the two array loops that map 16-bit words to
  32-bit blocks and back.

  The lemmas show that no product overflows \<open>long long\<close> for the key's modulus, that the
  loop computes \<open>x ^ y mod p\<close>, that the two key exponents invert each other on every 16-bit
  word, and, through the interface \<open>block_cipher\<close>, what follows for whole arrays: the
  round trip, and that a change of one block changes one word.
\<close>

section \<open>The code\<close>

text \<open>A product of two \<open>long long\<close> values: overflow leaves the defined behaviour.\<close>

definition s64_mul :: "int \<Rightarrow> int \<Rightarrow> int result" where
  "s64_mul a b = (if - (2 ^ 63) \<le> a * b \<and> a * b < 2 ^ 63 then Inr (a * b) else Inl SignedOverflow)"

text \<open>The \<open>while (y > 0)\<close> loop of \<open>power\<close>; \<open>x\<close> is a \<open>long long\<close>, the others are \<open>uint\<close>.\<close>

function power_loop :: "u32 \<Rightarrow> int \<Rightarrow> u32 \<Rightarrow> u32 \<Rightarrow> u32 result" where
  "power_loop res x y p =
     (if y > 0 then
        rbind (if y AND 1 \<noteq> 0
               then rbind (s64_mul (uint res) x) (\<lambda>v. Inr (word_of_int (v smod uint p)))
               else Inr res) (\<lambda>res'.
        rbind (s64_mul x x) (\<lambda>v. power_loop res' (v smod uint p) (drop_bit 1 y) p))
      else Inr res)"
  by pat_completeness auto
termination
proof (relation "measure (\<lambda>(res, x, y, p). unat y)")
  fix res' :: u32 and x :: int and y p :: u32 and v :: int
  assume "y > 0"
  then have "0 < unat y" by (simp add: unat_gt_0 word_pos_iff)
  then have "unat (drop_bit 1 y) < unat y" by (simp add: unat_drop_bit_1)
  then show "((res', v smod uint p, drop_bit 1 y, p), (res, x, y, p))
      \<in> measure (\<lambda>(res, x, y, p). unat y)" for res
    by (simp only: in_measure prod.case)
qed simp

declare power_loop.simps [simp del]

definition power :: "int \<Rightarrow> u32 \<Rightarrow> u32 \<Rightarrow> u32 result" where
  "power x y p =
     (if p = 0 then Inl DivideByZero
      else let x' = x smod uint p in if x' = 0 then Inr 0 else power_loop 1 x' y p)"

definition key_n :: u32 where "key_n = 0x9050f681"
definition key_e :: u32 where "key_e = 0x10001"
definition key_d :: u32 where "key_d = 0xafe41a1d"

definition crypto_encrypt :: "nat \<Rightarrow> u16 list \<Rightarrow> u32 list \<Rightarrow> u32 list result" where
  "crypto_encrypt len data enc =
     for_loop len (\<lambda>i enc.
       rbind (arr_get data i) (\<lambda>m. rbind (power (uint m) key_d key_n) (arr_put enc i))) enc"

definition crypto_decrypt :: "nat \<Rightarrow> u16 list \<Rightarrow> u32 list \<Rightarrow> u16 list result" where
  "crypto_decrypt len data enc =
     for_loop len (\<lambda>i data.
       rbind (arr_get enc i) (\<lambda>c. rbind (power (uint c) key_e key_n) (\<lambda>v. arr_put data i (ucast v)))) data"

section \<open>Square and multiply\<close>

lemma smod_nonneg: "0 \<le> a \<Longrightarrow> 0 < b \<Longrightarrow> a smod b = a mod b" for a b :: int
  by (cases "a = 0") (auto simp: signed_modulo_int_def)

lemma s64_mul_small:
  assumes "0 \<le> a" "0 \<le> b" "a < P" "b < P" "P * P \<le> 2 ^ 63"
  shows "s64_mul a b = Inr (a * b)"
proof -
  have "a * b \<le> (P - 1) * (P - 1)" using assms by (intro mult_mono) auto
  also have "\<dots> < P * P" using assms by (intro mult_strict_mono) auto
  also have "\<dots> \<le> 2 ^ 63" by (rule assms(5))
  finally have "a * b < 2 ^ 63" .
  moreover have "0 \<le> a * b" using assms by simp
  then have "- (2 ^ 63) \<le> a * b" by (rule order_trans [rotated]) simp
  ultimately show ?thesis by (simp add: s64_mul_def)
qed

lemma power_loop_correct:
  assumes "0 \<le> x" "x < uint p" "uint res < uint p" "uint p * uint p \<le> 2 ^ 63"
  shows "power_loop res x y p = Inr (word_of_int ((uint res * x ^ unat y) mod uint p))"
  using assms
proof (induction res x y p rule: power_loop.induct)
  case (1 res x y p)
  have p: "0 < uint p" using 1 by simp
  show ?case
  proof (cases "y > 0")
    case False
    then have "y = 0" by (simp add: word_pos_iff)
    with 1 show ?thesis by (subst power_loop.simps) simp
  next
    case True
    have uint32: "uint p \<le> 2 ^ LENGTH(32)" using uint_lt2p [of p] by simp
    have sq: "s64_mul x x = Inr (x * x)" using 1 by (intro s64_mul_small) auto
    have rx: "s64_mul (uint res) x = Inr (uint res * x)" using 1 by (intro s64_mul_small) auto
    define res' :: u32 where
      "res' = (if odd (unat y) then word_of_int (uint res * x mod uint p) else res)"
    have step: "power_loop res x y p = power_loop res' (x * x mod uint p) (drop_bit 1 y) p"
      using True p 1(2,4)
      by (subst power_loop.simps) (simp add: word_odd_iff sq rx res'_def smod_nonneg)
    have res': "uint res' = (if odd (unat y) then uint res * x mod uint p else uint res)"
      using p by (simp add: res'_def uint_of_int_mod [where 'a = 32, OF p uint32])
    have "power_loop res' (x * x mod uint p) (drop_bit 1 y) p =
        Inr (word_of_int ((uint res' * (x * x mod uint p) ^ (unat y div 2)) mod uint p))"
      using 1(1) [OF True, of "x * x" res'] 1(2-) p
      by (simp add: smod_nonneg unat_drop_bit_1 res')
    moreover have "(uint res' * (x * x mod uint p) ^ (unat y div 2)) mod uint p =
        (uint res * x ^ unat y) mod uint p"
    proof -
      have "(x * x mod uint p) ^ (unat y div 2) mod uint p = (x * x) ^ (unat y div 2) mod uint p"
        by (rule power_mod)
      then have "(uint res' * (x * x mod uint p) ^ (unat y div 2)) mod uint p =
          (uint res' * (x * x) ^ (unat y div 2)) mod uint p"
        by (metis mod_mult_right_eq)
      also have "(x * x) ^ (unat y div 2) = x ^ (2 * (unat y div 2))"
        by (simp add: power_mult power2_eq_square)
      also have "(uint res' * x ^ (2 * (unat y div 2))) mod uint p = (uint res * x ^ unat y) mod uint p"
      proof (cases "odd (unat y)")
        case True
        then have "unat y = Suc (2 * (unat y div 2))" by simp
        then have "x ^ unat y = x * x ^ (2 * (unat y div 2))" by (metis power_Suc)
        with True show ?thesis by (simp add: res' mod_mult_left_eq mult.assoc)
      qed (simp add: res')
      finally show ?thesis .
    qed
    ultimately show ?thesis by (simp add: step)
  qed
qed

lemma power_correct:
  assumes "0 \<le> x" "0 < uint p" "uint p * uint p \<le> 2 ^ 63" "y \<noteq> 0"
  shows "power x y p = Inr (word_of_int (x ^ unat y mod uint p))"
proof (cases "x mod uint p = 0")
  case True
  have "0 < unat y" using assms(4) by (simp add: unat_gt_0)
  then have "x ^ unat y mod uint p = 0" using True
    by (metis mod_0 power_mod zero_power)
  then show ?thesis using assms True by (auto simp: power_def smod_nonneg)
next
  case False
  have P: "1 < uint p" using False assms(2) by (cases "uint p = 1") auto
  have "power_loop 1 (x mod uint p) y p =
      Inr (word_of_int ((uint (1 :: u32) * (x mod uint p) ^ unat y) mod uint p))"
    by (rule power_loop_correct) (use assms P in auto)
  moreover have "p \<noteq> 0" using assms(2) by auto
  ultimately show ?thesis using False assms
    by (simp add: power_def smod_nonneg power_mod)
qed

section \<open>The key pair\<close>

text \<open>The cipher as functions on single words and blocks, without the loops and checks.\<close>

definition rsa_encrypt :: "u16 \<Rightarrow> u32" where
  "rsa_encrypt m = of_nat (unat m ^ unat key_d mod unat key_n)"

definition rsa_decrypt :: "u32 \<Rightarrow> u16" where
  "rsa_decrypt c = of_nat (unat c ^ unat key_e mod unat key_n)"

lemma key_values [simp]:
  "unat key_n = 2421225089" "unat key_e = 65537" "unat key_d = 2950961693"
  by (simp_all add: key_n_def key_e_def key_d_def)

lemma uint_key_n [simp]: "uint key_n = 2421225089"
  by (simp add: key_n_def)

lemma key_factors: "(2421225089 :: nat) = 48271 * 50159"
  by simp

lemma prime_48271: "coprime_below 48271"
proof (rule trial_division [of _ 220])
  show "no_divisor_below 220 48271" unfolding no_divisor_below_def by simp
qed simp_all

lemma prime_50159: "coprime_below 50159"
proof (rule trial_division [of _ 224])
  show "no_divisor_below 224 50159" unfolding no_divisor_below_def by simp
qed simp_all

lemma key_round_trip: "(m :: nat) < 2421225089 \<Longrightarrow> m ^ (2950961693 * 65537) mod 2421225089 = m"
  unfolding key_factors
proof (rule two_prime_round_trip [OF prime_48271 prime_50159])
  show "coprime (48271 :: nat) 50159"
    using prime_50159 by (simp add: coprime_below_def)
  show "2950961693 * 65537 = 1 + 4006570882 * (48271 - 1 :: nat)" by simp
  show "2950961693 * 65537 = 1 + 3855759330 * (50159 - 1 :: nat)" by simp
qed

lemma power_key:
  assumes "k \<noteq> 0"
  shows "power (uint (x :: 'a::len word)) k key_n = Inr (of_nat (unat x ^ unat k mod unat key_n))"
proof -
  have "power (uint x) k key_n = Inr (word_of_int (uint x ^ unat k mod uint key_n))"
    by (rule power_correct) (use assms in simp_all)
  also have "uint x ^ unat k mod uint key_n = int (unat x ^ unat k mod unat key_n)"
    by (simp only: uint_nat of_nat_mod of_nat_power)
  finally show ?thesis by (simp only: of_int_of_nat_eq)
qed

lemma crypto_encrypt_map:
  assumes "len \<le> length data" "len \<le> length enc"
  shows "crypto_encrypt len data enc = Inr (map rsa_encrypt (take len data) @ drop len enc)"
proof -
  have pw: "power (uint m) key_d key_n = Inr (rsa_encrypt m)" for m :: u16
    by (subst power_key) (simp_all add: rsa_encrypt_def key_d_def)
  have "\<exists>r. crypto_encrypt len data enc = Inr r \<and>
      r = map rsa_encrypt (take len data) @ drop len enc"
    unfolding crypto_encrypt_def
    by (rule for_loop_invariant [where
          P = "\<lambda>i r. r = map rsa_encrypt (take i data) @ drop i enc"])
      (use assms in \<open>auto simp: arr_get_def arr_put_def pw take_Suc_conv_app_nth
         list_update_append Cons_nth_drop_Suc [symmetric]\<close>)
  then show ?thesis by simp
qed

lemma crypto_decrypt_map:
  assumes "len \<le> length data" "len \<le> length enc"
  shows "crypto_decrypt len data enc = Inr (map rsa_decrypt (take len enc) @ drop len data)"
proof -
  have cast: "ucast (of_nat k :: u32) = (of_nat k :: u16)" for k
    by (rule bit_word_eqI) (auto simp: bit_simps)
  have pw: "power (uint c) key_e key_n = Inr (of_nat (unat c ^ unat key_e mod unat key_n))" for c :: u32
    by (rule power_key) (simp add: key_e_def)
  have "\<exists>r. crypto_decrypt len data enc = Inr r \<and>
      r = map rsa_decrypt (take len enc) @ drop len data"
    unfolding crypto_decrypt_def
    by (rule for_loop_invariant [where
          P = "\<lambda>i r. r = map rsa_decrypt (take i enc) @ drop i data"])
      (use assms in \<open>auto simp: arr_get_def arr_put_def pw cast rsa_decrypt_def
         take_Suc_conv_app_nth list_update_append Cons_nth_drop_Suc [symmetric]\<close>)
  then show ?thesis by simp
qed

lemma rsa_round_trip: "rsa_decrypt (rsa_encrypt m) = m"
proof -
  have m: "unat m < 65536" using unsigned_less [of m] by simp
  define c where "c = unat m ^ 2950961693 mod 2421225089"
  have c: "c < 2421225089" by (simp add: c_def)
  have "unat (rsa_encrypt m) = c"
    using c by (simp add: rsa_encrypt_def c_def [symmetric] unat_of_nat)
  then have "rsa_decrypt (rsa_encrypt m) = of_nat (c ^ 65537 mod 2421225089)"
    by (simp add: rsa_decrypt_def)
  also have "c ^ 65537 mod 2421225089 = unat m ^ (2950961693 * 65537) mod 2421225089"
    unfolding c_def by (rule power_power_mod)
  also have "\<dots> = unat m" by (rule key_round_trip) (use m in simp)
  finally show ?thesis by simp
qed

section \<open>The interface the protocol relies on\<close>

locale block_cipher =
  fixes encode :: "'m \<Rightarrow> 'c" and decode :: "'c \<Rightarrow> 'm"
  assumes decode_encode: "decode (encode m) = m"
begin

lemma decode_map: "map decode (map encode ms) = ms"
  by (induction ms) (simp_all add: decode_encode)

lemma encode_inj: "encode m = encode m' \<longleftrightarrow> m = m'"
  by (metis decode_encode)

lemma decode_one_block:
  "i < length ms \<Longrightarrow> map decode ((map encode ms)[i := c]) = ms[i := decode c]"
  by (simp add: map_update decode_map del: map_map)

end

interpretation rsa: block_cipher rsa_encrypt rsa_decrypt
  by unfold_locales (rule rsa_round_trip)

section \<open>Properties\<close>

text \<open>C18. Modular exponentiation: for a positive modulus whose square fits \<open>long long\<close>, a base that
  is not negative and a non-zero exponent, \<open>power\<close> returns \<open>x ^ y mod p\<close> without overflowing any intermediate product.\<close>

theorem power_computes_modexp:
  assumes "0 \<le> x" "0 < uint p" "uint p * uint p \<le> 2 ^ 63" "y \<noteq> 0"
  shows "power x y p = Inr (word_of_int (x ^ unat y mod uint p))"
  using assms by (rule power_correct)

theorem power_computes_modexp_witness: "power 7 5 13 = Inr 11"
  using power_computes_modexp [of 7 13 5] by simp

text \<open>Encryption and decryption are total on arrays long enough and inverse to each other:
  decrypting the encrypted blocks gives back every 16-bit word, whatever was in the
  destination arrays.\<close>

theorem crypto_round_trip:
  assumes "length data = len" "length enc = len" "length data' = len"
  shows "\<exists>c. crypto_encrypt len data enc = Inr c \<and> length c = len \<and>
           crypto_decrypt len data' c = Inr data"
  using assms by (simp add: crypto_encrypt_map crypto_decrypt_map rsa.decode_map del: map_map)

theorem crypto_round_trip_witness:
  "\<exists>c. crypto_encrypt 2 [0xBBDD, 0x0000] [0, 0] = Inr c \<and> length c = 2 \<and>
     crypto_decrypt 2 [1, 1] c = Inr [0xBBDD, 0x0000]"
  by (rule crypto_round_trip) simp_all

end
