(* ===== verification/Protocol.thy ===== *)
theory Protocol
  imports Crc Security
begin

text \<open>
  \<open>src/pagers-common/protocol.hpp\<close> and \<open>protocol.cpp\<close>: the 16-byte message, its checksum
  and the 32-byte frame that carries it encrypted. The casts of the code (the message as
  bytes, as eight shorts, the frame as eight ints) are views of the same little-endian
  memory.

  The lemmas show that a sealed message survives the frame unchanged and verifies, and
  that damage confined to one 32-bit block of a frame never yields a different message
  with a valid checksum.
\<close>

section \<open>The code\<close>

record proto_data =
  sequence_number :: u64
  receiver_id :: u16
  message_type :: u16
  message_param :: u16
  checksum :: u16

datatype MessageType = DEFAULT | PAIR | FLASH

fun message_code :: "MessageType \<Rightarrow> u16" where
  "message_code DEFAULT = 0xDBDB"
| "message_code PAIR = 0xBDBD"
| "message_code FLASH = 0xBBDD"

definition PROTO_DATA_SIZE :: nat where "PROTO_DATA_SIZE = 16"
definition PROTO_CHECKSUM_SIZE :: nat where "PROTO_CHECKSUM_SIZE = 2"

record proto_frame =
  encrypted_data :: "u8 list"

definition PROTO_FRAME_SIZE :: nat where "PROTO_FRAME_SIZE = PROTO_DATA_SIZE * 2"

definition SUCCESS :: int where "SUCCESS = 0"
definition ERR_WRONG_CHECKSUM :: int where "ERR_WRONG_CHECKSUM = -1"

text \<open>The memory of a \<open>struct proto_data\<close>: fields in declaration order, no padding.\<close>

definition proto_bytes :: "proto_data \<Rightarrow> u8 list" where
  "proto_bytes d =
     le_bytes 8 (sequence_number d) @ le_bytes 2 (receiver_id d) @ le_bytes 2 (message_type d) @
     le_bytes 2 (message_param d) @ le_bytes 2 (checksum d)"

definition proto_of_bytes :: "u8 list \<Rightarrow> proto_data" where
  "proto_of_bytes bs =
     \<lparr>sequence_number = le_word (take 8 bs),
      receiver_id = le_word (take 2 (drop 8 bs)),
      message_type = le_word (take 2 (drop 10 bs)),
      message_param = le_word (take 2 (drop 12 bs)),
      checksum = le_word (take 2 (drop 14 bs))\<rparr>"

definition proto_checksum_calc :: "crc_state \<Rightarrow> proto_data \<Rightarrow> (int \<times> proto_data \<times> crc_state) result" where
  "proto_checksum_calc st data =
     rbind (crc_16 st (Some (proto_bytes data)) (PROTO_DATA_SIZE - PROTO_CHECKSUM_SIZE))
       (\<lambda>(c, st'). Inr (SUCCESS, data\<lparr>checksum := c\<rparr>, st'))"

definition proto_checksum_verify :: "crc_state \<Rightarrow> proto_data \<Rightarrow> (int \<times> crc_state) result" where
  "proto_checksum_verify st data =
     rbind (crc_16 st (Some (proto_bytes data)) (PROTO_DATA_SIZE - PROTO_CHECKSUM_SIZE))
       (\<lambda>(crc_should_be, st').
          Inr (if crc_should_be \<noteq> checksum data then ERR_WRONG_CHECKSUM else SUCCESS, st'))"

definition proto_encrypt :: "proto_data \<Rightarrow> proto_frame \<Rightarrow> (int \<times> proto_frame) result" where
  "proto_encrypt data frame =
     rbind (crypto_encrypt (PROTO_DATA_SIZE div 2)
              (words_of 2 (PROTO_DATA_SIZE div 2) (proto_bytes data))
              (words_of 4 (length (encrypted_data frame) div 4) (encrypted_data frame)))
       (\<lambda>enc. Inr (SUCCESS, frame\<lparr>encrypted_data := bytes_of 4 enc\<rparr>))"

definition proto_decrypt :: "proto_frame \<Rightarrow> proto_data \<Rightarrow> (int \<times> proto_data) result" where
  "proto_decrypt frame data =
     rbind (crypto_decrypt (PROTO_DATA_SIZE div 2)
              (words_of 2 (PROTO_DATA_SIZE div 2) (proto_bytes data))
              (words_of 4 (length (encrypted_data frame) div 4) (encrypted_data frame)))
       (\<lambda>dec. Inr (SUCCESS, proto_of_bytes (bytes_of 2 dec)))"

definition frame_wf :: "proto_frame \<Rightarrow> bool" where
  "frame_wf f \<longleftrightarrow> length (encrypted_data f) = PROTO_FRAME_SIZE"

lemmas proto_sizes = PROTO_DATA_SIZE_def PROTO_CHECKSUM_SIZE_def PROTO_FRAME_SIZE_def

section \<open>The memory of a message\<close>

lemma length_proto_bytes [simp]: "length (proto_bytes d) = 16"
  by (simp add: proto_bytes_def)

lemma proto_of_bytes_proto_bytes [simp]: "proto_of_bytes (proto_bytes d) = d"
  by (simp add: proto_of_bytes_def proto_bytes_def le_word_le_bytes)

lemma take_drop_split: "take k (drop i xs) @ drop (i + k) xs = drop i xs"
  by (metis append_take_drop_id drop_drop add.commute)

lemma proto_bytes_proto_of_bytes:
  assumes "length bs = 16"
  shows "proto_bytes (proto_of_bytes bs) = bs"
proof -
  have "proto_bytes (proto_of_bytes bs) =
      take 8 bs @ take 2 (drop 8 bs) @ take 2 (drop 10 bs) @ take 2 (drop 12 bs) @ take 2 (drop 14 bs)"
    using assms by (simp add: proto_bytes_def proto_of_bytes_def le_bytes_le_word)
  also have "take 2 (drop 14 bs) = drop 14 bs" using assms by simp
  also have "take 2 (drop 12 bs) @ drop 14 bs = drop 12 bs" using take_drop_split [of 2 12 bs] by simp
  also have "take 2 (drop 10 bs) @ drop 12 bs = drop 10 bs" using take_drop_split [of 2 10 bs] by simp
  also have "take 2 (drop 8 bs) @ drop 10 bs = drop 8 bs" using take_drop_split [of 2 8 bs] by simp
  finally show ?thesis by simp
qed

definition proto_words :: "proto_data \<Rightarrow> u16 list" where
  "proto_words d = words_of 2 8 (proto_bytes d)"

lemma length_proto_words [simp]: "length (proto_words d) = 8"
  by (simp add: proto_words_def)

lemma bytes_of_proto_words [simp]: "bytes_of 2 (proto_words d) = proto_bytes d"
  by (simp add: proto_words_def bytes_of_words_of)

lemma proto_words_of_words:
  "length ws = 8 \<Longrightarrow> proto_words (proto_of_bytes (bytes_of 2 ws)) = ws"
  using words_of_bytes_of [of 2 ws] by (simp add: proto_words_def proto_bytes_proto_of_bytes)

lemma proto_words_inj: "proto_words d = proto_words d' \<Longrightarrow> d = d'"
  by (metis bytes_of_proto_words proto_of_bytes_proto_bytes)

section \<open>Sealing and opening\<close>

text \<open>The checksum covers all but the last word, so setting it does not change what it covers.\<close>

definition proto_crc :: "proto_data \<Rightarrow> u16" where
  "proto_crc d = crc_bitwise (take 14 (proto_bytes d))"

definition proto_seal :: "proto_data \<Rightarrow> proto_data" where
  "proto_seal d = d\<lparr>checksum := proto_crc d\<rparr>"

lemma proto_crc_checksum [simp]: "proto_crc (d\<lparr>checksum := c\<rparr>) = proto_crc d"
  by (simp add: proto_crc_def proto_bytes_def)

lemma checksum_calc_seal:
  "crc_inv st \<Longrightarrow> proto_checksum_calc st d = Inr (SUCCESS, proto_seal d, crc_ready st)"
  by (simp add: proto_checksum_calc_def crc_16_value proto_sizes proto_seal_def proto_crc_def)

lemma checksum_verify_value:
  "crc_inv st \<Longrightarrow> proto_checksum_verify st d =
     Inr (if checksum d = proto_crc d then SUCCESS else ERR_WRONG_CHECKSUM, crc_ready st)"
  by (auto simp: proto_checksum_verify_def crc_16_value proto_sizes proto_crc_def)

lemma SUCCESS_not_ERR [simp]: "SUCCESS \<noteq> ERR_WRONG_CHECKSUM" "ERR_WRONG_CHECKSUM \<noteq> SUCCESS"
  by (simp_all add: SUCCESS_def ERR_WRONG_CHECKSUM_def)

definition proto_blocks :: "proto_data \<Rightarrow> u32 list" where
  "proto_blocks d = map rsa_encrypt (proto_words d)"

lemma length_proto_blocks [simp]: "length (proto_blocks d) = 8"
  by (simp add: proto_blocks_def)

lemma proto_encrypt_blocks:
  assumes "frame_wf f"
  shows "proto_encrypt d f = Inr (SUCCESS, f\<lparr>encrypted_data := bytes_of 4 (proto_blocks d)\<rparr>)"
  using assms
  by (simp add: proto_encrypt_def proto_sizes frame_wf_def crypto_encrypt_map proto_blocks_def
      proto_words_def)

lemma proto_decrypt_blocks:
  assumes "encrypted_data f = bytes_of 4 cs" "length cs = 8"
  shows "proto_decrypt f d = Inr (SUCCESS, proto_of_bytes (bytes_of 2 (map rsa_decrypt cs)))"
proof -
  have "words_of 4 8 (bytes_of 4 cs) = cs"
    using words_of_bytes_of [of 4 cs] assms(2) by simp
  then show ?thesis using assms
    by (simp add: proto_decrypt_def proto_sizes crypto_decrypt_map)
qed

lemma proto_decrypt_own_blocks:
  "encrypted_data f = bytes_of 4 (proto_blocks d) \<Longrightarrow> proto_decrypt f d' = Inr (SUCCESS, d)"
  by (simp add: proto_decrypt_blocks) (simp add: proto_blocks_def rsa.decode_map del: map_map)

text \<open>Two messages that verify and differ in one word at most are the same message.\<close>

lemma take_14_split:
  "i < 7 \<Longrightarrow> length (ws :: u16 list) = 8 \<Longrightarrow>
     take 14 (bytes_of 2 (ws[i := w])) =
       bytes_of 2 (take i ws) @ le_bytes 2 w @ bytes_of 2 (take (6 - i) (drop (Suc i) ws))"
proof -
  assume i: "i < 7" and ws: "length ws = 8"
  have t7: "take 14 (bytes_of 2 vs) = bytes_of 2 (take 7 vs)" for vs :: "u16 list"
  proof -
    have "bytes_of 2 vs = bytes_of 2 (take 7 vs) @ bytes_of 2 (drop 7 vs)"
      by (metis append_take_drop_id bytes_of_simps(3))
    then show ?thesis by (cases "7 \<le> length vs") simp_all
  qed
  have "take 7 (ws[i := w]) = take i ws @ w # take (6 - i) (drop (Suc i) ws)"
    using i ws by (simp add: upd_conv_take_nth_drop min_def take_Cons' Suc_diff_Suc)
  then show ?thesis by (simp add: t7)
qed

lemma le_bytes_2: "le_bytes 2 w = [ucast w, ucast (drop_bit 8 w)]"
  by (simp add: le_bytes_def numeral_2_eq_2)

lemma le_bytes_inj: "le_bytes 2 (v :: u16) = le_bytes 2 w \<Longrightarrow> v = w"
proof -
  assume eq: "le_bytes 2 v = le_bytes 2 w"
  have "v = le_word (le_bytes 2 v)" by (rule le_word_le_bytes [symmetric]) simp
  also have "\<dots> = w" unfolding eq by (rule le_word_le_bytes) simp
  finally show "v = w" .
qed

lemma proto_words_checksum: "proto_words d ! 7 = checksum d"
  by (simp add: proto_words_def words_of_def proto_bytes_def le_word_le_bytes)

lemma one_word_changed:
  assumes "i < 8" and d: "checksum d = proto_crc d" and d': "checksum d' = proto_crc d'"
    and ws: "proto_words d' = (proto_words d)[i := w]"
  shows "d' = d"
proof -
  let ?ws = "proto_words d"
  have bytes: "proto_bytes d' = bytes_of 2 (?ws[i := w])"
    using ws by (metis bytes_of_proto_words)
  have same: "proto_bytes d = bytes_of 2 (?ws[i := ?ws ! i])" by simp
  have "w = ?ws ! i"
  proof (cases "i = 7")
    case True
    have "take 14 (bytes_of 2 (?ws[7 := v])) = take 14 (bytes_of 2 ?ws)" for v
    proof -
      have "?ws = take 7 ?ws @ [?ws ! 7]"
        using take_Suc_conv_app_nth [of 7 ?ws] by simp
      moreover from this have "?ws[7 := v] = take 7 ?ws @ [v]"
        by (simp add: upd_conv_take_nth_drop)
      moreover have "take 14 (bytes_of 2 (take 7 ?ws @ [u])) = bytes_of 2 (take 7 ?ws)" for u
        by simp
      ultimately show ?thesis by metis
    qed
    then have "proto_crc d' = proto_crc d" using True by (simp add: proto_crc_def bytes)
    with d d' have "checksum d' = checksum d" by simp
    moreover have "checksum d' = w"
      using ws True by (simp flip: proto_words_checksum)
    ultimately show ?thesis using True by (simp add: proto_words_checksum)
  next
    case False
    with assms(1) have i: "i < 7" by simp
    have "checksum d' = checksum d"
      using ws False by (simp flip: proto_words_checksum)
    with d d' have "crc_bitwise (take 14 (bytes_of 2 (?ws[i := w]))) =
        crc_bitwise (take 14 (bytes_of 2 (?ws[i := ?ws ! i])))"
      by (simp add: proto_crc_def bytes flip: same)
    then have "le_bytes 2 w = le_bytes 2 (?ws ! i)"
      unfolding take_14_split [OF i length_proto_words] le_bytes_2
      using crc_bitwise_two_bytes by fastforce
    then show ?thesis by (rule le_bytes_inj)
  qed
  then have "proto_words d' = proto_words d" using ws by simp
  then show ?thesis by (rule proto_words_inj)
qed

lemma seal_verifies: "checksum (proto_seal d) = proto_crc (proto_seal d)"
  by (simp add: proto_seal_def)

section \<open>Properties\<close>

text \<open>C4. What the server seals, the client opens: computing the checksum, encrypting into any
  32-byte frame and decrypting gives back every field of the message, and the checksum of the
  result verifies.\<close>

theorem proto_seal_open:
  assumes "crc_inv st" "crc_inv st'" "frame_wf f"
  shows "\<exists>d1 st1 f1 st2.
     proto_checksum_calc st d = Inr (SUCCESS, d1, st1) \<and>
     proto_encrypt d1 f = Inr (SUCCESS, f1) \<and> frame_wf f1 \<and>
     proto_decrypt f1 junk = Inr (SUCCESS, d1) \<and>
     proto_checksum_verify st' d1 = Inr (SUCCESS, st2) \<and>
     d1 = d\<lparr>checksum := checksum d1\<rparr> \<and> crc_inv st1 \<and> crc_inv st2"
  using assms
  by (simp add: checksum_calc_seal proto_encrypt_blocks frame_wf_def proto_sizes
      proto_decrypt_own_blocks checksum_verify_value seal_verifies crc_inv_ready)
    (simp add: proto_seal_def)

theorem proto_seal_open_witness:
  "\<exists>d1 st1 f1 st2.
     proto_checksum_calc crc_init \<lparr>sequence_number = 1, receiver_id = 0x1215,
       message_type = message_code FLASH, message_param = 30, checksum = 0\<rparr> = Inr (SUCCESS, d1, st1) \<and>
     proto_encrypt d1 \<lparr>encrypted_data = replicate 32 0\<rparr> = Inr (SUCCESS, f1) \<and> frame_wf f1 \<and>
     proto_decrypt f1 (proto_of_bytes []) = Inr (SUCCESS, d1) \<and>
     proto_checksum_verify crc_init d1 = Inr (SUCCESS, st2) \<and>
     d1 = \<lparr>sequence_number = 1, receiver_id = 0x1215,
       message_type = message_code FLASH, message_param = 30, checksum = 0\<rparr>\<lparr>checksum := checksum d1\<rparr> \<and>
     crc_inv st1 \<and> crc_inv st2"
  by (rule proto_seal_open)
    (simp_all add: crc_inv_init frame_wf_def proto_sizes)

text \<open>Damage is noticed: if one of the eight 32-bit blocks of a sealed frame is replaced by
  anything at all, the receiver either decrypts the very message that was sent or its
  checksum test reports \<open>ERR_WRONG_CHECKSUM\<close>.\<close>

theorem damaged_block_detected:
  assumes "crc_inv st" "i < 8"
    and "encrypted_data f = bytes_of 4 ((proto_blocks (proto_seal d))[i := c])"
  shows "\<exists>d' st'. proto_decrypt f junk = Inr (SUCCESS, d') \<and>
     (proto_checksum_verify st d' = Inr (ERR_WRONG_CHECKSUM, st') \<or>
      d' = proto_seal d \<and> proto_checksum_verify st d' = Inr (SUCCESS, st'))"
proof -
  let ?d' = "proto_of_bytes (bytes_of 2 ((proto_words (proto_seal d))[i := rsa_decrypt c]))"
  have dec: "proto_decrypt f junk = Inr (SUCCESS, ?d')"
    using proto_decrypt_blocks [OF assms(3)] assms(2)
    by (simp add: proto_blocks_def rsa.decode_one_block)
  have ws: "proto_words ?d' = (proto_words (proto_seal d))[i := rsa_decrypt c]"
    by (rule proto_words_of_words) simp
  show ?thesis
  proof (cases "checksum ?d' = proto_crc ?d'")
    case True
    from one_word_changed [OF assms(2) seal_verifies True ws]
    have "?d' = proto_seal d" .
    with dec True assms(1) show ?thesis by (simp add: checksum_verify_value)
  qed (use dec assms(1) in \<open>simp add: checksum_verify_value\<close>)
qed

theorem damaged_block_detected_witness:
  "\<exists>d' st'. proto_decrypt \<lparr>encrypted_data = bytes_of 4 ((proto_blocks (proto_seal (proto_of_bytes
        (replicate 16 7))))[3 := 12345])\<rparr> (proto_of_bytes []) = Inr (SUCCESS, d') \<and>
     (proto_checksum_verify crc_init d' = Inr (ERR_WRONG_CHECKSUM, st') \<or>
      d' = proto_seal (proto_of_bytes (replicate 16 7)) \<and>
      proto_checksum_verify crc_init d' = Inr (SUCCESS, st'))"
  by (rule damaged_block_detected [OF crc_inv_init, of 3]) simp_all

end
