(* ===== verification/Radio_Link.thy ===== *)
theory Radio_Link
  imports Physical
begin

text \<open>
  The receiver of \<open>src/pagers-common/physical.cpp\<close> over arbitrary edges, and over the edges
  a transmitter's levels make on a link that distorts pulses.

  \<open>pulse_code\<close> is the interface between the two ends: levels for 0, 1 and silence, and a
  classifier of received high times that is right within a tolerance. It is interpreted on
  the PWM constants. \<open>rx_at\<close> says what the receiver holds after \<open>k\<close> bits of a frame.
\<close>

section \<open>Pulses\<close>

locale pulse_code =
  fixes level :: "bool \<Rightarrow> int" and silence :: int
    and classify :: "int \<Rightarrow> bool option" and tolerance :: int
  assumes classify_bit: "\<bar>c - level v\<bar> \<le> tolerance \<Longrightarrow> classify c = Some v"
    and classify_silence: "\<bar>c - silence\<bar> \<le> tolerance \<Longrightarrow> classify c = None"
begin

lemma classify_bits:
  "list_all2 (\<lambda>v c. \<bar>c - level v\<bar> \<le> tolerance) vs cs \<Longrightarrow> map classify cs = map Some vs"
  by (induction vs cs rule: list_all2_induct) (simp_all add: classify_bit)

lemma levels_differ: "0 \<le> tolerance \<Longrightarrow> level True \<noteq> level False \<and> level v \<noteq> silence"
  using classify_bit [of "level True" True] classify_bit [of "level True" False]
    classify_bit [of "level v" v] classify_silence [of "level v"] by auto

end

definition rx_class :: "int \<Rightarrow> bool option" where
  "rx_class c =
     (if c < PWM_DUTY_ZERO_MAX then Some False
      else if c > PWM_DUTY_ONE_MIN then Some True
      else None)"

text \<open>A sixth of the period, the distance of the transmitted high times from the thresholds.\<close>

definition pulse_tolerance :: int where "pulse_tolerance = PWM_DUTY_ZERO"

interpretation pwm: pulse_code bit_level PWM_DUTY_SILENCE rx_class pulse_tolerance
  by unfold_locales
    (auto simp: bit_level_def rx_class_def pulse_tolerance_def pwm_config_values split: if_splits)

lemma rx_bit_class:
  "rx_bit cnt = (case rx_class (uint cnt) of None \<Rightarrow> -1 | Some v \<Rightarrow> of_bool v)"
  by (auto simp: rx_bit_def rx_class_def)

lemma rx_bit_cases:
  obtains (bit) v where "rx_bit cnt = of_bool v" | (silence) "rx_bit cnt = -1"
  by (cases "rx_class (uint cnt)") (simp_all add: rx_bit_class)

section \<open>The receiver over arbitrary edges\<close>

lemma bit_rx_shift_in:
  "bit (rx_shift_in (of_bool v) b) j \<longleftrightarrow> (if j = 0 then v else j < 8 \<and> bit b (j - 1))"
  by (cases v; cases j) (auto simp: rx_shift_in_def Let_def bit_simps
      simp del: push_bit_Suc dest: bit_imp_le_length)

text \<open>One step on a bit, with the fields of the new state.\<close>

lemma rx_step_bit:
  assumes "rx_inv st" and "rx_bit cnt = of_bool v"
  defines "i \<equiv> unat (rx_byte_index st)"
  shows "\<exists>st'. rx_fall_callback cnt now st = Inr (None, st') \<and> rx_inv st' \<and>
     rx_cb_set st' = rx_cb_set st \<and> last_good_bit st' = now \<and>
     rx_bytes st' = (rx_bytes st)[i := rx_shift_in (of_bool v) (rx_bytes st ! i)] \<and>
     unat (rx_bit_index st') = (unat (rx_bit_index st) + 1) mod 8 \<and>
     unat (rx_byte_index st') =
       (if unat (rx_bit_index st) = 7 then (i + 1) mod BYTE_BUFFER_SIZE else i)"
proof -
  have len: "length (rx_bytes st) = BYTE_BUFFER_SIZE" and i: "i < BYTE_BUFFER_SIZE"
      "i < length (rx_bytes st)" and j: "unat (rx_bit_index st) < 8"
    using assms(1) by (simp_all add: rx_inv_def i_def)
  have u1: "unat (rx_bit_index st + 1) = unat (rx_bit_index st) + 1"
    using j by (simp add: unat_word_ariths)
  have u2: "unat (rx_byte_index st + 1) = i + 1"
    using i by (simp add: unat_word_ariths i_def BYTE_BUFFER_SIZE_def)
  have full: "rx_bit_index st + 1 = 8 \<longleftrightarrow> unat (rx_bit_index st) = 7"
    using u1 by (simp add: word_unat_eq_iff)
  have bit: "rx_bit cnt \<noteq> -1" using assms(2) by (cases v) simp_all
  define buf where "buf = (rx_bytes st)[i := rx_shift_in (of_bool v) (rx_bytes st ! i)]"
  define st1 where
    "st1 = st\<lparr>last_good_bit := now, rx_bytes := buf, rx_bit_index := rx_bit_index st + 1\<rparr>"
  define st' where
    "st' = (if unat (rx_bit_index st) = 7
       then st1\<lparr>rx_bit_index := 0,
              rx_byte_index := if i + 1 = BYTE_BUFFER_SIZE then 0 else rx_byte_index st + 1\<rparr>
       else st1)"
  have "rx_fall_callback cnt now st = Inr (None, st')"
    using bit i assms(2)
    by (simp add: rx_fall_callback_def arr_get_def arr_put_def full u2 Let_def st'_def st1_def
        buf_def flip: i_def)
  moreover have "rx_inv st'"
    using len i j u1 u2 by (auto simp: rx_inv_def st'_def st1_def buf_def BYTE_BUFFER_SIZE_def i_def)
  ultimately show ?thesis
    using i j u1 u2 by (auto simp: st'_def st1_def buf_def i_def)
qed

text \<open>One step on silence: nothing before the gap, the end of the frame after it.\<close>

definition frame_gap :: "u64 \<Rightarrow> u64 \<Rightarrow> bool" where
  "frame_gap t now \<longleftrightarrow> now - t > word_of_int SPACING_ALLOWED_US_MAX"

lemma rx_step_silence:
  assumes "rx_bit cnt = -1"
  shows "\<not> frame_gap (last_good_bit st) now \<Longrightarrow> rx_fall_callback cnt now st = Inr (None, st)"
    and "frame_gap (last_good_bit st) now \<Longrightarrow> rx_cb_set st \<or> rx_byte_index st = 0 \<Longrightarrow>
      rx_fall_callback cnt now st =
        Inr (if rx_byte_index st = 0 then None else Some (rx_bytes st, rx_byte_index st),
             st\<lparr>rx_byte_index := 0, rx_bit_index := 0\<rparr>)"
  using assms by (auto simp: rx_fall_callback_def frame_gap_def word_pos_iff)

lemma rx_inv_reset: "rx_inv st \<Longrightarrow> rx_inv (st\<lparr>rx_byte_index := 0, rx_bit_index := 0\<rparr>)"
  by (simp add: rx_inv_def BYTE_BUFFER_SIZE_def)

lemma rx_step_any:
  assumes "rx_inv st" "rx_cb_set st"
  shows "\<exists>out st'. rx_fall_callback cnt now st = Inr (out, st') \<and> rx_inv st' \<and> rx_cb_set st' \<and>
     (\<forall>buf n. out = Some (buf, n) \<longrightarrow> length buf = BYTE_BUFFER_SIZE \<and> 0 < unat n \<and> unat n < BYTE_BUFFER_SIZE)"
proof (cases cnt rule: rx_bit_cases)
  case (bit v)
  with rx_step_bit [OF assms(1) bit, of now] assms(2) show ?thesis by auto
next
  case silence
  show ?thesis
  proof (cases "frame_gap (last_good_bit st) now")
    case True
    with rx_step_silence(2) [OF silence True] assms rx_inv_reset [OF assms(1)] show ?thesis
      by (auto simp: rx_inv_def unat_gt_0)
  qed (use rx_step_silence(1) [OF silence] assms in auto)
qed

lemma rx_run_any:
  assumes "rx_inv st" "rx_cb_set st"
  shows "\<exists>fs st'. rx_run es st = Inr (fs, st') \<and> rx_inv st' \<and> rx_cb_set st' \<and>
     (\<forall>f\<in>set fs. 0 < length f \<and> length f < BYTE_BUFFER_SIZE)"
  using assms
proof (induction es arbitrary: st)
  case (Cons e es)
  obtain cnt now where e: "e = (cnt, now)" by fastforce
  from rx_step_any [OF Cons.prems, of cnt now] obtain out st1 where
    st1: "rx_fall_callback cnt now st = Inr (out, st1)" "rx_inv st1" "rx_cb_set st1"
    and out: "\<And>buf n. out = Some (buf, n) \<Longrightarrow>
      length buf = BYTE_BUFFER_SIZE \<and> 0 < unat n \<and> unat n < BYTE_BUFFER_SIZE" by blast
  from Cons.IH [OF st1(2,3)] obtain fs st' where
    "rx_run es st1 = Inr (fs, st')" "rx_inv st'" "rx_cb_set st'"
    "\<forall>f\<in>set fs. 0 < length f \<and> length f < BYTE_BUFFER_SIZE" by blast
  with st1 out show ?case by (auto simp: e split: option.splits)
qed simp

lemma rx_run_append:
  "rx_run (es @ es') st = rbind (rx_run es st) (\<lambda>(fs, st').
     rbind (rx_run es' st') (\<lambda>(fs', st''). Inr (fs @ fs', st'')))"
proof (induction es arbitrary: st)
  case Nil
  show ?case by (cases "rx_run es' st") auto
next
  case (Cons e es)
  obtain cnt now where e: "e = (cnt, now)" by fastforce
  show ?case
    by (simp add: e Cons.IH rbind_assoc split_def)
      (auto simp: rbind_def split: sum.splits option.splits)
qed

section \<open>A frame on the air\<close>

text \<open>What the receiver holds after \<open>k\<close> bits of \<open>bs\<close>: the whole bytes before the current
  one, and in the current one the bits so far, the latest lowest.\<close>

definition rx_at :: "u8 list \<Rightarrow> nat \<Rightarrow> rx_state \<Rightarrow> bool" where
  "rx_at bs k st \<longleftrightarrow> rx_inv st \<and> rx_cb_set st \<and>
     unat (rx_byte_index st) = k div 8 \<and> unat (rx_bit_index st) = k mod 8 \<and>
     take (k div 8) (rx_bytes st) = take (k div 8) bs \<and>
     (\<forall>j < k mod 8. bit (rx_bytes st ! (k div 8)) j = frame_bit bs (k - 1 - j))"

lemma rx_at_byte_done:
  assumes "\<forall>j < 8. bit (b :: u8) j = frame_bit bs (8 * i + 7 - j)"
  shows "b = bs ! i"
proof (rule bit_word_eqI)
  fix j assume "j < LENGTH(8)"
  then have j: "j < 8" by simp
  then have eq: "8 * i + 7 - j = (7 - j) + 8 * i" by simp
  have "7 - j < 8" by simp
  then have "(8 * i + 7 - j) div 8 = i" "(8 * i + 7 - j) mod 8 = 7 - j"
    unfolding eq by (simp_all only: div_mult_self2 mod_mult_self2 div_less mod_less)
  with assms j show "bit b j \<longleftrightarrow> bit (bs ! i) j" by (simp add: frame_bit_def)
qed

lemma rx_at_step:
  assumes at: "rx_at bs k st" and k: "k < 8 * length bs" and len: "length bs < BYTE_BUFFER_SIZE"
    and bit: "rx_bit cnt = of_bool (frame_bit bs k)"
  shows "\<exists>st'. rx_fall_callback cnt now st = Inr (None, st') \<and> rx_at bs (Suc k) st' \<and>
     last_good_bit st' = now"
proof -
  let ?i = "k div 8" and ?m = "k mod 8"
  from at have inv: "rx_inv st" by (simp add: rx_at_def)
  from at have idx: "unat (rx_byte_index st) = ?i" "unat (rx_bit_index st) = ?m"
    and bits: "\<And>j. j < ?m \<Longrightarrow> bit (rx_bytes st ! ?i) j = frame_bit bs (k - 1 - j)"
    and tk: "take ?i (rx_bytes st) = take ?i bs" by (auto simp: rx_at_def)
  let ?b = "rx_shift_in (of_bool (frame_bit bs k)) (rx_bytes st ! ?i)"
  from rx_step_bit [OF inv bit, of now] obtain st' where st':
    "rx_fall_callback cnt now st = Inr (None, st')" "rx_inv st'" "rx_cb_set st' = rx_cb_set st"
    "last_good_bit st' = now" "rx_bytes st' = (rx_bytes st)[?i := ?b]"
    "unat (rx_bit_index st') = (?m + 1) mod 8"
    "unat (rx_byte_index st') = (if ?m = 7 then (?i + 1) mod BYTE_BUFFER_SIZE else ?i)"
    unfolding idx by blast
  have i: "?i < length bs" using k by auto
  have li: "?i < length (rx_bytes st)" using inv i len by (simp add: rx_inv_def)
  have b: "bit ?b j = frame_bit bs (k - j)" if "j \<le> ?m" for j
  proof (cases j)
    case (Suc j')
    have "?m < 8" by simp
    with Suc that have "j < 8" "j' < ?m" by (linarith, simp)
    with Suc bits [of j'] show ?thesis by (simp add: bit_rx_shift_in)
  qed (simp add: bit_rx_shift_in)
  have "rx_at bs (Suc k) st'"
  proof (cases "?m = 7")
    case True
    have div: "Suc k div 8 = Suc ?i" "Suc k mod 8 = 0" and k7: "k = 8 * ?i + 7"
      using True by (auto simp: div_Suc mod_Suc) presburger
    have "?b = bs ! ?i"
      by (rule rx_at_byte_done) (use b True k7 in auto)
    then have "take (Suc ?i) (rx_bytes st') = take (Suc ?i) bs"
      using tk i by (simp add: st'(5) take_Suc_update [OF li] take_Suc_conv_app_nth)
    moreover have "Suc ?i < BYTE_BUFFER_SIZE" using i len by simp
    ultimately show ?thesis using at st' True by (simp add: rx_at_def div)
  next
    case False
    have div: "Suc k div 8 = ?i" "Suc k mod 8 = Suc ?m" and m: "Suc ?m < 8"
      using False mod_less_divisor [of 8 k] by (auto simp: div_Suc mod_Suc)
    show ?thesis using at st' False m b li tk by (simp add: rx_at_def div less_Suc_eq_le)
  qed
  with st'(1,4) show ?thesis by blast
qed

text \<open>Edges that a sequence of levels makes on a link that distorts each pulse by at most the
  tolerance; edges of silence before the gap that ends a frame.\<close>

definition carries :: "int list \<Rightarrow> (u32 \<times> u64) list \<Rightarrow> bool" where
  "carries ls es \<longleftrightarrow> list_all2 (\<lambda>l (cnt, now). \<bar>uint cnt - l\<bar> \<le> pulse_tolerance) ls es"

definition quiet :: "u64 \<Rightarrow> (u32 \<times> u64) list \<Rightarrow> bool" where
  "quiet t es \<longleftrightarrow>
     list_all (\<lambda>(cnt, now). \<bar>uint cnt - PWM_DUTY_SILENCE\<bar> \<le> pulse_tolerance \<and> \<not> frame_gap t now) es"

definition gap_edge :: "u64 \<Rightarrow> u32 \<times> u64 \<Rightarrow> bool" where
  "gap_edge t = (\<lambda>(cnt, now).
     \<bar>uint cnt - PWM_DUTY_SILENCE\<bar> \<le> pulse_tolerance \<and> frame_gap t now)"

lemma silence_edge: "\<bar>uint cnt - PWM_DUTY_SILENCE\<bar> \<le> pulse_tolerance \<Longrightarrow> rx_bit cnt = -1"
  by (simp add: rx_bit_class pwm.classify_silence)

lemma rx_run_quiet: "quiet (last_good_bit st) es \<Longrightarrow> rx_run es st = Inr ([], st)"
  by (induction es) (auto simp: quiet_def rx_step_silence(1) silence_edge)

lemma rx_run_bits:
  assumes "rx_at bs k st" "k \<le> 8 * length bs" "length bs < BYTE_BUFFER_SIZE"
    and "carries (drop k (frame_levels bs)) es"
  shows "\<exists>st'. rx_run es st = Inr ([], st') \<and> rx_at bs (8 * length bs) st' \<and>
     last_good_bit st' = last (last_good_bit st # map snd es)"
  using assms
proof (induction es arbitrary: k st)
  case Nil
  then have "length (drop k (frame_levels bs)) = 0" by (simp add: carries_def)
  with Nil have "k = 8 * length bs" by (simp add: frame_levels_def frame_bits_def)
  with Nil show ?case by simp
next
  case (Cons e es)
  obtain cnt now where e: "e = (cnt, now)" by fastforce
  from Cons.prems(4) have "length (drop k (frame_levels bs)) = Suc (length es)"
    by (auto simp: carries_def dest: list_all2_lengthD)
  then have k: "k < 8 * length bs" by (simp add: frame_levels_def frame_bits_def)
  with Cons.prems(4) have lev: "\<bar>uint cnt - bit_level (frame_bit bs k)\<bar> \<le> pulse_tolerance"
    and rest: "carries (drop (Suc k) (frame_levels bs)) es"
    by (simp_all add: carries_def e frame_levels_rest)
  have "rx_bit cnt = of_bool (frame_bit bs k)"
    by (simp add: rx_bit_class pwm.classify_bit [OF lev])
  from rx_at_step [OF Cons.prems(1) k Cons.prems(3) this, of now] obtain st1 where
    st1: "rx_fall_callback cnt now st = Inr (None, st1)" "rx_at bs (Suc k) st1"
    "last_good_bit st1 = now" by blast
  from Cons.IH [OF st1(2) _ Cons.prems(3) rest] k obtain st' where
    "rx_run es st1 = Inr ([], st')" "rx_at bs (8 * length bs) st'"
    "last_good_bit st' = last (last_good_bit st1 # map snd es)" by auto
  with st1 show ?case by (simp add: e)
qed

lemma rx_at_0: "rx_inv st \<Longrightarrow> rx_cb_set st \<Longrightarrow> rx_byte_index st = 0 \<Longrightarrow> rx_bit_index st = 0 \<Longrightarrow>
    rx_at bs 0 st"
  by (simp add: rx_at_def)

lemma rx_frame:
  assumes "rx_at bs 0 st" "bs \<noteq> []" "length bs < BYTE_BUFFER_SIZE"
    and "carries (frame_levels bs) es" "quiet (snd (last es)) qs" "gap_edge (snd (last es)) g"
  shows "\<exists>st'. rx_run (es @ qs @ [g]) st = Inr ([bs], st') \<and> rx_at bs 0 st' \<and>
     last_good_bit st' = snd (last es)"
proof -
  have "frame_levels bs \<noteq> []" using assms(2) by (simp add: frame_levels_def frame_bits_def)
  with assms(4) have es: "es \<noteq> []" by (auto simp: carries_def)
  from rx_run_bits [OF assms(1) _ assms(3), of es] assms(4) obtain st1 where
    r1: "rx_run es st = Inr ([], st1)" and at1: "rx_at bs (8 * length bs) st1"
    and t1: "last_good_bit st1 = snd (last es)" using es by (auto simp: last_map)
  obtain cnt now where g: "g = (cnt, now)" by fastforce
  have n: "unat (rx_byte_index st1) = length bs" "take (length bs) (rx_bytes st1) = bs"
    and inv: "rx_inv st1" "rx_cb_set st1"
    using at1 by (simp_all add: rx_at_def)
  have "rx_byte_index st1 \<noteq> 0" using n(1) assms(2) by auto
  moreover have "rx_fall_callback cnt now st1 =
      Inr (if rx_byte_index st1 = 0 then None else Some (rx_bytes st1, rx_byte_index st1),
           st1\<lparr>rx_byte_index := 0, rx_bit_index := 0\<rparr>)"
    by (rule rx_step_silence(2)) (use assms(6) inv in \<open>simp_all add: g gap_edge_def t1 silence_edge\<close>)
  moreover have "rx_run qs st1 = Inr ([], st1)"
    by (rule rx_run_quiet) (simp add: t1 assms(5))
  ultimately have "rx_run (es @ qs @ [g]) st =
      Inr ([bs], st1\<lparr>rx_byte_index := 0, rx_bit_index := 0\<rparr>)"
    by (simp add: rx_run_append r1 g n)
  moreover have "rx_at bs 0 (st1\<lparr>rx_byte_index := 0, rx_bit_index := 0\<rparr>)"
    by (rule rx_at_0) (use inv rx_inv_reset in auto)
  ultimately show ?thesis by (simp add: t1)
qed

section \<open>Properties\<close>

text \<open>C19. Sending is total and exact: from every reachable transmitter state the busy wait of
  \<open>send_bytes\<close> ends within 1025 interrupts, nothing leaves the 128-byte buffer, and the
  \<open>8 n + 1\<close> interrupts after the call set the levels of the \<open>n\<close> bytes, most significant bit
  first, then silence, and leave the transmitter idle.\<close>

theorem send_bytes_transmits:
  assumes "tx_inv st" "bs \<noteq> []" "length bs \<le> BYTE_BUFFER_SIZE"
  shows "\<exists>acts st1 acts' st2.
     send_bytes 1025 bs (int (length bs)) st = Some (Inr (acts @ [SleepUs SPACING_GENERATED_US], st1)) \<and>
     tx_run (8 * length bs + 1) st1 = Inr (acts', st2) \<and>
     tx_levels acts' = frame_levels bs @ [PWM_DUTY_SILENCE] \<and>
     \<not> tx_transfer st2 \<and> tx_inv st1 \<and> tx_inv st2"
proof -
  from tx_wait_ends [OF assms(1)] obtain acts st0 where
    w: "tx_wait 1025 st = Some (Inr (acts, st0))" "tx_inv st0" by blast
  from tx_inv_start [OF w(2) assms(2,3)] obtain st1 where
    s: "tx_start bs (int (length bs)) st0 = Inr st1" "tx_at bs 0 st1" "tx_inv st1" by blast
  from tx_rest [OF s(2) _ assms(2) refl] obtain acts' st2 where
    "tx_run (8 * length bs + 1) st1 = Inr (acts', st2)"
    "tx_levels acts' = frame_levels bs @ [PWM_DUTY_SILENCE]"
    "\<not> tx_transfer st2" "length (tx_bytes st2) = BYTE_BUFFER_SIZE" by auto
  with w(1) s(1,3) show ?thesis by (simp add: send_bytes_def tx_inv_def)
qed

theorem send_bytes_transmits_witness:
  "\<exists>acts st1 acts' st2.
     send_bytes 1025 [0xA5, 0x0F] (int (length [0xA5, 0x0F :: u8])) tx_init =
       Some (Inr (acts @ [SleepUs SPACING_GENERATED_US], st1)) \<and>
     tx_run (8 * length [0xA5, 0x0F :: u8] + 1) st1 = Inr (acts', st2) \<and>
     tx_levels acts' = frame_levels [0xA5, 0x0F] @ [PWM_DUTY_SILENCE] \<and>
     \<not> tx_transfer st2 \<and> tx_inv st1 \<and> tx_inv st2"
  by (rule send_bytes_transmits [OF tx_inv_init]) (simp_all add: BYTE_BUFFER_SIZE_def)

text \<open>C20. The receiver is memory safe under any noise: whatever edges arrive, at whatever times,
  the handler never indexes outside its buffer, and every frame it delivers has between 1
  and 127 bytes.\<close>

theorem receiver_safe_under_noise:
  assumes "rx_inv st" "rx_cb_set st"
  shows "\<exists>fs st'. rx_run es st = Inr (fs, st') \<and> rx_inv st' \<and>
     (\<forall>f\<in>set fs. 0 < length f \<and> length f < BYTE_BUFFER_SIZE)"
  using rx_run_any [OF assms] by blast

theorem receiver_safe_under_noise_witness:
  "\<exists>fs st'. rx_run [(900, 10), (512, 5000), (100, 6000)] (rx_set_callback True rx_init) =
     Inr (fs, st') \<and> rx_inv st' \<and> (\<forall>f\<in>set fs. 0 < length f \<and> length f < BYTE_BUFFER_SIZE)"
  by (rule receiver_safe_under_noise)
    (simp_all add: rx_inv_def rx_set_callback_def rx_init_def BYTE_BUFFER_SIZE_def)

text \<open>C5. Framing recovers from noise: from any state of the receiver, after one silent gap the
  next frame of 1 to 127 bytes is delivered exactly, once, and as one call, over any link
  that distorts every pulse by at most a sixth of a period; all that can come before it is
  one delivery of what the noise had left.\<close>

theorem receiver_delivers_frame:
  assumes "rx_inv st" "rx_cb_set st" "bs \<noteq> []" "length bs < BYTE_BUFFER_SIZE"
    and "gap_edge (last_good_bit st) g0"
    and "carries (frame_levels bs) es" "quiet (snd (last es)) qs" "gap_edge (snd (last es)) g"
  shows "\<exists>noise st'. rx_run (g0 # es @ qs @ [g]) st = Inr (noise @ [bs], st') \<and>
     length noise \<le> 1 \<and> rx_inv st' \<and> rx_byte_index st' = 0 \<and> rx_bit_index st' = 0"
proof -
  obtain cnt now where g0: "g0 = (cnt, now)" by fastforce
  let ?st = "st\<lparr>rx_byte_index := 0, rx_bit_index := 0\<rparr>"
  have step: "rx_fall_callback cnt now st =
      Inr (if rx_byte_index st = 0 then None else Some (rx_bytes st, rx_byte_index st), ?st)"
    by (rule rx_step_silence(2)) (use assms(2,5) in \<open>simp_all add: g0 gap_edge_def silence_edge\<close>)
  have "rx_at bs 0 ?st" by (rule rx_at_0) (use assms(1,2) rx_inv_reset in auto)
  from rx_frame [OF this assms(3,4,6,7,8)] obtain st' where
    run: "rx_run (es @ qs @ [g]) ?st = Inr ([bs], st')" and at: "rx_at bs 0 st'" by blast
  have "unat (rx_byte_index st') = 0" "unat (rx_bit_index st') = 0" "rx_inv st'"
    using at by (simp_all add: rx_at_def)
  then have st': "rx_byte_index st' = 0 \<and> rx_bit_index st' = 0 \<and> rx_inv st'"
    by (simp add: unat_eq_0)
  show ?thesis
    by (rule exI [of _ "if rx_byte_index st = 0 then []
          else [take (unat (rx_byte_index st)) (rx_bytes st)]"])
      (simp add: g0 step run st')
qed

theorem receiver_delivers_frame_witness:
  "\<exists>noise st'. rx_run ((600, 9000) #
       [(700, 9416), (1, 9832), (1000, 10248), (340, 10664), (0, 11080), (853, 11496), (170, 11912), (683, 12328)]
       @ [(400, 12744)] @ [(512, 17000)])
     (rx_set_callback True rx_init) = Inr (noise @ [[0xA5]], st') \<and>
     length noise \<le> 1 \<and> rx_inv st' \<and> rx_byte_index st' = 0 \<and> rx_bit_index st' = 0"
  by (rule receiver_delivers_frame)
    (simp_all add: rx_inv_def rx_set_callback_def rx_init_def BYTE_BUFFER_SIZE_def gap_edge_def
      frame_gap_def quiet_def carries_def pulse_tolerance_def pwm_config_values frame_levels_def
      frame_bits_def frame_bit_def bit_level_def upt_rec)

end
