(* ===== verification/Ieee_Double.thy ===== *)
theory Ieee_Double
  imports Pager_Prelude
begin

text \<open>
  The C type \<open>double\<close> (and \<open>float\<close>) as IEEE 754 defines them, for the numbers of
  \<open>ArduinoJson.h\<close>: a \<open>double\<close> is its 64-bit pattern, a finite one stands for
  \<open>m * 2 ^ e\<close> with a sign, and every operation rounds its exact result to the nearest pattern,
  ties to even. The conversion to an unsigned integer truncates; outside the range C leaves it
  undefined, and the RP2040 library saturates.
\<close>

type_synonym f64 = u64
type_synonym f32 = u32

datatype float_value = FNan | FInf bool | FFin bool nat int

fun count_bits :: "nat \<Rightarrow> int \<Rightarrow> int" where
  "count_bits n k = (if n = 0 then k else count_bits (n div 2) (k + 1))"

declare count_bits.simps [simp del]

definition bit_length :: "nat \<Rightarrow> int" where
  "bit_length n = count_bits n 0"

text \<open>A format: the number of fraction bits, the largest biased exponent, the exponent of the last bit
  of a subnormal.\<close>

record float_format =
  ff_bits :: nat
  ff_top :: nat
  ff_low :: int

definition binary64 :: float_format where
  "binary64 = \<lparr>ff_bits = 52, ff_top = 2047, ff_low = -1074\<rparr>"

definition binary32 :: float_format where
  "binary32 = \<lparr>ff_bits = 23, ff_top = 255, ff_low = -149\<rparr>"

definition fl_decode :: "float_format \<Rightarrow> bool \<Rightarrow> nat \<Rightarrow> float_value" where
  "fl_decode ff neg n =
     (let frac = n mod 2 ^ ff_bits ff; biased = n div 2 ^ ff_bits ff
      in if biased = ff_top ff then (if frac = 0 then FInf neg else FNan)
         else if biased = 0 then FFin neg frac (ff_low ff)
         else FFin neg (frac + 2 ^ ff_bits ff) (ff_low ff + int biased - 1))"

text \<open>\<open>m / 2 ^ d\<close>, to the nearest, ties to even.\<close>

definition round_shift :: "nat \<Rightarrow> nat \<Rightarrow> nat" where
  "round_shift m d =
     (let q = m div 2 ^ d; r = m mod 2 ^ d
      in if 2 * r > 2 ^ d \<or> (2 * r = 2 ^ d \<and> odd q) then q + 1 else q)"

text \<open>The pattern (without its sign) nearest to \<open>m * 2 ^ e\<close>; a carry out of the fraction
  lands in the exponent.\<close>

definition fl_round :: "float_format \<Rightarrow> nat \<Rightarrow> int \<Rightarrow> nat" where
  "fl_round ff m e =
     (if m = 0 then 0
      else let e' = max (e + bit_length m - int (ff_bits ff) - 1) (ff_low ff);
               q = (if e' \<le> e then m * 2 ^ nat (e - e') else round_shift m (nat (e' - e)));
               pattern = nat (e' - ff_low ff) * 2 ^ ff_bits ff + q
           in min pattern (ff_top ff * 2 ^ ff_bits ff))"

definition decode64 :: "f64 \<Rightarrow> float_value" where
  "decode64 w = fl_decode binary64 (unat w \<ge> 2 ^ 63) (unat w mod 2 ^ 63)"

definition decode32 :: "f32 \<Rightarrow> float_value" where
  "decode32 w = fl_decode binary32 (unat w \<ge> 2 ^ 31) (unat w mod 2 ^ 31)"

definition f64_nan :: f64 where "f64_nan = 0x7ff8000000000000"
definition f32_nan :: f32 where "f32_nan = 0x7fc00000"

definition encode64 :: "float_value \<Rightarrow> f64" where
  "encode64 v =
     (case v of
        FNan \<Rightarrow> f64_nan
      | FInf neg \<Rightarrow> of_nat ((if neg then 2 ^ 63 else 0) + 2047 * 2 ^ 52)
      | FFin neg m e \<Rightarrow> of_nat ((if neg then 2 ^ 63 else 0) + fl_round binary64 m e))"

definition encode32 :: "float_value \<Rightarrow> f32" where
  "encode32 v =
     (case v of
        FNan \<Rightarrow> f32_nan
      | FInf neg \<Rightarrow> of_nat ((if neg then 2 ^ 31 else 0) + 255 * 2 ^ 23)
      | FFin neg m e \<Rightarrow> of_nat ((if neg then 2 ^ 31 else 0) + fl_round binary32 m e))"

definition f64_to_f32 :: "f64 \<Rightarrow> f32" where "f64_to_f32 w = encode32 (decode64 w)"
definition f32_to_f64 :: "f32 \<Rightarrow> f64" where "f32_to_f64 w = encode64 (decode32 w)"

definition fl_neg :: "float_value \<Rightarrow> float_value" where
  "fl_neg v = (case v of FNan \<Rightarrow> FNan | FInf s \<Rightarrow> FInf (\<not> s) | FFin s m e \<Rightarrow> FFin (\<not> s) m e)"

definition fl_mul :: "float_value \<Rightarrow> float_value \<Rightarrow> float_value" where
  "fl_mul a b =
     (case (a, b) of
        (FFin s m e, FFin t n f) \<Rightarrow> FFin (s \<noteq> t) (m * n) (e + f)
      | (FInf s, FInf t) \<Rightarrow> FInf (s \<noteq> t)
      | (FInf s, FFin t n f) \<Rightarrow> if n = 0 then FNan else FInf (s \<noteq> t)
      | (FFin s m e, FInf t) \<Rightarrow> if m = 0 then FNan else FInf (s \<noteq> t)
      | _ \<Rightarrow> FNan)"

definition scaled :: "bool \<Rightarrow> nat \<Rightarrow> int \<Rightarrow> int \<Rightarrow> int" where
  "scaled s m e e0 = (if s then -1 else 1) * int m * 2 ^ nat (e - e0)"

definition fl_sub :: "float_value \<Rightarrow> float_value \<Rightarrow> float_value" where
  "fl_sub a b =
     (case (a, b) of
        (FFin s m e, FFin t n f) \<Rightarrow>
          (let e0 = min e f; d = scaled s m e e0 - scaled t n f e0
           in if d = 0 then FFin (s \<and> \<not> t \<and> m = 0) 0 e0 else FFin (d < 0) (nat \<bar>d\<bar>) e0)
      | (FInf s, FInf t) \<Rightarrow> if s = t then FNan else FInf s
      | (FInf s, FFin t n f) \<Rightarrow> FInf s
      | (FFin s m e, FInf t) \<Rightarrow> FInf (\<not> t)
      | _ \<Rightarrow> FNan)"

text \<open>The order; nothing compares with a NaN.\<close>

definition fl_less :: "float_value \<Rightarrow> float_value \<Rightarrow> bool" where
  "fl_less a b =
     (case (a, b) of
        (FFin s m e, FFin t n f) \<Rightarrow> (let e0 = min e f in scaled s m e e0 < scaled t n f e0)
      | (FInf s, FInf t) \<Rightarrow> s \<and> \<not> t
      | (FInf s, FFin t n f) \<Rightarrow> s
      | (FFin s m e, FInf t) \<Rightarrow> \<not> t
      | _ \<Rightarrow> False)"

definition fl_eq :: "float_value \<Rightarrow> float_value \<Rightarrow> bool" where
  "fl_eq a b =
     (case (a, b) of
        (FFin s m e, FFin t n f) \<Rightarrow> (let e0 = min e f in scaled s m e e0 = scaled t n f e0)
      | (FInf s, FInf t) \<Rightarrow> s = t
      | _ \<Rightarrow> False)"

definition f64_mul :: "f64 \<Rightarrow> f64 \<Rightarrow> f64" where "f64_mul a b = encode64 (fl_mul (decode64 a) (decode64 b))"
definition f64_sub :: "f64 \<Rightarrow> f64 \<Rightarrow> f64" where "f64_sub a b = encode64 (fl_sub (decode64 a) (decode64 b))"
definition f64_neg :: "f64 \<Rightarrow> f64" where "f64_neg a = a XOR 0x8000000000000000"
definition f64_less :: "f64 \<Rightarrow> f64 \<Rightarrow> bool" where "f64_less a b = fl_less (decode64 a) (decode64 b)"
definition f64_eq :: "f64 \<Rightarrow> f64 \<Rightarrow> bool" where "f64_eq a b = fl_eq (decode64 a) (decode64 b)"
definition f64_le :: "f64 \<Rightarrow> f64 \<Rightarrow> bool" where "f64_le a b \<longleftrightarrow> f64_less a b \<or> f64_eq a b"

definition f64_of_int :: "int \<Rightarrow> f64" where
  "f64_of_int i = encode64 (FFin (i < 0) (nat \<bar>i\<bar>) 0)"

definition f32_of_int :: "int \<Rightarrow> f32" where
  "f32_of_int i = encode32 (FFin (i < 0) (nat \<bar>i\<bar>) 0)"

text \<open>Truncation towards zero.\<close>

definition fl_trunc :: "float_value \<Rightarrow> int" where
  "fl_trunc v =
     (case v of
        FFin s m e \<Rightarrow> (let k = (if e \<ge> 0 then int m * 2 ^ nat e else int (m div 2 ^ nat (- e))) in if s then - k else k)
      | FInf s \<Rightarrow> if s then - (2 ^ 64) else 2 ^ 64
      | FNan \<Rightarrow> 0)"

definition f64_to_u32 :: "f64 \<Rightarrow> u32" where
  "f64_to_u32 w = word_of_int (min (2 ^ 32 - 1) (max 0 (fl_trunc (decode64 w))))"

lemmas float_eval = binary64_def binary32_def fl_decode_def round_shift_def fl_round_def decode64_def decode32_def
  f64_nan_def f32_nan_def encode64_def encode32_def f64_to_f32_def f32_to_f64_def fl_neg_def fl_mul_def scaled_def
  fl_sub_def fl_less_def fl_eq_def f64_mul_def f64_sub_def f64_neg_def f64_less_def f64_eq_def f64_le_def
  f64_of_int_def f32_of_int_def fl_trunc_def f64_to_u32_def bit_length_def count_bits.simps

end
