(* ===== verification/Std_Map.thy ===== *)
theory Std_Map
  imports Pager_Prelude "HOL-Library.List_Lexorder" "HOL-Library.Char_ord"
begin

text \<open>
  The parts of \<open>std::map\<close> the server uses (\<open>PagerList::pagers\<close>, the header and parameter
  maps of \<open>HttpServerClient\<close>, \<open>HttpServer::paths\<close>, the scan results): an association list in
  strictly ascending key order, which is the order a range-\<open>for\<close> visits. Strings are compared
  byte by byte (\<open>List_Lexorder\<close> over \<open>Char_ord\<close>), as \<open>std::less<std::string>\<close> does.

  The locale \<open>ordered_map\<close> is what the clients of the map rely on; \<open>smap\<close> interprets it.
\<close>

section \<open>The operations\<close>

type_synonym ('k, 'v) std_map = "('k \<times> 'v) list"

text \<open>\<open>m.find(k)\<close>, \<open>m.count(k)\<close> and \<open>m.at(k)\<close>, which throws \<open>std::out_of_range\<close>.\<close>

fun sm_find :: "('k::linorder, 'v) std_map \<Rightarrow> 'k \<Rightarrow> 'v option" where
  "sm_find [] k = None"
| "sm_find ((k', v) # m) k = (if k = k' then Some v else sm_find m k)"

definition sm_count :: "('k::linorder, 'v) std_map \<Rightarrow> 'k \<Rightarrow> nat" where
  "sm_count m k = (case sm_find m k of None \<Rightarrow> 0 | Some _ \<Rightarrow> 1)"

definition sm_at :: "('k::linorder, 'v) std_map \<Rightarrow> 'k \<Rightarrow> 'v result" where
  "sm_at m k = (case sm_find m k of None \<Rightarrow> Inl UncaughtException | Some v \<Rightarrow> Inr v)"

text \<open>\<open>m[k] = v\<close> and \<open>m.erase(k)\<close>.\<close>

fun sm_put :: "'k::linorder \<Rightarrow> 'v \<Rightarrow> ('k, 'v) std_map \<Rightarrow> ('k, 'v) std_map" where
  "sm_put k v [] = [(k, v)]"
| "sm_put k v ((k', v') # m) =
     (if k < k' then (k, v) # (k', v') # m
      else if k = k' then (k, v) # m
      else (k', v') # sm_put k v m)"

definition sm_erase :: "'k::linorder \<Rightarrow> ('k, 'v) std_map \<Rightarrow> ('k, 'v) std_map" where
  "sm_erase k m = filter (\<lambda>e. fst e \<noteq> k) m"

definition sm_ok :: "('k::linorder, 'v) std_map \<Rightarrow> bool" where
  "sm_ok m \<longleftrightarrow> sorted_wrt (<) (map fst m)"

section \<open>The contract\<close>

locale ordered_map =
  fixes find :: "'m \<Rightarrow> 'k::linorder \<Rightarrow> 'v option"
    and put :: "'k \<Rightarrow> 'v \<Rightarrow> 'm \<Rightarrow> 'm"
    and erase :: "'k \<Rightarrow> 'm \<Rightarrow> 'm"
    and entries :: "'m \<Rightarrow> ('k \<times> 'v) list"
    and ok :: "'m \<Rightarrow> bool"
  assumes ok_put: "ok m \<Longrightarrow> ok (put k v m)"
    and ok_erase: "ok m \<Longrightarrow> ok (erase k m)"
    and find_put: "ok m \<Longrightarrow> find (put k v m) k' = (if k' = k then Some v else find m k')"
    and find_erase: "ok m \<Longrightarrow> find (erase k m) k' = (if k' = k then None else find m k')"
    and entries_sorted: "ok m \<Longrightarrow> sorted_wrt (<) (map fst (entries m))"
    and entries_find: "ok m \<Longrightarrow> (k, v) \<in> set (entries m) \<longleftrightarrow> find m k = Some v"
    and entries_inj: "entries m = entries m' \<Longrightarrow> m = m'"
begin

lemma entries_distinct: "ok m \<Longrightarrow> distinct (map fst (entries m))"
  using entries_sorted [of m] strict_sorted_iff by blast

lemma entries_set_inj:
  assumes "ok m" "ok m'" "set (entries m) = set (entries m')"
  shows "entries m = entries m'"
proof -
  have "map fst (entries m) = map fst (entries m')"
    by (rule strict_sorted_equal) (use assms entries_sorted in auto)
  then have len: "length (entries m) = length (entries m')" by (metis length_map)
  have "entries m ! i = entries m' ! i" if i: "i < length (entries m)" for i
  proof -
    obtain k v where e: "entries m ! i = (k, v)" by fastforce
    obtain k' v' where e': "entries m' ! i = (k', v')" by fastforce
    have k: "k' = k"
      using \<open>map fst (entries m) = map fst (entries m')\<close> e e' i len by (metis fst_conv nth_map)
    have "find m k = Some v" using nth_mem [OF i] entries_find [OF assms(1), of k v] by (simp add: e)
    moreover have "find m k = Some v'"
      using nth_mem [of i "entries m'"] i entries_find [OF assms(1), of k v'] assms(3)
      by (simp add: e' k len)
    ultimately show ?thesis using e e' k by simp
  qed
  with len show ?thesis by (simp add: list_eq_iff_nth_eq)
qed

text \<open>Two maps with the same bindings are the same map, and visited in the same order.\<close>

lemma extensional:
  assumes "ok m" "ok m'" "\<And>k. find m k = find m' k"
  shows "m = m'"
proof -
  have "set (entries m) = set (entries m')"
    using assms entries_find by (auto simp: set_eq_iff)
  then show ?thesis using entries_set_inj [OF assms(1,2)] entries_inj by blast
qed

lemma put_again: "ok m \<Longrightarrow> put k v (put k v' m) = put k v m"
  by (rule extensional) (simp_all add: ok_put find_put)

lemma put_commute: "ok m \<Longrightarrow> k \<noteq> k' \<Longrightarrow> put k v (put k' v' m) = put k' v' (put k v m)"
  by (rule extensional) (auto simp: ok_put find_put)

lemma erase_put: "ok m \<Longrightarrow> find m k = None \<Longrightarrow> erase k (put k v m) = m"
  by (rule extensional) (auto simp: ok_put ok_erase find_put find_erase)

lemma put_same: "ok m \<Longrightarrow> find m k = Some v \<Longrightarrow> put k v m = m"
  by (rule extensional) (auto simp: ok_put find_put)

lemma put_keys: "ok m \<Longrightarrow> fst ` set (entries (put k v m)) = insert k (fst ` set (entries m))"
proof -
  assume m: "ok m"
  have keys: "k' \<in> fst ` set (entries n) \<longleftrightarrow> find n k' \<noteq> None" if "ok n" for n k'
    using entries_find [OF that, of k'] by force
  show ?thesis using m by (auto simp: set_eq_iff keys ok_put find_put)
qed

end

section \<open>The provider\<close>

lemma sm_find_None: "sm_find m k = None \<longleftrightarrow> k \<notin> fst ` set m"
  by (induction m k rule: sm_find.induct) auto

lemma set_sm_put: "fst ` set (sm_put k v m) = insert k (fst ` set m)"
  by (induction k v m rule: sm_put.induct) auto

lemma sm_put_ok: "sm_ok m \<Longrightarrow> sm_ok (sm_put k v m)"
proof (induction k v m rule: sm_put.induct)
  case (2 k v k' v' m)
  show ?case
  proof (cases "k < k' \<or> k = k'")
    case False
    with 2 have "\<forall>x\<in>fst ` set (sm_put k v m). k' < x" by (auto simp: set_sm_put sm_ok_def)
    with False 2 show ?thesis by (auto simp: sm_ok_def)
  qed (use 2 in \<open>auto simp: sm_ok_def\<close>)
qed (simp add: sm_ok_def)

lemma sm_find_put: "sm_ok m \<Longrightarrow> sm_find (sm_put k v m) k' = (if k' = k then Some v else sm_find m k')"
  by (induction k v m rule: sm_put.induct) (auto simp: sm_ok_def)

lemma sm_find_filter: "sm_find (filter (\<lambda>e. fst e \<noteq> k) m) k' = (if k' = k then None else sm_find m k')"
  by (induction m) (auto simp: sm_find_None)

lemma sm_entries_find: "sm_ok m \<Longrightarrow> (k, v) \<in> set m \<longleftrightarrow> sm_find m k = Some v"
  by (induction m k rule: sm_find.induct) (auto simp: sm_ok_def dest!: bspec)

interpretation smap: ordered_map sm_find sm_put sm_erase "\<lambda>m. m" sm_ok
proof unfold_locales
  show "sm_ok m \<Longrightarrow> sm_ok (sm_erase k m)" for k and m :: "('k::linorder, 'v) std_map"
    unfolding sm_ok_def sm_erase_def by (induction m) auto
qed (auto simp: sm_put_ok sm_find_put sm_erase_def sm_find_filter sm_entries_find simp flip: sm_ok_def)

lemma sm_ok_Nil [simp]: "sm_ok []"
  by (simp add: sm_ok_def)

lemma sm_count_pos [simp]: "0 < sm_count m k \<longleftrightarrow> sm_find m k \<noteq> None"
  by (auto simp: sm_count_def split: option.splits)

lemma length_sm_put:
  "sm_ok m \<Longrightarrow> length (sm_put k v m) = (if sm_find m k = None then Suc (length m) else length m)"
  by (induction k v m rule: sm_put.induct) (auto simp: sm_ok_def sm_find_None)

end
