(* ===== verification/Http_Client.thy ===== *)
theory Http_Client
  imports Std_Map
begin

text \<open>
  \<open>src/pagers-server/http/httpserverclient.hpp\<close> and \<open>.cpp\<close>: one HTTP connection as the request
  handlers see it, with the request's headers and parameters and the functions that build the
  response.

  lwIP is not part of the repository. A response is handed to \<open>tcp_write\<close> piece by piece, and
  while \<open>send_string\<close> waits it reads the volatile counter \<open>sent\<close>, which the acknowledgement
  interrupt changes; both are functions of a record \<open>net\<close> over an arbitrary world. The length
  parameter of \<open>tcp_write\<close> is a \<open>u16_t\<close>, so the \<open>int\<close> that is passed is reduced modulo 65536.

  \<open>stoi\<close>, \<open>to_string\<close>, \<open>%d\<close> and the truncation of \<open>snprintf\<close> are modelled as the standards
  describe them; an exception of \<open>stoi\<close> or \<open>map::at\<close> reaches nobody (\<open>UncaughtException\<close>).
  C strings are \<open>string\<close>s; where a \<open>char*\<close> comes from outside, it ends at its first NUL.
\<close>

section \<open>Numbers as text\<close>

fun dec_digits :: "nat \<Rightarrow> string" where
  "dec_digits n = (if n < 10 then [] else dec_digits (n div 10)) @ [char_of (48 + n mod 10)]"

declare dec_digits.simps [simp del]

text \<open>\<open>std::to_string(int)\<close>, and the text \<open>%d\<close> makes.\<close>

definition to_string :: "int \<Rightarrow> string" where
  "to_string v = (if v < 0 then ''-'' @ dec_digits (nat (- v)) else dec_digits (nat v))"

definition is_digit :: "char \<Rightarrow> bool" where
  "is_digit c \<longleftrightarrow> 48 \<le> (of_char c :: nat) \<and> (of_char c :: nat) \<le> 57"

definition is_space :: "char \<Rightarrow> bool" where
  "is_space c \<longleftrightarrow> (let n = of_char c :: nat in n = 32 \<or> 9 \<le> n \<and> n \<le> 13)"

definition digits_value :: "string \<Rightarrow> int" where
  "digits_value ds = foldl (\<lambda>n c. 10 * n + (int (of_char c) - 48)) 0 ds"

text \<open>\<open>stoi\<close>: white space, a sign, digits; anything after them is ignored, no digits or a value
  outside \<open>int\<close> is an exception.\<close>

definition stoi :: "string \<Rightarrow> int result" where
  "stoi s =
     (let s1 = dropWhile is_space s;
          neg = (s1 \<noteq> [] \<and> hd s1 = CHR ''-'');
          s2 = (if s1 \<noteq> [] \<and> (hd s1 = CHR ''-'' \<or> hd s1 = CHR ''+'') then tl s1 else s1);
          ds = takeWhile is_digit s2;
          v = (if neg then - digits_value ds else digits_value ds)
      in if ds = [] \<or> v < - (2 ^ 31) \<or> v \<ge> 2 ^ 31 then Inl UncaughtException else Inr v)"

text \<open>\<open>snprintf(buf, n, ...)\<close> of the text \<open>s\<close>.\<close>

definition snprintf :: "nat \<Rightarrow> string \<Rightarrow> string" where
  "snprintf n s = take (n - 1) s"

section \<open>The connection\<close>

datatype Method = GET | POST | INVALID

record http_client =
  request_ready :: bool
  first_line :: bool
  http_method :: "Method option"
  req_path :: string
  request_headers :: "(string, string) std_map"
  request_params :: "(string, string) std_map"
  response_headers :: "(string, string) std_map"
  should_send :: int

datatype tcp_err = ERR_OK | ERR_MEM | ERR_OTHER int

record 'w net =
  tcp_write :: "string \<Rightarrow> 'w \<Rightarrow> tcp_err \<times> 'w"
  read_sent :: "'w \<Rightarrow> int \<times> 'w"

definition has_req_header :: "http_client \<Rightarrow> string \<Rightarrow> bool" where
  "has_req_header c hdr \<longleftrightarrow> sm_count (request_headers c) hdr > 0"

definition get_req_header :: "http_client \<Rightarrow> string \<Rightarrow> string result" where
  "get_req_header c hdr = sm_at (request_headers c) hdr"

definition get_req_header_int :: "http_client \<Rightarrow> string \<Rightarrow> int result" where
  "get_req_header_int c hdr = rbind (get_req_header c hdr) stoi"

definition has_req_param :: "http_client \<Rightarrow> string \<Rightarrow> bool" where
  "has_req_param c p \<longleftrightarrow> sm_count (request_params c) p > 0"

definition get_req_param :: "http_client \<Rightarrow> string \<Rightarrow> string result" where
  "get_req_param c p = sm_at (request_params c) p"

definition get_req_param_int :: "http_client \<Rightarrow> string \<Rightarrow> int result" where
  "get_req_param_int c p = rbind (get_req_param c p) stoi"

definition set_header :: "string \<Rightarrow> string \<Rightarrow> http_client \<Rightarrow> http_client" where
  "set_header name val c = c\<lparr>response_headers := sm_put name val (response_headers c)\<rparr>"

definition set_content_length :: "int \<Rightarrow> http_client \<Rightarrow> http_client" where
  "set_content_length len = set_header ''Content-Length'' (to_string len)"

definition set_content_type :: "string \<Rightarrow> http_client \<Rightarrow> http_client" where
  "set_content_type type = set_header ''Content-Type'' type"

definition set_json :: "http_client \<Rightarrow> http_client" where
  "set_json = set_content_type ''application/json''"

section \<open>Sending\<close>

text \<open>\<open>while (currently_sent != sent);\<close> with at most \<open>fuel\<close> reads of \<open>sent\<close>.\<close>

fun wait_sent :: "nat \<Rightarrow> 'w net \<Rightarrow> int \<Rightarrow> 'w \<Rightarrow> 'w option" where
  "wait_sent 0 net currently_sent w = None"
| "wait_sent (Suc fuel) net currently_sent w =
     (let (s, w') = read_sent net w
      in if currently_sent \<noteq> s then wait_sent fuel net currently_sent w' else Some w')"

text \<open>What one call of \<open>tcp_write(pcb, str, len, 0)\<close> is given: \<open>len\<close> becomes a \<open>u16_t\<close>.\<close>

definition tcp_piece :: "string \<Rightarrow> string" where
  "tcp_piece str = take (unat (word_of_int (int (length str)) :: u16)) str"

text \<open>The loop of \<open>send_string\<close>, with at most \<open>fuel\<close> calls of \<open>tcp_write\<close>.\<close>

fun write_loop :: "nat \<Rightarrow> 'w net \<Rightarrow> string \<Rightarrow> 'w \<Rightarrow> 'w option" where
  "write_loop 0 net str w = None"
| "write_loop (Suc fuel) net str w =
     (case tcp_write net (tcp_piece str) w of
        (ERR_OK, w') \<Rightarrow> Some w'
      | (ERR_MEM, w') \<Rightarrow>
          (let (currently_sent, w1) = read_sent net w' in
           case wait_sent (Suc fuel) net currently_sent w1 of
             None \<Rightarrow> None
           | Some w2 \<Rightarrow> write_loop fuel net str w2)
      | (ERR_OTHER e, w') \<Rightarrow> Some w')"

definition send_string ::
    "nat \<Rightarrow> 'w net \<Rightarrow> string \<Rightarrow> http_client \<times> 'w \<Rightarrow> (http_client \<times> 'w) option" where
  "send_string fuel net str = (\<lambda>(c, w).
     map_option (\<lambda>w'. (c\<lparr>should_send := should_send c + int (length str)\<rparr>, w'))
       (write_loop fuel net str w))"

fun send_strings ::
    "nat \<Rightarrow> 'w net \<Rightarrow> string list \<Rightarrow> http_client \<times> 'w \<Rightarrow> (http_client \<times> 'w) option" where
  "send_strings fuel net [] s = Some s"
| "send_strings fuel net (str # strs) s =
     Option.bind (send_string fuel net str s) (send_strings fuel net strs)"

definition CRLF :: string where "CRLF = [char_of (13 :: nat), char_of (10 :: nat)]"

definition status_line :: "int \<Rightarrow> string \<Rightarrow> string" where
  "status_line code code_str = snprintf 128 (''HTTP/1.0 '' @ to_string code @ '' '' @ code_str @ CRLF)"

definition header_line :: "string \<times> string \<Rightarrow> string" where
  "header_line = (\<lambda>(name, val). snprintf 128 (name @ '': '' @ val @ CRLF))"

definition response_begin ::
    "nat \<Rightarrow> 'w net \<Rightarrow> int \<Rightarrow> string \<Rightarrow> http_client \<times> 'w \<Rightarrow> (http_client \<times> 'w) option" where
  "response_begin fuel net code code_str s =
     Option.bind (send_string fuel net (status_line code code_str) s) (\<lambda>(c, w).
       let c1 = set_header ''Access-Control-Allow-Origin'' ''*'' c in
       Option.bind (send_strings fuel net (map header_line (response_headers c1)) (c1, w))
         (send_string fuel net CRLF))"

text \<open>\<open>response_ok\<close>, \<open>response_err\<close>, \<open>response_bad\<close> and \<open>not_found\<close>, with the body as a C string.\<close>

definition respond ::
    "nat \<Rightarrow> 'w net \<Rightarrow> int \<Rightarrow> string \<Rightarrow> string \<Rightarrow> http_client \<times> 'w \<Rightarrow> (http_client \<times> 'w) option" where
  "respond fuel net code code_str str = (\<lambda>(c, w).
     Option.bind (response_begin fuel net code code_str (set_content_length (int (length str)) c, w))
       (send_string fuel net str))"

definition response_ok where "response_ok fuel net = respond fuel net 200 ''OK''"
definition response_err where "response_err fuel net = respond fuel net 500 ''Internal Server Error''"
definition response_bad where "response_bad fuel net = respond fuel net 400 ''Bad Request''"
definition not_found where
  "not_found fuel net = respond fuel net 404 ''Not Found'' ''<h2>Requested page not found</h2>''"

text \<open>The constructor, for a connection that has received nothing yet.\<close>

definition new_http_client :: http_client where
  "new_http_client =
     \<lparr>request_ready = False, first_line = True, http_method = None, req_path = [],
      request_headers = [], request_params = [], response_headers = [], should_send = 0\<rparr>"

section \<open>Numbers round trip\<close>

lemma of_char_digit: "d < 10 \<Longrightarrow> of_char (char_of (48 + d) :: char) = 48 + d" for d :: nat
  by (simp add: of_char_of)

lemma dec_digits_digits: "\<forall>c\<in>set (dec_digits n). is_digit c"
proof (induction n rule: dec_digits.induct)
  case (1 n)
  have "is_digit (char_of (48 + n mod 10))" by (simp add: is_digit_def of_char_digit)
  with 1 show ?case by (subst dec_digits.simps) auto
qed

lemma dec_digits_ne [simp]: "dec_digits n \<noteq> []"
  by (subst dec_digits.simps) simp

lemma digits_value_dec: "digits_value (dec_digits n) = int n"
proof (induction n rule: dec_digits.induct)
  case (1 n)
  have step: "digits_value (ds @ [char_of (48 + n mod 10)]) = 10 * digits_value ds + int (n mod 10)" for ds
    by (simp add: digits_value_def of_char_of)
  show ?case
  proof (cases "n < 10")
    case True
    then show ?thesis using step [of "[]"]
      by (subst dec_digits.simps) (simp add: digits_value_def)
  next
    case False
    have "10 * int (n div 10) + int (n mod 10) = int n"
      using div_mult_mod_eq [of n 10] by linarith
    with False 1 step show ?thesis by (subst dec_digits.simps) simp
  qed
qed

lemma digit_plain: "is_digit c \<Longrightarrow> \<not> is_space c \<and> c \<noteq> CHR ''-'' \<and> c \<noteq> CHR ''+''"
  by (auto simp: is_digit_def is_space_def Let_def)

lemma stoi_to_string: "- (2 ^ 31) \<le> v \<Longrightarrow> v < 2 ^ 31 \<Longrightarrow> stoi (to_string v) = Inr v"
proof -
  assume v: "- (2 ^ 31) \<le> v" "v < 2 ^ 31"
  have scan: "takeWhile is_digit (dec_digits n) = dec_digits n"
    "dropWhile is_space (dec_digits n) = dec_digits n"
    "hd (dec_digits n) \<noteq> CHR ''-''" "hd (dec_digits n) \<noteq> CHR ''+''" for n
  proof -
    have hd: "is_digit (hd (dec_digits n))" using dec_digits_digits [of n] by simp
    note plain = digit_plain [OF hd]
    show "takeWhile is_digit (dec_digits n) = dec_digits n" using dec_digits_digits [of n] by simp
    show "dropWhile is_space (dec_digits n) = dec_digits n"
      using plain by (cases "dec_digits n") auto
    show "hd (dec_digits n) \<noteq> CHR ''-''" "hd (dec_digits n) \<noteq> CHR ''+''" using plain by auto
  qed
  have "\<not> is_space (CHR ''-'')" by (simp add: is_space_def)
  with v show ?thesis
    by (simp add: stoi_def to_string_def Let_def scan digits_value_dec)
qed

lemma stoi_out_of_range:
  assumes "ds \<noteq> []" "\<forall>c\<in>set ds. is_digit c" "digits_value ds \<ge> 2 ^ 31"
  shows "stoi ds = Inl UncaughtException"
proof -
  from assms(1) obtain a as where ds: "ds = a # as" by (cases ds) auto
  have tw: "takeWhile is_digit as = as" using assms(2) ds by simp
  show ?thesis using digit_plain [of a] assms unfolding ds by (simp add: stoi_def Let_def tw)
qed

section \<open>What lwIP does with a piece\<close>

text \<open>\<open>TCP_SND_BUF\<close> of \<open>lwipopts.h\<close>: \<open>tcp_write\<close> never takes a longer piece, and answers
  \<open>ERR_MEM\<close> when the piece is longer than what is free of the buffer at the moment.\<close>

definition TCP_SND_BUF :: nat where "TCP_SND_BUF = 8 * 1460"

lemma tcp_piece_whole: "length str \<le> TCP_SND_BUF \<Longrightarrow> tcp_piece str = str"
  by (simp add: tcp_piece_def TCP_SND_BUF_def unat_of_nat)

text \<open>The piece is taken at the latest by the \<open>k\<close>-th call: a call appends it to the text on its
  way, or answers \<open>ERR_MEM\<close> and takes nothing; then no acknowledgement comes between the two
  reads of \<open>sent\<close> that follow (one that does makes the inverted loop of \<open>send_string\<close> wait for
  ever).\<close>

fun takes_within :: "nat \<Rightarrow> 'w net \<Rightarrow> ('w \<Rightarrow> string) \<Rightarrow> string \<Rightarrow> 'w \<Rightarrow> bool" where
  "takes_within 0 net txt str w \<longleftrightarrow> False"
| "takes_within (Suc k) net txt str w \<longleftrightarrow>
     (case tcp_write net str w of
        (ERR_OK, w') \<Rightarrow> txt w' = txt w @ str
      | (ERR_MEM, w') \<Rightarrow>
          (case read_sent net w' of (n, w1) \<Rightarrow>
           case read_sent net w1 of (n', w2) \<Rightarrow>
             n' = n \<and> txt w2 = txt w \<and> takes_within k net txt str w2)
      | (ERR_OTHER e, w') \<Rightarrow> False)"

definition net_serves :: "nat \<Rightarrow> 'w net \<Rightarrow> ('w \<Rightarrow> string) \<Rightarrow> bool" where
  "net_serves k net txt \<longleftrightarrow> (\<forall>str w. length str \<le> TCP_SND_BUF \<longrightarrow> takes_within k net txt str w)"

text \<open>\<open>net_takes net text\<close>: each piece that fits the send buffer is taken by the first call; so
  it is while the connection is open and the other side acknowledges fast enough.\<close>

definition net_takes :: "'w net \<Rightarrow> ('w \<Rightarrow> string) \<Rightarrow> bool" where
  "net_takes net txt \<longleftrightarrow>
     (\<forall>str w. length str \<le> TCP_SND_BUF \<longrightarrow> (\<exists>w'. tcp_write net str w = (ERR_OK, w') \<and> txt w' = txt w @ str))"

lemma net_takes_serves: "net_takes net txt \<Longrightarrow> 0 < k \<Longrightarrow> net_serves k net txt"
proof -
  assume net: "net_takes net txt" and "0 < k"
  then obtain j where k: "k = Suc j" by (cases k) auto
  have "takes_within k net txt str w" if "length str \<le> TCP_SND_BUF" for str w
  proof -
    from net that obtain w' where "tcp_write net str w = (ERR_OK, w')" "txt w' = txt w @ str"
      unfolding net_takes_def by blast
    then show ?thesis by (simp add: k)
  qed
  then show ?thesis by (simp add: net_serves_def)
qed

text \<open>The world is the text written so far; a piece that fits is never refused.\<close>

definition log_net :: "string net" where
  "log_net =
     \<lparr>tcp_write = \<lambda>str w. (if length str \<le> TCP_SND_BUF then (ERR_OK, w @ str) else (ERR_MEM, w)),
      read_sent = \<lambda>w. (int (length w), w)\<rparr>"

lemma log_net_takes: "net_takes log_net id"
  by (simp add: net_takes_def log_net_def)

text \<open>Every second call is refused.\<close>

definition busy_net :: "(bool \<times> string) net" where
  "busy_net =
     \<lparr>tcp_write = \<lambda>str (ready, t).
        (if ready \<and> length str \<le> TCP_SND_BUF then (ERR_OK, False, t @ str) else (ERR_MEM, True, t)),
      read_sent = \<lambda>(ready, t). (int (length t), ready, t)\<rparr>"

lemma busy_net_serves: "net_serves 2 busy_net snd"
  by (auto simp: net_serves_def busy_net_def numeral_2_eq_2)

lemma write_loop_takes:
  "takes_within k net txt (tcp_piece str) w \<Longrightarrow> k \<le> fuel \<Longrightarrow>
     \<exists>w'. write_loop fuel net str w = Some w' \<and> txt w' = txt w @ tcp_piece str"
proof (induction k arbitrary: fuel w)
  case (Suc k)
  from Suc.prems(2) obtain f where fuel: "fuel = Suc f" "k \<le> f" by (cases fuel) auto
  obtain e w1 where 1: "tcp_write net (tcp_piece str) w = (e, w1)" by fastforce
  show ?case
  proof (cases e)
    case ERR_MEM
    obtain n w2 where 2: "read_sent net w1 = (n, w2)" by fastforce
    obtain n' w3 where 3: "read_sent net w2 = (n', w3)" by fastforce
    from Suc.prems(1) Suc.IH [of w3 f] fuel 1 2 3 show ?thesis by (auto simp: ERR_MEM)
  qed (use Suc.prems(1) 1 fuel in simp_all)
qed simp

lemma send_string_serves:
  assumes "net_serves k net txt" "k \<le> fuel" "length str \<le> TCP_SND_BUF"
  shows "\<exists>w'. send_string fuel net str (c, w) = Some (c\<lparr>should_send := should_send c + int (length str)\<rparr>, w') \<and>
     txt w' = txt w @ str"
  using write_loop_takes [of k net "txt" str w fuel] assms
  by (auto simp: net_serves_def send_string_def tcp_piece_whole)

lemma send_string_takes:
  assumes "net_takes net txt" "0 < fuel" "length str \<le> TCP_SND_BUF"
  shows "\<exists>w'. send_string fuel net str (c, w) = Some (c\<lparr>should_send := should_send c + int (length str)\<rparr>, w') \<and>
     txt w' = txt w @ str"
  using send_string_serves [OF net_takes_serves [OF assms(1) zero_less_one] _ assms(3)] assms(2) by simp

lemma send_strings_serves:
  assumes "net_serves k net txt" "k \<le> fuel" "list_all (\<lambda>str. length str \<le> TCP_SND_BUF) strs"
  shows "\<exists>w'. send_strings fuel net strs (c, w) =
       Some (c\<lparr>should_send := should_send c + int (length (concat strs))\<rparr>, w') \<and>
     txt w' = txt w @ concat strs"
  using assms(3)
proof (induction strs arbitrary: c w)
  case (Cons str strs)
  from send_string_serves [OF assms(1,2), of str c w] Cons.prems obtain w1 where
    "send_string fuel net str (c, w) = Some (c\<lparr>should_send := should_send c + int (length str)\<rparr>, w1)"
    "txt w1 = txt w @ str" by auto
  moreover from Cons.IH [of "c\<lparr>should_send := should_send c + int (length str)\<rparr>" w1] Cons.prems obtain w2 where
    "send_strings fuel net strs (c\<lparr>should_send := should_send c + int (length str)\<rparr>, w1) =
       Some (c\<lparr>should_send := should_send c + int (length str) + int (length (concat strs))\<rparr>, w2)"
    "txt w2 = txt w1 @ concat strs" by auto
  ultimately show ?case by (simp add: add.assoc)
qed simp

lemma snd_buf_le: "n \<le> 11680 \<Longrightarrow> n \<le> TCP_SND_BUF"
  by (simp add: TCP_SND_BUF_def)

lemma length_status_line [simp]: "length (status_line code str) \<le> TCP_SND_BUF"
  by (rule snd_buf_le) (simp add: status_line_def snprintf_def)

lemma length_header_line [simp]: "length (header_line e) \<le> TCP_SND_BUF"
  by (rule snd_buf_le, cases e) (simp add: header_line_def snprintf_def del: take_append append.simps)

lemma length_CRLF [simp]: "length CRLF \<le> TCP_SND_BUF"
  by (simp add: CRLF_def TCP_SND_BUF_def)

text \<open>The status line, the headers and the empty line.\<close>

definition response_head :: "int \<Rightarrow> string \<Rightarrow> (string, string) std_map \<Rightarrow> string" where
  "response_head code code_str hs = status_line code code_str @ concat (map header_line hs) @ CRLF"

lemma response_begin_sends:
  fixes c :: http_client and code :: int and code_str :: string
  assumes "net_serves k net txt" "k \<le> fuel"
  defines "head \<equiv> response_head code code_str (sm_put ''Access-Control-Allow-Origin'' ''*'' (response_headers c))"
  shows "\<exists>w'. response_begin fuel net code code_str (c, w) =
       Some (c\<lparr>response_headers := sm_put ''Access-Control-Allow-Origin'' ''*'' (response_headers c),
         should_send := should_send c + int (length head)\<rparr>, w') \<and>
     txt w' = txt w @ head"
proof -
  let ?n = "\<lambda>c strs. c\<lparr>should_send := should_send c + int (length (concat strs))\<rparr>"
  let ?c1 = "set_header ''Access-Control-Allow-Origin'' ''*'' (?n c [status_line code code_str])"
  let ?hs = "map header_line (response_headers ?c1)"
  from send_string_serves [OF assms(1,2) length_status_line, of code code_str c w] obtain w1 where
    1: "send_string fuel net (status_line code code_str) (c, w) = Some (?n c [status_line code code_str], w1)"
      "txt w1 = txt w @ status_line code code_str" by auto
  have short: "list_all (\<lambda>str. length str \<le> TCP_SND_BUF) ?hs" by (simp add: list_all_iff)
  from send_strings_serves [OF assms(1,2) short, of ?c1 w1] obtain w2 where
    2: "send_strings fuel net ?hs (?c1, w1) = Some (?n ?c1 ?hs, w2)" "txt w2 = txt w1 @ concat ?hs" by blast
  from send_string_serves [OF assms(1,2), of CRLF "?n ?c1 ?hs" w2] obtain w3 where
    3: "send_string fuel net CRLF (?n ?c1 ?hs, w2) = Some (?n (?n ?c1 ?hs) [CRLF], w3)"
      "txt w3 = txt w2 @ CRLF" by auto
  have hs: "response_headers ?c1 = sm_put ''Access-Control-Allow-Origin'' ''*'' (response_headers c)"
    by (simp add: set_header_def)
  have "?n (?n ?c1 ?hs) [CRLF] =
      c\<lparr>response_headers := sm_put ''Access-Control-Allow-Origin'' ''*'' (response_headers c),
        should_send := should_send c + int (length head)\<rparr>"
    unfolding head_def hs by (simp add: set_header_def response_head_def)
  moreover have "txt w3 = txt w @ head"
    unfolding 3(2) 2(2) 1(2) hs head_def by (simp add: response_head_def)
  ultimately show ?thesis
    using 1(1) 2(1) 3(1) by (simp add: response_begin_def Let_def)
qed

text \<open>The headers of a response, and its whole text.\<close>

definition response_headers_of :: "string \<Rightarrow> http_client \<Rightarrow> (string, string) std_map" where
  "response_headers_of str c =
     sm_put ''Access-Control-Allow-Origin'' ''*''
       (sm_put ''Content-Length'' (to_string (int (length str))) (response_headers c))"

definition response_text :: "int \<Rightarrow> string \<Rightarrow> string \<Rightarrow> http_client \<Rightarrow> string" where
  "response_text code code_str str c = response_head code code_str (response_headers_of str c) @ str"

lemma respond_serves:
  assumes "net_serves k net txt" "k \<le> fuel" "length str \<le> TCP_SND_BUF"
  shows "\<exists>w'. respond fuel net code code_str str (c, w) =
       Some (c\<lparr>response_headers := response_headers_of str c,
         should_send := should_send c + int (length (response_text code code_str str c))\<rparr>, w') \<and>
     txt w' = txt w @ response_text code code_str str c"
proof -
  let ?c0 = "set_content_length (int (length str)) c"
  have hs: "sm_put ''Access-Control-Allow-Origin'' ''*'' (response_headers ?c0) = response_headers_of str c"
    by (simp add: set_header_def set_content_length_def response_headers_of_def)
  let ?c1 = "?c0\<lparr>response_headers := response_headers_of str c,
      should_send := should_send ?c0 + int (length (response_head code code_str (response_headers_of str c)))\<rparr>"
  from response_begin_sends [OF assms(1,2), of code code_str ?c0 w] obtain w1 where
    1: "response_begin fuel net code code_str (?c0, w) = Some (?c1, w1)"
      "txt w1 = txt w @ response_head code code_str (response_headers_of str c)" unfolding hs by blast
  from send_string_serves [OF assms, of ?c1 w1] obtain w2 where
    2: "send_string fuel net str (?c1, w1) = Some (?c1\<lparr>should_send := should_send ?c1 + int (length str)\<rparr>, w2)"
      "txt w2 = txt w1 @ str" by blast
  have "?c1\<lparr>should_send := should_send ?c1 + int (length str)\<rparr> =
      c\<lparr>response_headers := response_headers_of str c,
        should_send := should_send c + int (length (response_text code code_str str c))\<rparr>"
    by (simp add: set_header_def set_content_length_def response_text_def)
  with 1 2 show ?thesis by (simp add: respond_def response_text_def)
qed

lemma respond_sends:
  assumes "net_takes net txt" "0 < fuel" "length str \<le> TCP_SND_BUF"
  shows "\<exists>w'. respond fuel net code code_str str (c, w) =
       Some (c\<lparr>response_headers := response_headers_of str c,
         should_send := should_send c + int (length (response_text code code_str str c))\<rparr>, w') \<and>
     txt w' = txt w @ response_text code code_str str c"
  using respond_serves [OF net_takes_serves [OF assms(1) zero_less_one] _ assms(3)] assms(2) by simp

text \<open>What a write leaves alone, a response leaves alone.\<close>

lemma send_string_keeps:
  assumes "net_takes net txt" "\<forall>str w. view (snd (tcp_write net str w)) = view w" "length str \<le> TCP_SND_BUF"
    and "send_string fuel net str (c, w) = Some (c', w')"
  shows "view w' = view w"
proof (cases fuel)
  case (Suc f)
  from assms(1,3) obtain w1 where "tcp_write net str w = (ERR_OK, w1)" unfolding net_takes_def by blast
  with assms(2) [rule_format, of str w] assms(4) show ?thesis
    by (simp add: Suc send_string_def tcp_piece_whole [OF assms(3)])
qed (use assms(4) in \<open>simp add: send_string_def\<close>)

lemma send_strings_keeps:
  assumes "net_takes net txt" "\<forall>str w. view (snd (tcp_write net str w)) = view w"
  shows "list_all (\<lambda>str. length str \<le> TCP_SND_BUF) strs \<Longrightarrow>
     send_strings fuel net strs (c, w) = Some (c', w') \<Longrightarrow> view w' = view w"
proof (induction strs arbitrary: c w)
  case (Cons str strs)
  then obtain c1 w1 where "send_string fuel net str (c, w) = Some (c1, w1)" "length str \<le> TCP_SND_BUF"
    "send_strings fuel net strs (c1, w1) = Some (c', w')" by (auto simp: bind_eq_Some_conv)
  with Cons.IH [of c1 w1] Cons.prems(1) send_string_keeps [OF assms, of str fuel c w c1 w1]
  show ?case by simp
qed simp

lemma response_begin_keeps:
  assumes "net_takes net txt" "\<forall>str w. view (snd (tcp_write net str w)) = view w"
    and "response_begin fuel net code code_str (c, w) = Some (c', w')"
  shows "view w' = view w"
proof -
  obtain c1 w1 c2 w2 where
    1: "send_string fuel net (status_line code code_str) (c, w) = Some (c1, w1)"
    and 2: "send_strings fuel net (map header_line
        (response_headers (set_header ''Access-Control-Allow-Origin'' ''*'' c1)))
       (set_header ''Access-Control-Allow-Origin'' ''*'' c1, w1) = Some (c2, w2)"
    and 3: "send_string fuel net CRLF (c2, w2) = Some (c', w')"
    using assms(3) by (auto simp: response_begin_def Let_def bind_eq_Some_conv)
  note keeps = assms(1,2)
  have "view w2 = view w1" by (rule send_strings_keeps [OF keeps _ 2]) (simp add: list_all_iff)
  with send_string_keeps [OF keeps length_status_line 1] send_string_keeps [OF keeps length_CRLF 3]
  show ?thesis by simp
qed

lemma length_dec_digits: "n < 10 ^ Suc k \<Longrightarrow> length (dec_digits n) \<le> Suc k"
proof (induction n arbitrary: k rule: dec_digits.induct)
  case (1 n)
  show ?case
  proof (cases "n < 10")
    case False
    with 1(2) obtain k' where k: "k = Suc k'" by (cases k) auto
    with 1(2) have "n div 10 < 10 ^ Suc k'" by auto
    from 1(1) [OF False this] False k show ?thesis by (subst dec_digits.simps) simp
  qed (subst dec_digits.simps, simp)
qed

lemma length_to_string: "0 \<le> v \<Longrightarrow> v < 2 ^ 31 \<Longrightarrow> length (to_string v) \<le> 10"
  using length_dec_digits [of "nat v" 9] by (simp add: to_string_def)

definition plain_header :: "string \<times> string \<Rightarrow> string" where
  "plain_header = (\<lambda>(name, val). name @ '': '' @ val @ CRLF)"

definition short_header :: "string \<times> string \<Rightarrow> bool" where
  "short_header = (\<lambda>(name, val). length name + length val \<le> 123)"

lemma header_line_plain: "short_header e \<Longrightarrow> header_line e = plain_header e"
  by (auto simp: short_header_def header_line_def plain_header_def snprintf_def CRLF_def)

lemma response_headers_of_ok: "sm_ok (response_headers c) \<Longrightarrow> sm_ok (response_headers_of str c)"
  by (simp add: response_headers_of_def smap.ok_put)

lemma response_headers_of_short:
  assumes "sm_ok (response_headers c)" "list_all short_header (response_headers c)"
    and "int (length str) < 2 ^ 31"
  shows "list_all short_header (response_headers_of str c)"
proof -
  have put: "list_all P (sm_put k v m)" if "list_all P m" "P (k, v)" for P k v and m :: "(string, string) std_map"
    using that by (induction k v m rule: sm_put.induct) auto
  have "length (to_string (int (length str))) \<le> 10" using assms(3) by (simp add: length_to_string)
  then have "short_header (''Content-Length'', to_string (int (length str)))" by (simp add: short_header_def)
  moreover have "short_header (''Access-Control-Allow-Origin'', ''*'')" by (simp add: short_header_def)
  ultimately show ?thesis using assms(2) by (simp add: response_headers_of_def put)
qed

section \<open>Properties\<close>



text \<open>A longer body is not: of one of 65536 characters, which \<open>Content-Length\<close> announces, nothing
  is passed on.\<close>

lemma long_body_is_dropped: "length str = 65536 \<Longrightarrow> tcp_piece str = []"
  by (simp add: tcp_piece_def)

end
