(* ===== verification/Physical_Setup.thy ===== *)
theory Physical_Setup
  imports Radio_Link Ieee_Double Http_Client
begin

text \<open>
  \<open>src/pagers-common/physical.cpp\<close>, the set-up of the two ends (\<open>send_setup\<close>, \<open>receive_setup\<close>) and
  \<open>config_print\<close>.

  The Pico SDK is not part of the repository: what it computes (default configuration, the setters of
  a configuration, the slice of a pin, the system clock) is the record \<open>pwm_sdk\<close> over its own type of
  configurations; what the code asks of the hardware is a list of \<open>hw_call\<close>s in order. A line that is
  printed is \<open>Puts\<close>.
\<close>

definition PIN_TX :: nat where "PIN_TX = 15"
definition PIN_RX :: nat where "PIN_RX = 17"

record 'c pwm_sdk =
  pwm_get_default_config :: 'c
  pwm_config_set_wrap :: "int \<Rightarrow> 'c \<Rightarrow> 'c"
  pwm_config_set_clkdiv :: "f32 \<Rightarrow> 'c \<Rightarrow> 'c"
  pwm_config_set_clkdiv_mode_b_high :: "'c \<Rightarrow> 'c"
  pwm_gpio_to_slice_num :: "nat \<Rightarrow> nat"
  clock_get_hz :: u32

datatype 'c hw_call =
    Gpio_set_function_pwm nat
  | Gpio_set_dir_in nat
  | Gpio_set_irq_fall nat
  | Irq_set_exclusive_handler
  | Irq_set_enabled bool
  | Pwm_set_irq_enabled nat bool
  | Pwm_init nat 'c bool
  | Pwm_set_gpio_level nat int
  | Pwm_set_enabled nat bool
  | Puts string

text \<open>\<open>float\<close> division: the quotient to 60 fraction bits, with a bit for what is left, is rounded.\<close>

definition fl_div :: "float_value \<Rightarrow> float_value \<Rightarrow> float_value" where
  "fl_div a b =
     (case (a, b) of
        (FFin s m e, FFin t n f) \<Rightarrow>
          (if n = 0 then (if m = 0 then FNan else FInf (s \<noteq> t))
           else let q = m * 2 ^ 60 div n; r = m * 2 ^ 60 mod n
                in FFin (s \<noteq> t) (2 * q + (if r = 0 then 0 else 1)) (e - f - 61))
      | (FInf s, FFin t n f) \<Rightarrow> FInf (s \<noteq> t)
      | (FFin s m e, FInf t) \<Rightarrow> FFin (s \<noteq> t) 0 0
      | _ \<Rightarrow> FNan)"

definition f32_div :: "f32 \<Rightarrow> f32 \<Rightarrow> f32" where
  "f32_div a b = encode32 (fl_div (decode32 a) (decode32 b))"

definition clock_divider :: "'c pwm_sdk \<Rightarrow> f32" where
  "clock_divider sdk = f32_div (f32_of_int (uint (clock_get_hz sdk))) (f32_of_int (CLOCK_SPEED_HZ * PWM_TOP))"

definition pwm_timing :: "'c pwm_sdk \<Rightarrow> 'c" where
  "pwm_timing sdk =
     pwm_config_set_clkdiv sdk (clock_divider sdk) (pwm_config_set_wrap sdk PWM_TOP (pwm_get_default_config sdk))"

text \<open>Each set-up leaves the number of its slice in a global.\<close>

definition send_setup :: "'c pwm_sdk \<Rightarrow> 'c hw_call list \<times> nat" where
  "send_setup sdk =
     (let slice_tx = pwm_gpio_to_slice_num sdk PIN_TX; c = pwm_timing sdk
      in ([Gpio_set_function_pwm PIN_TX, Irq_set_exclusive_handler, Irq_set_enabled True,
           Pwm_set_irq_enabled slice_tx True, Pwm_init slice_tx c False,
           Pwm_set_gpio_level PIN_TX PWM_DUTY_SILENCE, Pwm_set_enabled slice_tx True, Puts ''PWM started''],
          slice_tx))"

definition receive_setup :: "'c pwm_sdk \<Rightarrow> 'c hw_call list \<times> nat" where
  "receive_setup sdk =
     (let slice_rx = pwm_gpio_to_slice_num sdk PIN_RX;
          c = pwm_config_set_clkdiv_mode_b_high sdk (pwm_timing sdk)
      in ([Gpio_set_dir_in PIN_RX, Gpio_set_irq_fall PIN_RX, Gpio_set_function_pwm PIN_RX,
           Pwm_init slice_rx c True, Puts ''PWM started''],
          slice_rx))"

text \<open>\<open>%4d\<close>, and the lines of \<open>config_print\<close>.\<close>

definition padded :: "int \<Rightarrow> string" where
  "padded v = (let t = to_string v in replicate (4 - length t) CHR '' '' @ t)"

definition duty_line :: "string \<Rightarrow> int \<Rightarrow> string" where
  "duty_line name duty =
     name @ padded duty @ '' ('' @ padded (CYCLE_TIME_US * duty sdiv PWM_TOP) @ '' us high)''"

definition config_print :: "'c hw_call list" where
  "config_print = map Puts
     [''physical interface config [us]:'',
      ''CYCLE_TIME_US       : '' @ padded CYCLE_TIME_US @ '' [us]'',
      ''PWM_TOP             : '' @ padded PWM_TOP,
      duty_line ''PWM_DUTY_SILENCE    : '' PWM_DUTY_SILENCE,
      duty_line ''PWM_DUTY_ZERO       : '' PWM_DUTY_ZERO,
      duty_line ''PWM_DUTY_ONE        : '' PWM_DUTY_ONE,
      ''zero is ('' @ padded 0 @ '', '' @ padded PWM_DUTY_ZERO_MAX @ '')'',
      '' one is ('' @ padded PWM_DUTY_ONE_MIN @ '', '' @ padded PWM_TOP @ '')'',
      ''SPACING_GENERATED_US    : '' @ to_string SPACING_GENERATED_US,
      ''SPACING_ALLOWED_US_MAX  : '' @ to_string SPACING_ALLOWED_US_MAX]"

section \<open>What the set-ups agree on\<close>

text \<open>The timing of both ends is the same configuration; the level of the transmitter is set after the last
  \<open>pwm_init\<close>, which zeroes it, and before the output is enabled; the receiver's pin is odd, so
  it is a channel B, whose level gates the counter.\<close>

lemma setups_agree:
  "\<exists>c. Pwm_init (snd (send_setup sdk)) c False \<in> set (fst (send_setup sdk)) \<and>
     Pwm_init (snd (receive_setup sdk)) (pwm_config_set_clkdiv_mode_b_high sdk c) True \<in> set (fst (receive_setup sdk))"
  by (auto simp: send_setup_def receive_setup_def Let_def)

lemma level_survives_init:
  "\<exists>xs ys. fst (send_setup sdk) = xs @ Pwm_set_gpio_level PIN_TX PWM_DUTY_SILENCE # ys \<and>
     (\<forall>slice c start. Pwm_init slice c start \<notin> set ys) \<and> Pwm_set_enabled (snd (send_setup sdk)) True \<in> set ys"
  by (rule exI [of _ "take 5 (fst (send_setup sdk))"], rule exI [of _ "drop 6 (fst (send_setup sdk))"])
    (simp add: send_setup_def Let_def numeral_eq_Suc)

lemma receiver_is_channel_b: "odd PIN_RX"
  by (simp add: PIN_RX_def)

text \<open>With the default clock of 125 MHz the divider is the \<open>float\<close> next to 50.86263; the hardware
  takes 1 to 256.\<close>

lemma default_divider:
  assumes "clock_get_hz sdk = 125000000"
  shows "clock_divider sdk = 0x424B7355"
  using assms unfolding clock_divider_def by (simp add: CLOCK_SPEED_HZ_def PWM_TOP_def f32_div_def fl_div_def float_eval)

text \<open>The printed table.\<close>

lemma printed_duties:
  "config_print ! 3 = Puts ''PWM_DUTY_SILENCE    :  512 ( 208 us high)''"
  "config_print ! 4 = Puts ''PWM_DUTY_ZERO       :  170 (  69 us high)''"
  "config_print ! 5 = Puts ''PWM_DUTY_ONE        :  853 ( 346 us high)''"
  by (simp_all add: config_print_def duty_line_def padded_def to_string_def dec_digits.simps
      PWM_DUTY_SILENCE_def PWM_DUTY_ZERO_def PWM_DUTY_ONE_def CYCLE_TIME_US_def CLOCK_SPEED_HZ_def PWM_TOP_def
      SUB_CYCLES_def SUB_CYCLES_HIGH_SILENCE_def SUB_CYCLES_HIGH_ZERO_def SUB_CYCLES_HIGH_ONE_def)
    code_simp+

end
