(* ===== verification/Circular_Buffer.thy ===== *)
theory Circular_Buffer
  imports Pager_Prelude
begin

text \<open>
  \<open>src/pagers-common/circularbuffer.hpp\<close> and \<open>circularbuffer.cpp\<close>: the ring buffer the HTTP
  server collects requests in, with its hidden area in front of the ring into which
  \<open>wrap_buffer\<close> moves the tail of the data so that a line becomes contiguous.

  Offsets are relative to \<open>buffer\<close>, which points \<open>size_hidden\<close> cells into \<open>buffer_hidden\<close>, so
  negative offsets lie in the hidden area. No operation of the class computes with a cell, so
  the cell type is a parameter. The counts the callers pass as \<open>unsigned int\<close> or \<open>long\<close> are
  \<open>int\<close>; a negative count in \<open>memcpy\<close> is a huge \<open>size_t\<close> and leaves the buffer.

  \<open>cb_contents\<close> is the abstraction to the list of unread cells. The lemmas show that the
  operations are those of a bounded queue as long as the ring is never filled to its last
  cell, what \<open>wrap_buffer\<close> does when its precondition holds and when it does not, and that the
  class meets the interface \<open>byte_queue\<close>.
\<close>

section \<open>The code\<close>

record 'b circular_buffer =
  buffer_hidden :: "'b list"
  read_at :: int
  write_at :: int
  read_ack_callback :: "nat option"
  size_hidden :: int
  buf_size :: int

definition cb_reset :: "'b circular_buffer \<Rightarrow> 'b circular_buffer" where
  "cb_reset c = c\<lparr>read_at := 0, write_at := 0, read_ack_callback := None\<rparr>"

text \<open>The constructor; \<open>mem\<close> is the uninitialised memory \<open>new\<close> returns.\<close>

definition cb_new :: "'b list \<Rightarrow> int \<Rightarrow> int \<Rightarrow> 'b circular_buffer" where
  "cb_new mem sz hidden = cb_reset
     \<lparr>buffer_hidden = mem, read_at = 0, write_at = 0, read_ack_callback = None,
      size_hidden = hidden, buf_size = sz\<rparr>"

definition data_left :: "'b circular_buffer \<Rightarrow> int" where
  "data_left c =
     (if write_at c < read_at c then (buf_size c - read_at c) + write_at c
      else write_at c - read_at c)"

definition data_left_continuous :: "'b circular_buffer \<Rightarrow> int" where
  "data_left_continuous c = min (data_left c) (buf_size c - read_at c)"

definition space_left :: "'b circular_buffer \<Rightarrow> int" where
  "space_left c = buf_size c - data_left c"

definition space_left_continuous :: "'b circular_buffer \<Rightarrow> int" where
  "space_left_continuous c = min (space_left c) (buf_size c - write_at c)"

definition cb_health :: "'b circular_buffer \<Rightarrow> int" where
  "cb_health c = data_left c * 100 sdiv buf_size c"

text \<open>Reading and writing \<open>n\<close> cells at \<open>buffer + off\<close>.\<close>

definition cb_load :: "'b circular_buffer \<Rightarrow> int \<Rightarrow> int \<Rightarrow> 'b list result" where
  "cb_load c off n =
     (if 0 \<le> n \<and> 0 \<le> size_hidden c + off \<and> size_hidden c + off + n \<le> int (length (buffer_hidden c))
      then Inr (take (nat n) (drop (nat (size_hidden c + off)) (buffer_hidden c)))
      else Inl OutOfBounds)"

definition cb_store :: "'b circular_buffer \<Rightarrow> int \<Rightarrow> 'b list \<Rightarrow> int \<Rightarrow> 'b circular_buffer result" where
  "cb_store c off src n =
     (if 0 \<le> n \<and> 0 \<le> size_hidden c + off
      then rbind (blit (buffer_hidden c) (nat (size_hidden c + off)) src (nat n))
             (\<lambda>mem. Inr (c\<lparr>buffer_hidden := mem\<rparr>))
      else Inl OutOfBounds)"

text \<open>\<open>read_ack\<close> also returns the call of the registered callback, if there is one.\<close>

definition cb_read_ack ::
    "int \<Rightarrow> 'b circular_buffer \<Rightarrow> 'b circular_buffer \<times> (nat \<times> int) option" where
  "cb_read_ack bytes c =
     (c\<lparr>read_at := (read_at c + bytes) smod buf_size c\<rparr>,
      map_option (\<lambda>f. (f, bytes)) (read_ack_callback c))"

definition cb_write_ack :: "int \<Rightarrow> 'b circular_buffer \<Rightarrow> 'b circular_buffer" where
  "cb_write_ack bytes c = c\<lparr>write_at := (write_at c + bytes) smod buf_size c\<rparr>"

definition cb_read_reverse :: "int \<Rightarrow> 'b circular_buffer \<Rightarrow> 'b circular_buffer" where
  "cb_read_reverse bytes c = c\<lparr>read_at := read_at c - bytes\<rparr>"

definition can_wrap_buffer :: "'b circular_buffer \<Rightarrow> bool" where
  "can_wrap_buffer c \<longleftrightarrow> data_left_continuous c \<le> size_hidden c"

definition wrap_buffer :: "'b circular_buffer \<Rightarrow> 'b circular_buffer result" where
  "wrap_buffer c =
     (let buf_left = data_left_continuous c in
      rbind (cb_load c (read_at c) buf_left) (\<lambda>src.
      rbind (cb_store c (- buf_left) src buf_left) (\<lambda>c'.
        Inr (c'\<lparr>read_at := - buf_left\<rparr>))))"

definition set_read_ptr_end :: "int \<Rightarrow> 'b circular_buffer \<Rightarrow> 'b circular_buffer" where
  "set_read_ptr_end from_end c = c\<lparr>read_at := write_at c - from_end\<rparr>"

text \<open>One round of the loop of \<open>write\<close>, and \<open>write\<close>.\<close>

definition cb_write_chunk ::
    "'b list \<times> int \<times> 'b circular_buffer \<Rightarrow> ('b list \<times> int \<times> 'b circular_buffer) result" where
  "cb_write_chunk = (\<lambda>(data, data_len, c).
     let write = min data_len (space_left_continuous c) in
     rbind (cb_store c (write_at c) data write) (\<lambda>c'.
       Inr (drop (nat write) data, data_len - write, cb_write_ack write c')))"

definition cb_write :: "'b list \<Rightarrow> int \<Rightarrow> 'b circular_buffer \<Rightarrow> 'b circular_buffer result" where
  "cb_write data data_len c =
     rbind (for_loop 2 (\<lambda>_. cb_write_chunk) (data, data_len, c)) (\<lambda>(_, _, c'). Inr c')"

definition cb_move_chunk ::
    "'b circular_buffer \<times> 'b circular_buffer \<Rightarrow> ('b circular_buffer \<times> 'b circular_buffer) result" where
  "cb_move_chunk = (\<lambda>(c, other).
     rbind (cb_load c (read_at c) (data_left_continuous c)) (\<lambda>src.
     rbind (cb_write src (data_left_continuous c) other) (\<lambda>other'.
       Inr (fst (cb_read_ack (data_left_continuous c) c), other'))))"

definition move_to ::
    "'b circular_buffer \<Rightarrow> 'b circular_buffer \<Rightarrow> ('b circular_buffer \<times> 'b circular_buffer) result" where
  "move_to c other = for_loop 2 (\<lambda>_. cb_move_chunk) (c, other)"

definition set_read_ack_callback :: "nat option \<Rightarrow> 'b circular_buffer \<Rightarrow> 'b circular_buffer" where
  "set_read_ack_callback cb c = c\<lparr>read_ack_callback := cb\<rparr>"

section \<open>The queue behind the ring\<close>

definition cb_slice :: "'b circular_buffer \<Rightarrow> int \<Rightarrow> int \<Rightarrow> 'b list" where
  "cb_slice c a b = take (nat (b - a)) (drop (nat (size_hidden c + a)) (buffer_hidden c))"

definition cb_contents :: "'b circular_buffer \<Rightarrow> 'b list" where
  "cb_contents c =
     (if write_at c < read_at c then cb_slice c (read_at c) (buf_size c) @ cb_slice c 0 (write_at c)
      else cb_slice c (read_at c) (write_at c))"

definition cb_inv :: "'b circular_buffer \<Rightarrow> bool" where
  "cb_inv c \<longleftrightarrow> 0 \<le> size_hidden c \<and> size_hidden c < buf_size c \<and>
     int (length (buffer_hidden c)) = buf_size c + size_hidden c \<and>
     - size_hidden c \<le> read_at c \<and> read_at c < buf_size c \<and>
     0 \<le> write_at c \<and> write_at c < buf_size c \<and> data_left c < buf_size c"

lemma length_cb_slice:
  "0 \<le> size_hidden c + a \<Longrightarrow> a \<le> b \<Longrightarrow> size_hidden c + b \<le> int (length (buffer_hidden c)) \<Longrightarrow>
     length (cb_slice c a b) = nat (b - a)"
  by (auto simp: cb_slice_def)

lemma cb_slice_empty [simp]: "cb_slice c a a = []"
  by (simp add: cb_slice_def)

lemma cb_slice_split:
  assumes "0 \<le> size_hidden c + a" "a \<le> m" "m \<le> b"
  shows "cb_slice c a b = cb_slice c a m @ cb_slice c m b"
proof -
  have n: "nat (b - a) = nat (m - a) + nat (b - m)"
    and s: "nat (size_hidden c + m) = nat (size_hidden c + a) + nat (m - a)"
    using assms by (simp_all flip: nat_add_distrib)
  show ?thesis unfolding cb_slice_def n s take_add drop_drop by (simp add: add.commute)
qed

lemma drop_cb_slice:
  assumes "0 \<le> size_hidden c + a" "0 \<le> n" "a + n \<le> b" "size_hidden c + b \<le> int (length (buffer_hidden c))"
  shows "drop (nat n) (cb_slice c a b) = cb_slice c (a + n) b"
proof -
  have "cb_slice c a b = cb_slice c a (a + n) @ cb_slice c (a + n) b"
    using assms by (intro cb_slice_split) auto
  moreover have "length (cb_slice c a (a + n)) = nat n"
    using assms by (subst length_cb_slice) auto
  ultimately show ?thesis by simp
qed

lemma cb_slice_fields [simp]:
  "cb_slice (c\<lparr>read_at := x\<rparr>) a b = cb_slice c a b"
  "cb_slice (c\<lparr>write_at := x\<rparr>) a b = cb_slice c a b"
  by (simp_all add: cb_slice_def)

lemma length_cb_contents: "cb_inv c \<Longrightarrow> int (length (cb_contents c)) = data_left c"
  by (auto simp: cb_contents_def cb_inv_def data_left_def length_cb_slice)

lemma data_left_bounds: "cb_inv c \<Longrightarrow> 0 \<le> data_left c \<and> data_left c < buf_size c"
  by (auto simp: cb_inv_def data_left_def split: if_splits)

lemma cb_load_slice:
  "0 \<le> n \<Longrightarrow> 0 \<le> size_hidden c + off \<Longrightarrow> size_hidden c + off + n \<le> int (length (buffer_hidden c)) \<Longrightarrow>
     cb_load c off n = Inr (cb_slice c off (off + n))"
  by (simp add: cb_load_def cb_slice_def)

lemma take_drop_prefix:
  assumes "q + p \<le> k" "k \<le> length m"
  shows "take p (drop q (take k m @ rest)) = take p (drop q m)"
proof -
  have "drop q (take k m @ rest) = drop q (take k m) @ rest" using assms by simp
  moreover have "p \<le> length (drop q (take k m))" using assms by simp
  ultimately have "take p (drop q (take k m @ rest)) = take p (drop q (take k m))" by simp
  also have "drop q (take k m) = take (k - q) (drop q m)" by (rule drop_take)
  finally show ?thesis using assms by (simp add: min_def)
qed

text \<open>Storing changes exactly the slice it writes.\<close>

lemma cb_store_spec:
  assumes "0 \<le> n" "n \<le> int (length src)" "0 \<le> size_hidden c + off"
    "size_hidden c + off + n \<le> int (length (buffer_hidden c))"
  shows "\<exists>mem. cb_store c off src n = Inr (c\<lparr>buffer_hidden := mem\<rparr>) \<and>
     length mem = length (buffer_hidden c) \<and>
     cb_slice (c\<lparr>buffer_hidden := mem\<rparr>) off (off + n) = take (nat n) src \<and>
     (\<forall>a b. 0 \<le> size_hidden c + a \<longrightarrow> (b \<le> off \<or> off + n \<le> a) \<longrightarrow>
        cb_slice (c\<lparr>buffer_hidden := mem\<rparr>) a b = cb_slice c a b)"
proof -
  let ?o = "nat (size_hidden c + off)" and ?m = "buffer_hidden c"
  let ?mem = "take ?o ?m @ take (nat n) src @ drop (?o + nat n) ?m"
  have o: "?o + nat n \<le> length ?m" using assms by linarith
  have n: "nat n \<le> length src" using assms by linarith
  have "cb_store c off src n = Inr (c\<lparr>buffer_hidden := ?mem\<rparr>)"
    using assms o n by (simp add: cb_store_def blit_def)
  moreover have "length ?mem = length ?m" using o n by simp
  moreover have "cb_slice (c\<lparr>buffer_hidden := ?mem\<rparr>) off (off + n) = take (nat n) src"
    using o n by (simp add: cb_slice_def)
  moreover have "cb_slice (c\<lparr>buffer_hidden := ?mem\<rparr>) a b = cb_slice c a b"
    if a: "0 \<le> size_hidden c + a" and ab: "b \<le> off \<or> off + n \<le> a" for a b
  proof (cases "b \<le> a")
    case True
    then show ?thesis by (simp add: cb_slice_def)
  next
    case False
    let ?a = "nat (size_hidden c + a)"
    show ?thesis
    proof (cases "b \<le> off")
      case True
      then have le: "?a \<le> ?o" "nat (b - a) \<le> ?o - ?a" using False a assms by linarith+
      then have "?a + nat (b - a) \<le> ?o" by linarith
      from take_drop_prefix [OF this, of ?m "take (nat n) src @ drop (?o + nat n) ?m"] o
      show ?thesis by (simp add: cb_slice_def)
    next
      case False
      with ab a assms have le: "?o + nat n \<le> ?a" by linarith
      then have "nat n \<le> ?a - ?o" by linarith
      with le o n show ?thesis by (simp add: cb_slice_def)
    qed
  qed
  ultimately show ?thesis by blast
qed

section \<open>Appending and consuming\<close>

lemma smod_wrap:
  "0 \<le> x \<Longrightarrow> x \<le> m \<Longrightarrow> 0 < m \<Longrightarrow> x smod m = (if x = m then 0 else x)" for x m :: int
  by (cases "x = 0") (auto simp: signed_modulo_int_def)

lemma smod_once:
  fixes x m :: int
  assumes "- m < x" "x < 2 * m" "0 < m"
  shows "x smod m = (if m \<le> x then x - m else x)"
proof (cases "0 < x")
  case True
  then have "x smod m = x mod m" using assms(3) by (simp add: signed_modulo_int_def)
  also have "\<dots> = (if m \<le> x then x - m else x)"
  proof (cases "m \<le> x")
    case True
    then have "x mod m = (x - m) mod m" using assms(3) by (intro mod_pos_geq) auto
    also have "\<dots> = x - m" using True assms by (intro mod_pos_pos_trivial) auto
    finally show ?thesis using True by simp
  next
    case False
    with \<open>0 < x\<close> show ?thesis by (simp add: mod_pos_pos_trivial)
  qed
  finally show ?thesis .
next
  case False
  then have "x smod m = - ((- x) mod m)"
    using assms(3) by (cases "x = 0") (simp_all add: signed_modulo_int_def)
  also have "(- x) mod m = - x" using False assms by (intro mod_pos_pos_trivial) auto
  finally show ?thesis using False assms by simp
qed

lemma cb_append_chunk:
  assumes inv: "cb_inv c" and k: "0 \<le> k" "k \<le> int (length src)"
    and room: "k \<le> buf_size c - write_at c" "k + data_left c < buf_size c"
  shows "\<exists>c'. rbind (cb_store c (write_at c) src k) (\<lambda>c1. Inr (cb_write_ack k c1)) = Inr c' \<and>
     cb_inv c' \<and> cb_contents c' = cb_contents c @ take (nat k) src \<and>
     buf_size c' = buf_size c \<and> write_at c' = (if write_at c + k = buf_size c then 0 else write_at c + k) \<and>
     data_left c' = data_left c + k"
proof -
  have w: "0 \<le> write_at c" "write_at c < buf_size c" and r: "- size_hidden c \<le> read_at c" "read_at c < buf_size c"
    and h: "0 \<le> size_hidden c" and len: "int (length (buffer_hidden c)) = buf_size c + size_hidden c"
    using inv by (auto simp: cb_inv_def)
  from cb_store_spec [of k src c "write_at c"] k room w h len obtain mem where
    st: "cb_store c (write_at c) src k = Inr (c\<lparr>buffer_hidden := mem\<rparr>)"
    and lmem: "length mem = length (buffer_hidden c)"
    and new: "cb_slice (c\<lparr>buffer_hidden := mem\<rparr>) (write_at c) (write_at c + k) = take (nat k) src"
    and old: "\<And>a b. 0 \<le> size_hidden c + a \<Longrightarrow> b \<le> write_at c \<or> write_at c + k \<le> a \<Longrightarrow>
      cb_slice (c\<lparr>buffer_hidden := mem\<rparr>) a b = cb_slice c a b" by auto
  let ?m = "c\<lparr>buffer_hidden := mem\<rparr>"
  let ?c' = "cb_write_ack k ?m"
  have wa: "write_at ?c' = (if write_at c + k = buf_size c then 0 else write_at c + k)"
    using w k room by (simp add: cb_write_ack_def smod_wrap)
  have f: "read_at ?c' = read_at c" "buf_size ?c' = buf_size c" "size_hidden ?c' = size_hidden c"
    "buffer_hidden ?c' = mem" by (simp_all add: cb_write_ack_def)
  have sl: "cb_slice ?c' a b = cb_slice ?m a b" for a b by (simp add: cb_write_ack_def)
  have dl: "data_left ?c' = data_left c + k"
    using w r k room by (auto simp: data_left_def wa f split: if_splits)
  have inv': "cb_inv ?c'"
    using inv w r k room lmem by (auto simp: cb_inv_def f dl wa)
  have "cb_contents ?c' = cb_contents c @ take (nat k) src"
  proof (cases "write_at c < read_at c")
    case True
    then have lt: "write_at c + k < read_at c" using room by (simp add: data_left_def)
    have "cb_slice ?m 0 (write_at c + k) = cb_slice ?m 0 (write_at c) @ take (nat k) src"
      using cb_slice_split [of ?m 0 "write_at c" "write_at c + k"] w k h by (simp add: new)
    moreover have "cb_slice ?m 0 (write_at c) = cb_slice c 0 (write_at c)"
      "cb_slice ?m (read_at c) (buf_size c) = cb_slice c (read_at c) (buf_size c)"
      using h lt r by (intro old; simp)+
    ultimately show ?thesis using True lt r by (simp add: cb_contents_def wa f sl)
  next
    case False
    have all: "cb_slice ?m (read_at c) (write_at c + k) = cb_contents c @ take (nat k) src"
      using cb_slice_split [of ?m "read_at c" "write_at c" "write_at c + k"] False r k old
      by (simp add: new cb_contents_def)
    show ?thesis
    proof (cases "write_at c + k = buf_size c")
      case True
      have "0 < read_at c" using True room False by (simp add: data_left_def)
      with True all show ?thesis by (simp add: cb_contents_def wa f sl)
    next
      case False
      with \<open>\<not> write_at c < read_at c\<close> k all show ?thesis by (simp add: cb_contents_def wa f sl)
    qed
  qed
  with inv' wa f dl show ?thesis by (simp add: st)
qed

lemma cb_write_chunk_eq:
  "cb_write_chunk (data, n, c) =
     rbind (rbind (cb_store c (write_at c) data (min n (space_left_continuous c)))
        (\<lambda>c1. Inr (cb_write_ack (min n (space_left_continuous c)) c1)))
       (\<lambda>c'. Inr (drop (nat (min n (space_left_continuous c))) data,
                  n - min n (space_left_continuous c), c'))"
  by (simp add: cb_write_chunk_def Let_def rbind_assoc)

lemma cb_write_fits:
  assumes inv: "cb_inv c" and fits: "int (length data) + data_left c < buf_size c"
  shows "\<exists>c'. cb_write data (int (length data)) c = Inr c' \<and> cb_inv c' \<and>
     cb_contents c' = cb_contents c @ data \<and> buf_size c' = buf_size c"
proof -
  let ?n = "int (length data)"
  define k1 where "k1 = min ?n (space_left_continuous c)"
  have w: "0 \<le> write_at c" "write_at c < buf_size c" using inv by (auto simp: cb_inv_def)
  have dl: "0 \<le> data_left c" using data_left_bounds [OF inv] by simp
  have k1: "0 \<le> k1" "k1 \<le> ?n" "k1 \<le> buf_size c - write_at c" "k1 + data_left c < buf_size c"
    using fits w dl by (auto simp: k1_def space_left_continuous_def space_left_def min_def)
  from cb_append_chunk [OF inv k1] obtain c1 where
    r1: "rbind (cb_store c (write_at c) data k1) (\<lambda>c1. Inr (cb_write_ack k1 c1)) = Inr c1"
    and c1: "cb_inv c1" "cb_contents c1 = cb_contents c @ take (nat k1) data" "buf_size c1 = buf_size c"
      "write_at c1 = (if write_at c + k1 = buf_size c then 0 else write_at c + k1)"
      "data_left c1 = data_left c + k1" by blast
  let ?d = "drop (nat k1) data" and ?n1 = "?n - k1"
  have nd: "?n1 = int (length ?d)" using k1 by simp
  define k2 where "k2 = min ?n1 (space_left_continuous c1)"
  have k2: "k2 = ?n1"
    using fits k1 w dl c1(3-5) by (auto simp: k2_def k1_def space_left_continuous_def space_left_def min_def)
  have b2: "k2 \<le> buf_size c1 - write_at c1"
    unfolding k2_def space_left_continuous_def by simp
  have b3: "0 \<le> k2" "k2 \<le> int (length ?d)" "k2 + data_left c1 < buf_size c1"
    using fits k1 c1(3,5) nd k2 by linarith+
  from cb_append_chunk [OF c1(1) b3(1,2) b2 b3(3)] obtain c2 where
    r2: "rbind (cb_store c1 (write_at c1) ?d k2) (\<lambda>c'. Inr (cb_write_ack k2 c')) = Inr c2"
    and c2: "cb_inv c2" "cb_contents c2 = cb_contents c1 @ take (nat k2) ?d" "buf_size c2 = buf_size c1"
    by blast
  have ch1: "cb_write_chunk (data, ?n, c) = Inr (?d, ?n1, c1)"
    by (simp only: cb_write_chunk_eq k1_def [symmetric] r1 rbind_simps)
  have ch2: "cb_write_chunk (?d, ?n1, c1) = Inr (drop (nat k2) ?d, ?n1 - k2, c2)"
    by (simp only: cb_write_chunk_eq k2_def [symmetric] r2 rbind_simps)
  have "cb_write data ?n c = Inr c2"
    by (simp only: cb_write_def for_loop_def numeral_2_eq_2 loop_from.simps rbind_simps ch1 ch2
        prod.case)
  moreover have "cb_contents c2 = cb_contents c @ data"
  proof -
    have "nat k2 = length ?d" using k2 nd by linarith
    then have "take (nat k2) ?d = ?d" by simp
    then show ?thesis unfolding c2(2) c1(2) by simp
  qed
  ultimately show ?thesis using c1(3) c2 by auto
qed

lemma cb_read_ack_drop:
  assumes inv: "cb_inv c" and n: "0 \<le> n" "n \<le> data_left c"
  defines "c' \<equiv> fst (cb_read_ack n c)"
  shows "cb_inv c' \<and> cb_contents c' = drop (nat n) (cb_contents c) \<and> buf_size c' = buf_size c"
proof -
  have b: "0 \<le> size_hidden c" "size_hidden c < buf_size c" "- size_hidden c \<le> read_at c" "read_at c < buf_size c"
    "0 \<le> write_at c" "write_at c < buf_size c" "data_left c < buf_size c"
    and len: "int (length (buffer_hidden c)) = buf_size c + size_hidden c"
    using inv by (auto simp: cb_inv_def)
  define r where "r = (if buf_size c \<le> read_at c + n then read_at c + n - buf_size c else read_at c + n)"
  have c': "c' = c\<lparr>read_at := r\<rparr>"
    using smod_once [of "buf_size c" "read_at c + n"] b n by (simp add: c'_def cb_read_ack_def r_def)
  have inv': "cb_inv c'"
    using b n len by (auto simp: cb_inv_def c' data_left_def r_def split: if_splits)
  have "cb_contents c' = drop (nat n) (cb_contents c)"
  proof (cases "write_at c < read_at c")
    case False
    with n b have r: "r = read_at c + n" "r \<le> write_at c" by (auto simp: r_def data_left_def)
    then show ?thesis using False b n len
      by (simp add: cb_contents_def c' drop_cb_slice)
  next
    case wrapped: True
    let ?hi = "cb_slice c (read_at c) (buf_size c)"
    have hi: "length ?hi = nat (buf_size c - read_at c)"
      using b len by (intro length_cb_slice) auto
    show ?thesis
    proof (cases "buf_size c \<le> read_at c + n")
      case True
      with n b wrapped have r: "r = read_at c + n - buf_size c" "r \<le> write_at c" "0 \<le> r"
        by (auto simp: r_def data_left_def)
      have "nat n - length ?hi = nat r" using True b hi r(1) by linarith
      moreover have "length ?hi \<le> nat n" using True hi by linarith
      ultimately have "drop (nat n) (cb_contents c) = drop (nat r) (cb_slice c 0 (write_at c))"
        using wrapped by (simp add: cb_contents_def)
      also have "\<dots> = cb_slice c r (write_at c)"
        using drop_cb_slice [of c 0 r "write_at c"] r b len by simp
      finally show ?thesis using r by (simp add: cb_contents_def c')
    next
      case False
      then have r: "r = read_at c + n" by (simp add: r_def)
      have "nat n \<le> length ?hi" using False hi by linarith
      then have "drop (nat n) (cb_contents c) = drop (nat n) ?hi @ cb_slice c 0 (write_at c)"
        using wrapped by (simp add: cb_contents_def)
      also have "drop (nat n) ?hi = cb_slice c r (buf_size c)"
        unfolding r using False b n len by (intro drop_cb_slice) auto
      finally show ?thesis using r wrapped n by (simp add: cb_contents_def c')
    qed
  qed
  with inv' show ?thesis by (simp add: c')
qed

section \<open>Making the data contiguous\<close>

lemma wrap_buffer_step:
  assumes inv: "cb_inv c" and can: "can_wrap_buffer c"
  defines "k \<equiv> data_left_continuous c"
  shows "\<exists>mem. wrap_buffer c = Inr (c\<lparr>buffer_hidden := mem, read_at := - k\<rparr>) \<and>
     length mem = length (buffer_hidden c) \<and> 0 \<le> k \<and> k \<le> size_hidden c \<and>
     cb_slice (c\<lparr>buffer_hidden := mem\<rparr>) (- k) 0 = cb_slice c (read_at c) (read_at c + k) \<and>
     cb_slice (c\<lparr>buffer_hidden := mem\<rparr>) 0 (write_at c) = cb_slice c 0 (write_at c)"
proof -
  have b: "0 \<le> size_hidden c" "size_hidden c < buf_size c" "- size_hidden c \<le> read_at c"
    "read_at c < buf_size c" "0 \<le> write_at c" "write_at c < buf_size c"
    and len: "int (length (buffer_hidden c)) = buf_size c + size_hidden c"
    using inv by (auto simp: cb_inv_def)
  have k: "0 \<le> k" "k \<le> size_hidden c" "read_at c + k \<le> buf_size c"
    using data_left_bounds [OF inv] b can
    by (auto simp: k_def data_left_continuous_def can_wrap_buffer_def)
  let ?src = "cb_slice c (read_at c) (read_at c + k)"
  have lsrc: "length ?src = nat k" using b k len by (subst length_cb_slice) auto
  have ld: "cb_load c (read_at c) k = Inr ?src" using b k len by (intro cb_load_slice) auto
  from cb_store_spec [of k ?src c "- k"] k b len lsrc obtain mem where
    st: "cb_store c (- k) ?src k = Inr (c\<lparr>buffer_hidden := mem\<rparr>)"
    and m: "length mem = length (buffer_hidden c)"
      "cb_slice (c\<lparr>buffer_hidden := mem\<rparr>) (- k) 0 = take (nat k) ?src"
      "\<And>a b. 0 \<le> size_hidden c + a \<Longrightarrow> b \<le> - k \<or> 0 \<le> a \<Longrightarrow>
         cb_slice (c\<lparr>buffer_hidden := mem\<rparr>) a b = cb_slice c a b" by auto
  have "wrap_buffer c = Inr (c\<lparr>buffer_hidden := mem, read_at := - k\<rparr>)"
    by (simp add: wrap_buffer_def Let_def k_def [symmetric] ld st)
  with m k lsrc b show ?thesis by auto
qed

text \<open>The two cases: the continuous data ends at the end of the ring, or it does not.\<close>

lemma wrap_buffer_contents:
  assumes inv: "cb_inv c" and can: "can_wrap_buffer c"
  shows "\<exists>c'. wrap_buffer c = Inr c' \<and> buf_size c' = buf_size c \<and> write_at c' = write_at c \<and>
     (if read_at c + data_left_continuous c = buf_size c
      then cb_inv c' \<and> cb_contents c' = cb_contents c \<and> data_left_continuous c' = data_left c'
      else cb_contents c' = cb_contents c @ cb_slice c 0 (write_at c))"
proof -
  let ?k = "data_left_continuous c"
  from wrap_buffer_step [OF inv can] obtain mem where
    w: "wrap_buffer c = Inr (c\<lparr>buffer_hidden := mem, read_at := - ?k\<rparr>)"
    and m: "length mem = length (buffer_hidden c)" "0 \<le> ?k" "?k \<le> size_hidden c"
      "cb_slice (c\<lparr>buffer_hidden := mem\<rparr>) (- ?k) 0 = cb_slice c (read_at c) (read_at c + ?k)"
      "cb_slice (c\<lparr>buffer_hidden := mem\<rparr>) 0 (write_at c) = cb_slice c 0 (write_at c)" by blast
  let ?c' = "c\<lparr>buffer_hidden := mem, read_at := - ?k\<rparr>"
  have b: "0 \<le> size_hidden c" "size_hidden c < buf_size c" "- size_hidden c \<le> read_at c"
    "read_at c < buf_size c" "0 \<le> write_at c" "write_at c < buf_size c" "data_left c < buf_size c"
    and len: "int (length (buffer_hidden c)) = buf_size c + size_hidden c"
    using inv by (auto simp: cb_inv_def)
  have "cb_contents ?c' = cb_slice (c\<lparr>buffer_hidden := mem\<rparr>) (- ?k) (write_at c)"
    using b m(2) by (simp add: cb_contents_def)
  also have "\<dots> = cb_slice c (read_at c) (read_at c + ?k) @ cb_slice c 0 (write_at c)"
    using cb_slice_split [of "c\<lparr>buffer_hidden := mem\<rparr>" "- ?k" 0 "write_at c"] m b by simp
  finally have cont: "cb_contents ?c' =
      cb_slice c (read_at c) (read_at c + ?k) @ cb_slice c 0 (write_at c)" .
  have dl: "data_left ?c' = write_at c + ?k" using b m(2) by (simp add: data_left_def)
  show ?thesis
  proof (cases "read_at c + ?k = buf_size c")
    case True
    have pos: "write_at c < read_at c"
      using True b by (auto simp: data_left_continuous_def data_left_def min_def split: if_splits)
    then have "data_left c = buf_size c - read_at c + write_at c" by (simp add: data_left_def)
    with True dl have same: "data_left ?c' = data_left c" by simp
    have "cb_inv ?c'"
      using b m same by (auto simp: cb_inv_def len)
    moreover have "data_left_continuous ?c' = data_left ?c'"
      using same b m(2) by (simp add: data_left_continuous_def)
    moreover have "cb_contents ?c' = cb_contents c"
      using cont True pos by (simp add: cb_contents_def)
    ultimately show ?thesis using w True by simp
  next
    case False
    then have "?k = data_left c" "\<not> write_at c < read_at c"
      using b by (auto simp: data_left_continuous_def data_left_def min_def split: if_splits)
    then have "cb_slice c (read_at c) (read_at c + ?k) = cb_contents c"
      by (simp add: cb_contents_def data_left_def)
    with cont w False show ?thesis by simp
  qed
qed

section \<open>Moving everything to another ring\<close>

lemma load_read_chunk:
  assumes inv: "cb_inv c"
  defines "k \<equiv> data_left_continuous c"
  shows "cb_load c (read_at c) k = Inr (take (nat k) (cb_contents c)) \<and> 0 \<le> k \<and> k \<le> data_left c"
proof -
  have b: "0 \<le> size_hidden c" "- size_hidden c \<le> read_at c" "read_at c < buf_size c"
    "0 \<le> write_at c" "write_at c < buf_size c"
    and len: "int (length (buffer_hidden c)) = buf_size c + size_hidden c"
    using inv by (auto simp: cb_inv_def)
  have k: "0 \<le> k" "read_at c + k \<le> buf_size c" "k \<le> data_left c"
    using data_left_bounds [OF inv] b by (auto simp: k_def data_left_continuous_def)
  have ld: "cb_load c (read_at c) k = Inr (cb_slice c (read_at c) (read_at c + k))"
    using b k len by (intro cb_load_slice) auto
  have len_s: "length (cb_slice c (read_at c) (read_at c + k)) = nat k"
    using b k len by (subst length_cb_slice) auto
  have "take (nat k) (cb_contents c) = cb_slice c (read_at c) (read_at c + k)"
  proof (cases "write_at c < read_at c")
    case True
    then have "cb_contents c = (cb_slice c (read_at c) (read_at c + k) @
        cb_slice c (read_at c + k) (buf_size c)) @ cb_slice c 0 (write_at c)"
      using cb_slice_split [of c "read_at c" "read_at c + k" "buf_size c"] b k
      by (simp add: cb_contents_def)
    with len_s show ?thesis by simp
  next
    case False
    then have "k \<le> write_at c - read_at c" using k by (simp add: data_left_def)
    then have "cb_contents c = cb_slice c (read_at c) (read_at c + k) @
        cb_slice c (read_at c + k) (write_at c)"
      using False cb_slice_split [of c "read_at c" "read_at c + k" "write_at c"] b k
      by (simp add: cb_contents_def)
    with len_s show ?thesis by simp
  qed
  with ld k show ?thesis by simp
qed

lemma cb_move_chunk_ok:
  assumes inv: "cb_inv c" "cb_inv d" and room: "data_left c + data_left d < buf_size d"
  defines "k \<equiv> nat (data_left_continuous c)"
  shows "\<exists>c' d'. cb_move_chunk (c, d) = Inr (c', d') \<and> cb_inv c' \<and> cb_inv d' \<and>
     cb_contents c' = drop k (cb_contents c) \<and> cb_contents d' = cb_contents d @ take k (cb_contents c) \<and>
     buf_size d' = buf_size d \<and> data_left_continuous c' = data_left c'"
proof -
  let ?k = "data_left_continuous c"
  from load_read_chunk [OF inv(1)] have ld: "cb_load c (read_at c) ?k = Inr (take k (cb_contents c))"
    and k: "0 \<le> ?k" "?k \<le> data_left c" by (simp_all add: k_def)
  have len: "int (length (take k (cb_contents c))) = ?k"
    using k length_cb_contents [OF inv(1)] by (simp add: k_def)
  from cb_write_fits [OF inv(2), of "take k (cb_contents c)"] room k len obtain d' where
    wr: "cb_write (take k (cb_contents c)) ?k d = Inr d'" and d': "cb_inv d'"
      "cb_contents d' = cb_contents d @ take k (cb_contents c)" "buf_size d' = buf_size d" by auto
  let ?c' = "fst (cb_read_ack ?k c)"
  note ra = cb_read_ack_drop [OF inv(1) k]
  have b: "0 \<le> size_hidden c" "size_hidden c < buf_size c" "- size_hidden c \<le> read_at c"
    "read_at c < buf_size c" "0 \<le> write_at c" "write_at c < buf_size c" "data_left c < buf_size c"
    using inv(1) by (auto simp: cb_inv_def)
  have c': "?c' = c\<lparr>read_at := if buf_size c \<le> read_at c + ?k then read_at c + ?k - buf_size c
      else read_at c + ?k\<rparr>"
    using smod_once [of "buf_size c" "read_at c + ?k"] b k by (simp add: cb_read_ack_def)
  have "data_left_continuous ?c' = data_left ?c'"
    unfolding c' using b by (auto simp: data_left_continuous_def data_left_def min_def)
  with ra ld wr d' show ?thesis by (simp add: cb_move_chunk_def k_def)
qed

section \<open>The interface the request reader relies on\<close>

text \<open>A user of the ring writes pieces and acknowledges what it has read, in any order. On the
  queue a \<open>Put\<close> appends and a \<open>Take\<close> drops; the sequence fits when no \<open>Put\<close> fills the ring to
  its last cell and no \<open>Take\<close> acknowledges more than is there. The total that passes through
  the ring is not bounded, so both pointers wrap as often as the sequence makes them.\<close>

datatype 'b ring_op = Put "'b list" | Take nat

fun queue_step :: "'b ring_op \<Rightarrow> 'b list \<Rightarrow> 'b list" where
  "queue_step (Put bs) q = q @ bs"
| "queue_step (Take n) q = drop n q"

fun op_fits :: "nat \<Rightarrow> 'b list \<Rightarrow> 'b ring_op \<Rightarrow> bool" where
  "op_fits cap q (Put bs) \<longleftrightarrow> length q + length bs < cap"
| "op_fits cap q (Take n) \<longleftrightarrow> n \<le> length q"

fun ops_fit :: "nat \<Rightarrow> 'b list \<Rightarrow> 'b ring_op list \<Rightarrow> bool" where
  "ops_fit cap q [] \<longleftrightarrow> True"
| "ops_fit cap q (x # xs) \<longleftrightarrow> op_fits cap q x \<and> ops_fit cap (queue_step x q) xs"

locale byte_queue =
  fixes contents :: "'q \<Rightarrow> 'b list" and invar :: "'q \<Rightarrow> bool" and capacity :: "'q \<Rightarrow> nat"
    and put :: "'b list \<Rightarrow> 'q \<Rightarrow> 'q result" and consume :: "nat \<Rightarrow> 'q \<Rightarrow> 'q"
  assumes put_ok: "invar q \<Longrightarrow> length (contents q) + length bs < capacity q \<Longrightarrow>
      \<exists>q'. put bs q = Inr q' \<and> invar q' \<and> contents q' = contents q @ bs \<and> capacity q' = capacity q"
    and consume_ok: "invar q \<Longrightarrow> n \<le> length (contents q) \<Longrightarrow>
      invar (consume n q) \<and> contents (consume n q) = drop n (contents q) \<and>
      capacity (consume n q) = capacity q"
begin

fun apply_op :: "'b ring_op \<Rightarrow> 'q \<Rightarrow> 'q result" where
  "apply_op (Put bs) q = put bs q"
| "apply_op (Take n) q = Inr (consume n q)"

primrec run :: "'b ring_op list \<Rightarrow> 'q \<Rightarrow> 'q result" where
  "run [] q = Inr q"
| "run (x # xs) q = rbind (apply_op x q) (run xs)"

lemma apply_op_ok:
  assumes "invar q" "op_fits (capacity q) (contents q) x"
  shows "\<exists>q'. apply_op x q = Inr q' \<and> invar q' \<and> capacity q' = capacity q \<and>
     contents q' = queue_step x (contents q)"
proof (cases x)
  case (Put bs)
  with assms put_ok [of q bs] show ?thesis by auto
next
  case (Take n)
  with assms consume_ok [of q n] show ?thesis by simp
qed

lemma run_ok:
  assumes "invar q" "ops_fit (capacity q) (contents q) xs"
  shows "\<exists>q'. run xs q = Inr q' \<and> invar q' \<and> capacity q' = capacity q \<and>
     contents q' = fold queue_step xs (contents q)"
  using assms
proof (induction xs arbitrary: q)
  case (Cons x xs)
  with apply_op_ok [of q x] obtain q1 where
    1: "apply_op x q = Inr q1" "invar q1" "capacity q1 = capacity q"
      "contents q1 = queue_step x (contents q)" by auto
  with Cons.IH [of q1] Cons.prems show ?case by simp
qed simp

end

interpretation ring: byte_queue
  "cb_contents" "cb_inv" "\<lambda>c. nat (buf_size c)"
  "\<lambda>bs. cb_write bs (int (length bs))" "\<lambda>n c. fst (cb_read_ack (int n) c)"
proof unfold_locales
  fix c :: "'b circular_buffer" and bs :: "'b list" and n :: nat
  assume inv: "cb_inv c"
  note len = length_cb_contents [OF inv]
  show "length (cb_contents c) + length bs < nat (buf_size c) \<Longrightarrow>
      \<exists>c'. cb_write bs (int (length bs)) c = Inr c' \<and> cb_inv c' \<and> cb_contents c' = cb_contents c @ bs \<and>
        nat (buf_size c') = nat (buf_size c)"
    using cb_write_fits [OF inv, of bs] len by force
  show "n \<le> length (cb_contents c) \<Longrightarrow>
      cb_inv (fst (cb_read_ack (int n) c)) \<and>
      cb_contents (fst (cb_read_ack (int n) c)) = drop n (cb_contents c) \<and>
      nat (buf_size (fst (cb_read_ack (int n) c))) = nat (buf_size c)"
    using cb_read_ack_drop [OF inv, of "int n"] len by auto
qed

lemma cb_new_ok:
  assumes "0 \<le> h" "h < n" "int (length mem) = n + h"
  shows "cb_inv (cb_new mem n h) \<and> cb_contents (cb_new mem n h) = [] \<and> buf_size (cb_new mem n h) = n"
  using assms by (simp add: cb_inv_def cb_new_def cb_reset_def cb_contents_def data_left_def)

section \<open>What a reader is shown\<close>

text \<open>The pointer a reader is given is at the front of the queue, and shows at least one cell
  as long as there is any.\<close>

lemma data_left_continuous_pos: "cb_inv c \<Longrightarrow> cb_contents c \<noteq> [] \<Longrightarrow> 0 < data_left_continuous c"
  using length_cb_contents [of c]
  by (auto simp: data_left_continuous_def cb_inv_def simp flip: length_greater_0_conv)

section \<open>Properties\<close>

text \<open>C12. Whatever sequence of writes and acknowledgements is run on a fresh ring, provided no
  write fills the ring to its last cell and nothing that was not written is acknowledged, the
  ring is the queue of the cells written and not yet acknowledged: no access leaves the buffer,
  the counts of cells left and of space left are those of the queue, and the cells from the
  read pointer on, as far as they are continuous, are the front of the queue, at least one when
  the queue is not empty. The sequence may be as long as it likes, so both pointers wrap.\<close>

theorem ring_is_queue:
  assumes "0 \<le> h" "h < sz" "int (length mem) = sz + h"
    and "ops_fit (nat sz) [] xs"
  shows "\<exists>c. ring.run xs (cb_new mem sz h) = Inr c \<and>
     cb_contents c = fold queue_step xs [] \<and>
     data_left c = int (length (fold queue_step xs [])) \<and>
     space_left c = sz - int (length (fold queue_step xs [])) \<and>
     cb_load c (read_at c) (data_left_continuous c) =
       Inr (take (nat (data_left_continuous c)) (fold queue_step xs [])) \<and>
     (fold queue_step xs [] = [] \<or> 0 < data_left_continuous c)"
proof -
  note new = cb_new_ok [OF assms(1-3)]
  from ring.run_ok [of "cb_new mem sz h" xs] new assms(1,2,4) obtain c where
    c: "ring.run xs (cb_new mem sz h) = Inr c" "cb_inv c" "buf_size c = sz"
      "cb_contents c = fold queue_step xs []" by auto
  then show ?thesis
    using length_cb_contents [OF c(2)] load_read_chunk [OF c(2)] data_left_continuous_pos [OF c(2)]
    by (auto simp: space_left_def)
qed

text \<open>Twelve cells through a ring of eight: the write pointer and the read pointer both pass the
  end of the ring.\<close>

theorem ring_is_queue_witness:
  "\<exists>c. ring.run [Put ''GET '', Take 3, Put ''/x HT'', Take 4, Put ''TP'', Take 3] (cb_new (replicate 12 CHR '' '') 8 4)
      = Inr c \<and> cb_contents c = ''P'' \<and> data_left c = 1"
proof -
  have "ops_fit (nat 8) [] [Put ''GET '', Take 3, Put ''/x HT'', Take 4, Put ''TP'', Take 3]"
    by (simp add: nat_eq_iff)
  from ring_is_queue [OF _ _ _ this, of 4 "replicate 12 CHR '' ''"] show ?thesis
    by (auto simp: eval_nat_numeral)
qed

text \<open>What \<open>wrap_buffer\<close> does on every branch: if the continuous data ends at the end of the
  ring, the unread data is unchanged and all of it becomes continuous; if it does not, the
  cells from the start of the ring up to the write position are read again after it.\<close>

theorem wrap_buffer_cases:
  assumes "cb_inv c" "can_wrap_buffer c"
  shows "\<exists>c'. wrap_buffer c = Inr c' \<and>
     (if read_at c + data_left_continuous c = buf_size c
      then cb_inv c' \<and> cb_contents c' = cb_contents c \<and> data_left_continuous c' = data_left c'
      else cb_contents c' = cb_contents c @ cb_slice c 0 (write_at c))"
  using wrap_buffer_contents [OF assms] by blast

theorem wrap_buffer_cases_witness:
  "\<exists>c'. wrap_buffer \<lparr>buffer_hidden = [0, 0, 1, 2, 3, 4 :: u8], read_at = 1, write_at = 2,
       read_ack_callback = None, size_hidden = 2, buf_size = 4\<rparr> = Inr c' \<and> cb_contents c' = [2, 1, 2]"
proof -
  let ?c = "\<lparr>buffer_hidden = [0, 0, 1, 2, 3, 4 :: u8], read_at = 1, write_at = 2,
       read_ack_callback = None, size_hidden = 2, buf_size = 4\<rparr>"
  have "cb_inv ?c" "can_wrap_buffer ?c"
    by (simp_all add: cb_inv_def can_wrap_buffer_def data_left_continuous_def data_left_def)
  from wrap_buffer_cases [OF this] show ?thesis
    by (simp add: data_left_continuous_def data_left_def cb_contents_def cb_slice_def numeral_2_eq_2
        eval_nat_numeral)
qed

text \<open>\<open>move_to\<close> loses nothing when the target has room: its two rounds append all unread data
  to the target, in order, and leave the source empty.\<close>

theorem move_to_moves_all:
  assumes "cb_inv c" "cb_inv d" "data_left c + data_left d < buf_size d"
  shows "\<exists>c' d'. move_to c d = Inr (c', d') \<and> cb_inv c' \<and> cb_inv d' \<and>
     cb_contents c' = [] \<and> cb_contents d' = cb_contents d @ cb_contents c"
proof -
  from cb_move_chunk_ok [OF assms] obtain c1 d1 where
    1: "cb_move_chunk (c, d) = Inr (c1, d1)" "cb_inv c1" "cb_inv d1"
      "cb_contents c1 = drop (nat (data_left_continuous c)) (cb_contents c)"
      "cb_contents d1 = cb_contents d @ take (nat (data_left_continuous c)) (cb_contents c)"
      "buf_size d1 = buf_size d" "data_left_continuous c1 = data_left c1" by blast
  note lens = length_cb_contents [OF assms(1)] length_cb_contents [OF assms(2)]
    length_cb_contents [OF 1(2)] length_cb_contents [OF 1(3)]
  have "cb_contents d1 @ cb_contents c1 = cb_contents d @ cb_contents c" by (simp add: 1)
  then have "int (length (cb_contents d1)) + int (length (cb_contents c1)) =
      int (length (cb_contents d)) + int (length (cb_contents c))"
    by (metis length_append of_nat_add)
  with lens assms(3) 1(6) have "data_left c1 + data_left d1 < buf_size d1" by simp
  from cb_move_chunk_ok [OF 1(2,3) this] obtain c2 d2 where
    2: "cb_move_chunk (c1, d1) = Inr (c2, d2)" "cb_inv c2" "cb_inv d2"
      "cb_contents c2 = drop (nat (data_left_continuous c1)) (cb_contents c1)"
      "cb_contents d2 = cb_contents d1 @ take (nat (data_left_continuous c1)) (cb_contents c1)" by blast
  have all: "nat (data_left_continuous c1) = length (cb_contents c1)"
    using lens(3) 1(7) by simp
  have "cb_contents c2 = []" "cb_contents d2 = cb_contents d @ cb_contents c"
    using 2(4,5) all 1(4,5) by simp_all
  then show ?thesis using 2(2,3)
    by (simp add: move_to_def for_loop_def numeral_2_eq_2 1(1) 2(1))
qed

theorem move_to_moves_all_witness:
  "\<exists>c' d'. move_to \<lparr>buffer_hidden = [0, 3, 0, 0, 2 :: u8], read_at = 3, write_at = 1,
       read_ack_callback = None, size_hidden = 1, buf_size = 4\<rparr> (cb_new (replicate 5 0) 4 1) = Inr (c', d') \<and>
     cb_inv c' \<and> cb_inv d' \<and> cb_contents c' = [] \<and> cb_contents d' = [2, 3]"
proof -
  let ?c = "\<lparr>buffer_hidden = [0, 3, 0, 0, 2 :: u8], read_at = 3, write_at = 1,
       read_ack_callback = None, size_hidden = 1, buf_size = 4\<rparr>"
  have "cb_inv ?c" "data_left ?c = 2" "cb_contents ?c = [2, 3]"
    by (simp_all add: cb_inv_def data_left_def cb_contents_def cb_slice_def eval_nat_numeral)
  moreover have "cb_inv (cb_new (replicate 5 (0 :: u8)) 4 1)"
    "cb_contents (cb_new (replicate 5 (0 :: u8)) 4 1) = []"
    "buf_size (cb_new (replicate 5 (0 :: u8)) 4 1) = 4"
    using cb_new_ok [of 1 4 "replicate 5 (0 :: u8)"] by simp_all
  ultimately show ?thesis
    using move_to_moves_all [of ?c "cb_new (replicate 5 0) 4 1"]
      length_cb_contents [of "cb_new (replicate 5 (0 :: u8)) 4 1"] by simp
qed

end
