(* ===== verification/Pager_List.thy ===== *)
theory Pager_List
  imports Std_Map
begin

text \<open>
  \<open>src/pagers-server/pagers/pager.hpp\<close>, \<open>pagerlist.hpp\<close> and \<open>pagerlist.cpp\<close>: the registry of
  paired pagers and its copy in the file \<open>/pagers\<close>.

  \<^item> \<open>Pager\<close> objects live in a heap (\<open>pager_heap\<close>, cells are freed by \<open>delete\<close>); the registry
    maps device ids to addresses, so a null or dangling pointer is a fault of the model.
    A member the constructor does not set (\<open>flash_time\<close>) is \<open>None\<close> until it is written.
  \<^item> LittleFS is not part of the repository: its four calls are the functions of an \<open>lfs\<close>
    record over an arbitrary world \<open>'w\<close>. Theorems that need a working disk assume
    \<open>lfs_reliable\<close>, the documented behaviour of the calls.
  \<^item> \<open>sscanf\<close> with \<open>%x\<close> and \<open>sprintf\<close> with \<open>%04x\<close> are modelled as the C standard describes them.

  The lemmas show the registry's invariant (sorted ids, live and unshared objects that carry
  the id they are filed under) and the round trip through the file.
\<close>

section \<open>Pager objects\<close>

record Pager =
  device_id :: u16
  flash_msgs_left :: int
  pair_msgs_left :: int
  flash_time :: "u16 option"

definition new_Pager :: "u16 \<Rightarrow> Pager" where
  "new_Pager dev =
     \<lparr>device_id = dev, flash_msgs_left = 0, pair_msgs_left = 0, flash_time = None\<rparr>"

definition set_flash_msgs_left :: "u16 \<Rightarrow> Pager \<Rightarrow> Pager" where
  "set_flash_msgs_left flash_msgs p = p\<lparr>flash_msgs_left := uint flash_msgs\<rparr>"

definition any_flash_msgs_left :: "Pager \<Rightarrow> bool" where
  "any_flash_msgs_left p \<longleftrightarrow> flash_msgs_left p > 0"

definition flash_msg_sent :: "Pager \<Rightarrow> Pager" where
  "flash_msg_sent p = p\<lparr>flash_msgs_left := flash_msgs_left p - 1\<rparr>"

definition set_pair_msgs_left :: "u16 \<Rightarrow> Pager \<Rightarrow> Pager" where
  "set_pair_msgs_left pair_msgs p = p\<lparr>pair_msgs_left := uint pair_msgs\<rparr>"

definition any_pair_msgs_left :: "Pager \<Rightarrow> bool" where
  "any_pair_msgs_left p \<longleftrightarrow> pair_msgs_left p > 0"

definition pair_msg_sent :: "Pager \<Rightarrow> Pager" where
  "pair_msg_sent p = p\<lparr>pair_msgs_left := pair_msgs_left p - 1\<rparr>"

lemmas pager_method_defs = set_flash_msgs_left_def any_flash_msgs_left_def flash_msg_sent_def
  set_pair_msgs_left_def any_pair_msgs_left_def pair_msg_sent_def

text \<open>Pagers live in a heap (\<open>heap\<close> of the prelude).\<close>

type_synonym pager_heap = "Pager heap"

section \<open>The registry\<close>

record PagerList =
  pagers :: "(u16, nat) std_map"
  pl_path :: string
  update_fs_required :: bool

definition new_PagerList :: "string \<Rightarrow> PagerList" where
  "new_PagerList path = \<lparr>pagers = [], pl_path = path, update_fs_required = False\<rparr>"

definition mark_update_fs :: "PagerList \<Rightarrow> PagerList" where
  "mark_update_fs pl = pl\<lparr>update_fs_required := True\<rparr>"

definition pl_size :: "PagerList \<Rightarrow> nat" where
  "pl_size pl = length (pagers pl)"

definition pager_exists :: "u16 \<Rightarrow> PagerList \<Rightarrow> bool" where
  "pager_exists dev pl \<longleftrightarrow> sm_count (pagers pl) dev > 0"

definition add_pager :: "nat option \<Rightarrow> pager_heap \<Rightarrow> PagerList \<Rightarrow> (bool \<times> PagerList) result" where
  "add_pager ptr h pl =
     rbind (heap_get h ptr) (\<lambda>p.
       if pager_exists (device_id p) pl then Inr (False, pl)
       else Inr (True, mark_update_fs (pl\<lparr>pagers := sm_put (device_id p) (the ptr) (pagers pl)\<rparr>)))"

definition remove_pager :: "u16 \<Rightarrow> PagerList \<Rightarrow> bool \<times> PagerList" where
  "remove_pager dev pl =
     (if \<not> pager_exists dev pl then (False, pl)
      else (True, mark_update_fs (pl\<lparr>pagers := sm_erase dev (pagers pl)\<rparr>)))"

definition get_pager :: "u16 \<Rightarrow> PagerList \<Rightarrow> nat option" where
  "get_pager dev pl = (if \<not> pager_exists dev pl then None else sm_find (pagers pl) dev)"

section \<open>Hexadecimal text\<close>

definition hex_digit :: "nat \<Rightarrow> char" where
  "hex_digit n = (if n < 10 then char_of (48 + n) else char_of (87 + n))"

definition hex_val :: "char \<Rightarrow> nat option" where
  "hex_val c =
     (let n = of_char c in
      if 48 \<le> n \<and> n \<le> 57 then Some (n - 48)
      else if 97 \<le> n \<and> n \<le> 102 then Some (n - 87)
      else if 65 \<le> n \<and> n \<le> 70 then Some (n - 55)
      else None)"

text \<open>\<open>sprintf(buf, "%04x\n", dev)\<close> for an unsigned short.\<close>

definition pager_line :: "u16 \<Rightarrow> string" where
  "pager_line dev =
     [hex_digit (unat dev div 4096), hex_digit (unat dev div 256 mod 16),
      hex_digit (unat dev div 16 mod 16), hex_digit (unat dev mod 16), CHR ''\<newline>'']"

text \<open>\<open>sscanf(s, "%x", &v)\<close> on a C string: white space, a sign, \<open>0x\<close>, digits. \<open>None\<close>: nothing
  is converted and \<open>v\<close> keeps its indeterminate value.\<close>

definition c_space :: "char \<Rightarrow> bool" where
  "c_space c \<longleftrightarrow> (let n = of_char c :: nat in n = 32 \<or> 9 \<le> n \<and> n \<le> 13)"

definition c_string :: "string \<Rightarrow> string" where
  "c_string s = takeWhile (\<lambda>c. c \<noteq> CHR 0x00) s"

definition skip_0x :: "string \<Rightarrow> string" where
  "skip_0x s = (case s of
       a # b # rest \<Rightarrow> if a = CHR ''0'' \<and> (b = CHR ''x'' \<or> b = CHR ''X'') then rest else s
     | _ \<Rightarrow> s)"

definition scan_x :: "string \<Rightarrow> int option" where
  "scan_x s =
     (let s1 = dropWhile c_space s;
          neg = (s1 \<noteq> [] \<and> hd s1 = CHR ''-'');
          s2 = (if s1 \<noteq> [] \<and> (hd s1 = CHR ''-'' \<or> hd s1 = CHR ''+'') then tl s1 else s1);
          ds = takeWhile (\<lambda>c. hex_val c \<noteq> None) (skip_0x s2);
          v = foldl (\<lambda>n c. 16 * n + int (the (hex_val c))) 0 ds
      in if ds = [] then None else Some (if neg then - v else v))"

section \<open>The file\<close>

datatype open_mode = RDONLY | WRONLY_CREAT | WRONLY_CREAT_TRUNC

record 'w lfs =
  lfs_file_open :: "string \<Rightarrow> open_mode \<Rightarrow> 'w \<Rightarrow> int \<times> 'w"
  lfs_file_read :: "nat \<Rightarrow> 'w \<Rightarrow> int \<times> string \<times> 'w"
  lfs_file_write :: "string \<Rightarrow> 'w \<Rightarrow> int \<times> 'w"
  lfs_file_close :: "'w \<Rightarrow> int \<times> 'w"

text \<open>The reading loop of \<open>load_fs\<close>, at most \<open>fuel\<close> rounds of it.\<close>

fun load_loop :: "nat \<Rightarrow> 'w lfs \<Rightarrow> (u16, nat) std_map \<Rightarrow> pager_heap \<Rightarrow> 'w \<Rightarrow>
    ((u16, nat) std_map \<times> pager_heap \<times> 'w) result option" where
  "load_loop 0 fs m h w = None"
| "load_loop (Suc fuel) fs m h w =
     (let (r, buf, w') = lfs_file_read fs 5 w in
      if r < 0 then Some (Inr (m, h, w'))
      else if r < 5 then Some (Inr (m, h, w'))
      else (case scan_x (c_string (take 4 buf)) of
          None \<Rightarrow> Some (Inl Uninitialised)
        | Some dev \<Rightarrow>
            let (a, h') = heap_new (new_Pager (word_of_int dev)) h
            in load_loop fuel fs (sm_put (word_of_int dev) a m) h' w'))"

definition load_fs :: "nat \<Rightarrow> 'w lfs \<Rightarrow> PagerList \<Rightarrow> pager_heap \<Rightarrow> 'w \<Rightarrow>
    (PagerList \<times> pager_heap \<times> 'w) result option" where
  "load_fs fuel fs pl h w =
     (let (r, w1) = lfs_file_open fs (pl_path pl) RDONLY w in
      if r < 0 then Some (Inr (pl, h, w1))
      else map_option (\<lambda>res. rbind res (\<lambda>(m, h', w2).
             Inr (pl\<lparr>pagers := m\<rparr>, h', snd (lfs_file_close fs w2))))
             (load_loop fuel fs (pagers pl) h w1))"

fun save_loop :: "'w lfs \<Rightarrow> pager_heap \<Rightarrow> (u16, nat) std_map \<Rightarrow> 'w \<Rightarrow> 'w result" where
  "save_loop fs h [] w = Inr w"
| "save_loop fs h ((k, a) # m) w =
     rbind (heap_get h (Some a)) (\<lambda>p.
       let (r, w') = lfs_file_write fs (pager_line (device_id p)) w
       in if r < 5 then Inr w' else save_loop fs h m w')"

definition update_fs :: "'w lfs \<Rightarrow> pager_heap \<Rightarrow> PagerList \<Rightarrow> 'w \<Rightarrow> 'w result" where
  "update_fs fs h pl w =
     (let (r, w1) = lfs_file_open fs (pl_path pl) WRONLY_CREAT_TRUNC w in
      if r < 0 then Inr w1
      else rbind (save_loop fs h (pagers pl) w1) (\<lambda>w2. Inr (snd (lfs_file_close fs w2))))"

definition pl_loop :: "'w lfs \<Rightarrow> pager_heap \<Rightarrow> PagerList \<Rightarrow> 'w \<Rightarrow> (PagerList \<times> 'w) result" where
  "pl_loop fs h pl w =
     (if update_fs_required pl
      then rbind (update_fs fs h pl w) (\<lambda>w'. Inr (pl\<lparr>update_fs_required := False\<rparr>, w'))
      else Inr (pl, w))"

section \<open>The invariant of the registry\<close>

definition live_pager :: "pager_heap \<Rightarrow> u16 \<times> nat \<Rightarrow> bool" where
  "live_pager h = (\<lambda>(k, a). a < length h \<and> (\<exists>p. h ! a = Some p \<and> device_id p = k))"

definition pl_inv :: "pager_heap \<Rightarrow> PagerList \<Rightarrow> bool" where
  "pl_inv h pl \<longleftrightarrow> sm_ok (pagers pl) \<and> distinct (map snd (pagers pl)) \<and> list_all (live_pager h) (pagers pl)"

text \<open>Every live object is in the registry: nothing is leaked.\<close>

definition no_leak :: "pager_heap \<Rightarrow> PagerList \<Rightarrow> bool" where
  "no_leak h pl \<longleftrightarrow> (\<forall>a < length h. h ! a \<noteq> None \<longrightarrow> a \<in> snd ` set (pagers pl))"

definition pl_ids :: "PagerList \<Rightarrow> u16 list" where
  "pl_ids pl = map fst (pagers pl)"

lemma pl_inv_new: "pl_inv h (new_PagerList path)"
  by (simp add: pl_inv_def new_PagerList_def)

lemma pager_exists_iff: "pager_exists dev pl \<longleftrightarrow> dev \<in> set (pl_ids pl)"
  by (simp add: pager_exists_def pl_ids_def sm_find_None)

lemma get_pager_find: "get_pager dev pl = sm_find (pagers pl) dev"
  by (auto simp: get_pager_def pager_exists_def)

lemma get_pager_live:
  assumes "pl_inv h pl" "get_pager dev pl = Some a"
  shows "a < length h \<and> (\<exists>p. h ! a = Some p \<and> device_id p = dev \<and> heap_get h (Some a) = Inr p)"
proof -
  have "(dev, a) \<in> set (pagers pl)"
    using assms smap.entries_find [of "pagers pl"] by (simp add: pl_inv_def get_pager_find)
  with assms(1) have "live_pager h (dev, a)" by (auto simp: pl_inv_def list_all_iff)
  then show ?thesis by (auto simp: live_pager_def heap_get_def arr_get_def)
qed

lemma live_pager_append: "live_pager h e \<Longrightarrow> live_pager (h @ [c]) e"
  by (auto simp: live_pager_def nth_append)

lemma pl_ids_put:
  "sm_ok (pagers pl) \<Longrightarrow>
     set (pl_ids (pl\<lparr>pagers := sm_put k a (pagers pl)\<rparr>)) = insert k (set (pl_ids pl))"
  using smap.put_keys [of "pagers pl" k a] by (simp add: pl_ids_def)

text \<open>Registering a new object under an id that is not taken.\<close>

lemma set_sm_put_new:
  "sm_find m k = None \<Longrightarrow> set (sm_put k v m) = insert (k, v) (set m)"
  by (induction k v m rule: sm_put.induct) auto

lemma distinct_sm_put_new:
  "sm_find m k = None \<Longrightarrow> distinct (map snd m) \<Longrightarrow> v \<notin> snd ` set m \<Longrightarrow> distinct (map snd (sm_put k v m))"
  by (induction k v m rule: sm_put.induct) (auto simp: set_sm_put_new split: if_splits)

lemma pl_inv_register:
  assumes "pl_inv h pl" "\<not> pager_exists (device_id p) pl"
  shows "pl_inv (h @ [Some p]) (pl\<lparr>pagers := sm_put (device_id p) (length h) (pagers pl)\<rparr>)"
proof -
  have new: "sm_find (pagers pl) (device_id p) = None" using assms(2) by (simp add: pager_exists_def)
  have old: "snd e < length h \<and> live_pager (h @ [Some p]) e" if "e \<in> set (pagers pl)" for e
    using assms(1) that live_pager_append [of h e]
    by (cases e) (auto simp: pl_inv_def list_all_iff live_pager_def)
  then have fresh: "length h \<notin> snd ` set (pagers pl)" by fastforce
  have "list_all (live_pager (h @ [Some p])) (sm_put (device_id p) (length h) (pagers pl))"
    using old by (simp add: list_all_iff set_sm_put_new [OF new]) (simp add: live_pager_def)
  with assms(1) new fresh show ?thesis
    by (simp add: pl_inv_def smap.ok_put distinct_sm_put_new)
qed

lemma pl_ids_register:
  "pl_inv h pl \<Longrightarrow> set (pl_ids (pl\<lparr>pagers := sm_put k a (pagers pl)\<rparr>)) = insert k (set (pl_ids pl))"
  by (simp add: pl_ids_put pl_inv_def)

text \<open>\<open>delete get_pager(id)\<close> followed by \<open>remove_pager(id)\<close>.\<close>

lemma live_pager_delete: "live_pager h e \<Longrightarrow> snd e \<noteq> a \<Longrightarrow> live_pager (h[a := c]) e"
  by (auto simp: live_pager_def nth_list_update)

lemma pl_inv_drop:
  assumes "pl_inv h pl" "get_pager dev pl = Some a"
  shows "pl_inv (h[a := None]) (pl\<lparr>pagers := sm_erase dev (pagers pl)\<rparr>)"
    and "sm_erase dev (pagers pl) = filter (\<lambda>e. snd e \<noteq> a) (pagers pl)"
proof -
  have mem: "(dev, a) \<in> set (pagers pl)" and inv: "sm_ok (pagers pl)" "distinct (map snd (pagers pl))"
    using assms smap.entries_find [of "pagers pl" dev a] by (auto simp: pl_inv_def get_pager_find)
  have same: "fst e = dev \<longleftrightarrow> snd e = a" if e: "e \<in> set (pagers pl)" for e
  proof
    assume "fst e = dev"
    then have "(dev, snd e) \<in> set (pagers pl)" using e by (cases e) simp
    then show "snd e = a" using mem smap.entries_distinct [OF inv(1)] eq_key_imp_eq_value by metis
  next
    assume "snd e = a"
    moreover have "inj_on snd (set (pagers pl))" using inv(2) by (simp add: distinct_map)
    ultimately have "e = (dev, a)" using e mem inj_onD [of snd _ e "(dev, a)"] by simp
    then show "fst e = dev" by simp
  qed
  then show eq: "sm_erase dev (pagers pl) = filter (\<lambda>e. snd e \<noteq> a) (pagers pl)"
    unfolding sm_erase_def by (simp cong: filter_cong)
  have "distinct (map snd (sm_erase dev (pagers pl)))"
    using inv(2) by (simp add: sm_erase_def distinct_map_filter)
  moreover have "list_all (live_pager (h[a := None])) (sm_erase dev (pagers pl))"
    using assms(1) live_pager_delete by (auto simp: eq pl_inv_def list_all_iff)
  ultimately show "pl_inv (h[a := None]) (pl\<lparr>pagers := sm_erase dev (pagers pl)\<rparr>)"
    using smap.ok_erase [OF inv(1)] by (simp add: pl_inv_def)
qed

lemma remove_pager_ids: "set (pl_ids (snd (remove_pager dev pl))) = set (pl_ids pl) - {dev}"
  by (auto simp: remove_pager_def mark_update_fs_def pl_ids_def sm_erase_def pager_exists_iff)

lemma register_new:
  assumes inv: "pl_inv h pl" and h': "h' = h @ [Some (new_Pager dev)]"
  shows "\<exists>pl'. add_pager (Some (length h)) h' pl = Inr (dev \<notin> set (pl_ids pl), pl') \<and> pl_inv h' pl' \<and>
     set (pl_ids pl') = insert dev (set (pl_ids pl)) \<and>
     (no_leak h pl \<and> dev \<notin> set (pl_ids pl) \<longrightarrow> no_leak h' pl') \<and>
     (dev \<notin> set (pl_ids pl) \<longrightarrow> pagers pl' = sm_put dev (length h) (pagers pl))"
proof -
  have get: "heap_get h' (Some (length h)) = Inr (new_Pager dev)" "device_id (new_Pager dev) = dev"
    by (simp_all add: h' heap_get_def arr_get_def new_Pager_def)
  have old: "pl_inv h' pl"
    using inv live_pager_append by (auto simp: pl_inv_def h' list_all_iff)
  show ?thesis
  proof (cases "pager_exists dev pl")
    case True
    then show ?thesis using old get by (auto simp: add_pager_def pager_exists_iff)
  next
    case False
    let ?m = "sm_put dev (length h) (pagers pl)"
    from False pl_inv_register [OF inv, of "new_Pager dev"] get(2)
    have "pl_inv h' (pl\<lparr>pagers := ?m\<rparr>)" by (simp add: h')
    moreover have "set (pl_ids (pl\<lparr>pagers := ?m\<rparr>)) = insert dev (set (pl_ids pl))"
      by (rule pl_ids_register [OF inv])
    moreover have "snd ` set ?m = insert (length h) (snd ` set (pagers pl))"
      using False set_sm_put_new [of "pagers pl" dev "length h"] by (simp add: pager_exists_def)
    ultimately show ?thesis using False get
      by (auto simp: add_pager_def pager_exists_iff mark_update_fs_def pl_inv_def pl_ids_def
          no_leak_def h' nth_append less_Suc_eq)
  qed
qed

lemma free_and_remove:
  assumes inv: "pl_inv h pl"
  shows "\<exists>h' pl'. heap_delete (get_pager dev pl) h = Inr h' \<and>
     remove_pager dev pl = (dev \<in> set (pl_ids pl), pl') \<and> pl_inv h' pl' \<and>
     set (pl_ids pl') = set (pl_ids pl) - {dev} \<and> (no_leak h pl \<longrightarrow> no_leak h' pl')"
proof (cases "get_pager dev pl")
  case None
  then have "\<not> pager_exists dev pl" by (simp add: get_pager_find pager_exists_def)
  with None inv show ?thesis by (simp add: heap_delete_def remove_pager_def pager_exists_iff)
next
  case (Some a)
  then have ex: "pager_exists dev pl" by (simp add: get_pager_find pager_exists_def)
  note drop = pl_inv_drop [OF inv Some]
  have "no_leak (h[a := None]) (pl\<lparr>pagers := sm_erase dev (pagers pl)\<rparr>)" if "no_leak h pl"
  proof -
    have "x \<in> snd ` set (pagers pl) \<and> x \<noteq> a" if "x < length h" "h[a := None] ! x \<noteq> None" for x
      using that \<open>no_leak h pl\<close> by (cases "x = a") (auto simp: no_leak_def)
    then show ?thesis by (fastforce simp: no_leak_def drop(2))
  qed
  with drop(1) ex Some get_pager_live [OF inv Some] remove_pager_ids [of dev pl] show ?thesis
    by (auto simp: heap_delete_def remove_pager_def mark_update_fs_def pager_exists_iff pl_inv_def
        no_leak_def)
qed

section \<open>The text of an id\<close>

lemma of_char_hex_digit:
  "n < 16 \<Longrightarrow> of_char (hex_digit n) = (if n < 10 then 48 + n else 87 + n)"
  by (simp add: hex_digit_def of_char_of)

lemma hex_digit_facts:
  assumes "n < 16"
  shows "hex_val (hex_digit n) = Some n" "\<not> c_space (hex_digit n)"
    "hex_digit n \<noteq> CHR 0x00" "hex_digit n \<noteq> CHR ''-''" "hex_digit n \<noteq> CHR ''+''"
    "hex_digit n \<noteq> CHR ''x''" "hex_digit n \<noteq> CHR ''X''"
proof -
  note code = of_char_hex_digit [OF assms]
  show "hex_val (hex_digit n) = Some n" using assms by (simp add: hex_val_def code)
  show "\<not> c_space (hex_digit n)" by (simp add: c_space_def code)
  have ne: "hex_digit n \<noteq> c" if "of_char c \<noteq> (if n < 10 then 48 + n else 87 + n)" for c
    using that code by metis
  show "hex_digit n \<noteq> CHR 0x00" "hex_digit n \<noteq> CHR ''-''" "hex_digit n \<noteq> CHR ''+''"
    "hex_digit n \<noteq> CHR ''x''" "hex_digit n \<noteq> CHR ''X''"
    by (rule ne; use assms in simp)+
qed

lemma scan_x_digits:
  assumes "a < 16" "b < 16" "c < 16" "d < 16"
  shows "scan_x (c_string [hex_digit a, hex_digit b, hex_digit c, hex_digit d]) =
     Some (int (4096 * a + 256 * b + 16 * c + d))"
proof -
  note facts = hex_digit_facts [OF assms(1)] hex_digit_facts [OF assms(2)]
    hex_digit_facts [OF assms(3)] hex_digit_facts [OF assms(4)]
  show ?thesis using facts by (simp add: scan_x_def c_string_def skip_0x_def Let_def)
qed

lemma length_pager_line [simp]: "length (pager_line dev) = 5"
  by (simp add: pager_line_def)

lemma scan_pager_line: "scan_x (c_string (take 4 (pager_line dev))) = Some (uint dev)"
proof -
  let ?n = "unat dev"
  have n: "?n < 65536" using unsigned_less [of dev, where 'a = nat] by simp
  have "?n = 4096 * (?n div 4096) + 256 * (?n div 256 mod 16) + 16 * (?n div 16 mod 16) + ?n mod 16"
  proof -
    have "?n = 16 * (?n div 16) + ?n mod 16" "?n div 16 = 16 * (?n div 256) + ?n div 16 mod 16"
      "?n div 256 = 16 * (?n div 4096) + ?n div 256 mod 16"
      using div_mult2_eq [of ?n 16 16] div_mult2_eq [of ?n 256 16]
        div_mult_mod_eq [of ?n 16] div_mult_mod_eq [of "?n div 16" 16] div_mult_mod_eq [of "?n div 256" 16]
      by (simp_all only: mult.commute numeral_times_numeral semiring_norm)
    then show ?thesis by linarith
  qed
  moreover have "?n div 4096 < 16" using n by auto
  ultimately show ?thesis
    by (simp add: pager_line_def scan_x_digits)
qed

section \<open>A working disk\<close>

text \<open>\<open>view w\<close>: the files by path, and the open file with its position. The documented effect of
  the four calls on a disk that does not fail.\<close>

type_synonym lfs_view = "(string \<Rightarrow> string option) \<times> (string \<times> nat) option"

definition lfs_opens :: "'w lfs \<Rightarrow> ('w \<Rightarrow> lfs_view) \<Rightarrow> bool" where
  "lfs_opens fs view \<longleftrightarrow>
     (\<forall>w files p c. view w = (files, None) \<and> files p = Some c \<longrightarrow>
        (\<exists>r w'. lfs_file_open fs p RDONLY w = (r, w') \<and> 0 \<le> r \<and> view w' = (files, Some (p, 0)))) \<and>
     (\<forall>w files p. view w = (files, None) \<longrightarrow>
        (\<exists>r w'. lfs_file_open fs p WRONLY_CREAT_TRUNC w = (r, w') \<and> 0 \<le> r \<and>
           view w' = (files(p \<mapsto> []), Some (p, 0)))) \<and>
     (\<forall>w files p. view w = (files, None) \<longrightarrow>
        (\<exists>r w'. lfs_file_open fs p WRONLY_CREAT w = (r, w') \<and> 0 \<le> r \<and>
           view w' = (files(p \<mapsto> case files p of None \<Rightarrow> [] | Some c \<Rightarrow> c), Some (p, 0))))"

definition lfs_reads :: "'w lfs \<Rightarrow> ('w \<Rightarrow> lfs_view) \<Rightarrow> bool" where
  "lfs_reads fs view \<longleftrightarrow>
     (\<forall>w files p pos c n. view w = (files, Some (p, pos)) \<and> files p = Some c \<longrightarrow>
        (\<exists>buf w'. lfs_file_read fs n w = (int (min n (length c - pos)), buf, w') \<and>
           take (min n (length c - pos)) buf = take n (drop pos c) \<and>
           view w' = (files, Some (p, pos + min n (length c - pos)))))"

definition lfs_writes :: "'w lfs \<Rightarrow> ('w \<Rightarrow> lfs_view) \<Rightarrow> bool" where
  "lfs_writes fs view \<longleftrightarrow>
     (\<forall>w files p pos c d. view w = (files, Some (p, pos)) \<and> files p = Some c \<and> pos \<le> length c \<longrightarrow>
        (\<exists>w'. lfs_file_write fs d w = (int (length d), w') \<and>
           view w' = (files(p \<mapsto> take pos c @ d @ drop (pos + length d) c), Some (p, pos + length d))))"

definition lfs_closes :: "'w lfs \<Rightarrow> ('w \<Rightarrow> lfs_view) \<Rightarrow> bool" where
  "lfs_closes fs view \<longleftrightarrow>
     (\<forall>w files op. view w = (files, op) \<longrightarrow> view (snd (lfs_file_close fs w)) = (files, None))"

definition lfs_reliable :: "'w lfs \<Rightarrow> ('w \<Rightarrow> lfs_view) \<Rightarrow> bool" where
  "lfs_reliable fs view \<longleftrightarrow>
     lfs_opens fs view \<and> lfs_reads fs view \<and> lfs_writes fs view \<and> lfs_closes fs view"

lemma lfs_reliable_open:
  assumes "lfs_reliable fs view" "view w = (files, None)"
  shows "files p = Some c \<Longrightarrow>
      \<exists>r w'. lfs_file_open fs p RDONLY w = (r, w') \<and> 0 \<le> r \<and> view w' = (files, Some (p, 0))"
    and "\<exists>r w'. lfs_file_open fs p WRONLY_CREAT_TRUNC w = (r, w') \<and> 0 \<le> r \<and>
      view w' = (files(p \<mapsto> []), Some (p, 0))"
    and "\<exists>r w'. lfs_file_open fs p WRONLY_CREAT w = (r, w') \<and> 0 \<le> r \<and>
      view w' = (files(p \<mapsto> case files p of None \<Rightarrow> [] | Some c \<Rightarrow> c), Some (p, 0))"
  using assms unfolding lfs_reliable_def lfs_opens_def by blast+

lemma lfs_reliable_read:
  assumes "lfs_reliable fs view" "view w = (files, Some (p, pos))" "files p = Some c"
  shows "\<exists>buf w'. lfs_file_read fs n w = (int (min n (length c - pos)), buf, w') \<and>
     take (min n (length c - pos)) buf = take n (drop pos c) \<and>
     view w' = (files, Some (p, pos + min n (length c - pos)))"
  using assms unfolding lfs_reliable_def lfs_reads_def by blast

lemma lfs_reliable_overwrite:
  assumes "lfs_reliable fs view" "view w = (files, Some (p, pos))" "files p = Some c" "pos \<le> length c"
  shows "\<exists>w'. lfs_file_write fs d w = (int (length d), w') \<and>
     view w' = (files(p \<mapsto> take pos c @ d @ drop (pos + length d) c), Some (p, pos + length d))"
  using assms unfolding lfs_reliable_def lfs_writes_def by blast

lemma lfs_reliable_write:
  assumes "lfs_reliable fs view" "view w = (files, Some (p, length c))" "files p = Some c"
  shows "\<exists>w'. lfs_file_write fs d w = (int (length d), w') \<and>
     view w' = (files(p \<mapsto> c @ d), Some (p, length c + length d))"
  using lfs_reliable_overwrite [OF assms order_refl, of d] by simp

lemma lfs_reliable_close:
  "lfs_reliable fs view \<Longrightarrow> view w = (files, op) \<Longrightarrow> view (snd (lfs_file_close fs w)) = (files, None)"
  unfolding lfs_reliable_def lfs_closes_def by blast

lemma save_loop_writes:
  assumes "lfs_reliable fs view" "list_all (live_pager h) m"
    and "view w = (files, Some (p, length c))" "files p = Some c"
  shows "\<exists>w' op. save_loop fs h m w = Inr w' \<and>
     view w' = (files(p \<mapsto> c @ concat (map (pager_line \<circ> fst) m)), op)"
  using assms(2-4)
proof (induction m arbitrary: w files c)
  case Nil
  then show ?case by (auto simp: fun_upd_idem)
next
  case (Cons e m)
  obtain k a where e: "e = (k, a)" by fastforce
  with Cons.prems(1) obtain q where q: "heap_get h (Some a) = Inr q" "device_id q = k"
    by (auto simp: live_pager_def heap_get_def arr_get_def)
  from lfs_reliable_write [OF assms(1) Cons.prems(2,3), of "pager_line k"] obtain w1 where
    w1: "lfs_file_write fs (pager_line k) w = (5, w1)"
      "view w1 = (files(p \<mapsto> c @ pager_line k), Some (p, length (c @ pager_line k)))" by auto
  have "list_all (live_pager h) m" using Cons.prems(1) by simp
  from Cons.IH [OF this w1(2)] obtain w' op where
    "save_loop fs h m w1 = Inr w'"
    "view w' = (files(p \<mapsto> c @ pager_line k, p \<mapsto> (c @ pager_line k) @
       concat (map (pager_line \<circ> fst) m)), op)" unfolding fun_upd_same by blast
  then show ?case
    by (intro exI [of _ w'] exI [of _ op]) (simp add: e q w1(1) comp_def del: fun_upd_apply)
qed

lemma sm_put_last: "(\<forall>k'\<in>fst ` set m. k' < k) \<Longrightarrow> sm_put k v m = m @ [(k, v)]"
  by (induction k v m rule: sm_put.induct) auto

lemma load_loop_reads:
  assumes "lfs_reliable fs view" "view w = (files, Some (p, pos))" "files p = Some c"
    and "drop pos c = concat (map pager_line ids)" "length ids < fuel"
    and "sorted_wrt (<) (map fst m @ ids)"
  shows "\<exists>w' op. load_loop fuel fs m h w =
     Some (Inr (m @ zip ids [length h..<length h + length ids], h @ map (Some \<circ> new_Pager) ids, w')) \<and>
     view w' = (files, op)"
  using assms(2-6)
proof (induction ids arbitrary: w pos m h fuel)
  case Nil
  then obtain f where f: "fuel = Suc f" by (cases fuel) auto
  from lfs_reliable_read [OF assms(1) Nil.prems(1,2), of 5] Nil.prems(3)
  show ?case by (auto simp: f)
next
  case (Cons k ids)
  then obtain f where f: "fuel = Suc f" by (cases fuel) auto
  have len: "5 \<le> length c - pos" using arg_cong [OF Cons.prems(3), of length] by simp
  then have mn: "min 5 (length c - pos) = 5" by simp
  from lfs_reliable_read [OF assms(1) Cons.prems(1,2), of 5, unfolded mn] Cons.prems(3)
  obtain buf w1 where r: "lfs_file_read fs 5 w = (5, buf, w1)" "take 5 buf = pager_line k"
    "view w1 = (files, Some (p, pos + 5))" by auto
  have "take 4 buf = take 4 (pager_line k)" using arg_cong [OF r(2), of "take 4"] by simp
  then have scan: "scan_x (c_string (take 4 buf)) = Some (uint k)" by (simp add: scan_pager_line)
  have "drop (pos + 5) c = concat (map pager_line ids)"
    using arg_cong [OF Cons.prems(3), of "drop 5"] by (simp add: add.commute)
  moreover have put: "sm_put k (length h) m = m @ [(k, length h)]"
    by (rule sm_put_last) (use Cons.prems(5) in \<open>auto simp: sorted_wrt_append\<close>)
  ultimately obtain w' op where "load_loop f fs (m @ [(k, length h)]) (h @ [Some (new_Pager k)]) w1 =
      Some (Inr ((m @ [(k, length h)]) @ zip ids [length (h @ [Some (new_Pager k)])..<
          length (h @ [Some (new_Pager k)]) + length ids],
        (h @ [Some (new_Pager k)]) @ map (Some \<circ> new_Pager) ids, w'))" "view w' = (files, op)"
    using Cons.IH [OF r(3) Cons.prems(2), of f "m @ [(k, length h)]" "h @ [Some (new_Pager k)]"]
      Cons.prems(4,5) f by auto
  then show ?case
    by (simp add: f r(1) scan heap_new_def put upt_conv_Cons del: upt_Suc)
qed

lemma load_fs_reads:
  assumes "lfs_reliable fs view" "view w = (files, None)"
    and "files path = Some (concat (map pager_line ids))" "sorted_wrt (<) ids" "length ids < fuel"
  shows "\<exists>w'. load_fs fuel fs (new_PagerList path) h w =
     Some (Inr ((new_PagerList path)\<lparr>pagers := zip ids [length h..<length h + length ids]\<rparr>,
       h @ map (Some \<circ> new_Pager) ids, w')) \<and> view w' = (files, None)"
proof -
  from lfs_reliable_open(1) [OF assms(1-3)] obtain r w1 where
    w1: "lfs_file_open fs path RDONLY w = (r, w1)" "0 \<le> r" "view w1 = (files, Some (path, 0))" by blast
  have "sorted_wrt (<) (map fst ([] :: (u16 \<times> nat) list) @ ids)" using assms(4) by simp
  from load_loop_reads [OF assms(1) w1(3) assms(3) _ assms(5) this, of h] obtain w2 op where
    "load_loop fuel fs [] h w1 = Some (Inr (zip ids [length h..<length h + length ids],
       h @ map (Some \<circ> new_Pager) ids, w2))" "view w2 = (files, op)" by auto
  with w1 lfs_reliable_close [OF assms(1) this(2)] show ?thesis
    by (simp add: load_fs_def new_PagerList_def)
qed

lemma update_fs_writes:
  assumes "lfs_reliable fs view" "view w = (files, None)" "pl_inv h pl"
  shows "\<exists>w'. update_fs fs h pl w = Inr w' \<and>
     view w' = (files(pl_path pl \<mapsto> concat (map pager_line (pl_ids pl))), None)"
proof -
  let ?p = "pl_path pl"
  from lfs_reliable_open(2) [OF assms(1,2)] obtain r w1 where
    w1: "lfs_file_open fs ?p WRONLY_CREAT_TRUNC w = (r, w1)" "0 \<le> r"
      "view w1 = (files(?p \<mapsto> []), Some (?p, 0))" by blast
  have "list_all (live_pager h) (pagers pl)" using assms(3) by (simp add: pl_inv_def)
  from save_loop_writes [OF assms(1) this, of w1 "files(?p \<mapsto> [])" ?p "[]"] w1(3) obtain w2 op where
    w2: "save_loop fs h (pagers pl) w1 = Inr w2"
    "view w2 = (files(?p \<mapsto> [], ?p \<mapsto> concat (map pager_line (pl_ids pl))), op)"
    by (auto simp: pl_ids_def comp_def simp del: fun_upd_upd)
  with w1(1,2) lfs_reliable_close [OF assms(1) w2(2)] show ?thesis
    unfolding fun_upd_upd by (simp add: update_fs_def del: fun_upd_apply)
qed

lemma pl_ids_sorted: "pl_inv h pl \<Longrightarrow> sorted_wrt (<) (pl_ids pl)"
  using smap.entries_sorted [of "pagers pl"] by (simp add: pl_inv_def pl_ids_def)

lemma loaded_inv:
  assumes "sorted_wrt (<) ids"
  shows "pl_inv (map (Some \<circ> new_Pager) ids) ((new_PagerList path)\<lparr>pagers := zip ids [0..<length ids]\<rparr>)"
    and "no_leak (map (Some \<circ> new_Pager) ids) ((new_PagerList path)\<lparr>pagers := zip ids [0..<length ids]\<rparr>)"
proof -
  have "list_all (live_pager (map (Some \<circ> new_Pager) ids)) (zip ids [0..<length ids])"
    by (auto simp: list_all_iff live_pager_def set_zip new_Pager_def)
  then show "pl_inv (map (Some \<circ> new_Pager) ids) ((new_PagerList path)\<lparr>pagers := zip ids [0..<length ids]\<rparr>)"
    using assms by (simp add: pl_inv_def sm_ok_def)
  have "snd ` set (zip ids [0..<length ids]) = {0..<length ids}"
    by (simp flip: set_map)
  then show "no_leak (map (Some \<circ> new_Pager) ids) ((new_PagerList path)\<lparr>pagers := zip ids [0..<length ids]\<rparr>)"
    by (simp add: no_leak_def)
qed

text \<open>A disk in memory that works: the files as an association list, the open file and position.\<close>

type_synonym ram_world = "(string \<times> string) list \<times> (string \<times> nat) option"

definition ram_content :: "ram_world \<Rightarrow> string \<Rightarrow> string" where
  "ram_content w p = (case map_of (fst w) p of None \<Rightarrow> [] | Some c \<Rightarrow> c)"

definition ram_fs :: "ram_world lfs" where
  "ram_fs =
     \<lparr>lfs_file_open = \<lambda>p m w. (case m of
          RDONLY \<Rightarrow> (case map_of (fst w) p of None \<Rightarrow> (-2, w) | Some _ \<Rightarrow> (0, fst w, Some (p, 0)))
        | WRONLY_CREAT \<Rightarrow> (0, (p, ram_content w p) # fst w, Some (p, 0))
        | WRONLY_CREAT_TRUNC \<Rightarrow> (0, (p, []) # fst w, Some (p, 0))),
      lfs_file_read = \<lambda>n w. (case snd w of
          None \<Rightarrow> (-9, [], w)
        | Some (p, pos) \<Rightarrow>
            let d = take n (drop pos (ram_content w p))
            in (int (length d), d, fst w, Some (p, pos + length d))),
      lfs_file_write = \<lambda>d w. (case snd w of
          None \<Rightarrow> (-9, w)
        | Some (p, pos) \<Rightarrow>
            (int (length d), (p, take pos (ram_content w p) @ d @ drop (pos + length d) (ram_content w p)) # fst w,
             Some (p, pos + length d))),
      lfs_file_close = \<lambda>w. (0, fst w, None)\<rparr>"

definition ram_view :: "ram_world \<Rightarrow> lfs_view" where
  "ram_view w = (map_of (fst w), snd w)"

lemma ram_fs_reliable: "lfs_reliable ram_fs ram_view"
  unfolding lfs_reliable_def lfs_opens_def lfs_reads_def lfs_writes_def lfs_closes_def
  by (auto simp: ram_fs_def ram_view_def ram_content_def Let_def min_def)

section \<open>Properties\<close>

text \<open>C21. The registry is a set of ids: from a state whose objects are live, unshared and filed
  under their own ids, adding a new object and freeing and removing one keep that invariant,
  change the set of ids as named, report whether they did, and never touch a freed or null
  object; a second pager with a taken id is refused and nothing changes.\<close>

theorem registry_operations:
  assumes "pl_inv h pl"
  shows "(\<exists>a h' pl'. heap_new (new_Pager dev) h = (a, h') \<and>
        add_pager (Some a) h' pl = Inr (dev \<notin> set (pl_ids pl), pl') \<and> pl_inv h' pl' \<and>
        set (pl_ids pl') = insert dev (set (pl_ids pl)) \<and>
        (no_leak h pl \<and> dev \<notin> set (pl_ids pl) \<longrightarrow> no_leak h' pl')) \<and>
     (\<exists>h' pl'. heap_delete (get_pager dev pl) h = Inr h' \<and>
        remove_pager dev pl = (dev \<in> set (pl_ids pl), pl') \<and> pl_inv h' pl' \<and>
        set (pl_ids pl') = set (pl_ids pl) - {dev} \<and> (no_leak h pl \<longrightarrow> no_leak h' pl'))"
  using register_new [OF assms refl, of dev] free_and_remove [OF assms, of dev]
  by (simp add: heap_new_def) blast

text \<open>C9. The registry survives a power cycle: on a disk that works, the main loop's
  \<open>PagerList::loop\<close> after any change writes the file, and \<open>load_fs\<close> at the next boot ends, within
  one round more than there are pagers, with exactly the same ids, none of them leaked or
  shared.\<close>

theorem registry_survives_reboot:
  assumes "lfs_reliable fs view" "view w = (files, None)" "pl_inv h pl" "update_fs_required pl"
  shows "\<exists>w' pl2 h2 w2. pl_loop fs h pl w = Inr (pl\<lparr>update_fs_required := False\<rparr>, w') \<and>
     load_fs (Suc (pl_size pl)) fs (new_PagerList (pl_path pl)) [] w' = Some (Inr (pl2, h2, w2)) \<and>
     pl_ids pl2 = pl_ids pl \<and> pl_inv h2 pl2 \<and> no_leak h2 pl2 \<and> view w2 = view w'"
proof -
  from update_fs_writes [OF assms(1-3)] obtain w' where
    w': "update_fs fs h pl w = Inr w'"
      "view w' = (files(pl_path pl \<mapsto> concat (map pager_line (pl_ids pl))), None)" by blast
  note ids = pl_ids_sorted [OF assms(3)]
  have "(files(pl_path pl \<mapsto> concat (map pager_line (pl_ids pl)))) (pl_path pl) =
      Some (concat (map pager_line (pl_ids pl)))" by simp
  from load_fs_reads [OF assms(1) w'(2) this ids, of "Suc (pl_size pl)" "[]"] obtain w2 where
    "load_fs (Suc (pl_size pl)) fs (new_PagerList (pl_path pl)) [] w' =
       Some (Inr ((new_PagerList (pl_path pl))\<lparr>pagers := zip (pl_ids pl) [0..<length (pl_ids pl)]\<rparr>,
         map (Some \<circ> new_Pager) (pl_ids pl), w2))" "view w2 = view w'"
    unfolding w'(2) by (auto simp: pl_ids_def pl_size_def simp del: fun_upd_apply)
  moreover have "pl_ids ((new_PagerList (pl_path pl))\<lparr>pagers := zip (pl_ids pl) [0..<length (pl_ids pl)]\<rparr>) =
      pl_ids pl" by (simp add: pl_ids_def)
  ultimately show ?thesis
    using w'(1) loaded_inv [OF ids, of "pl_path pl"] assms(4) by (auto simp: pl_loop_def)
qed

theorem registry_operations_witness:
  "(\<exists>a h' pl'. heap_new (new_Pager 7) [Some (new_Pager 3)] = (a, h') \<and>
      add_pager (Some a) h' \<lparr>pagers = [(3, 0)], pl_path = ''/pagers'', update_fs_required = False\<rparr> =
        Inr (True, pl') \<and> pl_inv h' pl' \<and> set (pl_ids pl') = {3, 7}) \<and>
   (\<exists>h' pl'. heap_delete (Some 0) [Some (new_Pager 3)] = Inr h' \<and> pl_inv h' pl' \<and> pl_ids pl' = [])"
proof -
  let ?pl = "\<lparr>pagers = [(3, 0)], pl_path = ''/pagers'', update_fs_required = False\<rparr>"
  have "pl_inv [Some (new_Pager 3)] ?pl"
    by (simp add: pl_inv_def sm_ok_def live_pager_def new_Pager_def)
  from registry_operations [OF this, of 7] registry_operations [OF this, of 3] show ?thesis
    by (auto simp: pl_ids_def get_pager_def pager_exists_def sm_count_def)
qed

theorem registry_survives_reboot_witness:
  "\<exists>w' pl2 h2 w2.
     pl_loop ram_fs [Some (new_Pager 3), None, Some (new_Pager 0xBEEF)]
       \<lparr>pagers = [(3, 0), (0xBEEF, 2)], pl_path = ''/pagers'', update_fs_required = True\<rparr> ([], None) =
     Inr (\<lparr>pagers = [(3, 0), (0xBEEF, 2)], pl_path = ''/pagers'', update_fs_required = False\<rparr>, w') \<and>
     load_fs 3 ram_fs (new_PagerList ''/pagers'') [] w' = Some (Inr (pl2, h2, w2)) \<and>
     pl_ids pl2 = [3, 0xBEEF] \<and> pl_inv h2 pl2 \<and> no_leak h2 pl2 \<and> ram_view w2 = ram_view w'"
proof -
  let ?h = "[Some (new_Pager 3), None, Some (new_Pager 0xBEEF)]"
  let ?pl = "\<lparr>pagers = [(3, 0), (0xBEEF, 2)], pl_path = ''/pagers'', update_fs_required = True\<rparr>"
  have "pl_inv ?h ?pl" "ram_view ([], None) = (map_of [], None)" "update_fs_required ?pl"
    by (simp_all add: pl_inv_def sm_ok_def live_pager_def new_Pager_def ram_view_def)
  from registry_survives_reboot [OF ram_fs_reliable this(2,1,3)] show ?thesis
    by (simp add: pl_size_def pl_ids_def eval_nat_numeral)
qed

end
