(* ===== verification/Server_Queue.thy ===== *)
theory Server_Queue
  imports Pager_List Http_Client Protocol Physical
begin

text \<open>
  \<open>src/pagers-server/main.cpp\<close>, the pager half: the message queue (\<open>send_message\<close>,
  \<open>send_messages\<close>) and the request handlers that feed it (\<open>http_pagers_pair\<close>,
  \<open>http_pagers_remove\<close>, \<open>http_pagers_flash\<close>). The globals these touch are the record
  \<open>server\<close>: the sequence number, the registry with its heap, the CRC table, the transmitter.

  A message waits in its pager's counters: each round of \<open>send_messages\<close> sends one copy to each
  pager with copies left. The lemmas show what goes on the air in a round, that the counters
  and the invariant follow, and what each handler does on every branch.
\<close>

definition DEFAULT_MSG_COUNT :: u16 where "DEFAULT_MSG_COUNT = 5"

record server =
  sequence_number_g :: u64
  registry :: PagerList
  heap_g :: pager_heap
  crc_g :: crc_state
  tx_g :: tx_state

definition server_init :: server where
  "server_init = \<lparr>sequence_number_g = 0, registry = new_PagerList ''/pagers'', heap_g = [],
     crc_g = crc_init, tx_g = tx_init\<rparr>"

section \<open>The queue\<close>

text \<open>\<open>junk\<close> is the uninitialised \<open>struct proto_frame\<close> on the stack.\<close>

definition send_message ::
    "nat \<Rightarrow> proto_frame \<Rightarrow> proto_data \<Rightarrow> server \<Rightarrow> (tx_action list \<times> server) result option" where
  "send_message fuel junk data s =
     (let n = sequence_number_g s + 1;
          data1 = data\<lparr>sequence_number := n\<rparr>
      in obind (Some (proto_checksum_calc (crc_g s) data1)) (\<lambda>(_, data2, crc').
         obind (Some (proto_encrypt data2 junk)) (\<lambda>(_, frame).
         obind (send_bytes fuel (encrypted_data frame) (int PROTO_FRAME_SIZE) (tx_g s)) (\<lambda>(acts, tx').
           Some (Inr (acts, s\<lparr>sequence_number_g := n, crc_g := crc', tx_g := tx'\<rparr>))))))"

definition blank_message :: "u16 \<Rightarrow> MessageType \<Rightarrow> u16 \<Rightarrow> proto_data" where
  "blank_message receiver type param = \<lparr>sequence_number = 0, receiver_id = receiver,
     message_type = message_code type, message_param = param, checksum = 0\<rparr>"

definition send_flash_msg ::
    "nat \<Rightarrow> proto_frame \<Rightarrow> nat \<Rightarrow> server \<Rightarrow> (tx_action list \<times> server) result option" where
  "send_flash_msg fuel junk a s =
     obind (Some (heap_get (heap_g s) (Some a))) (\<lambda>pager.
       if any_flash_msgs_left pager then
         (case flash_time pager of
            None \<Rightarrow> Some (Inl Uninitialised)
          | Some t \<Rightarrow>
              obind (send_message fuel junk (blank_message (device_id pager) FLASH t) s) (\<lambda>(acts, s').
              obind (Some (heap_update (Some a) flash_msg_sent (heap_g s'))) (\<lambda>h.
                Some (Inr (acts, s'\<lparr>heap_g := h\<rparr>)))))
       else Some (Inr ([], s)))"

definition send_pair_msg ::
    "nat \<Rightarrow> proto_frame \<Rightarrow> nat \<Rightarrow> server \<Rightarrow> (tx_action list \<times> server) result option" where
  "send_pair_msg fuel junk a s =
     obind (Some (heap_get (heap_g s) (Some a))) (\<lambda>pager.
       if any_pair_msgs_left pager then
         obind (send_message fuel junk (blank_message (device_id pager) PAIR 0) s) (\<lambda>(acts, s').
         obind (Some (heap_update (Some a) pair_msg_sent (heap_g s'))) (\<lambda>h.
           Some (Inr (acts, s'\<lparr>heap_g := h\<rparr>))))
       else Some (Inr ([], s)))"

fun send_to_all ::
    "nat \<Rightarrow> proto_frame \<Rightarrow> (u16 \<times> nat) list \<Rightarrow> server \<Rightarrow> (tx_action list \<times> server) result option" where
  "send_to_all fuel junk [] s = Some (Inr ([], s))"
| "send_to_all fuel junk ((k, a) # m) s =
     obind (send_flash_msg fuel junk a s) (\<lambda>(acts1, s1).
     obind (send_pair_msg fuel junk a s1) (\<lambda>(acts2, s2).
     obind (send_to_all fuel junk m s2) (\<lambda>(acts3, s3).
       Some (Inr (acts1 @ acts2 @ acts3, s3)))))"

definition send_messages ::
    "nat \<Rightarrow> proto_frame \<Rightarrow> server \<Rightarrow> (tx_action list \<times> server) result option" where
  "send_messages fuel junk s = send_to_all fuel junk (pagers (registry s)) s"

section \<open>The request handlers\<close>

type_synonym 'w handled = "((http_client \<times> 'w) \<times> server) result option"

text \<open>The end of a handler: its response, if the network ever takes it.\<close>

definition finish :: "(http_client \<times> 'w) option \<Rightarrow> server \<Rightarrow> 'w handled" where
  "finish resp s = map_option (\<lambda>cw. Inr (cw, s)) resp"

definition http_pagers_pair :: "nat \<Rightarrow> 'w net \<Rightarrow> http_client \<times> 'w \<Rightarrow> server \<Rightarrow> 'w handled" where
  "http_pagers_pair fuel net cw s =
     (let client = fst cw in
      if \<not> has_req_param client ''id'' then finish (response_bad fuel net ''no pager id given'' cw) s
      else
        obind (Some (get_req_param_int client ''id'')) (\<lambda>v.
          let id32 = word_of_int v :: u32;
              dev = ucast id32 :: u16
          in obind
             (if \<not> pager_exists dev (registry s) then
                (let (a, h) = heap_new (new_Pager dev) (heap_g s) in
                 obind (Some (add_pager (Some a) h (registry s))) (\<lambda>(_, pl).
                   Some (Inr (Some a, s\<lparr>heap_g := h, registry := pl\<rparr>))))
              else Some (Inr (get_pager dev (registry s), s)))
             (\<lambda>(pager, s1).
               obind (Some (heap_update pager (set_pair_msgs_left DEFAULT_MSG_COUNT) (heap_g s1))) (\<lambda>h.
                 finish (response_ok fuel net ''started pairing...'' cw) (s1\<lparr>heap_g := h\<rparr>)))))"

definition http_pagers_remove :: "nat \<Rightarrow> 'w net \<Rightarrow> http_client \<times> 'w \<Rightarrow> server \<Rightarrow> 'w handled" where
  "http_pagers_remove fuel net cw s =
     (let client = fst cw in
      if \<not> has_req_param client ''id'' then finish (response_bad fuel net ''no pager id given'' cw) s
      else
        obind (Some (get_req_param_int client ''id'')) (\<lambda>v.
          let dev = word_of_int v :: u16 in
          obind (Some (heap_delete (get_pager dev (registry s)) (heap_g s))) (\<lambda>h.
            let (res, pl) = remove_pager dev (registry s)
            in finish (response_ok fuel net (if res then ''removed'' else ''pager not found'') cw)
                 (s\<lparr>heap_g := h, registry := pl\<rparr>))))"

definition http_pagers_flash :: "nat \<Rightarrow> 'w net \<Rightarrow> http_client \<times> 'w \<Rightarrow> server \<Rightarrow> 'w handled" where
  "http_pagers_flash fuel net cw s =
     (let client = fst cw in
      if \<not> has_req_param client ''id'' then finish (response_bad fuel net ''no pager id given'' cw) s
      else if \<not> has_req_param client ''time'' then
        finish (response_bad fuel net ''no pager flash time given'' cw) s
      else
        obind (Some (get_req_param_int client ''id'')) (\<lambda>v.
          let pager = get_pager (word_of_int v) (registry s) in
          obind (Some (heap_update pager (set_flash_msgs_left DEFAULT_MSG_COUNT) (heap_g s))) (\<lambda>h1.
          obind (Some (get_req_param_int client ''time'')) (\<lambda>t.
          obind (Some (heap_update pager (\<lambda>p. p\<lparr>flash_time := Some (word_of_int t)\<rparr>) h1)) (\<lambda>h2.
            finish (response_ok fuel net ''flashing the pager'' cw) (s\<lparr>heap_g := h2\<rparr>))))))"

section \<open>The invariant\<close>

definition pager_inv :: "Pager \<Rightarrow> bool" where
  "pager_inv p \<longleftrightarrow> 0 \<le> flash_msgs_left p \<and> flash_msgs_left p < 65536 \<and>
     0 \<le> pair_msgs_left p \<and> pair_msgs_left p < 65536 \<and>
     (any_flash_msgs_left p \<longrightarrow> flash_time p \<noteq> None)"

definition heap_inv :: "pager_heap \<Rightarrow> bool" where
  "heap_inv h \<longleftrightarrow> (\<forall>p. Some p \<in> set h \<longrightarrow> pager_inv p)"

definition server_inv :: "server \<Rightarrow> bool" where
  "server_inv s \<longleftrightarrow> pl_inv (heap_g s) (registry s) \<and> no_leak (heap_g s) (registry s) \<and>
     heap_inv (heap_g s) \<and> crc_inv (crc_g s) \<and> tx_inv (tx_g s)"

lemma server_inv_init: "server_inv server_init"
  by (simp add: server_inv_def server_init_def pl_inv_new no_leak_def heap_inv_def crc_inv_init tx_inv_init)

section \<open>What goes on the air\<close>

definition wire_levels :: "proto_data \<Rightarrow> int list" where
  "wire_levels d = frame_levels (bytes_of 4 (proto_blocks d)) @ [PWM_DUTY_SILENCE]"

text \<open>The copies a pager gets in one round, its counters after it, and the numbering and sealing
  of a sequence of messages.\<close>

definition pager_messages :: "Pager \<Rightarrow> proto_data list" where
  "pager_messages p =
     (if flash_msgs_left p > 0 then [blank_message (device_id p) FLASH (the (flash_time p))] else []) @
     (if pair_msgs_left p > 0 then [blank_message (device_id p) PAIR 0] else [])"

definition pager_sent :: "Pager \<Rightarrow> Pager" where
  "pager_sent p = p\<lparr>flash_msgs_left := (if flash_msgs_left p > 0 then flash_msgs_left p - 1 else flash_msgs_left p),
     pair_msgs_left := (if pair_msgs_left p > 0 then pair_msgs_left p - 1 else pair_msgs_left p)\<rparr>"

fun numbered :: "u64 \<Rightarrow> proto_data list \<Rightarrow> proto_data list" where
  "numbered n [] = []"
| "numbered n (d # ds) = proto_seal (d\<lparr>sequence_number := n + 1\<rparr>) # numbered (n + 1) ds"

lemma numbered_append:
  "numbered n (ds @ es) = numbered n ds @ numbered (n + of_nat (length ds)) es"
  by (induction ds arbitrary: n) (simp_all add: add.assoc add.commute add.left_commute)

text \<open>The server from \<open>s\<close> to \<open>s'\<close> with actions \<open>acts\<close>, having queued the messages \<open>ds\<close>, on air and
  state; \<open>h\<close> is the new heap.\<close>

definition queued :: "proto_data list \<Rightarrow> pager_heap \<Rightarrow> server \<Rightarrow> tx_action list \<Rightarrow> server \<Rightarrow> bool" where
  "queued ds h s acts s' \<longleftrightarrow>
     (\<exists>crc' tx'. s' = s\<lparr>sequence_number_g := sequence_number_g s + of_nat (length ds), heap_g := h,
        crc_g := crc', tx_g := tx'\<rparr> \<and> crc_inv crc' \<and>
      (\<forall>ls. tx_pending ls (tx_g s) \<longrightarrow>
         (\<exists>ls'. tx_pending ls' tx' \<and>
            tx_levels acts @ ls' = ls @ concat (map wire_levels (numbered (sequence_number_g s) ds)))))"

lemma queued_nothing: "crc_inv (crc_g s) \<Longrightarrow> queued [] (heap_g s) s [] s"
  unfolding queued_def by (intro exI [of _ "crc_g s"] exI [of _ "tx_g s"]) simp

lemma queued_heap:
  "queued ds h s acts s' \<Longrightarrow> heap_g s' = h"
  "queued ds h s acts s' \<Longrightarrow> registry s' = registry s"
  "queued ds h s acts s' \<Longrightarrow> sequence_number_g s' = sequence_number_g s + of_nat (length ds)"
  "queued ds h s acts s' \<Longrightarrow> crc_inv (crc_g s')"
  "queued ds h s acts s' \<Longrightarrow> tx_inv (tx_g s) \<Longrightarrow> tx_inv (tx_g s')"
  by (auto simp: queued_def tx_inv_pending) blast

lemma queued_update_heap:
  "queued ds h s acts s' \<Longrightarrow> queued ds h' s acts (s'\<lparr>heap_g := h'\<rparr>)"
proof -
  assume "queued ds h s acts s'"
  then obtain crc1 tx1 where "s' = s\<lparr>sequence_number_g := sequence_number_g s + of_nat (length ds),
      heap_g := h, crc_g := crc1, tx_g := tx1\<rparr>" "crc_inv crc1"
    "\<forall>ls. tx_pending ls (tx_g s) \<longrightarrow> (\<exists>ls'. tx_pending ls' tx1 \<and>
       tx_levels acts @ ls' = ls @ concat (map wire_levels (numbered (sequence_number_g s) ds)))"
    unfolding queued_def by blast
  then show ?thesis unfolding queued_def by (intro exI [of _ crc1] exI [of _ tx1]) simp
qed

lemma queued_trans:
  assumes "queued ds h s acts s'" "queued ds' h' s' acts' s''"
  shows "queued (ds @ ds') h' s (acts @ acts') s''"
proof -
  obtain crc1 tx1 where 1: "s' = s\<lparr>sequence_number_g := sequence_number_g s + of_nat (length ds),
      heap_g := h, crc_g := crc1, tx_g := tx1\<rparr>"
    "\<And>ls. tx_pending ls (tx_g s) \<Longrightarrow> \<exists>ls'. tx_pending ls' tx1 \<and>
       tx_levels acts @ ls' = ls @ concat (map wire_levels (numbered (sequence_number_g s) ds))"
    using assms(1) unfolding queued_def by blast
  obtain crc2 tx2 where 2: "s'' = s'\<lparr>sequence_number_g := sequence_number_g s' + of_nat (length ds'),
      heap_g := h', crc_g := crc2, tx_g := tx2\<rparr>" "crc_inv crc2"
    "\<And>ls. tx_pending ls (tx_g s') \<Longrightarrow> \<exists>ls'. tx_pending ls' tx2 \<and>
       tx_levels acts' @ ls' = ls @ concat (map wire_levels (numbered (sequence_number_g s') ds'))"
    using assms(2) unfolding queued_def by blast
  have "\<exists>ls'. tx_pending ls' tx2 \<and> tx_levels (acts @ acts') @ ls' =
      ls @ concat (map wire_levels (numbered (sequence_number_g s) (ds @ ds')))"
    if "tx_pending ls (tx_g s)" for ls
  proof -
    from 1(2) [OF that] obtain ls1 where ls1: "tx_pending ls1 tx1"
      "tx_levels acts @ ls1 = ls @ concat (map wire_levels (numbered (sequence_number_g s) ds))" by blast
    from 2(3) [of ls1] ls1(1) obtain ls2 where ls2: "tx_pending ls2 tx2"
      "tx_levels acts' @ ls2 = ls1 @ concat (map wire_levels
         (numbered (sequence_number_g s + of_nat (length ds)) ds'))" by (auto simp: 1(1))
    have "tx_levels (acts @ acts') @ ls2 = tx_levels acts @ (tx_levels acts' @ ls2)" by simp
    also have "\<dots> = ls @ concat (map wire_levels (numbered (sequence_number_g s) (ds @ ds')))"
      unfolding ls2(2) append_assoc [symmetric] ls1(2) by (simp add: numbered_append)
    finally show ?thesis using ls2(1) by blast
  qed
  moreover have "s'' = s\<lparr>sequence_number_g := sequence_number_g s + of_nat (length (ds @ ds')),
      heap_g := h', crc_g := crc2, tx_g := tx2\<rparr>"
    unfolding 2(1) 1(1) by (simp add: add.assoc)
  ultimately show ?thesis unfolding queued_def using 2(2) by blast
qed

lemma send_message_queues:
  assumes "crc_inv (crc_g s)" "frame_wf junk" "tx_inv (tx_g s)"
  shows "\<exists>acts s'. send_message 1025 junk d s = Some (Inr (acts, s')) \<and> queued [d] (heap_g s) s acts s'"
proof -
  let ?n = "sequence_number_g s + 1"
  let ?d = "proto_seal (d\<lparr>sequence_number := ?n\<rparr>)"
  let ?bs = "bytes_of 4 (proto_blocks ?d)"
  have bs: "?bs \<noteq> []" "length ?bs = PROTO_FRAME_SIZE" "length ?bs \<le> BYTE_BUFFER_SIZE"
    by (auto simp: proto_sizes BYTE_BUFFER_SIZE_def simp flip: length_0_conv)
  obtain ls0 where ls0: "tx_pending ls0 (tx_g s)" using assms(3) by (auto simp: tx_inv_pending)
  from send_bytes_pending [OF ls0 bs(1,3)] obtain acts tx' where
    s: "send_bytes 1025 ?bs (int (length ?bs)) (tx_g s) = Some (Inr (acts, tx'))" by blast
  have lev: "tx_levels acts = ls \<and> tx_pending (wire_levels ?d) tx'" if "tx_pending ls (tx_g s)" for ls
    using send_bytes_pending [OF that bs(1,3)] s by (auto simp: wire_levels_def)
  let ?s = "s\<lparr>sequence_number_g := ?n, crc_g := crc_ready (crc_g s), tx_g := tx'\<rparr>"
  have "send_message 1025 junk d s = Some (Inr (acts, ?s))"
    using s unfolding bs(2)
    by (simp add: send_message_def Let_def checksum_calc_seal [OF assms(1)]
        proto_encrypt_blocks [OF assms(2)])
  moreover have "queued [d] (heap_g s) s acts ?s"
    unfolding queued_def
    by (intro exI [of _ "crc_ready (crc_g s)"] exI [of _ tx'])
      (use lev crc_inv_ready in auto)
  ultimately show ?thesis by blast
qed

lemma heap_get_Some: "heap_get h (Some a) = Inr p \<longleftrightarrow> a < length h \<and> h ! a = Some p"
  by (auto simp: heap_get_def arr_get_def split: option.splits)

lemma heap_update_Some:
  "a < length h \<Longrightarrow> h ! a = Some p \<Longrightarrow> heap_update (Some a) f h = Inr (h[a := Some (f p)])"
  using heap_get_Some [of h a p] by (simp add: heap_update_def)

text \<open>Both messages of one pager, from a server whose parts are in order.\<close>

definition ready :: "proto_frame \<Rightarrow> server \<Rightarrow> bool" where
  "ready junk s \<longleftrightarrow> frame_wf junk \<and> crc_inv (crc_g s) \<and> tx_inv (tx_g s)"

lemma queued_ready: "queued ds h s acts s' \<Longrightarrow> ready junk s \<Longrightarrow> ready junk s'"
  unfolding ready_def using queued_heap(4,5) by blast

lemma send_flash_msg_queues:
  assumes "ready junk s" "heap_get (heap_g s) (Some a) = Inr p" "pager_inv p"
  shows "\<exists>acts s'. send_flash_msg 1025 junk a s = Some (Inr (acts, s')) \<and>
     queued (if flash_msgs_left p > 0 then [blank_message (device_id p) FLASH (the (flash_time p))] else [])
       ((heap_g s)[a := Some (if flash_msgs_left p > 0 then flash_msg_sent p else p)]) s acts s'"
proof (cases "flash_msgs_left p > 0")
  case True
  with assms(3) obtain t where t: "flash_time p = Some t"
    by (auto simp: pager_inv_def any_flash_msgs_left_def)
  from send_message_queues [of s junk "blank_message (device_id p) FLASH t"] assms(1) obtain acts s' where
    m: "send_message 1025 junk (blank_message (device_id p) FLASH t) s = Some (Inr (acts, s'))"
      "queued [blank_message (device_id p) FLASH t] (heap_g s) s acts s'"
    by (auto simp: ready_def)
  have "heap_update (Some a) flash_msg_sent (heap_g s') = Inr ((heap_g s)[a := Some (flash_msg_sent p)])"
    using assms(2) queued_heap(1) [OF m(2)] by (simp add: heap_get_Some heap_update_Some)
  with True t m assms(2) queued_update_heap [OF m(2)] show ?thesis
    by (simp add: send_flash_msg_def any_flash_msgs_left_def)
next
  case False
  moreover have "(heap_g s)[a := Some p] = heap_g s"
    using assms(2) by (simp add: heap_get_Some list_update_same_conv)
  ultimately show ?thesis
    using assms queued_nothing [of s] by (simp add: send_flash_msg_def any_flash_msgs_left_def ready_def)
qed

lemma send_pair_msg_queues:
  assumes "ready junk s" "heap_get (heap_g s) (Some a) = Inr p"
  shows "\<exists>acts s'. send_pair_msg 1025 junk a s = Some (Inr (acts, s')) \<and>
     queued (if pair_msgs_left p > 0 then [blank_message (device_id p) PAIR 0] else [])
       ((heap_g s)[a := Some (if pair_msgs_left p > 0 then pair_msg_sent p else p)]) s acts s'"
proof (cases "pair_msgs_left p > 0")
  case True
  from send_message_queues [of s junk "blank_message (device_id p) PAIR 0"] assms(1) obtain acts s' where
    m: "send_message 1025 junk (blank_message (device_id p) PAIR 0) s = Some (Inr (acts, s'))"
      "queued [blank_message (device_id p) PAIR 0] (heap_g s) s acts s'"
    by (auto simp: ready_def)
  have "heap_update (Some a) pair_msg_sent (heap_g s') = Inr ((heap_g s)[a := Some (pair_msg_sent p)])"
    using assms(2) queued_heap(1) [OF m(2)] by (simp add: heap_get_Some heap_update_Some)
  with True m assms(2) queued_update_heap [OF m(2)] show ?thesis
    by (simp add: send_pair_msg_def any_pair_msgs_left_def)
next
  case False
  moreover have "(heap_g s)[a := Some p] = heap_g s"
    using assms(2) by (simp add: heap_get_Some list_update_same_conv)
  ultimately show ?thesis
    using assms queued_nothing [of s] by (simp add: send_pair_msg_def any_pair_msgs_left_def ready_def)
qed

lemma send_pager_queues:
  assumes "ready junk s" "heap_get (heap_g s) (Some a) = Inr p" "pager_inv p"
  shows "\<exists>acts1 s1 acts2 s2. send_flash_msg 1025 junk a s = Some (Inr (acts1, s1)) \<and>
     send_pair_msg 1025 junk a s1 = Some (Inr (acts2, s2)) \<and>
     queued (pager_messages p) ((heap_g s)[a := Some (pager_sent p)]) s (acts1 @ acts2) s2"
proof -
  let ?q = "if flash_msgs_left p > 0 then flash_msg_sent p else p"
  from send_flash_msg_queues [OF assms] obtain acts1 s1 where
    1: "send_flash_msg 1025 junk a s = Some (Inr (acts1, s1))"
    "queued (if flash_msgs_left p > 0 then [blank_message (device_id p) FLASH (the (flash_time p))] else [])
       ((heap_g s)[a := Some ?q]) s acts1 s1" by blast
  have "heap_get (heap_g s1) (Some a) = Inr ?q"
    using assms(2) queued_heap(1) [OF 1(2)] by (simp add: heap_get_Some)
  from send_pair_msg_queues [OF queued_ready [OF 1(2) assms(1)] this] obtain acts2 s2 where
    2: "send_pair_msg 1025 junk a s1 = Some (Inr (acts2, s2))"
    "queued (if pair_msgs_left ?q > 0 then [blank_message (device_id ?q) PAIR 0] else [])
       ((heap_g s1)[a := Some (if pair_msgs_left ?q > 0 then pair_msg_sent ?q else ?q)]) s1 acts2 s2" by blast
  have q: "(if pair_msgs_left p > 0 then pair_msg_sent ?q else ?q) = pager_sent p"
    "pair_msgs_left ?q = pair_msgs_left p" "device_id ?q = device_id p"
    by (simp_all add: pager_sent_def flash_msg_sent_def pair_msg_sent_def)
  from queued_trans [OF 1(2) 2(2) [unfolded q queued_heap(1) [OF 1(2)] list_update_overwrite]] have
    "queued (pager_messages p) ((heap_g s)[a := Some (pager_sent p)]) s (acts1 @ acts2) s2"
    unfolding pager_messages_def .
  with 1(1) 2(1) show ?thesis by blast
qed

text \<open>The heap after a round over the entries \<open>m\<close>.\<close>

definition heap_sent :: "(u16 \<times> nat) list \<Rightarrow> pager_heap \<Rightarrow> pager_heap" where
  "heap_sent m h =
     map (\<lambda>a. if a \<in> snd ` set m then map_option pager_sent (h ! a) else h ! a) [0..<length h]"

lemma heap_sent_Cons:
  assumes "h ! a = Some p" "a < length h" "a \<notin> snd ` set m"
  shows "heap_sent m (h[a := Some (pager_sent p)]) = heap_sent ((k, a) # m) h"
  using assms by (auto simp: heap_sent_def nth_list_update intro!: nth_equalityI)

lemma send_to_all_queues:
  assumes "ready junk s" "heap_inv (heap_g s)" "list_all (live_pager (heap_g s)) m" "distinct (map snd m)"
  shows "\<exists>acts s'. send_to_all 1025 junk m s = Some (Inr (acts, s')) \<and>
     queued (concat (map (\<lambda>(k, a). pager_messages (the (heap_g s ! a))) m)) (heap_sent m (heap_g s)) s acts s'"
  using assms
proof (induction m arbitrary: s)
  case Nil
  have "heap_sent [] (heap_g s) = heap_g s" by (simp add: heap_sent_def map_nth)
  with Nil queued_nothing [of s] show ?case by (simp add: ready_def)
next
  case (Cons e m)
  obtain k a where e: "e = (k, a)" by fastforce
  with Cons.prems(3) obtain p where p: "a < length (heap_g s)" "heap_g s ! a = Some p"
    by (auto simp: live_pager_def)
  then have get: "heap_get (heap_g s) (Some a) = Inr p" by (simp add: heap_get_Some)
  have inv: "pager_inv p" using Cons.prems(2) p unfolding heap_inv_def by (metis nth_mem)
  from send_pager_queues [OF Cons.prems(1) get inv] obtain acts1 s1 acts2 s2 where
    1: "send_flash_msg 1025 junk a s = Some (Inr (acts1, s1))"
      "send_pair_msg 1025 junk a s1 = Some (Inr (acts2, s2))"
      "queued (pager_messages p) ((heap_g s)[a := Some (pager_sent p)]) s (acts1 @ acts2) s2" by blast
  note h2 = queued_heap(1) [OF 1(3)]
  have fresh: "a \<notin> snd ` set m" using Cons.prems(4) e by simp
  have sent: "pager_inv (pager_sent p)"
    using inv by (auto simp: pager_inv_def pager_sent_def any_flash_msgs_left_def)
  have inv2: "heap_inv (heap_g s2)"
    using Cons.prems(2) sent unfolding h2 heap_inv_def
    by (auto dest: set_update_subset_insert [THEN subsetD])
  have live: "list_all (live_pager (heap_g s2)) m"
    using Cons.prems(3) fresh unfolding h2 list_all_iff
    by (force intro: live_pager_delete)
  have "distinct (map snd m)" using Cons.prems(4) by simp
  from Cons.IH [OF queued_ready [OF 1(3) Cons.prems(1)] inv2 live this] obtain acts3 s3 where
    3: "send_to_all 1025 junk m s2 = Some (Inr (acts3, s3))"
    "queued (concat (map (\<lambda>(k, a). pager_messages (the (heap_g s2 ! a))) m)) (heap_sent m (heap_g s2))
       s2 acts3 s3" by blast
  have "map (\<lambda>(k, a). pager_messages (the (heap_g s2 ! a))) m =
      map (\<lambda>(k, a). pager_messages (the (heap_g s ! a))) m"
    using fresh unfolding h2 by (auto simp: nth_list_update image_iff)
  with queued_trans [OF 1(3) 3(2)] have
    "queued (pager_messages p @ concat (map (\<lambda>(k, a). pager_messages (the (heap_g s ! a))) m))
       (heap_sent (e # m) (heap_g s)) s ((acts1 @ acts2) @ acts3) s3"
    unfolding h2 e heap_sent_Cons [OF p(2,1) fresh, where k = k] by simp
  with 1(1,2) 3(1) show ?case by (simp add: e p(2))
qed

definition round_messages :: "server \<Rightarrow> proto_data list" where
  "round_messages s = concat (map (\<lambda>(k, a). pager_messages (the (heap_g s ! a))) (pagers (registry s)))"

lemma heap_sent_all: "no_leak h pl \<Longrightarrow> heap_sent (pagers pl) h = map (map_option pager_sent) h"
  by (rule nth_equalityI) (fastforce simp: heap_sent_def no_leak_def)+

lemma pager_sent_inv: "pager_inv p \<Longrightarrow> pager_inv (pager_sent p)"
  by (auto simp: pager_inv_def pager_sent_def any_flash_msgs_left_def)

lemma heap_inv_map: "heap_inv h \<Longrightarrow> (\<And>p. pager_inv p \<Longrightarrow> pager_inv (f p)) \<Longrightarrow> heap_inv (map (map_option f) h)"
  unfolding heap_inv_def by (auto dest!: sym [of "Some _"])

lemma pl_inv_map:
  assumes "pl_inv h pl" "\<And>p. device_id (f p) = device_id p"
  shows "pl_inv (map (map_option f) h) pl"
  using assms by (auto simp: pl_inv_def list_all_iff live_pager_def)

lemma no_leak_map: "no_leak h pl \<Longrightarrow> no_leak (map (map_option f) h) pl"
  by (auto simp: no_leak_def)

lemma send_messages_queues:
  assumes "server_inv s" "frame_wf junk"
  shows "\<exists>acts s'. send_messages 1025 junk s = Some (Inr (acts, s')) \<and>
     queued (round_messages s) (map (map_option pager_sent) (heap_g s)) s acts s' \<and> server_inv s'"
proof -
  have s: "ready junk s" "heap_inv (heap_g s)" "list_all (live_pager (heap_g s)) (pagers (registry s))"
    "distinct (map snd (pagers (registry s)))" "no_leak (heap_g s) (registry s)"
    using assms by (auto simp: server_inv_def ready_def pl_inv_def)
  from send_to_all_queues [OF s(1-4)] obtain acts s' where
    s': "send_to_all 1025 junk (pagers (registry s)) s = Some (Inr (acts, s'))"
    "queued (round_messages s) (map (map_option pager_sent) (heap_g s)) s acts s'"
    unfolding heap_sent_all [OF s(5)] round_messages_def by blast
  note q = queued_heap [OF s'(2)]
  have dev: "device_id (pager_sent p) = device_id p" for p by (simp add: pager_sent_def)
  have inv: "pl_inv (heap_g s) (registry s)" "tx_inv (tx_g s)" using assms(1) by (simp_all add: server_inv_def)
  have "server_inv s'"
    using pl_inv_map [OF inv(1) dev] no_leak_map [OF s(5)] heap_inv_map [OF s(2) pager_sent_inv]
      q(4) q(5) [OF inv(2)]
    by (simp add: server_inv_def q(1,2))
  with s' show ?thesis by (auto simp: send_messages_def)
qed

section \<open>Several rounds\<close>

fun send_rounds ::
    "nat \<Rightarrow> nat \<Rightarrow> proto_frame \<Rightarrow> server \<Rightarrow> (tx_action list \<times> server) result option" where
  "send_rounds fuel 0 junk s = Some (Inr ([], s))"
| "send_rounds fuel (Suc n) junk s =
     obind (send_messages fuel junk s) (\<lambda>(acts, s').
     obind (send_rounds fuel n junk s') (\<lambda>(acts', s''). Some (Inr (acts @ acts', s''))))"

text \<open>The messages of \<open>n\<close> rounds over the entries \<open>m\<close> of a heap.\<close>

fun rounds_messages :: "nat \<Rightarrow> (u16 \<times> nat) list \<Rightarrow> pager_heap \<Rightarrow> proto_data list" where
  "rounds_messages 0 m h = []"
| "rounds_messages (Suc n) m h =
     concat (map (\<lambda>(k, a). pager_messages (the (h ! a))) m) @
     rounds_messages n m (map (map_option pager_sent) h)"

lemma send_rounds_queues:
  assumes "server_inv s" "frame_wf junk"
  shows "\<exists>acts s' h'. send_rounds 1025 n junk s = Some (Inr (acts, s')) \<and>
     queued (rounds_messages n (pagers (registry s)) (heap_g s)) h' s acts s' \<and> server_inv s'"
  using assms(1)
proof (induction n arbitrary: s)
  case 0
  then have "queued [] (heap_g s) s [] s" by (simp add: queued_nothing server_inv_def)
  with 0 show ?case by auto
next
  case (Suc n)
  from send_messages_queues [OF Suc.prems assms(2)] obtain acts1 s1 where
    1: "send_messages 1025 junk s = Some (Inr (acts1, s1))"
    "queued (round_messages s) (map (map_option pager_sent) (heap_g s)) s acts1 s1" "server_inv s1" by blast
  from Suc.IH [OF 1(3)] obtain acts2 s2 h' where
    2: "send_rounds 1025 n junk s1 = Some (Inr (acts2, s2))"
    "queued (rounds_messages n (pagers (registry s1)) (heap_g s1)) h' s1 acts2 s2" "server_inv s2" by blast
  note q = queued_heap(1,2) [OF 1(2)]
  from queued_trans [OF 1(2) 2(2)] have
    "queued (rounds_messages (Suc n) (pagers (registry s)) (heap_g s)) h' s (acts1 @ acts2) s2"
    unfolding q by (simp add: round_messages_def)
  with 1(1) 2(1,3) show ?case by auto
qed

text \<open>How often a message of type \<open>t\<close> for \<open>dev\<close> is among the messages.\<close>

definition copies :: "u16 \<Rightarrow> MessageType \<Rightarrow> proto_data list \<Rightarrow> nat" where
  "copies dev t ds = length (filter (\<lambda>d. receiver_id d = dev \<and> message_type d = message_code t) ds)"

lemma copies_append [simp]: "copies dev t (xs @ ys) = copies dev t xs + copies dev t ys"
  by (simp add: copies_def)

lemma copies_pager:
  "copies dev FLASH (pager_messages p) = (if device_id p = dev \<and> flash_msgs_left p > 0 then 1 else 0)"
  "copies dev PAIR (pager_messages p) = (if device_id p = dev \<and> pair_msgs_left p > 0 then 1 else 0)"
  by (simp_all add: copies_def pager_messages_def blank_message_def)

definition left_for :: "MessageType \<Rightarrow> Pager \<Rightarrow> int" where
  "left_for t p = (if t = FLASH then flash_msgs_left p else pair_msgs_left p)"

lemma copies_one_round:
  assumes "list_all (live_pager h) m" "sm_ok m" "(dev, a) \<in> set m" "t \<noteq> DEFAULT"
  shows "copies dev t (concat (map (\<lambda>(k, a). pager_messages (the (h ! a))) m)) =
     (if left_for t (the (h ! a)) > 0 then 1 else 0)"
  using assms(1-3)
proof (induction m)
  case (Cons e m)
  have pm: "copies dev t (pager_messages p) = (if device_id p = dev \<and> left_for t p > 0 then 1 else 0)" for p
    using assms(4) by (cases t) (simp_all add: copies_pager left_for_def)
  have none: "copies dev t (concat (map (\<lambda>(k, a). pager_messages (the (h ! a))) m')) = 0"
    if "list_all (live_pager h) m'" "dev \<notin> fst ` set m'" for m'
    using that by (induction m') (auto simp: copies_def [of _ _ "[]"] live_pager_def pm split: prod.splits)
  obtain k b where e: "e = (k, b)" by fastforce
  with Cons.prems(1) obtain p where p: "h ! b = Some p" "device_id p = k"
    "list_all (live_pager h) m" by (auto simp: live_pager_def)
  have sorted: "sm_ok m" "k \<notin> fst ` set m" using Cons.prems(2) by (auto simp: e sm_ok_def)
  show ?case
  proof (cases "k = dev")
    case True
    with Cons.prems(3) e sorted(2) have "b = a" by (force simp: image_iff)
    with True p none [of m] sorted(2) show ?thesis by (simp add: e pm)
  next
    case False
    with Cons.prems(3) e have "(dev, a) \<in> set m" by auto
    from Cons.IH [OF p(3) sorted(1) this] False p show ?thesis by (simp add: e pm)
  qed
qed simp

lemma copies_rounds:
  assumes "pl_inv h pl" "get_pager dev pl = Some a" "h ! a = Some p" "t \<noteq> DEFAULT"
  shows "copies dev t (rounds_messages n (pagers pl) h) = min n (nat (left_for t p))"
  using assms(1,3)
proof (induction n arbitrary: h p)
  case (Suc n)
  have mem: "(dev, a) \<in> set (pagers pl)"
    using assms(2) Suc.prems(1) smap.entries_find [of "pagers pl" dev a]
    by (simp add: pl_inv_def get_pager_find)
  have len: "a < length h" using get_pager_live [OF Suc.prems(1) assms(2)] by simp
  have dev: "device_id (pager_sent p) = device_id p" for p by (simp add: pager_sent_def)
  have one: "copies dev t (concat (map (\<lambda>(k, a). pager_messages (the (h ! a))) (pagers pl))) =
      (if left_for t p > 0 then 1 else 0)"
    using copies_one_round [OF _ _ mem assms(4), of h] Suc.prems by (simp add: pl_inv_def)
  have "copies dev t (rounds_messages n (pagers pl) (map (map_option pager_sent) h)) =
      min n (nat (left_for t (pager_sent p)))"
    by (rule Suc.IH [OF pl_inv_map [OF Suc.prems(1) dev]]) (simp add: len Suc.prems(2))
  moreover have "left_for t (pager_sent p) = (if left_for t p > 0 then left_for t p - 1 else left_for t p)"
    by (simp add: left_for_def pager_sent_def)
  ultimately show ?case using one by auto
qed (simp add: copies_def)

section \<open>The handlers\<close>

lemma server_pager:
  assumes "server_inv s" "get_pager dev (registry s) = Some a"
  shows "\<exists>p. a < length (heap_g s) \<and> heap_g s ! a = Some p \<and> device_id p = dev \<and> pager_inv p"
proof -
  from get_pager_live [of "heap_g s" "registry s"] assms obtain p where
    p: "a < length (heap_g s)" "heap_g s ! a = Some p" "device_id p = dev" by (auto simp: server_inv_def)
  then have "Some p \<in> set (heap_g s)" by (metis nth_mem)
  with p assms(1) show ?thesis by (auto simp: server_inv_def heap_inv_def)
qed

lemma heap_inv_put: "heap_inv h \<Longrightarrow> pager_inv q \<Longrightarrow> heap_inv (h[a := Some q])"
  unfolding heap_inv_def by (auto dest: set_update_subset_insert [THEN subsetD])

lemma server_inv_put:
  assumes "server_inv s" "a < length (heap_g s)" "heap_g s ! a = Some p" "device_id q = device_id p"
    "pager_inv q"
  shows "server_inv (s\<lparr>heap_g := (heap_g s)[a := Some q]\<rparr>)"
proof -
  have "live_pager ((heap_g s)[a := Some q]) e" if "live_pager (heap_g s) e" for e
    using that assms(2-4) by (auto simp: live_pager_def nth_list_update)
  then have "pl_inv ((heap_g s)[a := Some q]) (registry s)"
    using assms(1) by (auto simp: server_inv_def pl_inv_def list_all_iff)
  moreover have "no_leak ((heap_g s)[a := Some q]) (registry s)"
    using assms(1-3) by (auto simp: server_inv_def no_leak_def nth_list_update)
  ultimately show ?thesis
    using assms(1,5) heap_inv_put by (simp add: server_inv_def)
qed

lemma param_found:
  assumes "sm_find (request_params c) k = Some v"
  shows "has_req_param c k" "get_req_param_int c k = stoi v"
  using assms by (simp_all add: has_req_param_def get_req_param_int_def get_req_param_def sm_at_def)

lemma param_missing: "sm_find (request_params c) k = None \<Longrightarrow> \<not> has_req_param c k"
  by (simp add: has_req_param_def)

text \<open>What a handler that answered leaves behind: its response on the wire.\<close>

definition answered ::
    "('w \<Rightarrow> string) \<Rightarrow> int \<Rightarrow> string \<Rightarrow> string \<Rightarrow> http_client \<times> 'w \<Rightarrow> 'w handled \<Rightarrow> server \<Rightarrow> bool" where
  "answered txt code code_str str cw res s' \<longleftrightarrow>
     (\<exists>c' w'. res = Some (Inr ((c', w'), s')) \<and>
        txt w' = txt (snd cw) @ response_text code code_str str (fst cw))"

lemma finish_answers:
  assumes "net_takes net txt" "0 < fuel" "length str \<le> TCP_SND_BUF"
  shows "answered txt 200 ''OK'' str cw (finish (response_ok fuel net str cw) s) s"
    and "answered txt 400 ''Bad Request'' str cw (finish (response_bad fuel net str cw) s) s"
proof -
  obtain c w where cw: "cw = (c, w)" by fastforce
  show "answered txt 200 ''OK'' str cw (finish (response_ok fuel net str cw) s) s"
    "answered txt 400 ''Bad Request'' str cw (finish (response_bad fuel net str cw) s) s"
    using respond_sends [OF assms, of 200 "''OK''" c w]
      respond_sends [OF assms, of 400 "''Bad Request''" c w]
    by (auto simp: answered_def finish_def response_ok_def response_bad_def cw)
qed

lemma flash_handler_value:
  assumes "server_inv s" "sm_find (request_params (fst cw)) ''id'' = Some i" "stoi i = Inr v"
    and "sm_find (request_params (fst cw)) ''time'' = Some t" "stoi t = Inr u"
    and "get_pager (word_of_int v) (registry s) = Some a" "heap_g s ! a = Some p"
  shows "http_pagers_flash fuel net cw s = finish (response_ok fuel net ''flashing the pager'' cw)
     (s\<lparr>heap_g := (heap_g s)[a := Some (p\<lparr>flash_msgs_left := 5, flash_time := Some (word_of_int u)\<rparr>)]\<rparr>)"
proof -
  have a: "a < length (heap_g s)" using server_pager [OF assms(1,6)] by auto
  have q: "p\<lparr>flash_msgs_left := 5\<rparr> = set_flash_msgs_left DEFAULT_MSG_COUNT p"
    by (simp add: set_flash_msgs_left_def DEFAULT_MSG_COUNT_def)
  have h1: "heap_update (Some a) (set_flash_msgs_left DEFAULT_MSG_COUNT) (heap_g s) =
      Inr ((heap_g s)[a := Some (p\<lparr>flash_msgs_left := 5\<rparr>)])"
    unfolding q by (rule heap_update_Some [OF a assms(7)])
  have h2: "heap_update (Some a) (\<lambda>p. p\<lparr>flash_time := Some (word_of_int u)\<rparr>)
        ((heap_g s)[a := Some (p\<lparr>flash_msgs_left := 5\<rparr>)]) =
      Inr ((heap_g s)[a := Some (p\<lparr>flash_msgs_left := 5, flash_time := Some (word_of_int u)\<rparr>)])"
    using heap_update_Some [of a "(heap_g s)[a := Some (p\<lparr>flash_msgs_left := 5\<rparr>)]" "p\<lparr>flash_msgs_left := 5\<rparr>"] a
    by simp
  show ?thesis
    using param_found [OF assms(2)] param_found [OF assms(4)] assms(3,5,6) h1 h2
    by (simp add: http_pagers_flash_def Let_def)
qed

lemma flashed_pager_inv:
  "pager_inv p \<Longrightarrow> pager_inv (p\<lparr>flash_msgs_left := 5, flash_time := Some u\<rparr>)"
  by (simp add: pager_inv_def)

lemma paired_pager_inv: "pager_inv p \<Longrightarrow> pager_inv (p\<lparr>pair_msgs_left := 5\<rparr>)"
  by (simp add: pager_inv_def any_flash_msgs_left_def)

lemma pair_count: "set_pair_msgs_left DEFAULT_MSG_COUNT p = p\<lparr>pair_msgs_left := 5\<rparr>"
  by (simp add: set_pair_msgs_left_def DEFAULT_MSG_COUNT_def)

lemma narrow_id: "ucast (word_of_int v :: u32) = (word_of_int v :: u16)"
  by (rule bit_word_eqI) (simp add: bit_simps)

text \<open>A pager that is already there, and one that is not.\<close>

lemma pair_handler_known:
  assumes "server_inv s" "sm_find (request_params (fst cw)) ''id'' = Some i" "stoi i = Inr v"
    and "get_pager (word_of_int v) (registry s) = Some a" "heap_g s ! a = Some p"
  shows "http_pagers_pair fuel net cw s = finish (response_ok fuel net ''started pairing...'' cw)
     (s\<lparr>heap_g := (heap_g s)[a := Some (p\<lparr>pair_msgs_left := 5\<rparr>)]\<rparr>)"
proof -
  have a: "a < length (heap_g s)" using server_pager [OF assms(1,4)] by auto
  have "pager_exists (word_of_int v) (registry s)" using assms(4) by (auto simp: get_pager_def split: if_splits)
  moreover have "heap_update (Some a) (set_pair_msgs_left DEFAULT_MSG_COUNT) (heap_g s) =
      Inr ((heap_g s)[a := Some (p\<lparr>pair_msgs_left := 5\<rparr>)])"
    using heap_update_Some [OF a assms(5)] by (simp add: pair_count)
  ultimately show ?thesis
    using param_found [OF assms(2)] assms(3,4)
    by (simp add: http_pagers_pair_def Let_def narrow_id)
qed

lemma pair_handler_new:
  assumes inv: "server_inv s" and "sm_find (request_params (fst cw)) ''id'' = Some i" "stoi i = Inr v"
    and new: "get_pager (word_of_int v) (registry s) = None"
  shows "\<exists>pl. http_pagers_pair fuel net cw s = finish (response_ok fuel net ''started pairing...'' cw)
       (s\<lparr>registry := pl, heap_g := heap_g s @ [Some ((new_Pager (word_of_int v))\<lparr>pair_msgs_left := 5\<rparr>)]\<rparr>) \<and>
     server_inv (s\<lparr>registry := pl, heap_g := heap_g s @ [Some ((new_Pager (word_of_int v))\<lparr>pair_msgs_left := 5\<rparr>)]\<rparr>) \<and>
     set (pl_ids pl) = insert (word_of_int v) (set (pl_ids (registry s))) \<and>
     get_pager (word_of_int v) pl = Some (length (heap_g s))"
proof -
  let ?dev = "word_of_int v :: u16"
  let ?h = "heap_g s @ [Some (new_Pager ?dev)]"
  have ne: "\<not> pager_exists ?dev (registry s)" using new by (simp add: get_pager_find pager_exists_def)
  then have fresh: "?dev \<notin> set (pl_ids (registry s))" by (simp add: pager_exists_iff)
  from inv have pl: "pl_inv (heap_g s) (registry s)" "no_leak (heap_g s) (registry s)"
    "heap_inv (heap_g s)" by (simp_all add: server_inv_def)
  from register_new [OF pl(1) refl, of ?dev] fresh pl(2) obtain pl' where
    pl': "add_pager (Some (length (heap_g s))) ?h (registry s) = Inr (True, pl')" "pl_inv ?h pl'"
      "set (pl_ids pl') = insert ?dev (set (pl_ids (registry s)))" "no_leak ?h pl'"
      "pagers pl' = sm_put ?dev (length (heap_g s)) (pagers (registry s))" by auto
  let ?s = "s\<lparr>heap_g := ?h, registry := pl'\<rparr>"
  have "pager_inv (new_Pager ?dev)" by (simp add: pager_inv_def new_Pager_def any_flash_msgs_left_def)
  then have s: "server_inv ?s" "pager_inv ((new_Pager ?dev)\<lparr>pair_msgs_left := 5\<rparr>)"
    using inv pl pl' paired_pager_inv by (auto simp: server_inv_def heap_inv_def)
  have put: "?h[length (heap_g s) := Some q] = heap_g s @ [Some q]" for q by simp
  have s2: "server_inv (?s\<lparr>heap_g := heap_g s @ [Some ((new_Pager ?dev)\<lparr>pair_msgs_left := 5\<rparr>)]\<rparr>)"
    using server_inv_put [OF s(1), of "length (heap_g s)" "new_Pager ?dev"] s(2) by simp
  have upd: "heap_update (Some (length (heap_g s))) (set_pair_msgs_left DEFAULT_MSG_COUNT) ?h =
      Inr (heap_g s @ [Some ((new_Pager ?dev)\<lparr>pair_msgs_left := 5\<rparr>)])"
    using heap_update_Some [of "length (heap_g s)" ?h] by (simp add: pair_count)
  have "http_pagers_pair fuel net cw s = finish (response_ok fuel net ''started pairing...'' cw)
      (?s\<lparr>heap_g := heap_g s @ [Some ((new_Pager ?dev)\<lparr>pair_msgs_left := 5\<rparr>)]\<rparr>)"
    using param_found [OF assms(2)] assms(3) ne pl'(1) upd
    by (simp add: http_pagers_pair_def Let_def narrow_id heap_new_def)
  moreover have "get_pager ?dev pl' = Some (length (heap_g s))"
    using pl(1) by (simp add: get_pager_find pl'(5) smap.find_put pl_inv_def)
  ultimately show ?thesis using s2 pl'(3) by (intro exI [of _ pl']) simp
qed

lemma handlers_without_id:
  assumes "net_takes net txt" "0 < fuel"
  shows "sm_find (request_params (fst cw)) ''id'' = None \<Longrightarrow>
       answered txt 400 ''Bad Request'' ''no pager id given'' cw (http_pagers_pair fuel net cw s) s \<and>
       answered txt 400 ''Bad Request'' ''no pager id given'' cw (http_pagers_remove fuel net cw s) s"
    and "sm_find (request_params (fst cw)) ''id'' = Some i \<Longrightarrow> stoi i = Inl e \<Longrightarrow>
       http_pagers_pair fuel net cw s = Some (Inl e) \<and> http_pagers_remove fuel net cw s = Some (Inl e)"
  using finish_answers(2) [OF assms snd_buf_le] param_missing param_found
  by (simp_all add: http_pagers_pair_def http_pagers_remove_def Let_def)

lemma pair_handler_total:
  assumes "server_inv s" "net_takes net txt" "0 < fuel"
    and "sm_find (request_params (fst cw)) ''id'' = Some i" "stoi i = Inr v"
  shows "\<exists>s' a p. answered txt 200 ''OK'' ''started pairing...'' cw (http_pagers_pair fuel net cw s) s' \<and>
     server_inv s' \<and> set (pl_ids (registry s')) = insert (word_of_int v) (set (pl_ids (registry s))) \<and>
     get_pager (word_of_int v) (registry s') = Some a \<and> heap_g s' ! a = Some p \<and> pair_msgs_left p = 5"
proof (cases "get_pager (word_of_int v) (registry s)")
  case None
  from pair_handler_new [OF assms(1,4,5) None, of fuel net] obtain pl where
    "http_pagers_pair fuel net cw s = finish (response_ok fuel net ''started pairing...'' cw)
       (s\<lparr>registry := pl, heap_g := heap_g s @ [Some ((new_Pager (word_of_int v))\<lparr>pair_msgs_left := 5\<rparr>)]\<rparr>)"
    "server_inv (s\<lparr>registry := pl, heap_g := heap_g s @ [Some ((new_Pager (word_of_int v))\<lparr>pair_msgs_left := 5\<rparr>)]\<rparr>)"
    "set (pl_ids pl) = insert (word_of_int v) (set (pl_ids (registry s)))"
    "get_pager (word_of_int v) pl = Some (length (heap_g s))" by blast
  with finish_answers(1) [OF assms(2,3) snd_buf_le] show ?thesis
    by (intro exI [of _ "s\<lparr>registry := pl, heap_g := heap_g s @
          [Some ((new_Pager (word_of_int v))\<lparr>pair_msgs_left := 5\<rparr>)]\<rparr>"]
        exI [of _ "length (heap_g s)"]) simp
next
  case (Some a)
  from server_pager [OF assms(1) Some] obtain p where
    p: "a < length (heap_g s)" "heap_g s ! a = Some p" "pager_inv p" by blast
  let ?s = "s\<lparr>heap_g := (heap_g s)[a := Some (p\<lparr>pair_msgs_left := 5\<rparr>)]\<rparr>"
  have "server_inv ?s"
    by (rule server_inv_put [OF assms(1) p(1,2)]) (simp_all add: paired_pager_inv p(3))
  moreover have "word_of_int v \<in> set (pl_ids (registry s))"
    using Some by (auto simp: get_pager_def pager_exists_iff split: if_splits)
  ultimately show ?thesis
    using pair_handler_known [OF assms(1,4,5) Some p(2)] finish_answers(1) [OF assms(2,3) snd_buf_le] Some p(1)
    by (intro exI [of _ ?s] exI [of _ a]) (simp add: insert_absorb)
qed

text \<open>Pairing leaves the transmitter alone.\<close>

lemma pair_handler_tx:
  assumes "server_inv s" "sm_find (request_params (fst cw)) ''id'' = Some i" "stoi i = Inr v"
    and "answered txt code code_str str cw (http_pagers_pair fuel net cw s) s'"
  shows "tx_g s' = tx_g s"
proof -
  have fin: "tx_g s' = tx_g s1" if "answered txt code code_str str cw (finish resp s1) s'" for resp s1
    using that by (auto simp: answered_def finish_def)
  show ?thesis
  proof (cases "get_pager (word_of_int v) (registry s)")
    case None
    from pair_handler_new [OF assms(1-3) None, of fuel net] assms(4) fin show ?thesis by auto
  next
    case (Some a)
    from server_pager [OF assms(1) Some] obtain p where "heap_g s ! a = Some p" by blast
    from pair_handler_known [OF assms(1-3) Some this, of fuel net] assms(4) fin show ?thesis by auto
  qed
qed

lemma remove_handler_value:
  assumes "server_inv s" "sm_find (request_params (fst cw)) ''id'' = Some i" "stoi i = Inr v"
  shows "\<exists>h pl. http_pagers_remove fuel net cw s = finish (response_ok fuel net
       (if word_of_int v \<in> set (pl_ids (registry s)) then ''removed'' else ''pager not found'') cw)
       (s\<lparr>heap_g := h, registry := pl\<rparr>) \<and> server_inv (s\<lparr>heap_g := h, registry := pl\<rparr>) \<and>
     set (pl_ids pl) = set (pl_ids (registry s)) - {word_of_int v}"
proof -
  let ?dev = "word_of_int v :: u16"
  have inv: "pl_inv (heap_g s) (registry s)" using assms(1) by (simp add: server_inv_def)
  from free_and_remove [OF inv, of ?dev] obtain h pl where
    r: "heap_delete (get_pager ?dev (registry s)) (heap_g s) = Inr h"
      "remove_pager ?dev (registry s) = (?dev \<in> set (pl_ids (registry s)), pl)" "pl_inv h pl"
      "set (pl_ids pl) = set (pl_ids (registry s)) - {?dev}"
      "no_leak (heap_g s) (registry s) \<longrightarrow> no_leak h pl" by blast
  have "heap_inv h"
  proof (cases "get_pager ?dev (registry s)")
    case None
    with r(1) assms(1) show ?thesis by (simp add: heap_delete_def server_inv_def)
  next
    case (Some a)
    with r(1) have "h = (heap_g s)[a := None]" by (auto simp: heap_delete_def rbind_eq_Inr)
    then show ?thesis using assms(1)
      by (auto simp: server_inv_def heap_inv_def dest: set_update_subset_insert [THEN subsetD])
  qed
  with r(3,5) assms(1) have "server_inv (s\<lparr>heap_g := h, registry := pl\<rparr>)" by (simp add: server_inv_def)
  moreover have "http_pagers_remove fuel net cw s = finish (response_ok fuel net
      (if ?dev \<in> set (pl_ids (registry s)) then ''removed'' else ''pager not found'') cw)
      (s\<lparr>heap_g := h, registry := pl\<rparr>)"
    using param_found [OF assms(2)] assms(3) r(1,2) by (simp add: http_pagers_remove_def Let_def)
  ultimately show ?thesis using r(4) by blast
qed

lemma remove_handler_total:
  assumes "server_inv s" "net_takes net txt" "0 < fuel"
    and "sm_find (request_params (fst cw)) ''id'' = Some i" "stoi i = Inr v"
  shows "\<exists>s'. answered txt 200 ''OK'' (if word_of_int v \<in> set (pl_ids (registry s)) then ''removed''
       else ''pager not found'') cw (http_pagers_remove fuel net cw s) s' \<and>
     server_inv s' \<and> set (pl_ids (registry s')) = set (pl_ids (registry s)) - {word_of_int v}"
proof -
  from remove_handler_value [OF assms(1,4,5), of fuel net] obtain h pl where
    "http_pagers_remove fuel net cw s = finish (response_ok fuel net
       (if word_of_int v \<in> set (pl_ids (registry s)) then ''removed'' else ''pager not found'') cw)
       (s\<lparr>heap_g := h, registry := pl\<rparr>)" "server_inv (s\<lparr>heap_g := h, registry := pl\<rparr>)"
    "set (pl_ids pl) = set (pl_ids (registry s)) - {word_of_int v}" by blast
  then show ?thesis using finish_answers(1) [OF assms(2,3) snd_buf_le]
    by (intro exI [of _ "s\<lparr>heap_g := h, registry := pl\<rparr>"]) simp
qed

section \<open>Properties\<close>

text \<open>C8. One round of the queue: from any state in order, \<open>send_messages\<close> returns (each wait for
  the transmitter ends within 1025 interrupts), no pointer it follows is null or freed, and
  what goes on the air, after what was still in flight, is exactly one sealed and encrypted
  frame per pager and kind of message it has copies of left, in id order, numbered
  consecutively; each copy sent is counted, and nothing else of the registry changes.\<close>

theorem send_messages_round:
  assumes "server_inv s" "frame_wf junk" "tx_pending ls (tx_g s)"
  shows "\<exists>acts s' ls'. send_messages 1025 junk s = Some (Inr (acts, s')) \<and> server_inv s' \<and>
     registry s' = registry s \<and> heap_g s' = map (map_option pager_sent) (heap_g s) \<and>
     sequence_number_g s' = sequence_number_g s + of_nat (length (round_messages s)) \<and>
     tx_pending ls' (tx_g s') \<and>
     tx_levels acts @ ls' =
       ls @ concat (map wire_levels (numbered (sequence_number_g s) (round_messages s)))"
proof -
  from send_messages_queues [OF assms(1,2)] obtain acts s' where
    s': "send_messages 1025 junk s = Some (Inr (acts, s'))"
    "queued (round_messages s) (map (map_option pager_sent) (heap_g s)) s acts s'" "server_inv s'" by blast
  from s'(2) assms(3) obtain ls' where "tx_pending ls' (tx_g s')"
    "tx_levels acts @ ls' =
       ls @ concat (map wire_levels (numbered (sequence_number_g s) (round_messages s)))"
    unfolding queued_def by force
  with s' queued_heap(1-3) [OF s'(2)] show ?thesis by blast
qed

definition sample_server :: server where
  "sample_server = server_init\<lparr>registry := (new_PagerList ''/pagers'')\<lparr>pagers := [(0x1215, 0)]\<rparr>,
     heap_g := [Some ((new_Pager 0x1215)\<lparr>flash_msgs_left := 5, flash_time := Some 30\<rparr>)]\<rparr>"

lemma sample_server_inv: "server_inv sample_server"
  by (simp add: sample_server_def server_inv_def server_init_def new_PagerList_def pl_inv_def sm_ok_def
      live_pager_def no_leak_def heap_inv_def crc_inv_init tx_inv_init pager_inv_def new_Pager_def)

lemma sample_frame: "frame_wf \<lparr>encrypted_data = replicate 32 (0 :: u8)\<rparr>"
  by (simp add: frame_wf_def proto_sizes)

theorem send_messages_round_witness:
  "\<exists>acts s' ls'. send_messages 1025 \<lparr>encrypted_data = replicate 32 0\<rparr> sample_server = Some (Inr (acts, s')) \<and>
     server_inv s' \<and> sequence_number_g s' = 1 \<and> tx_pending ls' (tx_g s') \<and>
     tx_levels acts @ ls' =
       wire_levels (proto_seal \<lparr>sequence_number = 1, receiver_id = 0x1215, message_type = 0xBBDD,
         message_param = 30, checksum = 0\<rparr>)"
proof -
  have tx: "tx_pending [] (tx_g sample_server)"
    using tx_pending_init by (simp add: sample_server_def server_init_def)
  from send_messages_round [OF sample_server_inv sample_frame tx] show ?thesis
    by (auto simp: round_messages_def pager_messages_def sample_server_def server_init_def
        new_PagerList_def new_Pager_def blank_message_def)
qed

text \<open>C26. A request to flash a registered pager is answered and obeyed: the response is on the wire,
  and over any number \<open>n\<close> of rounds after it, the air carries exactly \<open>min n 5\<close> FLASH messages
  for that pager, with the flash time of the request (modulo 65536) in its record.\<close>

theorem flash_request_sent_five_times:
  assumes "server_inv s" "net_takes net txt" "0 < fuel" "frame_wf junk" "tx_pending ls (tx_g s)"
    and "sm_find (request_params (fst cw)) ''id'' = Some i" "stoi i = Inr v"
    and "sm_find (request_params (fst cw)) ''time'' = Some t" "stoi t = Inr u"
    and "word_of_int v \<in> set (pl_ids (registry s))"
  shows "\<exists>s1 a p acts s2 ds ls'. answered txt 200 ''OK'' ''flashing the pager'' cw (http_pagers_flash fuel net cw s) s1 \<and>
     server_inv s1 \<and> get_pager (word_of_int v) (registry s1) = Some a \<and> heap_g s1 ! a = Some p \<and>
     flash_time p = Some (word_of_int u) \<and>
     send_rounds 1025 n junk s1 = Some (Inr (acts, s2)) \<and> tx_pending ls' (tx_g s2) \<and>
     tx_levels acts @ ls' = ls @ concat (map wire_levels (numbered (sequence_number_g s1) ds)) \<and>
     copies (word_of_int v) FLASH ds = min n 5"
proof -
  have "pager_exists (word_of_int v) (registry s)" using assms(10) by (simp add: pager_exists_iff)
  then obtain a where a: "get_pager (word_of_int v) (registry s) = Some a"
    by (auto simp: get_pager_find pager_exists_def)
  from server_pager [OF assms(1) a] obtain p where
    p: "a < length (heap_g s)" "heap_g s ! a = Some p" "pager_inv p" by blast
  let ?q = "p\<lparr>flash_msgs_left := 5, flash_time := Some (word_of_int u)\<rparr>"
  let ?s = "s\<lparr>heap_g := (heap_g s)[a := Some ?q]\<rparr>"
  have ans: "answered txt 200 ''OK'' ''flashing the pager'' cw (http_pagers_flash fuel net cw s) ?s"
    unfolding flash_handler_value [OF assms(1,6-9) a p(2)] by (rule finish_answers(1) [OF assms(2,3) snd_buf_le]) simp
  have inv: "server_inv ?s"
    by (rule server_inv_put [OF assms(1) p(1,2)]) (simp_all add: flashed_pager_inv p(3))
  from send_rounds_queues [OF inv assms(4), of n] obtain acts s2 h' where
    r: "send_rounds 1025 n junk ?s = Some (Inr (acts, s2))"
    "queued (rounds_messages n (pagers (registry ?s)) (heap_g ?s)) h' ?s acts s2" by blast
  from r(2) assms(5) obtain ls' where "tx_pending ls' (tx_g s2)" "tx_levels acts @ ls' = ls @ concat
      (map wire_levels (numbered (sequence_number_g ?s) (rounds_messages n (pagers (registry ?s)) (heap_g ?s))))"
    unfolding queued_def by force
  moreover have "copies (word_of_int v) FLASH (rounds_messages n (pagers (registry ?s)) (heap_g ?s)) = min n 5"
    using copies_rounds [of "heap_g ?s" "registry ?s" "word_of_int v" a ?q FLASH n] inv a p(1)
    by (simp add: server_inv_def left_for_def)
  ultimately show ?thesis using ans inv a p(1) r(1)
    by (intro exI [of _ ?s] exI [of _ a] exI [of _ ?q] exI [of _ acts] exI [of _ s2] exI conjI)
      (assumption | simp)+
qed

definition sample_request :: http_client where
  "sample_request = new_http_client\<lparr>request_params := [(''id'', ''4629''), (''time'', ''7'')]\<rparr>"

lemma sample_numbers: "stoi ''4629'' = Inr 4629" "stoi ''7'' = Inr 7" "stoi ''1'' = Inr 1"
  by code_simp+

theorem flash_request_sent_five_times_witness:
  "\<exists>s1 a p acts s2 ds ls'. answered id 200 ''OK'' ''flashing the pager'' (sample_request, [])
       (http_pagers_flash 1 log_net (sample_request, []) sample_server) s1 \<and>
     server_inv s1 \<and> get_pager 0x1215 (registry s1) = Some a \<and> heap_g s1 ! a = Some p \<and>
     flash_time p = Some 7 \<and>
     send_rounds 1025 8 \<lparr>encrypted_data = replicate 32 0\<rparr> s1 = Some (Inr (acts, s2)) \<and>
     tx_pending ls' (tx_g s2) \<and>
     tx_levels acts @ ls' = [] @ concat (map wire_levels (numbered (sequence_number_g s1) ds)) \<and>
     copies 0x1215 FLASH ds = 5"
proof -
  have tx: "tx_pending [] (tx_g sample_server)"
    using tx_pending_init by (simp add: sample_server_def server_init_def)
  have "sm_find (request_params (fst (sample_request, []))) ''id'' = Some ''4629''"
    "sm_find (request_params (fst (sample_request, []))) ''time'' = Some ''7''"
    by (simp_all add: sample_request_def new_http_client_def)
  from flash_request_sent_five_times [OF sample_server_inv log_net_takes _ sample_frame tx this(1)
      sample_numbers(1) this(2) sample_numbers(2), of 1 8]
  show ?thesis by (simp add: sample_server_def pl_ids_def)
qed

text \<open>A request to flash a pager that is not registered takes the server down: \<open>get_pager\<close>
  returns null, and \<open>http_pagers_flash\<close> writes through it.\<close>

theorem flash_unknown_pager_faults:
  assumes "sm_find (request_params (fst cw)) ''id'' = Some i" "stoi i = Inr v"
    and "sm_find (request_params (fst cw)) ''time'' = Some t"
    and "word_of_int v \<notin> set (pl_ids (registry s))"
  shows "http_pagers_flash fuel net cw s = Some (Inl NullPointer)"
proof -
  have "get_pager (word_of_int v) (registry s) = None"
    using assms(4) by (simp add: get_pager_def pager_exists_iff)
  with param_found [OF assms(1)] param_found [OF assms(3)] assms(2) show ?thesis
    by (simp add: http_pagers_flash_def Let_def heap_update_def heap_get_def)
qed

theorem flash_unknown_pager_faults_witness:
  "http_pagers_flash 1 log_net (sample_request\<lparr>request_params := [(''id'', ''1''), (''time'', ''7'')]\<rparr>, [])
     sample_server = Some (Inl NullPointer)"
  by (rule flash_unknown_pager_faults [OF _ sample_numbers(3)])
    (simp_all add: sample_request_def new_http_client_def sample_server_def pl_ids_def)

text \<open>Pairing and removing on every branch: without an id the answer is 400 and nothing
  changes; an id that is not a number is an exception nobody catches; otherwise pairing
  registers the id (modulo 65536) if it is new and gives its pager five PAIR copies, removing
  frees and forgets it or reports that it is unknown, and the invariant holds after both.\<close>

theorem pair_and_remove_handlers:
  assumes "server_inv s" "net_takes net txt" "0 < fuel"
  shows "case sm_find (request_params (fst cw)) ''id'' of
     None \<Rightarrow> answered txt 400 ''Bad Request'' ''no pager id given'' cw (http_pagers_pair fuel net cw s) s \<and>
       answered txt 400 ''Bad Request'' ''no pager id given'' cw (http_pagers_remove fuel net cw s) s
   | Some i \<Rightarrow> (case stoi i of
       Inl e \<Rightarrow> http_pagers_pair fuel net cw s = Some (Inl e) \<and> http_pagers_remove fuel net cw s = Some (Inl e)
     | Inr v \<Rightarrow>
        (\<exists>s' a p. answered txt 200 ''OK'' ''started pairing...'' cw (http_pagers_pair fuel net cw s) s' \<and>
           server_inv s' \<and> set (pl_ids (registry s')) = insert (word_of_int v) (set (pl_ids (registry s))) \<and>
           get_pager (word_of_int v) (registry s') = Some a \<and> heap_g s' ! a = Some p \<and> pair_msgs_left p = 5) \<and>
        (\<exists>s'. answered txt 200 ''OK'' (if word_of_int v \<in> set (pl_ids (registry s)) then ''removed''
             else ''pager not found'') cw (http_pagers_remove fuel net cw s) s' \<and>
           server_inv s' \<and> set (pl_ids (registry s')) = set (pl_ids (registry s)) - {word_of_int v}))"
proof (cases "sm_find (request_params (fst cw)) ''id''")
  case None
  with handlers_without_id(1) [OF assms(2,3) None] show ?thesis by simp
next
  case (Some i)
  show ?thesis
  proof (cases "stoi i")
    case (Inl e)
    with handlers_without_id(2) [OF assms(2,3) Some Inl] Some show ?thesis by simp
  next
    case (Inr v)
    with pair_handler_total [OF assms Some Inr] remove_handler_total [OF assms Some Inr] Some
    show ?thesis by (simp only: option.case sum.case)
  qed
qed

theorem pair_and_remove_handlers_witness:
  "\<exists>s' a p. answered id 200 ''OK'' ''started pairing...'' (sample_request, [])
       (http_pagers_pair 1 log_net (sample_request, []) server_init) s' \<and>
     server_inv s' \<and> set (pl_ids (registry s')) = {0x1215} \<and>
     get_pager 0x1215 (registry s') = Some a \<and> heap_g s' ! a = Some p \<and> pair_msgs_left p = 5"
  using pair_and_remove_handlers [OF server_inv_init log_net_takes, of 1 "(sample_request, [])"]
  by (simp add: sample_request_def new_http_client_def sample_numbers server_init_def new_PagerList_def
      pl_ids_def)

end
