(* ===== verification/Client_Main.thy ===== *)
theory Client_Main
  imports Protocol Radio_Link "HOL-Library.Sublist"
begin

text \<open>
  \<open>src/pagers-client/main.cpp\<close>: the pager. Its globals are the record \<open>client\<close>; a GPIO output,
  a delay or the report of a frame of the wrong size is a \<open>client_action\<close>. The body of
  \<open>while (1)\<close> is four phases (button, frame, pairing LED, flashing LED), each a function
  of the globals and of what the phase reads from the hardware (pin level, clock).

  The receiver interrupts between any two phases, and calls \<open>frame_received\<close> when it has a
  frame: \<open>client_step\<close> is the machine of the program counter, the globals and the receiver,
  \<open>client_run\<close> its runs. (Inside the frame phase \<open>frame_present\<close> is set, so an interrupt there
  leaves the globals alone: the phase is atomic.)

  The lemmas give the phases' behaviour on every branch and the invariant of all runs. The
  log lines on the USB port carry no state and are left out, except the dump of a frame of the
  wrong size, which reads the receiver's buffer.
\<close>

section \<open>Globals and outputs\<close>

definition BUTTON :: nat where "BUTTON = 10"
definition LED_RED :: nat where "LED_RED = 15"
definition LED_YELLOW :: nat where "LED_YELLOW = 14"
definition LED_GREEN :: nat where "LED_GREEN = 13"

lemmas pin_defs = BUTTON_def LED_RED_def LED_YELLOW_def LED_GREEN_def

datatype client_action =
    GpioPut nat bool
  | SleepMs nat
  | WrongSize u32 "u8 list"

record client =
  frame_present :: bool
  frame_c :: proto_frame
  previous_button_state :: bool
  is_pairing_mode :: bool
  device_id_c :: u16
  flash_time_left :: int
  data_c :: proto_data
  last_flash :: u64
  flash_led_state :: bool
  last_pair_flash :: u64
  pair_led_state :: bool
  crc_c :: crc_state

text \<open>The globals as the loader sets them.\<close>

definition client_globals :: client where
  "client_globals =
     \<lparr>frame_present = False, frame_c = \<lparr>encrypted_data = replicate PROTO_FRAME_SIZE 0\<rparr>,
      previous_button_state = True, is_pairing_mode = False, device_id_c = 0x1215,
      flash_time_left = 0, data_c = proto_of_bytes (replicate PROTO_DATA_SIZE 0),
      last_flash = 0, flash_led_state = False, last_pair_flash = 0, pair_led_state = False,
      crc_c = crc_init\<rparr>"

section \<open>The receiver's callback\<close>

definition frame_received :: "u8 list \<Rightarrow> u32 \<Rightarrow> client \<Rightarrow> (client_action list \<times> client) result" where
  "frame_received buf bytes c =
     (if \<not> frame_present c then
        if bytes \<noteq> of_nat PROTO_FRAME_SIZE then
          rbind (for_loop (unat bytes) (\<lambda>i out. rbind (arr_get buf i) (\<lambda>b. Inr (out @ [b]))) [])
            (\<lambda>out. Inr ([WrongSize bytes out], c))
        else
          rbind (blit (encrypted_data (frame_c c)) 0 buf PROTO_FRAME_SIZE) (\<lambda>bs.
            Inr ([], c\<lparr>frame_c := \<lparr>encrypted_data = bs\<rparr>, frame_present := True\<rparr>))
      else Inr ([], c))"

section \<open>The phases of the main loop\<close>

definition client_boot :: "client \<Rightarrow> rx_state \<Rightarrow> client_action list \<times> client \<times> rx_state" where
  "client_boot c rx =
     ([GpioPut LED_RED True, GpioPut LED_YELLOW True, GpioPut LED_GREEN True, SleepMs 500,
       GpioPut LED_RED False, GpioPut LED_YELLOW False, GpioPut LED_GREEN False, SleepMs 1500],
      c\<lparr>frame_present := False\<rparr>, rx_set_callback True rx)"

definition client_button :: "bool \<Rightarrow> client \<Rightarrow> client_action list \<times> client" where
  "client_button level c =
     (if level then
        if \<not> previous_button_state c then
          let c1 = c\<lparr>previous_button_state := True, is_pairing_mode := \<not> is_pairing_mode c\<rparr>
          in ((if \<not> is_pairing_mode c1 then [GpioPut LED_YELLOW False] else []) @ [SleepMs 50], c1)
        else ([], c)
      else ([], c\<lparr>previous_button_state := False\<rparr>))"

text \<open>What the message \<open>data\<close> makes the pager do, once it is decrypted.\<close>

definition handle_pair :: "client \<Rightarrow> client_action list \<times> client" where
  "handle_pair c =
     (if message_type (data_c c) = message_code PAIR \<and> is_pairing_mode c
      then ([GpioPut LED_YELLOW False],
            c\<lparr>is_pairing_mode := False, device_id_c := receiver_id (data_c c)\<rparr>)
      else ([], c))"

definition handle_flash :: "client \<Rightarrow> client_action list \<times> client" where
  "handle_flash c =
     (if receiver_id (data_c c) = device_id_c c \<and> message_type (data_c c) = message_code FLASH
      then (let c1 = c\<lparr>flash_time_left := uint (message_param (data_c c))\<rparr>
            in (if flash_time_left c1 = 0 then [GpioPut LED_YELLOW False] else [], c1))
      else ([], c))"

definition client_frame :: "client \<Rightarrow> (client_action list \<times> client) result" where
  "client_frame c =
     (if \<not> frame_present c then Inr ([], c)
      else
        rbind (proto_decrypt (frame_c c) (data_c c)) (\<lambda>(_, d).
        rbind (proto_checksum_verify (crc_c c) d) (\<lambda>(checksum_verify, crc').
          let c1 = c\<lparr>data_c := d, crc_c := crc'\<rparr>;
              led = (if checksum_verify = SUCCESS then LED_GREEN else LED_RED);
              (acts2, c2) = handle_pair c1;
              (acts3, c3) = handle_flash c2
          in Inr ([GpioPut led True, SleepMs 50, GpioPut led False] @ acts2 @ acts3,
                  c3\<lparr>frame_present := False\<rparr>))))"

text \<open>The two LED timers; the clock is read once for the test and once for the new time.\<close>

definition client_pair_flash :: "u64 \<Rightarrow> u64 \<Rightarrow> client \<Rightarrow> client_action list \<times> client" where
  "client_pair_flash now now' c =
     (if is_pairing_mode c \<and> now - last_pair_flash c > 100000 then
        let c1 = c\<lparr>last_pair_flash := now', pair_led_state := \<not> pair_led_state c\<rparr>
        in ([GpioPut LED_YELLOW (pair_led_state c1)], c1)
      else ([], c))"

definition client_flash :: "u64 \<Rightarrow> u64 \<Rightarrow> client \<Rightarrow> client_action list \<times> client" where
  "client_flash now now' c =
     (if flash_time_left c > 0 \<and> now - last_flash c > 500000 then
        let c1 = c\<lparr>last_flash := now', flash_led_state := \<not> flash_led_state c\<rparr>;
            toggle = [GpioPut LED_YELLOW (flash_led_state c1)]
        in if flash_led_state c1
           then (let c2 = c1\<lparr>flash_time_left := flash_time_left c1 - 1\<rparr>
                 in (toggle @ (if flash_time_left c2 = 0 then [GpioPut LED_YELLOW False] else []), c2))
           else (toggle, c1)
      else ([], c))"

section \<open>The machine\<close>

datatype client_pc = AtButton | AtFrame | AtPairFlash | AtFlash

datatype client_event =
    Edge u32 u64
  | Button bool
  | Frame
  | PairFlash u64 u64
  | Flash u64 u64

record client_machine =
  pc :: client_pc
  cl :: client
  rx :: rx_state

inductive client_step ::
    "client_machine \<Rightarrow> client_event \<Rightarrow> client_action list \<Rightarrow> client_machine \<Rightarrow> bool" where
  edge: "rx_fall_callback cnt now (rx m) = Inr (None, r) \<Longrightarrow>
    client_step m (Edge cnt now) [] (m\<lparr>rx := r\<rparr>)"
| edge_frame: "rx_fall_callback cnt now (rx m) = Inr (Some (buf, n), r) \<Longrightarrow>
    frame_received buf n (cl m) = Inr (acts, c) \<Longrightarrow>
    client_step m (Edge cnt now) acts (m\<lparr>rx := r, cl := c\<rparr>)"
| button: "pc m = AtButton \<Longrightarrow> client_button level (cl m) = (acts, c) \<Longrightarrow>
    client_step m (Button level) acts (m\<lparr>pc := AtFrame, cl := c\<rparr>)"
| frame: "pc m = AtFrame \<Longrightarrow> client_frame (cl m) = Inr (acts, c) \<Longrightarrow>
    client_step m Frame acts (m\<lparr>pc := AtPairFlash, cl := c\<rparr>)"
| pair_flash: "pc m = AtPairFlash \<Longrightarrow> client_pair_flash now now' (cl m) = (acts, c) \<Longrightarrow>
    client_step m (PairFlash now now') acts (m\<lparr>pc := AtFlash, cl := c\<rparr>)"
| flash: "pc m = AtFlash \<Longrightarrow> client_flash now now' (cl m) = (acts, c) \<Longrightarrow>
    client_step m (Flash now now') acts (m\<lparr>pc := AtButton, cl := c\<rparr>)"

inductive_cases client_step_cases: "client_step m e acts m'"
inductive_simps client_step_edge: "client_step m (Edge cnt now) acts m'"

inductive client_run ::
    "client_machine \<Rightarrow> (client_event \<times> client_action list) list \<Rightarrow> client_machine \<Rightarrow> bool" where
  start: "client_run m [] m"
| step: "client_run m tr m' \<Longrightarrow> client_step m' e acts m'' \<Longrightarrow> client_run m (tr @ [(e, acts)]) m''"

definition client_start :: client_machine where
  "client_start =
     (let (_, c, r) = client_boot client_globals rx_init in \<lparr>pc = AtButton, cl = c, rx = r\<rparr>)"

section \<open>The invariant\<close>

definition client_inv :: "client \<Rightarrow> bool" where
  "client_inv c \<longleftrightarrow> frame_wf (frame_c c) \<and> crc_inv (crc_c c) \<and>
     0 \<le> flash_time_left c \<and> flash_time_left c < 65536"

definition machine_inv :: "client_machine \<Rightarrow> bool" where
  "machine_inv m \<longleftrightarrow> client_inv (cl m) \<and> rx_inv (rx m) \<and> rx_cb_set (rx m)"

lemma client_inv_fields [simp]:
  "client_inv (c\<lparr>frame_present := b\<rparr>) = client_inv c"
  "client_inv (c\<lparr>previous_button_state := b\<rparr>) = client_inv c"
  "client_inv (c\<lparr>is_pairing_mode := b\<rparr>) = client_inv c"
  "client_inv (c\<lparr>device_id_c := i\<rparr>) = client_inv c"
  "client_inv (c\<lparr>data_c := d\<rparr>) = client_inv c"
  "client_inv (c\<lparr>last_flash := t\<rparr>) = client_inv c"
  "client_inv (c\<lparr>flash_led_state := b\<rparr>) = client_inv c"
  "client_inv (c\<lparr>last_pair_flash := t\<rparr>) = client_inv c"
  "client_inv (c\<lparr>pair_led_state := b\<rparr>) = client_inv c"
  by (simp_all add: client_inv_def)

lemma client_inv_start: "machine_inv client_start"
  by (simp add: machine_inv_def client_start_def client_boot_def client_inv_def client_globals_def
      frame_wf_def crc_inv_init rx_inv_def rx_set_callback_def rx_init_def BYTE_BUFFER_SIZE_def)

lemma collect_bytes:
  "n \<le> length buf \<Longrightarrow>
     for_loop n (\<lambda>i out. rbind (arr_get buf i) (\<lambda>b. Inr (out @ [b]))) [] = Inr (take n buf)"
proof -
  assume "n \<le> length buf"
  then have "\<exists>s. for_loop n (\<lambda>i out. rbind (arr_get buf i) (\<lambda>b. Inr (out @ [b]))) [] = Inr s \<and> s = take n buf"
    by (intro for_loop_invariant [of "\<lambda>i s. s = take i buf"])
      (auto simp: fault_simps take_Suc_conv_app_nth)
  then show ?thesis by simp
qed

lemma frame_received_cases:
  assumes "client_inv c" "unat n \<le> length buf"
  shows "frame_received buf n c = Inr
     (if frame_present c then ([], c)
      else if unat n = PROTO_FRAME_SIZE
      then ([], c\<lparr>frame_c := \<lparr>encrypted_data = take PROTO_FRAME_SIZE buf\<rparr>, frame_present := True\<rparr>)
      else ([WrongSize n (take (unat n) buf)], c))"
proof -
  have "n = of_nat PROTO_FRAME_SIZE \<longleftrightarrow> unat n = PROTO_FRAME_SIZE"
    by (auto simp: proto_sizes word_unat_eq_iff)
  then show ?thesis
    using assms by (auto simp: frame_received_def collect_bytes blit_def client_inv_def frame_wf_def)
qed

lemma frame_received_inv:
  assumes "client_inv c" "unat n \<le> length buf"
  shows "\<exists>acts c'. frame_received buf n c = Inr (acts, c') \<and> client_inv c'"
  using assms by (auto simp: frame_received_cases client_inv_def frame_wf_def proto_sizes)

section \<open>The frame phase\<close>

text \<open>The message a frame decrypts to.\<close>

definition frame_message :: "proto_frame \<Rightarrow> proto_data" where
  "frame_message f =
     proto_of_bytes (bytes_of 2 (map rsa_decrypt (words_of 4 8 (encrypted_data f))))"

lemma decrypt_frame_message: "frame_wf f \<Longrightarrow> proto_decrypt f junk = Inr (SUCCESS, frame_message f)"
  unfolding frame_message_def
  by (rule proto_decrypt_blocks) (simp_all add: frame_wf_def proto_sizes bytes_of_words_of)

lemma frame_message_sealed:
  "frame_wf f \<Longrightarrow> encrypted_data f = bytes_of 4 (proto_blocks d) \<Longrightarrow> frame_message f = d"
  using decrypt_frame_message [of f d] proto_decrypt_own_blocks [of f d d] by simp

lemma message_codes_differ [simp]:
  "message_code PAIR \<noteq> message_code FLASH" "message_code FLASH \<noteq> message_code PAIR"
  by simp_all

lemma client_frame_value:
  assumes "client_inv c" "frame_present c"
  shows "client_frame c =
     (let d = frame_message (frame_c c);
          (acts2, c2) = handle_pair (c\<lparr>data_c := d, crc_c := crc_ready (crc_c c)\<rparr>);
          (acts3, c3) = handle_flash c2;
          led = (if checksum d = proto_crc d then LED_GREEN else LED_RED)
      in Inr ([GpioPut led True, SleepMs 50, GpioPut led False] @ acts2 @ acts3,
              c3\<lparr>frame_present := False\<rparr>))"
  using assms
  by (simp add: client_frame_def client_inv_def decrypt_frame_message checksum_verify_value Let_def
      SUCCESS_def ERR_WRONG_CHECKSUM_def)

lemma client_frame_effect_raw:
  assumes "client_inv c" "frame_present c" "d = frame_message (frame_c c)"
  shows "\<exists>acts c'. client_frame c = Inr
       ([GpioPut (if checksum d = proto_crc d then LED_GREEN else LED_RED) True, SleepMs 50,
         GpioPut (if checksum d = proto_crc d then LED_GREEN else LED_RED) False] @ acts, c') \<and>
     set acts \<subseteq> {GpioPut LED_YELLOW False} \<and> client_inv c' \<and>
     c' = c\<lparr>frame_present := False, data_c := d, crc_c := crc_ready (crc_c c),
       device_id_c := (if message_type d = message_code PAIR \<and> is_pairing_mode c
                       then receiver_id d else device_id_c c),
       is_pairing_mode := is_pairing_mode c \<and> message_type d \<noteq> message_code PAIR,
       flash_time_left := (if message_type d = message_code FLASH \<and> receiver_id d = device_id_c c
                           then uint (message_param d) else flash_time_left c)\<rparr>"
proof -
  have "uint (message_param d) < 65536" using unsigned_less [of "message_param d", where 'a = int] by simp
  with assms(1) show ?thesis
    by (auto simp: client_frame_value [OF assms(1,2)] assms(3) [symmetric] handle_pair_def
        handle_flash_def Let_def client_inv_def crc_inv_ready)
qed

lemma client_frame_idle: "\<not> frame_present c \<Longrightarrow> client_frame c = Inr ([], c)"
  by (simp add: client_frame_def)

lemma client_frame_total:
  assumes "client_inv c"
  shows "\<exists>acts c'. client_frame c = Inr (acts, c') \<and> client_inv c'"
proof (cases "frame_present c")
  case True
  from client_frame_effect_raw [OF assms True refl] show ?thesis by blast
qed (use assms client_frame_idle in auto)

lemma client_button_inv: "client_inv c \<Longrightarrow> client_inv (snd (client_button b c))"
  by (simp add: client_button_def Let_def)

lemma client_pair_flash_inv: "client_inv c \<Longrightarrow> client_inv (snd (client_pair_flash t t' c))"
  by (simp add: client_pair_flash_def Let_def)

lemma client_flash_inv: "client_inv c \<Longrightarrow> client_inv (snd (client_flash t t' c))"
  by (auto simp: client_flash_def Let_def client_inv_def)

section \<open>All runs\<close>

definition enabled :: "client_machine \<Rightarrow> client_event \<Rightarrow> bool" where
  "enabled m e \<longleftrightarrow> (case e of
       Edge _ _ \<Rightarrow> True
     | Button _ \<Rightarrow> pc m = AtButton
     | Frame \<Rightarrow> pc m = AtFrame
     | PairFlash _ _ \<Rightarrow> pc m = AtPairFlash
     | Flash _ _ \<Rightarrow> pc m = AtFlash)"

lemma client_step_total:
  assumes inv: "machine_inv m" and en: "enabled m e"
  shows "\<exists>acts m'. client_step m e acts m'"
proof (cases e)
  case (Edge cnt now)
  from inv rx_step_any [of "rx m" cnt now] obtain out r where
    r: "rx_fall_callback cnt now (rx m) = Inr (out, r)"
      "\<And>buf n. out = Some (buf, n) \<Longrightarrow> length buf = BYTE_BUFFER_SIZE \<and> unat n < BYTE_BUFFER_SIZE"
    by (auto simp: machine_inv_def)
  show ?thesis
  proof (cases out)
    case None
    with r Edge show ?thesis by (auto intro: client_step.edge)
  next
    case (Some f)
    obtain buf n where f: "f = (buf, n)" by fastforce
    with r(2) Some have "unat n \<le> length buf" by simp
    with frame_received_inv [of "cl m" n buf] inv obtain acts c where
      "frame_received buf n (cl m) = Inr (acts, c)" by (auto simp: machine_inv_def)
    with r(1) Some f Edge show ?thesis by (auto intro: client_step.edge_frame)
  qed
next
  case Frame
  with inv en client_frame_total [of "cl m"] show ?thesis
    by (auto simp: machine_inv_def enabled_def intro: client_step.frame)
next
  case (Button b)
  with en show ?thesis
    by (cases "client_button b (cl m)") (auto simp: enabled_def intro: client_step.button)
next
  case (PairFlash t t')
  with en show ?thesis
    by (cases "client_pair_flash t t' (cl m)") (auto simp: enabled_def intro: client_step.pair_flash)
next
  case (Flash t t')
  with en show ?thesis
    by (cases "client_flash t t' (cl m)") (auto simp: enabled_def intro: client_step.flash)
qed

lemma client_step_inv:
  assumes "client_step m e acts m'" "machine_inv m"
  shows "machine_inv m'"
  using assms
proof (cases rule: client_step.cases)
  case (edge cnt now r)
  with assms(2) rx_step_any [of "rx m" cnt now] show ?thesis by (auto simp: machine_inv_def)
next
  case (edge_frame cnt now buf n r c)
  with assms(2) rx_step_any [of "rx m" cnt now]
  have r: "rx_inv r" "rx_cb_set r" "unat n \<le> length buf" by (auto simp: machine_inv_def)
  with frame_received_inv [of "cl m" n buf] assms(2) edge_frame show ?thesis
    by (auto simp: machine_inv_def)
next
  case (button level c)
  with assms(2) client_button_inv [of "cl m" level] show ?thesis by (simp add: machine_inv_def)
next
  case (frame c)
  with assms(2) client_frame_total [of "cl m"] show ?thesis by (auto simp: machine_inv_def)
next
  case (pair_flash now now' c)
  with assms(2) client_pair_flash_inv [of "cl m" now now'] show ?thesis by (simp add: machine_inv_def)
next
  case (flash now now' c)
  with assms(2) client_flash_inv [of "cl m" now now'] show ?thesis by (simp add: machine_inv_def)
qed

lemma client_run_inv: "client_run m tr m' \<Longrightarrow> machine_inv m \<Longrightarrow> machine_inv m'"
  by (induction rule: client_run.induct) (auto intro: client_step_inv)

section \<open>Who can change the device id\<close>

lemma frame_received_keeps:
  assumes "frame_received buf n c = Inr (acts, c')"
  shows "device_id_c c' = device_id_c c" "is_pairing_mode c' = is_pairing_mode c"
    "previous_button_state c' = previous_button_state c"
  using assms by (auto simp: frame_received_def rbind_eq_Inr split: if_splits)

lemma client_frame_keeps:
  assumes "client_inv c" "client_frame c = Inr (acts, c')"
  shows "previous_button_state c' = previous_button_state c"
    "is_pairing_mode c' \<longrightarrow> is_pairing_mode c" "device_id_c c' \<noteq> device_id_c c \<longrightarrow> is_pairing_mode c"
proof -
  show "previous_button_state c' = previous_button_state c"
    "is_pairing_mode c' \<longrightarrow> is_pairing_mode c" "device_id_c c' \<noteq> device_id_c c \<longrightarrow> is_pairing_mode c"
    using assms client_frame_effect_raw [OF assms(1) _ refl] client_frame_idle [of c]
    by (cases "frame_present c"; fastforce)+
qed

lemma led_timers_keep:
  "device_id_c (snd (client_pair_flash t t' c)) = device_id_c c"
  "is_pairing_mode (snd (client_pair_flash t t' c)) = is_pairing_mode c"
  "previous_button_state (snd (client_pair_flash t t' c)) = previous_button_state c"
  "device_id_c (snd (client_flash t t' c)) = device_id_c c"
  "is_pairing_mode (snd (client_flash t t' c)) = is_pairing_mode c"
  "previous_button_state (snd (client_flash t t' c)) = previous_button_state c"
  by (simp_all add: client_pair_flash_def client_flash_def Let_def)

lemma button_keeps:
  "device_id_c (snd (client_button b c)) = device_id_c c"
  "is_pairing_mode (snd (client_button b c)) =
     (if b \<and> \<not> previous_button_state c then \<not> is_pairing_mode c else is_pairing_mode c)"
  "previous_button_state (snd (client_button b c)) = b"
  by (auto simp: client_button_def Let_def)

lemmas phase_keeps = frame_received_keeps client_frame_keeps led_timers_keep button_keeps

text \<open>The button events a run needs before it can be in pairing mode, from globals \<open>c\<close>.\<close>

definition press :: "client \<Rightarrow> client_event list" where
  "press c = (if previous_button_state c then [Button False] else [])"

definition pairing_trace :: "client \<Rightarrow> client_event list \<Rightarrow> client \<Rightarrow> bool" where
  "pairing_trace c0 evs c \<longleftrightarrow>
     (\<not> previous_button_state c \<longrightarrow> subseq (press c0) evs) \<and>
     (is_pairing_mode c \<longrightarrow> subseq (press c0 @ [Button True]) evs) \<and>
     (device_id_c c \<noteq> device_id_c c0 \<longrightarrow> subseq (press c0 @ [Button True, Frame]) evs)"

lemma pairing_trace_start: "\<not> is_pairing_mode c \<Longrightarrow> pairing_trace c [] c"
  by (simp add: pairing_trace_def press_def)

lemma subseq_snoc: "subseq xs ys \<Longrightarrow> subseq xs (ys @ [y])" "subseq xs ys \<Longrightarrow> subseq (xs @ [y]) (ys @ [y])"
  by (auto intro: subseq_order.trans list_emb_append_mono)

lemma subseq_front: "subseq (xs @ [y]) ys \<Longrightarrow> subseq xs ys"
  by (metis list_emb_append_mono subseq_order.trans subseq_rev_drop_many subseq_order.refl)

lemma pairing_trace_same:
  assumes "pairing_trace c0 evs c" "device_id_c c' = device_id_c c"
    "is_pairing_mode c' \<longrightarrow> is_pairing_mode c" "previous_button_state c' = previous_button_state c"
  shows "pairing_trace c0 (evs @ [e]) c'"
  using assms by (simp add: pairing_trace_def subseq_snoc(1))

lemma pairing_trace_button:
  assumes "pairing_trace c0 evs c"
  shows "pairing_trace c0 (evs @ [Button b]) (snd (client_button b c))"
proof (cases b)
  case False
  with assms have "subseq (press c0) (evs @ [Button b])"
    using subseq_snoc(2) [of "[]" evs "Button False"] by (simp add: press_def)
  with assms False show ?thesis
    by (simp add: pairing_trace_def button_keeps subseq_snoc(1))
next
  case True
  show ?thesis
  proof (cases "previous_button_state c")
    case False
    with assms have "subseq (press c0 @ [Button True]) (evs @ [Button True])"
      by (intro subseq_snoc(2)) (simp add: pairing_trace_def)
    with assms True show ?thesis by (simp add: pairing_trace_def button_keeps subseq_snoc(1))
  next
    case high: True
    with assms have "is_pairing_mode c \<longrightarrow> subseq (press c0) evs"
      by (auto simp: pairing_trace_def dest: subseq_front)
    with assms True high show ?thesis by (simp add: pairing_trace_def button_keeps subseq_snoc(1))
  qed
qed

lemma pairing_trace_frame:
  assumes "pairing_trace c0 evs c" "client_inv c" "client_frame c = Inr (acts, c')"
  shows "pairing_trace c0 (evs @ [Frame]) c'"
proof (cases "device_id_c c' = device_id_c c")
  case True
  then show ?thesis
    using pairing_trace_same [OF assms(1)] client_frame_keeps [OF assms(2,3)] by blast
next
  case False
  with client_frame_keeps [OF assms(2,3)] have pm: "is_pairing_mode c" by blast
  with assms(1) have "subseq (press c0 @ [Button True]) evs" by (simp add: pairing_trace_def)
  from subseq_snoc(2) [OF this, of Frame] assms(1) pm client_frame_keeps [OF assms(2,3)]
  show ?thesis by (simp add: pairing_trace_def subseq_snoc(1))
qed

lemma pairing_trace_step:
  assumes "client_step m e acts m'" "machine_inv m" "pairing_trace c0 evs (cl m)"
  shows "pairing_trace c0 (evs @ [e]) (cl m')"
  using assms(1)
proof (cases rule: client_step.cases)
  case (edge cnt now r)
  then show ?thesis using pairing_trace_same [OF assms(3)] by simp
next
  case (edge_frame cnt now buf n r c)
  then show ?thesis using pairing_trace_same [OF assms(3)] frame_received_keeps [OF edge_frame(4)] by simp
next
  case (button level c)
  then show ?thesis using pairing_trace_button [OF assms(3), of level] by simp
next
  case (frame c)
  then show ?thesis
    using pairing_trace_frame [OF assms(3) _ frame(4)] assms(2) by (simp add: machine_inv_def)
next
  case (pair_flash now now' c)
  then show ?thesis
    using pairing_trace_same [OF assms(3), of c] led_timers_keep(1-3) [of now now' "cl m"] by simp
next
  case (flash now now' c)
  then show ?thesis
    using pairing_trace_same [OF assms(3), of c] led_timers_keep(4-6) [of now now' "cl m"] by simp
qed

lemma pairing_trace_run:
  "client_run m tr m' \<Longrightarrow> machine_inv m \<Longrightarrow> \<not> is_pairing_mode (cl m) \<Longrightarrow>
     pairing_trace (cl m) (map fst tr) (cl m')"
proof (induction rule: client_run.induct)
  case (start m)
  then show ?case by (simp add: pairing_trace_start)
next
  case (step m tr m' e acts m'')
  then show ?case using pairing_trace_step client_run_inv by fastforce
qed

section \<open>The LED timer and the button over time\<close>

fun flash_run :: "(u64 \<times> u64) list \<Rightarrow> client \<Rightarrow> client_action list \<times> client" where
  "flash_run [] c = ([], c)"
| "flash_run ((now, now') # ts) c =
     (let (acts, c1) = client_flash now now' c; (acts', c2) = flash_run ts c1 in (acts @ acts', c2))"

text \<open>Every reading is more than half a second after the previous toggle.\<close>

fun all_due :: "(u64 \<times> u64) list \<Rightarrow> u64 \<Rightarrow> bool" where
  "all_due [] t = True"
| "all_due ((now, now') # ts) t \<longleftrightarrow> now - t > 500000 \<and> all_due ts now'"

definition toggles_left :: "client \<Rightarrow> nat" where
  "toggles_left c = (if flash_led_state c then 2 * nat (flash_time_left c) else 2 * nat (flash_time_left c) - 1)"

lemma flash_run_ends:
  assumes "0 < flash_time_left c" "all_due ts (last_flash c)" "length ts = toggles_left c"
    and "flash_run ts c = (acts, c')"
  shows "flash_time_left c' = 0 \<and> acts \<noteq> [] \<and> last acts = GpioPut LED_YELLOW False \<and>
     length (filter (\<lambda>a. a = GpioPut LED_YELLOW True) acts) = nat (flash_time_left c)"
  using assms
proof (induction ts arbitrary: c acts)
  case Nil
  then show ?case by (simp add: toggles_left_def split: if_splits)
next
  case (Cons t ts)
  obtain now now' where t: "t = (now, now')" by fastforce
  obtain acts1 c1 where c1: "client_flash now now' c = (acts1, c1)" by fastforce
  obtain acts2 where r: "flash_run ts c1 = (acts2, c')" and acts: "acts = acts1 @ acts2"
    using Cons.prems(4) by (auto simp: t c1 Let_def split: prod.splits)
  have due: "now - last_flash c > 500000" "all_due ts now'" using Cons.prems(2) by (simp_all add: t)
  show ?case
  proof (cases "flash_led_state c")
    case True
    then have c1': "c1 = c\<lparr>last_flash := now', flash_led_state := False\<rparr>"
      "acts1 = [GpioPut LED_YELLOW False]"
      using c1 due(1) Cons.prems(1) by (auto simp: client_flash_def Let_def)
    have "flash_time_left c' = 0 \<and> acts2 \<noteq> [] \<and> last acts2 = GpioPut LED_YELLOW False \<and>
        length (filter (\<lambda>a. a = GpioPut LED_YELLOW True) acts2) = nat (flash_time_left c1)"
      by (rule Cons.IH [OF _ _ _ r])
        (use Cons.prems due True in \<open>auto simp: c1' toggles_left_def\<close>)
    then show ?thesis by (simp add: acts c1')
  next
    case False
    then have c1': "c1 = c\<lparr>last_flash := now', flash_led_state := True,
        flash_time_left := flash_time_left c - 1\<rparr>"
      "acts1 = GpioPut LED_YELLOW True # (if flash_time_left c = 1 then [GpioPut LED_YELLOW False] else [])"
      using c1 due(1) Cons.prems(1) by (auto simp: client_flash_def Let_def)
    show ?thesis
    proof (cases "flash_time_left c = 1")
      case True
      with Cons.prems(3) False have "ts = []" by (simp add: toggles_left_def)
      with r True show ?thesis by (auto simp: acts c1')
    next
      case more: False
      have "flash_time_left c' = 0 \<and> acts2 \<noteq> [] \<and> last acts2 = GpioPut LED_YELLOW False \<and>
          length (filter (\<lambda>a. a = GpioPut LED_YELLOW True) acts2) = nat (flash_time_left c1)"
        by (rule Cons.IH [OF _ _ _ r])
          (use Cons.prems due False more in \<open>auto simp: c1' toggles_left_def\<close>)
      then show ?thesis using Cons.prems(1) more by (simp add: acts c1')
    qed
  qed
qed

lemma flash_run_idle: "flash_time_left c = 0 \<Longrightarrow> flash_run ts c = ([], c)"
  by (induction ts c rule: flash_run.induct) (simp_all add: client_flash_def)

fun button_run :: "bool list \<Rightarrow> client \<Rightarrow> client" where
  "button_run [] c = c"
| "button_run (b # bs) c = button_run bs (snd (client_button b c))"

text \<open>Releases of the button in a sequence of samples: a high one after a low one.\<close>

fun releases :: "bool \<Rightarrow> bool list \<Rightarrow> nat" where
  "releases prev [] = 0"
| "releases prev (b # bs) = (if b \<and> \<not> prev then 1 else 0) + releases b bs"

lemma button_run_state:
  "is_pairing_mode (button_run bs c) =
     (is_pairing_mode c \<noteq> odd (releases (previous_button_state c) bs))"
  by (induction bs arbitrary: c) (auto simp: button_keeps)

section \<open>Properties\<close>

text \<open>C22. The pager never gets stuck or faults: after any run from boot, with any radio edges, any
  button samples and any clock readings, the invariant of all its state holds and every event
  the hardware or the program counter allows next has a step.\<close>

theorem client_always_safe:
  assumes "client_run client_start tr m" "enabled m e"
  shows "machine_inv m \<and> (\<exists>acts m'. client_step m e acts m' \<and> machine_inv m')"
proof -
  have inv: "machine_inv m" using client_run_inv [OF assms(1) client_inv_start] .
  with client_step_total [OF inv assms(2)] client_step_inv show ?thesis by blast
qed

theorem client_always_safe_witness:
  "machine_inv client_start \<and>
     (\<exists>acts m'. client_step client_start (Button False) acts m' \<and> machine_inv m')"
  by (rule client_always_safe [OF client_run.start])
    (simp add: enabled_def client_start_def client_boot_def)

text \<open>C6. What the pager does with the message a frame carries, on every branch: the LED pulse
  says whether the checksum verified, PAIR is obeyed exactly in pairing mode and leaves that
  mode, FLASH is obeyed exactly when it names the pager's id, and nothing else of the globals
  changes. The checksum decides the LED only, so a message that fails it is obeyed too.\<close>

theorem client_frame_effect:
  assumes "client_inv c" "frame_present c"
    and "encrypted_data (frame_c c) = bytes_of 4 (proto_blocks d)"
  shows "\<exists>acts c'. client_frame c = Inr
       ([GpioPut (if checksum d = proto_crc d then LED_GREEN else LED_RED) True, SleepMs 50,
         GpioPut (if checksum d = proto_crc d then LED_GREEN else LED_RED) False] @ acts, c') \<and>
     set acts \<subseteq> {GpioPut LED_YELLOW False} \<and> client_inv c' \<and>
     c' = c\<lparr>frame_present := False, data_c := d, crc_c := crc_ready (crc_c c),
       device_id_c := (if message_type d = message_code PAIR \<and> is_pairing_mode c
                       then receiver_id d else device_id_c c),
       is_pairing_mode := is_pairing_mode c \<and> message_type d \<noteq> message_code PAIR,
       flash_time_left := (if message_type d = message_code FLASH \<and> receiver_id d = device_id_c c
                           then uint (message_param d) else flash_time_left c)\<rparr>"
proof -
  have "d = frame_message (frame_c c)"
    using assms by (simp add: frame_message_sealed client_inv_def)
  from client_frame_effect_raw [OF assms(1,2) this] show ?thesis .
qed

text \<open>The witness is a FLASH message whose checksum is wrong: the red LED, and 5 seconds to flash.\<close>

definition bad_flash :: proto_data where
  "bad_flash = \<lparr>sequence_number = 1, receiver_id = 0x1215, message_type = message_code FLASH,
     message_param = 5, checksum = proto_crc \<lparr>sequence_number = 1, receiver_id = 0x1215,
     message_type = message_code FLASH, message_param = 5, checksum = 0\<rparr> + 1\<rparr>"

lemma bad_flash_checksum: "checksum bad_flash \<noteq> proto_crc bad_flash"
proof -
  have "proto_crc bad_flash + 1 = checksum bad_flash"
    by (simp add: bad_flash_def proto_crc_def proto_bytes_def)
  then show ?thesis by (metis add_cancel_left_right one_neq_zero)
qed

theorem client_frame_effect_witness:
  "\<exists>acts c'. client_frame (client_globals\<lparr>frame_present := True,
       frame_c := \<lparr>encrypted_data = bytes_of 4 (proto_blocks bad_flash)\<rparr>\<rparr>) =
     Inr ([GpioPut LED_RED True, SleepMs 50, GpioPut LED_RED False] @ acts, c') \<and>
     flash_time_left c' = 5 \<and> \<not> frame_present c'"
proof -
  let ?c = "client_globals\<lparr>frame_present := True,
    frame_c := \<lparr>encrypted_data = bytes_of 4 (proto_blocks bad_flash)\<rparr>\<rparr>"
  have "client_inv ?c" "frame_present ?c"
    by (simp_all add: client_inv_def client_globals_def frame_wf_def proto_sizes crc_inv_init)
  from client_frame_effect [OF this, of bad_flash] bad_flash_checksum show ?thesis
    by (auto simp: bad_flash_def client_globals_def)
qed

text \<open>C23. A pager is re-paired only with a hand on it: in any run that starts outside pairing mode,
  the device id changes only if the button was pressed, released, and a frame was processed
  after that, in this order.\<close>

theorem pairing_needs_the_button:
  assumes "client_run m tr m'" "machine_inv m" "\<not> is_pairing_mode (cl m)"
    and "device_id_c (cl m') \<noteq> device_id_c (cl m)"
  shows "subseq ((if previous_button_state (cl m) then [Button False] else []) @ [Button True, Frame])
     (map fst tr)"
  using pairing_trace_run [OF assms(1-3)] assms(4) by (simp add: pairing_trace_def press_def)

definition pair_message :: proto_data where
  "pair_message = \<lparr>sequence_number = 9, receiver_id = 0x42, message_type = message_code PAIR,
     message_param = 0, checksum = 0\<rparr>"

definition pressed_machine :: client_machine where
  "pressed_machine = client_start\<lparr>cl := client_globals\<lparr>previous_button_state := False,
     frame_present := True, frame_c := \<lparr>encrypted_data = bytes_of 4 (proto_blocks pair_message)\<rparr>\<rparr>\<rparr>"

theorem pairing_needs_the_button_witness:
  "\<exists>tr m'. client_run pressed_machine tr m' \<and> device_id_c (cl m') = 0x42 \<and>
     subseq [Button True, Frame] (map fst tr)"
proof -
  let ?m = pressed_machine
  let ?c = "(cl ?m)\<lparr>previous_button_state := True, is_pairing_mode := True\<rparr>"
  have inv: "client_inv ?c" "machine_inv ?m" "frame_present ?c"
    using client_inv_start
    by (simp_all add: pressed_machine_def machine_inv_def client_inv_def client_globals_def
        frame_wf_def proto_sizes crc_inv_init client_start_def client_boot_def)
  have "pair_message = frame_message (frame_c ?c)"
    using frame_message_sealed [of "frame_c ?c" pair_message] inv(1)
    by (simp add: pressed_machine_def client_inv_def)
  from client_frame_effect_raw [OF inv(1,3) this] obtain acts c' where
    fr: "client_frame ?c = Inr (acts, c')" "device_id_c c' = 0x42"
    by (auto simp: pair_message_def)
  have "client_step ?m (Button True) [SleepMs 50] (?m\<lparr>pc := AtFrame, cl := ?c\<rparr>)"
    by (rule client_step.button)
      (simp_all add: pressed_machine_def client_start_def client_boot_def client_button_def client_globals_def)
  from client_run.step [OF client_run.start this]
  have "client_run ?m [(Button True, [SleepMs 50])] (?m\<lparr>pc := AtFrame, cl := ?c\<rparr>)" by simp
  moreover have "client_step (?m\<lparr>pc := AtFrame, cl := ?c\<rparr>) Frame acts
      (?m\<lparr>pc := AtFrame, cl := ?c\<rparr>\<lparr>pc := AtPairFlash, cl := c'\<rparr>)"
    by (rule client_step.frame) (simp_all add: fr(1))
  ultimately have run: "client_run ?m ([(Button True, [SleepMs 50])] @ [(Frame, acts)])
      (?m\<lparr>pc := AtFrame, cl := ?c\<rparr>\<lparr>pc := AtPairFlash, cl := c'\<rparr>)"
    by (rule client_run.step)
  have "subseq [Button True, Frame] (map fst ([(Button True, [SleepMs 50])] @ [(Frame, acts)]))"
    using pairing_needs_the_button [OF run inv(2)] fr(2)
    by (simp add: pressed_machine_def client_globals_def)
  moreover have "device_id_c (cl (?m\<lparr>pc := AtFrame, cl := ?c\<rparr>\<lparr>pc := AtPairFlash, cl := c'\<rparr>)) = 0x42"
    by (simp add: fr(2))
  ultimately show ?thesis using run by blast
qed

text \<open>C24. A flash lasts as long as it was told and then stops: with \<open>n\<close> seconds left, \<open>2 n\<close> toggles
  later (one less if the LED is off) the yellow LED has been switched on exactly \<open>n\<close> times, the
  last thing done is switching it off, and no clock reading after that does anything.\<close>

theorem flash_lasts_as_told:
  assumes "0 < flash_time_left c" "all_due ts (last_flash c)"
    and "length ts = (if flash_led_state c then 2 * nat (flash_time_left c)
                      else 2 * nat (flash_time_left c) - 1)"
  shows "\<exists>acts c'. flash_run ts c = (acts, c') \<and> flash_time_left c' = 0 \<and>
     acts \<noteq> [] \<and> last acts = GpioPut LED_YELLOW False \<and>
     length (filter (\<lambda>a. a = GpioPut LED_YELLOW True) acts) = nat (flash_time_left c) \<and>
     flash_run us c' = ([], c')"
proof -
  obtain acts c' where r: "flash_run ts c = (acts, c')" by fastforce
  from assms(3) have "length ts = toggles_left c" by (simp add: toggles_left_def)
  from flash_run_ends [OF assms(1,2) this r] r flash_run_idle [of c' us] show ?thesis by auto
qed

theorem flash_lasts_as_told_witness:
  "\<exists>acts c'. flash_run [(600000, 600001), (1200000, 1200000), (1800000, 1800000)]
       (client_globals\<lparr>flash_time_left := 2\<rparr>) = (acts, c') \<and> flash_time_left c' = 0 \<and>
     acts \<noteq> [] \<and> last acts = GpioPut LED_YELLOW False \<and>
     length (filter (\<lambda>a. a = GpioPut LED_YELLOW True) acts) = 2 \<and>
     flash_run [(9000000, 9000000)] c' = ([], c')"
  using flash_lasts_as_told [of "client_globals\<lparr>flash_time_left := 2\<rparr>"
      "[(600000, 600001), (1200000, 1200000), (1800000, 1800000)]" "[(9000000, 9000000)]"]
  by (simp add: client_globals_def)

text \<open>One press, one switch: however often the button is sampled, the pairing mode is toggled
  once for every release (a high sample after a low one) and by nothing else.\<close>

theorem button_toggles_per_release:
  "is_pairing_mode (button_run samples c) =
     (is_pairing_mode c \<noteq> odd (releases (previous_button_state c) samples))"
  by (rule button_run_state)

end
