(* ===== verification/System.thy ===== *)
theory System
  imports Server_Queue Client_Main
begin

text \<open>
  The two programs and the radio between them. A frame that \<open>send_messages\<close> puts on the air is
  heard by the pager's receiver as a sequence of falling edges; \<open>edges_run\<close> is the pager's
  machine over such a sequence, between two steps of its main loop.

  The lemmas lift the receiver's behaviour to the machine of \<open>Client_Main\<close>, and put the chain
  of both programs together: request, queue, cipher, transmitter, link, receiver, callback,
  decryption, checksum, obedience.
\<close>

section \<open>Edges at the pager\<close>

text \<open>The effect of delivered frames on the globals: the first of the right size is kept.\<close>

fun deliver :: "u8 list list \<Rightarrow> client \<Rightarrow> client" where
  "deliver [] c = c"
| "deliver (f # fs) c = deliver fs
     (if \<not> frame_present c \<and> length f = PROTO_FRAME_SIZE
      then c\<lparr>frame_c := \<lparr>encrypted_data = f\<rparr>, frame_present := True\<rparr> else c)"

definition edge_event :: "u32 \<times> u64 \<Rightarrow> client_event" where
  "edge_event = (\<lambda>(cnt, now). Edge cnt now)"

lemma client_run_append:
  "client_run m' tr' m'' \<Longrightarrow> client_run m tr m' \<Longrightarrow> client_run m (tr @ tr') m''"
proof (induction rule: client_run.induct)
  case (step m' tr' m1 e acts m'')
  from client_run.step [OF step.IH [OF step.prems] step.hyps(2)] show ?case by simp
qed simp

lemma edge_step:
  assumes "machine_inv m" "rx_fall_callback cnt now (rx m) = Inr (out, r)"
  shows "\<exists>acts. client_step m (Edge cnt now) acts (m\<lparr>rx := r,
     cl := deliver (case out of None \<Rightarrow> [] | Some (buf, n) \<Rightarrow> [take (unat n) buf]) (cl m)\<rparr>)"
proof (cases out)
  case None
  from client_step.edge [of cnt now m r] assms(2) None show ?thesis by auto
next
  case (Some f)
  obtain buf n where f: "f = (buf, n)" by fastforce
  from assms rx_step_any [of "rx m" cnt now] Some f have
    n: "unat n \<le> length buf" by (auto simp: machine_inv_def)
  then have "\<exists>acts. frame_received buf n (cl m) = Inr (acts, deliver [take (unat n) buf] (cl m))"
    using assms(1) by (auto simp: frame_received_cases machine_inv_def min_def)
  then obtain acts where "frame_received buf n (cl m) = Inr (acts, deliver [take (unat n) buf] (cl m))" by blast
  from client_step.edge_frame [OF _ this, of cnt now r] assms(2) Some f
  have "client_step m (Edge cnt now) acts (m\<lparr>rx := r, cl := deliver [take (unat n) buf] (cl m)\<rparr>)"
    by (simp del: deliver.simps)
  with Some f show ?thesis by (auto simp del: deliver.simps)
qed

lemma edges_run:
  assumes "machine_inv m" "rx_run es (rx m) = Inr (fs, r)"
  shows "\<exists>tr. map fst tr = map edge_event es \<and> client_run m tr (m\<lparr>rx := r, cl := deliver fs (cl m)\<rparr>)"
  using assms
proof (induction es arbitrary: m fs)
  case Nil
  then show ?case using client_run.start [of m] by auto
next
  case (Cons e es)
  obtain cnt now where e: "e = (cnt, now)" by fastforce
  from Cons.prems(2) obtain out r1 fs1 where
    1: "rx_fall_callback cnt now (rx m) = Inr (out, r1)" "rx_run es r1 = Inr (fs1, r)"
    and fs: "fs = (case out of None \<Rightarrow> [] | Some (buf, n) \<Rightarrow> [take (unat n) buf]) @ fs1"
    by (auto simp: e rbind_eq_Inr split: option.splits prod.splits)
  let ?f = "case out of None \<Rightarrow> [] | Some (buf, n) \<Rightarrow> [take (unat n) buf]"
  let ?m = "m\<lparr>rx := r1, cl := deliver ?f (cl m)\<rparr>"
  from edge_step [OF Cons.prems(1) 1(1)] obtain acts where st: "client_step m (Edge cnt now) acts ?m" by blast
  have "rx ?m = r1" by simp
  with Cons.IH [OF client_step_inv [OF st Cons.prems(1)]] 1(2) obtain tr where
    tr: "map fst tr = map edge_event es" "client_run ?m tr (?m\<lparr>rx := r, cl := deliver fs1 (cl ?m)\<rparr>)" by metis
  have app: "deliver (xs @ ys) c = deliver ys (deliver xs c)" for xs ys c
    by (induction xs arbitrary: c) simp_all
  have "client_run m ([] @ [(Edge cnt now, acts)]) ?m" by (rule client_run.step [OF client_run.start st])
  from client_run_append [OF tr(2) this]
  have "client_run m ((Edge cnt now, acts) # tr) (m\<lparr>rx := r, cl := deliver fs (cl m)\<rparr>)"
    by (simp add: fs app)
  with tr(1) show ?case
    by (intro exI [of _ "(Edge cnt now, acts) # tr"]) (simp add: e edge_event_def)
qed

text \<open>A pager whose receiver is between frames hears one frame.\<close>

definition listening :: "client_machine \<Rightarrow> bool" where
  "listening m \<longleftrightarrow> machine_inv m \<and> \<not> frame_present (cl m) \<and>
     rx_byte_index (rx m) = 0 \<and> rx_bit_index (rx m) = 0"

text \<open>The edges of one frame \<open>bs\<close> on the link: its bits, idle silence, the gap that ends it.\<close>

definition hears :: "u8 list \<Rightarrow> (u32 \<times> u64) list \<Rightarrow> bool" where
  "hears bs es \<longleftrightarrow> (\<exists>fs qs g. es = fs @ qs @ [g] \<and> carries (frame_levels bs) fs \<and>
     quiet (snd (last fs)) qs \<and> gap_edge (snd (last fs)) g)"

lemma listening_hears:
  assumes "listening m" "length bs = PROTO_FRAME_SIZE" "hears bs es"
  shows "\<exists>tr r. map fst tr = map edge_event es \<and>
     client_run m tr (m\<lparr>rx := r, cl := (cl m)\<lparr>frame_c := \<lparr>encrypted_data = bs\<rparr>, frame_present := True\<rparr>\<rparr>) \<and>
     rx_byte_index r = 0 \<and> rx_bit_index r = 0"
proof -
  from assms(3) obtain fs qs g where es: "es = fs @ qs @ [g]" "carries (frame_levels bs) fs"
    "quiet (snd (last fs)) qs" "gap_edge (snd (last fs)) g" unfolding hears_def by blast
  have at: "rx_at bs 0 (rx m)"
    using assms(1) rx_at_0 by (simp add: listening_def machine_inv_def)
  have bs: "bs \<noteq> []" "length bs < BYTE_BUFFER_SIZE"
    using assms(2) by (auto simp: proto_sizes BYTE_BUFFER_SIZE_def)
  from rx_frame [OF at bs es(2-4)] obtain r where
    r: "rx_run es (rx m) = Inr ([bs], r)" "rx_at bs 0 r" unfolding es(1) by blast
  have inv: "machine_inv m" using assms(1) by (simp add: listening_def)
  have "deliver [bs] (cl m) = (cl m)\<lparr>frame_c := \<lparr>encrypted_data = bs\<rparr>, frame_present := True\<rparr>"
    using assms(1,2) by (simp add: listening_def)
  with edges_run [OF inv r(1)] obtain tr where "map fst tr = map edge_event es"
    "client_run m tr (m\<lparr>rx := r, cl := (cl m)\<lparr>frame_c := \<lparr>encrypted_data = bs\<rparr>, frame_present := True\<rparr>\<rparr>)"
    by auto
  moreover have "rx_byte_index r = 0 \<and> rx_bit_index r = 0"
    using r(2) by (simp add: rx_at_def unat_eq_0)
  ultimately show ?thesis by blast
qed

lemma hears_exists: "bs \<noteq> [] \<Longrightarrow> \<exists>es. hears bs es"
proof -
  assume bs: "bs \<noteq> []"
  let ?fs = "map (\<lambda>l. (word_of_int l :: u32, 0 :: u64)) (frame_levels bs)"
  have range: "l \<in> set (frame_levels bs) \<Longrightarrow> l = PWM_DUTY_ZERO \<or> l = PWM_DUTY_ONE" for l
    by (auto simp: frame_levels_def bit_level_def)
  have "carries (frame_levels bs) ?fs"
    unfolding carries_def
    by (rule list_all2_all_nthI)
      (use range nth_mem in \<open>fastforce simp: pwm_config_values pulse_tolerance_def\<close>)+
  moreover have ne: "?fs \<noteq> []" using bs by (simp add: frame_levels_def frame_bits_def)
  then have "snd (last ?fs) = 0" using last_in_set [OF ne] by auto
  then have "gap_edge (snd (last ?fs)) (512, 5000)"
    by (simp add: gap_edge_def frame_gap_def pwm_config_values pulse_tolerance_def)
  moreover have "quiet (snd (last ?fs)) []" by (simp add: quiet_def)
  ultimately have "hears bs (?fs @ [] @ [(512, 5000)])" unfolding hears_def by blast
  then show ?thesis by blast
qed

text \<open>A sealed message on the air, and what the pager that hears it has done after its next frame
  phase.\<close>

lemma message_heard:
  assumes "listening m" "pc m = AtFrame" "hears (bytes_of 4 (proto_blocks d)) es"
    and "checksum d = proto_crc d"
  shows "\<exists>tr acts m'. client_run m tr m' \<and> map fst tr = map edge_event es @ [Frame] \<and>
     snd (last tr) = [GpioPut LED_GREEN True, SleepMs 50, GpioPut LED_GREEN False] @ acts \<and>
     listening m' \<and>
     device_id_c (cl m') = (if message_type d = message_code PAIR \<and> is_pairing_mode (cl m)
                            then receiver_id d else device_id_c (cl m)) \<and>
     is_pairing_mode (cl m') = (is_pairing_mode (cl m) \<and> message_type d \<noteq> message_code PAIR) \<and>
     flash_time_left (cl m') = (if message_type d = message_code FLASH \<and> receiver_id d = device_id_c (cl m)
                                then uint (message_param d) else flash_time_left (cl m))"
proof -
  let ?bs = "bytes_of 4 (proto_blocks d)"
  let ?c = "(cl m)\<lparr>frame_c := \<lparr>encrypted_data = ?bs\<rparr>, frame_present := True\<rparr>"
  have len: "length ?bs = PROTO_FRAME_SIZE" by (simp add: proto_sizes)
  from listening_hears [OF assms(1) len assms(3)] obtain tr r where
    tr: "map fst tr = map edge_event es" "client_run m tr (m\<lparr>rx := r, cl := ?c\<rparr>)"
      "rx_byte_index r = 0" "rx_bit_index r = 0" by blast
  have minv: "machine_inv m" using assms(1) by (simp add: listening_def)
  have inv: "machine_inv (m\<lparr>rx := r, cl := ?c\<rparr>)" by (rule client_run_inv [OF tr(2) minv])
  then have "client_inv ?c" "frame_present ?c" "encrypted_data (frame_c ?c) = ?bs"
    by (simp_all add: machine_inv_def)
  from client_frame_effect_raw [OF this(1,2), of d] frame_message_sealed [OF _ this(3)] this(1)
  obtain acts c' where
    c': "client_frame ?c = Inr ([GpioPut LED_GREEN True, SleepMs 50, GpioPut LED_GREEN False] @ acts, c')"
    "\<not> frame_present c'"
    "device_id_c c' = (if message_type d = message_code PAIR \<and> is_pairing_mode (cl m)
                       then receiver_id d else device_id_c (cl m))"
    "is_pairing_mode c' = (is_pairing_mode (cl m) \<and> message_type d \<noteq> message_code PAIR)"
    "flash_time_left c' = (if message_type d = message_code FLASH \<and> receiver_id d = device_id_c (cl m)
                           then uint (message_param d) else flash_time_left (cl m))"
    using assms(4) by (auto simp: client_inv_def)
  have st: "client_step (m\<lparr>rx := r, cl := ?c\<rparr>) Frame
      ([GpioPut LED_GREEN True, SleepMs 50, GpioPut LED_GREEN False] @ acts)
      (m\<lparr>rx := r, cl := ?c\<rparr>\<lparr>pc := AtPairFlash, cl := c'\<rparr>)"
    by (rule client_step.frame) (use assms(2) c'(1) in simp_all)
  from client_run.step [OF tr(2) st] client_step_inv [OF st inv] tr c'(2-5)
  show ?thesis
    by (intro exI [of _ "tr @ [(Frame, [GpioPut LED_GREEN True, SleepMs 50, GpioPut LED_GREEN False] @ acts)]"]
        exI [of _ acts] exI [of _ "m\<lparr>rx := r, cl := ?c\<rparr>\<lparr>pc := AtPairFlash, cl := c'\<rparr>"])
      (simp add: listening_def)
qed

lemma numbered_member: "d \<in> set ds \<Longrightarrow> \<exists>k. proto_seal (d\<lparr>sequence_number := k\<rparr>) \<in> set (numbered n ds)"
  by (induction ds arbitrary: n) auto

lemma round_on_air:
  assumes "server_inv s" "frame_wf junk" "tx_pending ls (tx_g s)" "d \<in> set (round_messages s)"
  shows "\<exists>acts s' ls' pre post k. send_messages 1025 junk s = Some (Inr (acts, s')) \<and> server_inv s' \<and>
     tx_pending ls' (tx_g s') \<and>
     tx_levels acts @ ls' = pre @ wire_levels (proto_seal (d\<lparr>sequence_number := k\<rparr>)) @ post"
proof -
  from send_messages_queues [OF assms(1,2)] obtain acts s' where
    s': "send_messages 1025 junk s = Some (Inr (acts, s'))"
    "queued (round_messages s) (map (map_option pager_sent) (heap_g s)) s acts s'" "server_inv s'" by blast
  from s'(2) assms(3) obtain ls' where ls': "tx_pending ls' (tx_g s')"
    "tx_levels acts @ ls' =
       ls @ concat (map wire_levels (numbered (sequence_number_g s) (round_messages s)))"
    unfolding queued_def by force
  from numbered_member [OF assms(4)] obtain k where
    "proto_seal (d\<lparr>sequence_number := k\<rparr>) \<in> set (numbered (sequence_number_g s) (round_messages s))" by blast
  then obtain xs ys where "numbered (sequence_number_g s) (round_messages s) =
      xs @ proto_seal (d\<lparr>sequence_number := k\<rparr>) # ys" by (auto dest: split_list)
  then have "tx_levels acts @ ls' = (ls @ concat (map wire_levels xs)) @
      wire_levels (proto_seal (d\<lparr>sequence_number := k\<rparr>)) @ concat (map wire_levels ys)"
    unfolding ls'(2) by simp
  with s' ls'(1) show ?thesis by blast
qed

lemma pager_in_round:
  assumes "server_inv s" "get_pager dev (registry s) = Some a" "heap_g s ! a = Some p"
    and "d \<in> set (pager_messages p)"
  shows "d \<in> set (round_messages s)"
proof -
  have "(dev, a) \<in> set (pagers (registry s))"
    using assms(1,2) smap.entries_find [of "pagers (registry s)" dev a]
    by (simp add: server_inv_def pl_inv_def get_pager_find)
  with assms(3,4) show ?thesis by (force simp: round_messages_def)
qed

section \<open>Properties\<close>

text \<open>C1. From a request to a flashing pager: after \<open>/pagers/flash\<close> for a registered id, one round
  of the server's loop puts a frame on the air such that the pager with that id, if its
  receiver is between frames and hears that frame over any link within the pulse tolerance,
  has after its next frame phase the requested time (modulo 65536) to flash, and has shown the
  green LED of a verified message; and there are edges it can hear it by.\<close>

theorem flash_request_reaches_pager:
  assumes "server_inv s" "net_takes net txt" "0 < fuel" "frame_wf junk" "tx_pending ls (tx_g s)"
    and "sm_find (request_params (fst cw)) ''id'' = Some i" "stoi i = Inr v"
    and "sm_find (request_params (fst cw)) ''time'' = Some t" "stoi t = Inr u"
    and "word_of_int v \<in> set (pl_ids (registry s))"
    and "listening m" "pc m = AtFrame" "device_id_c (cl m) = word_of_int v"
  shows "\<exists>s1 acts s2 ls' pre bs post.
     answered txt 200 ''OK'' ''flashing the pager'' cw (http_pagers_flash fuel net cw s) s1 \<and>
     send_messages 1025 junk s1 = Some (Inr (acts, s2)) \<and> server_inv s2 \<and> tx_pending ls' (tx_g s2) \<and>
     tx_levels acts @ ls' = pre @ frame_levels bs @ [PWM_DUTY_SILENCE] @ post \<and>
     (\<exists>es. hears bs es) \<and>
     (\<forall>es. hears bs es \<longrightarrow> (\<exists>tr m' rest. client_run m tr m' \<and> map fst tr = map edge_event es @ [Frame] \<and>
        snd (last tr) = [GpioPut LED_GREEN True, SleepMs 50, GpioPut LED_GREEN False] @ rest \<and>
        device_id_c (cl m') = word_of_int v \<and>
        flash_time_left (cl m') = uint (word_of_int u :: u16) \<and> listening m'))"
proof -
  have "pager_exists (word_of_int v) (registry s)" using assms(10) by (simp add: pager_exists_iff)
  then obtain a where a: "get_pager (word_of_int v) (registry s) = Some a"
    by (auto simp: get_pager_find pager_exists_def)
  from server_pager [OF assms(1) a] obtain p where
    p: "a < length (heap_g s)" "heap_g s ! a = Some p" "device_id p = word_of_int v" "pager_inv p" by blast
  let ?q = "p\<lparr>flash_msgs_left := 5, flash_time := Some (word_of_int u)\<rparr>"
  let ?s = "s\<lparr>heap_g := (heap_g s)[a := Some ?q]\<rparr>"
  let ?d = "blank_message (word_of_int v) FLASH (word_of_int u)"
  have ans: "answered txt 200 ''OK'' ''flashing the pager'' cw (http_pagers_flash fuel net cw s) ?s"
    unfolding flash_handler_value [OF assms(1,6-9) a p(2)] by (rule finish_answers(1) [OF assms(2,3) snd_buf_le]) simp
  have inv: "server_inv ?s"
    by (rule server_inv_put [OF assms(1) p(1,2)]) (simp_all add: flashed_pager_inv p(4))
  have "?d \<in> set (round_messages ?s)"
    by (rule pager_in_round [OF inv, of "word_of_int v" a ?q])
      (use a p(1,3) in \<open>simp_all add: pager_messages_def\<close>)
  from round_on_air [OF inv assms(4) _ this, of ls] assms(5) obtain acts s2 ls' pre post k where
    air: "send_messages 1025 junk ?s = Some (Inr (acts, s2))" "server_inv s2" "tx_pending ls' (tx_g s2)"
    "tx_levels acts @ ls' = pre @ wire_levels (proto_seal (?d\<lparr>sequence_number := k\<rparr>)) @ post" by auto
  let ?m = "proto_seal (?d\<lparr>sequence_number := k\<rparr>)"
  let ?bs = "bytes_of 4 (proto_blocks ?m)"
  have "\<exists>tr m' rest. client_run m tr m' \<and> map fst tr = map edge_event es @ [Frame] \<and>
      snd (last tr) = [GpioPut LED_GREEN True, SleepMs 50, GpioPut LED_GREEN False] @ rest \<and>
      device_id_c (cl m') = word_of_int v \<and>
      flash_time_left (cl m') = uint (word_of_int u :: u16) \<and> listening m'" if "hears ?bs es" for es
    using message_heard [OF assms(11,12) that seal_verifies] assms(13)
    by (simp add: proto_seal_def blank_message_def) blast
  moreover have "?bs \<noteq> []" by (simp flip: length_0_conv)
  then have "\<exists>es. hears ?bs es" by (rule hears_exists)
  moreover have "tx_levels acts @ ls' = pre @ frame_levels ?bs @ [PWM_DUTY_SILENCE] @ post"
    using air(4) by (simp add: wire_levels_def)
  ultimately show ?thesis using ans air(1-3) by blast
qed

lemma start_listening: "listening (client_start\<lparr>pc := AtFrame\<rparr>)"
  using client_inv_start
  by (simp add: listening_def machine_inv_def client_start_def client_boot_def client_globals_def
      rx_set_callback_def rx_init_def rx_inv_def)

theorem flash_request_reaches_pager_witness:
  "\<exists>s1 acts s2 ls' pre bs post.
     answered id 200 ''OK'' ''flashing the pager'' (sample_request, [])
       (http_pagers_flash 1 log_net (sample_request, []) sample_server) s1 \<and>
     send_messages 1025 \<lparr>encrypted_data = replicate 32 0\<rparr> s1 = Some (Inr (acts, s2)) \<and>
     server_inv s2 \<and> tx_pending ls' (tx_g s2) \<and>
     tx_levels acts @ ls' = pre @ frame_levels bs @ [PWM_DUTY_SILENCE] @ post \<and>
     (\<exists>es. hears bs es) \<and>
     (\<forall>es. hears bs es \<longrightarrow> (\<exists>tr m' rest. client_run (client_start\<lparr>pc := AtFrame\<rparr>) tr m' \<and>
        map fst tr = map edge_event es @ [Frame] \<and>
        snd (last tr) = [GpioPut LED_GREEN True, SleepMs 50, GpioPut LED_GREEN False] @ rest \<and>
        device_id_c (cl m') = 0x1215 \<and> flash_time_left (cl m') = 7 \<and> listening m'))"
proof -
  have tx: "tx_pending [] (tx_g sample_server)"
    using tx_pending_init by (simp add: sample_server_def server_init_def)
  have find: "sm_find (request_params (fst (sample_request, []))) ''id'' = Some ''4629''"
    "sm_find (request_params (fst (sample_request, []))) ''time'' = Some ''7''"
    by (simp_all add: sample_request_def new_http_client_def)
  have ids: "word_of_int 4629 \<in> set (pl_ids (registry sample_server))"
    and dev: "device_id_c (cl (client_start\<lparr>pc := AtFrame\<rparr>)) = word_of_int 4629"
    by (simp_all add: sample_server_def pl_ids_def client_start_def client_boot_def client_globals_def)
  from flash_request_reaches_pager [OF sample_server_inv log_net_takes _ sample_frame tx find(1)
      sample_numbers(1) find(2) sample_numbers(2) ids start_listening _ dev, of 1]
  show ?thesis by simp
qed

text \<open>C13. From a request to a paired pager: after \<open>/pagers/pair\<close> for any id, registered or new, one
  round of the server's loop puts a frame on the air such that any pager in pairing mode that
  hears it takes that id (modulo 65536) and leaves pairing mode, and any pager out of pairing
  mode that hears it keeps its own id.\<close>

theorem pair_request_reaches_pager:
  assumes "server_inv s" "net_takes net txt" "0 < fuel" "frame_wf junk" "tx_pending ls (tx_g s)"
    and "sm_find (request_params (fst cw)) ''id'' = Some i" "stoi i = Inr v"
    and "listening m" "pc m = AtFrame"
  shows "\<exists>s1 acts s2 ls' pre bs post.
     answered txt 200 ''OK'' ''started pairing...'' cw (http_pagers_pair fuel net cw s) s1 \<and>
     send_messages 1025 junk s1 = Some (Inr (acts, s2)) \<and> server_inv s2 \<and> tx_pending ls' (tx_g s2) \<and>
     tx_levels acts @ ls' = pre @ frame_levels bs @ [PWM_DUTY_SILENCE] @ post \<and>
     (\<exists>es. hears bs es) \<and>
     (\<forall>es. hears bs es \<longrightarrow> (\<exists>tr m'. client_run m tr m' \<and> map fst tr = map edge_event es @ [Frame] \<and>
        device_id_c (cl m') = (if is_pairing_mode (cl m) then word_of_int v else device_id_c (cl m)) \<and>
        \<not> is_pairing_mode (cl m') \<and> listening m'))"
proof -
  from pair_handler_total [OF assms(1-3,6,7)] obtain s1 a p where
    s1: "answered txt 200 ''OK'' ''started pairing...'' cw (http_pagers_pair fuel net cw s) s1"
      "server_inv s1" "get_pager (word_of_int v) (registry s1) = Some a" "heap_g s1 ! a = Some p"
      "pair_msgs_left p = 5" by blast
  have tx: "tx_g s1 = tx_g s"
    by (rule pair_handler_tx [OF assms(1,6,7) s1(1)])
  from server_pager [OF s1(2,3)] s1(4) have p: "device_id p = word_of_int v" by simp
  let ?d = "blank_message (word_of_int v) PAIR 0"
  have "?d \<in> set (round_messages s1)"
    by (rule pager_in_round [OF s1(2-4)]) (simp add: pager_messages_def s1(5) p)
  from round_on_air [OF s1(2) assms(4) _ this, of ls] assms(5) tx obtain acts s2 ls' pre post k where
    air: "send_messages 1025 junk s1 = Some (Inr (acts, s2))" "server_inv s2" "tx_pending ls' (tx_g s2)"
    "tx_levels acts @ ls' = pre @ wire_levels (proto_seal (?d\<lparr>sequence_number := k\<rparr>)) @ post" by auto
  let ?m = "proto_seal (?d\<lparr>sequence_number := k\<rparr>)"
  let ?bs = "bytes_of 4 (proto_blocks ?m)"
  have d: "receiver_id ?m = word_of_int v" "message_type ?m = message_code PAIR"
    by (simp_all add: proto_seal_def blank_message_def)
  have "\<exists>tr m'. client_run m tr m' \<and> map fst tr = map edge_event es @ [Frame] \<and>
      device_id_c (cl m') = (if is_pairing_mode (cl m) then word_of_int v else device_id_c (cl m)) \<and>
      \<not> is_pairing_mode (cl m') \<and> listening m'" if "hears ?bs es" for es
    using message_heard [OF assms(8,9) that seal_verifies] unfolding d
    by (cases "is_pairing_mode (cl m)") (simp_all, blast+)
  moreover have "?bs \<noteq> []" by (simp flip: length_0_conv)
  then have "\<exists>es. hears ?bs es" by (rule hears_exists)
  moreover have "tx_levels acts @ ls' = pre @ frame_levels ?bs @ [PWM_DUTY_SILENCE] @ post"
    using air(4) by (simp add: wire_levels_def)
  ultimately show ?thesis using s1(1) air(1-3) by blast
qed

definition pairing_machine :: client_machine where
  "pairing_machine = client_start\<lparr>pc := AtFrame, cl := client_globals\<lparr>is_pairing_mode := True\<rparr>\<rparr>"

theorem pair_request_reaches_pager_witness:
  "\<exists>s1 acts s2 ls' pre bs post.
     answered id 200 ''OK'' ''started pairing...'' (sample_request, [])
       (http_pagers_pair 1 log_net (sample_request, []) server_init) s1 \<and>
     send_messages 1025 \<lparr>encrypted_data = replicate 32 0\<rparr> s1 = Some (Inr (acts, s2)) \<and>
     server_inv s2 \<and> tx_pending ls' (tx_g s2) \<and>
     tx_levels acts @ ls' = pre @ frame_levels bs @ [PWM_DUTY_SILENCE] @ post \<and>
     (\<exists>es. hears bs es) \<and>
     (\<forall>es. hears bs es \<longrightarrow> (\<exists>tr m'. client_run pairing_machine tr m' \<and>
        map fst tr = map edge_event es @ [Frame] \<and>
        device_id_c (cl m') = 0x1215 \<and> \<not> is_pairing_mode (cl m') \<and> listening m'))"
proof -
  have tx: "tx_pending [] (tx_g server_init)"
    using tx_pending_init by (simp add: server_init_def)
  have find: "sm_find (request_params (fst (sample_request, []))) ''id'' = Some ''4629''"
    by (simp add: sample_request_def new_http_client_def)
  have "listening pairing_machine"
    using start_listening
    by (simp add: pairing_machine_def listening_def machine_inv_def client_start_def client_boot_def
        client_globals_def client_inv_def)
  from pair_request_reaches_pager [OF server_inv_init log_net_takes _ sample_frame tx find
      sample_numbers(1) this, of 1]
  show ?thesis by (simp add: pairing_machine_def)
qed

end
