(* ===== verification/Lwip_Udp.thy ===== *)
theory Lwip_Udp
  imports Pager_Prelude
begin

text \<open>
  What the DHCP and the DNS server use of lwIP, which is not part of the repository. The pure
  functions are a record of parameters \<open>lwip\<close>, with their documented behaviour in \<open>lwip_ok\<close>;
  the calls with effects are the values of \<open>udp_call\<close>, which the models return in the order
  the code makes them, and the answers lwIP gives them are arguments (\<open>net_answers\<close>).

  The rest is memory as the two servers use it: 16-bit fields and runs of bytes of a buffer.
\<close>

section \<open>lwIP\<close>

record 'p lwip =
  lwip_ntohs :: "u16 \<Rightarrow> u16"
  lwip_htons :: "u16 \<Rightarrow> u16"
  tot_len :: "'p \<Rightarrow> nat"
  pbuf_copy_partial :: "'p \<Rightarrow> nat \<Rightarrow> u8 list"

definition swap16 :: "u16 \<Rightarrow> u16" where
  "swap16 w = le_word (rev (le_bytes 2 w))"

text \<open>\<open>pbuf_copy_partial(p, buf, n, 0)\<close>: the bytes it stores, as many as it returns.\<close>

definition lwip_ok :: "'p lwip \<Rightarrow> bool" where
  "lwip_ok L \<longleftrightarrow> (\<forall>w. lwip_ntohs L w = swap16 w) \<and> (\<forall>w. lwip_htons L w = swap16 w) \<and>
     (\<forall>p n. length (pbuf_copy_partial L p n) = min n (tot_len L p))"

datatype pbuf = Received | Allocated

datatype udp_call =
    UdpNew
  | UdpRecv nat
  | UdpBind nat u32 u16
  | UdpRemove nat
  | PbufAlloc nat
  | UdpSendto nat "u8 list" u32 u16
  | PbufFree pbuf

record net_answers =
  udp_new_answer :: "nat option"
  udp_bind_answer :: int
  pbuf_alloc_answer :: bool
  udp_sendto_answer :: int

definition ENOMEM :: int where "ENOMEM = 12"

text \<open>\<open>*_socket_new_dgram\<close> and \<open>*_socket_free\<close> of both servers: the new handle and the result.\<close>

definition socket_new_dgram :: "net_answers \<Rightarrow> udp_call list \<times> nat option \<times> int" where
  "socket_new_dgram ans =
     (case udp_new_answer ans of
        None \<Rightarrow> ([UdpNew], None, - ENOMEM)
      | Some udp \<Rightarrow> ([UdpNew, UdpRecv udp], Some udp, 0))"

definition socket_free :: "nat option \<Rightarrow> udp_call list \<times> nat option" where
  "socket_free udp = (case udp of None \<Rightarrow> ([], None) | Some u \<Rightarrow> ([UdpRemove u], None))"

text \<open>\<open>*_socket_sendto\<close>: at most 65535 of the \<open>len\<close> bytes at \<open>buf\<close>.\<close>

definition socket_sendto ::
    "net_answers \<Rightarrow> nat option \<Rightarrow> u8 list \<Rightarrow> nat \<Rightarrow> u32 \<Rightarrow> u16 \<Rightarrow> (udp_call list \<times> int) result" where
  "socket_sendto ans udp buf len dest port =
     (let n = (if len > 0xffff then 0xffff else len) in
      if \<not> pbuf_alloc_answer ans then Inr ([PbufAlloc n], - ENOMEM)
      else rbind (blit (replicate n 0) 0 buf n) (\<lambda>payload.
        case udp of
          None \<Rightarrow> Inl NullPointer
        | Some u \<Rightarrow>
            Inr ([PbufAlloc n, UdpSendto u payload dest port, PbufFree Allocated],
                 if udp_sendto_answer ans \<noteq> 0 then udp_sendto_answer ans else int n)))"

text \<open>The datagrams a sequence of calls hands to \<open>udp_sendto\<close>.\<close>

fun sent_by :: "udp_call \<Rightarrow> (nat \<times> u8 list \<times> u32 \<times> u16) option" where
  "sent_by (UdpSendto u bs dest port) = Some (u, bs, dest, port)"
| "sent_by _ = None"

definition datagrams :: "udp_call list \<Rightarrow> (nat \<times> u8 list \<times> u32 \<times> u16) list" where
  "datagrams cs = List.map_filter sent_by cs"

lemma datagrams_simps [simp]:
  "datagrams [] = []"
  "datagrams (UdpSendto u bs dest port # cs) = (u, bs, dest, port) # datagrams cs"
  "datagrams (PbufAlloc n # cs) = datagrams cs"
  "datagrams (PbufFree b # cs) = datagrams cs"
  "datagrams (xs @ ys) = datagrams xs @ datagrams ys"
  by (simp_all add: datagrams_def List.map_filter_def)

lemma socket_sendto_ok:
  assumes "len \<le> length buf" "len \<le> 0xffff" "pbuf_alloc_answer ans"
  shows "socket_sendto ans (Some u) buf len dest port =
     Inr ([PbufAlloc len, UdpSendto u (take len buf) dest port, PbufFree Allocated],
          if udp_sendto_answer ans \<noteq> 0 then udp_sendto_answer ans else int len)"
  using assms by (simp add: socket_sendto_def blit_def Let_def)

lemma socket_sendto_total:
  assumes "len \<le> length buf" "len \<le> 0xffff"
  shows "\<exists>cs r. socket_sendto ans (Some u) buf len dest port = Inr (cs, r) \<and>
     count_list cs (PbufFree Received) = 0 \<and>
     length (filter (\<lambda>c. c = PbufAlloc len) cs) = 1 \<and>
     count_list cs (PbufFree Allocated) = (if pbuf_alloc_answer ans then 1 else 0) \<and>
     datagrams cs = (if pbuf_alloc_answer ans then [(u, take len buf, dest, port)] else [])"
proof (cases "pbuf_alloc_answer ans")
  case True
  then show ?thesis by (simp add: socket_sendto_ok [OF assms True])
next
  case False
  with assms(2) show ?thesis by (simp add: socket_sendto_def)
qed

section \<open>Buffers\<close>

definition get16 :: "u8 list \<Rightarrow> nat \<Rightarrow> u16 result" where
  "get16 buf off = (if off + 2 \<le> length buf then Inr (le_word (take 2 (drop off buf))) else Inl OutOfBounds)"

definition put_bytes :: "nat \<Rightarrow> u8 list \<Rightarrow> u8 list \<Rightarrow> u8 list result" where
  "put_bytes off bs buf = blit buf off bs (length bs)"

definition put16 :: "nat \<Rightarrow> u16 \<Rightarrow> u8 list \<Rightarrow> u8 list result" where
  "put16 off w buf = put_bytes off (le_bytes 2 w) buf"

lemma put_bytes_Inr:
  "off + length bs \<le> length buf \<Longrightarrow>
     put_bytes off bs buf = Inr (take off buf @ bs @ drop (off + length bs) buf)"
  by (simp add: put_bytes_def blit_def)

lemma length_put_bytes:
  "off + length bs \<le> length buf \<Longrightarrow> \<exists>buf'. put_bytes off bs buf = Inr buf' \<and> length buf' = length buf"
  by (simp add: put_bytes_Inr)

text \<open>The bytes of a field in network order.\<close>

definition be16 :: "u16 \<Rightarrow> u8 list" where
  "be16 w = rev (le_bytes 2 w)"

lemma length_be16 [simp]: "length (be16 w) = 2"
  by (simp add: be16_def)

lemma le_bytes_swap16: "le_bytes 2 (swap16 w) = be16 w"
  by (simp add: swap16_def be16_def le_bytes_le_word)

lemma swap16_be16: "swap16 (le_word (be16 w)) = w"
  by (simp add: swap16_def be16_def le_bytes_le_word le_word_le_bytes)

section \<open>An instance\<close>

text \<open>lwIP over packets that are lists of bytes.\<close>

definition list_lwip :: "u8 list lwip" where
  "list_lwip = \<lparr>lwip_ntohs = swap16, lwip_htons = swap16, tot_len = length,
     pbuf_copy_partial = \<lambda>p n. take n p\<rparr>"

lemma list_lwip_ok: "lwip_ok list_lwip"
  by (simp add: lwip_ok_def list_lwip_def min.commute)

definition good_answers :: net_answers where
  "good_answers = \<lparr>udp_new_answer = Some 7, udp_bind_answer = 0, pbuf_alloc_answer = True,
     udp_sendto_answer = 0\<rparr>"

end
