(* ===== verification/Dns_Server.thy ===== *)
theory Dns_Server
  imports Lwip_Udp
begin

text \<open>
  \<open>src/pagers-server/dnsserver/dnsserver.c\<close>: a DNS server that answers every query with its own
  address. \<open>dns_server_process\<close> is the UDP receive callback: it copies the packet into a buffer
  of 300 bytes on the stack (\<open>junk\<close> is what was there before), checks the header, walks over
  the labels of the first question and appends one answer record behind them.

  The lemmas show that no packet makes it read or write outside the buffer, that the received
  packet is released exactly once on every path, what the reply to a well-formed query is, and
  what a truncated query gets.
\<close>

section \<open>The code\<close>

definition PORT_DNS_SERVER :: u16 where "PORT_DNS_SERVER = 53"
definition MAX_DNS_MSG_SIZE :: nat where "MAX_DNS_MSG_SIZE = 300"

record dns_server =
  dns_udp :: "nat option"
  dns_ip :: u32

text \<open>The offsets of \<open>dns_header_t\<close> and its size.\<close>

definition DNS_FLAGS :: nat where "DNS_FLAGS = 2"
definition DNS_QUESTION_COUNT :: nat where "DNS_QUESTION_COUNT = 4"
definition DNS_ANSWER_COUNT :: nat where "DNS_ANSWER_COUNT = 6"
definition DNS_AUTHORITY_COUNT :: nat where "DNS_AUTHORITY_COUNT = 8"
definition DNS_ADDITIONAL_COUNT :: nat where "DNS_ADDITIONAL_COUNT = 10"
definition DNS_HEADER_SIZE :: nat where "DNS_HEADER_SIZE = 12"

lemmas dns_layout = DNS_FLAGS_def DNS_QUESTION_COUNT_def DNS_ANSWER_COUNT_def DNS_AUTHORITY_COUNT_def
  DNS_ADDITIONAL_COUNT_def DNS_HEADER_SIZE_def MAX_DNS_MSG_SIZE_def

text \<open>The loop over the labels, from \<open>ptr\<close>; \<open>None\<close> is the jump to \<open>ignore_request\<close>.\<close>

function dns_labels :: "u8 list \<Rightarrow> nat \<Rightarrow> nat \<Rightarrow> nat option result" where
  "dns_labels buf stop ptr =
     (if ptr < stop then
        rbind (arr_get buf ptr) (\<lambda>b.
          if b = 0 then Inr (Some (ptr + 1))
          else if unat b > 63 then Inr None
          else dns_labels buf stop (ptr + 1 + unat b))
      else Inr (Some ptr))"
  by pat_completeness auto
termination by (relation "measure (\<lambda>(buf, stop, ptr). stop - ptr)") auto

declare dns_labels.simps [simp del]

text \<open>The answer record: the name as a pointer to the question, type, class, ttl, length, address.\<close>

definition dns_answer :: "u32 \<Rightarrow> u8 list" where
  "dns_answer ip =
     [0xc0, of_nat DNS_HEADER_SIZE, 0, 1, 0, 1, 0, 0, 0, 60, 0, 4] @ le_bytes 4 ip"

definition dns_reply :: "'p lwip \<Rightarrow> u32 \<Rightarrow> nat \<Rightarrow> u8 list \<Rightarrow> u8 list result" where
  "dns_reply L ip ptr buf =
     rbind (put_bytes ptr (dns_answer ip) buf) (\<lambda>b1.
     rbind (put16 DNS_FLAGS (lwip_htons L (push_bit 15 1 OR push_bit 10 1 OR push_bit 7 1)) b1) (\<lambda>b2.
     rbind (put16 DNS_QUESTION_COUNT (lwip_htons L 1) b2) (\<lambda>b3.
     rbind (put16 DNS_ANSWER_COUNT (lwip_htons L 1) b3) (\<lambda>b4.
     rbind (put16 DNS_AUTHORITY_COUNT 0 b4) (\<lambda>b5.
       put16 DNS_ADDITIONAL_COUNT 0 b5)))))"

text \<open>The checks of the header, in order: a query, a standard one, with a question.\<close>

definition dns_accepts :: "u16 \<Rightarrow> u16 \<Rightarrow> bool" where
  "dns_accepts flags question_count \<longleftrightarrow>
     drop_bit 15 flags AND 1 = 0 \<and> drop_bit 11 flags AND 0xf = 0 \<and> \<not> question_count < 1"

definition dns_handle ::
    "'p lwip \<Rightarrow> net_answers \<Rightarrow> dns_server \<Rightarrow> u8 list \<Rightarrow> nat \<Rightarrow> u32 \<Rightarrow> u16 \<Rightarrow> udp_call list result" where
  "dns_handle L ans d dns_msg msg_len src_addr src_port =
     (if msg_len < DNS_HEADER_SIZE then Inr []
      else
        rbind (get16 dns_msg DNS_FLAGS) (\<lambda>f.
        rbind (get16 dns_msg DNS_QUESTION_COUNT) (\<lambda>q.
          if \<not> dns_accepts (lwip_ntohs L f) (lwip_ntohs L q) then Inr []
          else
            rbind (dns_labels dns_msg msg_len DNS_HEADER_SIZE) (\<lambda>res.
              case res of
                None \<Rightarrow> Inr []
              | Some question_ptr \<Rightarrow>
                  if question_ptr - DNS_HEADER_SIZE > 255 then Inr []
                  else
                    let ptr = question_ptr + 4 in
                    rbind (dns_reply L (dns_ip d) ptr dns_msg) (\<lambda>reply.
                    rbind (socket_sendto ans (dns_udp d) reply
                             (ptr + length (dns_answer (dns_ip d))) src_addr src_port)
                      (\<lambda>(calls, _). Inr calls))))))"

definition dns_server_process ::
    "'p lwip \<Rightarrow> net_answers \<Rightarrow> dns_server \<Rightarrow> u8 list \<Rightarrow> 'p \<Rightarrow> u32 \<Rightarrow> u16 \<Rightarrow> udp_call list result" where
  "dns_server_process L ans d junk p src_addr src_port =
     (let msg = pbuf_copy_partial L p MAX_DNS_MSG_SIZE in
      rbind (blit junk 0 msg (length msg)) (\<lambda>dns_msg.
      rbind (dns_handle L ans d dns_msg (length msg) src_addr src_port) (\<lambda>calls.
        Inr (calls @ [PbufFree Received]))))"

text \<open>Setting up and closing; the handle and the address of the server structure.\<close>

definition dns_server_init :: "net_answers \<Rightarrow> dns_server \<Rightarrow> u32 \<Rightarrow> udp_call list \<times> dns_server" where
  "dns_server_init ans d ip =
     (let (calls, udp, r) = socket_new_dgram ans;
          d1 = d\<lparr>dns_udp := udp\<rparr>
      in if r \<noteq> 0 then (calls, d1)
         else (let calls' = calls @ [UdpBind (the udp) 0 PORT_DNS_SERVER]
               in if udp_bind_answer ans \<noteq> 0 then (calls', d1)
                  else (calls', d1\<lparr>dns_ip := ip\<rparr>)))"

definition dns_server_deinit :: "dns_server \<Rightarrow> udp_call list \<times> dns_server" where
  "dns_server_deinit d =
     (let (calls, udp) = socket_free (dns_udp d) in (calls, d\<lparr>dns_udp := udp\<rparr>))"

section \<open>The walk over the labels\<close>

lemma dns_labels_step:
  "ptr < stop \<Longrightarrow> stop \<le> length buf \<Longrightarrow> dns_labels buf stop ptr =
     (if buf ! ptr = 0 then Inr (Some (ptr + 1))
      else if unat (buf ! ptr) > 63 then Inr None
      else dns_labels buf stop (ptr + 1 + unat (buf ! ptr)))"
  "stop \<le> ptr \<Longrightarrow> dns_labels buf stop ptr = Inr (Some ptr)"
  by (subst dns_labels.simps, simp add: arr_get_Inr) (subst dns_labels.simps, simp)

lemma dns_labels_total:
  "stop \<le> length buf \<Longrightarrow> \<exists>res. dns_labels buf stop ptr = Inr res \<and>
     (\<forall>q. res = Some q \<longrightarrow> ptr \<le> q \<and> q \<le> max ptr (stop + 63))"
proof (induction buf stop ptr rule: dns_labels.induct)
  case (1 buf stop ptr)
  show ?case
  proof (cases "ptr < stop")
    case True
    let ?b = "buf ! ptr"
    consider "?b = 0" | "?b \<noteq> 0" "unat ?b > 63" | "?b \<noteq> 0" "unat ?b \<le> 63" by linarith
    then show ?thesis
    proof cases
      case 3
      with 1 True have "\<exists>res. dns_labels buf stop (ptr + 1 + unat ?b) = Inr res \<and>
          (\<forall>q. res = Some q \<longrightarrow> ptr + 1 + unat ?b \<le> q \<and> q \<le> max (ptr + 1 + unat ?b) (stop + 63))"
        by (simp add: arr_get_Inr)
      with 3 True 1(2) show ?thesis by (auto simp: dns_labels_step)
    qed (use True 1(2) in \<open>auto simp: dns_labels_step\<close>)
  qed (auto simp: dns_labels_step)
qed

text \<open>A name: its labels with their lengths, and the empty label.\<close>

definition encode_name :: "u8 list list \<Rightarrow> u8 list" where
  "encode_name ls = concat (map (\<lambda>l. of_nat (length l) # l) ls) @ [0]"

definition labels_ok :: "u8 list list \<Rightarrow> bool" where
  "labels_ok ls \<longleftrightarrow> list_all (\<lambda>l. 0 < length l \<and> length l \<le> 63) ls \<and> length (encode_name ls) \<le> 255"

lemma unat_length_label: "n \<le> 63 \<Longrightarrow> unat (of_nat n :: u8) = n"
  by (simp add: unat_of_nat)

lemma dns_labels_name:
  assumes "stop \<le> length buf" "drop ptr (take stop buf) = encode_name ls @ rest"
    and "list_all (\<lambda>l. 0 < length l \<and> length l \<le> 63) ls"
  shows "dns_labels buf stop ptr = Inr (Some (ptr + length (encode_name ls)))"
  using assms(2,3)
proof (induction ls arbitrary: ptr)
  case Nil
  then have "ptr < stop" using assms(1) by (auto simp: encode_name_def min_def intro: ccontr)
  moreover have "buf ! ptr = 0"
    using Nil(1) \<open>ptr < stop\<close> assms(1) nth_via_drop [of ptr "take stop buf" 0 rest]
    by (simp add: encode_name_def)
  ultimately show ?case using assms(1) by (simp add: dns_labels_step encode_name_def)
next
  case (Cons l ls)
  let ?n = "length l"
  have n: "0 < ?n" "?n \<le> 63" using Cons.prems(2) by simp_all
  have enc: "encode_name (l # ls) = of_nat ?n # l @ encode_name ls" by (simp add: encode_name_def)
  have ptr: "ptr < stop"
    using Cons.prems(1) unfolding enc by (auto simp: not_less [symmetric] intro: ccontr)
  have b: "buf ! ptr = of_nat ?n"
    using Cons.prems(1) ptr assms(1) nth_via_drop [of ptr "take stop buf"] unfolding enc by simp
  have u: "unat (buf ! ptr) = ?n" unfolding b by (rule unat_length_label [OF n(2)])
  have "buf ! ptr \<noteq> 0" using u n(1) by auto
  moreover have "drop (ptr + 1 + ?n) (take stop buf) = encode_name ls @ rest"
    using arg_cong [OF Cons.prems(1), of "drop (1 + ?n)"] unfolding enc by (simp add: add.commute add.left_commute)
  with Cons have "dns_labels buf stop (ptr + 1 + ?n) =
      Inr (Some (ptr + 1 + ?n + length (encode_name ls)))" by simp
  ultimately show ?case using ptr assms(1) n u by (simp add: dns_labels_step enc)
qed

lemma dns_one_label:
  assumes "buf ! 12 = of_nat n" "13 \<le> length buf" "0 < n" "n \<le> 63"
  shows "dns_labels buf 13 12 = Inr (Some (13 + n))"
proof -
  have u: "unat (of_nat n :: u8) = n" by (rule unat_length_label [OF assms(4)])
  then have "(of_nat n :: u8) \<noteq> 0" using assms(3) by auto
  then show ?thesis
    using dns_labels_step(1) [of 12 13 buf] dns_labels_step(2) [of 13 "13 + n" buf] assms(2,4)
    by (simp add: assms(1) u)
qed

section \<open>The reply\<close>

lemma put_bytes_mid:
  "length bs = length ys \<Longrightarrow> put_bytes (length xs) bs (xs @ ys @ zs) = Inr (xs @ bs @ zs)"
  by (simp add: put_bytes_Inr)

lemma length_dns_answer [simp]: "length (dns_answer ip) = 16"
  by (simp add: dns_answer_def)

definition dns_reply_header :: "u8 list \<Rightarrow> u8 list" where
  "dns_reply_header buf = take 2 buf @ [0x84, 0x80, 0, 1, 0, 1, 0, 0, 0, 0]"

lemma reply_words:
  "(push_bit 15 1 OR push_bit 10 1 OR push_bit 7 1 :: u16) = 0x8480"
  "be16 0x8480 = [0x84, 0x80]" "be16 1 = [0, 1]" "le_bytes 2 (0 :: u16) = [0, 0]"
proof -
  show "(push_bit 15 1 OR push_bit 10 1 OR push_bit 7 1 :: u16) = 0x8480" by code_simp
  show "be16 0x8480 = [0x84, 0x80]" "be16 1 = [0, 1]" "le_bytes 2 (0 :: u16) = [0, 0]"
    by code_simp+
qed

lemma reply_fields:
  "le_bytes 2 (swap16 (push_bit 15 1 OR push_bit 10 1 OR push_bit 7 1)) = [0x84, 0x80]"
  "le_bytes 2 (swap16 1) = [0, 1]" "le_bytes 2 (0 :: u16) = [0, 0]"
  by (simp_all only: le_bytes_swap16 reply_words)

lemma twelve_cells:
  assumes "12 \<le> length buf"
  shows "\<exists>a0 a1 a2 a3 a4 a5 a6 a7 a8 a9 a10 a11 bs.
    buf = a0 # a1 # a2 # a3 # a4 # a5 # a6 # a7 # a8 # a9 # a10 # a11 # bs"
  using assms by (simp add: Suc_le_length_iff numeral_eq_Suc) blast

lemma dns_reply_value:
  assumes "lwip_ok L" "12 \<le> ptr" "ptr + 16 \<le> length buf"
  shows "dns_reply L ip ptr buf =
     Inr (dns_reply_header buf @ take (ptr - 12) (drop 12 buf) @ dns_answer ip @ drop (ptr + 16) buf)"
proof -
  have "12 \<le> length buf" using assms(2,3) by simp
  from twelve_cells [OF this] obtain a0 a1 a2 a3 a4 a5 a6 a7 a8 a9 a10 a11 bs where
    buf: "buf = a0 # a1 # a2 # a3 # a4 # a5 # a6 # a7 # a8 # a9 # a10 # a11 # bs" by blast
  obtain k where k: "ptr = k + 12" using assms(2) by (metis le_add_diff_inverse2)
  let ?tl = "take k bs @ dns_answer ip @ drop (k + 16) bs"
  have "drop (ptr + 16) buf = drop (k + 16) (drop 12 buf)"
    unfolding k drop_drop by (simp add: add.commute add.left_commute)
  then have rest: "drop (ptr + 16) buf = drop (k + 16) bs" by (simp add: buf)
  have mid: "take (ptr - 12) (drop 12 buf) = take k bs" by (simp add: k buf)
  have "take ptr buf = take 12 buf @ take k (drop 12 buf)" unfolding k by (metis add.commute take_add)
  then have "take ptr buf = a0 # a1 # a2 # a3 # a4 # a5 # a6 # a7 # a8 # a9 # a10 # a11 # take k bs"
    by (simp add: buf)
  then have b1: "put_bytes ptr (dns_answer ip) buf =
      Inr (a0 # a1 # a2 # a3 # a4 # a5 # a6 # a7 # a8 # a9 # a10 # a11 # ?tl)"
    using assms(3) rest by (simp add: put_bytes_Inr)
  have h: "lwip_htons L w = swap16 w" for w using assms(1) by (simp add: lwip_ok_def)
  show ?thesis
    unfolding dns_reply_def b1 rbind_simps put16_def h reply_fields dns_layout dns_reply_header_def rest mid
    by (simp add: put_bytes_def blit_def buf)
qed

lemma length_dns_reply:
  assumes "lwip_ok L" "12 \<le> ptr" "ptr + 16 \<le> length buf"
  shows "\<exists>reply. dns_reply L ip ptr buf = Inr reply \<and> length reply = length buf"
  using dns_reply_value [OF assms] assms(2,3) by (simp add: dns_reply_header_def)

lemma take_exact: "length xs = n \<Longrightarrow> take n (xs @ ys) = xs"
  by simp

text \<open>Every path of the handler; \<open>calls\<close> is what it asks of lwIP.\<close>

lemma dns_handle_total:
  assumes "lwip_ok L" "length dns_msg = MAX_DNS_MSG_SIZE" "msg_len \<le> MAX_DNS_MSG_SIZE"
    and "dns_udp d = Some u"
  shows "\<exists>calls. dns_handle L ans d dns_msg msg_len src port = Inr calls \<and>
     count_list calls (PbufFree Received) = 0 \<and>
     count_list calls (PbufFree Allocated) = length (datagrams calls) \<and> length (datagrams calls) \<le> 1 \<and>
     (\<forall>(u', bs, dest, port')\<in>set (datagrams calls). u' = u \<and> length bs \<le> 287 \<and> dest = src \<and> port' = port)"
proof (cases "msg_len < DNS_HEADER_SIZE")
  case False
  obtain f q where fq: "get16 dns_msg DNS_FLAGS = Inr f" "get16 dns_msg DNS_QUESTION_COUNT = Inr q"
    using assms(2) by (simp add: get16_def dns_layout)
  from dns_labels_total [of msg_len dns_msg DNS_HEADER_SIZE] assms(2,3) obtain res where
    res: "dns_labels dns_msg msg_len DNS_HEADER_SIZE = Inr res"
      "\<And>q. res = Some q \<Longrightarrow> DNS_HEADER_SIZE \<le> q" by auto
  show ?thesis
  proof (cases "dns_accepts (lwip_ntohs L f) (lwip_ntohs L q) \<and>
      (\<exists>p. res = Some p \<and> \<not> p - DNS_HEADER_SIZE > 255)")
    case True
    then obtain p where p: "dns_accepts (lwip_ntohs L f) (lwip_ntohs L q)" "res = Some p"
      "\<not> p - DNS_HEADER_SIZE > 255" by blast
    let ?ptr = "p + 4"
    have ptr: "12 \<le> ?ptr" "?ptr + 16 \<le> length dns_msg" "?ptr + 16 \<le> 287"
      using p(3) res(2) [OF p(2)] assms(2) by (simp_all add: dns_layout)
    from length_dns_reply [OF assms(1) ptr(1,2), of "dns_ip d"] obtain reply where
      r: "dns_reply L (dns_ip d) ?ptr dns_msg = Inr reply" "length reply = length dns_msg" by blast
    have "?ptr + 16 \<le> length reply" "?ptr + 16 \<le> 0xffff" using ptr r(2) by simp_all
    from socket_sendto_total [OF this, of ans u src port] obtain cs rr where
      cs: "socket_sendto ans (Some u) reply (?ptr + 16) src port = Inr (cs, rr)"
        "count_list cs (PbufFree Received) = 0"
        "count_list cs (PbufFree Allocated) = (if pbuf_alloc_answer ans then 1 else 0)"
        "datagrams cs = (if pbuf_alloc_answer ans then [(u, take (?ptr + 16) reply, src, port)] else [])"
      by blast
    have "dns_handle L ans d dns_msg msg_len src port = Inr cs"
      using False fq res(1) p r(1) cs(1) assms(4) by (simp add: dns_handle_def Let_def)
    with cs(2-4) ptr(3) show ?thesis by auto
  next
    case no: False
    have "dns_handle L ans d dns_msg msg_len src port = Inr []"
    proof (cases "dns_accepts (lwip_ntohs L f) (lwip_ntohs L q)")
      case True
      with no have "res = None \<or> (\<exists>p. res = Some p \<and> p - DNS_HEADER_SIZE > 255)" by (cases res) auto
      with True False fq res(1) show ?thesis by (auto simp: dns_handle_def)
    qed (use False fq in \<open>simp add: dns_handle_def\<close>)
    then show ?thesis by simp
  qed
qed (simp add: dns_handle_def)

lemma copied_packet:
  assumes "lwip_ok L" "length junk = MAX_DNS_MSG_SIZE" "msg = pbuf_copy_partial L p MAX_DNS_MSG_SIZE"
  shows "blit junk 0 msg (length msg) = Inr (msg @ drop (length msg) junk)"
    "length (msg @ drop (length msg) junk) = MAX_DNS_MSG_SIZE" "length msg \<le> MAX_DNS_MSG_SIZE"
proof -
  show "length msg \<le> MAX_DNS_MSG_SIZE" using assms(1,3) by (simp add: lwip_ok_def)
  then show "blit junk 0 msg (length msg) = Inr (msg @ drop (length msg) junk)"
    "length (msg @ drop (length msg) junk) = MAX_DNS_MSG_SIZE"
    using assms(2) by (simp_all add: blit_def)
qed

text \<open>A packet that is accepted, up to and including the walk over its labels.\<close>

lemma dns_handle_value:
  assumes "lwip_ok L" "dns_udp d = Some u" "pbuf_alloc_answer ans" "DNS_HEADER_SIZE \<le> n"
    and "get16 buf DNS_FLAGS = Inr f" "get16 buf DNS_QUESTION_COUNT = Inr c"
    and "dns_accepts (swap16 f) (swap16 c)"
    and "dns_labels buf n DNS_HEADER_SIZE = Inr (Some q)" "q - DNS_HEADER_SIZE \<le> 255"
    and "dns_reply L (dns_ip d) (q + 4) buf = Inr reply"
    and "q + 20 \<le> length reply" "take (q + 20) reply = sent"
  shows "dns_handle L ans d buf n src port =
     Inr [PbufAlloc (q + 20), UdpSendto u sent src port, PbufFree Allocated]"
proof -
  have ntohs: "lwip_ntohs L w = swap16 w" for w using assms(1) by (simp add: lwip_ok_def)
  have "q + 20 \<le> 0xffff" using assms(9) by (simp add: dns_layout)
  from socket_sendto_ok [OF assms(11) this assms(3), of u src port] assms(12)
  have "socket_sendto ans (Some u) reply (q + 20) src port =
      Inr ([PbufAlloc (q + 20), UdpSendto u sent src port, PbufFree Allocated],
        if udp_sendto_answer ans \<noteq> 0 then udp_sendto_answer ans else int (q + 20))" by simp
  with assms show ?thesis by (simp add: dns_handle_def Let_def ntohs add.commute [of 20])
qed

lemma dns_process_value:
  assumes "lwip_ok L" "length junk = MAX_DNS_MSG_SIZE" "dns_udp d = Some u" "pbuf_alloc_answer ans"
    and "msg = pbuf_copy_partial L p MAX_DNS_MSG_SIZE" "DNS_HEADER_SIZE \<le> length msg"
    and "dns_accepts (swap16 (le_word (take 2 (drop 2 msg)))) (swap16 (le_word (take 2 (drop 4 msg))))"
    and "dns_labels (msg @ drop (length msg) junk) (length msg) DNS_HEADER_SIZE = Inr (Some q)"
    and "DNS_HEADER_SIZE \<le> q" "q \<le> DNS_HEADER_SIZE + 255"
  shows "dns_server_process L ans d junk p src port =
     Inr [PbufAlloc (q + 20),
          UdpSendto u (dns_reply_header msg @ take (q - 8) (drop 12 (msg @ drop (length msg) junk)) @
            dns_answer (dns_ip d)) src port,
          PbufFree Allocated, PbufFree Received]"
proof -
  define buf where "buf = msg @ drop (length msg) junk"
  note c = copied_packet [OF assms(1,2,5), folded buf_def]
  have ptr: "12 \<le> q + 4" "q + 4 + 16 \<le> length buf"
    using assms(9,10) c(2) by (simp_all add: dns_layout)
  have m: "12 \<le> length msg" using assms(6) by (simp add: dns_layout)
  then have hdr: "dns_reply_header buf = dns_reply_header msg" "length (dns_reply_header msg) = 12"
    by (simp_all add: dns_reply_header_def buf_def)
  have fields: "get16 buf DNS_FLAGS = Inr (le_word (take 2 (drop 2 msg)))"
    "get16 buf DNS_QUESTION_COUNT = Inr (le_word (take 2 (drop 4 msg)))"
    using m by (simp_all add: get16_def dns_layout buf_def)
  define sent where "sent = dns_reply_header msg @ take (q - 8) (drop 12 buf) @ dns_answer (dns_ip d)"
  define reply where "reply = sent @ drop (q + 20) buf"
  have r: "dns_reply L (dns_ip d) (q + 4) buf = Inr reply"
    using dns_reply_value [OF assms(1) ptr, of "dns_ip d"] by (simp add: hdr(1) reply_def sent_def add.commute [of 20])
  have len: "length sent = q + 20"
    using ptr assms(9) hdr(2) by (simp add: sent_def dns_layout)
  then have "q + 20 \<le> length reply" "take (q + 20) reply = sent" by (simp_all add: reply_def)
  moreover have "q - DNS_HEADER_SIZE \<le> 255" using assms(10) by simp
  ultimately have "dns_handle L ans d buf (length msg) src port =
      Inr [PbufAlloc (q + 20), UdpSendto u sent src port, PbufFree Allocated]"
    using dns_handle_value [OF assms(1,3,4,6) fields assms(7) assms(8) [folded buf_def] _ r] by blast
  then show ?thesis
    unfolding dns_server_process_def Let_def assms(5) [symmetric] c(1) rbind_simps
    by (simp add: sent_def buf_def del: drop_append take_append)
qed

section \<open>Properties\<close>

text \<open>C27. No packet breaks the DNS server: whatever arrives, and whatever was on the stack, it reads
  and writes inside its 300-byte buffer only, sends at most one reply of at most 287 bytes,
  back to the sender, releases the buffer of every reply it sent, and releases the received
  packet exactly once.\<close>

theorem dns_safe_on_any_packet:
  assumes "lwip_ok L" "length junk = MAX_DNS_MSG_SIZE" "dns_udp d = Some u"
  shows "\<exists>calls. dns_server_process L ans d junk p src port = Inr calls \<and>
     count_list calls (PbufFree Received) = 1 \<and>
     count_list calls (PbufFree Allocated) = length (datagrams calls) \<and> length (datagrams calls) \<le> 1 \<and>
     (\<forall>(u', bs, dest, port')\<in>set (datagrams calls). u' = u \<and> length bs \<le> 287 \<and> dest = src \<and> port' = port)"
proof -
  note c = copied_packet [OF assms(1,2) refl, of p]
  from dns_handle_total [OF assms(1) c(2,3) assms(3), of ans src port] obtain calls where
    h: "dns_handle L ans d (pbuf_copy_partial L p MAX_DNS_MSG_SIZE @
          drop (length (pbuf_copy_partial L p MAX_DNS_MSG_SIZE)) junk)
          (length (pbuf_copy_partial L p MAX_DNS_MSG_SIZE)) src port = Inr calls"
      "count_list calls (PbufFree Received) = 0"
      "count_list calls (PbufFree Allocated) = length (datagrams calls)" "length (datagrams calls) \<le> 1"
      "\<forall>(u', bs, dest, port')\<in>set (datagrams calls). u' = u \<and> length bs \<le> 287 \<and> dest = src \<and> port' = port"
    by blast
  then show ?thesis by (simp add: dns_server_process_def Let_def c(1))
qed

theorem dns_safe_on_any_packet_witness:
  "\<exists>calls. dns_server_process list_lwip good_answers \<lparr>dns_udp = Some 7, dns_ip = 0x0104A8C0\<rparr>
       (replicate 300 0xAA) (replicate 1000 0x3F) 9 5353 = Inr calls \<and>
     count_list calls (PbufFree Received) = 1"
proof -
  have "length (replicate 300 (0xAA :: u8)) = MAX_DNS_MSG_SIZE" by (simp add: dns_layout)
  from dns_safe_on_any_packet [OF list_lwip_ok this, of "\<lparr>dns_udp = Some 7, dns_ip = 0x0104A8C0\<rparr>" 7
      good_answers "replicate 1000 0x3F" 9 5353] show ?thesis by auto
qed

text \<open>C28. Every query is answered with the server's address: for a query whose header asks a
  standard question and whose name has labels of 1 to 63 bytes, 255 at most in all, the reply
  is the query's id, the flags of an authoritative answer, one question and one answer, the
  question as it was asked, and the record that points at it with the address for 60 seconds.\<close>

theorem dns_answers_queries:
  assumes "lwip_ok L" "length junk = MAX_DNS_MSG_SIZE" "dns_udp d = Some u" "pbuf_alloc_answer ans"
    and "pbuf_copy_partial L p MAX_DNS_MSG_SIZE =
      qid @ be16 flags @ be16 questions @ counts @ encode_name ls @ qtail @ rest"
    and "length qid = 2" "length counts = 6" "length qtail = 4" "labels_ok ls"
    and "dns_accepts flags questions"
  shows "\<exists>calls. dns_server_process L ans d junk p src port = Inr calls \<and>
     datagrams calls = [(u, qid @ [0x84, 0x80, 0, 1, 0, 1, 0, 0, 0, 0] @ encode_name ls @ qtail @
       [0xc0, 12, 0, 1, 0, 1, 0, 0, 0, 60, 0, 4] @ le_bytes 4 (dns_ip d), src, port)]"
proof -
  let ?msg = "qid @ be16 flags @ be16 questions @ counts @ encode_name ls @ qtail @ rest"
  let ?buf = "?msg @ drop (length ?msg) junk"
  let ?q = "DNS_HEADER_SIZE + length (encode_name ls)"
  note c = copied_packet [OF assms(1,2) assms(5) [symmetric]]
  have body: "drop 12 ?msg = encode_name ls @ qtail @ rest" using assms(6,7) by simp
  have fields: "take 2 (drop 2 ?msg) = be16 flags" "take 2 (drop 4 ?msg) = be16 questions"
    using assms(6) by simp_all
  have hs: "DNS_HEADER_SIZE \<le> length ?msg" using assms(6,7) by (simp add: dns_layout)
  have lab: "dns_labels ?buf (length ?msg) DNS_HEADER_SIZE = Inr (Some ?q)"
  proof (rule dns_labels_name)
    show "length ?msg \<le> length ?buf" by simp
    show "drop DNS_HEADER_SIZE (take (length ?msg) ?buf) = encode_name ls @ qtail @ rest"
      using body by (simp add: dns_layout del: drop_append)
    show "list_all (\<lambda>l. 0 < length l \<and> length l \<le> 63) ls" using assms(9) by (simp add: labels_ok_def)
  qed
  have acc: "dns_accepts (swap16 (le_word (take 2 (drop 2 ?msg)))) (swap16 (le_word (take 2 (drop 4 ?msg))))"
    unfolding fields swap16_be16 by (rule assms(10))
  have "?q \<le> DNS_HEADER_SIZE + 255" using assms(9) by (simp add: labels_ok_def)
  from dns_process_value [OF assms(1-4) assms(5) [symmetric] hs acc lab _ this, of src port]
  have "dns_server_process L ans d junk p src port =
     Inr [PbufAlloc (?q + 20),
          UdpSendto u (dns_reply_header ?msg @ take (?q - 8) (drop 12 ?buf) @ dns_answer (dns_ip d)) src port,
          PbufFree Allocated, PbufFree Received]" by simp
  moreover have "take (?q - 8) (drop 12 ?buf) = encode_name ls @ qtail"
  proof -
    have "drop 12 (?msg @ xs) = (encode_name ls @ qtail) @ (rest @ xs)" for xs
      using assms(6,7) by simp
    moreover have "length (encode_name ls @ qtail) = ?q - 8" using assms(8) by (simp add: dns_layout)
    ultimately show ?thesis using take_exact by metis
  qed
  moreover have "dns_reply_header ?msg = qid @ [0x84, 0x80, 0, 1, 0, 1, 0, 0, 0, 0]"
    using assms(6) by (simp add: dns_reply_header_def)
  moreover have "dns_answer (dns_ip d) = [0xc0, 12, 0, 1, 0, 1, 0, 0, 0, 60, 0, 4] @ le_bytes 4 (dns_ip d)"
    by (simp add: dns_answer_def dns_layout)
  ultimately have "dns_server_process L ans d junk p src port =
     Inr [PbufAlloc (?q + 20),
          UdpSendto u ((qid @ [0x84, 0x80, 0, 1, 0, 1, 0, 0, 0, 0]) @ (encode_name ls @ qtail) @
            [0xc0, 12, 0, 1, 0, 1, 0, 0, 0, 60, 0, 4] @ le_bytes 4 (dns_ip d)) src port,
          PbufFree Allocated, PbufFree Received]" by (simp only:)
  then show ?thesis by (intro exI conjI, assumption) simp
qed

theorem dns_answers_queries_witness:
  "\<exists>calls. dns_server_process list_lwip good_answers \<lparr>dns_udp = Some 7, dns_ip = 0x0104A8C0\<rparr>
       (replicate 300 0) ([0xBE, 0xEF] @ be16 0x0100 @ be16 1 @ [0, 0, 0, 0, 0, 0] @
          encode_name [[112, 105], [104]] @ [0, 1, 0, 1]) 9 5353 = Inr calls \<and>
     datagrams calls = [(7, [0xBE, 0xEF] @ [0x84, 0x80, 0, 1, 0, 1, 0, 0, 0, 0] @
       encode_name [[112, 105], [104]] @ [0, 1, 0, 1] @
       [0xc0, 12, 0, 1, 0, 1, 0, 0, 0, 60, 0, 4] @ le_bytes 4 (0x0104A8C0 :: u32), 9, 5353)]"
proof -
  let ?d = "\<lparr>dns_udp = Some 7, dns_ip = 0x0104A8C0\<rparr>"
  let ?p = "[0xBE, 0xEF] @ be16 0x0100 @ be16 1 @ [0, 0, 0, 0, 0, 0] @
    encode_name [[112, 105], [104]] @ [0, 1, 0, 1] @ []"
  have name: "labels_ok [[112, 105], [104]]" "length (encode_name [[112, 105], [104]]) = 6"
    by (simp_all add: labels_ok_def encode_name_def)
  have p: "pbuf_copy_partial list_lwip ?p MAX_DNS_MSG_SIZE = ?p"
    by (simp add: list_lwip_def dns_layout name(2))
  have acc: "dns_accepts 0x0100 1" by code_simp
  show ?thesis
    using dns_answers_queries [OF list_lwip_ok _ _ _ p _ _ _ name(1) acc, of "replicate 300 0" ?d 7
        good_answers 9 5353]
    by (simp add: dns_layout good_answers_def)
qed

text \<open>A truncated query is answered with what was on the stack: when the packet ends behind the
  length byte of a label, the reply still goes out, and the bytes where the label and the type
  should be are the ones the 300-byte buffer held before the packet was copied into it.\<close>

theorem dns_truncated_query_leaks_stack:
  assumes "lwip_ok L" "length junk = MAX_DNS_MSG_SIZE" "dns_udp d = Some u" "pbuf_alloc_answer ans"
    and "pbuf_copy_partial L p MAX_DNS_MSG_SIZE = qid @ be16 flags @ be16 questions @ counts @ [of_nat n]"
    and "length qid = 2" "length counts = 6" "0 < n" "n \<le> 63" "dns_accepts flags questions"
  shows "\<exists>calls. dns_server_process L ans d junk p src port = Inr calls \<and>
     datagrams calls = [(u, qid @ [0x84, 0x80, 0, 1, 0, 1, 0, 0, 0, 0] @ [of_nat n] @
       take (n + 4) (drop 13 junk) @ dns_answer (dns_ip d), src, port)]"
proof -
  let ?msg = "qid @ be16 flags @ be16 questions @ counts @ [of_nat n]"
  let ?buf = "?msg @ drop (length ?msg) junk"
  have len: "length ?msg = 13" using assms(6,7) by simp
  have at: "?buf ! 12 = of_nat n" using assms(6,7) by (simp add: nth_append)
  have "13 \<le> length ?buf" using len by (simp del: append_assoc)
  from dns_one_label [OF at this assms(8,9)]
  have lab: "dns_labels ?buf (length ?msg) DNS_HEADER_SIZE = Inr (Some (13 + n))"
    unfolding len by (simp add: dns_layout del: append_assoc)
  have fields: "take 2 (drop 2 ?msg) = be16 flags" "take 2 (drop 4 ?msg) = be16 questions"
    using assms(6) by simp_all
  have acc: "dns_accepts (swap16 (le_word (take 2 (drop 2 ?msg)))) (swap16 (le_word (take 2 (drop 4 ?msg))))"
    unfolding fields swap16_be16 by (rule assms(10))
  have hs: "DNS_HEADER_SIZE \<le> length ?msg" unfolding len by (simp add: dns_layout)
  have "DNS_HEADER_SIZE \<le> 13 + n" "13 + n \<le> DNS_HEADER_SIZE + 255"
    using assms(9) by (simp_all add: dns_layout)
  from dns_process_value [OF assms(1-4) assms(5) [symmetric] hs acc lab this, of src port]
  have "dns_server_process L ans d junk p src port =
     Inr [PbufAlloc (13 + n + 20),
          UdpSendto u (dns_reply_header ?msg @ take (13 + n - 8) (drop 12 ?buf) @ dns_answer (dns_ip d)) src port,
          PbufFree Allocated, PbufFree Received]" .
  moreover have "drop 12 (?msg @ xs) = of_nat n # xs" for xs using assms(6,7) by simp
  then have "take (13 + n - 8) (drop 12 ?buf) = of_nat n # take (n + 4) (drop 13 junk)"
    unfolding len by (simp add: take_Cons' add.commute [of n])
  moreover have "dns_reply_header ?msg = qid @ [0x84, 0x80, 0, 1, 0, 1, 0, 0, 0, 0]"
    using assms(6) by (simp add: dns_reply_header_def)
  ultimately show ?thesis by simp
qed

theorem dns_truncated_query_leaks_stack_witness:
  "\<exists>calls. dns_server_process list_lwip good_answers \<lparr>dns_udp = Some 7, dns_ip = 0x0104A8C0\<rparr>
       (replicate 300 0x5A) ([0, 1] @ be16 0 @ be16 1 @ [0, 0, 0, 0, 0, 0] @ [3]) 9 5353 = Inr calls \<and>
     datagrams calls = [(7, [0, 1] @ [0x84, 0x80, 0, 1, 0, 1, 0, 0, 0, 0] @ [3] @
       replicate 7 0x5A @ dns_answer 0x0104A8C0, 9, 5353)]"
proof -
  let ?d = "\<lparr>dns_udp = Some 7, dns_ip = 0x0104A8C0\<rparr>"
  let ?p = "[0, 1] @ be16 0 @ be16 1 @ [0, 0, 0, 0, 0, 0] @ [of_nat 3]"
  have p: "pbuf_copy_partial list_lwip ?p MAX_DNS_MSG_SIZE = ?p"
    by (simp add: list_lwip_def dns_layout)
  have acc: "dns_accepts 0 1" by code_simp
  show ?thesis
    using dns_truncated_query_leaks_stack [OF list_lwip_ok _ _ _ p _ _ _ _ acc, of "replicate 300 0x5A" ?d 7
        good_answers 9 5353]
    by (simp add: dns_layout good_answers_def)
qed

end
