(* ===== verification/Dhcp_Server.thy ===== *)
theory Dhcp_Server
  imports Lwip_Udp
begin

text \<open>
  \<open>src/pagers-server/dhcpserver/dhcpserver.c\<close>: the DHCP server of the access point. Eight leases,
  each with the MAC of its holder (all zeros when it is free) and the upper 16 bits of the
  millisecond tick at which it expires. \<open>dhcp_server_process\<close> is the UDP receive callback: it
  turns the received message into the reply in place (\<open>dhcp_msg\<close>, 548 bytes on the stack, as
  a list of bytes with the offsets of \<open>dhcp_msg_t\<close>), offers an address on DISCOVER and commits
  it on REQUEST. The clock is a function: \<open>ticks i\<close> is what \<open>cyw43_hal_ticks_ms\<close> returns in
  iteration \<open>i\<close> of the search for an address (and \<open>ticks 0\<close> for a REQUEST).

  The lemmas show the shape of the lease table, the reply byte by byte, when an option makes the
  server read behind its message, and that a committed lease is its holder's for a day.
\<close>

section \<open>The code\<close>

definition DHCPDISCOVER :: u8 where "DHCPDISCOVER = 1"
definition DHCPOFFER :: u8 where "DHCPOFFER = 2"
definition DHCPREQUEST :: u8 where "DHCPREQUEST = 3"
definition DHCPACK :: u8 where "DHCPACK = 5"

definition DHCP_OPT_SUBNET_MASK :: u8 where "DHCP_OPT_SUBNET_MASK = 1"
definition DHCP_OPT_ROUTER :: u8 where "DHCP_OPT_ROUTER = 3"
definition DHCP_OPT_DNS :: u8 where "DHCP_OPT_DNS = 6"
definition DHCP_OPT_REQUESTED_IP :: u8 where "DHCP_OPT_REQUESTED_IP = 50"
definition DHCP_OPT_IP_LEASE_TIME :: u8 where "DHCP_OPT_IP_LEASE_TIME = 51"
definition DHCP_OPT_MSG_TYPE :: u8 where "DHCP_OPT_MSG_TYPE = 53"
definition DHCP_OPT_SERVER_ID :: u8 where "DHCP_OPT_SERVER_ID = 54"
definition DHCP_OPT_END :: u8 where "DHCP_OPT_END = 255"

definition PORT_DHCP_SERVER :: u16 where "PORT_DHCP_SERVER = 67"
definition PORT_DHCP_CLIENT :: u16 where "PORT_DHCP_CLIENT = 68"
definition DEFAULT_LEASE_TIME_S :: u32 where "DEFAULT_LEASE_TIME_S = 24 * 60 * 60"
definition MAC_LEN :: nat where "MAC_LEN = 6"
definition DHCP_MIN_SIZE :: nat where "DHCP_MIN_SIZE = 240 + 3"
definition DHCPS_BASE_IP :: nat where "DHCPS_BASE_IP = 16"
definition DHCPS_MAX_IP :: nat where "DHCPS_MAX_IP = 8"

lemmas dhcp_options = DHCP_OPT_SUBNET_MASK_def DHCP_OPT_ROUTER_def DHCP_OPT_DNS_def
  DHCP_OPT_REQUESTED_IP_def DHCP_OPT_IP_LEASE_TIME_def DHCP_OPT_MSG_TYPE_def DHCP_OPT_SERVER_ID_def
  DHCP_OPT_END_def

lemmas dhcp_types = DHCPDISCOVER_def DHCPOFFER_def DHCPREQUEST_def DHCPACK_def

text \<open>Offsets and size of \<open>dhcp_msg_t\<close>.\<close>

definition MSG_YIADDR :: nat where "MSG_YIADDR = 16"
definition MSG_CHADDR :: nat where "MSG_CHADDR = 28"
definition MSG_OPTIONS :: nat where "MSG_OPTIONS = 236"
definition MSG_SIZE :: nat where "MSG_SIZE = 548"

lemmas dhcp_layout = MSG_YIADDR_def MSG_CHADDR_def MSG_OPTIONS_def MSG_SIZE_def MAC_LEN_def
  DHCP_MIN_SIZE_def DHCPS_BASE_IP_def DHCPS_MAX_IP_def

record dhcp_lease =
  lease_mac :: "u8 list"
  lease_expiry :: u16

record dhcp_server =
  dhcp_ip :: u32
  dhcp_nm :: u32
  dhcp_leases :: "dhcp_lease list"
  dhcp_udp :: "nat option"

text \<open>\<open>opt_find(opt, cmd)\<close> from index \<open>i\<close> of the options at \<open>o\<close>: the index found.\<close>

function opt_find :: "u8 list \<Rightarrow> nat \<Rightarrow> u8 \<Rightarrow> nat \<Rightarrow> nat option result" where
  "opt_find buf opt cmd i =
     (if i < 308 then
        rbind (arr_get buf (opt + i)) (\<lambda>b.
          if b = DHCP_OPT_END then Inr None
          else if b = cmd then Inr (Some (opt + i))
          else rbind (arr_get buf (opt + i + 1)) (\<lambda>n. opt_find buf opt cmd (i + (2 + unat n))))
      else Inr None)"
  by pat_completeness auto
termination by (relation "measure (\<lambda>(buf, opt, cmd, i). 308 - i)") auto

declare opt_find.simps [simp del]

text \<open>The writers advance the pointer \<open>opt\<close>.\<close>

definition opt_write_n :: "u8 \<Rightarrow> nat \<Rightarrow> u8 list \<Rightarrow> nat \<times> u8 list \<Rightarrow> (nat \<times> u8 list) result" where
  "opt_write_n cmd n data st =
     (case st of (opt, buf) \<Rightarrow>
        rbind (put_bytes opt (cmd # of_nat n # take n data) buf) (\<lambda>buf. Inr (opt + 2 + n, buf)))"

definition opt_write_u8 :: "u8 \<Rightarrow> u8 \<Rightarrow> nat \<times> u8 list \<Rightarrow> (nat \<times> u8 list) result" where
  "opt_write_u8 cmd val st =
     (case st of (opt, buf) \<Rightarrow>
        rbind (put_bytes opt [cmd, 1, val] buf) (\<lambda>buf. Inr (opt + 3, buf)))"

definition opt_write_u32 :: "u8 \<Rightarrow> u32 \<Rightarrow> nat \<times> u8 list \<Rightarrow> (nat \<times> u8 list) result" where
  "opt_write_u32 cmd val st =
     (case st of (opt, buf) \<Rightarrow>
        rbind (put_bytes opt [cmd, 4, ucast (drop_bit 24 val), ucast (drop_bit 16 val),
                 ucast (drop_bit 8 val), ucast val] buf) (\<lambda>buf. Inr (opt + 6, buf)))"

text \<open>\<open>expiry << 16 | 0xffff\<close> and its signed distance to the clock.\<close>

definition lease_expired :: "dhcp_lease \<Rightarrow> u32 \<Rightarrow> bool" where
  "lease_expired l now \<longleftrightarrow> sint ((push_bit 16 (ucast (lease_expiry l)) OR 0xffff) - now :: u32) < 0"

definition new_expiry :: "u32 \<Rightarrow> u16" where
  "new_expiry now = ucast (drop_bit 16 (now + DEFAULT_LEASE_TIME_S * 1000))"

definition lease_free :: "dhcp_lease \<Rightarrow> bool" where
  "lease_free l \<longleftrightarrow> lease_mac l = replicate MAC_LEN 0"

text \<open>The search of DISCOVER: a lease of another client, and the loop over the leases from index
  \<open>i\<close> on, with the final \<open>yi\<close> and the leases.\<close>

definition dhcp_try :: "(nat \<Rightarrow> u32) \<Rightarrow> nat \<Rightarrow> nat \<Rightarrow> dhcp_lease \<Rightarrow> nat \<times> dhcp_lease" where
  "dhcp_try ticks i yi l =
     (if yi = DHCPS_MAX_IP then
        let yi = (if lease_free l then i else yi) in
        if lease_expired l (ticks i) then (i, l\<lparr>lease_mac := replicate MAC_LEN 0\<rparr>) else (yi, l)
      else (yi, l))"

primrec dhcp_pick ::
    "(nat \<Rightarrow> u32) \<Rightarrow> u8 list \<Rightarrow> dhcp_lease list \<Rightarrow> nat \<Rightarrow> nat \<Rightarrow> nat \<times> dhcp_lease list" where
  "dhcp_pick ticks mac [] i yi = (yi, [])"
| "dhcp_pick ticks mac (l # ls) i yi =
     (if lease_mac l = mac then (i, l # ls)
      else
        let (yi, l) = dhcp_try ticks i yi l;
            (yi, ls) = dhcp_pick ticks mac ls (i + 1) yi
        in (yi, l # ls))"

definition msg_mac :: "u8 list \<Rightarrow> u8 list" where
  "msg_mac msg = take MAC_LEN (drop MSG_CHADDR msg)"

text \<open>The two message types: the lease table and, unless the request is ignored, the pointer
  behind the first option written and the message.\<close>

definition dhcp_discover ::
    "(nat \<Rightarrow> u32) \<Rightarrow> dhcp_server \<Rightarrow> u8 list \<Rightarrow> (dhcp_server \<times> (nat \<times> u8 list) option) result" where
  "dhcp_discover ticks d msg =
     (let (yi, leases) = dhcp_pick ticks (msg_mac msg) (dhcp_leases d) 0 DHCPS_MAX_IP;
          d = d\<lparr>dhcp_leases := leases\<rparr>
      in if yi = DHCPS_MAX_IP then Inr (d, None)
         else
           rbind (arr_put msg (MSG_YIADDR + 3) (of_nat (DHCPS_BASE_IP + yi))) (\<lambda>msg.
           rbind (opt_write_u8 DHCP_OPT_MSG_TYPE DHCPOFFER (MSG_OPTIONS + 4, msg)) (\<lambda>st.
             Inr (d, Some st))))"

definition dhcp_request ::
    "(nat \<Rightarrow> u32) \<Rightarrow> dhcp_server \<Rightarrow> u8 list \<Rightarrow> (dhcp_server \<times> (nat \<times> u8 list) option) result" where
  "dhcp_request ticks d msg =
     rbind (opt_find msg (MSG_OPTIONS + 4) DHCP_OPT_REQUESTED_IP 0) (\<lambda>res.
       case res of
         None \<Rightarrow> Inr (d, None)
       | Some opt \<Rightarrow>
           rbind (if opt + 5 \<le> length msg then Inr (take 3 (drop (opt + 2) msg)) else Inl OutOfBounds) (\<lambda>net.
           if net \<noteq> take 3 (le_bytes 4 (dhcp_ip d)) then Inr (d, None)
           else
             rbind (arr_get msg (opt + 5)) (\<lambda>b.
             let yi = unat (b - of_nat DHCPS_BASE_IP) in
             if yi \<ge> DHCPS_MAX_IP then Inr (d, None)
             else
               rbind (arr_get (dhcp_leases d) yi) (\<lambda>l.
               if lease_mac l = msg_mac msg \<or> lease_free l then
                 let l = l\<lparr>lease_mac := msg_mac msg, lease_expiry := new_expiry (ticks 0)\<rparr>;
                     d = d\<lparr>dhcp_leases := (dhcp_leases d)[yi := l]\<rparr>
                 in rbind (arr_put msg (MSG_YIADDR + 3) (of_nat (DHCPS_BASE_IP + yi))) (\<lambda>msg.
                    rbind (opt_write_u8 DHCP_OPT_MSG_TYPE DHCPACK (MSG_OPTIONS + 4, msg)) (\<lambda>st.
                      Inr (d, Some st)))
               else Inr (d, None)))))"

text \<open>The options every reply ends with.\<close>

definition dhcp_finish :: "dhcp_server \<Rightarrow> nat \<times> u8 list \<Rightarrow> (nat \<times> u8 list) result" where
  "dhcp_finish d st =
     rbind (opt_write_n DHCP_OPT_SERVER_ID 4 (le_bytes 4 (dhcp_ip d)) st) (\<lambda>st.
     rbind (opt_write_n DHCP_OPT_SUBNET_MASK 4 (le_bytes 4 (dhcp_nm d)) st) (\<lambda>st.
     rbind (opt_write_n DHCP_OPT_ROUTER 4 (le_bytes 4 (dhcp_ip d)) st) (\<lambda>st.
     rbind (opt_write_n DHCP_OPT_DNS 4 (le_bytes 4 (dhcp_ip d)) st) (\<lambda>st.
     rbind (opt_write_u32 DHCP_OPT_IP_LEASE_TIME DEFAULT_LEASE_TIME_S st) (\<lambda>(opt, buf).
     rbind (put_bytes opt [DHCP_OPT_END] buf) (\<lambda>buf. Inr (opt + 1, buf)))))))"

definition dhcp_handle ::
    "net_answers \<Rightarrow> (nat \<Rightarrow> u32) \<Rightarrow> dhcp_server \<Rightarrow> u8 list \<Rightarrow> (udp_call list \<times> dhcp_server) result" where
  "dhcp_handle ans ticks d msg =
     rbind (arr_put msg 0 DHCPOFFER) (\<lambda>msg.
     rbind (put_bytes MSG_YIADDR (le_bytes 4 (dhcp_ip d)) msg) (\<lambda>msg.
     rbind (opt_find msg (MSG_OPTIONS + 4) DHCP_OPT_MSG_TYPE 0) (\<lambda>res.
       case res of
         None \<Rightarrow> Inr ([], d)
       | Some msgtype \<Rightarrow>
           rbind (arr_get msg (msgtype + 2)) (\<lambda>t.
           rbind (if t = DHCPDISCOVER then dhcp_discover ticks d msg
                  else if t = DHCPREQUEST then dhcp_request ticks d msg
                  else Inr (d, None)) (\<lambda>(d, reply).
             case reply of
               None \<Rightarrow> Inr ([], d)
             | Some st \<Rightarrow>
                 rbind (dhcp_finish d st) (\<lambda>(opt, buf).
                 rbind (socket_sendto ans (dhcp_udp d) buf opt 0xffffffff PORT_DHCP_CLIENT) (\<lambda>(calls, _).
                   Inr (calls, d))))))))"

definition dhcp_server_process ::
    "'p lwip \<Rightarrow> net_answers \<Rightarrow> (nat \<Rightarrow> u32) \<Rightarrow> dhcp_server \<Rightarrow> u8 list \<Rightarrow> 'p \<Rightarrow>
       (udp_call list \<times> dhcp_server) result" where
  "dhcp_server_process L ans ticks d junk p =
     (if tot_len L p < DHCP_MIN_SIZE then Inr ([PbufFree Received], d)
      else
        let copied = pbuf_copy_partial L p MSG_SIZE in
        rbind (blit junk 0 copied (length copied)) (\<lambda>msg.
        if length copied < DHCP_MIN_SIZE then Inr ([PbufFree Received], d)
        else
          rbind (dhcp_handle ans ticks d msg) (\<lambda>(calls, d).
            Inr (calls @ [PbufFree Received], d))))"

definition dhcp_server_init :: "net_answers \<Rightarrow> u32 \<Rightarrow> u32 \<Rightarrow> udp_call list \<times> dhcp_server" where
  "dhcp_server_init ans ip nm =
     (let leases = replicate DHCPS_MAX_IP \<lparr>lease_mac = replicate MAC_LEN 0, lease_expiry = 0\<rparr>;
          (calls, udp, r) = socket_new_dgram ans;
          d = \<lparr>dhcp_ip = ip, dhcp_nm = nm, dhcp_leases = leases, dhcp_udp = udp\<rparr>
      in if r \<noteq> 0 then (calls, d) else (calls @ [UdpBind (the udp) 0 PORT_DHCP_SERVER], d))"

definition dhcp_server_deinit :: "dhcp_server \<Rightarrow> udp_call list \<times> dhcp_server" where
  "dhcp_server_deinit d =
     (let (calls, udp) = socket_free (dhcp_udp d) in (calls, d\<lparr>dhcp_udp := udp\<rparr>))"

section \<open>Finding an option\<close>

lemma opt_find_step:
  "i < 308 \<Longrightarrow> opt + i < length buf \<Longrightarrow> buf ! (opt + i) = DHCP_OPT_END \<Longrightarrow>
     opt_find buf opt cmd i = Inr None"
  "i < 308 \<Longrightarrow> opt + i < length buf \<Longrightarrow> buf ! (opt + i) = cmd \<Longrightarrow> cmd \<noteq> DHCP_OPT_END \<Longrightarrow>
     opt_find buf opt cmd i = Inr (Some (opt + i))"
  "i < 308 \<Longrightarrow> opt + i + 1 < length buf \<Longrightarrow> buf ! (opt + i) \<noteq> cmd \<Longrightarrow> buf ! (opt + i) \<noteq> DHCP_OPT_END \<Longrightarrow>
     opt_find buf opt cmd i = opt_find buf opt cmd (i + (2 + unat (buf ! (opt + i + 1))))"
  by (subst opt_find.simps, simp add: arr_get_Inr)+

text \<open>Options as the standard has them, without padding: code, length, data, and the end mark.\<close>

definition encode_opts :: "(u8 \<times> u8 list) list \<Rightarrow> u8 list" where
  "encode_opts opts = concat (map (\<lambda>(c, data). c # of_nat (length data) # data) opts) @ [DHCP_OPT_END]"

definition opts_ok :: "(u8 \<times> u8 list) list \<Rightarrow> bool" where
  "opts_ok opts \<longleftrightarrow>
     list_all (\<lambda>(c, data). c \<noteq> DHCP_OPT_END \<and> length data \<le> 255 \<and>
       (c = DHCP_OPT_MSG_TYPE \<longrightarrow> length data = 1) \<and> (c = DHCP_OPT_REQUESTED_IP \<longrightarrow> length data = 4)) opts \<and>
     length (encode_opts opts) \<le> 308"

lemma encode_opts_simps:
  "encode_opts [] = [DHCP_OPT_END]"
  "encode_opts ((c, data) # opts) = c # of_nat (length data) # data @ encode_opts opts"
  by (simp_all add: encode_opts_def)

lemma drop_split:
  "drop n buf = x # xs \<Longrightarrow> n < length buf \<and> buf ! n = x \<and> drop (Suc n) buf = xs"
  by (metis drop_eq_Nil2 drop_Suc_Cons leI list.discI nth_via_drop drop_Suc drop_drop tl_drop list.sel(3))

lemma opt_find_opts:
  assumes "drop (opt + i) buf = encode_opts opts @ rest" "i + length (encode_opts opts) \<le> 308"
    and "list_all (\<lambda>(c, data). c \<noteq> DHCP_OPT_END \<and> length data \<le> 255) opts" "cmd \<noteq> DHCP_OPT_END"
  shows "(map_of opts cmd = None \<longrightarrow> opt_find buf opt cmd i = Inr None) \<and>
    (\<forall>data. map_of opts cmd = Some data \<longrightarrow>
      (\<exists>j rest'. opt_find buf opt cmd i = Inr (Some j) \<and>
        drop j buf = cmd # of_nat (length data) # data @ rest'))"
  using assms(1-3)
proof (induction opts arbitrary: i)
  case Nil
  then have "opt + i < length buf \<and> buf ! (opt + i) = DHCP_OPT_END"
    using drop_split [of "opt + i" buf] by (simp add: encode_opts_simps)
  moreover have "i < 308" using Nil(2) by (simp add: encode_opts_simps)
  ultimately show ?case using opt_find_step(1) by simp
next
  case (Cons e opts)
  obtain c data where e: "e = (c, data)" by (cases e)
  let ?n = "length data"
  have d: "drop (opt + i) buf = c # of_nat ?n # data @ encode_opts opts @ rest"
    using Cons.prems(1) by (simp add: e encode_opts_simps)
  note h0 = drop_split [OF d]
  then have h1: "opt + i + 1 < length buf" "buf ! (opt + i + 1) = of_nat ?n"
    using drop_split [of "Suc (opt + i)" buf] by simp_all
  have i: "i < 308" using Cons.prems(2) by (simp add: e encode_opts_simps)
  have c: "c \<noteq> DHCP_OPT_END" "?n \<le> 255" using Cons.prems(3) by (simp_all add: e)
  show ?case
  proof (cases "c = cmd")
    case True
    with h0 i c(1) have "opt_find buf opt cmd i = Inr (Some (opt + i))"
      using opt_find_step(2) by simp
    with True d show ?thesis by (simp add: e)
  next
    case False
    have u: "unat (of_nat ?n :: u8) = ?n" using c(2) by (simp add: unat_of_nat)
    have step: "opt_find buf opt cmd i = opt_find buf opt cmd (i + (2 + ?n))"
      using opt_find_step(3) [OF i h1(1)] h0 False c(1) by (simp add: h1(2) [simplified] u)
    have "drop (2 + ?n) (drop (opt + i) buf) = encode_opts opts @ rest" unfolding d by simp
    then have "drop (opt + (i + (2 + ?n))) buf = encode_opts opts @ rest"
      by (simp only: drop_drop ac_simps)
    from Cons.IH [OF this] Cons.prems(2,3) False show ?thesis
      unfolding step by (simp add: e encode_opts_simps)
  qed
qed

section \<open>Writing the reply\<close>

lemma put_bytes_at:
  "opt = length pre \<Longrightarrow> length xs \<le> length post \<Longrightarrow>
     put_bytes opt xs (pre @ post) = Inr (pre @ xs @ drop (length xs) post)"
  by (simp add: put_bytes_Inr)

lemma opt_write_n_at:
  "opt = length pre \<Longrightarrow> length data = 4 \<Longrightarrow> 6 \<le> length post \<Longrightarrow>
     opt_write_n cmd 4 data (opt, pre @ post) = Inr (opt + 6, (pre @ cmd # 4 # data) @ drop 6 post)"
  by (simp add: opt_write_n_def put_bytes_at)

lemma opt_write_u8_at:
  "opt = length pre \<Longrightarrow> 3 \<le> length post \<Longrightarrow>
     opt_write_u8 cmd v (opt, pre @ post) = Inr (opt + 3, (pre @ [cmd, 1, v]) @ drop 3 post)"
  by (simp add: opt_write_u8_def put_bytes_at numeral_eq_Suc)

text \<open>The options of a reply of type \<open>t\<close>, and the reply to the message \<open>msg\<close>, as it is sent.\<close>

definition reply_options :: "dhcp_server \<Rightarrow> u8 \<Rightarrow> u8 list" where
  "reply_options d t =
     [DHCP_OPT_MSG_TYPE, 1, t] @ (DHCP_OPT_SERVER_ID # 4 # le_bytes 4 (dhcp_ip d)) @
     (DHCP_OPT_SUBNET_MASK # 4 # le_bytes 4 (dhcp_nm d)) @ (DHCP_OPT_ROUTER # 4 # le_bytes 4 (dhcp_ip d)) @
     (DHCP_OPT_DNS # 4 # le_bytes 4 (dhcp_ip d)) @ [DHCP_OPT_IP_LEASE_TIME, 4, 0, 1, 0x51, 0x80, DHCP_OPT_END]"

definition reply_bytes :: "dhcp_server \<Rightarrow> u8 list \<Rightarrow> nat \<Rightarrow> u8 \<Rightarrow> u8 list" where
  "reply_bytes d msg yi t =
     DHCPOFFER # take 15 (drop 1 msg) @ take 3 (le_bytes 4 (dhcp_ip d)) @ [of_nat (DHCPS_BASE_IP + yi)] @
     take 220 (drop 20 msg) @ reply_options d t"

lemma length_reply_options [simp]: "length (reply_options d t) = 34"
  by (simp add: reply_options_def)

lemma lease_time_bytes:
  "[ucast (drop_bit 24 DEFAULT_LEASE_TIME_S), ucast (drop_bit 16 DEFAULT_LEASE_TIME_S),
    ucast (drop_bit 8 DEFAULT_LEASE_TIME_S), ucast DEFAULT_LEASE_TIME_S] = [0, 1, 0x51, 0x80 :: u8]"
  by code_simp

lemma opt_write_lease_time_at:
  "opt = length pre \<Longrightarrow> 6 \<le> length post \<Longrightarrow>
     opt_write_u32 cmd DEFAULT_LEASE_TIME_S (opt, pre @ post) =
       Inr (opt + 6, (pre @ [cmd, 4, 0, 1, 0x51, 0x80]) @ drop 6 post)"
  unfolding opt_write_u32_def lease_time_bytes by (simp add: put_bytes_at numeral_eq_Suc)

lemma dhcp_finish_at:
  assumes "opt = length pre" "31 \<le> length post"
  shows "dhcp_finish d (opt, pre @ post) = Inr (opt + 31, pre @ drop 3 (reply_options d t) @ drop 31 post)"
  using assms
  by (simp add: dhcp_finish_def opt_write_n_at opt_write_lease_time_at put_bytes_at drop_drop
      reply_options_def del: append_assoc)

text \<open>The message once \<open>op\<close> and \<open>yiaddr\<close> are set.\<close>

definition prepared :: "dhcp_server \<Rightarrow> u8 list \<Rightarrow> u8 list" where
  "prepared d msg = DHCPOFFER # take 15 (drop 1 msg) @ le_bytes 4 (dhcp_ip d) @ drop 20 msg"

lemma msg_split:
  assumes "length msg = MSG_SIZE"
  shows "\<exists>b xs ys zs ws. msg = b # xs @ ys @ zs @ ws \<and> length xs = 15 \<and> length ys = 4 \<and>
     length zs = 220 \<and> length ws = 308"
proof (intro exI conjI)
  let ?t = "tl msg"
  show "msg = hd msg # take 15 ?t @ take 4 (drop 15 ?t) @ take 220 (drop 19 ?t) @ drop 239 ?t"
    using assms append_take_drop_id [of 220 "drop 19 ?t"] append_take_drop_id [of 4 "drop 15 ?t"]
    by (cases msg) (simp_all add: dhcp_layout)
qed (use assms in \<open>simp_all add: dhcp_layout\<close>)

lemma prepare_msg:
  assumes "length msg = MSG_SIZE"
  shows "rbind (arr_put msg 0 DHCPOFFER) (\<lambda>msg. rbind (put_bytes MSG_YIADDR (le_bytes 4 (dhcp_ip d)) msg) f) =
     f (prepared d msg)"
proof -
  from msg_split [OF assms] obtain b xs ys zs ws where
    m: "msg = b # xs @ ys @ zs @ ws" "length xs = 15" "length ys = 4" by blast
  have "put_bytes 16 (le_bytes 4 (dhcp_ip d)) ((DHCPOFFER # xs) @ (ys @ zs @ ws)) =
      Inr ((DHCPOFFER # xs) @ le_bytes 4 (dhcp_ip d) @ drop 4 (ys @ zs @ ws))"
    using put_bytes_at [of 16 "DHCPOFFER # xs" "le_bytes 4 (dhcp_ip d)" "ys @ zs @ ws"] m(2,3) by simp
  with m(2,3) show ?thesis by (simp add: m(1) arr_put_Inr MSG_YIADDR_def prepared_def)
qed

lemma prepared_facts:
  assumes "length msg = MSG_SIZE"
  shows "length (prepared d msg) = MSG_SIZE" "msg_mac (prepared d msg) = msg_mac msg"
    "drop 240 (prepared d msg) = drop 240 msg"
proof -
  from msg_split [OF assms] obtain b xs ys zs ws where
    m: "msg = b # xs @ ys @ zs @ ws" "length xs = 15" "length ys = 4" "length zs = 220" "length ws = 308" by blast
  then show "length (prepared d msg) = MSG_SIZE" "msg_mac (prepared d msg) = msg_mac msg"
    "drop 240 (prepared d msg) = drop 240 msg"
    by (simp_all add: prepared_def MSG_SIZE_def msg_mac_def MSG_CHADDR_def MAC_LEN_def)
qed

text \<open>Committing index \<open>yi\<close> in a reply of type \<open>t\<close>.\<close>

lemma commit_reply:
  assumes "length msg = MSG_SIZE"
  shows "rbind (arr_put (prepared d msg) (MSG_YIADDR + 3) (of_nat (DHCPS_BASE_IP + yi))) (\<lambda>msg.
       rbind (opt_write_u8 DHCP_OPT_MSG_TYPE t (MSG_OPTIONS + 4, msg)) f) =
     f (243, take 243 (reply_bytes d msg yi t) @ drop 243 msg)" (is ?a)
    and "dhcp_finish d (243, take 243 (reply_bytes d msg yi t) @ drop 243 msg) =
      Inr (274, reply_bytes d msg yi t @ drop 274 msg)" (is ?b)
    and "length (reply_bytes d msg yi t) = 274" (is ?c)
proof -
  from msg_split [OF assms] obtain b xs ys zs ws where
    m: "msg = b # xs @ ys @ zs @ ws" "length xs = 15" "length ys = 4" "length zs = 220" "length ws = 308" by blast
  have "length (le_bytes 4 (dhcp_ip d)) = Suc (Suc (Suc (Suc 0)))" by simp
  then obtain i0 i1 i2 i3 where ip: "le_bytes 4 (dhcp_ip d) = [i0, i1, i2, i3]"
    by (auto simp only: length_Suc_conv length_0_conv)
  let ?h = "DHCPOFFER # xs @ [i0, i1, i2, of_nat (DHCPS_BASE_IP + yi)] @ zs"
  have h: "length ?h = 240" using m by simp
  have r: "reply_bytes d msg yi t = ?h @ reply_options d t"
    using m by (simp add: reply_bytes_def ip take_Cons')
  have t3: "take 3 (reply_options d t) = [DHCP_OPT_MSG_TYPE, 1, t]" by (simp add: reply_options_def)
  have tr: "take 243 (reply_bytes d msg yi t) = ?h @ [DHCP_OPT_MSG_TYPE, 1, t]"
  proof -
    have "take 243 ?h = ?h" by (rule take_all) (simp only: h)
    moreover have "243 - length ?h = 3" unfolding h by simp
    then have "take 243 (?h @ opts) = take 243 ?h @ take 3 opts" for opts :: "u8 list"
      by (simp only: take_append)
    ultimately show ?thesis unfolding r by (simp only: t3)
  qed
  have ws: "drop 243 msg = drop 3 ws" "drop 274 msg = drop 34 ws" using m by simp_all
  have p: "arr_put (prepared d msg) (MSG_YIADDR + 3) (of_nat (DHCPS_BASE_IP + yi)) = Inr (?h @ ws)"
    using m by (simp add: prepared_def ip arr_put_Inr MSG_YIADDR_def list_update_append)
  have o: "opt_write_u8 DHCP_OPT_MSG_TYPE t (MSG_OPTIONS + 4, ?h @ ws) =
      Inr (243, (?h @ [DHCP_OPT_MSG_TYPE, 1, t]) @ drop 3 ws)"
    using opt_write_u8_at [of 240 ?h ws DHCP_OPT_MSG_TYPE t] h m(5) by (simp add: MSG_OPTIONS_def)
  show ?a unfolding p rbind_simps o tr ws ..
  have "243 = length (?h @ [DHCP_OPT_MSG_TYPE, 1, t])" "31 \<le> length (drop 3 ws)" using h m(5) by simp_all
  from dhcp_finish_at [OF this, of d]
  have "dhcp_finish d (243, take 243 (reply_bytes d msg yi t) @ drop 243 msg) =
      Inr (274, ?h @ ([DHCP_OPT_MSG_TYPE, 1, t] @ drop 3 (reply_options d t)) @ drop 34 ws)"
    unfolding tr ws by simp
  also have "[DHCP_OPT_MSG_TYPE, 1, t] @ drop 3 (reply_options d t) = reply_options d t"
    unfolding t3 [symmetric] by (rule append_take_drop_id)
  finally show ?b unfolding r ws by simp
  show ?c unfolding r using h by simp
qed

section \<open>The lease table\<close>

definition dhcp_ok :: "dhcp_server \<Rightarrow> bool" where
  "dhcp_ok d \<longleftrightarrow> length (dhcp_leases d) = DHCPS_MAX_IP \<and>
     list_all (\<lambda>l. length (lease_mac l) = MAC_LEN) (dhcp_leases d)"

lemma dhcp_try_cases:
  assumes "dhcp_try ticks i yi l = (y1, l1)"
  shows "y1 = yi \<or> y1 = i" "length (lease_mac l) = MAC_LEN \<Longrightarrow> length (lease_mac l1) = MAC_LEN"
    "\<not> lease_free l \<Longrightarrow> \<not> lease_expired l (ticks i) \<Longrightarrow> y1 = yi \<and> l1 = l"
  using assms by (auto simp: dhcp_try_def Let_def split: if_splits)

lemma dhcp_pick_Cons:
  assumes "dhcp_pick ticks mac (l # ls) i yi = (yi', ls')" "lease_mac l \<noteq> mac"
  obtains y1 l1 ls1 where "dhcp_try ticks i yi l = (y1, l1)"
    "dhcp_pick ticks mac ls (i + 1) y1 = (yi', ls1)" "ls' = l1 # ls1"
  using assms by (auto split: prod.splits simp: Let_def)

lemma dhcp_pick_shape:
  "dhcp_pick ticks mac ls i yi = (yi', ls') \<Longrightarrow>
     list_all (\<lambda>l. length (lease_mac l) = MAC_LEN) ls \<Longrightarrow> length ls' = length ls \<and>
     list_all (\<lambda>l. length (lease_mac l) = MAC_LEN) ls' \<and> (yi' = yi \<or> i \<le> yi' \<and> yi' < i + length ls)"
proof (induction ls arbitrary: i yi ls')
  case (Cons l ls)
  show ?case
  proof (cases "lease_mac l = mac")
    case False
    from dhcp_pick_Cons [OF Cons.prems(1) this] obtain y1 l1 ls1 where
      t: "dhcp_try ticks i yi l = (y1, l1)" and
      r: "dhcp_pick ticks mac ls (i + 1) y1 = (yi', ls1)" "ls' = l1 # ls1" .
    from Cons.IH [OF r(1)] Cons.prems(2) dhcp_try_cases(1,2) [OF t] r(2) show ?thesis by auto
  qed (use Cons.prems in auto)
qed simp

section \<open>What the server decides\<close>

text \<open>The decision without the message being built: the leases and, for a reply, the index and the
  type of it.\<close>

definition decide_request ::
    "(nat \<Rightarrow> u32) \<Rightarrow> dhcp_server \<Rightarrow> u8 list \<Rightarrow> (dhcp_server \<times> (nat \<times> u8) option) result" where
  "decide_request ticks d msg =
     rbind (opt_find msg 240 DHCP_OPT_REQUESTED_IP 0) (\<lambda>res.
       case res of
         None \<Rightarrow> Inr (d, None)
       | Some opt \<Rightarrow>
           rbind (if opt + 5 \<le> length msg then Inr (take 3 (drop (opt + 2) msg)) else Inl OutOfBounds) (\<lambda>net.
           if net \<noteq> take 3 (le_bytes 4 (dhcp_ip d)) then Inr (d, None)
           else
             rbind (arr_get msg (opt + 5)) (\<lambda>b.
             let yi = unat (b - of_nat DHCPS_BASE_IP) in
             if yi \<ge> DHCPS_MAX_IP then Inr (d, None)
             else
               let l = dhcp_leases d ! yi in
               if lease_mac l = msg_mac msg \<or> lease_free l then
                 let l = l\<lparr>lease_mac := msg_mac msg, lease_expiry := new_expiry (ticks 0)\<rparr>
                 in Inr (d\<lparr>dhcp_leases := (dhcp_leases d)[yi := l]\<rparr>, Some (yi, DHCPACK))
               else Inr (d, None))))"

definition decide_discover :: "(nat \<Rightarrow> u32) \<Rightarrow> dhcp_server \<Rightarrow> u8 list \<Rightarrow> dhcp_server \<times> (nat \<times> u8) option" where
  "decide_discover ticks d msg =
     (let (yi, leases) = dhcp_pick ticks (msg_mac msg) (dhcp_leases d) 0 DHCPS_MAX_IP
      in (d\<lparr>dhcp_leases := leases\<rparr>, if yi = DHCPS_MAX_IP then None else Some (yi, DHCPOFFER)))"

definition decide :: "(nat \<Rightarrow> u32) \<Rightarrow> dhcp_server \<Rightarrow> u8 list \<Rightarrow> (dhcp_server \<times> (nat \<times> u8) option) result" where
  "decide ticks d msg =
     rbind (opt_find msg 240 DHCP_OPT_MSG_TYPE 0) (\<lambda>res.
       case res of
         None \<Rightarrow> Inr (d, None)
       | Some msgtype \<Rightarrow>
           rbind (arr_get msg (msgtype + 2)) (\<lambda>t.
             if t = DHCPDISCOVER then Inr (decide_discover ticks d msg)
             else if t = DHCPREQUEST then decide_request ticks d msg
             else Inr (d, None)))"

lemma arr_get_same_end:
  assumes "length xs = length ys" "drop n xs = drop n ys" "n \<le> i"
  shows "arr_get xs i = arr_get ys i"
proof (cases "i < length ys")
  case True
  then have "xs ! i = drop n xs ! (i - n)" "ys ! i = drop n ys ! (i - n)" using assms(1,3) by simp_all
  with assms(2) show ?thesis using True assms(1) by (simp add: arr_get_def)
qed (simp add: arr_get_def assms(1))

lemma opt_find_same_end:
  assumes "length xs = length ys" "drop opt xs = drop opt ys"
  shows "opt_find xs opt cmd i = opt_find ys opt cmd i"
proof (induction "308 - i" arbitrary: i rule: less_induct)
  case less
  have g: "arr_get xs (opt + i) = arr_get ys (opt + i)" "arr_get xs (opt + i + 1) = arr_get ys (opt + i + 1)"
    using arr_get_same_end [OF assms] by simp_all
  have "i < 308 \<Longrightarrow> opt_find xs opt cmd (i + (2 + unat n)) = opt_find ys opt cmd (i + (2 + unat n))" for n :: u8
    using less by simp
  then have r: "i < 308 \<Longrightarrow> rbind m (\<lambda>n. opt_find xs opt cmd (i + (2 + unat n))) =
      rbind m (\<lambda>n. opt_find ys opt cmd (i + (2 + unat n)))" for m :: "u8 result"
    by (cases m) (simp_all only: rbind_simps)
  show ?case
    unfolding opt_find.simps [of xs opt cmd i] opt_find.simps [of ys opt cmd i] g
    by (cases "i < 308") (simp_all only: r if_True if_False)
qed

lemma opt_find_offset: "opt_find buf opt cmd i = Inr (Some j) \<Longrightarrow> opt \<le> j"
proof (induction buf opt cmd i rule: opt_find.induct)
  case (1 buf opt cmd i)
  then show ?case
    unfolding opt_find.simps [of buf opt cmd i]
    by (auto simp: rbind_eq_Inr simp del: opt_find.simps split: if_splits)
qed

lemma reply_bytes_leases [simp]: "reply_bytes (d\<lparr>dhcp_leases := ls\<rparr>) msg yi t = reply_bytes d msg yi t"
  by (simp add: reply_bytes_def reply_options_def)

lemma options_at: "MSG_OPTIONS + 4 = 240"
  by (simp add: MSG_OPTIONS_def)

lemma dhcp_discover_decide:
  assumes "length msg = MSG_SIZE"
  shows "dhcp_discover ticks d (prepared d msg) =
     (case decide_discover ticks d msg of (d', r) \<Rightarrow>
        Inr (d', map_option (\<lambda>(yi, t). (243, take 243 (reply_bytes d msg yi t) @ drop 243 msg)) r))"
  by (simp add: dhcp_discover_def decide_discover_def Let_def prepared_facts [OF assms] commit_reply(1) [OF assms]
      split: prod.split del: of_nat_add)

lemma dhcp_request_decide:
  assumes "length msg = MSG_SIZE" "dhcp_ok d"
  shows "dhcp_request ticks d (prepared d msg) =
     rbind (decide_request ticks d msg) (\<lambda>(d', r).
        Inr (d', map_option (\<lambda>(yi, t). (243, take 243 (reply_bytes d msg yi t) @ drop 243 msg)) r))"
proof -
  note p = prepared_facts [OF assms(1), of d]
  have len: "length (prepared d msg) = length msg" using p(1) assms(1) by simp
  have f: "opt_find (prepared d msg) 240 cmd 0 = opt_find msg 240 cmd 0" for cmd
    by (rule opt_find_same_end [OF len p(3)])
  show ?thesis
  proof (cases "opt_find msg 240 DHCP_OPT_REQUESTED_IP 0")
    case (Inr res)
    show ?thesis
    proof (cases res)
      case (Some opt)
      have o: "240 \<le> opt" using opt_find_offset Inr Some by blast
      have "drop (opt + 2 - 240) (drop 240 (prepared d msg)) = drop (opt + 2 - 240) (drop 240 msg)"
        by (simp only: p(3))
      then have d2: "drop (Suc (Suc opt)) (prepared d msg) = drop (Suc (Suc opt)) msg" using o by simp
      have g: "arr_get (prepared d msg) (opt + 5) = arr_get msg (opt + 5)"
        by (rule arr_get_same_end [OF len p(3)]) (use o in simp)
      show ?thesis
      proof (cases "arr_get msg (opt + 5)")
        case (Inr b)
        then show ?thesis using assms(2)
          by (simp add: dhcp_request_def decide_request_def options_at f \<open>opt_find msg _ _ _ = _\<close> Some d2 g p(2) len
              Let_def arr_get_Inr dhcp_ok_def commit_reply(1) [OF assms(1), unfolded options_at]
              del: of_nat_add)
      qed (simp add: dhcp_request_def decide_request_def options_at f Inr Some d2 g len)
    qed (simp add: dhcp_request_def decide_request_def options_at f Inr)
  qed (simp add: dhcp_request_def decide_request_def options_at f)
qed

text \<open>The callback carries the decision out.\<close>

definition carry_out ::
    "net_answers \<Rightarrow> u8 list \<Rightarrow> dhcp_server \<Rightarrow> (nat \<times> u8) option \<Rightarrow> udp_call list" where
  "carry_out ans msg d r =
     (case r of
        None \<Rightarrow> []
      | Some (yi, t) \<Rightarrow>
          PbufAlloc 274 #
          (if pbuf_alloc_answer ans
           then [UdpSendto (the (dhcp_udp d)) (reply_bytes d msg yi t) 0xffffffff PORT_DHCP_CLIENT,
                 PbufFree Allocated]
           else []))"

lemma decide_request_leases:
  assumes "decide_request ticks d msg = Inr (d', r)"
  shows "(r = None \<and> d' = d) \<or>
     (\<exists>yi < DHCPS_MAX_IP. r = Some (yi, DHCPACK) \<and>
        (lease_mac (dhcp_leases d ! yi) = msg_mac msg \<or> lease_free (dhcp_leases d ! yi)) \<and>
        d' = d\<lparr>dhcp_leases := (dhcp_leases d)[yi := (dhcp_leases d ! yi)
          \<lparr>lease_mac := msg_mac msg, lease_expiry := new_expiry (ticks 0)\<rparr>]\<rparr>)"
proof -
  from assms obtain res where res: "opt_find msg 240 DHCP_OPT_REQUESTED_IP 0 = Inr res"
    unfolding decide_request_def by (simp only: rbind_eq_Inr) blast
  show ?thesis
  proof (cases res)
    case (Some opt)
    let ?net = "take 3 (drop (opt + 2) msg)"
    show ?thesis
    proof (cases "opt + 5 \<le> length msg \<and> ?net = take 3 (le_bytes 4 (dhcp_ip d))")
      case True
      then obtain b where b: "arr_get msg (opt + 5) = Inr b"
        using assms res Some by (cases "arr_get msg (opt + 5)") (simp_all add: decide_request_def)
      define yi where "yi = unat (b - of_nat DHCPS_BASE_IP)"
      let ?d = "d\<lparr>dhcp_leases := (dhcp_leases d)[yi := (dhcp_leases d ! yi)
          \<lparr>lease_mac := msg_mac msg, lease_expiry := new_expiry (ticks 0)\<rparr>]\<rparr>"
      have v: "decide_request ticks d msg =
          (if yi \<ge> DHCPS_MAX_IP then Inr (d, None)
           else if lease_mac (dhcp_leases d ! yi) = msg_mac msg \<or> lease_free (dhcp_leases d ! yi)
           then Inr (?d, Some (yi, DHCPACK)) else Inr (d, None))"
        using True by (simp only: decide_request_def res Some b Let_def yi_def rbind_simps option.case if_True) simp
      show ?thesis
      proof (cases "yi < DHCPS_MAX_IP \<and> (lease_mac (dhcp_leases d ! yi) = msg_mac msg \<or> lease_free (dhcp_leases d ! yi))")
        case t: True
        then have "decide_request ticks d msg = Inr (?d, Some (yi, DHCPACK))" unfolding v by (simp add: not_le [symmetric])
        with assms have "d' = ?d" "r = Some (yi, DHCPACK)" by simp_all
        with t show ?thesis by blast
      qed (use assms v in \<open>auto simp: not_le split: if_splits\<close>)
    next
      case False
      then have "decide_request ticks d msg \<in> {Inr (d, None), Inl OutOfBounds}"
        by (cases "opt + 5 \<le> length msg")
          (simp_all only: decide_request_def res Some rbind_simps option.case if_True if_False simp_thms insert_iff)
      with assms show ?thesis by simp
    qed
  next
    case None
    have "decide_request ticks d msg = Inr (d, None)"
      by (simp only: decide_request_def res None rbind_simps option.case)
    with assms show ?thesis by simp
  qed
qed

lemma decide_discover_leases:
  "decide_discover ticks d msg = (d', r) \<Longrightarrow>
     \<exists>yi ls. dhcp_pick ticks (msg_mac msg) (dhcp_leases d) 0 DHCPS_MAX_IP = (yi, ls) \<and>
       d' = d\<lparr>dhcp_leases := ls\<rparr> \<and> r = (if yi = DHCPS_MAX_IP then None else Some (yi, DHCPOFFER))"
  unfolding decide_discover_def
  by (cases "dhcp_pick ticks (msg_mac msg) (dhcp_leases d) 0 DHCPS_MAX_IP") (simp add: Let_def eq_commute [of _ d'] eq_commute [of _ r])

lemma decide_cases:
  "decide ticks d msg = Inr (d', r) \<Longrightarrow>
     d' = d \<and> r = None \<or> decide_discover ticks d msg = (d', r) \<or> decide_request ticks d msg = Inr (d', r)"
  unfolding decide_def by (auto simp: rbind_eq_Inr split: option.splits if_splits)

lemma decide_keeps:
  "decide ticks d msg = Inr (d', r) \<Longrightarrow> dhcp_ip d' = dhcp_ip d \<and> dhcp_nm d' = dhcp_nm d \<and> dhcp_udp d' = dhcp_udp d"
  by (auto dest!: decide_cases decide_discover_leases decide_request_leases)

lemma reply_bytes_cong:
  "dhcp_ip d' = dhcp_ip d \<Longrightarrow> dhcp_nm d' = dhcp_nm d \<Longrightarrow> reply_bytes d' msg yi t = reply_bytes d msg yi t"
  by (simp add: reply_bytes_def reply_options_def)

lemma dhcp_finish_cong:
  "dhcp_ip d' = dhcp_ip d \<Longrightarrow> dhcp_nm d' = dhcp_nm d \<Longrightarrow> dhcp_finish d' st = dhcp_finish d st"
  by (simp add: dhcp_finish_def)

lemma send_reply:
  assumes "length msg = MSG_SIZE" "dhcp_udp d' = Some u" "dhcp_ip d' = dhcp_ip d" "dhcp_nm d' = dhcp_nm d"
  shows "rbind (dhcp_finish d' (243, take 243 (reply_bytes d msg yi t) @ drop 243 msg)) (\<lambda>(opt, buf).
       rbind (socket_sendto ans (dhcp_udp d') buf opt 0xffffffff PORT_DHCP_CLIENT) (\<lambda>(calls, _). Inr (calls, d'))) =
     Inr (carry_out ans msg d' (Some (yi, t)), d')"
proof -
  note c = commit_reply(2,3) [OF assms(1), of d yi t]
  let ?buf = "reply_bytes d msg yi t @ drop 274 msg"
  have buf: "274 \<le> length ?buf" "take 274 ?buf = reply_bytes d msg yi t" using c(2) by simp_all
  have "reply_bytes d' msg yi t = reply_bytes d msg yi t" using reply_bytes_cong assms(3,4) by blast
  moreover have "dhcp_finish d' (243, take 243 (reply_bytes d msg yi t) @ drop 243 msg) = Inr (274, ?buf)"
    using c(1) dhcp_finish_cong [OF assms(3,4)] by simp
  moreover have "socket_sendto ans (Some u) ?buf 274 0xffffffff PORT_DHCP_CLIENT =
      (if pbuf_alloc_answer ans
       then Inr ([PbufAlloc 274, UdpSendto u (reply_bytes d msg yi t) 0xffffffff PORT_DHCP_CLIENT, PbufFree Allocated],
         if udp_sendto_answer ans \<noteq> 0 then udp_sendto_answer ans else 274)
       else Inr ([PbufAlloc 274], - ENOMEM))"
    using socket_sendto_ok [OF buf(1), of ans u] buf(2) by (simp add: socket_sendto_def)
  ultimately show ?thesis using assms(2) by (simp add: carry_out_def)
qed

lemma dhcp_handle_decide:
  assumes "length msg = MSG_SIZE" "dhcp_ok d" "dhcp_udp d = Some u"
  shows "dhcp_handle ans ticks d msg =
     rbind (decide ticks d msg) (\<lambda>(d', r). Inr (carry_out ans msg d' r, d'))"
proof -
  note p = prepared_facts [OF assms(1), of d]
  have len: "length (prepared d msg) = length msg" using p(1) assms(1) by simp
  have f: "opt_find (prepared d msg) 240 DHCP_OPT_MSG_TYPE 0 = opt_find msg 240 DHCP_OPT_MSG_TYPE 0"
    by (rule opt_find_same_end [OF len p(3)])
  let ?msg = "\<lambda>(yi, t). (243, take 243 (reply_bytes d msg yi t) @ drop 243 msg)"
  let ?send = "\<lambda>(d', reply). case reply of None \<Rightarrow> Inr ([], d')
      | Some st \<Rightarrow> rbind (dhcp_finish d' st) (\<lambda>(opt, buf).
         rbind (socket_sendto ans (dhcp_udp d') buf opt 0xffffffff PORT_DHCP_CLIENT) (\<lambda>(calls, _). Inr (calls, d')))"
  have send: "?send (d', map_option ?msg r) = Inr (carry_out ans msg d' r, d')"
    if "dhcp_ip d' = dhcp_ip d" "dhcp_nm d' = dhcp_nm d" "dhcp_udp d' = dhcp_udp d" for d' r
    using send_reply [OF assms(1) _ that(1,2)] that(3) assms(3)
    by (cases r) (auto simp: carry_out_def split: prod.splits)
  show ?thesis
  proof (cases "opt_find msg 240 DHCP_OPT_MSG_TYPE 0")
    case (Inr res)
    show ?thesis
    proof (cases res)
      case (Some mt)
      have g: "arr_get (prepared d msg) (mt + 2) = arr_get msg (mt + 2)"
        by (rule arr_get_same_end [OF len p(3)]) (use opt_find_offset Inr Some in fastforce)
      show ?thesis
      proof (cases "arr_get msg (mt + 2)")
        case b: (Inr b)
        note b' = b [simplified] and g' = g [simplified]
        define X where "X = (if b = DHCPDISCOVER then Inr (decide_discover ticks d msg)
          else if b = DHCPREQUEST then decide_request ticks d msg else Inr (d, None))"
        have dec: "decide ticks d msg = X" by (simp add: decide_def Inr Some b' X_def)
        have "(if b = DHCPDISCOVER then dhcp_discover ticks d (prepared d msg)
            else if b = DHCPREQUEST then dhcp_request ticks d (prepared d msg) else Inr (d, None)) =
          rbind X (\<lambda>(d', r). Inr (d', map_option ?msg r))"
          using dhcp_discover_decide [OF assms(1)] dhcp_request_decide [OF assms(1,2)]
          by (simp add: X_def split: prod.split)
        then have h: "dhcp_handle ans ticks d msg = rbind (rbind X (\<lambda>(d', r). Inr (d', map_option ?msg r))) ?send"
          by (simp add: dhcp_handle_def prepare_msg [OF assms(1)] options_at f Inr Some g' b'
              del: dhcp_server.simps)
        show ?thesis
        proof (cases X)
          case x: (Inr dr)
          obtain d' r where dr: "dr = (d', r)" by (cases dr)
          have k: "dhcp_ip d' = dhcp_ip d" "dhcp_nm d' = dhcp_nm d" "dhcp_udp d' = dhcp_udp d"
            using decide_keeps [of ticks d msg d' r] dec x dr by simp_all
          show ?thesis unfolding h dec x dr rbind_simps prod.case using send [OF k] by simp
        qed (simp add: h dec)
      qed (simp add: dhcp_handle_def decide_def prepare_msg [OF assms(1)] options_at f Inr Some g [simplified])
    qed (simp add: dhcp_handle_def decide_def prepare_msg [OF assms(1)] options_at f Inr carry_out_def)
  qed (simp add: dhcp_handle_def decide_def prepare_msg [OF assms(1)] options_at f)
qed

section \<open>Time\<close>

lemma or_low_mask:
  fixes w :: u32
  shows "\<exists>k. k \<le> 0xffff \<and> push_bit 16 (ucast (ucast (drop_bit 16 w) :: u16)) OR 0xffff = w + of_nat k"
proof -
  have m: "(0xffff :: u32) = mask 16" by code_simp
  have "push_bit 16 (ucast (ucast (drop_bit 16 w) :: u16)) OR mask 16 = w OR mask 16"
    by (rule bit_word_eqI) (auto simp: bit_or_iff bit_push_bit_iff bit_ucast_iff bit_drop_bit_eq bit_mask_iff)
  then have "push_bit 16 (ucast (ucast (drop_bit 16 w) :: u16)) OR 0xffff = w OR mask 16" unfolding m .
  also have "\<dots> = w + (mask 16 AND NOT w)"
  proof -
    have "w AND (mask 16 AND NOT w) = 0" by (rule bit_word_eqI) (auto simp: bit_and_iff bit_not_iff)
    moreover have "w OR mask 16 = w OR (mask 16 AND NOT w)"
      by (rule bit_word_eqI) (auto simp: bit_and_iff bit_not_iff bit_or_iff)
    ultimately show ?thesis by (simp add: disjunctive_add_eq_or)
  qed
  finally have e: "push_bit 16 (ucast (ucast (drop_bit 16 w) :: u16)) OR 0xffff = w + (mask 16 AND NOT w)" .
  have "unat (mask 16 AND NOT w) \<le> unat (mask 16 :: u32)"
    by (rule word_le_nat_alt [THEN iffD1]) (rule word_and_le2)
  also have "unat (mask 16 :: u32) = 0xffff" unfolding m [symmetric] by simp
  finally show ?thesis using e by (intro exI [of _ "unat (mask 16 AND NOT w)"]) simp
qed

lemma lease_not_expired:
  assumes "lease_expiry l = new_expiry t" "unat (now - t) \<le> 86400000"
  shows "\<not> lease_expired l now"
proof -
  obtain k where k: "k \<le> 0xffff" "push_bit 16 (ucast (lease_expiry l)) OR 0xffff =
      (t + DEFAULT_LEASE_TIME_S * 1000) + of_nat k"
    using or_low_mask [of "t + DEFAULT_LEASE_TIME_S * 1000"] unfolding assms(1) new_expiry_def by blast
  define a where "a = 86400000 + k - unat (now - t)"
  have "(t + DEFAULT_LEASE_TIME_S * 1000) + of_nat k - now = of_nat (86400000 + k) - (now - t)"
    by (simp add: DEFAULT_LEASE_TIME_S_def)
  also have "now - t = of_nat (unat (now - t))" by simp
  also have "of_nat (86400000 + k) - of_nat (unat (now - t)) = (of_nat a :: u32)"
    using assms(2) unfolding a_def by (subst of_nat_diff) simp_all
  finally have e: "(push_bit 16 (ucast (lease_expiry l)) OR 0xffff) - now = (of_nat a :: u32)" unfolding k(2) .
  have "a < 2 ^ 31" using k(1) by (simp add: a_def)
  then have "sint (of_nat a :: u32) = int a"
    by (simp add: signed_of_nat signed_take_bit_int_eq_self)
  then show ?thesis unfolding lease_expired_def e by simp
qed

lemma dhcp_pick_range:
  "dhcp_pick ticks mac ls i yi = (yi', ls') \<Longrightarrow> yi' = yi \<or> i \<le> yi'"
proof (induction ls arbitrary: i yi ls')
  case (Cons l ls)
  show ?case
  proof (cases "lease_mac l = mac")
    case False
    from dhcp_pick_Cons [OF Cons.prems this] obtain y1 l1 ls1 where
      t: "dhcp_try ticks i yi l = (y1, l1)" and r: "dhcp_pick ticks mac ls (i + 1) y1 = (yi', ls1)" .
    from Cons.IH [OF r] dhcp_try_cases(1) [OF t] show ?thesis by auto
  qed (use Cons.prems in auto)
qed simp

text \<open>A lease that is held and not expired is not touched, nor offered to another client.\<close>

lemma dhcp_pick_keeps:
  "dhcp_pick ticks mac ls i yi = (yi', ls') \<Longrightarrow> j < length ls \<Longrightarrow> lease_mac (ls ! j) \<noteq> mac \<Longrightarrow>
     \<not> lease_free (ls ! j) \<Longrightarrow> \<not> lease_expired (ls ! j) (ticks (i + j)) \<Longrightarrow> yi \<noteq> i + j \<Longrightarrow>
     ls' ! j = ls ! j \<and> yi' \<noteq> i + j"
proof (induction ls arbitrary: i yi ls' j)
  case (Cons l ls)
  show ?case
  proof (cases "lease_mac l = mac")
    case False
    from dhcp_pick_Cons [OF Cons.prems(1) this] obtain y1 l1 ls1 where
      t: "dhcp_try ticks i yi l = (y1, l1)" and
      r: "dhcp_pick ticks mac ls (i + 1) y1 = (yi', ls1)" "ls' = l1 # ls1" .
    note c = dhcp_try_cases [OF t]
    show ?thesis
    proof (cases j)
      case 0
      then have "y1 = yi" "l1 = l" using c(3) Cons.prems(4,5) by simp_all
      moreover have "yi' = y1 \<or> i + 1 \<le> yi'" by (rule dhcp_pick_range [OF r(1)])
      ultimately show ?thesis using 0 r(2) Cons.prems(6) by auto
    next
      case (Suc k)
      with Cons.IH [OF r(1), of k] Cons.prems c(1) r(2) show ?thesis by auto
    qed
  next
    case True
    with Cons.prems show ?thesis by (cases j) auto
  qed
qed simp

text \<open>The callback on a packet, over the bytes it copies.\<close>

definition dhcp_msg_of :: "'p lwip \<Rightarrow> u8 list \<Rightarrow> 'p \<Rightarrow> u8 list" where
  "dhcp_msg_of L junk p =
     (let c = pbuf_copy_partial L p MSG_SIZE in c @ drop (length c) junk)"

lemma dhcp_process_decide:
  assumes "lwip_ok L" "length junk = MSG_SIZE" "dhcp_ok d" "dhcp_udp d = Some u"
  shows "dhcp_server_process L ans ticks d junk p =
     (if tot_len L p < DHCP_MIN_SIZE then Inr ([PbufFree Received], d)
      else rbind (decide ticks d (dhcp_msg_of L junk p)) (\<lambda>(d', r).
        Inr (carry_out ans (dhcp_msg_of L junk p) d' r @ [PbufFree Received], d')))"
    and "length (dhcp_msg_of L junk p) = MSG_SIZE"
proof -
  let ?c = "pbuf_copy_partial L p MSG_SIZE"
  have c: "length ?c = min MSG_SIZE (tot_len L p)" using assms(1) by (simp add: lwip_ok_def)
  then have b: "blit junk 0 ?c (length ?c) = Inr (dhcp_msg_of L junk p)"
    using assms(2) by (simp add: blit_def dhcp_msg_of_def Let_def)
  show len: "length (dhcp_msg_of L junk p) = MSG_SIZE"
    using c assms(2) by (simp add: dhcp_msg_of_def Let_def)
  show "dhcp_server_process L ans ticks d junk p =
     (if tot_len L p < DHCP_MIN_SIZE then Inr ([PbufFree Received], d)
      else rbind (decide ticks d (dhcp_msg_of L junk p)) (\<lambda>(d', r).
        Inr (carry_out ans (dhcp_msg_of L junk p) d' r @ [PbufFree Received], d')))"
  proof (cases "tot_len L p < DHCP_MIN_SIZE")
    case False
    then have "\<not> length ?c < DHCP_MIN_SIZE" using c by (simp add: dhcp_layout)
    with False show ?thesis
      by (simp add: dhcp_server_process_def Let_def b dhcp_handle_decide [OF len assms(3,4)] rbind_assoc)
        (simp add: rbind_def split: sum.split prod.split)
  qed (simp add: dhcp_server_process_def)
qed

lemma decide_ok:
  assumes "decide ticks d msg = Inr (d', r)" "dhcp_ok d" "length msg = MSG_SIZE"
  shows "dhcp_ok d'" "\<forall>yi t. r = Some (yi, t) \<longrightarrow> yi < DHCPS_MAX_IP"
proof -
  consider "d' = d" "r = None" | "decide_discover ticks d msg = (d', r)" | "decide_request ticks d msg = Inr (d', r)"
    using decide_cases [OF assms(1)] by blast
  then have "dhcp_ok d' \<and> (\<forall>yi t. r = Some (yi, t) \<longrightarrow> yi < DHCPS_MAX_IP)"
  proof cases
    case 2
    from decide_discover_leases [OF this] obtain yi ls where
      p: "dhcp_pick ticks (msg_mac msg) (dhcp_leases d) 0 DHCPS_MAX_IP = (yi, ls)"
      "d' = d\<lparr>dhcp_leases := ls\<rparr>" "r = (if yi = DHCPS_MAX_IP then None else Some (yi, DHCPOFFER))" by blast
    from dhcp_pick_shape [OF p(1)] assms(2) p(2,3) show ?thesis
      by (auto simp: dhcp_ok_def split: if_splits)
  next
    case 3
    have m: "length (msg_mac msg) = MAC_LEN" using assms(3) by (simp add: msg_mac_def dhcp_layout)
    from decide_request_leases [OF 3] show ?thesis
      using assms(2) m by (auto simp: dhcp_ok_def list_all_iff dest!: set_update_subset_insert [THEN subsetD])
  qed (use assms(2) in simp)
  then show "dhcp_ok d'" "\<forall>yi t. r = Some (yi, t) \<longrightarrow> yi < DHCPS_MAX_IP" by blast+
qed

lemma decide_keeps_lease:
  assumes "decide ticks d msg = Inr (d', r)" "dhcp_ok d" "i < DHCPS_MAX_IP"
    and "dhcp_leases d ! i = l" "\<not> lease_free l" "lease_mac l \<noteq> msg_mac msg" "\<not> lease_expired l (ticks i)"
  shows "dhcp_leases d' ! i = l \<and> (\<forall>t. r \<noteq> Some (i, t))"
proof -
  have i: "i < length (dhcp_leases d)" using assms(2,3) by (simp add: dhcp_ok_def)
  consider "d' = d" "r = None" | "decide_discover ticks d msg = (d', r)" | "decide_request ticks d msg = Inr (d', r)"
    using decide_cases [OF assms(1)] by blast
  then show ?thesis
  proof cases
    case 2
    from decide_discover_leases [OF this] obtain yi ls where
      p: "dhcp_pick ticks (msg_mac msg) (dhcp_leases d) 0 DHCPS_MAX_IP = (yi, ls)"
      "d' = d\<lparr>dhcp_leases := ls\<rparr>" "r = (if yi = DHCPS_MAX_IP then None else Some (yi, DHCPOFFER))" by blast
    from dhcp_pick_keeps [OF p(1) i] assms(3-7) p(2,3) show ?thesis by auto
  next
    case 3
    from decide_request_leases [OF 3] show ?thesis
      using assms(2,4-6) by (auto simp: nth_list_update dhcp_ok_def)
  qed (use assms(4) in simp)
qed

lemma dhcp_pick_offer:
  "dhcp_pick ticks mac ls i yi = (yi', ls') \<Longrightarrow>
     yi' = yi \<or> i \<le> yi' \<and> yi' < i + length ls \<and>
       (lease_mac (ls' ! (yi' - i)) = mac \<or> lease_free (ls' ! (yi' - i)))"
proof (induction ls arbitrary: i yi ls')
  case (Cons l ls)
  show ?case
  proof (cases "lease_mac l = mac")
    case False
    from dhcp_pick_Cons [OF Cons.prems this] obtain y1 l1 ls1 where
      t: "dhcp_try ticks i yi l = (y1, l1)" and
      r: "dhcp_pick ticks mac ls (i + 1) y1 = (yi', ls1)" "ls' = l1 # ls1" .
    have "y1 = yi \<or> y1 = i \<and> lease_free l1"
      using t by (auto simp: dhcp_try_def lease_free_def Let_def split: if_splits)
    then consider "yi' = yi" | "yi' = i" "lease_free l1" | "i + 1 \<le> yi'"
      "yi' < i + 1 + length ls" "lease_mac (ls1 ! (yi' - (i + 1))) = mac \<or> lease_free (ls1 ! (yi' - (i + 1)))"
      using Cons.IH [OF r(1)] by metis
    then show ?thesis
    proof cases
      case 3
      then have "yi' - i = Suc (yi' - (i + 1))" by simp
      with 3 show ?thesis by (simp add: r(2))
    qed (simp_all add: r(2))
  qed (use Cons.prems in auto)
qed simp

lemma dhcp_pick_finds:
  "dhcp_pick ticks mac ls i yi = (yi', ls') \<Longrightarrow> i + length ls \<le> DHCPS_MAX_IP \<Longrightarrow>
     yi < i \<or> yi = DHCPS_MAX_IP \<and> (\<exists>l\<in>set ls. lease_mac l = mac \<or> lease_free l) \<Longrightarrow> yi' < DHCPS_MAX_IP"
proof (induction ls arbitrary: i yi ls')
  case (Cons l ls)
  show ?case
  proof (cases "lease_mac l = mac")
    case False
    from dhcp_pick_Cons [OF Cons.prems(1) this] obtain y1 l1 ls1 where
      t: "dhcp_try ticks i yi l = (y1, l1)" and
      r: "dhcp_pick ticks mac ls (i + 1) y1 = (yi', ls1)" "ls' = l1 # ls1" .
    have "y1 = yi \<or> y1 = i" "lease_free l \<Longrightarrow> yi = DHCPS_MAX_IP \<Longrightarrow> y1 = i"
      using t by (auto simp: dhcp_try_def Let_def split: if_splits)
    with Cons.prems(3) False
    have "y1 < i + 1 \<or> y1 = DHCPS_MAX_IP \<and> (\<exists>l\<in>set ls. lease_mac l = mac \<or> lease_free l)" by auto
    with Cons.IH [OF r(1)] Cons.prems(2) show ?thesis by simp
  next
    case True
    with Cons.prems show ?thesis by auto
  qed
qed simp

lemma opts_ok_list: "opts_ok opts \<Longrightarrow> list_all (\<lambda>(c, data). c \<noteq> DHCP_OPT_END \<and> length data \<le> 255) opts"
  "opts_ok opts \<Longrightarrow> map_of opts DHCP_OPT_MSG_TYPE = Some data \<Longrightarrow> length data = 1"
  "opts_ok opts \<Longrightarrow> map_of opts DHCP_OPT_REQUESTED_IP = Some data \<Longrightarrow> length data = 4"
  by (auto simp: opts_ok_def list_all_iff dest!: map_of_SomeD)

lemma drop_nth: "drop j xs = ys \<Longrightarrow> k < length ys \<Longrightarrow> j + k < length xs \<and> xs ! (j + k) = ys ! k"
  by auto

text \<open>The decision on a message with well-formed options.\<close>

lemma decide_wellformed:
  assumes "length msg = MSG_SIZE" "drop 240 msg = encode_opts opts @ rest" "opts_ok opts"
    and "map_of opts DHCP_OPT_MSG_TYPE = Some [t]"
  shows "decide ticks d msg =
     (if t = DHCPDISCOVER then Inr (decide_discover ticks d msg)
      else if t = DHCPREQUEST then decide_request ticks d msg else Inr (d, None))"
proof -
  have l: "0 + length (encode_opts opts) \<le> 308" using assms(3) by (simp add: opts_ok_def)
  have d: "drop (240 + 0) msg = encode_opts opts @ rest" using assms(2) by simp
  have "DHCP_OPT_MSG_TYPE \<noteq> DHCP_OPT_END" by (simp add: dhcp_options)
  from opt_find_opts [OF d l opts_ok_list(1) [OF assms(3)] this] assms(4) obtain j rest' where
    j: "opt_find msg 240 DHCP_OPT_MSG_TYPE 0 = Inr (Some j)" "drop j msg = DHCP_OPT_MSG_TYPE # 1 # t # rest'" by auto
  from drop_nth [OF j(2), of 2] have "arr_get msg (j + 2) = Inr t" by (simp add: arr_get_def)
  with j(1) show ?thesis by (simp add: decide_def)
qed

lemma decide_request_wellformed:
  assumes "length msg = MSG_SIZE" "drop 240 msg = encode_opts opts @ rest" "opts_ok opts"
    and "map_of opts DHCP_OPT_REQUESTED_IP = Some (take 3 (le_bytes 4 (dhcp_ip d)) @ [of_nat (DHCPS_BASE_IP + yi)])"
    and "yi < DHCPS_MAX_IP" "lease_mac (dhcp_leases d ! yi) = msg_mac msg \<or> lease_free (dhcp_leases d ! yi)"
  shows "decide_request ticks d msg =
     Inr (d\<lparr>dhcp_leases := (dhcp_leases d)[yi := (dhcp_leases d ! yi)
        \<lparr>lease_mac := msg_mac msg, lease_expiry := new_expiry (ticks 0)\<rparr>]\<rparr>, Some (yi, DHCPACK))"
proof -
  let ?data = "take 3 (le_bytes 4 (dhcp_ip d)) @ [of_nat (DHCPS_BASE_IP + yi)]"
  have l: "0 + length (encode_opts opts) \<le> 308" using assms(3) by (simp add: opts_ok_def)
  have d: "drop (240 + 0) msg = encode_opts opts @ rest" using assms(2) by simp
  have "DHCP_OPT_REQUESTED_IP \<noteq> DHCP_OPT_END" by (simp add: dhcp_options)
  from opt_find_opts [OF d l opts_ok_list(1) [OF assms(3)] this] assms(4) obtain j rest' where
    j: "opt_find msg 240 DHCP_OPT_REQUESTED_IP 0 = Inr (Some j)"
      "drop j msg = DHCP_OPT_REQUESTED_IP # of_nat (length ?data) # ?data @ rest'" by blast
  have dl: "length ?data = 4" by simp
  then have n: "5 < length (DHCP_OPT_REQUESTED_IP # of_nat (length ?data) # ?data @ rest')" by simp
  from drop_nth [OF j(2) n] have b: "arr_get msg (j + 5) = Inr (of_nat (DHCPS_BASE_IP + yi))" "j + 5 \<le> length msg"
    by (simp_all add: arr_get_def nth_append)
  have "drop 2 (drop j msg) = ?data @ rest'" unfolding j(2) by simp
  then have net: "take 3 (drop (j + 2) msg) = take 3 (le_bytes 4 (dhcp_ip d))" by (simp add: add.commute)
  have "yi \<in> set [0..<8]" using assms(5) by (simp add: DHCPS_MAX_IP_def)
  then have u: "unat (of_nat (DHCPS_BASE_IP + yi) - of_nat DHCPS_BASE_IP :: u8) = yi"
    by (auto simp: DHCPS_BASE_IP_def upt_rec)
  show ?thesis
    unfolding decide_request_def j(1) rbind_simps option.case net b(1) u Let_def
    using b(2) assms(5,6) by (simp add: not_le [symmetric])
qed

text \<open>A message of the client \<open>mac\<close> with the options \<open>opts\<close>.\<close>

definition client_msg :: "'p lwip \<Rightarrow> 'p \<Rightarrow> u8 list \<Rightarrow> (u8 \<times> u8 list) list \<Rightarrow> bool" where
  "client_msg L p mac opts \<longleftrightarrow> opts_ok opts \<and> length mac = MAC_LEN \<and>
     (\<exists>pre post rest. length pre = 28 \<and> length post = 206 \<and>
        pbuf_copy_partial L p MSG_SIZE = pre @ mac @ post @ encode_opts opts @ rest)"

lemma client_msg_facts:
  assumes "client_msg L p mac opts" "lwip_ok L" "map_of opts c = Some [t]"
  shows "\<not> tot_len L p < DHCP_MIN_SIZE" "msg_mac (dhcp_msg_of L junk p) = mac"
    "\<exists>rest. drop 240 (dhcp_msg_of L junk p) = encode_opts opts @ rest"
proof -
  from assms(1) obtain pre post rest where
    m: "length pre = 28" "length post = 206" "length mac = 6"
      "pbuf_copy_partial L p MSG_SIZE = pre @ mac @ post @ encode_opts opts @ rest"
    by (auto simp: client_msg_def MAC_LEN_def)
  have "(c, [t]) \<in> set opts" using assms(3) by (rule map_of_SomeD)
  then have "3 \<le> length (encode_opts opts)"
    by (induction opts) (auto simp: encode_opts_simps)
  moreover have "length (pbuf_copy_partial L p MSG_SIZE) \<le> tot_len L p"
    using assms(2) by (simp add: lwip_ok_def)
  ultimately show "\<not> tot_len L p < DHCP_MIN_SIZE" using m by (simp add: DHCP_MIN_SIZE_def)
  have e: "\<exists>rest'. dhcp_msg_of L junk p = pre @ mac @ post @ encode_opts opts @ rest'"
    unfolding dhcp_msg_of_def Let_def m(4) by simp
  with m show "msg_mac (dhcp_msg_of L junk p) = mac" by (auto simp: msg_mac_def MSG_CHADDR_def MAC_LEN_def)
  from e m show "\<exists>rest. drop 240 (dhcp_msg_of L junk p) = encode_opts opts @ rest" by auto
qed

section \<open>Properties\<close>

definition one_free :: "udp_call list \<Rightarrow> bool" where
  "one_free calls \<longleftrightarrow> count_list calls (PbufFree Received) = 1 \<and>
     count_list calls (PbufFree Allocated) = length (datagrams calls)"

lemma carry_out_datagrams:
  "datagrams (carry_out ans msg d r) =
     (case r of None \<Rightarrow> []
      | Some (yi, t) \<Rightarrow> if pbuf_alloc_answer ans
          then [(the (dhcp_udp d), reply_bytes d msg yi t, 0xffffffff, PORT_DHCP_CLIENT)] else [])"
  "one_free (carry_out ans msg d r @ [PbufFree Received])"
  by (auto simp: carry_out_def one_free_def split: option.split prod.split)

lemma reply_yiaddr:
  assumes "length msg = MSG_SIZE"
  shows "reply_bytes d msg yi t ! 19 = of_nat (DHCPS_BASE_IP + yi)"
proof -
  from msg_split [OF assms] obtain b xs ys zs ws where
    m: "msg = b # xs @ ys @ zs @ ws" "length xs = 15" by blast
  then show ?thesis by (simp add: reply_bytes_def nth_append nth_Cons')
qed

lemma dhcp_init_ok: "dhcp_ok (snd (dhcp_server_init ans ip nm))"
  by (simp add: dhcp_server_init_def dhcp_ok_def Let_def socket_new_dgram_def list_all_iff split: option.split)

lemma dhcp_process_keeps:
  assumes "lwip_ok L" "length junk = MSG_SIZE" "dhcp_ok d" "dhcp_udp d = Some u"
    and "dhcp_server_process L ans ticks d junk p = Inr (calls, d')"
  shows "dhcp_ok d'" "dhcp_ip d' = dhcp_ip d" "dhcp_nm d' = dhcp_nm d" "dhcp_udp d' = dhcp_udp d"
proof -
  note v = dhcp_process_decide(1) [OF assms(1-4), of ans ticks p] dhcp_process_decide(2) [OF assms(1-4), of p]
  have "dhcp_ok d' \<and> dhcp_ip d' = dhcp_ip d \<and> dhcp_nm d' = dhcp_nm d \<and> dhcp_udp d' = dhcp_udp d"
  proof (cases "tot_len L p < DHCP_MIN_SIZE")
    case False
    with v(1) assms(5) obtain r where r: "decide ticks d (dhcp_msg_of L junk p) = Inr (d', r)"
      by (cases "decide ticks d (dhcp_msg_of L junk p)") auto
    from decide_keeps [OF r] decide_ok [OF r assms(3) v(2)] show ?thesis by simp
  qed (use v(1) assms(3,5) in auto)
  then show "dhcp_ok d'" "dhcp_ip d' = dhcp_ip d" "dhcp_nm d' = dhcp_nm d" "dhcp_udp d' = dhcp_udp d" by simp_all
qed

lemma dhcp_process_replies:
  assumes "lwip_ok L" "length junk = MSG_SIZE" "dhcp_ok d" "dhcp_udp d = Some u"
    and "dhcp_server_process L ans ticks d junk p = Inr (calls, d')"
  shows "dhcp_ok d' \<and> dhcp_ip d' = dhcp_ip d \<and> dhcp_nm d' = dhcp_nm d \<and> dhcp_udp d' = dhcp_udp d \<and>
      one_free calls \<and> length (datagrams calls) \<le> 1 \<and>
      (\<forall>(u', bs, dest, port)\<in>set (datagrams calls). u' = u \<and> dest = 0xffffffff \<and> port = 68 \<and>
         length bs = 274 \<and> 16 \<le> bs ! 19 \<and> bs ! 19 < 24)"
proof -
  let ?msg = "dhcp_msg_of L junk p"
  note v = dhcp_process_decide(1) [OF assms(1-4), of ans ticks p] dhcp_process_decide(2) [OF assms(1-4), of p]
  show ?thesis
  proof (cases "tot_len L p < DHCP_MIN_SIZE")
    case True
    with v(1) assms(3,5) show ?thesis by (auto simp: one_free_def)
  next
    case False
    with v(1) assms(5) obtain r where
      r: "decide ticks d ?msg = Inr (d', r)" "calls = carry_out ans ?msg d' r @ [PbufFree Received]"
      by (cases "decide ticks d ?msg") auto
    note k = decide_keeps [OF r(1)] and o = decide_ok [OF r(1) assms(3) v(2)]
    have dg: "length (datagrams calls) \<le> 1 \<and>
      (\<forall>(u', bs, dest, port)\<in>set (datagrams calls). u' = u \<and> dest = 0xffffffff \<and> port = 68 \<and>
         length bs = 274 \<and> 16 \<le> bs ! 19 \<and> bs ! 19 < 24)"
    proof (cases r)
      case (Some y)
      obtain yi t where y: "y = (yi, t)" by (cases y)
      then have "yi < 8" using o(2) Some by (simp add: DHCPS_MAX_IP_def)
      then have "yi \<in> set [0..<8]" by simp
      then have "16 \<le> (of_nat (DHCPS_BASE_IP + yi) :: u8) \<and> (of_nat (DHCPS_BASE_IP + yi) :: u8) < 24"
        by (auto simp: DHCPS_BASE_IP_def upt_rec)
      then show ?thesis
        using reply_yiaddr [OF v(2), of d' yi t] commit_reply(3) [OF v(2), of d' yi t] k assms(4)
        by (simp add: r(2) carry_out_datagrams(1) Some y PORT_DHCP_CLIENT_def)
    qed (simp add: r(2) carry_out_datagrams(1))
    show ?thesis using dg k o(1) carry_out_datagrams(2) unfolding r(2) by blast
  qed
qed

text \<open>The reads of an option stay inside the message: the search for \<open>cmd\<close> does, and so does the byte
  \<open>n\<close> behind the place where it is found. The code checks neither.\<close>

definition reads_inside :: "u8 list \<Rightarrow> u8 \<Rightarrow> nat \<Rightarrow> bool" where
  "reads_inside msg cmd n \<longleftrightarrow>
     (case opt_find msg (MSG_OPTIONS + 4) cmd 0 of
        Inl e \<Rightarrow> False
      | Inr None \<Rightarrow> True
      | Inr (Some opt) \<Rightarrow> opt + n < length msg)"

lemma decide_returns:
  assumes "reads_inside msg DHCP_OPT_MSG_TYPE 2" "reads_inside msg DHCP_OPT_REQUESTED_IP 5"
  shows "\<exists>r. decide ticks d msg = Inr r"
proof -
  have "\<exists>r. decide_request ticks d msg = Inr r"
    using assms(2) unfolding reads_inside_def options_at
    by (cases "opt_find msg 240 DHCP_OPT_REQUESTED_IP 0")
      (auto simp: decide_request_def arr_get_Inr Let_def split: option.splits)
  then show ?thesis using assms(1) unfolding reads_inside_def options_at
    by (cases "opt_find msg 240 DHCP_OPT_MSG_TYPE 0")
      (auto simp: decide_def arr_get_Inr split: option.splits)
qed

text \<open>C29. The lease table keeps its shape and every reply its own. The table starts with eight free
  leases and MACs of six bytes. For every packet, on a server whose table has that shape: if the
  reads of the two options the server looks for stay inside the 548-byte message, the server gets through
  without a fault, whatever address is asked for; and whenever it gets through, the table has its
  shape, the packet is released exactly once, and what is sent is one broadcast of 274
  bytes to the client port at most, with an address of the pool (16 to 23) in it.\<close>

theorem dhcp_state_and_replies_wellformed:
  assumes "lwip_ok L" "length junk = MSG_SIZE" "dhcp_ok d" "dhcp_udp d = Some u"
  shows "dhcp_ok (snd (dhcp_server_init ans' ip nm)) \<and>
    (case dhcp_server_process L ans ticks d junk p of
       Inl e \<Rightarrow> \<not> (reads_inside (dhcp_msg_of L junk p) DHCP_OPT_MSG_TYPE 2 \<and>
                    reads_inside (dhcp_msg_of L junk p) DHCP_OPT_REQUESTED_IP 5)
     | Inr (calls, d') \<Rightarrow>
         dhcp_ok d' \<and> dhcp_ip d' = dhcp_ip d \<and> dhcp_nm d' = dhcp_nm d \<and> dhcp_udp d' = dhcp_udp d \<and>
         one_free calls \<and> length (datagrams calls) \<le> 1 \<and>
         (\<forall>(u', bs, dest, port)\<in>set (datagrams calls). u' = u \<and> dest = 0xffffffff \<and> port = 68 \<and>
            length bs = 274 \<and> 16 \<le> bs ! 19 \<and> bs ! 19 < 24))"
proof (cases "dhcp_server_process L ans ticks d junk p")
  case (Inl e)
  let ?msg = "dhcp_msg_of L junk p"
  note v = dhcp_process_decide(1) [OF assms, of ans ticks p]
  have "\<not> tot_len L p < DHCP_MIN_SIZE" "\<nexists>r. decide ticks d ?msg = Inr r"
    using v Inl by (auto split: if_splits prod.splits)
  with decide_returns [of ?msg ticks d] show ?thesis using dhcp_init_ok by (auto simp: Inl)
next
  case (Inr r)
  then obtain calls d' where r: "dhcp_server_process L ans ticks d junk p = Inr (calls, d')" by (cases r) auto
  from dhcp_process_replies [OF assms r] dhcp_init_ok show ?thesis by (simp add: r)
qed

text \<open>A server that has just started, and lwIP over packets that are lists of bytes.\<close>

definition dhcp_start :: dhcp_server where
  "dhcp_start = snd (dhcp_server_init \<lparr>udp_new_answer = Some 5, udp_bind_answer = 0,
     pbuf_alloc_answer = True, udp_sendto_answer = 0\<rparr> 0x0104A8C0 0x00FFFFFF)"

lemma dhcp_start_facts: "dhcp_ok dhcp_start" "dhcp_udp dhcp_start = Some 5"
  "dhcp_ip dhcp_start = 0x0104A8C0"
  by (simp_all add: dhcp_start_def dhcp_server_init_def socket_new_dgram_def dhcp_ok_def list_all_iff)

definition sample_message :: "u8 list \<Rightarrow> (u8 \<times> u8 list) list \<Rightarrow> u8 list" where
  "sample_message mac opts = replicate 28 0 @ mac @ replicate 206 0 @ encode_opts opts @ [0, 0, 0, 0]"

lemma sample_message:
  assumes "opts_ok opts" "length mac = MAC_LEN" "length (encode_opts opts) \<le> 300"
  shows "client_msg list_lwip (sample_message mac opts) mac opts"
proof -
  have "pbuf_copy_partial list_lwip (sample_message mac opts) MSG_SIZE =
      replicate 28 0 @ mac @ replicate 206 0 @ encode_opts opts @ [0, 0, 0, 0]"
    using assms(2,3) by (simp add: list_lwip_def sample_message_def MSG_SIZE_def MAC_LEN_def)
  with assms(1,2) show ?thesis
    unfolding client_msg_def
    by (intro conjI exI [of _ "replicate 28 0"] exI [of _ "replicate 206 0"] exI [of _ "[0, 0, 0, 0]"]) simp_all
qed

lemma sample_options: "opts_ok [(53, [1])]" "opts_ok [(53, [3]), (50, [192, 168, 4, 16])]"
  "length (encode_opts [(53, [1])]) \<le> 300" "length (encode_opts [(53, [3]), (50, [192, 168, 4, 16])]) \<le> 300"
  by (simp_all add: opts_ok_def encode_opts_def dhcp_options)

lemma sample_discover:
  assumes "dhcp_ok d" "dhcp_udp d = Some u" "length junk = MSG_SIZE" "length mac = MAC_LEN"
  shows "\<exists>calls d'. dhcp_server_process list_lwip ans ticks d junk (sample_message mac [(53, [1])]) = Inr (calls, d')"
    and "msg_mac (dhcp_msg_of list_lwip junk (sample_message mac [(53, [1])])) = mac"
proof -
  let ?msg = "dhcp_msg_of list_lwip junk (sample_message mac [(53, [1])])"
  note c = sample_message [OF sample_options(1) assms(4) sample_options(3)]
  have m: "map_of [(53 :: u8, [1 :: u8])] DHCP_OPT_MSG_TYPE = Some [DHCPDISCOVER]"
    by (simp add: dhcp_options dhcp_types)
  note f = client_msg_facts(1) [OF c list_lwip_ok m] client_msg_facts(2,3) [OF c list_lwip_ok m, of junk]
  note v = dhcp_process_decide [OF list_lwip_ok assms(3,1,2)]
  from f(3) obtain rest where "drop 240 ?msg = encode_opts [(53, [1])] @ rest" by blast
  from decide_wellformed [OF v(2) this sample_options(1) m]
  show "\<exists>calls d'. dhcp_server_process list_lwip ans ticks d junk (sample_message mac [(53, [1])]) = Inr (calls, d')"
    unfolding v(1) by (cases "decide_discover ticks d ?msg") (simp add: f(1))
  show "msg_mac ?msg = mac" by (rule f(2))
qed

theorem dhcp_state_and_replies_wellformed_witness:
  "\<exists>calls d'. dhcp_server_process list_lwip good_answers (\<lambda>_. 5) dhcp_start (replicate 548 0xAA)
       (sample_message [2, 0, 0, 0, 0, 1] [(53, [1])]) = Inr (calls, d') \<and> dhcp_ok d' \<and> one_free calls"
proof -
  let ?p = "sample_message [2, 0, 0, 0, 0, 1] [(53, [1])]"
  have len: "length (replicate 548 (0xAA :: u8)) = MSG_SIZE" "length [2, 0, 0, 0, 0, 1 :: u8] = MAC_LEN"
    by (simp_all add: dhcp_layout)
  from sample_discover(1) [OF dhcp_start_facts(1,2) len] obtain calls d' where
    r: "dhcp_server_process list_lwip good_answers (\<lambda>_. 5) dhcp_start (replicate 548 0xAA) ?p = Inr (calls, d')"
    by blast
  from dhcp_state_and_replies_wellformed [OF list_lwip_ok len(1) dhcp_start_facts(1,2),
    where ans = good_answers and ticks = "\<lambda>_. 5" and p = ?p] r
  show ?thesis by simp
qed

lemma discover_offers:
  assumes "lwip_ok L" "dhcp_ok d" "dhcp_udp d = Some u" "pbuf_alloc_answer ans" "length junk = MSG_SIZE"
    and "\<exists>l\<in>set (dhcp_leases d). lease_mac l = mac \<or> lease_free l"
    and "client_msg L p mac opts" "map_of opts DHCP_OPT_MSG_TYPE = Some [DHCPDISCOVER]"
  shows "\<exists>yi ls. yi < DHCPS_MAX_IP \<and> (lease_mac (ls ! yi) = mac \<or> lease_free (ls ! yi)) \<and> dhcp_ok (d\<lparr>dhcp_leases := ls\<rparr>) \<and>
     dhcp_server_process L ans ticks d junk p =
       Inr ([PbufAlloc 274, UdpSendto u (reply_bytes d (dhcp_msg_of L junk p) yi DHCPOFFER) 0xffffffff 68,
             PbufFree Allocated, PbufFree Received], d\<lparr>dhcp_leases := ls\<rparr>)"
proof -
  let ?m = "dhcp_msg_of L junk p"
  note v = dhcp_process_decide [OF assms(1,5,2,3)]
  note f = client_msg_facts(1) [OF assms(7,1,8)] client_msg_facts(2,3) [OF assms(7,1,8), of junk]
  from f(3) obtain rest where r: "drop 240 ?m = encode_opts opts @ rest" by blast
  have o: "opts_ok opts" using assms(7) by (simp add: client_msg_def)
  obtain yi ls where pick: "dhcp_pick ticks mac (dhcp_leases d) 0 DHCPS_MAX_IP = (yi, ls)"
    by (cases "dhcp_pick ticks mac (dhcp_leases d) 0 DHCPS_MAX_IP")
  have "length (dhcp_leases d) = DHCPS_MAX_IP" using assms(2) by (simp add: dhcp_ok_def)
  then have yi: "yi < DHCPS_MAX_IP" using dhcp_pick_finds [OF pick] assms(6) by simp
  with dhcp_pick_offer [OF pick] have own: "lease_mac (ls ! yi) = mac \<or> lease_free (ls ! yi)" by simp
  have dec: "decide ticks d ?m = Inr (d\<lparr>dhcp_leases := ls\<rparr>, Some (yi, DHCPOFFER))"
    using decide_wellformed [OF v(2) r o assms(8)] pick yi by (simp add: decide_discover_def f(2) dhcp_types)
  then have "dhcp_server_process L ans ticks d junk p =
      Inr ([PbufAlloc 274, UdpSendto u (reply_bytes d ?m yi DHCPOFFER) 0xffffffff 68,
            PbufFree Allocated, PbufFree Received], d\<lparr>dhcp_leases := ls\<rparr>)"
    using f(1) assms(3,4) unfolding v(1) by (simp add: carry_out_def PORT_DHCP_CLIENT_def)
  with yi own decide_ok(1) [OF dec assms(2) v(2)] show ?thesis by blast
qed

lemma request_acks:
  assumes "lwip_ok L" "dhcp_ok d" "dhcp_udp d = Some u" "pbuf_alloc_answer ans" "length junk = MSG_SIZE"
    and "yi < DHCPS_MAX_IP" "lease_mac (dhcp_leases d ! yi) = mac \<or> lease_free (dhcp_leases d ! yi)"
    and "client_msg L p mac opts" "map_of opts DHCP_OPT_MSG_TYPE = Some [DHCPREQUEST]"
    and "map_of opts DHCP_OPT_REQUESTED_IP = Some (take 3 (le_bytes 4 (dhcp_ip d)) @ [of_nat (16 + yi)])"
  shows "\<exists>d'. dhcp_server_process L ans ticks d junk p =
       Inr ([PbufAlloc 274, UdpSendto u (reply_bytes d (dhcp_msg_of L junk p) yi DHCPACK) 0xffffffff 68,
             PbufFree Allocated, PbufFree Received], d') \<and>
     dhcp_leases d' ! yi = \<lparr>lease_mac = mac, lease_expiry = new_expiry (ticks 0)\<rparr>"
proof -
  let ?m = "dhcp_msg_of L junk p" let ?ls = "dhcp_leases d"
  let ?d = "d\<lparr>dhcp_leases := ?ls[yi := (?ls ! yi)\<lparr>lease_mac := mac, lease_expiry := new_expiry (ticks 0)\<rparr>]\<rparr>"
  note v = dhcp_process_decide [OF assms(1,5,2,3)]
  note f = client_msg_facts(1) [OF assms(8,1,9)] client_msg_facts(2,3) [OF assms(8,1,9), of junk]
  from f(3) obtain rest where r: "drop 240 ?m = encode_opts opts @ rest" by blast
  have o: "opts_ok opts" using assms(8) by (simp add: client_msg_def)
  have ip: "map_of opts DHCP_OPT_REQUESTED_IP = Some (take 3 (le_bytes 4 (dhcp_ip d)) @ [of_nat (DHCPS_BASE_IP + yi)])"
    using assms(10) by (simp add: DHCPS_BASE_IP_def)
  have own: "lease_mac (?ls ! yi) = msg_mac ?m \<or> lease_free (?ls ! yi)" using assms(7) f(2) by simp
  have "decide ticks d ?m = Inr (?d, Some (yi, DHCPACK))"
    using decide_wellformed [OF v(2) r o assms(9)] decide_request_wellformed [OF v(2) r o ip assms(6) own]
    by (simp add: dhcp_types f(2))
  then have "dhcp_server_process L ans ticks d junk p =
    Inr ([PbufAlloc 274, UdpSendto u (reply_bytes d ?m yi DHCPACK) 0xffffffff 68,
          PbufFree Allocated, PbufFree Received], ?d)"
    using f(1) assms(3,4) unfolding v(1) by (simp add: carry_out_def PORT_DHCP_CLIENT_def)
  moreover have "dhcp_leases ?d ! yi = \<lparr>lease_mac = mac, lease_expiry = new_expiry (ticks 0)\<rparr>"
    using assms(2,6) by (simp add: dhcp_ok_def)
  ultimately show ?thesis by blast
qed

text \<open>C30. A client gets its address: when a lease is its own or free, its DISCOVER is answered with an
  OFFER of an address of the pool, and a REQUEST for that address with an ACK, both with the
  server's address, netmask, router, name server and the lease time as options; after it the
  lease is the client's, with its expiry counted from the request.\<close>

theorem dhcp_client_gets_address:
  assumes "lwip_ok L" "dhcp_ok d" "dhcp_udp d = Some u" "pbuf_alloc_answer ans"
    and "length junk1 = MSG_SIZE" "length junk2 = MSG_SIZE"
    and "\<exists>l\<in>set (dhcp_leases d). lease_mac l = mac \<or> lease_free l"
    and "client_msg L p1 mac opts1" "map_of opts1 DHCP_OPT_MSG_TYPE = Some [DHCPDISCOVER]"
  shows "\<exists>yi < 8. \<exists>d1.
    dhcp_server_process L ans ticks1 d junk1 p1 =
      Inr ([PbufAlloc 274,
            UdpSendto u (reply_bytes d (dhcp_msg_of L junk1 p1) yi DHCPOFFER) 0xffffffff 68,
            PbufFree Allocated, PbufFree Received], d1) \<and>
    (\<forall>p2 opts2. client_msg L p2 mac opts2 \<and> map_of opts2 DHCP_OPT_MSG_TYPE = Some [DHCPREQUEST] \<and>
       map_of opts2 DHCP_OPT_REQUESTED_IP = Some (take 3 (le_bytes 4 (dhcp_ip d)) @ [of_nat (16 + yi)]) \<longrightarrow>
       (\<exists>d2. dhcp_server_process L ans ticks2 d1 junk2 p2 =
          Inr ([PbufAlloc 274,
                UdpSendto u (reply_bytes d (dhcp_msg_of L junk2 p2) yi DHCPACK) 0xffffffff 68,
                PbufFree Allocated, PbufFree Received], d2) \<and>
          dhcp_leases d2 ! yi = \<lparr>lease_mac = mac, lease_expiry = new_expiry (ticks2 0)\<rparr>))"
proof -
  from discover_offers [OF assms(1-5,7-9), of ticks1] obtain yi ls where
    1: "yi < DHCPS_MAX_IP" "lease_mac (ls ! yi) = mac \<or> lease_free (ls ! yi)" "dhcp_ok (d\<lparr>dhcp_leases := ls\<rparr>)"
      "dhcp_server_process L ans ticks1 d junk1 p1 =
       Inr ([PbufAlloc 274, UdpSendto u (reply_bytes d (dhcp_msg_of L junk1 p1) yi DHCPOFFER) 0xffffffff 68,
             PbufFree Allocated, PbufFree Received], d\<lparr>dhcp_leases := ls\<rparr>)" by blast
  have u: "dhcp_udp (d\<lparr>dhcp_leases := ls\<rparr>) = Some u" using assms(3) by simp
  have 2: "lease_mac (dhcp_leases (d\<lparr>dhcp_leases := ls\<rparr>) ! yi) = mac \<or> lease_free (dhcp_leases (d\<lparr>dhcp_leases := ls\<rparr>) ! yi)"
    using 1(2) by simp
  have same: "reply_bytes (d\<lparr>dhcp_leases := ls\<rparr>) m yi t = reply_bytes d m yi t" for m t
    by (rule reply_bytes_cong) simp_all
  note ack = request_acks [OF assms(1) 1(3) u assms(4,6) 1(1) 2, where ticks = ticks2, unfolded same]
  have "yi < 8" using 1(1) by (simp add: DHCPS_MAX_IP_def)
  with 1(4) ack show ?thesis by auto
qed

theorem dhcp_client_gets_address_witness:
  "\<exists>yi < 8. \<exists>calls1 d1 calls2 d2.
     dhcp_server_process list_lwip good_answers (\<lambda>_. 5) dhcp_start (replicate 548 0)
       (sample_message [2, 0, 0, 0, 0, 1] [(53, [1])]) = Inr (calls1, d1) \<and>
     dhcp_server_process list_lwip good_answers (\<lambda>_. 7) d1 (replicate 548 0)
       (sample_message [2, 0, 0, 0, 0, 1] [(53, [3]), (50, [192, 168, 4, of_nat (16 + yi)])]) = Inr (calls2, d2) \<and>
     dhcp_leases d2 ! yi = \<lparr>lease_mac = [2, 0, 0, 0, 0, 1], lease_expiry = new_expiry 7\<rparr>"
proof -
  let ?mac = "[2, 0, 0, 0, 0, 1] :: u8 list"
  let ?opts2 = "\<lambda>yi :: nat. [(53, [3]), (50, [192, 168, 4, of_nat (16 + yi)])] :: (u8 \<times> u8 list) list"
  have len: "length (replicate 548 (0 :: u8)) = MSG_SIZE" "length ?mac = MAC_LEN" by (simp_all add: dhcp_layout)
  have al: "pbuf_alloc_answer good_answers" by (simp add: good_answers_def)
  have free: "\<exists>l\<in>set (dhcp_leases dhcp_start). lease_mac l = ?mac \<or> lease_free l"
    by (simp add: dhcp_start_def dhcp_server_init_def socket_new_dgram_def lease_free_def DHCPS_MAX_IP_def)
  note c1 = sample_message [OF sample_options(1) len(2) sample_options(3)]
  have m1: "map_of [(53 :: u8, [1 :: u8])] DHCP_OPT_MSG_TYPE = Some [DHCPDISCOVER]"
    by (simp add: dhcp_options dhcp_types)
  have o2: "opts_ok (?opts2 yi)" "length (encode_opts (?opts2 yi)) \<le> 300" for yi
    by (simp_all add: opts_ok_def encode_opts_def dhcp_options)
  note c2 = sample_message [OF o2(1) len(2) o2(2)]
  have net: "take 3 (le_bytes 4 (0x0104A8C0 :: u32)) = [192, 168, 4]" by code_simp
  have m2: "map_of (?opts2 yi) DHCP_OPT_MSG_TYPE = Some [DHCPREQUEST]"
    "map_of (?opts2 yi) DHCP_OPT_REQUESTED_IP =
      Some (take 3 (le_bytes 4 (dhcp_ip dhcp_start)) @ [of_nat (16 + yi)])" for yi
    by (simp_all add: dhcp_options dhcp_types dhcp_start_facts(3) net)
  from dhcp_client_gets_address [OF list_lwip_ok dhcp_start_facts(1,2) al len(1) len(1) free c1 m1,
      of "\<lambda>_. 5" "\<lambda>_. 7"]
  show ?thesis using c2 m2 by blast
qed

text \<open>A sequence of packets, each with the clock and the stack it finds.\<close>

primrec dhcp_serve ::
    "'p lwip \<Rightarrow> net_answers \<Rightarrow> dhcp_server \<Rightarrow> ((nat \<Rightarrow> u32) \<times> u8 list \<times> 'p) list \<Rightarrow>
       (udp_call list \<times> dhcp_server) result" where
  "dhcp_serve L ans d [] = Inr ([], d)"
| "dhcp_serve L ans d (e # es) =
     (case e of (ticks, junk, p) \<Rightarrow>
        rbind (dhcp_server_process L ans ticks d junk p) (\<lambda>(calls, d).
        rbind (dhcp_serve L ans d es) (\<lambda>(calls', d). Inr (calls @ calls', d))))"

lemma other_address:
  assumes "yi < 8" "yi' < 8" "yi' \<noteq> yi"
  shows "(of_nat (DHCPS_BASE_IP + yi') :: u8) \<noteq> of_nat (16 + yi)"
proof
  assume "(of_nat (DHCPS_BASE_IP + yi') :: u8) = of_nat (16 + yi)"
  then have "unat (of_nat (16 + yi') :: u8) = unat (of_nat (16 + yi) :: u8)"
    by (simp only: DHCPS_BASE_IP_def)
  with assms show False by (simp add: unat_of_nat del: of_nat_add)
qed

lemma dhcp_process_keeps_lease:
  assumes "lwip_ok L" "dhcp_ok d" "dhcp_udp d = Some u" "yi < 8" "length junk = MSG_SIZE"
    and "dhcp_leases d ! yi = \<lparr>lease_mac = mac, lease_expiry = new_expiry t\<rparr>" "mac \<noteq> replicate MAC_LEN 0"
    and "msg_mac (dhcp_msg_of L junk p) \<noteq> mac" "unat (ticks yi - t) \<le> 86400000"
    and "dhcp_server_process L ans ticks d junk p = Inr (calls, d')"
  shows "dhcp_leases d' ! yi = dhcp_leases d ! yi \<and> dhcp_ok d' \<and> dhcp_udp d' = Some u \<and>
    (\<forall>(u, bs, dest, port)\<in>set (datagrams calls). bs ! 19 \<noteq> of_nat (16 + yi))"
proof -
  let ?msg = "dhcp_msg_of L junk p"
  note v = dhcp_process_decide(1) [OF assms(1,5,2,3), of ans ticks p] dhcp_process_decide(2) [OF assms(1,5,2,3), of p]
  show ?thesis
  proof (cases "tot_len L p < DHCP_MIN_SIZE")
    case True
    with v(1) assms(2,3,10) show ?thesis by auto
  next
    case False
    with v(1) assms(10) obtain r where
      r: "decide ticks d ?msg = Inr (d', r)" "calls = carry_out ans ?msg d' r @ [PbufFree Received]"
      by (cases "decide ticks d ?msg") auto
    have yi: "yi < DHCPS_MAX_IP" using assms(4) by (simp add: DHCPS_MAX_IP_def)
    let ?l = "dhcp_leases d ! yi"
    have "\<not> lease_free ?l" "lease_mac ?l \<noteq> msg_mac ?msg" "lease_expiry ?l = new_expiry t"
      using assms(6-8) by (auto simp: lease_free_def)
    with decide_keeps_lease [OF r(1) assms(2) yi refl] lease_not_expired [OF _ assms(9), of ?l]
    have k: "dhcp_leases d' ! yi = ?l" "\<forall>t. r \<noteq> Some (yi, t)" by blast+
    note o = decide_ok [OF r(1) assms(2) v(2)]
    have "\<forall>(u, bs, dest, port)\<in>set (datagrams calls). bs ! 19 \<noteq> of_nat (16 + yi)"
    proof (cases r)
      case (Some y)
      then obtain yi' t' where y: "r = Some (yi', t')" by (cases y) auto
      with o(2) k(2) have "yi' < 8" "yi' \<noteq> yi" by (auto simp: DHCPS_MAX_IP_def)
      with other_address [OF assms(4)] reply_yiaddr [OF v(2), of d' yi' t'] show ?thesis
        by (simp add: r(2) carry_out_datagrams(1) y)
    qed (simp add: r(2) carry_out_datagrams(1))
    with k(1) o(1) decide_keeps [OF r(1)] assms(3) show ?thesis by simp
  qed
qed

text \<open>C31. A lease lasts a day: once a request of the client \<open>mac\<close> has been committed at time \<open>t\<close>, no
  sequence of packets of other clients within the next 24 hours, each read from the clock as
  often as the search reads it, makes the server change that lease or send its address to
  anybody. This is about sequences that the server gets through; one with an option that leads its
  reads behind the message ends in a fault.\<close>

theorem dhcp_lease_is_kept:
  assumes "lwip_ok L" "dhcp_ok d" "dhcp_udp d = Some u" "yi < 8" "mac \<noteq> replicate MAC_LEN 0"
    and "dhcp_leases d ! yi = \<lparr>lease_mac = mac, lease_expiry = new_expiry t\<rparr>"
    and "\<forall>(ticks, junk, p)\<in>set es. length junk = MSG_SIZE \<and> msg_mac (dhcp_msg_of L junk p) \<noteq> mac \<and>
      (\<forall>i. unat (ticks i - t) \<le> 24 * 60 * 60 * 1000)"
    and "dhcp_serve L ans d es = Inr (calls, d')"
  shows "dhcp_leases d' ! yi = \<lparr>lease_mac = mac, lease_expiry = new_expiry t\<rparr> \<and>
    (\<forall>(u, bs, dest, port)\<in>set (datagrams calls). bs ! 19 \<noteq> of_nat (16 + yi))"
  using assms(2,3,6-8)
proof (induction es arbitrary: d calls)
  case (Cons e es)
  obtain ticks junk p where e: "e = (ticks, junk, p)" by (cases e)
  obtain c1 d1 c2 where r: "dhcp_server_process L ans ticks d junk p = Inr (c1, d1)"
    "dhcp_serve L ans d1 es = Inr (c2, d')" "calls = c1 @ c2"
    using Cons.prems(5) by (auto simp: e rbind_eq_Inr)
  have "length junk = MSG_SIZE" "msg_mac (dhcp_msg_of L junk p) \<noteq> mac" "unat (ticks yi - t) \<le> 86400000"
    using Cons.prems(4) by (auto simp: e)
  from dhcp_process_keeps_lease [OF assms(1) Cons.prems(1,2) assms(4) this(1) Cons.prems(3) assms(5) this(2,3) r(1)]
  have k: "dhcp_leases d1 ! yi = dhcp_leases d ! yi" "dhcp_ok d1" "dhcp_udp d1 = Some u"
    "\<forall>(u, bs, dest, port)\<in>set (datagrams c1). bs ! 19 \<noteq> of_nat (16 + yi)" by blast+
  have l1: "dhcp_leases d1 ! yi = \<lparr>lease_mac = mac, lease_expiry = new_expiry t\<rparr>"
    using k(1) Cons.prems(3) by simp
  have es: "\<forall>(ticks, junk, p)\<in>set es. length junk = MSG_SIZE \<and> msg_mac (dhcp_msg_of L junk p) \<noteq> mac \<and>
      (\<forall>i. unat (ticks i - t) \<le> 24 * 60 * 60 * 1000)" using Cons.prems(4) by simp
  from Cons.IH [OF k(2,3) l1 es r(2)] k(4) show ?case by (auto simp: r(3))
qed simp

theorem dhcp_lease_is_kept_witness:
  "\<exists>d calls d'. dhcp_leases d ! 0 = \<lparr>lease_mac = [2, 0, 0, 0, 0, 1], lease_expiry = new_expiry 5\<rparr> \<and>
     dhcp_serve list_lwip good_answers d
       [(\<lambda>_. 86400005, replicate 548 0, sample_message [2, 0, 0, 0, 0, 9] [(53, [1])])] = Inr (calls, d') \<and>
     dhcp_leases d' ! 0 = \<lparr>lease_mac = [2, 0, 0, 0, 0, 1], lease_expiry = new_expiry 5\<rparr>"
proof -
  let ?l = "\<lparr>lease_mac = [2, 0, 0, 0, 0, 1], lease_expiry = new_expiry 5\<rparr>"
  let ?d = "dhcp_start\<lparr>dhcp_leases := (dhcp_leases dhcp_start)[0 := ?l]\<rparr>"
  let ?p = "sample_message [2, 0, 0, 0, 0, 9] [(53, [1])]"
  have len: "length (replicate 548 (0 :: u8)) = MSG_SIZE" "length [2, 0, 0, 0, 0, 9 :: u8] = MAC_LEN"
    by (simp_all add: dhcp_layout)
  have ok: "dhcp_ok ?d" "dhcp_udp ?d = Some 5"
    using dhcp_start_facts
    by (auto simp: dhcp_ok_def list_all_iff MAC_LEN_def dest!: set_update_subset_insert [THEN subsetD])
  have "0 < length (dhcp_leases dhcp_start)" using dhcp_start_facts(1) by (simp add: dhcp_ok_def DHCPS_MAX_IP_def)
  then have l: "dhcp_leases ?d ! 0 = ?l" by simp
  note s = sample_discover [OF ok len]
  from s(1) obtain calls d' where
    r: "dhcp_server_process list_lwip good_answers (\<lambda>_. 86400005) ?d (replicate 548 0) ?p = Inr (calls, d')" by blast
  then have serve: "dhcp_serve list_lwip good_answers ?d [(\<lambda>_. 86400005, replicate 548 0, ?p)] = Inr (calls, d')"
    by simp
  have "[2, 0, 0, 0, 0, 1] \<noteq> replicate MAC_LEN (0 :: u8)" by (simp add: MAC_LEN_def numeral_eq_Suc)
  from dhcp_lease_is_kept [OF list_lwip_ok ok _ this l _ serve] s(2) len(1) l serve
  show ?thesis by (intro exI conjI) auto
qed

text \<open>A length byte at the end makes the server read behind the message: when the options of a
  548-byte packet lead the search to the last of the 308 bytes it looks at, the length of that
  option is read from behind the buffer.\<close>

theorem dhcp_option_overread:
  assumes "lwip_ok L" "length junk = MSG_SIZE" "dhcp_ok d" "dhcp_udp d = Some u"
    and "pbuf_copy_partial L p MSG_SIZE = pre @ [c1, 255] @ xs @ [c2, 48] @ ys @ [c3]"
    and "length pre = 240" "length xs = 255" "length ys = 48"
    and "{c1, c2, c3} \<inter> {DHCP_OPT_MSG_TYPE, DHCP_OPT_END} = {}"
  shows "dhcp_server_process L ans ticks d junk p = Inl OutOfBounds"
proof -
  let ?msg = "dhcp_msg_of L junk p"
  note v = dhcp_process_decide(1) [OF assms(1-4), of ans ticks p] dhcp_process_decide(2) [OF assms(1-4), of p]
  have l: "length (pbuf_copy_partial L p MSG_SIZE) = 548" unfolding assms(5) using assms(6-8) by simp
  then have big: "\<not> tot_len L p < DHCP_MIN_SIZE" using assms(1) by (auto simp: lwip_ok_def DHCP_MIN_SIZE_def)
  have m: "?msg = pre @ [c1, 255] @ xs @ [c2, 48] @ ys @ [c3]"
    using l assms(2) unfolding dhcp_msg_of_def Let_def
    by (simp add: assms(5) [unfolded MSG_SIZE_def] MSG_SIZE_def)
  have len: "length ?msg = 548" using v(2) by (simp add: MSG_SIZE_def)
  have c: "c \<noteq> DHCP_OPT_MSG_TYPE" "c \<noteq> DHCP_OPT_END" if "c \<in> {c1, c2, c3}" for c
    using assms(9) that by auto
  have n: "?msg ! 240 = c1" "?msg ! 241 = 255" "?msg ! 497 = c2" "?msg ! 498 = 48" "?msg ! 547 = c3"
    unfolding m using assms(6-8) by (simp_all add: nth_append nth_Cons')
  have "opt_find ?msg 240 DHCP_OPT_MSG_TYPE 0 = opt_find ?msg 240 DHCP_OPT_MSG_TYPE 257"
    using opt_find_step(3) [of 0 240 ?msg DHCP_OPT_MSG_TYPE] c [of c1] n(1,2) len by simp
  also have "\<dots> = opt_find ?msg 240 DHCP_OPT_MSG_TYPE 307"
    using opt_find_step(3) [of 257 240 ?msg DHCP_OPT_MSG_TYPE] c [of c2] n(3,4) len by simp
  also have "\<dots> = Inl OutOfBounds"
    using c [of c3] n(5) len by (subst opt_find.simps) (simp add: arr_get_def)
  finally show ?thesis using v(1) big by (simp add: decide_def)
qed

theorem dhcp_option_overread_witness:
  "dhcp_server_process list_lwip good_answers (\<lambda>_. 5) dhcp_start (replicate 548 0)
     (replicate 240 0 @ [12, 255] @ replicate 255 0 @ [12, 48] @ replicate 48 0 @ [12]) = Inl OutOfBounds"
proof (rule dhcp_option_overread [OF list_lwip_ok _ dhcp_start_facts(1,2)])
  show "pbuf_copy_partial list_lwip
      (replicate 240 0 @ [12, 255] @ replicate 255 0 @ [12, 48] @ replicate 48 0 @ [12]) MSG_SIZE =
    replicate 240 0 @ [12, 255] @ replicate 255 0 @ [12, 48] @ replicate 48 0 @ [12]"
    by (simp add: list_lwip_def MSG_SIZE_def)
qed (simp_all add: MSG_SIZE_def dhcp_options)

end
