(* ===== verification/Http_Request.thy ===== *)
theory Http_Request
  imports Http_Client Circular_Buffer
begin

text \<open>
  The receiving half of \<open>src/pagers-server/http/httpserverclient.cpp\<close>: \<open>recv_data\<close> puts the
  bytes of a packet into the ring buffer, \<open>recv_line\<close> parses one line of the request in place,
  \<open>handle_body\<close> the form data behind it. The code works on C strings that begin at the ring's
  read pointer; here such a string is the list of the cells from there to the end of the
  allocation (\<open>cb_from\<close>), and a search that runs through all of them without meeting a NUL is
  \<open>OutOfBounds\<close>. \<open>name\<close> and \<open>val\<close> are static arrays of 128 bytes, \<open>req_path\<close> has 1024;
  a copy that does not fit is \<open>OutOfBounds\<close>, a null pointer returned by \<open>strchr\<close> and used is
  \<open>NullPointer\<close>.

  The final loop of \<open>recv_line\<close> ends at a line feed only; \<open>fuel\<close> bounds it, and the lemmas show
  that the length of the line is enough.
\<close>

section \<open>Memory\<close>

abbreviation LF :: char where "LF \<equiv> CHR 0x0A"
abbreviation CR :: char where "CR \<equiv> CHR 0x0D"

definition cb_from :: "'b circular_buffer \<Rightarrow> 'b list result" where
  "cb_from b =
     (if 0 \<le> size_hidden b + read_at b
      then Inr (drop (nat (size_hidden b + read_at b)) (buffer_hidden b)) else Inl OutOfBounds)"

text \<open>\<open>strchr\<close>: the distance, or \<open>None\<close> for the null pointer.\<close>

fun strchr :: "string \<Rightarrow> char \<Rightarrow> nat option result" where
  "strchr [] c = Inl OutOfBounds"
| "strchr (x # xs) c =
     (if x = c then Inr (Some 0) else if x = NUL then Inr None
      else rbind (strchr xs c) (\<lambda>r. Inr (map_option Suc r)))"

text \<open>\<open>strncmp(s, lit, strlen(lit)) == 0\<close>.\<close>

fun str_starts :: "string \<Rightarrow> string \<Rightarrow> bool result" where
  "str_starts m [] = Inr True"
| "str_starts [] (l # ls) = Inl OutOfBounds"
| "str_starts (x # xs) (l # ls) = (if x = l then str_starts xs ls else Inr False)"

text \<open>\<open>strchrto\<close>: how many characters before the one looked for, or before the end.\<close>

fun strchrto :: "string \<Rightarrow> char \<Rightarrow> nat" where
  "strchrto [] c = 0"
| "strchrto (x # xs) c = (if x = c then 0 else Suc (strchrto xs c))"

definition TOKEN_SIZE :: nat where "TOKEN_SIZE = 128"
definition REQ_PATH_SIZE :: nat where "REQ_PATH_SIZE = 1024"

text \<open>\<open>stpncpy\<close> of \<open>n\<close> characters into \<open>name\<close> or \<open>val\<close>, and the NUL behind them.\<close>

definition copy_token :: "string \<Rightarrow> nat \<Rightarrow> string result" where
  "copy_token s n = (if n < TOKEN_SIZE then Inr (take n s) else Inl OutOfBounds)"

section \<open>Parsing\<close>

record http_conn =
  conn_client :: http_client
  conn_buf :: "char circular_buffer"

text \<open>The loop of \<open>parse_url_arguments\<close>, from the C string \<open>start\<close> on.\<close>

function url_arguments ::
    "string \<Rightarrow> (string, string) std_map \<Rightarrow> (string, string) std_map result" where
  "url_arguments start params =
     (let amp = strchrto start CHR ''&''; eq = strchrto (take amp start) CHR ''='' in
      rbind (copy_token start eq) (\<lambda>name.
      rbind (if eq \<noteq> amp then copy_token (drop (eq + 1) start) (amp - (eq + 1)) else Inr []) (\<lambda>val.
      let params = sm_put name val params in
      if drop amp start = [] then Inr params else url_arguments (drop (amp + 1) start) params)))"
  by pat_completeness auto
termination by (relation "measure (\<lambda>(start, params). length start)") auto

declare url_arguments.simps [simp del]

definition parse_url_arguments ::
    "string \<Rightarrow> (string, string) std_map \<Rightarrow> (nat \<times> (string, string) std_map) result" where
  "parse_url_arguments s params =
     (if s = [] then Inr (0, params) else rbind (url_arguments s params) (\<lambda>ps. Inr (length s, ps)))"

definition parse_header ::
    "string \<Rightarrow> (string, string) std_map \<Rightarrow> (nat \<times> (string, string) std_map) result" where
  "parse_header m headers =
     (case m of
        [] \<Rightarrow> Inl OutOfBounds
      | x # _ \<Rightarrow>
          if x = CR then Inr (0, headers)
          else
            rbind (strchr m CHR '':'') (\<lambda>r.
              case r of
                None \<Rightarrow> Inl NullPointer
              | Some sep \<Rightarrow>
                  rbind (copy_token m sep) (\<lambda>name.
                  rbind (arr_get m (sep + 1)) (\<lambda>c.
                  let sep = (if c = CHR '' '' then sep + 2 else sep + 1) in
                  rbind (strchr (drop sep m) CR) (\<lambda>r.
                    case r of
                      None \<Rightarrow> Inl NullPointer
                    | Some n \<Rightarrow>
                        rbind (copy_token (drop sep m) n) (\<lambda>val.
                          Inr (sep + n, sm_put name val headers)))))))"

text \<open>The loop over the request path: the text up to \<open>endptr\<close>, the path so far, the parameters,
  the ring and the length of the line so far.\<close>

function scan_path ::
    "string \<Rightarrow> string \<Rightarrow> (string, string) std_map \<Rightarrow> char circular_buffer \<Rightarrow> int \<Rightarrow>
       (string \<times> (string, string) std_map \<times> char circular_buffer \<times> int) result" where
  "scan_path [] path params b line_length =
     (if length path < REQ_PATH_SIZE then Inr (path, params, b, line_length) else Inl OutOfBounds)"
| "scan_path (c # cs) path params b line_length =
     (if c = CHR ''?'' then
        rbind (parse_url_arguments cs params) (\<lambda>(n, params).
          scan_path (drop n cs) path params (fst (cb_read_ack (int n) b)) (line_length + int n))
      else if length path < REQ_PATH_SIZE then scan_path cs (path @ [c]) params b line_length
      else Inl OutOfBounds)"
  by pat_completeness auto
termination by (relation "measure (\<lambda>(cs, path, params, b, n). length cs)") auto

text \<open>The request line up to the end of the path.\<close>

definition recv_method :: "char circular_buffer \<Rightarrow> (Method \<times> char circular_buffer \<times> int) result" where
  "recv_method b =
     rbind (cb_from b) (\<lambda>m.
     rbind (str_starts m ''GET'') (\<lambda>get.
       if get then Inr (GET, fst (cb_read_ack (3 + 1) b), 4)
       else rbind (str_starts m ''POST'') (\<lambda>post.
         if post then Inr (POST, fst (cb_read_ack (4 + 1) b), 5) else Inr (INVALID, b, 0))))"

definition recv_request_line :: "http_client \<Rightarrow> char circular_buffer \<Rightarrow> (int \<times> http_conn) result" where
  "recv_request_line c b =
     rbind (recv_method b) (\<lambda>(method, b, line_length).
       let c = c\<lparr>first_line := False, http_method := Some method\<rparr> in
       if method = INVALID then Inr (line_length, \<lparr>conn_client = c, conn_buf = b\<rparr>)
       else
         rbind (cb_from b) (\<lambda>m.
         rbind (strchr m CHR '' '') (\<lambda>r.
           case r of
             None \<Rightarrow> Inl NullPointer
           | Some endptr \<Rightarrow>
               rbind (cb_store b (read_at b + int endptr) [NUL] 1) (\<lambda>b.
               rbind (scan_path (take endptr m) [] (request_params c) b line_length)
                 (\<lambda>(path, params, b, line_length).
                   Inr (line_length + int (length path),
                     \<lparr>conn_client = c\<lparr>req_path := path, request_params := params\<rparr>,
                      conn_buf = fst (cb_read_ack (int (length path)) b)\<rparr>))))))"

definition recv_header_line :: "http_client \<Rightarrow> char circular_buffer \<Rightarrow> (int \<times> http_conn) result" where
  "recv_header_line c b =
     rbind (cb_from b) (\<lambda>m.
     rbind (parse_header m (request_headers c)) (\<lambda>(n, headers).
       Inr (int n, \<lparr>conn_client = c\<lparr>request_headers := headers\<rparr>, conn_buf = fst (cb_read_ack (int n) b)\<rparr>)))"

text \<open>The loop to the line feed, and the line feed.\<close>

fun skip_line :: "nat \<Rightarrow> char circular_buffer \<Rightarrow> int \<Rightarrow> (int \<times> char circular_buffer) result option" where
  "skip_line 0 b line_length = None"
| "skip_line (Suc fuel) b line_length =
     obind (Some (cb_load b (read_at b) 1)) (\<lambda>x.
       let b' = fst (cb_read_ack 1 b) in
       if hd x = LF then Some (Inr (line_length + 1, b')) else skip_line fuel b' (line_length + 1))"

definition recv_line :: "nat \<Rightarrow> http_conn \<Rightarrow> (int \<times> http_conn) result option" where
  "recv_line fuel h =
     (let c = conn_client h; b = conn_buf h in
      obind (Some (if data_left_continuous b < 2 then wrap_buffer b else Inr b)) (\<lambda>b.
      obind (Some (if first_line c then recv_request_line c b else recv_header_line c b)) (\<lambda>(n, h).
      obind (skip_line fuel (conn_buf h) n) (\<lambda>(n, b).
        Some (Inr (n, h\<lparr>conn_buf := b\<rparr>))))))"

definition recv_data :: "string \<Rightarrow> http_conn \<Rightarrow> http_conn result" where
  "recv_data payload h =
     rbind (cb_write payload (int (length payload)) (conn_buf h)) (\<lambda>b. Inr (h\<lparr>conn_buf := b\<rparr>))"

definition handle_body :: "http_conn \<Rightarrow> http_conn result" where
  "handle_body h =
     (let c = conn_client h; b = conn_buf h in
      if \<not> has_req_header c ''Content-Length'' then Inr h
      else
        rbind (get_req_header_int c ''Content-Length'') (\<lambda>len.
        if \<not> has_req_header c ''Content-Type'' then Inr h
        else
          rbind (get_req_header c ''Content-Type'') (\<lambda>type.
          if type = ''application/x-www-form-urlencoded'' then
            rbind (cb_store b (read_at b + len) [NUL] 1) (\<lambda>b.
            rbind (cb_from b) (\<lambda>m.
            rbind (strchr m NUL) (\<lambda>r.
            rbind (parse_url_arguments (take (case r of None \<Rightarrow> 0 | Some n \<Rightarrow> n) m) (request_params c)) (\<lambda>(n, params).
              Inr \<lparr>conn_client = c\<lparr>request_params := params\<rparr>, conn_buf = fst (cb_read_ack (int n) b)\<rparr>))))
          else Inr h)))"

section \<open>A ring that has not wrapped\<close>

text \<open>\<open>flat b n r s\<close>: the ring of size \<open>n\<close> holds the unread text \<open>s\<close> in one piece from offset
  \<open>r\<close> on.\<close>

definition flat :: "char circular_buffer \<Rightarrow> nat \<Rightarrow> nat \<Rightarrow> string \<Rightarrow> bool" where
  "flat b n r s \<longleftrightarrow> buf_size b = int n \<and> 0 \<le> size_hidden b \<and>
     read_at b = int r \<and> write_at b = int (r + length s) \<and> r + length s < n \<and>
     (\<exists>pre junk. buffer_hidden b = pre @ s @ junk \<and> int (length pre) = size_hidden b + int r \<and>
        int (length (buffer_hidden b)) = size_hidden b + int n)"

lemma flat_from:
  assumes "flat b n r s"
  shows "\<exists>junk. cb_from b = Inr (s @ junk)"
proof -
  from assms obtain pre junk where "buffer_hidden b = pre @ s @ junk" "int (length pre) = size_hidden b + int r"
    by (auto simp: flat_def)
  moreover from this assms have "nat (size_hidden b + read_at b) = length pre" by (simp add: flat_def)
  ultimately show ?thesis using assms by (simp add: cb_from_def flat_def)
qed

lemma flat_ack:
  assumes "flat b n r s" "k \<le> length s"
  shows "flat (fst (cb_read_ack (int k) b)) n (r + k) (drop k s)"
proof -
  from assms(1) obtain pre junk where
    m: "buffer_hidden b = pre @ s @ junk" "int (length pre) = size_hidden b + int r"
      "int (length (buffer_hidden b)) = size_hidden b + int n" by (auto simp: flat_def)
  have "(int r + int k) smod int n = int (r + k)"
    using assms by (subst smod_once) (auto simp: flat_def)
  moreover have "buffer_hidden b = (pre @ take k s) @ drop k s @ junk" by (simp add: m(1))
  moreover have "int (length (pre @ take k s)) = size_hidden b + int (r + k)" using m(2) assms(2) by simp
  ultimately show ?thesis
    using assms m(3) unfolding flat_def cb_read_ack_def by (auto simp del: append_assoc)
qed

lemma flat_load:
  assumes "flat b n r s" "s \<noteq> []"
  shows "cb_load b (read_at b) 1 = Inr [hd s]"
proof -
  from assms(1) obtain pre junk where
    m: "buffer_hidden b = pre @ s @ junk" "int (length pre) = size_hidden b + int r"
      "int (length (buffer_hidden b)) = size_hidden b + int n" by (auto simp: flat_def)
  have "nat (size_hidden b + int r) = length pre" using m(2) by simp
  moreover have "take (Suc 0) (s @ junk) = [hd s]" using assms(2) by (cases s) auto
  moreover have "int r + 1 \<le> int n" using assms by (simp add: flat_def)
  ultimately show ?thesis using assms m by (simp add: cb_load_def flat_def)
qed

lemma flat_poke:
  assumes "flat b n r s" "k < length s"
  shows "\<exists>b'. cb_store b (read_at b + int k) [c] 1 = Inr b' \<and> flat b' n r (s[k := c])"
proof -
  from assms(1) obtain pre junk where
    m: "buffer_hidden b = pre @ s @ junk" "int (length pre) = size_hidden b + int r"
      "int (length (buffer_hidden b)) = size_hidden b + int n" by (auto simp: flat_def)
  let ?o = "nat (size_hidden b + (read_at b + int k))"
  have o: "?o = length pre + k" using m(2) assms by (simp add: flat_def)
  have upd: "s[k := c] = take k s @ c # drop (Suc k) s" using assms(2) by (simp add: upd_conv_take_nth_drop)
  have "blit (pre @ s @ junk) (length pre + k) [c] 1 = Inr (pre @ s[k := c] @ junk)"
    using assms(2) by (simp add: blit_def upd)
  then have "cb_store b (read_at b + int k) [c] 1 = Inr (b\<lparr>buffer_hidden := pre @ s[k := c] @ junk\<rparr>)"
    using assms o by (simp add: cb_store_def m(1) flat_def)
  moreover have "flat (b\<lparr>buffer_hidden := pre @ s[k := c] @ junk\<rparr>) n r (s[k := c])"
    using assms m unfolding flat_def by auto
  ultimately show ?thesis by blast
qed

lemma flat_write_chunk:
  assumes "flat b n r s" "r + length s + length data < n"
  shows "\<exists>b'. cb_write_chunk (data, int (length data), b) = Inr ([], 0, b') \<and> flat b' n r (s @ data)"
proof -
  from assms(1) obtain pre junk where
    m: "buffer_hidden b = pre @ s @ junk" "int (length pre) = size_hidden b + int r"
      "int (length (buffer_hidden b)) = size_hidden b + int n" by (auto simp: flat_def)
  have room: "min (int (length data)) (space_left_continuous b) = int (length data)"
    using assms by (simp add: space_left_continuous_def space_left_def data_left_def flat_def)
  have o: "nat (size_hidden b + write_at b) = length pre + length s" using m(2) assms(1) by (simp add: flat_def)
  have j: "length data \<le> length junk" using m assms by simp
  have "blit (pre @ s @ junk) (length pre + length s) data (length data) =
      Inr (pre @ (s @ data) @ drop (length data) junk)"
    using j by (simp add: blit_def)
  then have st: "cb_store b (write_at b) data (int (length data)) =
      Inr (b\<lparr>buffer_hidden := pre @ (s @ data) @ drop (length data) junk\<rparr>)"
    using assms(1) o by (simp add: cb_store_def m(1) flat_def)
  have w: "(int (r + length s) + int (length data)) smod int n = int (r + length (s @ data))"
    using assms by (subst smod_once) (auto simp: flat_def)
  let ?b = "cb_write_ack (int (length data)) (b\<lparr>buffer_hidden := pre @ (s @ data) @ drop (length data) junk\<rparr>)"
  have "flat ?b n r (s @ data)"
    using assms m j w unfolding flat_def cb_write_ack_def by auto
  moreover have "cb_write_chunk (data, int (length data), b) = Inr ([], 0, ?b)"
    by (simp add: cb_write_chunk_def Let_def room st)
  ultimately show ?thesis by blast
qed

lemma flat_write:
  assumes "flat b n r s" "r + length s + length data < n"
  shows "\<exists>b'. cb_write data (int (length data)) b = Inr b' \<and> flat b' n r (s @ data)"
proof -
  from flat_write_chunk [OF assms] obtain b1 where
    1: "cb_write_chunk (data, int (length data), b) = Inr ([], 0, b1)" "flat b1 n r (s @ data)" by blast
  from flat_write_chunk [OF 1(2), of "[]"] assms obtain b2 where
    2: "cb_write_chunk ([], 0, b1) = Inr ([], 0, b2)" "flat b2 n r (s @ data)" by auto
  with 1 show ?thesis by (simp add: cb_write_def for_loop_def numeral_2_eq_2)
qed

lemma flat_new:
  assumes "0 < n" "length mem = n + h"
  shows "flat (cb_new mem (int n) (int h)) n 0 []"
  using assms unfolding flat_def cb_new_def cb_reset_def
  by (simp, intro exI [of _ "take h mem"]) (auto intro: exI [of _ "drop h mem"])

section \<open>Tokens\<close>

lemma strchr_found: "c \<notin> set xs \<Longrightarrow> NUL \<notin> set xs \<Longrightarrow> strchr (xs @ c # ys) c = Inr (Some (length xs))"
  by (induction xs) auto

lemma strchr_absent: "c \<notin> set xs \<Longrightarrow> NUL \<notin> set xs \<Longrightarrow> c \<noteq> NUL \<Longrightarrow> strchr (xs @ NUL # ys) c = Inr None"
  by (induction xs) auto

lemma strchrto_found: "c \<notin> set xs \<Longrightarrow> strchrto (xs @ c # ys) c = length xs"
  by (induction xs) auto

lemma strchrto_absent: "c \<notin> set xs \<Longrightarrow> strchrto xs c = length xs"
  by (induction xs) auto

lemma copy_token_prefix: "length xs < TOKEN_SIZE \<Longrightarrow> copy_token (xs @ ys) (length xs) = Inr xs"
  by (simp add: copy_token_def)

lemma skip_line_flat:
  assumes "flat b n r (xs @ LF # rest)" "LF \<notin> set xs" "length xs < fuel"
  shows "\<exists>b'. skip_line fuel b k = Some (Inr (k + int (length xs) + 1, b')) \<and>
     flat b' n (r + length xs + 1) rest"
  using assms
proof (induction xs arbitrary: b r k fuel)
  case Nil
  then obtain f where f: "fuel = Suc f" by (cases fuel) auto
  from flat_load [OF Nil(1)] flat_ack [OF Nil(1), of 1] show ?case by (simp add: f Let_def)
next
  case (Cons x xs)
  then obtain f where f: "fuel = Suc f" "length xs < f" by (cases fuel) auto
  have fl: "flat (fst (cb_read_ack 1 b)) n (r + 1) (xs @ LF # rest)"
    using flat_ack [OF Cons.prems(1), of 1] by simp
  have "LF \<notin> set xs" using Cons.prems(2) by simp
  from Cons.IH [OF fl this f(2), of "k + 1"] obtain b' where
    "skip_line f (fst (cb_read_ack 1 b)) (k + 1) = Some (Inr (k + 1 + int (length xs) + 1, b'))"
    "flat b' n (r + 1 + length xs + 1) rest" by blast
  with flat_load [OF Cons.prems(1)] Cons.prems(2) show ?case
    by (auto simp: f Let_def add.assoc add.left_commute)
qed

section \<open>Lines\<close>

lemma CRLF_chars: "CRLF = [CR, LF]"
  by code_simp

definition plain :: "char set \<Rightarrow> string \<Rightarrow> bool" where
  "plain bad s \<longleftrightarrow> set s \<inter> (bad \<union> {NUL, CR, LF}) = {}"

definition header_ok :: "string \<times> string \<Rightarrow> bool" where
  "header_ok = (\<lambda>(name, val). plain {CHR '':''} name \<and> plain {} val \<and>
     length name < TOKEN_SIZE \<and> length val < TOKEN_SIZE)"

lemma parse_header_text:
  assumes "header_ok (name, val)"
  shows "parse_header (plain_header (name, val) @ rest) hs =
     Inr (length name + 2 + length val, sm_put name val hs)"
proof -
  have n: "CHR '':'' \<notin> set name" "NUL \<notin> set name" "CR \<notin> set name" "CR \<notin> set val" "NUL \<notin> set val"
    "length name < TOKEN_SIZE" "length val < TOKEN_SIZE"
    using assms by (auto simp: header_ok_def plain_def)
  let ?tail = "CHR '' '' # val @ CR # LF # rest"
  have m: "plain_header (name, val) @ rest = name @ CHR '':'' # ?tail"
    by (simp add: plain_header_def CRLF_chars)
  obtain x xs where x: "name @ CHR '':'' # ?tail = x # xs" "x \<noteq> CR"
    using n(3) by (cases name) auto
  have sep: "strchr (name @ CHR '':'' # ?tail) CHR '':'' = Inr (Some (length name))"
    using n by (intro strchr_found) auto
  have sp: "arr_get (name @ CHR '':'' # ?tail) (Suc (length name)) = Inr CHR '' ''"
    by (simp add: arr_get_def nth_append)
  have d: "drop (Suc (Suc (length name))) (name @ CHR '':'' # ?tail) = val @ CR # LF # rest" by simp
  have e: "strchr (val @ CR # LF # rest) CR = Inr (Some (length val))"
    using n by (intro strchr_found) auto
  have "parse_header (name @ CHR '':'' # ?tail) hs = Inr (length name + 2 + length val, sm_put name val hs)"
    unfolding parse_header_def x(1) list.case using x(2)
    unfolding x(1) [symmetric] by (simp add: sep sp copy_token_prefix n d e Let_def del: drop_append)
  then show ?thesis by (simp only: m)
qed

lemma flat_at_least_two:
  assumes "flat b n r s" "2 \<le> length s"
  shows "\<not> data_left_continuous b < 2"
  using assms by (simp add: data_left_continuous_def data_left_def flat_def)

text \<open>The empty line, and a header line.\<close>

lemma recv_line_empty:
  assumes "flat (conn_buf h) n r (CRLF @ rest)" "\<not> first_line (conn_client h)" "1 < fuel"
  shows "\<exists>b'. recv_line fuel h = Some (Inr (2, \<lparr>conn_client = conn_client h, conn_buf = b'\<rparr>)) \<and> flat b' n (r + 2) rest"
proof -
  from flat_from [OF assms(1)] obtain junk where m: "cb_from (conn_buf h) = Inr (CR # LF # rest @ junk)"
    by (auto simp: CRLF_chars)
  have "flat (fst (cb_read_ack 0 (conn_buf h))) n r ([CR] @ LF # rest)"
    using flat_ack [OF assms(1), of 0] by (simp add: CRLF_chars)
  from skip_line_flat [OF this, of fuel 0] assms(3) obtain b' where
    "skip_line fuel (fst (cb_read_ack 0 (conn_buf h))) 0 = Some (Inr (2, b'))" "flat b' n (r + 2) rest" by auto
  moreover have "\<not> data_left_continuous (conn_buf h) < 2"
    by (rule flat_at_least_two [OF assms(1)]) (simp add: CRLF_chars)
  ultimately show ?thesis
    using assms(2) by (simp add: recv_line_def Let_def recv_header_line_def m parse_header_def)
qed

lemma recv_line_header:
  assumes "flat (conn_buf h) n r (plain_header e @ rest)" "\<not> first_line (conn_client h)" "header_ok e" "1 < fuel"
  shows "\<exists>b'. recv_line fuel h = Some (Inr (int (length (plain_header e)),
       \<lparr>conn_client = (conn_client h)\<lparr>request_headers := sm_put (fst e) (snd e) (request_headers (conn_client h))\<rparr>,
        conn_buf = b'\<rparr>)) \<and>
     flat b' n (r + length (plain_header e)) rest"
proof -
  obtain nm v where e: "e = (nm, v)" by (cases e)
  let ?k = "length nm + 2 + length v"
  from flat_from [OF assms(1)] obtain junk where
    m: "cb_from (conn_buf h) = Inr (plain_header (nm, v) @ rest @ junk)" by (auto simp: e)
  have "drop ?k (plain_header (nm, v) @ rest) = [CR] @ LF # rest"
    by (simp add: plain_header_def CRLF_chars)
  then have "flat (fst (cb_read_ack (int ?k) (conn_buf h))) n (r + ?k) ([CR] @ LF # rest)"
    using flat_ack [OF assms(1), of ?k] by (simp add: e plain_header_def CRLF_chars)
  from skip_line_flat [OF this, of fuel "int ?k"] assms(4) obtain b' where
    "skip_line fuel (fst (cb_read_ack (int ?k) (conn_buf h))) (int ?k) = Some (Inr (int ?k + 2, b'))"
    "flat b' n (r + ?k + 2) rest" by auto
  moreover have "\<not> data_left_continuous (conn_buf h) < 2"
    by (rule flat_at_least_two [OF assms(1)]) (simp add: e plain_header_def CRLF_chars)
  moreover have "length (plain_header (nm, v)) = ?k + 2" by (simp add: plain_header_def CRLF_chars)
  ultimately show ?thesis
    using assms(2) parse_header_text [OF assms(3) [unfolded e], of "rest @ junk"]
    by (simp add: recv_line_def Let_def recv_header_line_def m e add.assoc)
qed

section \<open>The request line\<close>

text \<open>A query string, from its arguments.\<close>

fun query_text :: "(string \<times> string) list \<Rightarrow> string" where
  "query_text [] = []"
| "query_text [(k, v)] = k @ ''='' @ v"
| "query_text ((k, v) # e # es) = k @ ''='' @ v @ ''&'' @ query_text (e # es)"

definition arg_ok :: "string \<times> string \<Rightarrow> bool" where
  "arg_ok = (\<lambda>(k, v). plain {CHR ''&'', CHR ''='', CHR '' ''} k \<and> plain {CHR ''&'', CHR '' ''} v \<and>
     length k < TOKEN_SIZE \<and> length v < TOKEN_SIZE)"

definition put_all :: "(string \<times> string) list \<Rightarrow> (string, string) std_map \<Rightarrow> (string, string) std_map" where
  "put_all es m = fold (\<lambda>(k, v). sm_put k v) es m"

lemma url_arguments_one:
  assumes "arg_ok (k, v)" "rest = [] \<or> (\<exists>r. rest = CHR ''&'' # r)"
  shows "url_arguments (k @ ''='' @ v @ rest) ps =
     (if rest = [] then Inr (sm_put k v ps) else url_arguments (tl rest) (sm_put k v ps))"
proof -
  have n: "CHR ''&'' \<notin> set k" "CHR ''='' \<notin> set k" "CHR ''&'' \<notin> set v" "length k < TOKEN_SIZE" "length v < TOKEN_SIZE"
    using assms(1) by (auto simp: arg_ok_def plain_def)
  let ?kv = "k @ CHR ''='' # v"
  have "CHR ''&'' \<notin> set ?kv" using n by auto
  then have amp: "strchrto (?kv @ rest) CHR ''&'' = length ?kv"
    using assms(2) strchrto_found [of "CHR ''&''" ?kv] strchrto_absent [of "CHR ''&''" ?kv] by auto
  have eq: "strchrto ?kv CHR ''='' = length k" using n by (intro strchrto_found)
  have t: "take (length ?kv) (?kv @ rest) = ?kv" "drop (length ?kv) (?kv @ rest) = rest"
    "drop (length ?kv + 1) (?kv @ rest) = tl rest" "drop (length k + 1) (?kv @ rest) = v @ rest"
    by (simp_all add: drop_Suc tl_append split: list.split)
  have c: "copy_token (?kv @ rest) (length k) = Inr k" "copy_token (v @ rest) (length ?kv - (length k + 1)) = Inr v"
    using n copy_token_prefix [of k] by (simp_all add: copy_token_prefix)
  have ne: "length k \<noteq> length ?kv" by simp
  have "url_arguments (?kv @ rest) ps =
      (if rest = [] then Inr (sm_put k v ps) else url_arguments (tl rest) (sm_put k v ps))"
    by (subst url_arguments.simps)
      (simp only: Let_def amp t eq c rbind_simps ne not_False_eq_True if_True)
  then show ?thesis by simp
qed

lemma url_arguments_query:
  "es \<noteq> [] \<Longrightarrow> list_all arg_ok es \<Longrightarrow> url_arguments (query_text es) ps = Inr (put_all es ps)"
proof (induction es arbitrary: ps rule: query_text.induct)
  case (2 k v)
  then show ?case using url_arguments_one [of k v "[]" ps] by (simp add: put_all_def)
next
  case (3 k v e es)
  then show ?case using url_arguments_one [of k v "CHR ''&'' # query_text (e # es)" ps]
    by (simp add: put_all_def)
qed simp

lemma scan_path_plain:
  "CHR ''?'' \<notin> set xs \<Longrightarrow> length path + length xs < REQ_PATH_SIZE \<Longrightarrow>
     scan_path (xs @ ys) path ps b k = scan_path ys (path @ xs) ps b k"
  by (induction xs arbitrary: path) auto

text \<open>What follows the method: the path and, when there are arguments, the query.\<close>

definition target_text :: "string \<Rightarrow> (string \<times> string) list \<Rightarrow> string" where
  "target_text path args = path @ (if args = [] then [] else ''?'' @ query_text args)"

lemma query_ne: "args \<noteq> [] \<Longrightarrow> query_text args \<noteq> []"
  by (cases args rule: query_text.cases) auto

lemma scan_path_target:
  assumes "CHR ''?'' \<notin> set path" "length path < REQ_PATH_SIZE" "list_all arg_ok args"
  defines "q \<equiv> length (if args = [] then [] else query_text args)"
  shows "scan_path (target_text path args) [] ps b k =
     Inr (path, put_all args ps, (if args = [] then b else fst (cb_read_ack (int q) b)), k + int q)"
proof (cases "args = []")
  case True
  with scan_path_plain [of path "[]" "[]" ps b k] assms show ?thesis
    by (simp add: target_text_def put_all_def)
next
  case False
  with query_ne have "query_text args \<noteq> []" by blast
  with False url_arguments_query [OF False assms(3)] scan_path_plain [of path "[]" "''?'' @ query_text args" ps b k] assms(1,2)
  show ?thesis by (simp add: target_text_def q_def parse_url_arguments_def)
qed

text \<open>A whole request line, and what it does to the client.\<close>

definition method_text :: "Method \<Rightarrow> string" where
  "method_text mth = (case mth of GET \<Rightarrow> ''GET '' | POST \<Rightarrow> ''POST '' | INVALID \<Rightarrow> [])"

definition request_line :: "Method \<Rightarrow> string \<Rightarrow> (string \<times> string) list \<Rightarrow> string" where
  "request_line mth path args = method_text mth @ target_text path args @ '' HTTP/1.1'' @ CRLF"

definition path_ok :: "string \<Rightarrow> bool" where
  "path_ok path \<longleftrightarrow> plain {CHR '' '', CHR ''?''} path \<and> length path < REQ_PATH_SIZE"

lemma query_plain: "list_all arg_ok args \<Longrightarrow> set (query_text args) \<inter> {CHR '' '', NUL, CR, LF} = {}"
  by (induction args rule: query_text.induct) (auto simp: arg_ok_def plain_def)

lemma target_plain:
  "path_ok path \<Longrightarrow> list_all arg_ok args \<Longrightarrow> set (target_text path args) \<inter> {CHR '' '', NUL, CR, LF} = {}"
  using query_plain [of args] by (auto simp: path_ok_def plain_def target_text_def)

lemma recv_method_text:
  assumes "flat b n r (method_text mth @ rest)" "mth \<noteq> INVALID"
  shows "\<exists>b'. recv_method b = Inr (mth, b', int (length (method_text mth))) \<and>
     flat b' n (r + length (method_text mth)) rest"
proof -
  from flat_from [OF assms(1)] obtain junk where m: "cb_from b = Inr (method_text mth @ rest @ junk)" by auto
  from flat_ack [OF assms(1), of "length (method_text mth)"]
  have f: "flat (fst (cb_read_ack (int (length (method_text mth))) b)) n (r + length (method_text mth)) rest" by simp
  show ?thesis
    by (rule exI [of _ "fst (cb_read_ack (int (length (method_text mth))) b)"])
      (use assms(2) m f in \<open>cases mth; simp add: recv_method_def method_text_def\<close>)
qed

text \<open>The request line up to its version: the ring is left behind the path, of which the target's first NUL
  is the rest.\<close>

lemma recv_request_line_text:
  fixes path args mth rest
  defines "tg \<equiv> target_text path args @ NUL # ''HTTP/1.1'' @ CRLF @ rest"
    and "q \<equiv> length path + length (if args = [] then [] else query_text args)"
  assumes "flat (conn_buf h) n r (request_line mth path args @ rest)"
    and "mth \<noteq> INVALID" "path_ok path" "list_all arg_ok args"
  shows "\<exists>b'. recv_request_line (conn_client h) (conn_buf h) =
      Inr (int (length (method_text mth) + q),
        \<lparr>conn_client = (conn_client h)\<lparr>first_line := False, http_method := Some mth, req_path := path,
           request_params := put_all args (request_params (conn_client h))\<rparr>, conn_buf = b'\<rparr>) \<and>
     flat b' n (r + length (method_text mth) + q) (drop q tg)"
proof -
  let ?mt = "method_text mth" and ?tg = "target_text path args"
  let ?ver = "''HTTP/1.1'' @ CRLF"
  let ?q = "length (if args = [] then [] else query_text args)"
  have tx: "request_line mth path args @ rest = ?mt @ (?tg @ CHR '' '' # ?ver @ rest)"
    by (simp add: request_line_def)
  from recv_method_text [OF assms(3) [unfolded tx] assms(4)] obtain b1 where
    b1: "recv_method (conn_buf h) = Inr (mth, b1, int (length ?mt))"
      "flat b1 n (r + length ?mt) (?tg @ CHR '' '' # ?ver @ rest)" by blast
  from flat_from [OF b1(2)] obtain junk where
    m: "cb_from b1 = Inr (?tg @ CHR '' '' # ?ver @ rest @ junk)" by auto
  have sp: "strchr (?tg @ CHR '' '' # ?ver @ rest @ junk) CHR '' '' = Inr (Some (length ?tg))"
    using target_plain [OF assms(5,6)] by (intro strchr_found) auto
  have "(?tg @ CHR '' '' # ?ver @ rest)[length ?tg := NUL] = tg"
    by (simp add: list_update_append tg_def)
  with flat_poke [OF b1(2), of "length ?tg" NUL] obtain b2 where
    b2: "cb_store b1 (read_at b1 + int (length ?tg)) [NUL] 1 = Inr b2" "flat b2 n (r + length ?mt) tg" by auto
  have pok: "CHR ''?'' \<notin> set path" "length path < REQ_PATH_SIZE"
    using assms(5) by (auto simp: path_ok_def plain_def)
  have tk: "take (length ?tg) (?tg @ CHR '' '' # ?ver @ rest @ junk) = ?tg" by simp
  let ?b3 = "if args = [] then b2 else fst (cb_read_ack (int ?q) b2)"
  have tl: "length path + ?q \<le> length tg" by (simp add: target_text_def tg_def)
  have b3: "flat ?b3 n (r + length ?mt + ?q) (drop ?q tg)"
    using b2(2) flat_ack [OF b2(2), of ?q] tl by auto
  have b4: "flat (fst (cb_read_ack (int (length path)) ?b3)) n (r + length ?mt + q) (drop q tg)"
    using flat_ack [OF b3, of "length path"] tl by (simp add: q_def add_ac)
  have "recv_request_line (conn_client h) (conn_buf h) =
      Inr (int (length ?mt + q),
        \<lparr>conn_client = (conn_client h)\<lparr>first_line := False, http_method := Some mth, req_path := path,
           request_params := put_all args (request_params (conn_client h))\<rparr>,
         conn_buf = fst (cb_read_ack (int (length path)) ?b3)\<rparr>)"
    unfolding recv_request_line_def b1(1) rbind_simps prod.case Let_def m sp option.case b2(1) tk
      scan_path_target [OF pok assms(6)]
    using assms(4) by (simp add: q_def)
  with b4 show ?thesis by blast
qed

lemma recv_line_request:
  assumes "flat (conn_buf h) n r (request_line mth path args @ rest)" "first_line (conn_client h)"
    and "mth \<noteq> INVALID" "path_ok path" "list_all arg_ok args" "length (request_line mth path args) < fuel"
  shows "\<exists>b'. recv_line fuel h = Some (Inr (int (length (request_line mth path args)),
       \<lparr>conn_client = (conn_client h)\<lparr>first_line := False, http_method := Some mth, req_path := path,
          request_params := put_all args (request_params (conn_client h))\<rparr>, conn_buf = b'\<rparr>)) \<and>
     flat b' n (r + length (request_line mth path args)) rest"
proof -
  let ?tg = "target_text path args"
  let ?q = "length path + length (if args = [] then [] else query_text args)"
  from recv_request_line_text [OF assms(1,3-5)] obtain b where b:
    "recv_request_line (conn_client h) (conn_buf h) = Inr (int (length (method_text mth) + ?q),
        \<lparr>conn_client = (conn_client h)\<lparr>first_line := False, http_method := Some mth, req_path := path,
           request_params := put_all args (request_params (conn_client h))\<rparr>, conn_buf = b\<rparr>)"
    "flat b n (r + length (method_text mth) + ?q) (drop ?q (?tg @ NUL # ''HTTP/1.1'' @ CRLF @ rest))" by blast
  let ?left = "drop ?q ?tg @ NUL # ''HTTP/1.1'' @ [CR]"
  have tl: "length ?tg = ?q + (if args = [] then 0 else 1)" by (simp add: target_text_def)
  have left: "drop ?q (?tg @ NUL # ''HTTP/1.1'' @ CRLF @ rest) = ?left @ LF # rest"
    using tl by (simp add: CRLF_chars)
  have noLF: "LF \<notin> set ?left" using target_plain [OF assms(4,5)] by (auto dest: in_set_dropD)
  have total: "length (request_line mth path args) = length (method_text mth) + ?q + length ?left + 1"
    using tl by (simp add: request_line_def CRLF_chars)
  then have "length ?left < fuel" using assms(6) by linarith
  from skip_line_flat [OF b(2) [unfolded left] noLF this, of "int (length (method_text mth) + ?q)"] obtain b5 where
    b5: "skip_line fuel b (int (length (method_text mth) + ?q)) =
        Some (Inr (int (length (request_line mth path args)), b5))"
      "flat b5 n (r + length (request_line mth path args)) rest"
    unfolding total by (auto simp: add.assoc)
  have two: "\<not> data_left_continuous (conn_buf h) < 2"
    by (rule flat_at_least_two [OF assms(1)]) (simp add: request_line_def CRLF_chars)
  from two assms(2) b b5 show ?thesis by (simp add: recv_line_def Let_def)
qed

section \<open>A line across the end of the ring\<close>

lemma strchr_runs_out: "c \<notin> set xs \<Longrightarrow> NUL \<notin> set xs \<Longrightarrow> strchr xs c = Inl OutOfBounds"
  by (induction xs) auto

text \<open>When more than one byte of a header line is left before the end of the ring, the data is not
  made continuous, and the search for the end of the value leaves the allocation.\<close>

lemma line_across_ring_end:
  assumes "cb_from (conn_buf h) = Inr (name @ CHR '':'' # part)" "\<not> data_left_continuous (conn_buf h) < 2"
    and "\<not> first_line (conn_client h)" "plain {CHR '':''} name" "length name < TOKEN_SIZE"
    and "part \<noteq> []" "CR \<notin> set part" "NUL \<notin> set part"
  shows "recv_line fuel h = Some (Inl OutOfBounds)"
proof -
  have n: "CHR '':'' \<notin> set name" "NUL \<notin> set name" "CR \<notin> set name"
    using assms(4) by (auto simp: plain_def)
  obtain x xs where x: "name @ CHR '':'' # part = x # xs" "x \<noteq> CR" using n(3) by (cases name) auto
  have sep: "strchr (name @ CHR '':'' # part) CHR '':'' = Inr (Some (length name))"
    using n by (intro strchr_found) auto
  obtain y ys where part: "part = y # ys" using assms(6) by (cases part) auto
  have sp: "arr_get (name @ CHR '':'' # part) (Suc (length name)) = Inr y"
    by (simp add: arr_get_def nth_append part)
  have d: "drop (Suc (length name)) (name @ CHR '':'' # part) = part"
    "drop (Suc (Suc (length name))) (name @ CHR '':'' # part) = ys" by (simp_all add: part)
  have e: "strchr part CR = Inl OutOfBounds" "strchr ys CR = Inl OutOfBounds"
    using assms(7,8) strchr_runs_out [of CR part] strchr_runs_out [of CR ys] by (auto simp: part)
  have "parse_header (name @ CHR '':'' # part) hs = Inl OutOfBounds" for hs
    unfolding parse_header_def x(1) list.case using x(2)
    unfolding x(1) [symmetric] by (simp add: sep sp copy_token_prefix assms(5) d e Let_def del: drop_append)
  then show ?thesis
    using assms(1-3) by (simp add: recv_line_def Let_def recv_header_line_def)
qed

end
