(* ===== verification/Http_Server.thy ===== *)
theory Http_Server
  imports Http_Request Pager_List "HOL-Library.Product_Lexorder"
begin

text \<open>
  \<open>src/pagers-server/http/httpserver.cpp\<close>, \<open>httpserver.hpp\<close> and \<open>mime.cpp\<close>: the server that
  owns the connections. lwIP calls it back when a connection is accepted, when data arrives or
  has been acknowledged and on errors; the main loop calls \<open>loop\<close>, which handles the requests
  that are ready.

  \<open>HttpServerClient\<close> objects live in a heap and are freed by \<open>tcp_close_client_connection\<close>;
  \<open>client_vect\<close> holds their addresses. What the callbacks ask of lwIP is a list of \<open>tcp_call\<close>s
  in order, what lwIP answers is an argument. The first buffer of a received pbuf chain is a
  string, a null pbuf is \<open>None\<close>. Handlers are functions over the client and a world \<open>'w\<close>.
\<close>

section \<open>MIME types\<close>

definition MIME_JS :: string where "MIME_JS = ''text/javascript''"
definition MIME_CSS :: string where "MIME_CSS = ''text/css''"
definition MIME_HTML :: string where "MIME_HTML = ''text/html''"
definition MIME_UNKNOWN :: string where "MIME_UNKNOWN = ''application/octet-stream''"

text \<open>The loop of \<open>last_dot\<close> from index \<open>n - 1\<close> down: the text from the last dot on.\<close>

fun last_dot_from :: "string \<Rightarrow> nat \<Rightarrow> string option" where
  "last_dot_from str 0 = None"
| "last_dot_from str (Suc i) = (if str ! i = CHR ''.'' then Some (drop i str) else last_dot_from str i)"

definition last_dot :: "string \<Rightarrow> string option" where
  "last_dot str = last_dot_from str (length str)"

definition content_type_for :: "string \<Rightarrow> string" where
  "content_type_for filename =
     (case last_dot filename of
        None \<Rightarrow> MIME_UNKNOWN
      | Some dot \<Rightarrow>
          let dot = tl dot in
          if dot = ''js'' then MIME_JS
          else if dot = ''css'' then MIME_CSS
          else if dot = ''html'' then MIME_HTML
          else MIME_UNKNOWN)"

section \<open>State\<close>

text \<open>The order of \<open>enum class Method\<close>, for the keys of the route map.\<close>

fun method_rank :: "Method \<Rightarrow> nat" where
  "method_rank GET = 0"
| "method_rank POST = 1"
| "method_rank INVALID = 2"

instantiation Method :: linorder
begin

definition less_eq_Method :: "Method \<Rightarrow> Method \<Rightarrow> bool" where
  "less_eq_Method a b \<longleftrightarrow> method_rank a \<le> method_rank b"

definition less_Method :: "Method \<Rightarrow> Method \<Rightarrow> bool" where
  "less_Method a b \<longleftrightarrow> method_rank a < method_rank b"

instance
proof
  fix a b c :: Method
  show "a < b \<longleftrightarrow> a \<le> b \<and> \<not> b \<le> a" "a \<le> a" "a \<le> b \<or> b \<le> a"
    by (auto simp: less_eq_Method_def less_Method_def)
  show "a \<le> b \<Longrightarrow> b \<le> c \<Longrightarrow> a \<le> c" by (simp add: less_eq_Method_def)
  show "a \<le> b \<Longrightarrow> b \<le> a \<Longrightarrow> a = b" by (cases a; cases b) (simp_all add: less_eq_Method_def)
qed

end

type_synonym 'w handler = "http_client \<times> 'w \<Rightarrow> (http_client \<times> 'w) result option"

record tcp_client =
  tc_conn :: http_conn
  tc_sent :: int
  tc_pcb :: nat

record 'w http_server =
  paths :: "(Method \<times> string, 'w handler) std_map"
  server_pcb :: "nat option"
  static_enabled :: bool
  fs_path :: string
  client_vect :: "nat list"
  client_heap :: "tcp_client heap"

datatype tcp_call =
    TcpNew
  | TcpBind nat int
  | TcpListen nat
  | TcpArg nat "nat option"
  | TcpAccept nat
  | TcpCallbacks nat
  | TcpRecved nat int
  | TcpOutput nat
  | TcpClose nat
  | TcpAbort nat
  | FreePbuf
  | LwipBegin
  | LwipEnd

record tcp_answers =
  tcp_new_answer :: "nat option"
  tcp_bind_answer :: int
  tcp_listen_answer :: "nat option"
  tcp_close_answer :: int

definition ERR_ABRT :: int where "ERR_ABRT = -13"
definition ERR_VAL :: int where "ERR_VAL = -6"

text \<open>The constructor; \<open>mem\<close> is the memory of the ring buffer.\<close>

definition new_tcp_client :: "string \<Rightarrow> nat \<Rightarrow> tcp_client" where
  "new_tcp_client mem pcb =
     \<lparr>tc_conn = \<lparr>conn_client = new_http_client, conn_buf = cb_new mem 1024 128\<rparr>, tc_sent = 0, tc_pcb = pcb\<rparr>"

definition client_flush :: "tcp_client \<Rightarrow> tcp_call list" where
  "client_flush c = [LwipBegin, TcpOutput (tc_pcb c)]"

definition client_close :: "tcp_answers \<Rightarrow> tcp_client \<Rightarrow> int \<times> tcp_call list" where
  "client_close ans c =
     (if tcp_close_answer ans \<noteq> 0
      then (ERR_ABRT, [LwipBegin, TcpClose (tc_pcb c), TcpAbort (tc_pcb c), LwipEnd])
      else (tcp_close_answer ans, [LwipBegin, TcpClose (tc_pcb c), LwipEnd]))"

definition send_ack :: "int \<Rightarrow> tcp_client \<Rightarrow> tcp_client" where
  "send_ack n c = c\<lparr>tc_sent := tc_sent c + n\<rparr>"

definition send_finished :: "tcp_client \<Rightarrow> bool" where
  "send_finished c \<longleftrightarrow> tc_sent c = should_send (conn_client (tc_conn c))"

definition mark_request_ready :: "http_conn \<Rightarrow> http_conn" where
  "mark_request_ready h = h\<lparr>conn_client := (conn_client h)\<lparr>request_ready := True\<rparr>\<rparr>"

section \<open>The callbacks\<close>

definition tcp_close_client_connection ::
    "tcp_answers \<Rightarrow> nat option \<Rightarrow> nat option \<Rightarrow> int \<Rightarrow> tcp_client heap \<Rightarrow>
       (int \<times> tcp_call list \<times> tcp_client heap) result" where
  "tcp_close_client_connection ans pcb client close_err heap =
     (let calls = (case pcb of None \<Rightarrow> [] | Some p \<Rightarrow> [TcpArg p None]) in
      case client of
        None \<Rightarrow> Inr (close_err, calls, heap)
      | Some _ \<Rightarrow>
          rbind (heap_get heap client) (\<lambda>c.
          let (close_err, calls') = client_close ans c in
          rbind (heap_delete client heap) (\<lambda>heap. Inr (close_err, calls @ calls', heap))))"

definition tcp_server_sent ::
    "tcp_answers \<Rightarrow> nat option \<Rightarrow> nat \<Rightarrow> u16 \<Rightarrow> tcp_client heap \<Rightarrow>
       (int \<times> tcp_call list \<times> tcp_client heap) result" where
  "tcp_server_sent ans arg pcb len heap =
     (case arg of
        None \<Rightarrow> Inr (0, [], heap)
      | Some _ \<Rightarrow>
          rbind (heap_update arg (send_ack (uint len)) heap) (\<lambda>heap.
          rbind (heap_get heap arg) (\<lambda>c.
            if send_finished c then
              rbind (tcp_close_client_connection ans (Some pcb) arg 0 heap) (\<lambda>(_, calls, heap).
                Inr (0, calls, heap))
            else Inr (0, [], heap))))"

text \<open>The scan of \<open>tcp_client_recv\<close> over the payload, with the calls of \<open>tcp_recved\<close>.\<close>

fun recv_lines ::
    "nat \<Rightarrow> nat \<Rightarrow> string \<Rightarrow> http_conn \<Rightarrow> (tcp_call list \<times> http_conn) result option" where
  "recv_lines fuel pcb [] h = Some (Inr ([], h))"
| "recv_lines fuel pcb (x # xs) h =
     (if x = LF then
        obind (recv_line fuel h) (\<lambda>(len, h).
          if len < 0 then recv_lines fuel pcb xs h
          else
            obind (recv_lines fuel pcb xs (if len = 2 then mark_request_ready h else h)) (\<lambda>(calls, h).
              Some (Inr (TcpRecved pcb len # calls, h))))
      else recv_lines fuel pcb xs h)"

definition recv_packet ::
    "nat \<Rightarrow> nat \<Rightarrow> string \<Rightarrow> http_conn \<Rightarrow> (tcp_call list \<times> http_conn) result option" where
  "recv_packet fuel pcb payload h =
     obind (Some (recv_data payload h)) (recv_lines fuel pcb payload)"

definition tcp_client_recv ::
    "nat \<Rightarrow> tcp_answers \<Rightarrow> nat option \<Rightarrow> nat \<Rightarrow> string option \<Rightarrow> int \<Rightarrow> tcp_client heap \<Rightarrow>
       (int \<times> tcp_call list \<times> tcp_client heap) result option" where
  "tcp_client_recv fuel ans arg pcb p err heap =
     (case (p, arg) of
        (Some payload, Some a) \<Rightarrow>
          obind (Some (heap_get heap arg)) (\<lambda>c.
          obind (recv_packet fuel pcb payload (tc_conn c)) (\<lambda>(calls, h).
            Some (Inr (0, calls @ [FreePbuf], heap[a := Some (c\<lparr>tc_conn := h\<rparr>)]))))
      | _ \<Rightarrow>
          obind (Some (tcp_close_client_connection ans (Some pcb) arg err heap)) (\<lambda>(_, calls, heap).
            Some (Inr (ERR_ABRT, calls, heap))))"

definition tcp_client_err ::
    "tcp_answers \<Rightarrow> nat option \<Rightarrow> int \<Rightarrow> tcp_client heap \<Rightarrow> (tcp_call list \<times> tcp_client heap) result" where
  "tcp_client_err ans arg err heap =
     (if err \<noteq> ERR_ABRT then
        rbind (tcp_close_client_connection ans None arg err heap) (\<lambda>(_, calls, heap). Inr (calls, heap))
      else Inr ([], heap))"

definition new_client :: "nat \<Rightarrow> 'w http_server \<Rightarrow> 'w http_server" where
  "new_client client s = s\<lparr>client_vect := client_vect s @ [client]\<rparr>"

text \<open>\<open>new\<close> does not return null here; it throws.\<close>

definition tcp_server_accept ::
    "string \<Rightarrow> nat option \<Rightarrow> int \<Rightarrow> 'w http_server \<Rightarrow> int \<times> tcp_call list \<times> 'w http_server" where
  "tcp_server_accept mem client_pcb err s =
     (case client_pcb of
        None \<Rightarrow> (ERR_VAL, [], s)
      | Some pcb \<Rightarrow>
          if err \<noteq> 0 then (ERR_VAL, [], s)
          else
            let (a, heap) = heap_new (new_tcp_client mem pcb) (client_heap s)
            in (0, [TcpArg pcb (Some a), TcpCallbacks pcb], new_client a (s\<lparr>client_heap := heap\<rparr>)))"

section \<open>The server\<close>

definition http_start :: "tcp_answers \<Rightarrow> int \<Rightarrow> 'w http_server \<Rightarrow> bool \<times> tcp_call list \<times> 'w http_server" where
  "http_start ans port s =
     (case tcp_new_answer ans of
        None \<Rightarrow> (False, [LwipBegin, TcpNew, LwipEnd], s)
      | Some pcb \<Rightarrow>
          if tcp_bind_answer ans \<noteq> 0 then (False, [LwipBegin, TcpNew, TcpBind pcb port, LwipEnd], s)
          else
            case tcp_listen_answer ans of
              None \<Rightarrow> (False, [LwipBegin, TcpNew, TcpBind pcb port, TcpListen pcb, TcpClose pcb, LwipEnd],
                       s\<lparr>server_pcb := None\<rparr>)
            | Some l \<Rightarrow>
                (True, [LwipBegin, TcpNew, TcpBind pcb port, TcpListen pcb, TcpArg l (Some 0), TcpAccept l, LwipEnd],
                 s\<lparr>server_pcb := Some l\<rparr>))"

definition on_route :: "Method \<Rightarrow> string \<Rightarrow> 'w handler \<Rightarrow> 'w http_server \<Rightarrow> 'w http_server" where
  "on_route mth path callback s = s\<lparr>paths := sm_put (mth, path) callback (paths s)\<rparr>"

definition static_content :: "string \<Rightarrow> 'w http_server \<Rightarrow> 'w http_server" where
  "static_content path s = s\<lparr>static_enabled := True, fs_path := path\<rparr>"

definition BUFSZ :: nat where "BUFSZ = 128"

text \<open>The loop of \<open>try_static\<close>, with at most \<open>fuel\<close> reads; a chunk is sent up to its first NUL.\<close>

fun static_loop ::
    "nat \<Rightarrow> 'w lfs \<Rightarrow> 'w net \<Rightarrow> http_client \<times> 'w \<Rightarrow> (bool \<times> http_client \<times> 'w) result option" where
  "static_loop 0 fs net s = None"
| "static_loop (Suc fuel) fs net (c, w) =
     (let (n, buf, w) = lfs_file_read fs (BUFSZ - 1) w in
      if n < 0 then Some (Inr (False, c, w))
      else
        case send_string (Suc fuel) net (takeWhile (\<lambda>x. x \<noteq> NUL) (take (nat n) buf)) (c, w) of
          None \<Rightarrow> None
        | Some (c, w) \<Rightarrow>
            if n < int BUFSZ - 1 then Some (Inr (True, c, snd (lfs_file_close fs w)))
            else static_loop fuel fs net (c, w))"

text \<open>\<open>file_size\<close> reads \<open>file.ctz.size\<close> of the open file.\<close>

definition try_static ::
    "nat \<Rightarrow> 'w lfs \<Rightarrow> ('w \<Rightarrow> int) \<Rightarrow> 'w net \<Rightarrow> 'w http_server \<Rightarrow> string \<Rightarrow> http_client \<times> 'w \<Rightarrow>
       (bool \<times> http_client \<times> 'w) result option" where
  "try_static fuel fs file_size net s path = (\<lambda>(c, w).
     if \<not> static_enabled s then Some (Inr (False, c, w))
     else
       let buf = snprintf BUFSZ (if path = ''/'' then fs_path s @ ''/index.html'' else fs_path s @ path);
           (res, w) = lfs_file_open fs buf RDONLY w
       in if res < 0 then Some (Inr (False, c, w))
          else
            let c = set_content_length (file_size w) (set_content_type (content_type_for buf) c) in
            case response_begin fuel net 200 ''OK'' (c, w) of
              None \<Rightarrow> None
            | Some cw \<Rightarrow> static_loop fuel fs net cw)"

text \<open>A request whose method is neither GET nor POST leaves \<open>req_path\<close> unset, and it is read here.\<close>

definition handle_request ::
    "nat \<Rightarrow> 'w lfs \<Rightarrow> ('w \<Rightarrow> int) \<Rightarrow> 'w net \<Rightarrow> 'w http_server \<Rightarrow> http_conn \<times> 'w \<Rightarrow>
       (http_conn \<times> 'w) result option" where
  "handle_request fuel fs file_size net s = (\<lambda>(h, w).
     obind (Some (handle_body h)) (\<lambda>h.
     let c = conn_client h in
     case http_method c of
       None \<Rightarrow> Some (Inl Uninitialised)
     | Some mth \<Rightarrow>
         if mth = INVALID then Some (Inl Uninitialised)
         else
           obind
             (case sm_find (paths s) (mth, req_path c) of
                Some callback \<Rightarrow> callback (c, w)
              | None \<Rightarrow>
                  obind (if mth = GET then try_static fuel fs file_size net s (req_path c) (c, w)
                         else Some (Inr (False, c, w))) (\<lambda>(found, c, w).
                    if found then Some (Inr (c, w)) else map_option Inr (not_found fuel net (c, w))))
             (\<lambda>(c, w). Some (Inr (h\<lparr>conn_client := c\<rparr>, w)))))"

text \<open>The loop over the clients: those left, the heap and the world.\<close>

fun loop_clients ::
    "nat \<Rightarrow> 'w lfs \<Rightarrow> ('w \<Rightarrow> int) \<Rightarrow> 'w net \<Rightarrow> 'w http_server \<Rightarrow> nat list \<Rightarrow> tcp_client heap \<times> 'w \<Rightarrow>
       (nat list \<times> tcp_client heap \<times> 'w) result option" where
  "loop_clients fuel fs file_size net s [] (heap, w) = Some (Inr ([], heap, w))"
| "loop_clients fuel fs file_size net s (a # as) (heap, w) =
     obind (Some (heap_get heap (Some a))) (\<lambda>c.
       if request_ready (conn_client (tc_conn c)) then
         obind (handle_request fuel fs file_size net s (tc_conn c, w)) (\<lambda>(h, w).
           loop_clients fuel fs file_size net s as (heap[a := Some (c\<lparr>tc_conn := h\<rparr>)], w))
       else
         obind (loop_clients fuel fs file_size net s as (heap, w)) (\<lambda>(rest, heap, w).
           Some (Inr (a # rest, heap, w))))"

definition http_loop ::
    "nat \<Rightarrow> 'w lfs \<Rightarrow> ('w \<Rightarrow> int) \<Rightarrow> 'w net \<Rightarrow> 'w http_server \<times> 'w \<Rightarrow> ('w http_server \<times> 'w) result option" where
  "http_loop fuel fs file_size net = (\<lambda>(s, w).
     obind (loop_clients fuel fs file_size net s (client_vect s) (client_heap s, w)) (\<lambda>(vect, heap, w).
       Some (Inr (s\<lparr>client_vect := vect, client_heap := heap\<rparr>, w))))"

section \<open>A request, line by line\<close>

datatype http_line = Request Method string "(string \<times> string) list" | Header string string | Blank

fun line_text :: "http_line \<Rightarrow> string" where
  "line_text (Request mth path args) = request_line mth path args"
| "line_text (Header name val) = plain_header (name, val)"
| "line_text Blank = CRLF"

fun line_ok :: "http_line \<Rightarrow> bool" where
  "line_ok (Request mth path args) \<longleftrightarrow> mth \<noteq> INVALID \<and> path_ok path \<and> list_all arg_ok args"
| "line_ok (Header name val) \<longleftrightarrow> header_ok (name, val)"
| "line_ok Blank \<longleftrightarrow> True"

fun is_request :: "http_line \<Rightarrow> bool" where
  "is_request (Request mth path args) = True"
| "is_request _ = False"

text \<open>What a line does to the client.\<close>

fun take_line :: "http_line \<Rightarrow> http_client \<Rightarrow> http_client" where
  "take_line (Request mth path args) c =
     c\<lparr>first_line := False, http_method := Some mth, req_path := path,
       request_params := put_all args (request_params c)\<rparr>"
| "take_line (Header name val) c = c\<lparr>request_headers := sm_put name val (request_headers c)\<rparr>"
| "take_line Blank c = c\<lparr>request_ready := True\<rparr>"

lemma line_length: "line_ok l \<Longrightarrow> length (line_text l) = 2 \<longleftrightarrow> l = Blank"
  "2 \<le> length (line_text l)"
  by (cases l; simp add: request_line_def plain_header_def CRLF_chars)+

lemma line_ends:
  assumes "line_ok l"
  shows "\<exists>body. line_text l = body @ [LF] \<and> LF \<notin> set body"
proof (cases l)
  case (Request mth path args)
  have "LF \<notin> set (target_text path args)" using target_plain [of path args] assms Request by auto
  moreover have "LF \<notin> set (method_text mth)" by (cases mth) (simp_all add: method_text_def)
  ultimately have "LF \<notin> set (method_text mth @ target_text path args @ '' HTTP/1.1'' @ [CR])" by simp
  moreover have "line_text l = (method_text mth @ target_text path args @ '' HTTP/1.1'' @ [CR]) @ [LF]"
    by (simp add: Request request_line_def CRLF_chars)
  ultimately show ?thesis by blast
next
  case (Header name val)
  then have "LF \<notin> set (name @ '': '' @ val @ [CR])" using assms by (auto simp: header_ok_def plain_def)
  moreover have "line_text l = (name @ '': '' @ val @ [CR]) @ [LF]"
    by (simp add: Header plain_header_def CRLF_chars)
  ultimately show ?thesis by blast
next
  case Blank
  then show ?thesis by (intro exI [of _ "[CR]"]) (simp add: CRLF_chars)
qed

lemma recv_line_ok:
  assumes "flat (conn_buf h) n r (line_text l @ rest)" "line_ok l"
    and "first_line (conn_client h) = is_request l" "n < fuel"
  defines "c \<equiv> conn_client h"
  shows "\<exists>b'. recv_line fuel h = Some (Inr (int (length (line_text l)),
       \<lparr>conn_client = (if l = Blank then c else take_line l c), conn_buf = b'\<rparr>)) \<and>
     flat b' n (r + length (line_text l)) rest"
proof -
  have len: "length (line_text l) < fuel" "1 < fuel"
    using assms(1,4) line_length(2) [of l] by (auto simp: flat_def)
  show ?thesis
  proof (cases l)
    case (Request mth path args)
    with recv_line_request [of h n r mth path args rest fuel] assms len show ?thesis by simp
  next
    case (Header name val)
    with recv_line_header [of h n r "(name, val)" rest fuel] assms len show ?thesis by simp
  next
    case Blank
    with recv_line_empty [of h n r rest fuel] assms len show ?thesis by (simp add: CRLF_chars)
  qed
qed

text \<open>The lines of a request in order: the request line is read first, and there is only one.\<close>

definition lines_ok :: "http_client \<Rightarrow> http_line list \<Rightarrow> bool" where
  "lines_ok c ls \<longleftrightarrow> list_all line_ok ls \<and>
     (ls = [] \<or> first_line c = is_request (hd ls) \<and> list_all (\<lambda>l. \<not> is_request l) (tl ls))"

lemma lines_ok_tl:
  assumes "lines_ok c (l # ls)"
  shows "lines_ok (take_line l c) ls"
proof -
  have "\<not> first_line (take_line l c)"
    using assms by (cases l) (auto simp: lines_ok_def)
  moreover have "list_all (\<lambda>l. \<not> is_request l) ls" using assms by (simp add: lines_ok_def)
  ultimately show ?thesis using assms by (cases ls) (simp_all add: lines_ok_def)
qed

definition stream :: "http_line list \<Rightarrow> string" where
  "stream ls = concat (map line_text ls)"

lemma first_split:
  assumes "xs @ x # ys = xs' @ x # ys'" "x \<notin> set xs" "x \<notin> set xs'"
  shows "xs = xs' \<and> ys = ys'"
proof -
  have "takeWhile (\<lambda>y. y \<noteq> x) (zs @ x # us) = zs" if "x \<notin> set zs" for zs us
    using that by (induction zs) auto
  from this [OF assms(2), of ys] this [OF assms(3), of ys'] assms(1) show ?thesis by auto
qed

text \<open>Where the first line of the stream ends.\<close>

lemma first_line_ends:
  assumes "s @ LF # rest = stream ls" "LF \<notin> set s" "lines_ok c ls"
  obtains l ls' where "ls = l # ls'" "line_text l = s @ [LF]" "rest = stream ls'" "line_ok l"
    "first_line c = is_request l" "lines_ok (take_line l c) ls'"
proof -
  have "ls \<noteq> []" using assms(1) by (auto simp: stream_def)
  then obtain l ls' where ls: "ls = l # ls'" by (cases ls) auto
  have ok: "line_ok l" "first_line c = is_request l" using assms(3) by (simp_all add: ls lines_ok_def)
  from line_ends [OF ok(1)] obtain body where body: "line_text l = body @ [LF]" "LF \<notin> set body" by blast
  have "s @ LF # rest = body @ LF # stream ls'" using assms(1) body(1) by (simp add: ls stream_def)
  from first_split [OF this assms(2) body(2)] have "s = body" "rest = stream ls'" by blast+
  then show thesis using that [OF ls] body ok lines_ok_tl [of c l ls'] assms(3) by (simp add: ls)
qed

lemma stream_open_line: "LF \<notin> set s \<Longrightarrow> s = stream ls \<Longrightarrow> lines_ok c ls \<Longrightarrow> ls = []"
proof (cases ls)
  case (Cons l ls')
  assume "LF \<notin> set s" "s = stream ls" "lines_ok c ls"
  with Cons show ?thesis using line_ends [of l] by (auto simp: stream_def lines_ok_def)
qed simp

lemma lines_ok_drop: "lines_ok c ls \<Longrightarrow> k \<le> length ls \<Longrightarrow> lines_ok (fold take_line (take k ls) c) (drop k ls)"
proof (induction k arbitrary: ls c)
  case (Suc k)
  then obtain l ls' where "ls = l # ls'" by (cases ls) auto
  with Suc lines_ok_tl [of c l ls'] show ?case by simp
qed simp

text \<open>What the server acknowledges: each line.\<close>

definition line_acks :: "nat \<Rightarrow> http_line list \<Rightarrow> tcp_call list" where
  "line_acks pcb ls = map (\<lambda>l. TcpRecved pcb (int (length (line_text l)))) ls"

lemma line_acks_simps [simp]:
  "line_acks pcb [] = []"
  "line_acks pcb (l # ls) = TcpRecved pcb (int (length (line_text l))) # line_acks pcb ls"
  "line_acks pcb (ls @ ls') = line_acks pcb ls @ line_acks pcb ls'"
  by (simp_all add: line_acks_def)

text \<open>A piece \<open>p\<close> of the stream, behind a piece \<open>s\<close> of a line: the lines it completes are taken,
  the rest stays in the ring.\<close>

lemma recv_lines_ok:
  assumes "flat (conn_buf h) n r (s @ p)" "LF \<notin> set s" "s @ p @ future = stream ls"
    and "lines_ok (conn_client h) ls" "n < fuel"
  shows "\<exists>h' k s'. recv_lines fuel pcb p h = Some (Inr (line_acks pcb (take k ls), h')) \<and> k \<le> length ls \<and>
     conn_client h' = fold take_line (take k ls) (conn_client h) \<and>
     flat (conn_buf h') n (r + length (stream (take k ls))) s' \<and> LF \<notin> set s' \<and>
     s @ p = stream (take k ls) @ s'"
  using assms(1-4)
proof (induction p arbitrary: h r s ls)
  case Nil
  show ?case
    by (rule exI [of _ h], rule exI [of _ 0], rule exI [of _ s]) (use Nil in \<open>simp add: stream_def\<close>)
next
  case (Cons x p)
  show ?case
  proof (cases "x = LF")
    case False
    have "flat (conn_buf h) n r ((s @ [x]) @ p)" "LF \<notin> set (s @ [x])" "(s @ [x]) @ p @ future = stream ls"
      using Cons.prems(1-3) False by auto
    from Cons.IH [OF this Cons.prems(4)] False show ?thesis by simp
  next
    case True
    have "s @ LF # (p @ future) = stream ls" using Cons.prems(3) True by simp
    from first_line_ends [OF this Cons.prems(2,4)] obtain l ls' where
      l: "ls = l # ls'" "line_text l = s @ [LF]" "p @ future = stream ls'" "line_ok l"
        "first_line (conn_client h) = is_request l" "lines_ok (take_line l (conn_client h)) ls'" .
    let ?c = "conn_client h"
    have fl: "flat (conn_buf h) n r (line_text l @ p)" using Cons.prems(1) l(2) by (simp add: True)
    from recv_line_ok [OF fl l(4,5) assms(5)] obtain b' where
      b': "recv_line fuel h = Some (Inr (int (length (line_text l)),
         \<lparr>conn_client = (if l = Blank then ?c else take_line l ?c), conn_buf = b'\<rparr>))"
        "flat b' n (r + length (line_text l)) p" by blast
    let ?h = "\<lparr>conn_client = take_line l ?c, conn_buf = b'\<rparr>"
    have "flat (conn_buf ?h) n (r + length (line_text l)) ([] @ p)" "LF \<notin> set []" "[] @ p @ future = stream ls'"
      "lines_ok (conn_client ?h) ls'"
      using b'(2) l(3,6) by simp_all
    from Cons.IH [OF this] obtain h' k s' where
      r: "recv_lines fuel pcb p ?h = Some (Inr (line_acks pcb (take k ls'), h'))" "k \<le> length ls'"
        "conn_client h' = fold take_line (take k ls') (take_line l ?c)"
        "flat (conn_buf h') n (r + length (line_text l) + length (stream (take k ls'))) s'" "LF \<notin> set s'"
        "p = stream (take k ls') @ s'" by auto
    have res: "recv_lines fuel pcb (x # p) h = Some (Inr (line_acks pcb (take (Suc k) ls), h'))"
      using line_length(1) [OF l(4)] r(1) by (auto simp: True b'(1) mark_request_ready_def l(1))
    show ?thesis
      by (rule exI [of _ h'], rule exI [of _ "Suc k"], rule exI [of _ s'])
        (use res r(2-6) l(1,2) in \<open>simp add: stream_def True add.assoc del: recv_lines.simps\<close>)
  qed
qed

text \<open>The packets of a connection, one after the other.\<close>

primrec recv_packets ::
    "nat \<Rightarrow> nat \<Rightarrow> string list \<Rightarrow> http_conn \<Rightarrow> (tcp_call list \<times> http_conn) result option" where
  "recv_packets fuel pcb [] h = Some (Inr ([], h))"
| "recv_packets fuel pcb (p # ps) h =
     obind (recv_packet fuel pcb p h) (\<lambda>(calls, h).
     obind (recv_packets fuel pcb ps h) (\<lambda>(calls', h). Some (Inr (calls @ calls', h))))"

lemma recv_packets_ok:
  assumes "flat (conn_buf h) n r s" "LF \<notin> set s" "s @ concat ps = stream ls"
    and "lines_ok (conn_client h) ls" "r + length s + length (concat ps) < n" "n < fuel"
  shows "\<exists>h'. recv_packets fuel pcb ps h = Some (Inr (line_acks pcb ls, h')) \<and>
     conn_client h' = fold take_line ls (conn_client h) \<and> (\<exists>r'. flat (conn_buf h') n r' [])"
  using assms(1-5)
proof (induction ps arbitrary: h r s ls)
  case Nil
  then have "ls = []" using stream_open_line [of s ls "conn_client h"] by simp
  with Nil show ?case by (auto simp: stream_def)
next
  case (Cons p ps)
  from flat_write [OF Cons.prems(1), of p] Cons.prems(5) obtain b where
    b: "cb_write p (int (length p)) (conn_buf h) = Inr b" "flat b n r (s @ p)" by auto
  let ?h = "h\<lparr>conn_buf := b\<rparr>"
  have "flat (conn_buf ?h) n r (s @ p)" "s @ p @ concat ps = stream ls" "lines_ok (conn_client ?h) ls"
    using b(2) Cons.prems(3,4) by simp_all
  from recv_lines_ok [OF this(1) Cons.prems(2) this(2,3) assms(6), of pcb] obtain h1 k s1 where
    k: "recv_lines fuel pcb p ?h = Some (Inr (line_acks pcb (take k ls), h1))"
      "k \<le> length ls" "conn_client h1 = fold take_line (take k ls) (conn_client h)"
      "flat (conn_buf h1) n (r + length (stream (take k ls))) s1" "LF \<notin> set s1"
      "s @ p = stream (take k ls) @ s1" by auto
  have ls: "ls = take k ls @ drop k ls" by simp
  have st: "stream ls = stream (take k ls) @ stream (drop k ls)"
    by (simp add: stream_def flip: concat_append map_append)
  have "(s @ p) @ concat ps = stream ls" using Cons.prems(3) by simp
  then have "s1 @ concat ps = stream (drop k ls)" unfolding st k(6) by simp
  moreover have "lines_ok (conn_client h1) (drop k ls)" unfolding k(3) by (rule lines_ok_drop [OF Cons.prems(4) k(2)])
  moreover have "r + length (stream (take k ls)) + length s1 + length (concat ps) < n"
    using Cons.prems(5) arg_cong [OF k(6), of length] by simp
  ultimately obtain h' where
    h': "recv_packets fuel pcb ps h1 = Some (Inr (line_acks pcb (drop k ls), h'))"
      "conn_client h' = fold take_line (drop k ls) (conn_client h1)" "\<exists>r'. flat (conn_buf h') n r' []"
    using Cons.IH [OF k(4,5)] by blast
  have "line_acks pcb ls = line_acks pcb (take k ls) @ line_acks pcb (drop k ls)"
    "fold take_line ls (conn_client h) = fold take_line (drop k ls) (fold take_line (take k ls) (conn_client h))"
    by (simp_all flip: line_acks_simps(3) fold_append [unfolded comp_def, THEN fun_cong])
  then show ?case
    using b(1) k(1,3) h' by (simp add: recv_packet_def recv_data_def)
qed

lemma find_put_all: "sm_ok m \<Longrightarrow> sm_find (put_all es m) k = (case map_of (rev es) k of None \<Rightarrow> sm_find m k | Some v \<Rightarrow> Some v)"
proof (induction es arbitrary: m)
  case (Cons e es)
  obtain k' v where e: "e = (k', v)" by (cases e)
  from Cons.IH [of "sm_put k' v m"] Cons.prems show ?case
    by (auto simp: e put_all_def smap.ok_put smap.find_put map_add_def split: option.splits)
qed (simp add: put_all_def)

lemma take_headers:
  "fold take_line (map (\<lambda>(k, v). Header k v) hs) c = c\<lparr>request_headers := put_all hs (request_headers c)\<rparr>"
  by (induction hs arbitrary: c) (auto simp: put_all_def)

section \<open>Static files\<close>

text \<open>The connection and the file system do not disturb each other.\<close>

definition separate_worlds :: "'w lfs \<Rightarrow> 'w net \<Rightarrow> ('w \<Rightarrow> lfs_view) \<Rightarrow> ('w \<Rightarrow> string) \<Rightarrow> bool" where
  "separate_worlds fs net view txt \<longleftrightarrow>
     (\<forall>str w. view (snd (tcp_write net str w)) = view w) \<and>
     (\<forall>p m w. txt (snd (lfs_file_open fs p m w)) = txt w) \<and>
     (\<forall>n w. txt (snd (snd (lfs_file_read fs n w))) = txt w) \<and>
     (\<forall>w. txt (snd (lfs_file_close fs w)) = txt w)"

lemma static_loop_sends:
  assumes "lfs_reliable fs view" "net_takes net txt" "separate_worlds fs net view txt"
    and "files p = Some content" "NUL \<notin> set content"
    and "view w = (files, Some (p, pos))" "pos \<le> length content" "(length content - pos) div 127 < fuel"
  shows "\<exists>w'. static_loop fuel fs net (c, w) =
       Some (Inr (True, c\<lparr>should_send := should_send c + int (length content - pos)\<rparr>, w')) \<and>
     txt w' = txt w @ drop pos content \<and> view w' = (files, None)"
  using assms(6-8)
proof (induction fuel arbitrary: pos c w)
  case (Suc fuel)
  let ?n = "min 127 (length content - pos)"
  from assms(1) Suc.prems(1) assms(4) obtain buf w1 where
    r: "lfs_file_read fs 127 w = (int ?n, buf, w1)" "take ?n buf = take 127 (drop pos content)"
      "view w1 = (files, Some (p, pos + ?n))"
    unfolding lfs_reliable_def lfs_reads_def by blast
  have t1: "txt w1 = txt w" using assms(3) r(1) unfolding separate_worlds_def by (metis snd_conv)
  have tw: "takeWhile (\<lambda>x. x \<noteq> NUL) (take ?n buf) = take 127 (drop pos content)"
    unfolding r(2) using assms(5) by (auto simp: takeWhile_eq_all_conv dest: in_set_takeD in_set_dropD)
  let ?c = "c\<lparr>should_send := should_send c + int ?n\<rparr>"
  have "length (take 127 (drop pos content)) = ?n" by simp
  with send_string_takes [OF assms(2), of "Suc fuel" "take 127 (drop pos content)" c w1]
    snd_buf_le [of "length (take 127 (drop pos content))"] obtain w2 where
    s: "send_string (Suc fuel) net (take 127 (drop pos content)) (c, w1) = Some (?c, w2)"
      "txt w2 = txt w1 @ take 127 (drop pos content)" by auto
  have v2: "view w2 = (files, Some (p, pos + ?n))"
    using send_string_keeps [OF assms(2) _ _ s(1), of view] snd_buf_le [of "min (length content - pos) 127"] assms(3) r(3) by (simp add: separate_worlds_def)
  have step: "static_loop (Suc fuel) fs net (c, w) =
      (if int ?n < 127 then Some (Inr (True, ?c, snd (lfs_file_close fs w2))) else static_loop fuel fs net (?c, w2))"
    using r(1) tw s(1) by (simp add: BUFSZ_def Let_def)
  show ?case
  proof (cases "length content - pos < 127")
    case True
    then have "txt (snd (lfs_file_close fs w2)) = txt w @ drop pos content"
      using assms(3) s(2) t1 by (simp add: separate_worlds_def)
    moreover have "view (snd (lfs_file_close fs w2)) = (files, None)"
      using lfs_reliable_close [OF assms(1) v2] .
    ultimately show ?thesis using True unfolding step by simp
  next
    case False
    then have k: "?n = 127" by simp
    have "(length content - (pos + 127)) div 127 < fuel" using Suc.prems(3) False
      by (simp add: le_div_geq)
    moreover have "pos + 127 \<le> length content" using Suc.prems(2) False by simp
    ultimately obtain w' where
      w': "static_loop fuel fs net (?c, w2) =
          Some (Inr (True, ?c\<lparr>should_send := should_send ?c + int (length content - (pos + 127))\<rparr>, w'))"
        "txt w' = txt w2 @ drop (pos + 127) content" "view w' = (files, None)"
      using Suc.IH [of w2 "pos + 127" ?c] v2 k by auto
    have "txt w' = txt w @ drop pos content"
      unfolding w'(2) s(2) t1 by (metis append.assoc append_take_drop_id drop_drop add.commute)
    with w'(1,3) False show ?thesis unfolding step k by (simp add: of_nat_diff)
  qed
qed simp

section \<open>Properties\<close>

text \<open>A client that is still waiting for its request.\<close>

definition waiting :: "tcp_client heap \<Rightarrow> nat \<Rightarrow> bool" where
  "waiting heap a \<longleftrightarrow>
     (\<exists>cl. heap_get heap (Some a) = Inr cl \<and> \<not> request_ready (conn_client (tc_conn cl)))"

lemma loop_clients_waiting:
  "list_all (waiting heap) as \<Longrightarrow> loop_clients fuel fs file_size net s as (heap, w) = Some (Inr (as, heap, w))"
  by (induction as) (auto simp: waiting_def)

lemma loop_clients_append:
  "list_all (waiting heap) as \<Longrightarrow> loop_clients fuel fs file_size net s (as @ bs) (heap, w) =
     obind (loop_clients fuel fs file_size net s bs (heap, w)) (\<lambda>(rest, r). Some (Inr (as @ rest, r)))"
proof (induction as)
  case Nil
  show ?case
  proof (cases "loop_clients fuel fs file_size net s bs (heap, w)")
    case (Some r)
    then show ?thesis by (cases r) auto
  qed simp
next
  case (Cons a as)
  then show ?case
  proof (cases "loop_clients fuel fs file_size net s bs (heap, w)")
    case (Some r)
    with Cons show ?thesis by (cases r) (auto simp: waiting_def)
  qed (auto simp: waiting_def)
qed

lemma waiting_other: "waiting heap b \<Longrightarrow> b \<noteq> a \<Longrightarrow> waiting (heap[a := x]) b"
  by (auto simp: waiting_def heap_get_def arr_get_def split: option.splits if_splits)

lemma dispatch_ready:
  assumes "client_vect s = as @ a # bs" "a \<notin> set bs" "list_all (waiting (client_heap s)) (as @ bs)"
    and "heap_get (client_heap s) (Some a) = Inr cl"
    and "request_ready (conn_client (tc_conn cl))" "handle_body (tc_conn cl) = Inr h"
    and "conn_client h = c" "http_method c = Some mth" "mth \<noteq> INVALID"
    and "(case sm_find (paths s) (mth, req_path c) of
            Some callback \<Rightarrow> callback (c, w) = Some (Inr (c', w'))
          | None \<Rightarrow>
              mth = GET \<and> try_static fuel fs file_size net s (req_path c) (c, w) = Some (Inr (True, c', w')) \<or>
              (mth = POST \<or> \<not> static_enabled s) \<and> not_found fuel net (c, w) = Some (c', w'))"
  shows "http_loop fuel fs file_size net (s, w) =
    Some (Inr (s\<lparr>client_vect := as @ bs,
      client_heap := (client_heap s)[a := Some (cl\<lparr>tc_conn := h\<lparr>conn_client := c'\<rparr>\<rparr>)]\<rparr>, w'))"
proof -
  have "handle_request fuel fs file_size net s (tc_conn cl, w) = Some (Inr (h\<lparr>conn_client := c'\<rparr>, w'))"
  proof (cases "sm_find (paths s) (mth, req_path c)")
    case None
    then show ?thesis using assms(6-10)
      by (cases mth) (auto simp: handle_request_def try_static_def Let_def)
  next
    case (Some callback)
    with assms(6-10) show ?thesis by (simp add: handle_request_def Let_def)
  qed
  moreover have "list_all (waiting ((client_heap s)[a := x])) bs" for x
    unfolding list_all_iff
  proof
    fix b assume b: "b \<in> set bs"
    then have "waiting (client_heap s) b" "b \<noteq> a" using assms(2,3) by (auto simp: list_all_iff)
    then show "waiting ((client_heap s)[a := x]) b" by (rule waiting_other)
  qed
  ultimately have "loop_clients fuel fs file_size net s (a # bs) (client_heap s, w) =
      Some (Inr (bs, (client_heap s)[a := Some (cl\<lparr>tc_conn := h\<lparr>conn_client := c'\<rparr>\<rparr>)], w'))"
    using assms(4,5) by (simp add: loop_clients_waiting)
  moreover have "list_all (waiting (client_heap s)) as" using assms(3) by simp
  ultimately show ?thesis
    using loop_clients_append [of "client_heap s" as fuel fs file_size net s "a # bs" w] assms(1)
    by (simp add: http_loop_def)
qed

text \<open>A request that is ready is handled once, by the right handler: one round of the server's
  loop gives it to the callback registered for its method and path; without one, a GET that
  names a static file gets the file and a request with nothing to serve it gets a 404. The
  client leaves the list, the clients still waiting for their requests stay in it, in
  order and unchanged.\<close>

theorem ready_request_is_dispatched:
  assumes "client_vect s = as @ a # bs" "a \<notin> set bs" "list_all (waiting (client_heap s)) (as @ bs)"
    and "heap_get (client_heap s) (Some a) = Inr cl"
    and "request_ready (conn_client (tc_conn cl))" "handle_body (tc_conn cl) = Inr h"
    and "conn_client h = c" "http_method c = Some mth" "mth \<noteq> INVALID"
    and "(case sm_find (paths s) (mth, req_path c) of
            Some callback \<Rightarrow> callback (c, w) = Some (Inr (c', w'))
          | None \<Rightarrow>
              mth = GET \<and> try_static fuel fs file_size net s (req_path c) (c, w) = Some (Inr (True, c', w')) \<or>
              (mth = POST \<or> \<not> static_enabled s) \<and> not_found fuel net (c, w) = Some (c', w'))"
  shows "http_loop fuel fs file_size net (s, w) =
    Some (Inr (s\<lparr>client_vect := as @ bs,
      client_heap := (client_heap s)[a := Some (cl\<lparr>tc_conn := h\<lparr>conn_client := c'\<rparr>\<rparr>)]\<rparr>, w'))"
  by (rule dispatch_ready [OF assms])

text \<open>A server with one connection whose request has arrived, and one that waits.\<close>

definition sample_conn :: "Method \<Rightarrow> string \<Rightarrow> http_conn" where
  "sample_conn mth path =
     \<lparr>conn_client = new_http_client\<lparr>request_ready := True, first_line := False, http_method := Some mth,
        req_path := path\<rparr>, conn_buf = cb_new (replicate 1152 NUL) 1024 128\<rparr>"

definition sample_server :: "Method \<Rightarrow> string \<Rightarrow> string http_server" where
  "sample_server mth path =
     \<lparr>paths = [((GET, ''/list''), \<lambda>(c, w). map_option Inr (response_ok 9 log_net ''[]'' (c, w)))],
      server_pcb = Some 1, static_enabled = False, fs_path = ''/http'', client_vect = [0, 1],
      client_heap = [Some (new_tcp_client (replicate 1152 NUL) 5),
        Some \<lparr>tc_conn = sample_conn mth path, tc_sent = 0, tc_pcb = 6\<rparr>]\<rparr>"

definition null_lfs :: "'w lfs" where
  "null_lfs = \<lparr>lfs_file_open = \<lambda>p m w. (-2, w), lfs_file_read = \<lambda>n w. (-9, [], w),
     lfs_file_write = \<lambda>d w. (-9, w), lfs_file_close = \<lambda>w. (0, w)\<rparr>"

theorem ready_request_is_dispatched_witness:
  "\<exists>c' w'. response_ok 9 log_net ''[]'' (conn_client (sample_conn GET ''/list''), []) = Some (c', w') \<and>
     http_loop 9 null_lfs (\<lambda>_. 0) log_net (sample_server GET ''/list'', []) =
       Some (Inr ((sample_server GET ''/list'')\<lparr>client_vect := [0],
         client_heap := (client_heap (sample_server GET ''/list''))[1 :=
           Some \<lparr>tc_conn = (sample_conn GET ''/list'')\<lparr>conn_client := c'\<rparr>, tc_sent = 0, tc_pcb = 6\<rparr>]\<rparr>, w'))"
proof -
  let ?s = "sample_server GET ''/list''" and ?h = "sample_conn GET ''/list''"
  let ?cl = "\<lparr>tc_conn = ?h, tc_sent = 0, tc_pcb = 6\<rparr>"
  from respond_sends [OF log_net_takes, of 9 "''[]''" 200 "''OK''" "conn_client ?h" "[]"] snd_buf_le [of 2] obtain c' w' where
    r: "response_ok 9 log_net ''[]'' (conn_client ?h, []) = Some (c', w')" by (auto simp: response_ok_def)
  have "http_loop 9 null_lfs (\<lambda>_. 0) log_net (?s, []) =
      Some (Inr (?s\<lparr>client_vect := [0] @ [],
        client_heap := (client_heap ?s)[1 := Some (?cl\<lparr>tc_conn := ?h\<lparr>conn_client := c'\<rparr>\<rparr>)]\<rparr>, w'))"
  proof (rule ready_request_is_dispatched)
    show "list_all (waiting (client_heap ?s)) ([0] @ [])"
      by (simp add: waiting_def sample_server_def heap_get_def arr_get_def new_tcp_client_def new_http_client_def)
    show "heap_get (client_heap ?s) (Some 1) = Inr ?cl"
      by (simp add: sample_server_def heap_get_def arr_get_def)
    show "handle_body (tc_conn ?cl) = Inr ?h"
      by (simp add: handle_body_def sample_conn_def new_http_client_def has_req_header_def sm_count_def Let_def)
    show "case sm_find (paths ?s) (GET, req_path (conn_client ?h)) of
        Some callback \<Rightarrow> callback (conn_client ?h, []) = Some (Inr (c', w'))
      | None \<Rightarrow> GET = GET \<and> try_static 9 null_lfs (\<lambda>_. 0) log_net ?s (req_path (conn_client ?h)) (conn_client ?h, []) =
            Some (Inr (True, c', w')) \<or>
          (GET = POST \<or> \<not> static_enabled ?s) \<and> not_found 9 log_net (conn_client ?h, []) = Some (c', w')"
      using r by (simp add: sample_server_def sample_conn_def)
  qed (simp_all add: sample_server_def sample_conn_def)
  with r show ?thesis by auto
qed

text \<open>C32. A static file is served complete: a GET for a file of the file system, without NUL bytes,
  is answered with 200, its type after its extension, its size as \<open>Content-Length\<close> and its
  content, read in pieces of 127 bytes, and the file is closed again. The path is not \<open>/\<close> (which stands
  for \<open>/index.html\<close>) and the name with its directory has less than 128 characters, so that it is not cut;
  the disk works, and lwIP accepts what is written.\<close>

theorem static_file_is_served:
  assumes "lfs_reliable fs view" "net_takes net txt" "separate_worlds fs net view txt"
    and "static_enabled s" "path \<noteq> ''/''" "length (fs_path s @ path) < BUFSZ"
    and "view w = (files, None)" "files (fs_path s @ path) = Some content" "NUL \<notin> set content"
    and "\<And>w'. view w' = (files, Some (fs_path s @ path, 0)) \<Longrightarrow> file_size w' = int (length content)"
    and "length content div 127 < fuel"
  shows "\<exists>c' w'. try_static fuel fs file_size net s path (c, w) = Some (Inr (True, c', w')) \<and>
     (\<exists>hs. txt w' = txt w @ response_head 200 ''OK'' hs @ content \<and>
        (sm_ok (response_headers c) \<longrightarrow>
           sm_find hs ''Content-Type'' = Some (content_type_for (fs_path s @ path)) \<and>
           sm_find hs ''Content-Length'' = Some (to_string (int (length content))))) \<and>
     view w' = (files, None) \<and> should_send c' = should_send c + int (length (txt w')) - int (length (txt w))"
proof -
  let ?p = "fs_path s @ path"
  have buf: "snprintf BUFSZ ?p = ?p" using assms(6) by (simp add: snprintf_def)
  from lfs_reliable_open(1) [OF assms(1,7,8)] obtain r w1 where
    o: "lfs_file_open fs ?p RDONLY w = (r, w1)" "0 \<le> r" "view w1 = (files, Some (?p, 0))" by blast
  have t1: "txt w1 = txt w" using assms(3) o(1) unfolding separate_worlds_def by (metis snd_conv)
  let ?c = "set_content_length (int (length content)) (set_content_type (content_type_for ?p) c)"
  let ?hs = "sm_put ''Access-Control-Allow-Origin'' ''*'' (response_headers ?c)"
  let ?head = "response_head 200 ''OK'' ?hs"
  let ?c2 = "?c\<lparr>response_headers := ?hs, should_send := should_send ?c + int (length ?head)\<rparr>"
  have "0 < fuel" using assms(11) by simp
  from response_begin_sends [OF net_takes_serves [OF assms(2) this] order_refl, of 200 "''OK''" ?c w1] obtain w2 where
    b: "response_begin fuel net 200 ''OK'' (?c, w1) = Some (?c2, w2)" "txt w2 = txt w1 @ ?head" by blast
  have "view w2 = (files, Some (?p, 0))"
    using response_begin_keeps [OF assms(2) _ b(1), of view] assms(3) o(3) by (simp add: separate_worlds_def)
  from static_loop_sends [OF assms(1-3,8,9) this, of fuel ?c2] assms(11) obtain w3 where
    l: "static_loop fuel fs net (?c2, w2) =
        Some (Inr (True, ?c2\<lparr>should_send := should_send ?c2 + int (length content)\<rparr>, w3))"
      "txt w3 = txt w2 @ content" "view w3 = (files, None)" by auto
  have "try_static fuel fs file_size net s path (c, w) =
      Some (Inr (True, ?c2\<lparr>should_send := should_send ?c2 + int (length content)\<rparr>, w3))"
    using assms(4,5) o b(1) l(1) assms(10) [OF o(3)] buf by (simp add: try_static_def Let_def)
  moreover have tx: "txt w3 = txt w @ ?head @ content" using l(2) b(2) t1 by simp
  moreover have "sm_ok (response_headers c) \<longrightarrow>
      sm_find ?hs ''Content-Type'' = Some (content_type_for ?p) \<and>
      sm_find ?hs ''Content-Length'' = Some (to_string (int (length content)))"
    by (simp add: set_content_length_def set_content_type_def set_header_def smap.ok_put smap.find_put)
  moreover have "should_send (?c2\<lparr>should_send := should_send ?c2 + int (length content)\<rparr>) =
      should_send c + int (length (txt w3)) - int (length (txt w))"
    unfolding tx by (simp add: set_content_length_def set_content_type_def set_header_def)
  ultimately show ?thesis using l(3) by blast
qed

text \<open>A world of a file system in memory and the text sent.\<close>

definition both_fs :: "(ram_world \<times> string) lfs" where
  "both_fs =
     \<lparr>lfs_file_open = \<lambda>p m (w, t). (let (r, w') = lfs_file_open ram_fs p m w in (r, w', t)),
      lfs_file_read = \<lambda>n (w, t). (let (r, d, w') = lfs_file_read ram_fs n w in (r, d, w', t)),
      lfs_file_write = \<lambda>d (w, t). (let (r, w') = lfs_file_write ram_fs d w in (r, w', t)),
      lfs_file_close = \<lambda>(w, t). (let (r, w') = lfs_file_close ram_fs w in (r, w', t))\<rparr>"

definition both_net :: "(ram_world \<times> string) net" where
  "both_net = \<lparr>tcp_write = \<lambda>str (w, t). (ERR_OK, w, t @ str), read_sent = \<lambda>(w, t). (int (length t), w, t)\<rparr>"

definition both_view :: "ram_world \<times> string \<Rightarrow> lfs_view" where
  "both_view = (\<lambda>(w, t). ram_view w)"

lemma both_ok:
  "lfs_reliable both_fs both_view" "net_takes both_net snd" "separate_worlds both_fs both_net both_view snd"
proof -
  show "lfs_reliable both_fs both_view"
    unfolding lfs_reliable_def lfs_opens_def lfs_reads_def lfs_writes_def lfs_closes_def
    by (auto simp: both_fs_def both_view_def ram_fs_def ram_view_def ram_content_def Let_def min_def)
  show "net_takes both_net snd" by (auto simp: net_takes_def both_net_def)
  show "separate_worlds both_fs both_net both_view snd"
    by (auto simp: separate_worlds_def both_fs_def both_net_def both_view_def split: prod.splits)
qed

definition static_server :: "'w http_server" where
  "static_server = static_content ''/http'' \<lparr>paths = [], server_pcb = Some 1, static_enabled = False,
     fs_path = [], client_vect = [], client_heap = []\<rparr>"

theorem static_file_is_served_witness:
  "\<exists>c' w'. try_static 3 both_fs (\<lambda>_. 2) both_net static_server ''/a.css''
       (new_http_client, ([(''/http/a.css'', ''b{'')], None), []) = Some (Inr (True, c', w')) \<and>
     (\<exists>hs. snd w' = response_head 200 ''OK'' hs @ ''b{'' \<and>
        sm_find hs ''Content-Type'' = Some MIME_CSS \<and> sm_find hs ''Content-Length'' = Some ''2'')"
proof -
  let ?w = "(([(''/http/a.css'', ''b{'')], None), []) :: ram_world \<times> string"
  let ?s = "static_server :: (ram_world \<times> string) http_server"
  have srv: "static_enabled ?s" "fs_path ?s = ''/http''"
    by (simp_all add: static_server_def static_content_def)
  have v: "both_view ?w = ([''/http/a.css'' \<mapsto> ''b{''], None)" by (simp add: both_view_def ram_view_def)
  have t: "content_type_for ''/http/a.css'' = MIME_CSS" by code_simp
  have n: "to_string 2 = ''2''" by code_simp
  have ok: "sm_ok (response_headers new_http_client)" by (simp add: new_http_client_def sm_ok_def)
  have path: "fs_path ?s @ ''/a.css'' = ''/http/a.css''" by (simp add: srv(2))
  have p: "''/a.css'' \<noteq> ''/''" "length (fs_path ?s @ ''/a.css'') < BUFSZ"
    "[''/http/a.css'' \<mapsto> ''b{''] (fs_path ?s @ ''/a.css'') = Some ''b{''" "NUL \<notin> set ''b{''"
    by (simp_all add: srv(2) BUFSZ_def)
  have "\<exists>c' w'. try_static 3 both_fs (\<lambda>_. 2) both_net ?s ''/a.css'' (new_http_client, ?w) = Some (Inr (True, c', w')) \<and>
     (\<exists>hs. snd w' = snd ?w @ response_head 200 ''OK'' hs @ ''b{'' \<and>
        (sm_ok (response_headers new_http_client) \<longrightarrow>
           sm_find hs ''Content-Type'' = Some (content_type_for (fs_path ?s @ ''/a.css'')) \<and>
           sm_find hs ''Content-Length'' = Some (to_string (int (length ''b{''))))) \<and>
     both_view w' = ([''/http/a.css'' \<mapsto> ''b{''], None) \<and>
     should_send c' = should_send new_http_client + int (length (snd w')) - int (length (snd ?w))"
    by (rule static_file_is_served [OF both_ok srv(1) p(1,2) v p(3,4)]) simp_all
  then obtain c' w' hs where
    r: "try_static 3 both_fs (\<lambda>_. 2) both_net ?s ''/a.css'' (new_http_client, ?w) = Some (Inr (True, c', w'))"
      "snd w' = snd ?w @ response_head 200 ''OK'' hs @ ''b{''"
      "sm_find hs ''Content-Type'' = Some (content_type_for ''/http/a.css'')"
      "sm_find hs ''Content-Length'' = Some (to_string (int (length ''b{'')))"
    unfolding path using ok by blast
  have "int (length ''b{'') = 2" by simp
  with r(3,4) t n have "sm_find hs ''Content-Type'' = Some MIME_CSS" "sm_find hs ''Content-Length'' = Some ''2''"
    by (simp_all only:)
  moreover have "snd w' = response_head 200 ''OK'' hs @ ''b{''" using r(2) by (simp only: snd_conv append_Nil)
  ultimately show ?thesis using r(1) by blast
qed

text \<open>C33. A connection that is closed early brings the server down: when the peer closes a
  connection before its request is complete, the client object is freed but its address stays in
  the list, and the next round of the loop uses it.\<close>

theorem closed_connection_dangles:
  assumes "list_all (waiting (client_heap s)) (client_vect s)"
  shows "\<exists>a s1 calls heap. tcp_server_accept mem (Some pcb) 0 s = (0, [TcpArg pcb (Some a), TcpCallbacks pcb], s1) \<and>
     tcp_client_recv fuel ans (Some a) pcb None err (client_heap s1) = Some (Inr (ERR_ABRT, calls, heap)) \<and>
     http_loop fuel fs file_size net (s1\<lparr>client_heap := heap\<rparr>, w) = Some (Inl UseAfterFree)"
proof -
  let ?a = "length (client_heap s)"
  let ?cl = "new_tcp_client mem pcb"
  let ?s1 = "s\<lparr>client_heap := client_heap s @ [Some ?cl], client_vect := client_vect s @ [?a]\<rparr>"
  let ?heap = "client_heap s @ [None]"
  have acc: "tcp_server_accept mem (Some pcb) 0 s = (0, [TcpArg pcb (Some ?a), TcpCallbacks pcb], ?s1)"
    by (simp add: tcp_server_accept_def heap_new_def new_client_def Let_def)
  obtain e cs where close: "client_close ans ?cl = (e, cs)" by (cases "client_close ans ?cl")
  have recv: "tcp_client_recv fuel ans (Some ?a) pcb None err (client_heap ?s1) =
      Some (Inr (ERR_ABRT, TcpArg pcb None # cs, ?heap))"
    by (simp add: tcp_client_recv_def tcp_close_client_connection_def heap_get_def arr_get_def heap_delete_def close Let_def)
  have "waiting ?heap b" if "waiting (client_heap s) b" for b
    using that by (auto simp: waiting_def heap_get_def arr_get_def nth_append split: if_splits option.splits)
  then have wt: "list_all (waiting ?heap) (client_vect s)" using assms by (auto simp: list_all_iff)
  have "heap_get ?heap (Some ?a) = Inl UseAfterFree" by (simp add: heap_get_def arr_get_def)
  then have "http_loop fuel fs file_size net (?s1\<lparr>client_heap := ?heap\<rparr>, w) = Some (Inl UseAfterFree)"
    using loop_clients_append [OF wt, of fuel fs file_size net "?s1\<lparr>client_heap := ?heap\<rparr>" "[?a]" w]
    by (simp add: http_loop_def)
  with acc recv show ?thesis by blast
qed

theorem closed_connection_dangles_witness:
  "\<exists>a s1 calls heap. tcp_server_accept (replicate 1152 NUL) (Some 5) 0 static_server =
       (0, [TcpArg 5 (Some a), TcpCallbacks 5], s1) \<and>
     tcp_client_recv 9 \<lparr>tcp_new_answer = None, tcp_bind_answer = 0, tcp_listen_answer = None, tcp_close_answer = 0\<rparr>
       (Some a) 5 None 0 (client_heap s1) = Some (Inr (ERR_ABRT, calls, heap)) \<and>
     http_loop 9 null_lfs (\<lambda>_. 0) log_net (s1\<lparr>client_heap := heap\<rparr>, []) = Some (Inl UseAfterFree)"
  by (rule closed_connection_dangles) (simp add: static_server_def static_content_def)

text \<open>An acknowledgement of everything sent so far frees the client, even in the middle of its
  response, whose pieces are counted as they are sent.\<close>

lemma ack_so_far_frees_client:
  assumes "heap_get heap (Some a) = Inr cl" "tc_sent cl + uint len = should_send (conn_client (tc_conn cl))"
  shows "\<exists>calls. tcp_server_sent ans (Some a) pcb len heap = Inr (0, calls, heap[a := None])"
proof -
  have a: "a < length heap" using assms(1) by (auto simp: heap_get_def arr_get_def split: if_splits)
  let ?cl = "send_ack (uint len) cl"
  have g: "heap_get (heap[a := Some ?cl]) (Some a) = Inr ?cl" using a by (simp add: heap_get_def arr_get_def)
  have f: "send_finished ?cl" using assms(2) by (simp add: send_finished_def send_ack_def)
  show ?thesis
    using assms(1) g f
    by (cases "client_close ans ?cl")
      (simp add: tcp_server_sent_def heap_update_def tcp_close_client_connection_def heap_delete_def Let_def)
qed

text \<open>A header of 128 characters overflows the parser: whatever the connection has received
  before, a header line whose value does not fit into the 127 characters of \<open>val\<close> makes
  \<open>recv_line\<close> write behind the array.\<close>

theorem long_header_overflows:
  assumes "flat (conn_buf h) n r (name @ '': '' @ val @ CRLF @ rest)" "\<not> first_line (conn_client h)"
    and "plain {CHR '':''} name" "length name < 128" "plain {} val" "128 \<le> length val"
  shows "recv_line fuel h = Some (Inl OutOfBounds)"
proof -
  let ?tail = "val @ CR # LF # rest"
  from flat_from [OF assms(1)] obtain junk where
    m: "cb_from (conn_buf h) = Inr (name @ CHR '':'' # CHR '' '' # ?tail @ junk)" by (auto simp: CRLF_chars)
  have n: "CHR '':'' \<notin> set name" "NUL \<notin> set name" "CR \<notin> set name" "CR \<notin> set val" "NUL \<notin> set val"
    using assms(3,5) by (auto simp: plain_def)
  obtain x xs where x: "name @ CHR '':'' # CHR '' '' # ?tail @ junk = x # xs" "x \<noteq> CR"
    using n(3) by (cases name) auto
  have sep: "strchr (name @ CHR '':'' # CHR '' '' # ?tail @ junk) CHR '':'' = Inr (Some (length name))"
    using n by (intro strchr_found) auto
  have sp: "arr_get (name @ CHR '':'' # CHR '' '' # ?tail @ junk) (Suc (length name)) = Inr CHR '' ''"
    by (simp add: arr_get_def nth_append)
  have d: "drop (Suc (Suc (length name))) (name @ CHR '':'' # CHR '' '' # ?tail @ junk) = val @ CR # LF # rest @ junk" by simp
  have e: "strchr (val @ CR # LF # rest @ junk) CR = Inr (Some (length val))"
    using n by (intro strchr_found) auto
  have c: "copy_token (name @ CHR '':'' # CHR '' '' # ?tail @ junk) (length name) = Inr name"
    "copy_token (val @ CR # LF # rest @ junk) (length val) = Inl OutOfBounds"
    using assms(4,6) by (simp_all add: copy_token_def TOKEN_SIZE_def)
  have "parse_header (name @ CHR '':'' # CHR '' '' # ?tail @ junk) hs = Inl OutOfBounds" for hs
    unfolding parse_header_def x(1) list.case using x(2)
    unfolding x(1) [symmetric] by (simp add: sep sp c d e Let_def del: drop_append append_assoc)
  moreover have "\<not> data_left_continuous (conn_buf h) < 2"
    by (rule flat_at_least_two [OF assms(1)]) simp
  ultimately show ?thesis
    using assms(2) by (simp add: recv_line_def Let_def recv_header_line_def m)
qed

theorem long_header_overflows_witness:
  "\<exists>h. recv_data (''Cookie: '' @ replicate 128 CHR ''x'' @ CRLF)
       \<lparr>conn_client = new_http_client\<lparr>first_line := False\<rparr>, conn_buf = cb_new (replicate 1152 NUL) 1024 128\<rparr> = Inr h \<and>
     recv_line 200 h = Some (Inl OutOfBounds)"
proof -
  let ?t = "''Cookie'' @ '': '' @ replicate 128 CHR ''x'' @ CRLF"
  have fl: "flat (cb_new (replicate 1152 NUL) 1024 128) 1024 0 []"
    using flat_new [of 1024 "replicate 1152 NUL" 128] by simp
  from flat_write [OF fl, of ?t] obtain b where
    b: "cb_write ?t (int (length ?t)) (cb_new (replicate 1152 NUL) 1024 128) = Inr b" "flat b 1024 0 ?t"
    by (auto simp: CRLF_chars)
  let ?h = "\<lparr>conn_client = new_http_client\<lparr>first_line := False\<rparr>, conn_buf = b\<rparr>"
  have "recv_line 200 ?h = Some (Inl OutOfBounds)"
  proof (rule long_header_overflows)
    show "flat (conn_buf ?h) 1024 0 (''Cookie'' @ '': '' @ replicate 128 CHR ''x'' @ CRLF @ [])" using b(2) by simp
  qed (simp_all add: plain_def)
  moreover have "''Cookie: '' @ replicate 128 CHR ''x'' @ CRLF = ?t" by simp
  ultimately show ?thesis using b(1) unfolding recv_data_def by (intro exI [of _ ?h]) simp
qed

lemma packets_parsed:
  assumes "concat ps = request_line mth path args @ concat (map plain_header hs) @ CRLF"
    and "length (concat ps) < 1024" "length mem = 1024 + 128" "1024 < fuel"
    and "mth \<noteq> INVALID" "path_ok path" "list_all arg_ok args" "list_all header_ok hs"
  shows "\<exists>lens h'. recv_packets fuel pcb ps (tc_conn (new_tcp_client mem pcb)) =
       Some (Inr (map (TcpRecved pcb) lens, h')) \<and> sum_list lens = int (length (concat ps)) \<and>
     request_ready (conn_client h') \<and> http_method (conn_client h') = Some mth \<and>
     req_path (conn_client h') = path \<and>
     sm_find (request_params (conn_client h')) = map_of (rev args) \<and>
     sm_find (request_headers (conn_client h')) = map_of (rev hs) \<and>
     data_left (conn_buf h') = 0"
proof -
  let ?h = "tc_conn (new_tcp_client mem pcb)"
  let ?ls = "Request mth path args # map (\<lambda>(k, v). Header k v) hs @ [Blank]"
  let ?lens = "map (\<lambda>l. int (length (line_text l))) ?ls"
  have fl: "flat (conn_buf ?h) 1024 0 []"
    using flat_new [of 1024 mem 128] assms(3) by (simp add: new_tcp_client_def)
  have "(\<lambda>e. line_text (case e of (k, v) \<Rightarrow> Header k v)) = plain_header" by auto
  then have st: "stream ?ls = concat ps" unfolding assms(1) by (simp add: stream_def comp_def)
  have "first_line (conn_client ?h)" by (simp add: new_tcp_client_def new_http_client_def)
  then have ok: "lines_ok (conn_client ?h) ?ls"
    using assms(5-8) by (auto simp: lines_ok_def list_all_iff)
  from recv_packets_ok [OF fl _ _ ok, of ps fuel pcb] st assms(2,4) obtain h' r' where
    h': "recv_packets fuel pcb ps ?h = Some (Inr (line_acks pcb ?ls, h'))"
      "conn_client h' = fold take_line ?ls (conn_client ?h)" "flat (conn_buf h') 1024 r' []" by auto
  have calls: "line_acks pcb ?ls = map (TcpRecved pcb) ?lens" by (simp add: line_acks_def)
  have "sum_list (map (\<lambda>l. int (length (line_text l))) ls) = int (length (stream ls))" for ls
    by (induction ls) (simp_all add: stream_def)
  then have sum: "sum_list ?lens = int (length (concat ps))" unfolding st [symmetric] .
  have c: "conn_client h' = new_http_client\<lparr>first_line := False, http_method := Some mth, req_path := path,
      request_params := put_all args [], request_headers := put_all hs [], request_ready := True\<rparr>"
    unfolding h'(2) by (simp add: take_headers new_tcp_client_def new_http_client_def)
  have "sm_ok ([] :: (string, string) std_map)" by (simp add: sm_ok_def)
  then have f: "sm_find (put_all es []) = map_of (rev es)" for es :: "(string \<times> string) list"
    by (auto simp: find_put_all split: option.split)
  have "data_left (conn_buf h') = 0" using h'(3) by (simp add: flat_def data_left_def)
  moreover have "recv_packets fuel pcb ps ?h = Some (Inr (map (TcpRecved pcb) ?lens, h'))"
    using h'(1) unfolding calls .
  moreover have "request_ready (conn_client h')" "http_method (conn_client h') = Some mth"
    "req_path (conn_client h') = path" "request_params (conn_client h') = put_all args []"
    "request_headers (conn_client h') = put_all hs []" by (simp_all add: c)
  ultimately show ?thesis using sum f by metis
qed

text \<open>C7. However TCP cuts it into packets, a request whose parts fit the server's arrays is understood the
  same way: after the last packet the client is ready, with the method and the path of the request line, each
  query parameter and each header under its name (the last one wins), and lwIP has been told that
  exactly the bytes of the request were consumed. The parts fit if the request has at most 1023 bytes
  and every name and value of a parameter or header less than 128 characters; the
  method is GET or POST, and no part contains a character that ends it (NUL, CR, LF, a separator). A
  value of 128 characters is written behind its array (\<open>long_header_overflows\<close>), which the headers
  of a browser can have.\<close>

theorem request_is_parsed:
  assumes "concat ps = request_line mth path args @ concat (map plain_header hs) @ CRLF"
    and "length (concat ps) < 1024" "length mem = 1024 + 128" "1024 < fuel"
    and "mth \<noteq> INVALID" "path_ok path" "list_all arg_ok args" "list_all header_ok hs"
  shows "\<exists>lens h'. recv_packets fuel pcb ps (tc_conn (new_tcp_client mem pcb)) =
       Some (Inr (map (TcpRecved pcb) lens, h')) \<and> sum_list lens = int (length (concat ps)) \<and>
     request_ready (conn_client h') \<and> http_method (conn_client h') = Some mth \<and>
     req_path (conn_client h') = path \<and>
     sm_find (request_params (conn_client h')) = map_of (rev args) \<and>
     sm_find (request_headers (conn_client h')) = map_of (rev hs) \<and>
     data_left (conn_buf h') = 0"
  by (rule packets_parsed [OF assms])

theorem request_is_parsed_witness:
  "\<exists>lens h'. recv_packets 1025 3 [''GET /fl'', ''ash?id=7&time=12 HTTP/1.1'' @ [CR],
       [LF] @ ''Host: pager'' @ CRLF @ [CR], [LF]] (tc_conn (new_tcp_client (replicate 1152 NUL) 3)) =
     Some (Inr (map (TcpRecved 3) lens, h')) \<and>
     request_ready (conn_client h') \<and> req_path (conn_client h') = ''/flash'' \<and>
     sm_find (request_params (conn_client h')) ''time'' = Some ''12''"
proof -
  let ?ps = "[''GET /fl'', ''ash?id=7&time=12 HTTP/1.1'' @ [CR], [LF] @ ''Host: pager'' @ CRLF @ [CR], [LF]]"
  let ?args = "[(''id'', ''7''), (''time'', ''12'')]"
  have t: "concat ?ps = request_line GET ''/flash'' ?args @ concat (map plain_header [(''Host'', ''pager'')]) @ CRLF"
    by (simp add: request_line_def method_text_def target_text_def plain_header_def CRLF_chars)
  have "path_ok ''/flash''" "list_all arg_ok ?args" "list_all header_ok [(''Host'', ''pager'')]"
    by (simp_all add: path_ok_def arg_ok_def header_ok_def plain_def TOKEN_SIZE_def REQ_PATH_SIZE_def)
  from request_is_parsed [OF t _ _ _ _ this, of "replicate 1152 NUL" 1025 3] show ?thesis
    by (auto simp: CRLF_chars)
qed

end
