(* ===== verification/Json_Pool.thy ===== *)
theory Json_Pool
  imports Pager_Prelude
begin

text \<open>
  \<open>src/pagers-server/json/ArduinoJson.h\<close>: \<open>MemoryPool\<close>, the string storage policies and
  \<open>StringCopier\<close>.

  A document lives in one buffer. Strings are appended from its left end, each with a NUL behind it
  (\<open>mp_strings\<close> holds the bytes between \<open>_begin\<close> and \<open>_left\<close>), and slots
  are taken from its right end (\<open>mp_right\<close> counts the bytes between \<open>_right\<close> and
  \<open>_end\<close>). An address is an offset from \<open>_begin\<close>; the null pointer is \<open>None\<close>.
  On the RP2040 a \<open>VariantSlot\<close> takes 16 bytes (8 of content, the flags, a 16-bit offset and a
  pointer).
\<close>

section \<open>The pool\<close>

record memory_pool =
  mp_strings :: string
  mp_right :: nat
  mp_capacity :: nat
  mp_overflowed :: bool

definition new_pool :: "nat \<Rightarrow> memory_pool" where
  "new_pool capa = \<lparr>mp_strings = [], mp_right = 0, mp_capacity = capa, mp_overflowed = False\<rparr>"

definition pool_size :: "memory_pool \<Rightarrow> nat" where
  "pool_size p = length (mp_strings p) + mp_right p"

definition pool_clear :: "memory_pool \<Rightarrow> memory_pool" where
  "pool_clear p = p\<lparr>mp_strings := [], mp_right := 0, mp_overflowed := False\<rparr>"

definition mark_as_overflowed :: "memory_pool \<Rightarrow> memory_pool" where
  "mark_as_overflowed p = p\<lparr>mp_overflowed := True\<rparr>"

definition can_alloc :: "memory_pool \<Rightarrow> nat \<Rightarrow> bool" where
  "can_alloc p n \<longleftrightarrow> length (mp_strings p) + n \<le> mp_capacity p - mp_right p"

definition alloc_right :: "nat \<Rightarrow> memory_pool \<Rightarrow> bool \<times> memory_pool" where
  "alloc_right n p =
     (if \<not> can_alloc p n then (False, mark_as_overflowed p)
      else (True, p\<lparr>mp_right := mp_right p + n\<rparr>))"

definition SLOT_SIZE :: nat where "SLOT_SIZE = 16"

definition alloc_variant :: "memory_pool \<Rightarrow> bool \<times> memory_pool" where
  "alloc_variant = alloc_right SLOT_SIZE"

text \<open>\<open>allocString(n + 1)\<close>, with the copy and the terminator \<open>saveString\<close> writes there.\<close>

definition alloc_string :: "string \<Rightarrow> memory_pool \<Rightarrow> nat option \<times> memory_pool" where
  "alloc_string str p =
     (if \<not> can_alloc p (length str + 1) then (None, mark_as_overflowed p)
      else (Some (length (mp_strings p)), p\<lparr>mp_strings := mp_strings p @ str @ [NUL]\<rparr>))"

text \<open>\<open>findString\<close> from the address \<open>next\<close>, with the bytes between there and \<open>_left\<close>.\<close>

function find_string :: "string \<Rightarrow> nat \<Rightarrow> string \<Rightarrow> nat option" where
  "find_string str next zone =
     (if \<not> length str < length zone then None
      else if zone ! length str = NUL \<and> take (length str) zone = str then Some next
      else let skip = length (takeWhile (\<lambda>c. c \<noteq> NUL) zone)
           in find_string str (next + skip + 1) (drop (skip + 1) zone))"
  by pat_completeness auto
termination
  by (relation "measure (\<lambda>(_, _, zone). length zone)") auto

declare find_string.simps [simp del]

definition save_string :: "string option \<Rightarrow> memory_pool \<Rightarrow> nat option \<times> memory_pool" where
  "save_string str p =
     (case str of
        None \<Rightarrow> (None, p)
      | Some s \<Rightarrow>
          (case find_string s 0 (mp_strings p) of
             Some existing \<Rightarrow> (Some existing, p)
           | None \<Rightarrow> alloc_string s p))"

text \<open>The room between \<open>_left\<close> and \<open>_right\<close>, and \<open>saveStringFromFreeZone\<close> of the
  characters \<open>str\<close> that were written there.\<close>

definition free_zone :: "memory_pool \<Rightarrow> nat" where
  "free_zone p = mp_capacity p - mp_right p - length (mp_strings p)"

definition save_string_from_free_zone :: "string \<Rightarrow> memory_pool \<Rightarrow> nat \<times> memory_pool" where
  "save_string_from_free_zone str p =
     (case find_string str 0 (mp_strings p) of
        Some dup \<Rightarrow> (dup, p)
      | None \<Rightarrow> (length (mp_strings p), p\<lparr>mp_strings := mp_strings p @ str @ [NUL]\<rparr>))"

section \<open>String storage\<close>

datatype storage = Linked | Copied

text \<open>A stored \<open>String\<close>: its ownership and its characters. What it points to is not kept: a
  saved string is never overwritten while its document lives (\<open>saved_string_stays\<close>).\<close>

type_synonym stored_string = "storage \<times> string"

definition store :: "storage \<Rightarrow> string option \<Rightarrow> memory_pool \<Rightarrow> stored_string option \<times> bool \<times> memory_pool" where
  "store policy str p =
     (case policy of
        Linked \<Rightarrow> (map_option (Pair Linked) str, str \<noteq> None, p)
      | Copied \<Rightarrow>
          (let (copy, p') = save_string str p
           in (if copy = None then None else map_option (Pair Copied) str, copy \<noteq> None, p')))"

text \<open>\<open>StringCopier\<close> builds a string in the free zone.\<close>

record string_copier =
  sc_buf :: string
  sc_capacity :: nat

definition start_string :: "memory_pool \<Rightarrow> string_copier \<times> memory_pool" where
  "start_string p =
     (\<lparr>sc_buf = [], sc_capacity = free_zone p\<rparr>,
      if free_zone p = 0 then mark_as_overflowed p else p)"

definition append_char :: "char \<Rightarrow> string_copier \<times> memory_pool \<Rightarrow> string_copier \<times> memory_pool" where
  "append_char c = (\<lambda>(sc, p).
     if length (sc_buf sc) + 1 < sc_capacity sc then (sc\<lparr>sc_buf := sc_buf sc @ [c]\<rparr>, p)
     else (sc, mark_as_overflowed p))"

definition save :: "string_copier \<Rightarrow> memory_pool \<Rightarrow> stored_string \<times> memory_pool" where
  "save sc p = ((Copied, sc_buf sc), snd (save_string_from_free_zone (sc_buf sc) p))"

definition is_valid :: "memory_pool \<Rightarrow> bool" where
  "is_valid p \<longleftrightarrow> \<not> mp_overflowed p"

section \<open>The pool is sound\<close>

text \<open>The two ends do not meet, and the string area is a row of terminated strings.\<close>

definition pool_ok :: "memory_pool \<Rightarrow> bool" where
  "pool_ok p \<longleftrightarrow> length (mp_strings p) + mp_right p \<le> mp_capacity p \<and>
     (mp_strings p = [] \<or> last (mp_strings p) = NUL)"

definition string_at :: "nat \<Rightarrow> string \<Rightarrow> memory_pool \<Rightarrow> bool" where
  "string_at off s p \<longleftrightarrow> take (length s + 1) (drop off (mp_strings p)) = s @ [NUL]"

text \<open>One pool follows from another by allocations: strings stay where they are.\<close>

definition pool_extends :: "memory_pool \<Rightarrow> memory_pool \<Rightarrow> bool" where
  "pool_extends p p' \<longleftrightarrow> mp_capacity p' = mp_capacity p \<and> mp_right p \<le> mp_right p' \<and>
     (\<exists>more. mp_strings p' = mp_strings p @ more) \<and> (mp_overflowed p \<longrightarrow> mp_overflowed p')"

named_theorems pool_simps "what the operations of the pool do to its parts"

lemma pool_extends_refl [simp]: "pool_extends p p"
  by (simp add: pool_extends_def)

lemma pool_extends_trans: "pool_extends p q \<Longrightarrow> pool_extends q r \<Longrightarrow> pool_extends p r"
  by (auto simp: pool_extends_def)

lemma string_at_extends: "string_at off s p \<Longrightarrow> pool_extends p p' \<Longrightarrow> string_at off s p'"
proof -
  assume a: "string_at off s p" and "pool_extends p p'"
  then obtain more where p': "mp_strings p' = mp_strings p @ more" by (auto simp: pool_extends_def)
  have "length s + 1 \<le> length (drop off (mp_strings p))"
    using arg_cong [OF a [unfolded string_at_def], of length] by simp
  with a p' show ?thesis by (simp add: string_at_def take_append)
qed

lemma mark_extends [simp]: "pool_extends p (mark_as_overflowed p)"
  by (simp add: pool_extends_def mark_as_overflowed_def)

lemma mark_ok [simp]: "pool_ok (mark_as_overflowed p) = pool_ok p"
  by (simp add: pool_ok_def mark_as_overflowed_def)

lemma mark_simps [pool_simps]:
  "mp_strings (mark_as_overflowed p) = mp_strings p"
  "mp_right (mark_as_overflowed p) = mp_right p"
  "mp_capacity (mark_as_overflowed p) = mp_capacity p"
  "mp_overflowed (mark_as_overflowed p)"
  by (simp_all add: mark_as_overflowed_def)

lemma new_pool_ok [simp]: "pool_ok (new_pool n)"
  by (simp add: pool_ok_def new_pool_def)

lemma pool_clear_ok: "pool_ok p \<Longrightarrow> pool_ok (pool_clear p)"
  by (simp add: pool_ok_def pool_clear_def)

lemma alloc_variant_ok:
  "alloc_variant p = (b, p') \<Longrightarrow> pool_ok p \<Longrightarrow> pool_ok p' \<and> pool_extends p p'"
  by (auto simp: alloc_variant_def alloc_right_def can_alloc_def pool_ok_def pool_extends_def
      mark_as_overflowed_def split: if_splits)

lemma alloc_variant_effect:
  "alloc_variant p = (True, p') \<Longrightarrow> p' = p\<lparr>mp_right := mp_right p + 16\<rparr>"
  "alloc_variant p = (False, p') \<Longrightarrow> p' = mark_as_overflowed p"
  by (auto simp: alloc_variant_def alloc_right_def SLOT_SIZE_def split: if_splits)

lemma alloc_string_ok:
  "alloc_string s p = (r, p') \<Longrightarrow> pool_ok p \<Longrightarrow> pool_ok p' \<and> pool_extends p p'"
  by (auto simp: alloc_string_def can_alloc_def pool_ok_def pool_extends_def
      mark_as_overflowed_def split: if_splits)

lemma find_string_sound:
  "find_string str next zone = Some off \<Longrightarrow>
     next \<le> off \<and> take (length str + 1) (drop (off - next) zone) = str @ [NUL]"
proof (induction str "next" zone rule: find_string.induct)
  case (1 str nxt zone)
  define skip where "skip = length (takeWhile (\<lambda>c. c \<noteq> NUL) zone)"
  show ?case
  proof (cases "length str < length zone \<and> \<not> (zone ! length str = NUL \<and> take (length str) zone = str)")
    case True
    then have "find_string str (nxt + skip + 1) (drop (skip + 1) zone) = Some off"
      using "1.prems" by (subst (asm) find_string.simps) (auto simp: skip_def Let_def)
    with 1(1) True have ih: "nxt + skip + 1 \<le> off"
      "take (length str + 1) (drop (off - (nxt + skip + 1)) (drop (skip + 1) zone)) = str @ [NUL]"
      by (auto simp: skip_def)
    have "off - (nxt + skip + 1) + (skip + 1) = off - nxt" using ih(1) by simp
    with ih show ?thesis by (simp add: drop_drop)
  next
    case False
    then show ?thesis using "1.prems"
      by (subst (asm) find_string.simps) (auto simp: take_Suc_conv_app_nth split: if_splits)
  qed
qed

text \<open>A row of strings without NULs: each of them is found.\<close>

lemma find_string_row:
  assumes "s \<in> set ss" "\<forall>x\<in>set ss. NUL \<notin> set x"
  shows "find_string s next (concat (map (\<lambda>x. x @ [NUL]) ss)) \<noteq> None"
  using assms
proof (induction ss arbitrary: "next")
  case (Cons x ss)
  let ?rest = "concat (map (\<lambda>x. x @ [NUL]) ss)"
  have x: "NUL \<notin> set x" "NUL \<notin> set s" using Cons.prems by auto
  have tw: "takeWhile (\<lambda>c. c \<noteq> NUL) (x @ NUL # ?rest) = x"
    using x(1) by (induction x) auto
  show ?case
  proof (cases "s = x")
    case True
    then show ?thesis by (subst find_string.simps) simp
  next
    case False
    then have s: "s \<in> set ss" using Cons.prems by simp
    have len: "length s < length (x @ NUL # ?rest)"
      using s by (induction ss) (auto simp: trans_less_add2)
    show ?thesis
      using Cons.IH [OF s, of "next + length x + 1"] Cons.prems len
      by (subst find_string.simps) (simp add: Let_def tw)
  qed
qed simp

lemma save_string_ok:
  "save_string str p = (r, p') \<Longrightarrow> pool_ok p \<Longrightarrow> pool_ok p' \<and> pool_extends p p'"
  by (auto simp: save_string_def split: option.splits dest: alloc_string_ok)

lemma save_string_at:
  assumes "save_string (Some s) p = (Some off, p')"
  shows "string_at off s p'"
proof (cases "find_string s 0 (mp_strings p)")
  case None
  with assms show ?thesis by (auto simp: save_string_def alloc_string_def string_at_def split: if_splits)
next
  case (Some a)
  with assms find_string_sound [OF Some] show ?thesis by (auto simp: save_string_def string_at_def)
qed

lemma save_from_zone_at:
  "save_string_from_free_zone s p = (off, p') \<Longrightarrow> string_at off s p'"
  using find_string_sound [of s 0 "mp_strings p"]
  by (auto simp: save_string_from_free_zone_def string_at_def split: option.splits)

lemma save_from_zone_ok:
  assumes "save_string_from_free_zone s p = (off, p')" "length s < free_zone p" "pool_ok p"
  shows "pool_ok p' \<and> pool_extends p p'"
  using assms
  by (auto simp: save_string_from_free_zone_def free_zone_def pool_ok_def pool_extends_def
      split: option.splits)

lemma saved_string_stays:
  "save_string (Some s) p = (Some off, p') \<Longrightarrow> pool_extends p' p'' \<Longrightarrow> string_at off s p''"
  by (rule string_at_extends [OF save_string_at])

lemma store_ok:
  "store pol str p = (r, b, p') \<Longrightarrow> pool_ok p \<Longrightarrow> pool_ok p' \<and> pool_extends p p'"
  by (auto simp: store_def split: storage.splits prod.splits dest: save_string_ok)

lemma store_flag: "store pol str p = (r, b, p') \<Longrightarrow> b = (r \<noteq> None)"
  by (auto simp: store_def save_string_def split: storage.splits prod.splits option.splits if_splits)

lemma store_Some: "store pol str p = (Some s, b, p') \<Longrightarrow> \<exists>t. s = (pol, t) \<and> str = Some t"
  by (auto simp: store_def save_string_def split: storage.splits prod.splits option.splits if_splits)

text \<open>The copier stays inside the room it was given.\<close>

definition copier_ok :: "string_copier \<Rightarrow> bool" where
  "copier_ok sc \<longleftrightarrow> sc_capacity sc = 0 \<and> sc_buf sc = [] \<or> length (sc_buf sc) < sc_capacity sc"

lemma start_string_ok: "start_string p = (sc, p') \<Longrightarrow> copier_ok sc \<and> sc_capacity sc = free_zone p'"
  by (auto simp: start_string_def copier_ok_def free_zone_def pool_simps)

lemma append_char_ok: "append_char c (sc, p) = (sc', p') \<Longrightarrow> copier_ok sc \<Longrightarrow> copier_ok sc'"
  by (auto simp: append_char_def copier_ok_def split: if_splits)

end
