(* ===== verification/Json_Value.thy ===== *)
theory Json_Value
  imports Json_Pool
begin

text \<open>
  \<open>ArduinoJson.h\<close>: \<open>VariantData\<close>, \<open>VariantSlot\<close> and \<open>CollectionData\<close>.

  A collection is the list of its slots from \<open>_head\<close> to \<open>_tail\<close>, a slot of an object its
  key (with the ownership flag) and its value. The slots themselves are counted in the pool: adding
  one takes \<open>SLOT_SIZE\<close> bytes of it, and removing one gives nothing back. A pointer to a slot
  is its index in the list. An 8-byte \<open>double\<close> is its bit pattern.
\<close>

section \<open>Values\<close>

datatype variant =
    VNull
  | VBool bool
  | VUInt u64
  | VInt u64
  | VFloat u64
  | VString storage string
  | VRaw storage string
  | VArray "variant list"
  | VObject "(stored_string \<times> variant) list"

type_synonym slot = "stored_string \<times> variant"

abbreviation slot_key :: "slot \<Rightarrow> string" where "slot_key s \<equiv> snd (fst s)"
abbreviation slot_data :: "slot \<Rightarrow> variant" where "slot_data s \<equiv> snd s"

definition OWNED_VALUE_BIT :: u8 where "OWNED_VALUE_BIT = 0x01"
definition NUMBER_BIT :: u8 where "NUMBER_BIT = 0x08"
definition COLLECTION_MASK :: u8 where "COLLECTION_MASK = 0x60"
definition VALUE_IS_OBJECT :: u8 where "VALUE_IS_OBJECT = 0x20"
definition VALUE_IS_ARRAY :: u8 where "VALUE_IS_ARRAY = 0x40"

text \<open>\<open>type()\<close>: the flags without the bit that belongs to the key.\<close>

fun value_type :: "variant \<Rightarrow> u8" where
  "value_type VNull = 0"
| "value_type (VRaw Linked s) = 0x02"
| "value_type (VRaw Copied s) = 0x03"
| "value_type (VString Linked s) = 0x04"
| "value_type (VString Copied s) = 0x05"
| "value_type (VBool b) = 0x06"
| "value_type (VUInt n) = 0x08"
| "value_type (VInt n) = 0x0A"
| "value_type (VFloat f) = 0x0C"
| "value_type (VObject ms) = VALUE_IS_OBJECT"
| "value_type (VArray vs) = VALUE_IS_ARRAY"

definition is_array :: "variant \<Rightarrow> bool" where "is_array v \<longleftrightarrow> value_type v AND VALUE_IS_ARRAY \<noteq> 0"
definition is_object :: "variant \<Rightarrow> bool" where "is_object v \<longleftrightarrow> value_type v AND VALUE_IS_OBJECT \<noteq> 0"
definition is_collection :: "variant \<Rightarrow> bool" where
  "is_collection v \<longleftrightarrow> value_type v AND COLLECTION_MASK \<noteq> 0"
definition is_float :: "variant \<Rightarrow> bool" where "is_float v \<longleftrightarrow> value_type v AND NUMBER_BIT \<noteq> 0"
definition is_null :: "variant \<Rightarrow> bool" where "is_null v \<longleftrightarrow> value_type v = 0"
definition is_boolean :: "variant \<Rightarrow> bool" where "is_boolean v \<longleftrightarrow> value_type v = 0x06"
definition is_string :: "variant \<Rightarrow> bool" where
  "is_string v \<longleftrightarrow> value_type v = 0x04 \<or> value_type v = 0x05"
definition is_enclosed :: "variant \<Rightarrow> bool" where "is_enclosed v \<longleftrightarrow> \<not> is_float v"

lemmas value_type_defs = is_array_def is_object_def is_collection_def is_float_def is_null_def
  is_boolean_def is_string_def is_enclosed_def VALUE_IS_ARRAY_def VALUE_IS_OBJECT_def
  COLLECTION_MASK_def NUMBER_BIT_def

text \<open>\<open>remove\<close>, the setters and the conversions to a collection.\<close>

definition set_string :: "stored_string \<Rightarrow> variant" where
  "set_string s = (case s of (Linked, str) \<Rightarrow> VString Linked str | (Copied, str) \<Rightarrow> VString Copied str)"

definition set_linked_raw :: "string option \<Rightarrow> variant" where
  "set_linked_raw raw = (case raw of Some s \<Rightarrow> VRaw Linked s | None \<Rightarrow> VNull)"

definition store_owned_raw :: "string option \<Rightarrow> memory_pool \<Rightarrow> bool \<times> variant \<times> memory_pool" where
  "store_owned_raw raw p =
     (let (dup, p') = save_string raw p
      in case (dup, raw) of
           (Some _, Some s) \<Rightarrow> (True, VRaw Copied s, p')
         | _ \<Rightarrow> (False, VNull, p'))"

definition store_string :: "storage \<Rightarrow> string option \<Rightarrow> memory_pool \<Rightarrow> bool \<times> variant \<times> memory_pool" where
  "store_string policy val p =
     (case val of
        None \<Rightarrow> (True, VNull, p)
      | Some _ \<Rightarrow>
          (let (s, ok, p') = store policy val p
           in (ok, case s of Some t \<Rightarrow> set_string t | None \<Rightarrow> VNull, p')))"

fun memory_usage :: "variant \<Rightarrow> nat"
  and elements_usage :: "variant list \<Rightarrow> nat"
  and members_usage :: "slot list \<Rightarrow> nat" where
  "memory_usage (VString Copied s) = length s + 1"
| "memory_usage (VRaw Copied s) = length s + 1"
| "memory_usage (VArray vs) = elements_usage vs"
| "memory_usage (VObject ms) = members_usage ms"
| "memory_usage v = 0"
| "elements_usage [] = 0"
| "elements_usage (v # vs) = SLOT_SIZE + memory_usage v + elements_usage vs"
| "members_usage [] = 0"
| "members_usage (((own, k), v) # ms) =
     SLOT_SIZE + memory_usage v + (if own = Copied then length (c_str k) + 1 else 0) + members_usage ms"

fun nesting :: "variant \<Rightarrow> nat"
  and elements_nesting :: "variant list \<Rightarrow> nat"
  and members_nesting :: "slot list \<Rightarrow> nat" where
  "nesting (VArray vs) = elements_nesting vs + 1"
| "nesting (VObject ms) = members_nesting ms + 1"
| "nesting v = 0"
| "elements_nesting [] = 0"
| "elements_nesting (v # vs) = max (nesting v) (elements_nesting vs)"
| "members_nesting [] = 0"
| "members_nesting ((k, v) # ms) = max (nesting v) (members_nesting ms)"

definition variant_size :: "variant \<Rightarrow> nat" where
  "variant_size v = (case v of VArray vs \<Rightarrow> length vs | VObject ms \<Rightarrow> length ms | _ \<Rightarrow> 0)"

section \<open>Collections\<close>

text \<open>\<open>addElement\<close>: the index of the new slot, \<open>None\<close> when the pool is full.\<close>

definition add_element :: "variant list \<Rightarrow> memory_pool \<Rightarrow> nat option \<times> variant list \<times> memory_pool" where
  "add_element vs p =
     (case alloc_variant p of
        (False, p') \<Rightarrow> (None, vs, p')
      | (True, p') \<Rightarrow> (Some (length vs), vs @ [VNull], p'))"

text \<open>\<open>slotSetKey\<close> keeps the address of the key only, so its readers stop at the first NUL.\<close>

definition set_key :: "stored_string \<Rightarrow> stored_string" where
  "set_key k = (fst k, c_str (snd k))"

definition add_member ::
    "storage \<Rightarrow> string option \<Rightarrow> slot list \<Rightarrow> memory_pool \<Rightarrow> nat option \<times> slot list \<times> memory_pool" where
  "add_member policy key ms p =
     (case alloc_variant p of
        (False, p') \<Rightarrow> (None, ms, p')
      | (True, p') \<Rightarrow>
          (case store policy key p' of
             (Some k, True, p'') \<Rightarrow> (Some (length ms), ms @ [(set_key k, VNull)], p'')
           | (_, _, p'') \<Rightarrow> (None, ms, p'')))"

fun get_slot :: "string \<Rightarrow> slot list \<Rightarrow> nat option" where
  "get_slot key [] = None"
| "get_slot key (s # ms) =
     (if key = slot_key s then Some 0 else map_option Suc (get_slot key ms))"

definition get_member :: "string option \<Rightarrow> slot list \<Rightarrow> nat option" where
  "get_member key ms = (case key of None \<Rightarrow> None | Some k \<Rightarrow> get_slot k ms)"

definition get_or_add_member ::
    "storage \<Rightarrow> string option \<Rightarrow> slot list \<Rightarrow> memory_pool \<Rightarrow> nat option \<times> slot list \<times> memory_pool" where
  "get_or_add_member policy key ms p =
     (case key of
        None \<Rightarrow> (None, ms, p)
      | Some k \<Rightarrow>
          (case get_slot k ms of
             Some i \<Rightarrow> (Some i, ms, p)
           | None \<Rightarrow> add_member policy key ms p))"

definition get_element :: "nat \<Rightarrow> variant list \<Rightarrow> nat option" where
  "get_element index vs = (if index < length vs then Some index else None)"

text \<open>The second loop of \<open>getOrAddElement\<close>: \<open>n\<close> slots are added, the last one is the result.\<close>

fun add_elements :: "nat \<Rightarrow> nat option \<Rightarrow> variant list \<Rightarrow> memory_pool \<Rightarrow> nat option \<times> variant list \<times> memory_pool" where
  "add_elements 0 r vs p = (r, vs, p)"
| "add_elements (Suc n) r vs p = (let (r', vs', p') = add_element vs p in add_elements n r' vs' p')"

definition get_or_add_element ::
    "nat \<Rightarrow> variant list \<Rightarrow> memory_pool \<Rightarrow> nat option \<times> variant list \<times> memory_pool" where
  "get_or_add_element index vs p =
     (if index < length vs then (Some index, vs, p)
      else add_elements (index - length vs + 1) None vs p)"

definition remove_slot :: "nat option \<Rightarrow> 'a list \<Rightarrow> 'a list" where
  "remove_slot r xs = (case r of None \<Rightarrow> xs | Some i \<Rightarrow> take i xs @ drop (Suc i) xs)"

definition variant_add_element :: "variant \<Rightarrow> memory_pool \<Rightarrow> nat option \<times> variant \<times> memory_pool" where
  "variant_add_element v p =
     (case (if is_null v then VArray [] else v) of
        VArray vs \<Rightarrow> (let (r, vs', p') = add_element vs p in (r, VArray vs', p'))
      | w \<Rightarrow> (None, w, p))"

definition variant_get_or_add_element :: "nat \<Rightarrow> variant \<Rightarrow> memory_pool \<Rightarrow> nat option \<times> variant \<times> memory_pool" where
  "variant_get_or_add_element index v p =
     (case (if is_null v then VArray [] else v) of
        VArray vs \<Rightarrow> (let (r, vs', p') = get_or_add_element index vs p in (r, VArray vs', p'))
      | w \<Rightarrow> (None, w, p))"

definition variant_get_or_add_member ::
    "storage \<Rightarrow> string option \<Rightarrow> variant \<Rightarrow> memory_pool \<Rightarrow> nat option \<times> variant \<times> memory_pool" where
  "variant_get_or_add_member policy key v p =
     (case (if is_null v then VObject [] else v) of
        VObject ms \<Rightarrow> (let (r, ms', p') = get_or_add_member policy key ms p in (r, VObject ms', p'))
      | w \<Rightarrow> (None, w, p))"

definition remove_element :: "nat \<Rightarrow> variant \<Rightarrow> variant" where
  "remove_element index v =
     (case v of VArray vs \<Rightarrow> VArray (remove_slot (get_element index vs) vs) | _ \<Rightarrow> v)"

definition remove_member :: "string option \<Rightarrow> variant \<Rightarrow> variant" where
  "remove_member key v =
     (case v of VObject ms \<Rightarrow> VObject (remove_slot (get_member key ms) ms) | _ \<Rightarrow> v)"

text \<open>\<open>copyFrom\<close> of a value and of the two kinds of collection (after \<open>clear\<close>); the strings of
  the copy are saved in the pool of the copy. What is there already stays when memory runs out.\<close>

fun copy_from :: "variant \<Rightarrow> memory_pool \<Rightarrow> bool \<times> variant \<times> memory_pool"
  and copy_elements :: "variant list \<Rightarrow> memory_pool \<Rightarrow> bool \<times> variant list \<times> memory_pool"
  and copy_members :: "slot list \<Rightarrow> memory_pool \<Rightarrow> bool \<times> slot list \<times> memory_pool" where
  "copy_from (VArray vs) p = (let (b, vs', p') = copy_elements vs p in (b, VArray vs', p'))"
| "copy_from (VObject ms) p = (let (b, ms', p') = copy_members ms p in (b, VObject ms', p'))"
| "copy_from (VString Copied s) p = store_string Copied (Some s) p"
| "copy_from (VRaw Copied s) p = store_owned_raw (Some s) p"
| "copy_from v p = (True, v, p)"
| "copy_elements [] p = (True, [], p)"
| "copy_elements (v # vs) p =
     (case alloc_variant p of
        (False, p1) \<Rightarrow> (False, [], p1)
      | (True, p1) \<Rightarrow>
          (case copy_from v p1 of
             (False, v', p2) \<Rightarrow> (False, [v'], p2)
           | (True, v', p2) \<Rightarrow> (let (b, vs', p3) = copy_elements vs p2 in (b, v' # vs', p3))))"
| "copy_members [] p = (True, [], p)"
| "copy_members (((own, k), v) # ms) p =
     (case add_member own (Some (c_str k)) [] p of
        (None, _, p1) \<Rightarrow> (False, [], p1)
      | (Some _, slots, p1) \<Rightarrow>
          (case copy_from v p1 of
             (False, v', p2) \<Rightarrow> (False, [(fst (hd slots), v')], p2)
           | (True, v', p2) \<Rightarrow>
               (let (b, ms', p3) = copy_members ms p2 in (b, (fst (hd slots), v') # ms', p3))))"

section \<open>Types\<close>

lemma value_kind [simp]:
  "is_array v \<longleftrightarrow> (\<exists>vs. v = VArray vs)"
  "is_object v \<longleftrightarrow> (\<exists>ms. v = VObject ms)"
  "is_null v \<longleftrightarrow> v = VNull"
  "is_boolean v \<longleftrightarrow> (\<exists>b. v = VBool b)"
  "is_string v \<longleftrightarrow> (\<exists>o' s. v = VString o' s)"
  by (cases v rule: value_type.cases; simp add: value_type_defs)+

lemma is_float_kind [simp]: "is_float v \<longleftrightarrow> (\<exists>n. v = VUInt n \<or> v = VInt n \<or> v = VFloat n)"
  by (cases v rule: value_type.cases; simp add: value_type_defs)

lemma is_collection_kind [simp]: "is_collection v \<longleftrightarrow> is_array v \<or> is_object v"
  by (cases v rule: value_type.cases; simp add: value_type_defs)

section \<open>Collections as maps\<close>

definition lookup :: "string \<Rightarrow> slot list \<Rightarrow> variant option" where
  "lookup k ms = map_option (\<lambda>i. slot_data (ms ! i)) (get_slot k ms)"

definition keys_ok :: "slot list \<Rightarrow> bool" where
  "keys_ok ms \<longleftrightarrow> (let ks = map slot_key ms in distinct ks \<and> (\<forall>k\<in>set ks. NUL \<notin> set k))"

lemma get_slot_Some:
  "get_slot k ms = Some i \<Longrightarrow> i < length ms \<and> slot_key (ms ! i) = k"
  by (induction ms arbitrary: i) (auto split: if_splits)

lemma get_slot_None: "get_slot k ms = None \<longleftrightarrow> k \<notin> slot_key ` set ms"
  by (induction ms) auto

lemma get_slot_append:
  "get_slot k (ms @ ms') = (case get_slot k ms of Some i \<Rightarrow> Some i
     | None \<Rightarrow> map_option (\<lambda>i. i + length ms) (get_slot k ms'))"
  by (induction ms) (auto simp: option.map_ident option.map_comp o_def split: option.splits)

lemma get_slot_update: "i < length ms \<Longrightarrow> get_slot k (ms[i := (fst (ms ! i), v)]) = get_slot k ms"
  by (induction ms arbitrary: i) (auto split: nat.splits)

lemma lookup_Nil [simp]: "lookup k [] = None"
  by (simp add: lookup_def)

lemma lookup_Cons: "lookup k (s # ms) = (if k = slot_key s then Some (slot_data s) else lookup k ms)"
  by (cases "get_slot k ms") (auto simp: lookup_def)

lemma lookup_map_of: "lookup k ms = map_of (map (\<lambda>s. (slot_key s, slot_data s)) ms) k"
  by (induction ms) (auto simp: lookup_Cons)

lemma lookup_update:
  assumes "get_slot k ms = Some i"
  shows "lookup k' (ms[i := (fst (ms ! i), v)]) = (if k' = k then Some v else lookup k' ms)"
  using assms
proof (induction ms arbitrary: i)
  case (Cons s ms)
  then show ?case by (cases i) (auto simp: lookup_Cons split: if_splits)
qed simp

lemma keys_ok_update: "i < length ms \<Longrightarrow> keys_ok (ms[i := (fst (ms ! i), v)]) = keys_ok ms"
proof -
  assume i: "i < length ms"
  have "map slot_key (ms[i := (fst (ms ! i), v)]) = map slot_key ms"
    using i by (simp add: map_update list_update_same_conv)
  then show ?thesis by (simp only: keys_ok_def)
qed

lemma add_member_cases:
  assumes "add_member pol key ms p = (r, ms', p')"
  obtains "r = None" "ms' = ms" "alloc_variant p = (False, p')"
  | p1 x where "r = None" "ms' = ms" "alloc_variant p = (True, p1)" "store pol key p1 = (x, False, p')"
  | p1 k where "r = Some (length ms)" "ms' = ms @ [((pol, c_str k), VNull)]" "key = Some k"
      "alloc_variant p = (True, p1)" "store pol key p1 = (Some (pol, k), True, p')"
proof (cases "alloc_variant p")
  case (Pair b p1)
  show ?thesis
  proof (cases b)
    case False
    have "r = None" "ms' = ms" "p' = p1" using assms Pair False by (simp_all add: add_member_def)
    then show ?thesis using Pair False by (intro that(1)) simp_all
  next
    case True
    obtain x c p2 where st: "store pol key p1 = (x, c, p2)" by (cases "store pol key p1") auto
    note flag = store_flag [OF st]
    show ?thesis
    proof (cases x)
      case None
      then have "\<not> c" using flag by simp
      have "r = None" "ms' = ms" "p' = p2" using assms Pair True st None by (simp_all add: add_member_def)
      then show ?thesis using Pair True st \<open>\<not> c\<close> by (intro that(2) [of p1 x]) simp_all
    next
      case (Some kk)
      then obtain k where kk: "kk = (pol, k)" "key = Some k" using store_Some st by blast
      have c: c using Some flag by simp
      have "r = Some (length ms)" "ms' = ms @ [((pol, c_str k), VNull)]" "p' = p2"
        using assms Pair True st Some kk c by (simp_all add: add_member_def set_key_def)
      then show ?thesis using Pair True st Some kk c by (intro that(3) [of k p1]) simp_all
    qed
  qed
qed

lemma add_member_ok:
  assumes "add_member pol key ms p = (r, ms', p')" "pool_ok p"
  shows "pool_ok p' \<and> pool_extends p p'"
  using assms(1)
proof (cases rule: add_member_cases)
  case 1
  with assms(2) alloc_variant_ok show ?thesis by blast
next
  case 2
  with assms(2) alloc_variant_ok store_ok pool_extends_trans show ?thesis by blast
next
  case 3
  with assms(2) alloc_variant_ok store_ok pool_extends_trans show ?thesis by blast
qed

lemma get_or_add_member_ok:
  assumes "get_or_add_member pol (Some k) ms p = (r, ms', p')"
  shows "pool_ok p \<Longrightarrow> pool_ok p' \<and> pool_extends p p'" "r = None \<Longrightarrow> ms' = ms"
    "r = Some i \<Longrightarrow> get_slot k ms = Some i \<and> ms' = ms \<or>
       get_slot k ms = None \<and> i = length ms \<and> ms' = ms @ [((pol, c_str k), VNull)]"
proof -
  consider j where "get_slot k ms = Some j" "r = Some j" "ms' = ms" "p' = p"
    | "get_slot k ms = None" "add_member pol (Some k) ms p = (r, ms', p')"
    using assms by (auto simp: get_or_add_member_def split: option.splits)
  note C = this
  show "pool_ok p \<Longrightarrow> pool_ok p' \<and> pool_extends p p'"
    by (rule C) (auto dest: add_member_ok)
  show "r = None \<Longrightarrow> ms' = ms" by (rule C) (auto elim: add_member_cases)
  show "r = Some i \<Longrightarrow> get_slot k ms = Some i \<and> ms' = ms \<or>
       get_slot k ms = None \<and> i = length ms \<and> ms' = ms @ [((pol, c_str k), VNull)]"
    by (rule C) (auto elim: add_member_cases)
qed

text \<open>A member that was found or added, and then set: the object is the old map, updated.\<close>

lemma get_or_add_member_refines:
  assumes r: "get_or_add_member pol (Some k) ms p = (Some i, ms', p')" and ok: "pool_ok p" "keys_ok ms"
    and k: "NUL \<notin> set k"
  shows "i < length ms'" "keys_ok ms'" "lookup k' (ms'[i := (fst (ms' ! i), v)]) = ((\<lambda>k. lookup k ms)(k \<mapsto> v)) k'"
    "keys_ok (ms'[i := (fst (ms' ! i), v)])"
proof -
  consider "get_slot k ms = Some i" "ms' = ms"
    | "get_slot k ms = None" "i = length ms" "ms' = ms @ [((pol, k), VNull)]"
    using get_or_add_member_ok(3) [OF r refl] k by auto
  then have *: "i < length ms' \<and> keys_ok ms' \<and> get_slot k ms' = Some i \<and>
      (k' \<noteq> k \<longrightarrow> lookup k' ms' = lookup k' ms)"
  proof cases
    case 1
    then show ?thesis using ok get_slot_Some by auto
  next
    case 2
    have "get_slot k ms' = Some i" using 2 by (simp add: get_slot_append)
    moreover have "keys_ok ms'" using 2 ok k get_slot_None [of k ms] by (auto simp: keys_ok_def)
    moreover have "k' \<noteq> k \<Longrightarrow> lookup k' ms' = lookup k' ms" using 2 by (simp add: lookup_map_of map_add_def split: option.splits)
    ultimately show ?thesis using 2 by simp
  qed
  then show "i < length ms'" "keys_ok ms'" by auto
  from * show "keys_ok (ms'[i := (fst (ms' ! i), v)])" by (simp add: keys_ok_update)
  from * show "lookup k' (ms'[i := (fst (ms' ! i), v)]) = ((\<lambda>k. lookup k ms)(k \<mapsto> v)) k'"
    using lookup_update [of k ms' i k' v] by auto
qed

section \<open>Copies\<close>

text \<open>Every object in a value has distinct keys without NULs.\<close>

fun variant_ok :: "variant \<Rightarrow> bool"
  and elements_ok :: "variant list \<Rightarrow> bool"
  and members_ok :: "slot list \<Rightarrow> bool" where
  "variant_ok (VArray vs) = elements_ok vs"
| "variant_ok (VObject ms) = (distinct (map slot_key ms) \<and> members_ok ms)"
| "variant_ok v = True"
| "elements_ok [] = True"
| "elements_ok (v # vs) = (variant_ok v \<and> elements_ok vs)"
| "members_ok [] = True"
| "members_ok (((own, k), v) # ms) = (NUL \<notin> set k \<and> variant_ok v \<and> members_ok ms)"

text \<open>What a step that allocates may do: fail with the overflow noted, or succeed; and it cannot fail
  when \<open>n\<close> bytes, the most it asks for, are free.\<close>

definition alloc_spec :: "nat \<Rightarrow> memory_pool \<Rightarrow> bool \<Rightarrow> memory_pool \<Rightarrow> bool" where
  "alloc_spec n p b p' \<longleftrightarrow> pool_extends p p' \<and> (pool_ok p \<longrightarrow> pool_ok p') \<and>
     (\<not> b \<longrightarrow> mp_overflowed p') \<and>
     (n \<le> free_zone p \<longrightarrow> b \<and> free_zone p \<le> free_zone p' + n \<and> mp_overflowed p' = mp_overflowed p)"

lemma alloc_spec_refl: "alloc_spec 0 p True p"
  by (simp add: alloc_spec_def)

lemma alloc_spec_trans:
  "alloc_spec n p True p1 \<Longrightarrow> alloc_spec m p1 b p2 \<Longrightarrow> alloc_spec (n + m) p b p2"
  by (auto simp: alloc_spec_def dest: pool_extends_trans)

lemma alloc_spec_mono: "alloc_spec n p b p' \<Longrightarrow> n \<le> m \<Longrightarrow> alloc_spec m p b p'"
  by (auto simp: alloc_spec_def)

lemma alloc_spec_fail: "alloc_spec n p False p1 \<Longrightarrow> alloc_spec (n + m) p False p1"
  by (auto simp: alloc_spec_def)

lemma alloc_variant_spec: "alloc_variant p = (b, p') \<Longrightarrow> alloc_spec SLOT_SIZE p b p'"
  by (auto simp: alloc_spec_def alloc_variant_def alloc_right_def can_alloc_def mark_as_overflowed_def
      pool_extends_def pool_ok_def free_zone_def SLOT_SIZE_def split: if_splits)

lemma save_string_spec:
  assumes "save_string (Some s) p = (r, p')"
  shows "alloc_spec (length s + 1) p (r \<noteq> None) p'"
proof (cases "find_string s 0 (mp_strings p)")
  case None
  with assms show ?thesis
    by (auto simp: alloc_spec_def save_string_def alloc_string_def can_alloc_def mark_as_overflowed_def
        pool_extends_def pool_ok_def free_zone_def split: if_splits)
next
  case (Some a)
  with assms have "r = Some a" "p' = p" by (simp_all add: save_string_def)
  then show ?thesis by (simp add: alloc_spec_def)
qed

lemma store_spec:
  "store pol (Some s) p = (r, b, p') \<Longrightarrow>
     alloc_spec (if pol = Copied then length s + 1 else 0) p b p'"
  using save_string_spec [of s p]
  by (auto simp: store_def alloc_spec_refl split: storage.splits prod.splits)

lemma add_member_spec:
  assumes "add_member pol (Some k) ms p = (r, ms', p')"
  shows "alloc_spec (SLOT_SIZE + (if pol = Copied then length k + 1 else 0)) p (r \<noteq> None) p'"
  using assms
proof (cases rule: add_member_cases)
  case 1
  then show ?thesis using alloc_spec_fail [OF alloc_variant_spec] by simp
next
  case (2 p1 x)
  then show ?thesis using alloc_spec_trans [OF alloc_variant_spec store_spec] by simp
next
  case (3 p1 k')
  then show ?thesis using alloc_spec_trans [OF alloc_variant_spec store_spec] by simp
qed

lemma copy_elements_cases:
  assumes "copy_elements (v # vs) p = (b, vs', p')"
  obtains "alloc_variant p = (False, p')" "b = False" "vs' = []"
  | p1 v2 where "alloc_variant p = (True, p1)" "copy_from v p1 = (False, v2, p')" "b = False" "vs' = [v2]"
  | p1 v2 p2 vs2 where "alloc_variant p = (True, p1)" "copy_from v p1 = (True, v2, p2)"
      "copy_elements vs p2 = (b, vs2, p')" "vs' = v2 # vs2"
  using assms by (auto split: prod.splits bool.splits)

lemma copy_members_cases:
  assumes "copy_members (((own, k), v) # ms) p = (b, ms', p')" "c_str k = k"
  obtains x where "add_member own (Some (c_str k)) [] p = (None, x, p')" "b = False" "ms' = []"
  | i x p1 v2 where "add_member own (Some (c_str k)) [] p = (Some i, x, p1)" "length x = 1"
      "copy_from v p1 = (False, v2, p')" "b = False" "ms' = [((own, k), v2)]"
  | i x p1 v2 p2 ms2 where "add_member own (Some (c_str k)) [] p = (Some i, x, p1)" "length x = 1"
      "copy_from v p1 = (True, v2, p2)" "copy_members ms p2 = (b, ms2, p')" "ms' = ((own, k), v2) # ms2"
proof -
  obtain r x p1 where a: "add_member own (Some (c_str k)) [] p = (r, x, p1)"
    by (cases "add_member own (Some (c_str k)) [] p") auto
  obtain b2 v2 p2 where c: "copy_from v p1 = (b2, v2, p2)" by (cases "copy_from v p1") auto
  obtain b3 ms3 p3 where d: "copy_members ms p2 = (b3, ms3, p3)" by (cases "copy_members ms p2") auto
  show thesis
  proof (cases r)
    case None
    with assms(1) a that(1) show thesis by auto
  next
    case (Some i)
    then have x: "fst (hd x) = (own, k)" "length x = 1" using a assms(2) by (auto elim: add_member_cases)
    show thesis using assms(1) a c d x that(2,3) Some by (cases b2) auto
  qed
qed

lemma copy_correct:
  "copy_from v p = (b, v', p') \<Longrightarrow> variant_ok v \<Longrightarrow> (b \<longrightarrow> v' = v) \<and> alloc_spec (memory_usage v) p b p'"
  "copy_elements vs p = (b, vs', p') \<Longrightarrow> elements_ok vs \<Longrightarrow>
     (b \<longrightarrow> vs' = vs) \<and> alloc_spec (elements_usage vs) p b p'"
  "copy_members ms p = (b, ms', p') \<Longrightarrow> members_ok ms \<Longrightarrow>
     (b \<longrightarrow> ms' = ms) \<and> alloc_spec (members_usage ms) p b p'"
proof (induction v p and vs p and ms p arbitrary: b v' p' and b vs' p' and b ms' p'
    rule: copy_from_copy_elements_copy_members.induct)
  case (3 s p)
  obtain r b1 p1 where st: "store Copied (Some s) p = (r, b1, p1)" by (cases "store Copied (Some s) p") auto
  have "b1 \<longrightarrow> r = Some (Copied, s)" using store_flag [OF st] store_Some st by fastforce
  then show ?case using 3 store_spec [OF st] st by (auto simp: store_string_def set_string_def)
next
  case (4 s p)
  then show ?case using save_string_spec [of s p]
    by (auto simp: store_owned_raw_def split: prod.splits option.splits)
next
  case (7 v vs p)
  from 7(4) have ok: "variant_ok v" "elements_ok vs" by simp_all
  from 7(3) show ?case
  proof (cases rule: copy_elements_cases)
    case 1
    then show ?thesis using alloc_spec_fail [OF alloc_variant_spec [OF 1(1)]] by (simp add: add.assoc)
  next
    case (2 p1 v2)
    have "alloc_spec (memory_usage v) p1 False p'" using 7(1) [OF 2(1) [symmetric] _ 2(2)] ok(1) by simp
    with alloc_spec_fail [OF alloc_spec_trans [OF alloc_variant_spec [OF 2(1)]]] 2(3) show ?thesis by simp
  next
    case (3 p1 v2 p2 vs2)
    have "v2 = v" "alloc_spec (memory_usage v) p1 True p2" using 7(1) [OF 3(1) [symmetric] _ 3(2)] ok(1) by simp_all
    moreover have "(b \<longrightarrow> vs2 = vs) \<and> alloc_spec (elements_usage vs) p2 b p'"
      using 7(2) [OF 3(1) [symmetric] _ 3(2) [symmetric] _ refl 3(3)] ok(2) by simp
    ultimately show ?thesis
      using alloc_spec_trans [OF alloc_spec_trans [OF alloc_variant_spec [OF 3(1)]]] 3(4) by simp
  qed
next
  case (9 own k v ms p)
  from 9(4) have ok: "c_str k = k" "variant_ok v" "members_ok ms" by simp_all
  let ?n = "SLOT_SIZE + (if own = Copied then length (c_str k) + 1 else 0)"
  have n: "members_usage (((own, k), v) # ms) = ?n + memory_usage v + members_usage ms" using ok(1) by simp
  from 9(3) ok(1) show ?case unfolding n
  proof (cases rule: copy_members_cases)
    case (1 x)
    then show "(b \<longrightarrow> ms' = ((own, k), v) # ms) \<and> alloc_spec (?n + memory_usage v + members_usage ms) p b p'"
      using alloc_spec_fail [OF alloc_spec_fail] add_member_spec [OF 1(1)] by simp
  next
    case (2 i x p1 v2)
    have "alloc_spec (memory_usage v) p1 False p'" using 9(1) [OF 2(1) [symmetric] _ refl 2(3)] ok by simp
    then show "(b \<longrightarrow> ms' = ((own, k), v) # ms) \<and> alloc_spec (?n + memory_usage v + members_usage ms) p b p'"
      using alloc_spec_fail [OF alloc_spec_trans] add_member_spec [OF 2(1)] 2(4) by simp
  next
    case (3 i x p1 v2 p2 ms2)
    have "v2 = v" "alloc_spec (memory_usage v) p1 True p2" using 9(1) [OF 3(1) [symmetric] _ refl 3(3)] ok by simp_all
    moreover have "(b \<longrightarrow> ms2 = ms) \<and> alloc_spec (members_usage ms) p2 b p'"
      using 9(2) [OF 3(1) [symmetric] _ refl 3(3) [symmetric] _ refl 3(4)] ok by simp
    ultimately show "(b \<longrightarrow> ms' = ((own, k), v) # ms) \<and> alloc_spec (?n + memory_usage v + members_usage ms) p b p'"
      using alloc_spec_trans [OF alloc_spec_trans] add_member_spec [OF 3(1)] 3(5) by simp
  qed
qed (auto simp: alloc_spec_refl split: prod.splits)

section \<open>Slots in use\<close>

fun slots :: "variant \<Rightarrow> nat"
  and elements_slots :: "variant list \<Rightarrow> nat"
  and members_slots :: "slot list \<Rightarrow> nat" where
  "slots (VArray vs) = elements_slots vs"
| "slots (VObject ms) = members_slots ms"
| "slots v = 0"
| "elements_slots [] = 0"
| "elements_slots (v # vs) = 1 + slots v + elements_slots vs"
| "members_slots [] = 0"
| "members_slots ((k, v) # ms) = 1 + slots v + members_slots ms"

lemma elements_ok_all: "elements_ok vs \<longleftrightarrow> (\<forall>v\<in>set vs. variant_ok v)"
  by (induction vs) auto

lemma members_ok_all: "members_ok ms \<longleftrightarrow> (\<forall>s\<in>set ms. NUL \<notin> set (slot_key s) \<and> variant_ok (slot_data s))"
  by (induction ms) auto

lemma object_ok_keys: "variant_ok (VObject ms) \<longleftrightarrow> keys_ok ms \<and> (\<forall>s\<in>set ms. variant_ok (slot_data s))"
  by (auto simp: keys_ok_def members_ok_all)

lemma elements_slots_sum: "elements_slots vs = length vs + sum_list (map slots vs)"
  by (induction vs) auto

lemma members_slots_sum: "members_slots ms = length ms + sum_list (map (slots \<circ> slot_data) ms)"
  by (induction ms) auto

lemma sum_list_update_le:
  "i < length xs \<Longrightarrow> sum_list (map g (xs[i := y])) + g (xs ! i) = sum_list (map g xs) + (g y :: nat)"
  by (induction xs arbitrary: i) (auto split: nat.splits)

lemma object_update_ok:
  assumes "variant_ok (VObject ms)" "i < length ms" "variant_ok w"
  shows "variant_ok (VObject (ms[i := (fst (ms ! i), w)]))"
    "slots (VObject (ms[i := (fst (ms ! i), w)])) + slots (slot_data (ms ! i)) = slots (VObject ms) + slots w"
  using assms sum_list_update_le [of i ms "slots \<circ> slot_data" "(fst (ms ! i), w)"]
  by (auto simp: object_ok_keys keys_ok_update members_slots_sum simp del: variant_ok.simps
      dest!: set_update_subset_insert [THEN subsetD])

lemma array_update_ok:
  assumes "variant_ok (VArray vs)" "i < length vs" "variant_ok w"
  shows "variant_ok (VArray (vs[i := w]))"
    "slots (VArray (vs[i := w])) + slots (vs ! i) = slots (VArray vs) + slots w"
  using assms sum_list_update_le [of i vs slots w]
  by (auto simp: elements_ok_all elements_slots_sum dest!: set_update_subset_insert [THEN subsetD])

lemma alloc_variant_slots:
  "alloc_variant p = (b, p') \<Longrightarrow> mp_right p' = mp_right p + (if b then SLOT_SIZE else 0)"
  by (auto simp: alloc_variant_def alloc_right_def pool_simps split: if_splits)

lemma store_right: "store pol s p = (r, b, p') \<Longrightarrow> mp_right p' = mp_right p"
  by (auto simp: store_def save_string_def alloc_string_def pool_simps
      split: storage.splits prod.splits option.splits if_splits)

lemma add_member_slots:
  assumes "add_member pol key ms p = (r, ms', p')"
  shows "SLOT_SIZE * length ms' + mp_right p \<le> SLOT_SIZE * length ms + mp_right p'"
  using assms
  by (cases rule: add_member_cases)
    (auto dest!: alloc_variant_slots store_right simp: algebra_simps)

lemma add_element_ok:
  "add_element vs p = (r, vs', p') \<Longrightarrow>
     (pool_ok p \<longrightarrow> pool_ok p' \<and> pool_extends p p') \<and>
     SLOT_SIZE * length vs' + mp_right p = SLOT_SIZE * length vs + mp_right p' \<and>
     (\<exists>n. vs' = vs @ replicate n VNull) \<and> (\<forall>i. r = Some i \<longrightarrow> i < length vs') \<and>
     (r = None \<longrightarrow> mp_overflowed p')"
  by (auto simp: add_element_def split: prod.splits bool.splits dest: alloc_variant_ok alloc_variant_slots
      dest: alloc_variant_effect simp: pool_simps intro: exI [of _ 0] exI [of _ 1])

lemma add_elements_ok:
  "add_elements n r vs p = (r', vs', p') \<Longrightarrow> (\<forall>i. r = Some i \<longrightarrow> i < length vs) \<Longrightarrow>
     (pool_ok p \<longrightarrow> pool_ok p' \<and> pool_extends p p') \<and>
     SLOT_SIZE * length vs' + mp_right p = SLOT_SIZE * length vs + mp_right p' \<and>
     (\<exists>n. vs' = vs @ replicate n VNull) \<and> (\<forall>i. r' = Some i \<longrightarrow> i < length vs')"
proof (induction n r vs p arbitrary: r' vs' p' rule: add_elements.induct)
  case (1 r vs p)
  then show ?case by (auto intro: exI [of _ 0])
next
  case (2 n r vs p)
  obtain r1 vs1 p1 where a: "add_element vs p = (r1, vs1, p1)" by (cases "add_element vs p") auto
  note A = add_element_ok [OF a]
  then have ih: "(pool_ok p1 \<longrightarrow> pool_ok p' \<and> pool_extends p1 p') \<and>
     SLOT_SIZE * length vs' + mp_right p1 = SLOT_SIZE * length vs1 + mp_right p' \<and>
     (\<exists>n. vs' = vs1 @ replicate n VNull) \<and> (\<forall>i. r' = Some i \<longrightarrow> i < length vs')"
    using 2(1) [OF a [symmetric] refl] 2(2) a by simp
  obtain m m' where "vs1 = vs @ replicate m VNull" "vs' = vs1 @ replicate m' VNull" using A ih by blast
  then have "vs' = vs @ replicate (m + m') VNull" by (simp add: replicate_add)
  then show ?case using A ih pool_extends_trans by (intro conjI) (blast, linarith, blast, blast)
qed

lemma get_or_add_element_ok:
  "get_or_add_element n vs p = (r, vs', p') \<Longrightarrow>
     (pool_ok p \<longrightarrow> pool_ok p' \<and> pool_extends p p') \<and>
     SLOT_SIZE * length vs' + mp_right p = SLOT_SIZE * length vs + mp_right p' \<and>
     (\<exists>n. vs' = vs @ replicate n VNull) \<and> (\<forall>i. r = Some i \<longrightarrow> i < length vs')"
  using add_elements_ok [of "n - length vs + 1" None vs p r vs' p']
  by (auto simp: get_or_add_element_def simp del: add_elements.simps split: if_splits intro: exI [of _ 0])

end
