(* ===== verification/Json_Position.thy ===== *)
theory Json_Position
  imports Json_Value
begin

text \<open>
  Positions in a tree of values: the indices of the slots on the way down. They stand for the pointers to
  values that \<open>ArduinoJson.h\<close> passes around. The lemmas show that a position is a place to read and to
  write: what is written there is read there, and nowhere else.
\<close>

section \<open>Reading and writing at a position\<close>

fun locate :: "nat list \<Rightarrow> variant \<Rightarrow> variant option" where
  "locate [] v = Some v"
| "locate (i # pos) v =
     (case v of
        VArray vs \<Rightarrow> (if i < length vs then locate pos (vs ! i) else None)
      | VObject ms \<Rightarrow> (if i < length ms then locate pos (slot_data (ms ! i)) else None)
      | _ \<Rightarrow> None)"

fun put_at :: "nat list \<Rightarrow> variant \<Rightarrow> variant \<Rightarrow> variant" where
  "put_at [] w v = w"
| "put_at (i # pos) w v =
     (case v of
        VArray vs \<Rightarrow> VArray (vs[i := put_at pos w (vs ! i)])
      | VObject ms \<Rightarrow> VObject (ms[i := (fst (ms ! i), put_at pos w (slot_data (ms ! i)))])
      | _ \<Rightarrow> v)"

section \<open>A position is a place in the tree\<close>

lemma locate_append: "locate (pos @ q) v = Option.bind (locate pos v) (locate q)"
  by (induction pos arbitrary: v) (auto split: variant.splits)

lemma locate_put: "locate pos v = Some u \<Longrightarrow> locate pos (put_at pos w v) = Some w"
  by (induction pos arbitrary: v) (auto split: variant.splits if_splits)

lemma put_locate: "locate pos v = Some u \<Longrightarrow> put_at pos u v = v"
  by (induction pos arbitrary: v) (auto simp: list_update_same_conv prod_eq_iff split: variant.splits if_splits)

lemma put_put: "put_at pos w (put_at pos w' v) = put_at pos w v"
proof (induction pos arbitrary: v)
  case (Cons i pos)
  then show ?case
  proof (cases v)
    case (VArray vs)
    then show ?thesis using Cons by (cases "i < length vs") (auto simp: list_update_beyond)
  next
    case (VObject ms)
    then show ?thesis using Cons by (cases "i < length ms") (auto simp: list_update_beyond)
  qed simp_all
qed simp

lemma put_append: "locate pos v = Some u \<Longrightarrow> put_at (pos @ q) w v = put_at pos (put_at q w u) v"
  by (induction pos arbitrary: v) (auto split: variant.splits if_splits)

lemma locate_put_below: "locate pos v = Some u \<Longrightarrow> locate (pos @ q) (put_at pos w v) = locate q w"
  by (simp add: locate_append locate_put)

lemma put_under: "locate pos v = Some u \<Longrightarrow> put_at (pos @ q) w' (put_at pos w v) = put_at pos (put_at q w' w) v"
  using put_append [OF locate_put] put_put by metis

text \<open>What is written at one position is not seen at another that is neither above nor below it.\<close>

lemma locate_put_other:
  assumes "\<nexists>zs. q = pos @ zs" "\<nexists>zs. pos = q @ zs"
  shows "locate q (put_at pos w v) = locate q v"
  using assms
proof (induction pos arbitrary: q v)
  case (Cons i pos)
  show ?case
  proof (cases q)
    case (Cons j q')
    show ?thesis
    proof (cases "i = j")
      case True
      then have "locate q' (put_at pos w u) = locate q' u" for u using Cons.IH [of q'] Cons.prems Cons by simp
      with True Cons show ?thesis by (auto split: variant.splits)
    next
      case False
      with Cons show ?thesis by (auto split: variant.splits)
    qed
  qed (use Cons.prems in simp)
qed simp

lemma locate_ok: "locate pos v = Some u \<Longrightarrow> variant_ok v \<Longrightarrow> variant_ok u"
  by (induction pos arbitrary: v)
    (fastforce simp: elements_ok_all members_ok_all split: variant.splits if_splits)+

lemma put_slots:
  assumes "locate pos v = Some u" "variant_ok v" "variant_ok w"
  shows "variant_ok (put_at pos w v) \<and> slots (put_at pos w v) + slots u = slots v + slots w"
  using assms(1,2)
proof (induction pos arbitrary: v)
  case (Cons i pos)
  show ?case
  proof (cases v)
    case (VArray vs)
    then have i: "i < length vs" "locate pos (vs ! i) = Some u" using Cons.prems by (auto split: if_splits)
    then have "variant_ok (vs ! i)" using Cons.prems VArray by (auto simp: elements_ok_all)
    with Cons.IH [OF i(2)] array_update_ok [of vs i "put_at pos w (vs ! i)"] i(1) Cons.prems(2) VArray
    show ?thesis by simp
  next
    case (VObject ms)
    then have i: "i < length ms" "locate pos (slot_data (ms ! i)) = Some u" using Cons.prems by (auto split: if_splits)
    then have "variant_ok (slot_data (ms ! i))" using Cons.prems VObject by (auto simp: members_ok_all)
    with Cons.IH [OF i(2)] object_update_ok [of ms i "put_at pos w (slot_data (ms ! i))"] i(1) Cons.prems(2) VObject
    show ?thesis by simp
  qed (use Cons.prems in simp_all)
qed (use assms(3) in simp)

end
