(* ===== verification/Json_Document.thy ===== *)
theory Json_Document
  imports Json_Position
begin

text \<open>
  \<open>ArduinoJson.h\<close>: \<open>JsonDocument\<close>, \<open>BasicJsonDocument\<close>, the conversions of C++ values
  and the proxies behind \<open>json["a"]["b"] = v\<close>.

  A proxy chain is a path; assigning to it looks up or adds every step of the path and then converts
  the value into the slot it ends at. A step that finds no room, or a value that is no object (no
  array), yields a null reference, and the assignment does nothing.
\<close>

section \<open>Documents\<close>

record json_document =
  jd_pool :: memory_pool
  jd_data :: variant

text \<open>\<open>addPadding\<close> with the 4-byte pointers of the machine.\<close>

definition add_padding :: "nat \<Rightarrow> nat" where
  "add_padding bytes = (bytes + 3) div 4 * 4"

text \<open>\<open>allocPool\<close>: when \<open>malloc\<close> fails the pool has no room.\<close>

definition alloc_pool :: "bool \<Rightarrow> nat \<Rightarrow> memory_pool" where
  "alloc_pool malloc_ok required = new_pool (if malloc_ok then add_padding required else 0)"

definition new_document :: "bool \<Rightarrow> nat \<Rightarrow> json_document" where
  "new_document malloc_ok capa = \<lparr>jd_pool = alloc_pool malloc_ok capa, jd_data = VNull\<rparr>"

definition json_clear :: "json_document \<Rightarrow> json_document" where
  "json_clear d = d\<lparr>jd_pool := pool_clear (jd_pool d), jd_data := VNull\<rparr>"

definition json_overflowed :: "json_document \<Rightarrow> bool" where
  "json_overflowed d = mp_overflowed (jd_pool d)"

text \<open>\<open>set\<close> of another document: \<open>to<VariantRef>\<close> clears, then the value is copied.\<close>

definition json_copy :: "variant \<Rightarrow> json_document \<Rightarrow> bool \<times> json_document" where
  "json_copy src d =
     (let (b, v, p) = copy_from src (jd_pool (json_clear d))
      in (b, d\<lparr>jd_pool := p, jd_data := v\<rparr>))"

definition realloc_pool :: "bool \<Rightarrow> nat \<Rightarrow> json_document \<Rightarrow> json_document" where
  "realloc_pool malloc_ok required d =
     (if add_padding required = mp_capacity (jd_pool d) then d
      else d\<lparr>jd_pool := alloc_pool malloc_ok (add_padding required)\<rparr>)"

text \<open>\<open>copyAssignFrom\<close>, and \<open>garbageCollect\<close>: copy, copy again, move back.\<close>

definition copy_assign_from :: "bool \<Rightarrow> json_document \<Rightarrow> json_document \<Rightarrow> json_document" where
  "copy_assign_from malloc_ok src d =
     snd (json_copy (jd_data src) (realloc_pool malloc_ok (mp_capacity (jd_pool src)) d))"

definition garbage_collect :: "bool \<Rightarrow> json_document \<Rightarrow> bool \<times> json_document" where
  "garbage_collect malloc_ok d =
     (let tmp = copy_assign_from malloc_ok d \<lparr>jd_pool = new_pool 0, jd_data = VNull\<rparr>
      in if mp_capacity (jd_pool tmp) = 0 then (False, d)
         else (True, snd (json_copy (jd_data d) tmp)))"

text \<open>\<open>shrinkToFit\<close>: \<open>squash\<close> moves the slots down to the strings.\<close>

definition squash :: "memory_pool \<Rightarrow> memory_pool" where
  "squash p =
     (let new_right = add_padding (length (mp_strings p))
      in if new_right \<ge> mp_capacity p - mp_right p then p
         else p\<lparr>mp_capacity := new_right + mp_right p\<rparr>)"

definition shrink_to_fit :: "json_document \<Rightarrow> json_document" where
  "shrink_to_fit d = d\<lparr>jd_pool := squash (jd_pool d)\<rparr>"

section \<open>Assignments\<close>

text \<open>The C++ values the program stores: signed and unsigned integers, \<open>bool\<close>, a
  \<open>const char*\<close> (linked) and a string or character array (copied).\<close>

datatype json_src = Src_int int | Src_unsigned nat | Src_bool bool | Src_chars "string option" | Src_string string

definition convert_to_json :: "json_src \<Rightarrow> memory_pool \<Rightarrow> variant \<times> memory_pool" where
  "convert_to_json src p =
     (case src of
        Src_int i \<Rightarrow> (VInt (word_of_int i), p)
      | Src_unsigned n \<Rightarrow> (VUInt (word_of_nat n), p)
      | Src_bool b \<Rightarrow> (VBool b, p)
      | Src_chars s \<Rightarrow> snd (store_string Linked s p)
      | Src_string s \<Rightarrow> snd (store_string Copied (Some s) p))"

datatype path_step = Member storage string | Element nat

fun at_path ::
    "path_step list \<Rightarrow> (memory_pool \<Rightarrow> variant \<times> memory_pool) \<Rightarrow> variant \<Rightarrow> memory_pool \<Rightarrow> variant \<times> memory_pool" where
  "at_path [] f v p = f p"
| "at_path (Member pol k # ps) f v p =
     (case variant_get_or_add_member pol (Some k) v p of
        (Some i, VObject ms, p') \<Rightarrow>
          (let (w, p'') = at_path ps f (slot_data (ms ! i)) p'
           in (VObject (ms[i := (fst (ms ! i), w)]), p''))
      | (_, v', p') \<Rightarrow> (v', p'))"
| "at_path (Element n # ps) f v p =
     (case variant_get_or_add_element n v p of
        (Some i, VArray vs, p') \<Rightarrow>
          (let (w, p'') = at_path ps f (vs ! i) p' in (VArray (vs[i := w]), p''))
      | (_, v', p') \<Rightarrow> (v', p'))"

definition json_set :: "path_step list \<Rightarrow> json_src \<Rightarrow> json_document \<Rightarrow> json_document" where
  "json_set path src d =
     (let (v, p) = at_path path (convert_to_json src) (jd_data d) (jd_pool d)
      in d\<lparr>jd_pool := p, jd_data := v\<rparr>)"

text \<open>\<open>json["a"]["b"]\<close> as a value.\<close>

fun get_path :: "string list \<Rightarrow> variant \<Rightarrow> variant option" where
  "get_path [] v = Some v"
| "get_path (k # ks) v =
     (case v of
        VObject ms \<Rightarrow> (case get_member (Some k) ms of Some i \<Rightarrow> get_path ks (slot_data (ms ! i)) | None \<Rightarrow> None)
      | _ \<Rightarrow> None)"

definition json_remove :: "string \<Rightarrow> json_document \<Rightarrow> json_document" where
  "json_remove k d = d\<lparr>jd_data := remove_member (Some k) (jd_data d)\<rparr>"

definition json_remove_element :: "nat \<Rightarrow> json_document \<Rightarrow> json_document" where
  "json_remove_element i d = d\<lparr>jd_data := remove_element i (jd_data d)\<rparr>"

section \<open>A document never leaves its memory\<close>

definition step_ok :: "path_step \<Rightarrow> bool" where
  "step_ok s = (case s of Member pol k \<Rightarrow> NUL \<notin> set k | Element n \<Rightarrow> True)"

text \<open>A step of the document in its pool: the slots it adds are taken from the pool.\<close>

definition grows :: "variant \<Rightarrow> memory_pool \<Rightarrow> variant \<Rightarrow> memory_pool \<Rightarrow> bool" where
  "grows v p v' p' \<longleftrightarrow> pool_ok p' \<and> pool_extends p p' \<and> variant_ok v' \<and>
     SLOT_SIZE * slots v' + mp_right p \<le> SLOT_SIZE * slots v + mp_right p'"

lemma grows_trans: "grows v p v1 p1 \<Longrightarrow> grows v1 p1 v2 p2 \<Longrightarrow> grows v p v2 p2"
  by (auto simp: grows_def dest: pool_extends_trans)

lemma grows_member:
  assumes "variant_get_or_add_member pol (Some k) v p = (r, v', p')" "variant_ok v" "pool_ok p" "NUL \<notin> set k"
  shows "grows v p v' p'" "r = Some i \<Longrightarrow> \<exists>ms. v' = VObject ms \<and> i < length ms"
proof -
  let ?w = "if is_null v then VObject [] else v"
  have "grows v p v' p' \<and> (\<forall>i. r = Some i \<longrightarrow> (\<exists>ms. v' = VObject ms \<and> i < length ms))"
  proof (cases "\<exists>ms. ?w = VObject ms")
    case True
    then obtain ms where w: "?w = VObject ms" by blast
    obtain ms' where a: "get_or_add_member pol (Some k) ms p = (r, ms', p')" "v' = VObject ms'"
      using assms(1) w by (auto simp: variant_get_or_add_member_def split: prod.splits)
    have ok: "variant_ok (VObject ms)" "slots (VObject ms) = slots v"
      using w assms(2) by (auto split: if_splits)
    note A = get_or_add_member_ok [OF a(1)]
    show ?thesis
    proof (cases r)
      case None
      then show ?thesis using A a ok assms(3) get_or_add_member_def
        by (auto simp: grows_def pool_extends_def)
    next
      case (Some j)
      consider "get_slot k ms = Some j" "ms' = ms" | "j = length ms" "ms' = ms @ [((pol, k), VNull)]" "get_slot k ms = None"
        using A(3) [OF Some] assms(4) by auto
      then show ?thesis
      proof cases
        case 1
        then show ?thesis using A(1) a ok assms(3) Some get_slot_Some [of k ms j]
          by (auto simp: grows_def pool_extends_def)
      next
        case 2
        then have "add_member pol (Some k) ms p = (r, ms', p')" using a by (simp add: get_or_add_member_def)
        from add_member_slots [OF this] 2 have "SLOT_SIZE + mp_right p \<le> mp_right p'"
          by (simp add: algebra_simps)
        moreover have "variant_ok v'" "slots v' = Suc (slots v)"
          using ok 2 a get_slot_None [of k ms] assms(4)
          by (auto simp: members_ok_all members_slots_sum simp flip: ok(2))
        ultimately show ?thesis using A(1) a assms(3) Some 2 by (simp add: grows_def)
      qed
    qed
  next
    case False
    then have "r = None" "v' = v" "p' = p"
      using assms(1) by (auto simp: variant_get_or_add_member_def split: variant.splits if_splits)
    then show ?thesis using assms by (simp add: grows_def)
  qed
  then show "grows v p v' p'" "r = Some i \<Longrightarrow> \<exists>ms. v' = VObject ms \<and> i < length ms" by auto
qed

lemma grows_element:
  assumes "variant_get_or_add_element n v p = (r, v', p')" "variant_ok v" "pool_ok p"
  shows "grows v p v' p'" "r = Some i \<Longrightarrow> \<exists>vs. v' = VArray vs \<and> i < length vs"
proof -
  let ?w = "if is_null v then VArray [] else v"
  have "grows v p v' p' \<and> (\<forall>i. r = Some i \<longrightarrow> (\<exists>vs. v' = VArray vs \<and> i < length vs))"
  proof (cases "\<exists>vs. ?w = VArray vs")
    case True
    then obtain vs where w: "?w = VArray vs" by blast
    obtain vs' where a: "get_or_add_element n vs p = (r, vs', p')" "v' = VArray vs'"
      using assms(1) w by (auto simp: variant_get_or_add_element_def split: prod.splits)
    have ok: "variant_ok (VArray vs)" "slots (VArray vs) = slots v"
      using w assms(2) by (auto split: if_splits)
    from get_or_add_element_ok [OF a(1)] obtain m where
      A: "pool_ok p' \<and> pool_extends p p'" "vs' = vs @ replicate m VNull" "\<forall>i. r = Some i \<longrightarrow> i < length vs'"
        "SLOT_SIZE * length vs' + mp_right p = SLOT_SIZE * length vs + mp_right p'"
      using assms(3) by blast
    have "SLOT_SIZE * slots v' + mp_right p = SLOT_SIZE * slots v + mp_right p'"
      using A(2,4) ok(2) a(2) by (simp add: elements_slots_sum sum_list_replicate algebra_simps)
    then show ?thesis using A ok(1) a(2) by (auto simp: grows_def elements_ok_all)
  next
    case False
    then have "r = None" "v' = v" "p' = p"
      using assms(1) by (auto simp: variant_get_or_add_element_def split: variant.splits if_splits)
    then show ?thesis using assms by (simp add: grows_def)
  qed
  then show "grows v p v' p'" "r = Some i \<Longrightarrow> \<exists>vs. v' = VArray vs \<and> i < length vs" by auto
qed

lemma grows_put:
  assumes "grows v p v1 p1" "locate pos v1 = Some u" "grows u p1 w p2"
  shows "grows v p (put_at pos w v1) p2"
proof -
  have "variant_ok (put_at pos w v1) \<and> slots (put_at pos w v1) + slots u = slots v1 + slots w"
    using put_slots [OF assms(2)] assms(1,3) by (simp add: grows_def)
  moreover from this have "SLOT_SIZE * slots (put_at pos w v1) + SLOT_SIZE * slots u = SLOT_SIZE * slots v1 + SLOT_SIZE * slots w"
    by (metis distrib_left)
  ultimately show ?thesis using assms(1,3) by (auto simp: grows_def dest: pool_extends_trans)
qed

text \<open>A step of a path: the slot that is found or added, and the value that is worked on behind it.\<close>

definition add_slot :: "path_step \<Rightarrow> variant \<Rightarrow> memory_pool \<Rightarrow> nat option \<times> variant \<times> memory_pool" where
  "add_slot s v p =
     (case s of
        Member pol k \<Rightarrow> variant_get_or_add_member pol (Some k) v p
      | Element n \<Rightarrow> variant_get_or_add_element n v p)"

lemma add_slot_Some:
  assumes "add_slot s v p = (Some i, v', p')"
  shows "(\<exists>pol k ms. s = Member pol k \<and> v' = VObject ms \<and> i < length ms) \<or> (\<exists>n vs. s = Element n \<and> v' = VArray vs \<and> i < length vs)"
proof (cases s)
  case (Member pol k)
  with assms have "\<exists>ms ms'. get_or_add_member pol (Some k) ms p = (Some i, ms', p') \<and> v' = VObject ms'"
    by (cases v) (auto simp: add_slot_def variant_get_or_add_member_def split: prod.splits)
  then obtain ms ms' where "get_or_add_member pol (Some k) ms p = (Some i, ms', p')" "v' = VObject ms'" by blast
  with get_or_add_member_ok(3) [of pol k ms p "Some i" ms' p'] get_slot_Some [of k ms i] Member show ?thesis by auto
next
  case (Element n)
  with assms show ?thesis using get_or_add_element_ok [of n _ p "Some i"]
    by (fastforce simp: add_slot_def variant_get_or_add_element_def split: variant.splits prod.splits if_splits)
qed

lemma add_slot_locate: "add_slot s v p = (Some i, v', p') \<Longrightarrow> \<exists>u. locate [i] v' = Some u"
  using add_slot_Some by fastforce

lemma at_path_step:
  "at_path (s # ps) f v p =
     (case add_slot s v p of
        (None, v', p') \<Rightarrow> (v', p')
      | (Some i, v', p') \<Rightarrow> (let (w, p'') = at_path ps f (the (locate [i] v')) p' in (put_at [i] w v', p'')))"
proof -
  obtain r v' p' where a: "add_slot s v p = (r, v', p')" by (cases "add_slot s v p") auto
  show ?thesis
  proof (cases r)
    case None
    with a show ?thesis by (cases s) (simp_all add: add_slot_def)
  next
    case (Some i)
    with add_slot_Some a consider pol k ms where "s = Member pol k" "v' = VObject ms" "i < length ms"
      | n vs where "s = Element n" "v' = VArray vs" "i < length vs" by blast
    then show ?thesis using a Some by cases (simp_all add: add_slot_def)
  qed
qed

lemma grows_slot: "add_slot s v p = (r, v', p') \<Longrightarrow> step_ok s \<Longrightarrow> variant_ok v \<Longrightarrow> pool_ok p \<Longrightarrow> grows v p v' p'"
  using grows_member(1) grows_element(1) by (cases s) (auto simp: add_slot_def step_ok_def)

lemma at_path_grows:
  assumes "at_path ps f v p = (v', p')" "list_all step_ok ps" "variant_ok v" "pool_ok p"
    and f: "\<And>u p w p'. f p = (w, p') \<Longrightarrow> pool_ok p \<Longrightarrow> grows u p w p'"
  shows "grows v p v' p'"
  using assms(1-4)
proof (induction ps arbitrary: v p v' p')
  case Nil
  then show ?case using f by simp
next
  case (Cons s ps)
  obtain r v1 p1 where a: "add_slot s v p = (r, v1, p1)" by (cases "add_slot s v p") auto
  have g: "grows v p v1 p1" using grows_slot [OF a] Cons.prems by simp
  show ?case
  proof (cases r)
    case None
    with g a Cons.prems(1) show ?thesis by (simp add: at_path_step del: at_path.simps)
  next
    case (Some i)
    then obtain u where u: "locate [i] v1 = Some u" using add_slot_locate a by blast
    obtain w p2 where w: "at_path ps f u p1 = (w, p2)" by (cases "at_path ps f u p1") auto
    have "grows u p1 w p2" using Cons.IH [OF w] Cons.prems(2) locate_ok [OF u] g by (simp add: grows_def)
    from grows_put [OF g u this] a Some u w Cons.prems(1) show ?thesis
      by (simp add: at_path_step del: at_path.simps locate.simps put_at.simps)
  qed
qed

lemma convert_grows:
  assumes "convert_to_json src p = (w, p')" "pool_ok p"
  shows "grows u p w p'"
proof (cases src)
  case (Src_chars c)
  then show ?thesis using assms
    by (auto simp: convert_to_json_def store_string_def store_def set_string_def grows_def split: option.splits)
next
  case (Src_string str)
  obtain r b p1 where st: "store Copied (Some str) p = (r, b, p1)" by (cases "store Copied (Some str) p") auto
  have "p' = p1" "w = (case r of Some t \<Rightarrow> set_string t | None \<Rightarrow> VNull)"
    using assms(1) st Src_string by (auto simp: convert_to_json_def store_string_def)
  moreover have "variant_ok w \<and> slots w = 0" using calculation(2)
    by (auto simp: set_string_def split: option.splits storage.splits prod.splits)
  ultimately show ?thesis using store_ok [OF st assms(2)] store_right [OF st] by (simp add: grows_def)
qed (use assms in \<open>auto simp: convert_to_json_def grows_def\<close>)

lemma copy_slots:
  "copy_from v p = (b, v', p') \<Longrightarrow> variant_ok v \<Longrightarrow>
     variant_ok v' \<and> SLOT_SIZE * slots v' + mp_right p \<le> mp_right p'"
  "copy_elements vs p = (b, vs', p') \<Longrightarrow> elements_ok vs \<Longrightarrow>
     elements_ok vs' \<and> SLOT_SIZE * elements_slots vs' + mp_right p \<le> mp_right p'"
  "copy_members ms p = (b, ms', p') \<Longrightarrow> members_ok ms \<Longrightarrow>
     members_ok ms' \<and> (\<exists>n. map slot_key ms' = take n (map slot_key ms)) \<and>
     SLOT_SIZE * members_slots ms' + mp_right p \<le> mp_right p'"
proof (induction v p and vs p and ms p arbitrary: b v' p' and b vs' p' and b ms' p'
    rule: copy_from_copy_elements_copy_members.induct)
  case (2 ms p)
  obtain ms' where *: "copy_members ms p = (b, ms', p')" "v' = VObject ms'"
    using 2(2) by (auto split: prod.splits)
  with 2(1) [OF *(1)] 2(3) show ?case by (auto simp: distinct_take)
next
  case (3 s p)
  then have "slots v' = 0 \<and> variant_ok v'"
    by (auto simp: store_string_def set_string_def split: prod.splits option.splits storage.splits)
  then show ?case using 3 by (auto simp: store_string_def split: prod.splits option.splits dest: store_right)
next
  case (4 s p)
  then show ?case by (auto simp: store_owned_raw_def save_string_def alloc_string_def pool_simps
      split: prod.splits option.splits if_splits)
next
  case (7 v vs p)
  from 7(4) have ok: "variant_ok v" "elements_ok vs" by simp_all
  from 7(3) show ?case
  proof (cases rule: copy_elements_cases)
    case 1
    then show ?thesis using alloc_variant_slots [OF 1(1)] by simp
  next
    case (2 p1 v2)
    have "variant_ok v2 \<and> SLOT_SIZE * slots v2 + mp_right p1 \<le> mp_right p'"
      using 7(1) [OF 2(1) [symmetric] _ 2(2)] ok(1) by simp
    with alloc_variant_slots [OF 2(1)] 2(4) show ?thesis by simp
  next
    case (3 p1 v2 p2 vs2)
    have "variant_ok v2 \<and> SLOT_SIZE * slots v2 + mp_right p1 \<le> mp_right p2"
      using 7(1) [OF 3(1) [symmetric] _ 3(2)] ok(1) by simp
    moreover have "elements_ok vs2 \<and> SLOT_SIZE * elements_slots vs2 + mp_right p2 \<le> mp_right p'"
      using 7(2) [OF 3(1) [symmetric] _ 3(2) [symmetric] _ refl 3(3)] ok(2) by simp
    ultimately show ?thesis using alloc_variant_slots [OF 3(1)] 3(4) by (simp add: distrib_left)
  qed
next
  case (9 own k v ms p)
  from 9(4) have ok: "c_str k = k" "variant_ok v" "members_ok ms" by simp_all
  from 9(3) ok(1) show ?case
  proof (cases rule: copy_members_cases)
    case (1 x)
    then show ?thesis using add_member_slots [OF 1(1)] by (auto intro!: exI [of _ 0])
  next
    case (2 i x p1 v2)
    have "variant_ok v2 \<and> SLOT_SIZE * slots v2 + mp_right p1 \<le> mp_right p'"
      using 9(1) [OF 2(1) [symmetric] _ refl 2(3)] ok by simp
    with 9(4) add_member_slots [OF 2(1)] 2(2,5) show ?thesis by (auto intro!: exI [of _ 1])
  next
    case (3 i x p1 v2 p2 ms2)
    have s2: "variant_ok v2 \<and> SLOT_SIZE * slots v2 + mp_right p1 \<le> mp_right p2"
      using 9(1) [OF 3(1) [symmetric] _ refl 3(3)] ok by simp
    have s3: "members_ok ms2 \<and> (\<exists>n. map slot_key ms2 = take n (map slot_key ms)) \<and>
        SLOT_SIZE * members_slots ms2 + mp_right p2 \<le> mp_right p'"
      using 9(2) [OF 3(1) [symmetric] _ refl 3(3) [symmetric] _ refl 3(4)] ok by simp
    then obtain n where "map slot_key ms2 = take n (map slot_key ms)" by blast
    then have "map slot_key (((own, k), v2) # ms2) = take (Suc n) (map slot_key (((own, k), v) # ms))" by simp
    with 9(4) add_member_slots [OF 3(1)] 3(2,5) s2 s3 show ?thesis
      by (auto simp: distrib_left intro!: exI [of _ "Suc n"])
  qed
qed (auto split: prod.splits)

definition doc_ok :: "json_document \<Rightarrow> bool" where
  "doc_ok d \<longleftrightarrow> pool_ok (jd_pool d) \<and> variant_ok (jd_data d) \<and>
     SLOT_SIZE * slots (jd_data d) \<le> mp_right (jd_pool d)"

inductive json_step :: "json_document \<Rightarrow> json_document \<Rightarrow> bool" where
  step_clear: "json_step d (json_clear d)"
| step_set: "list_all step_ok path \<Longrightarrow> json_step d (json_set path src d)"
| step_copy: "variant_ok v \<Longrightarrow> json_step d (snd (json_copy v d))"
| step_remove: "json_step d (json_remove k d)"
| step_remove_element: "json_step d (json_remove_element i d)"
| step_shrink: "json_step d (shrink_to_fit d)"

inductive_cases json_stepE: "json_step d d'"

lemma doc_ok_clear: "doc_ok d \<Longrightarrow> doc_ok (json_clear d)"
  by (simp add: doc_ok_def json_clear_def pool_clear_ok)

lemma json_set_ok:
  assumes "doc_ok d" "list_all step_ok path"
  shows "doc_ok (json_set path src d)" "pool_extends (jd_pool d) (jd_pool (json_set path src d))"
proof -
  obtain v p where a: "at_path path (convert_to_json src) (jd_data d) (jd_pool d) = (v, p)"
    by (cases "at_path path (convert_to_json src) (jd_data d) (jd_pool d)") auto
  have "grows (jd_data d) (jd_pool d) v p"
    using at_path_grows [OF a assms(2)] assms(1) convert_grows by (auto simp: doc_ok_def)
  then show "doc_ok (json_set path src d)" "pool_extends (jd_pool d) (jd_pool (json_set path src d))"
    using assms(1) a by (auto simp: doc_ok_def grows_def json_set_def)
qed

lemma json_copy_ok:
  assumes "doc_ok d" "variant_ok src"
  shows "doc_ok (snd (json_copy src d))" "mp_capacity (jd_pool (snd (json_copy src d))) = mp_capacity (jd_pool d)"
proof -
  let ?p = "pool_clear (jd_pool d)"
  obtain b v p where a: "copy_from src ?p = (b, v, p)" by (cases "copy_from src ?p") auto
  have "pool_ok p" "pool_extends ?p p"
    using copy_correct(1) [OF a assms(2)] pool_clear_ok assms(1) by (auto simp: alloc_spec_def doc_ok_def)
  then show "doc_ok (snd (json_copy src d))"
    "mp_capacity (jd_pool (snd (json_copy src d))) = mp_capacity (jd_pool d)"
    using copy_slots(1) [OF a assms(2)] a
    by (auto simp: doc_ok_def json_copy_def json_clear_def pool_extends_def pool_clear_def)
qed

lemma remove_slot_ok:
  "variant_ok (VObject ms) \<Longrightarrow> variant_ok (VObject (remove_slot r ms)) \<and>
     members_slots (remove_slot r ms) \<le> members_slots ms"
  "elements_ok vs \<Longrightarrow> elements_ok (remove_slot r vs) \<and> elements_slots (remove_slot r vs) \<le> elements_slots vs"
proof -
  have *: "map slot_key (remove_slot r ms) = remove_slot r (map slot_key ms)"
    by (auto simp: remove_slot_def take_map drop_map split: option.splits)
  have d: "distinct xs \<Longrightarrow> distinct (remove_slot r xs)" for xs :: "string list"
    by (cases r) (auto simp: remove_slot_def set_take_disj_set_drop_if_distinct)
  have sub: "set (remove_slot r xs) \<subseteq> set xs" for xs :: "'c list"
    by (auto simp: remove_slot_def dest: in_set_takeD in_set_dropD split: option.splits)
  have len: "length (remove_slot r xs) \<le> length xs" for xs :: "'c list"
    by (auto simp: remove_slot_def split: option.splits)
  have sum: "sum_list (map g (remove_slot r xs)) \<le> sum_list (map g xs)" for xs :: "'c list" and g :: "'c \<Rightarrow> nat"
  proof (cases r)
    case (Some i)
    have "sum_list (map g (drop (Suc i) xs)) \<le> sum_list (map g (drop i xs))"
      by (cases "drop i xs") (auto simp: drop_Suc drop_tl)
    then have "sum_list (map g (take i xs)) + sum_list (map g (drop (Suc i) xs))
        \<le> sum_list (map g (take i xs @ drop i xs))" by (simp del: append_take_drop_id)
    with Some show ?thesis by (simp add: remove_slot_def)
  qed (simp add: remove_slot_def)
  show "variant_ok (VObject ms) \<Longrightarrow> variant_ok (VObject (remove_slot r ms)) \<and>
     members_slots (remove_slot r ms) \<le> members_slots ms"
    using d [of "map slot_key ms"] sub [of ms] len [of ms] sum [of "slots \<circ> slot_data" ms]
    by (auto simp: members_ok_all members_slots_sum * intro!: add_mono)
  show "elements_ok vs \<Longrightarrow> elements_ok (remove_slot r vs) \<and> elements_slots (remove_slot r vs) \<le> elements_slots vs"
    using sub [of vs] len [of vs] sum [of slots vs] by (auto simp: elements_ok_all elements_slots_sum)
qed

lemma json_step_ok: "json_step d d' \<Longrightarrow> doc_ok d \<Longrightarrow>
    doc_ok d' \<and> mp_capacity (jd_pool d') \<le> mp_capacity (jd_pool d)"
proof (induction rule: json_step.induct)
  case (step_set path d src)
  then show ?case using json_set_ok by (auto simp: pool_extends_def)
next
  case (step_copy v d)
  then show ?case using json_copy_ok by simp
next
  case (step_remove d k)
  show ?case
  proof (cases "jd_data d")
    case (VObject ms)
    with step_remove remove_slot_ok(1) [of ms "get_member (Some k) ms"] show ?thesis
      by (auto simp: doc_ok_def json_remove_def remove_member_def intro: order_trans [OF mult_le_mono2])
  qed (use step_remove in \<open>simp_all add: json_remove_def remove_member_def doc_ok_def\<close>)
next
  case (step_remove_element d i)
  show ?case
  proof (cases "jd_data d")
    case (VArray vs)
    with step_remove_element remove_slot_ok(2) [of vs "get_element i vs"] show ?thesis
      by (auto simp: doc_ok_def json_remove_element_def remove_element_def intro: order_trans [OF mult_le_mono2])
  qed (use step_remove_element in \<open>simp_all add: json_remove_element_def remove_element_def doc_ok_def\<close>)
next
  case (step_shrink d)
  have "length (mp_strings p) \<le> add_padding (length (mp_strings p))" for p
    by (simp add: add_padding_def)
  then show ?case using step_shrink
    by (auto simp: doc_ok_def shrink_to_fit_def squash_def Let_def pool_ok_def)
next
  case (step_clear d)
  then show ?case using doc_ok_clear by (simp add: json_clear_def pool_clear_def)
qed

lemma new_document_ok: "doc_ok (new_document malloc_ok capa)"
  by (simp add: doc_ok_def new_document_def alloc_pool_def)

section \<open>An assignment is a map update\<close>

text \<open>No value on the way to the path is anything but an object or null.\<close>

fun path_open :: "string list \<Rightarrow> variant \<Rightarrow> bool" where
  "path_open [] v = True"
| "path_open (k # ks) v =
     (case v of
        VNull \<Rightarrow> True
      | VObject ms \<Rightarrow> (case get_slot k ms of Some i \<Rightarrow> path_open ks (slot_data (ms ! i)) | None \<Rightarrow> True)
      | _ \<Rightarrow> False)"

definition members :: "(storage \<times> string) list \<Rightarrow> path_step list" where
  "members ks = map (\<lambda>(pol, k). Member pol k) ks"

lemma get_path_object:
  "get_path (k # ks) (VObject ms) = (case lookup k ms of Some v \<Rightarrow> get_path ks v | None \<Rightarrow> None)"
  by (auto simp: lookup_def get_member_def split: option.splits)

lemma path_open_VNull: "path_open ks VNull"
  by (cases ks) auto

lemma get_path_VNull: "ks \<noteq> [] \<Longrightarrow> get_path ks VNull = None"
  by (cases ks) auto

lemma keys_ok_Nil: "keys_ok []"
  by (simp add: keys_ok_def)

lemma overflow_mono: "pool_extends p p' \<Longrightarrow> \<not> mp_overflowed p' \<Longrightarrow> \<not> mp_overflowed p"
  by (auto simp: pool_extends_def)

lemma get_or_add_member_None:
  "get_or_add_member pol (Some k) ms p = (None, ms', p') \<Longrightarrow> mp_overflowed p'"
  by (auto simp: get_or_add_member_def alloc_spec_def split: option.splits dest: add_member_spec)

text \<open>One member of the way: the value \<open>u\<close> behind it, worked on by the rest of the path, becomes \<open>w\<close>.\<close>

lemma at_path_member:
  assumes "at_path (members ((pol, k) # ks)) f v p = (v', p')" "path_open (k # map snd ks) v" "variant_ok v" "pool_ok p"
    and "NUL \<notin> set k" "\<not> mp_overflowed p'"
  obtains u p1 w where "at_path (members ks) f u p1 = (w, p')" "path_open (map snd ks) u" "variant_ok u" "pool_ok p1"
    "\<And>js. get_path (k # js) v' = get_path js w"
    "\<And>js. js \<noteq> [] \<Longrightarrow> get_path (k # js) v = get_path js u"
    "\<And>j js. j \<noteq> k \<Longrightarrow> get_path (j # js) v' = get_path (j # js) v"
proof -
  define ms where "ms = (case v of VObject ms \<Rightarrow> ms | _ \<Rightarrow> [])"
  have v: "v = VNull \<and> ms = [] \<or> v = VObject ms"
    using assms(2) by (auto simp: ms_def split: variant.splits)
  obtain r ms' p1 where g: "get_or_add_member pol (Some k) ms p = (r, ms', p1)"
    by (cases "get_or_add_member pol (Some k) ms p") auto
  have a: "variant_get_or_add_member pol (Some k) v p = (r, VObject ms', p1)"
    using g v by (auto simp: variant_get_or_add_member_def)
  have ok: "pool_ok p1" "variant_ok (VObject ms')"
    using grows_member(1) [OF a assms(3,4,5)] by (simp_all add: grows_def)
  have "r \<noteq> None" using assms(1,6) a g get_or_add_member_None [of pol k ms p ms' p1]
    by (cases r) (auto simp: members_def)
  then obtain i where i: "r = Some i" by blast
  have keys: "keys_ok ms" using v assms(3) by (auto simp: object_ok_keys keys_ok_Nil simp del: variant_ok.simps)
  note R = get_or_add_member_refines [OF g [unfolded i] assms(4) keys assms(5)]
  let ?u = "slot_data (ms' ! i)"
  have u: "?u = (case lookup k ms of Some u \<Rightarrow> u | None \<Rightarrow> VNull)"
    using get_or_add_member_ok(3) [OF g i] by (auto simp: lookup_def)
  obtain w p2 where w: "at_path (members ks) f ?u p1 = (w, p2)" by (cases "at_path (members ks) f ?u p1") auto
  have v': "v' = VObject (ms'[i := (fst (ms' ! i), w)])" "p' = p2"
    using assms(1) a i w by (auto simp: members_def)
  have Gv: "get_path (j # js) v = (case lookup j ms of Some u \<Rightarrow> get_path js u | None \<Rightarrow> None)" for j js
    using v get_path_object by auto
  show thesis
  proof (rule that [of ?u p1 w])
    show "path_open (map snd ks) ?u"
      using assms(2) v u by (auto simp: lookup_def path_open_VNull split: option.splits)
    show "variant_ok ?u" using ok(2) R(1) by (auto simp: members_ok_all)
    show "get_path (k # js) v' = get_path js w" for js unfolding v' get_path_object R(3) by simp
    show "get_path (k # js) v = get_path js ?u" if "js \<noteq> []" for js
      using that u by (auto simp: Gv get_path_VNull simp del: get_path.simps split: option.splits)
    show "get_path (j # js) v' = get_path (j # js) v" if "j \<noteq> k" for j js
      using that unfolding v' get_path_object R(3) by (simp add: Gv del: get_path.simps)
  qed (use w v' ok in auto)
qed

lemma at_path_update:
  assumes "at_path (members ks) f v p = (v', p')" "path_open (map snd ks) v" "variant_ok v" "pool_ok p"
    and "\<forall>(pol, k)\<in>set ks. NUL \<notin> set k" "\<not> mp_overflowed p'"
  shows "\<exists>q. get_path (map snd ks) v' = Some (fst (f q)) \<and> snd (f q) = p' \<and>
    (\<forall>js. (\<nexists>zs. js = map snd ks @ zs) \<longrightarrow> (\<nexists>zs. map snd ks = js @ zs) \<longrightarrow> get_path js v' = get_path js v)"
  using assms
proof (induction ks arbitrary: v p v' p')
  case Nil
  then show ?case by (auto simp: members_def intro!: exI [of _ p])
next
  case (Cons pk ks)
  obtain pol k where pk: "pk = (pol, k)" by (cases pk)
  have P: "at_path (members ((pol, k) # ks)) f v p = (v', p')" "path_open (k # map snd ks) v" "NUL \<notin> set k"
    using Cons.prems pk by simp_all
  obtain u p1 w where s:
    "at_path (members ks) f u p1 = (w, p')" "path_open (map snd ks) u" "variant_ok u" "pool_ok p1"
    "\<And>js. get_path (k # js) v' = get_path js w"
    "\<And>js. js \<noteq> [] \<Longrightarrow> get_path (k # js) v = get_path js u"
    "\<And>j js. j \<noteq> k \<Longrightarrow> get_path (j # js) v' = get_path (j # js) v"
    by (rule at_path_member [OF P(1,2) Cons.prems(3,4) P(3) Cons.prems(6)]) blast
  obtain q where q: "get_path (map snd ks) w = Some (fst (f q))" "snd (f q) = p'"
    "\<forall>js. (\<nexists>zs. js = map snd ks @ zs) \<longrightarrow> (\<nexists>zs. map snd ks = js @ zs) \<longrightarrow> get_path js w = get_path js u"
    using Cons.IH [OF s(1-4)] Cons.prems(5,6) by auto
  have "get_path js v' = get_path js v"
    if js: "\<nexists>zs. js = map snd (pk # ks) @ zs" "\<nexists>zs. map snd (pk # ks) = js @ zs" for js
  proof (cases js)
    case Nil
    then show ?thesis using js(2) by simp
  next
    case (Cons j js')
    show ?thesis
    proof (cases "j = k")
      case True
      then have "\<nexists>zs. js' = map snd ks @ zs" "\<nexists>zs. map snd ks = js' @ zs" using js Cons pk by auto
      moreover from this have "js' \<noteq> []" by auto
      ultimately show ?thesis using True Cons q(3) s(5,6) by simp
    qed (use Cons s(7) in simp)
  qed
  then show ?case using q pk s(5) by (intro exI [of _ q]) simp
qed

text \<open>The value an assignment leaves in its slot.\<close>

definition stored_value :: "json_src \<Rightarrow> variant" where
  "stored_value src =
     (case src of
        Src_int i \<Rightarrow> VInt (word_of_int i)
      | Src_unsigned n \<Rightarrow> VUInt (word_of_nat n)
      | Src_bool b \<Rightarrow> VBool b
      | Src_chars None \<Rightarrow> VNull
      | Src_chars (Some s) \<Rightarrow> VString Linked s
      | Src_string s \<Rightarrow> VString Copied s)"

lemma convert_stores:
  assumes "convert_to_json src p = (w, p')" "\<not> mp_overflowed p'"
  shows "w = stored_value src"
proof (cases src)
  case (Src_string str)
  obtain r b p1 where st: "store Copied (Some str) p = (r, b, p1)" by (cases "store Copied (Some str) p") auto
  have w: "p' = p1" "w = (case r of Some t \<Rightarrow> set_string t | None \<Rightarrow> VNull)"
    using assms(1) st Src_string by (auto simp: convert_to_json_def store_string_def)
  have b using store_spec [OF st] assms(2) w(1) by (auto simp: alloc_spec_def)
  then have "r \<noteq> None" using store_flag [OF st] by simp
  then have "r = Some (Copied, str)" using store_Some st by fastforce
  then show ?thesis using w(2) Src_string by (simp add: stored_value_def set_string_def)
qed (use assms in \<open>auto simp: convert_to_json_def stored_value_def store_string_def store_def set_string_def
    split: option.splits\<close>)

text \<open>An assignment to \<open>json[k1]...[kn]\<close> on a document that has no other kind of value in
  the way, and that does not run out of memory, stores the value there and changes no other path: the
  document behaves like a nested map that is updated.\<close>

lemma assignment_updates:
  assumes "doc_ok d" "\<forall>(pol, k)\<in>set ks. NUL \<notin> set k" "path_open (map snd ks) (jd_data d)"
    and "d' = json_set (members ks) src d" "\<not> json_overflowed d'"
  shows "get_path (map snd ks) (jd_data d') = Some (stored_value src) \<and>
    (\<forall>js. (\<nexists>zs. js = map snd ks @ zs) \<longrightarrow> (\<nexists>zs. map snd ks = js @ zs) \<longrightarrow>
       get_path js (jd_data d') = get_path js (jd_data d))"
proof -
  obtain v p where a: "at_path (members ks) (convert_to_json src) (jd_data d) (jd_pool d) = (v, p)"
    by (cases "at_path (members ks) (convert_to_json src) (jd_data d) (jd_pool d)") auto
  have d': "jd_data d' = v" "jd_pool d' = p" using a assms(4) by (simp_all add: json_set_def)
  have no: "\<not> mp_overflowed p" using assms(5) d' by (simp add: json_overflowed_def)
  have ok: "variant_ok (jd_data d)" "pool_ok (jd_pool d)" using assms(1) by (simp_all add: doc_ok_def)
  obtain q where q: "get_path (map snd ks) v = Some (fst (convert_to_json src q))"
      "snd (convert_to_json src q) = p"
      "\<forall>js. (\<nexists>zs. js = map snd ks @ zs) \<longrightarrow> (\<nexists>zs. map snd ks = js @ zs) \<longrightarrow>
         get_path js v = get_path js (jd_data d)"
    using at_path_update [OF a assms(3) ok assms(2) no] by blast
  have "fst (convert_to_json src q) = stored_value src"
    using convert_stores [OF _ no, of src q] q(2) by (metis prod.collapse)
  then show ?thesis using q(1,3) d' by simp
qed

end
