(* ===== verification/Ieee_Exact.thy ===== *)
theory Ieee_Exact
  imports Ieee_Double
begin

text \<open>
  When the conversions of \<open>Ieee_Double\<close> are exact: a number whose significant bits fit the format
  and whose exponent is in range is encoded without rounding, so widening a \<open>float\<close> to a
  \<open>double\<close>, and a small integer to a \<open>float\<close>, keeps its value. Equality of values is \<open>fl_eq\<close>, of which
  the lemmas show that it is an equivalence on finite numbers.
\<close>

section \<open>Equal values\<close>

lemma scaled_shift:
  assumes "e1 \<le> e0" "e0 \<le> e"
  shows "scaled s m e e1 = scaled s m e e0 * 2 ^ nat (e0 - e1)"
proof -
  have "nat (e - e1) = nat (e - e0) + nat (e0 - e1)" using assms by linarith
  then show ?thesis by (simp add: scaled_def power_add)
qed

text \<open>Two finite values are equal when they are at any exponent below both.\<close>

lemma fl_eq_at:
  assumes "k \<le> e" "k \<le> f"
  shows "fl_eq (FFin s m e) (FFin t n f) \<longleftrightarrow> scaled s m e k = scaled t n f k"
proof -
  have "scaled s m e k = scaled s m e (min e f) * 2 ^ nat (min e f - k)"
    "scaled t n f k = scaled t n f (min e f) * 2 ^ nat (min e f - k)"
    using assms by (intro scaled_shift; simp)+
  then show ?thesis by (simp add: fl_eq_def Let_def)
qed

lemma fl_less_at:
  assumes "k \<le> e" "k \<le> f"
  shows "fl_less (FFin s m e) (FFin t n f) \<longleftrightarrow> scaled s m e k < scaled t n f k"
proof -
  have "scaled s m e k = scaled s m e (min e f) * 2 ^ nat (min e f - k)"
    "scaled t n f k = scaled t n f (min e f) * 2 ^ nat (min e f - k)"
    using assms by (intro scaled_shift; simp)+
  then show ?thesis by (simp add: fl_less_def Let_def)
qed

lemma fl_eq_finite: "fl_eq (FFin s m e) y \<Longrightarrow> \<exists>t n f. y = FFin t n f"
  by (cases y) (simp_all add: fl_eq_def)

lemma fl_eq_sym: "fl_eq x y \<Longrightarrow> fl_eq y x"
  by (auto simp: fl_eq_def min.commute Let_def split: float_value.splits)

lemma fl_eq_trans: "fl_eq x y \<Longrightarrow> fl_eq y z \<Longrightarrow> fl_eq x z"
proof (cases x; cases y; cases z)
  fix s t u m n l e f g
  assume *: "fl_eq x y" "fl_eq y z" "x = FFin s m e" "y = FFin t n f" "z = FFin u l g"
  define k where "k = min e (min f g)"
  have "k \<le> e" "k \<le> f" "k \<le> g" by (simp_all add: k_def)
  with * show ?thesis by (simp add: fl_eq_at [of k])
qed (auto simp: fl_eq_def)

section \<open>The length of a number\<close>

lemma count_bits_bounds: "0 < n \<Longrightarrow> \<exists>j. count_bits n k = k + int j \<and> 2 ^ j \<le> 2 * n \<and> n < 2 ^ j"
proof (induction n k rule: count_bits.induct)
  case (1 n k)
  then have c: "count_bits n k = count_bits (n div 2) (k + 1)" by (subst count_bits.simps) simp
  show ?case
  proof (cases "n = 1")
    case True
    then show ?thesis by (intro exI [of _ 1]) (simp add: count_bits.simps)
  next
    case False
    with 1 obtain j where "count_bits (n div 2) (k + 1) = k + 1 + int j" "2 ^ j \<le> 2 * (n div 2)" "n div 2 < 2 ^ j"
      by auto
    then show ?thesis by (intro exI [of _ "Suc j"]) (auto simp: c)
  qed
qed

lemma bit_length_bounds:
  assumes "0 < n"
  obtains j where "bit_length n = int (Suc j)" "2 ^ j \<le> n" "n < 2 ^ Suc j"
proof -
  from count_bits_bounds [OF assms, of 0] obtain j where
    j: "bit_length n = int j" "2 ^ j \<le> 2 * n" "n < 2 ^ j" by (auto simp: bit_length_def)
  with assms that show ?thesis by (cases j) auto
qed

section \<open>Encoding without rounding\<close>

lemma fl_round_le: "fl_round ff m e \<le> ff_top ff * 2 ^ ff_bits ff"
  by (simp add: fl_round_def Let_def)

text \<open>The fraction and the biased exponent of a number that needs no rounding.\<close>

lemma fl_decode_fields:
  assumes "q < 2 ^ Suc (ff_bits ff)" "k + 1 < ff_top ff" "k = 0 \<or> 2 ^ ff_bits ff \<le> q"
  shows "fl_decode ff s (k * 2 ^ ff_bits ff + q) = FFin s q (ff_low ff + int k)"
proof (cases "q < 2 ^ ff_bits ff")
  case True
  with assms show ?thesis by (simp add: fl_decode_def)
next
  case False
  then obtain r where r: "q = 2 ^ ff_bits ff + r" using le_Suc_ex by (metis not_less)
  have "r < 2 ^ ff_bits ff" using assms(1) r by simp
  moreover have e: "k * 2 ^ ff_bits ff + q = r + (k + 1) * 2 ^ ff_bits ff" by (simp add: r)
  ultimately have "(k * 2 ^ ff_bits ff + q) mod 2 ^ ff_bits ff = r"
    "(k * 2 ^ ff_bits ff + q) div 2 ^ ff_bits ff = k + 1"
    unfolding e using div_mult_self1 [of "2 ^ ff_bits ff" r "k + 1"] mod_mult_self1 [of r "k + 1" "2 ^ ff_bits ff"]
    by simp_all
  with assms(2) show ?thesis by (simp add: fl_decode_def r)
qed

lemma fl_round_exact:
  assumes "m < 2 ^ Suc (ff_bits ff)" "ff_low ff \<le> e" "e - ff_low ff + 1 < int (ff_top ff)"
  shows "fl_eq (fl_decode ff s (fl_round ff m e)) (FFin s m e)"
proof (cases "m = 0")
  case True
  have "2 < ff_top ff \<or> ff_top ff = 2" using assms(2,3) by linarith
  then have "fl_decode ff s 0 = FFin s 0 (ff_low ff)" by (auto simp: fl_decode_def)
  with True show ?thesis by (simp add: fl_round_def fl_eq_def scaled_def)
next
  case False
  then have "0 < m" by simp
  then obtain j where j: "bit_length m = int (Suc j)" "2 ^ j \<le> m" "m < 2 ^ Suc j" by (rule bit_length_bounds)
  have "(2 :: nat) ^ j < 2 ^ Suc (ff_bits ff)" using j(2) assms(1) by (rule le_less_trans)
  then have "j < Suc (ff_bits ff)" by (rule power_less_imp_less_exp [rotated]) simp_all
  then have jb: "j \<le> ff_bits ff" by simp
  define e' where "e' = max (e + int j - int (ff_bits ff)) (ff_low ff)"
  define k where "k = nat (e' - ff_low ff)"
  define q where "q = m * 2 ^ nat (e - e')"
  have e': "ff_low ff \<le> e'" "e' \<le> e" using jb assms(2) by (auto simp: e'_def)
  have kt: "k + 1 < ff_top ff" using e' assms(3) by (simp add: k_def)
  have q_less: "q < 2 ^ Suc (ff_bits ff)"
  proof -
    have "nat (e - e') \<le> ff_bits ff - j" using jb by (simp add: e'_def max_def) linarith
    then have "(2 :: nat) ^ Suc j * 2 ^ nat (e - e') \<le> 2 ^ Suc j * 2 ^ (ff_bits ff - j)" by simp
    also have "\<dots> = 2 ^ Suc (ff_bits ff)" using jb by (simp flip: power_add)
    finally have "2 ^ Suc j * 2 ^ nat (e - e') \<le> (2 :: nat) ^ Suc (ff_bits ff)" .
    moreover have "q < 2 ^ Suc j * 2 ^ nat (e - e')" using j(3) by (simp add: q_def)
    ultimately show ?thesis by linarith
  qed
  have q_ge: "k = 0 \<or> 2 ^ ff_bits ff \<le> q"
  proof (cases "e' = ff_low ff")
    case False
    then have "nat (e - e') = ff_bits ff - j" using jb by (simp add: e'_def max_def split: if_splits)
    then have "(2 :: nat) ^ ff_bits ff = 2 ^ j * 2 ^ nat (e - e')" using jb by (simp flip: power_add)
    then show ?thesis using j(2) by (simp add: q_def)
  qed (simp add: k_def)
  have "k * 2 ^ ff_bits ff + q \<le> ff_top ff * 2 ^ ff_bits ff"
  proof -
    have "(k + 2) * 2 ^ ff_bits ff \<le> ff_top ff * 2 ^ ff_bits ff" using kt by (intro mult_le_mono1) simp
    with q_less show ?thesis by simp
  qed
  then have "fl_round ff m e = k * 2 ^ ff_bits ff + q"
    using False e' by (simp add: fl_round_def Let_def j(1) e'_def [symmetric] k_def q_def algebra_simps)
  then have d: "fl_decode ff s (fl_round ff m e) = FFin s q e'"
    using fl_decode_fields [OF q_less kt q_ge] e' by (simp add: k_def)
  have "scaled s q e' e' = scaled s m e e'" by (simp add: scaled_def q_def)
  then show ?thesis using e' fl_eq_at [of e' e' e s q s m] by (simp add: d)
qed


section \<open>The two formats\<close>

lemma decode64_encode64:
  assumes "m < 2 ^ 53" "- 1074 \<le> e" "e \<le> 971"
  shows "fl_eq (decode64 (encode64 (FFin s m e))) (FFin s m e)"
proof -
  let ?p = "fl_round binary64 m e"
  have p: "?p < 2 ^ 63" using fl_round_le [of binary64 m e] by (simp add: binary64_def)
  then have "unat (of_nat ((if s then 2 ^ 63 else 0) + ?p) :: u64) = (if s then 2 ^ 63 else 0) + ?p"
    by (intro of_nat_inverse) (cases s, simp_all)
  with p have "decode64 (encode64 (FFin s m e)) = fl_decode binary64 s ?p"
    by (simp add: decode64_def encode64_def)
  then show ?thesis using fl_round_exact [of m binary64 e s] assms by (simp add: binary64_def)
qed

lemma decode32_encode32:
  assumes "m < 2 ^ 24" "- 149 \<le> e" "e \<le> 104"
  shows "fl_eq (decode32 (encode32 (FFin s m e))) (FFin s m e)"
proof -
  let ?p = "fl_round binary32 m e"
  have p: "?p < 2 ^ 31" using fl_round_le [of binary32 m e] by (simp add: binary32_def)
  then have "unat (of_nat ((if s then 2 ^ 31 else 0) + ?p) :: u32) = (if s then 2 ^ 31 else 0) + ?p"
    by (intro of_nat_inverse) (cases s, simp_all)
  with p have "decode32 (encode32 (FFin s m e)) = fl_decode binary32 s ?p"
    by (simp add: decode32_def encode32_def)
  then show ?thesis using fl_round_exact [of m binary32 e s] assms by (simp add: binary32_def)
qed

text \<open>What a \<open>float\<close> can be.\<close>

lemma decode32_range:
  assumes "decode32 g = FFin s m e"
  shows "m < 2 ^ 24" "- 149 \<le> e" "e \<le> 104"
proof -
  let ?n = "unat g mod 2 ^ 31"
  have "?n div 2 ^ 23 < 2 ^ 8" by (simp add: less_mult_imp_div_less)
  moreover have "?n mod 2 ^ 23 < 2 ^ 23" by simp
  ultimately show "m < 2 ^ 24" "- 149 \<le> e" "e \<le> 104"
    using assms by (auto simp: decode32_def fl_decode_def binary32_def Let_def split: if_splits)
qed

text \<open>Widening a finite \<open>float\<close> keeps its value, and so does making a \<open>float\<close> of an integer of at
  most 24 bits.\<close>

lemma f32_to_f64_exact:
  assumes "decode32 g = FFin s m e"
  shows "fl_eq (decode64 (f32_to_f64 g)) (decode32 g)"
  using decode64_encode64 [of m e s] decode32_range [OF assms] assms by (simp add: f32_to_f64_def)

lemma f32_of_int_exact:
  "\<bar>i\<bar> < 2 ^ 24 \<Longrightarrow> fl_eq (decode32 (f32_of_int i)) (FFin (i < 0) (nat \<bar>i\<bar>) 0)"
  unfolding f32_of_int_def by (rule decode32_encode32) simp_all

text \<open>The value of an integer, and a finite value that truncation leaves alone.\<close>

lemma scaled_trunc:
  assumes "0 \<le> e"
  shows "fl_eq (FFin s m e) (FFin (fl_trunc (FFin s m e) < 0) (nat \<bar>fl_trunc (FFin s m e)\<bar>) 0)"
  using assms by (auto simp: fl_eq_def fl_trunc_def scaled_def Let_def)

end
