(* ===== verification/Json_Number.thy ===== *)
theory Json_Number
  imports Ieee_Double Json_Value Http_Client
begin

text \<open>
  \<open>ArduinoJson.h\<close>: numbers. \<open>FloatTraits<double>\<close>, \<open>FloatParts\<close>, the number writers of
  \<open>TextFormatter\<close>, \<open>parseNumber\<close>, \<open>canConvertNumber\<close> and the conversions
  \<open>asIntegral\<close>, \<open>asFloat\<close> and \<open>asBoolean\<close> of a value. \<open>Float\<close> is \<open>double\<close>,
  \<open>Integer\<close> and \<open>UInt\<close> have 64 bits (\<open>ARDUINOJSON_USE_DOUBLE\<close> and
  \<open>ARDUINOJSON_USE_LONG_LONG\<close> are 1 on this machine).
\<close>

section \<open>Powers of ten\<close>

definition MANTISSA_MAX :: nat where "MANTISSA_MAX = 2 ^ 52 - 1"
definition EXPONENT_MAX :: int where "EXPONENT_MAX = 308"

definition forge :: "u32 \<Rightarrow> u32 \<Rightarrow> f64" where
  "forge msb lsb = (push_bit 32 (ucast msb)) OR ucast lsb"

definition positive_factors :: "(u32 \<times> u32) list" where
  "positive_factors =
     [(0x40240000, 0x00000000), (0x40590000, 0x00000000), (0x40C38800, 0x00000000),
      (0x4197D784, 0x00000000), (0x4341C379, 0x37E08000), (0x4693B8B5, 0xB5056E17),
      (0x4D384F03, 0xE93FF9F5), (0x5A827748, 0xF9301D32), (0x75154FDD, 0x7F73BF3C)]"

definition negative_factors :: "(u32 \<times> u32) list" where
  "negative_factors =
     [(0x3FB99999, 0x9999999A), (0x3F847AE1, 0x47AE147B), (0x3F1A36E2, 0xEB1C432D),
      (0x3E45798E, 0xE2308C3A), (0x3C9CD2B2, 0x97D889BC), (0x3949F623, 0xD5A8A733),
      (0x32A50FFD, 0x44F4A73D), (0x255BBA08, 0xCF8C979D), (0x0AC80628, 0x64AC6F43)]"

definition negative_factors_plus_one :: "(u32 \<times> u32) list" where
  "negative_factors_plus_one =
     [(0x3FF00000, 0x00000000), (0x3FB99999, 0x9999999A), (0x3F50624D, 0xD2F1A9FC),
      (0x3E7AD7F2, 0x9ABCAF48), (0x3CD203AF, 0x9EE75616), (0x398039D6, 0x65896880),
      (0x32DA53FC, 0x9631D10D), (0x25915445, 0x81B7DEC2), (0x0AFE07B2, 0x7DD78B14)]"

definition positiveBinaryPowerOfTen :: "nat \<Rightarrow> f64" where
  "positiveBinaryPowerOfTen index = (let (msb, lsb) = positive_factors ! index in forge msb lsb)"

definition negativeBinaryPowerOfTen :: "nat \<Rightarrow> f64" where
  "negativeBinaryPowerOfTen index = (let (msb, lsb) = negative_factors ! index in forge msb lsb)"

definition negativeBinaryPowerOfTenPlusOne :: "nat \<Rightarrow> f64" where
  "negativeBinaryPowerOfTenPlusOne index = (let (msb, lsb) = negative_factors_plus_one ! index in forge msb lsb)"

definition float_nan :: f64 where "float_nan = forge 0x7ff80000 0x00000000"
definition float_inf :: f64 where "float_inf = forge 0x7ff00000 0x00000000"

text \<open>The loop of \<open>make_float\<close> over the bits of the exponent.\<close>

fun make_float_loop :: "(nat \<Rightarrow> f64) \<Rightarrow> nat \<Rightarrow> nat \<Rightarrow> f64 \<Rightarrow> f64" where
  "make_float_loop factor index e m =
     (if e = 0 then m
      else make_float_loop factor (index + 1) (e div 2)
             (if odd e then f64_mul m (factor index) else m))"

declare make_float_loop.simps [simp del]

definition make_float :: "f64 \<Rightarrow> int \<Rightarrow> f64" where
  "make_float m e =
     (if e > 0 then make_float_loop positiveBinaryPowerOfTen 0 (nat e) m
      else make_float_loop negativeBinaryPowerOfTen 0 (nat (- e)) m)"

section \<open>Writing numbers\<close>

text \<open>\<open>normalize\<close>: the two loops from \<open>index\<close> down, with \<open>bit = 1 << index\<close>. (When the first one
  runs it leaves nothing for the second.)\<close>

definition POSITIVE_EXPONENTIATION_THRESHOLD :: f64 where
  "POSITIVE_EXPONENTIATION_THRESHOLD = f64_of_int 10000000"

definition NEGATIVE_EXPONENTIATION_THRESHOLD :: f64 where
  "NEGATIVE_EXPONENTIATION_THRESHOLD = 0x3ee4f8b588e368f1"

fun normalize_large :: "nat \<Rightarrow> f64 \<Rightarrow> int \<Rightarrow> f64 \<times> int" where
  "normalize_large 0 val p = (val, p)"
| "normalize_large (Suc index) val p =
     (if f64_le (positiveBinaryPowerOfTen index) val
      then normalize_large index (f64_mul val (negativeBinaryPowerOfTen index)) (p + 2 ^ index)
      else normalize_large index val p)"

fun normalize_small :: "nat \<Rightarrow> f64 \<Rightarrow> int \<Rightarrow> f64 \<times> int" where
  "normalize_small 0 val p = (val, p)"
| "normalize_small (Suc index) val p =
     (if f64_less val (negativeBinaryPowerOfTenPlusOne index)
      then normalize_small index (f64_mul val (positiveBinaryPowerOfTen index)) (p - 2 ^ index)
      else normalize_small index val p)"

definition normalize :: "f64 \<Rightarrow> f64 \<times> int" where
  "normalize val =
     (let large = f64_le POSITIVE_EXPONENTIATION_THRESHOLD val;
          (v, p) = (if large then normalize_large 9 val 0 else (val, 0))
      in if f64_less 0 v \<and> f64_le v NEGATIVE_EXPONENTIATION_THRESHOLD \<and> \<not> large
         then normalize_small 9 v p else (v, p))"

record float_parts =
  fp_integral :: u32
  fp_decimal :: u32
  fp_exponent :: int
  fp_places :: int

text \<open>One decimal place less for every further digit of the integral part.\<close>

function parts_places :: "u32 \<Rightarrow> u32 \<Rightarrow> int \<Rightarrow> u32 \<times> int" where
  "parts_places tmp max_decimal places =
     (if tmp \<ge> 10 then parts_places (tmp div 10) (max_decimal div 10) (places - 1)
      else (max_decimal, places))"
  by pat_completeness auto
termination
  by (relation "measure (\<lambda>(tmp, _, _). unat tmp)") (auto simp: unat_div word_le_nat_alt)

declare parts_places.simps [simp del]

function trim_decimals :: "u32 \<Rightarrow> int \<Rightarrow> u32 \<times> int" where
  "trim_decimals decimal places =
     (if decimal mod 10 = 0 \<and> places > 0 then trim_decimals (decimal div 10) (places - 1)
      else (decimal, places))"
  by pat_completeness auto
termination by (relation "measure (\<lambda>(_, places). nat places)") auto

declare trim_decimals.simps [simp del]

definition new_float_parts :: "f64 \<Rightarrow> float_parts" where
  "new_float_parts val0 =
     (let (val, exponent) = normalize val0;
          integral = f64_to_u32 val;
          (max_decimal, places) = parts_places integral 1000000000 9;
          remainder = f64_mul (f64_sub val (f64_of_int (uint integral))) (f64_of_int (uint max_decimal));
          decimal = f64_to_u32 remainder;
          remainder = f64_sub remainder (f64_of_int (uint decimal));
          decimal = decimal + f64_to_u32 (f64_mul remainder (f64_of_int 2));
          (decimal, integral, exponent) =
            (if decimal \<ge> max_decimal
             then if exponent \<noteq> 0 \<and> integral + 1 \<ge> 10 then (0, 1, exponent + 1)
                  else (0, integral + 1, exponent)
             else (decimal, integral, exponent));
          (decimal, places) = trim_decimals decimal places
      in \<lparr>fp_integral = integral, fp_decimal = decimal, fp_exponent = exponent, fp_places = places\<rparr>)"

text \<open>The digits, from the last one, in front of \<open>begin\<close>.\<close>

fun digit_loop :: "nat \<Rightarrow> string \<Rightarrow> string" where
  "digit_loop val begn =
     (let begn' = char_of (val mod 10 + 48) # begn
      in if val div 10 = 0 then begn' else digit_loop (val div 10) begn')"

declare digit_loop.simps [simp del]

definition write_uint :: "nat \<Rightarrow> string" where
  "write_uint val = digit_loop val []"

text \<open>A number is written in a few pieces: the sign, the digits, ...\<close>

definition write_int :: "u64 \<Rightarrow> string list" where
  "write_int val = (if val <s 0 then [''-'', write_uint (unat (NOT val + 1))] else [write_uint (unat val)])"

fun write_decimals :: "u32 \<Rightarrow> nat \<Rightarrow> string \<Rightarrow> string" where
  "write_decimals val 0 begn = CHR ''.'' # begn"
| "write_decimals val (Suc width) begn =
     write_decimals (val div 10) width (char_of (unat (val mod 10) + 48) # begn)"

definition is_nan :: "f64 \<Rightarrow> bool" where "is_nan x \<longleftrightarrow> \<not> f64_eq x x"
definition is_inf :: "f64 \<Rightarrow> bool" where
  "is_inf x \<longleftrightarrow> \<not> f64_eq x 0 \<and> f64_eq (f64_mul x (f64_of_int 2)) x"

text \<open>\<open>writeFloat\<close> with \<open>ARDUINOJSON_ENABLE_NAN\<close> and \<open>_INFINITY\<close> off.\<close>

definition write_float :: "f64 \<Rightarrow> string list" where
  "write_float val =
     (if is_nan val then [''null'']
      else if is_inf val then [''null'']
      else let negative = f64_less val 0;
               parts = new_float_parts (if negative then f64_neg val else val)
           in (if negative then [''-''] else []) @
              [write_uint (unat (fp_integral parts))] @
              (if fp_places parts \<noteq> 0 then [write_decimals (fp_decimal parts) (nat (fp_places parts)) []] else []) @
              (if fp_exponent parts \<noteq> 0 then ''e'' # write_int (word_of_int (fp_exponent parts)) else []))"

section \<open>Reading numbers\<close>

definition digit_of :: "char \<Rightarrow> nat" where
  "digit_of c = of_char c - 48"

definition MAX_UINT :: nat where "MAX_UINT = 2 ^ 64 - 1"

text \<open>The first loop: the characters left and the mantissa. It stops at an overflow with the mantissa
  already multiplied when only the last digit did not fit.\<close>

fun mantissa_loop :: "string \<Rightarrow> nat \<Rightarrow> string \<times> nat" where
  "mantissa_loop [] mantissa = ([], mantissa)"
| "mantissa_loop (c # s) mantissa =
     (if \<not> is_digit c then (c # s, mantissa)
      else if mantissa > MAX_UINT div 10 then (c # s, mantissa)
      else if mantissa * 10 > MAX_UINT - digit_of c then (c # s, mantissa * 10)
      else mantissa_loop s (mantissa * 10 + digit_of c))"

fun shrink_mantissa :: "nat \<Rightarrow> int \<Rightarrow> nat \<times> int" where
  "shrink_mantissa mantissa offset =
     (if mantissa > MANTISSA_MAX then shrink_mantissa (mantissa div 10) (offset + 1) else (mantissa, offset))"

declare shrink_mantissa.simps [simp del]

fun fraction_loop :: "string \<Rightarrow> nat \<Rightarrow> int \<Rightarrow> string \<times> nat \<times> int" where
  "fraction_loop [] mantissa offset = ([], mantissa, offset)"
| "fraction_loop (c # s) mantissa offset =
     (if \<not> is_digit c then (c # s, mantissa, offset)
      else if mantissa < MANTISSA_MAX div 10
      then fraction_loop s (mantissa * 10 + digit_of c) (offset - 1)
      else fraction_loop s mantissa offset)"

text \<open>\<open>None\<close> is an exponent beyond the range.\<close>

fun exponent_loop :: "string \<Rightarrow> int \<Rightarrow> int \<Rightarrow> (string \<times> int) option" where
  "exponent_loop [] offset exponent = Some ([], exponent)"
| "exponent_loop (c # s) offset exponent =
     (if \<not> is_digit c then Some (c # s, exponent)
      else let exponent' = exponent * 10 + int (digit_of c)
           in if exponent' + offset > EXPONENT_MAX then None else exponent_loop s offset exponent')"

definition sign_prefix :: "string \<Rightarrow> bool \<times> string" where
  "sign_prefix s =
     (if s \<noteq> [] \<and> hd s = CHR ''-'' then (True, tl s)
      else if s \<noteq> [] \<and> hd s = CHR ''+'' then (False, tl s)
      else (False, s))"

text \<open>The tail of \<open>parseNumber\<close>, for what is no integer.\<close>

definition parse_float :: "bool \<Rightarrow> string \<Rightarrow> nat \<Rightarrow> variant option" where
  "parse_float is_negative s mantissa =
     (let (mantissa, offset) = shrink_mantissa mantissa 0;
          more = takeWhile is_digit s;
          offset = offset + int (length more);
          s = drop (length more) s;
          (s, mantissa, offset) =
            (if s \<noteq> [] \<and> hd s = CHR ''.'' then fraction_loop (tl s) mantissa offset else (s, mantissa, offset));
          (negative_exponent, r) =
            (if s \<noteq> [] \<and> (hd s = CHR ''e'' \<or> hd s = CHR ''E'')
             then let (neg, s') = sign_prefix (tl s) in (neg, exponent_loop s' offset 0)
             else (False, Some (s, 0)))
      in case r of
           None \<Rightarrow>
             Some (VFloat (if negative_exponent then (if is_negative then f64_neg 0 else 0)
                           else if is_negative then f64_neg float_inf else float_inf))
         | Some (s, exponent) \<Rightarrow>
             (if s \<noteq> [] then None
              else let result = make_float (f64_of_int (int mantissa))
                                  ((if negative_exponent then - exponent else exponent) + offset)
                   in Some (VFloat (if is_negative then f64_neg result else result))))"

text \<open>\<open>parseNumber\<close> of a C string; \<open>None\<close> is \<open>false\<close>.\<close>

definition parse_number :: "string \<Rightarrow> variant option" where
  "parse_number str =
     (let (is_negative, s) = sign_prefix str
      in if s = [] \<or> \<not> is_digit (hd s) \<and> hd s \<noteq> CHR ''.'' then None
         else let (s, mantissa) = mantissa_loop s 0
              in if s = [] \<and> is_negative \<and> mantissa \<le> 2 ^ 63
                 then Some (VInt (NOT (word_of_nat mantissa) + 1))
                 else if s = [] \<and> \<not> is_negative then Some (VUInt (word_of_nat mantissa))
                 else parse_float is_negative s mantissa)"

section \<open>Conversions of values\<close>

text \<open>An integral C type: signed or not, and its width.\<close>

datatype int_type = IntType bool nat

fun lowest :: "int_type \<Rightarrow> int" where
  "lowest (IntType sign bits) = (if sign then - (2 ^ (bits - 1)) else 0)"

fun highest :: "int_type \<Rightarrow> int" where
  "highest (IntType sign bits) = (if sign then 2 ^ (bits - 1) - 1 else 2 ^ bits - 1)"

text \<open>\<open>canConvertNumber\<close> from \<open>UInt\<close>, \<open>Integer\<close> and \<open>Float\<close>. From a float, the
  limits of the type are converted to \<open>double\<close> before the comparison.\<close>

definition can_convert_unsigned :: "int_type \<Rightarrow> u64 \<Rightarrow> bool" where
  "can_convert_unsigned t n \<longleftrightarrow> uint n \<le> highest t"

definition can_convert_signed :: "int_type \<Rightarrow> u64 \<Rightarrow> bool" where
  "can_convert_signed t n \<longleftrightarrow> lowest t \<le> sint n \<and> sint n \<le> highest t"

definition can_convert_float :: "int_type \<Rightarrow> f64 \<Rightarrow> bool" where
  "can_convert_float t f \<longleftrightarrow> f64_le (f64_of_int (lowest t)) f \<and> f64_le f (f64_of_int (highest t))"

definition as_integral_number :: "int_type \<Rightarrow> variant \<Rightarrow> int" where
  "as_integral_number t v =
     (case v of
        VBool b \<Rightarrow> (if b then 1 else 0)
      | VUInt n \<Rightarrow> (if can_convert_unsigned t n then uint n else 0)
      | VInt n \<Rightarrow> (if can_convert_signed t n then sint n else 0)
      | VFloat f \<Rightarrow> (if can_convert_float t f then fl_trunc (decode64 f) else 0)
      | _ \<Rightarrow> 0)"

text \<open>A string is read as a number first; \<open>false\<close> leaves a null value.\<close>

definition number_of_string :: "string \<Rightarrow> variant" where
  "number_of_string s = (case parse_number (c_str s) of Some v \<Rightarrow> v | None \<Rightarrow> VNull)"

definition as_integral :: "int_type \<Rightarrow> variant \<Rightarrow> int" where
  "as_integral t v = as_integral_number t (case v of VString own s \<Rightarrow> number_of_string s | _ \<Rightarrow> v)"

definition as_boolean :: "variant \<Rightarrow> bool" where
  "as_boolean v =
     (case v of
        VBool b \<Rightarrow> b
      | VInt n \<Rightarrow> n \<noteq> 0
      | VUInt n \<Rightarrow> n \<noteq> 0
      | VFloat f \<Rightarrow> \<not> f64_eq f 0
      | VNull \<Rightarrow> False
      | _ \<Rightarrow> True)"

definition as_float_number :: "variant \<Rightarrow> f64" where
  "as_float_number v =
     (case v of
        VBool b \<Rightarrow> f64_of_int (if b then 1 else 0)
      | VUInt n \<Rightarrow> f64_of_int (uint n)
      | VInt n \<Rightarrow> f64_of_int (sint n)
      | VFloat f \<Rightarrow> f
      | _ \<Rightarrow> 0)"

definition as_float :: "variant \<Rightarrow> f64" where
  "as_float v = as_float_number (case v of VString own s \<Rightarrow> number_of_string s | _ \<Rightarrow> v)"

definition as_string :: "variant \<Rightarrow> stored_string option" where
  "as_string v = (case v of VString own s \<Rightarrow> Some (own, s) | _ \<Rightarrow> None)"

definition is_integer :: "int_type \<Rightarrow> variant \<Rightarrow> bool" where
  "is_integer t v =
     (case v of VUInt n \<Rightarrow> can_convert_unsigned t n | VInt n \<Rightarrow> can_convert_signed t n | _ \<Rightarrow> False)"

section \<open>The buffers of the writers\<close>

lemma digit_loop_eq: "digit_loop n begn = dec_digits n @ begn"
proof (induction n begn rule: digit_loop.induct)
  case (1 n begn)
  show ?case
  proof (cases "n div 10 = 0")
    case True
    then show ?thesis by (subst digit_loop.simps, subst dec_digits.simps) (simp add: Let_def add.commute)
  next
    case False
    then show ?thesis using 1
      by (subst digit_loop.simps, subst dec_digits.simps [of n]) (simp add: Let_def add.commute)
  qed
qed

lemma write_uint_eq: "write_uint n = dec_digits n"
  by (simp add: write_uint_def digit_loop_eq)

text \<open>\<open>char buffer[22]\<close> is long enough for every 64-bit value.\<close>

lemma write_uint_fits: "n < 2 ^ 64 \<Longrightarrow> length (write_uint n) \<le> 20"
  using length_dec_digits [of n 19] by (simp add: write_uint_eq)

lemma parts_places_inv:
  "parts_places tmp mx places = (m, d) \<Longrightarrow> unat tmp < 10 ^ (k + 1) \<Longrightarrow> unat mx = 10 ^ nat places \<Longrightarrow>
     int k \<le> places \<Longrightarrow> unat m = 10 ^ nat d \<and> places - int k \<le> d \<and> d \<le> places"
proof (induction tmp mx places arbitrary: k rule: parts_places.induct)
  case (1 tmp mx places)
  show ?case
  proof (cases "tmp \<ge> 10")
    case False
    then show ?thesis using "1.prems" by (simp add: parts_places.simps)
  next
    case True
    then have t: "10 \<le> unat tmp" by (simp add: word_le_nat_alt)
    with "1.prems"(2) have "k \<noteq> 0" by (cases k) auto
    then obtain j where k: "k = Suc j" by (cases k) auto
    have p: "nat places = Suc (nat (places - 1))" using "1.prems"(4) k by simp
    have "unat (tmp div 10) < 10 ^ (j + 1)"
      using "1.prems"(2) k by (simp add: unat_div less_mult_imp_div_less mult.commute)
    moreover have "unat (mx div 10) = 10 ^ nat (places - 1)"
      using "1.prems"(3) p by (simp add: unat_div)
    ultimately have "unat m = 10 ^ nat d \<and> places - 1 - int j \<le> d \<and> d \<le> places - 1"
      using "1.prems"(1,4) True k by (intro "1.IH" [OF True]) (simp_all add: parts_places.simps [of tmp])
    then show ?thesis using k by simp
  qed
qed

lemma trim_decimals_inv:
  "trim_decimals decimal places = (d, q) \<Longrightarrow> unat decimal < 10 ^ nat places \<Longrightarrow> 0 \<le> places \<Longrightarrow>
     unat d < 10 ^ nat q \<and> 0 \<le> q \<and> q \<le> places"
proof (induction decimal places rule: trim_decimals.induct)
  case (1 decimal places)
  show ?case
  proof (cases "decimal mod 10 = 0 \<and> places > 0")
    case False
    then show ?thesis using "1.prems" by (subst (asm) trim_decimals.simps) auto
  next
    case True
    then have p: "nat places = Suc (nat (places - 1))" by arith
    have "unat (decimal div 10) < 10 ^ nat (places - 1)"
      using "1.prems"(2) p by (simp add: unat_div less_mult_imp_div_less mult.commute)
    then show ?thesis using "1.IH" [OF True] "1.prems"(1) True by (subst (asm) trim_decimals.simps) auto
  qed
qed

lemma parts_in_range:
  "0 \<le> fp_places (new_float_parts f) \<and> fp_places (new_float_parts f) \<le> 9 \<and>
   unat (fp_decimal (new_float_parts f)) < 10 ^ nat (fp_places (new_float_parts f))"
proof -
  obtain v e where n: "normalize f = (v, e)" by (cases "normalize f")
  define i where "i = f64_to_u32 v"
  obtain m p where mp: "parts_places i 1000000000 9 = (m, p)" by (cases "parts_places i 1000000000 9")
  have "unat i < 10 ^ (9 + 1)" using unsigned_less [of i, where 'a = nat] by simp
  from parts_places_inv [OF mp this] have m: "unat m = 10 ^ nat p" "0 \<le> p" "p \<le> 9" by simp_all
  define r where "r = f64_mul (f64_sub v (f64_of_int (uint i))) (f64_of_int (uint m))"
  define d where "d = f64_to_u32 r + f64_to_u32 (f64_mul (f64_sub r (f64_of_int (uint (f64_to_u32 r)))) (f64_of_int 2))"
  define d' where "d' = (if m \<le> d then 0 else d)"
  have d': "unat d' < 10 ^ nat p" using m by (auto simp: d'_def word_le_nat_alt)
  obtain d2 q where t: "trim_decimals d' p = (d2, q)" by (cases "trim_decimals d' p")
  have "fp_decimal (new_float_parts f) = d2 \<and> fp_places (new_float_parts f) = q"
    using t by (cases "m \<le> d")
      (simp_all add: new_float_parts_def n Let_def mp i_def [symmetric] r_def [symmetric] d_def [symmetric] d'_def)
  then show ?thesis using trim_decimals_inv [OF t d' m(2)] m(3) by simp
qed

lemma length_write_decimals: "length (write_decimals v n b) = n + 1 + length b"
  by (induction v n b rule: write_decimals.induct) auto

text \<open>\<open>char buffer[16]\<close> is long enough for the decimals of every \<open>double\<close>.\<close>

lemma decimals_fit:
  "length (write_decimals (fp_decimal (new_float_parts f)) (nat (fp_places (new_float_parts f))) []) \<le> 10"
  using parts_in_range [of f] by (simp add: length_write_decimals nat_le_iff)

section \<open>Integers round trip\<close>

lemma mantissa_loop_dec:
  "n < 2 ^ 64 \<Longrightarrow> mantissa_loop (dec_digits n @ s) 0 = mantissa_loop s n"
proof (induction n arbitrary: s rule: dec_digits.induct)
  case (1 n)
  let ?c = "char_of (48 + n mod 10) :: char"
  have c: "is_digit ?c" "digit_of ?c = n mod 10"
    by (simp_all add: is_digit_def digit_of_def of_char_digit)
  have n: "n div 10 \<le> MAX_UINT div 10" "(n div 10) * 10 + n mod 10 = n"
    using 1(2) by (simp_all add: MAX_UINT_def div_le_mono)
  moreover have "n \<le> MAX_UINT" using 1(2) by (simp add: MAX_UINT_def)
  ultimately have n10: "(n div 10) * 10 \<le> MAX_UINT - n mod 10" by linarith
  have step: "mantissa_loop (?c # s) (n div 10) = mantissa_loop s n" using c n n10 by simp
  show ?case
  proof (cases "n < 10")
    case True
    then show ?thesis using step by (subst dec_digits.simps) simp
  next
    case False
    then show ?thesis using 1(1) [OF False, of "?c # s"] 1(2) step by (subst dec_digits.simps) simp
  qed
qed

lemma dec_digits_hd: "is_digit (hd (dec_digits n))"
  using dec_digits_digits [of n] by (simp add: dec_digits_ne)

lemma sign_prefix_digits: "sign_prefix (dec_digits n) = (False, dec_digits n)"
  using digit_plain [OF dec_digits_hd [of n]]
  by (simp add: sign_prefix_def)

lemma parse_write_uint: "n < 2 ^ 64 \<Longrightarrow> parse_number (write_uint n) = Some (VUInt (word_of_nat n))"
  using mantissa_loop_dec [of n "[]"] dec_digits_hd [of n]
  by (simp add: parse_number_def write_uint_eq sign_prefix_digits)

lemma parse_write_int:
  assumes "w <s 0"
  shows "parse_number (concat (write_int w)) = Some (VInt w)"
proof -
  let ?n = "unat (NOT w + 1)"
  have neg: "NOT w + 1 = - w" by (simp add: minus_eq_not_plus_1)
  have "sint w < 0" using assms by (simp add: word_sless_alt)
  have big: "2 ^ 63 \<le> uint w"
  proof (rule ccontr)
    assume "\<not> 2 ^ 63 \<le> uint w"
    then have "uint w < 2 ^ 63" by simp
    then have "signed_take_bit 63 (uint w) = uint w"
      by (intro signed_take_bit_int_eq_self) (auto intro: order_trans [OF _ uint_ge_0])
    then have "sint w = uint w" unfolding sint_uint by (simp only: len_of_numeral_defs) simp
    then show False using \<open>sint w < 0\<close> uint_ge_0 [of w] by linarith
  qed
  have lt: "uint w < 2 ^ 64" using unsigned_less [of w, where 'a = int] by simp
  have "uint (- w) = (- uint w) mod 2 ^ 64" using uint_word_ariths(4) [of w] by simp
  also have "\<dots> = 2 ^ 64 - uint w" using big lt by (simp add: zmod_zminus1_eq_if)
  finally have "uint (- w) \<le> 2 ^ 63" using big by simp
  then have "nat (uint (- w)) \<le> nat (2 ^ 63)" by (rule nat_mono)
  moreover have "unat (- w) = nat (uint (- w))" by transfer simp
  moreover have "nat (2 ^ 63) = (2 ^ 63 :: nat)" by simp
  ultimately have n: "?n \<le> 2 ^ 63" by (simp only: neg)
  have "?n < 2 ^ 64" using unsigned_less [of "NOT w + 1", where 'a = nat] by simp
  from mantissa_loop_dec [OF this, of "[]"] n
  have "parse_number (CHR ''-'' # dec_digits ?n) = Some (VInt (NOT (word_of_nat ?n) + 1))"
    using dec_digits_hd [of ?n] by (simp add: parse_number_def sign_prefix_def)
  moreover have "NOT (word_of_nat ?n) + 1 = w" by (simp add: minus_eq_not_plus_1 [symmetric] neg)
  ultimately show ?thesis using assms by (simp add: write_int_def write_uint_eq)
qed

end
