(* ===== verification/Json_Number_Examples.thy ===== *)
theory Json_Number_Examples
  imports Json_Number
begin

text \<open>
  Evaluations of the arithmetic of \<open>Ieee_Double\<close> and of the number routines of \<open>Json_Number\<close>
  on the values where they are delicate.
\<close>

lemma double_examples:
  "decode64 0x3ff8000000000000 = FFin False (3 * 2 ^ 51) (-52)"
  "f64_mul 0x3ff8000000000000 0x4000000000000000 = 0x4008000000000000"
  "f64_sub 0x3ff8000000000000 0x3ff0000000000000 = 0x3fe0000000000000"
  "f64_of_int 10 = 0x4024000000000000"
  "f64_to_f32 0x3fb999999999999a = 0x3dcccccd"
  "f32_to_f64 0x3dcccccd = 0x3fb99999a0000000"
  "f64_to_u32 0x40c3880000000000 = 10000"
  by (simp_all add: float_eval Let_def)

text \<open>\<open>2 ^ 63\<close> as a \<open>double\<close> passes the test for \<open>int64_t\<close>, which cannot hold it: the upper
  limit is rounded up before the comparison, and the conversion that follows is undefined in C.\<close>

lemma float_limit_is_rounded:
  "can_convert_float (IntType True 64) (f64_of_int (2 ^ 63))"
  "as_integral (IntType True 64) (VFloat (f64_of_int (2 ^ 63))) = highest (IntType True 64) + 1"
  by (simp_all add: can_convert_float_def as_integral_def as_integral_number_def float_eval Let_def)

text \<open>A number that does not fit \<open>UInt\<close> only because of its twentieth digit is read ten times too
  large: the loop has already multiplied when it gives up, and the digit is counted again.\<close>

lemma number_ten_times_too_large:
  "\<exists>f. parse_number ''18446744073709551616'' = Some (VFloat f) \<and> f64_le (f64_of_int (18 * 10 ^ 19)) f"
  by (simp add: parse_number_def sign_prefix_def is_digit_def digit_of_def MAX_UINT_def parse_float_def
      shrink_mantissa.simps MANTISSA_MAX_def make_float_def make_float_loop.simps
      positiveBinaryPowerOfTen_def positive_factors_def forge_def float_eval)

end
