(* ===== verification/Json_Serializer.thy ===== *)
theory Json_Serializer
  imports Json_Number Json_Document
begin

text \<open>
  \<open>ArduinoJson.h\<close>: \<open>EscapeSequence\<close>, \<open>TextFormatter\<close>, \<open>JsonSerializer\<close>,
  \<open>PrettyJsonSerializer\<close>, the writers and \<open>serializeJson\<close>/\<open>measureJson\<close>.

  The serializers write piece by piece into any writer (\<open>'w writer\<close>); the locale
  \<open>text_writer\<close> says what a writer promises, and its lemmas show that what it then holds is
  \<open>json_text\<close> of the value, as far as it has room. \<open>DummyWriter\<close> and \<open>StaticStringWriter\<close>
  are its two instances.
\<close>

section \<open>Writers\<close>

record 'w writer =
  write_char :: "char \<Rightarrow> 'w \<Rightarrow> nat \<times> 'w"
  write_bytes :: "string \<Rightarrow> 'w \<Rightarrow> nat \<times> 'w"

definition dummy_writer :: "unit writer" where
  "dummy_writer = \<lparr>write_char = (\<lambda>c w. (1, w)), write_bytes = (\<lambda>s w. (length s, w))\<rparr>"

record static_string =
  ss_buf :: string
  ss_p :: nat

definition static_write_char :: "char \<Rightarrow> static_string \<Rightarrow> nat \<times> static_string" where
  "static_write_char c w =
     (if ss_p w \<ge> length (ss_buf w) then (0, w)
      else (1, w\<lparr>ss_buf := (ss_buf w)[ss_p w := c], ss_p := ss_p w + 1\<rparr>))"

fun static_copy :: "string \<Rightarrow> static_string \<Rightarrow> static_string" where
  "static_copy [] w = w"
| "static_copy (c # s) w =
     (if ss_p w < length (ss_buf w)
      then static_copy s (w\<lparr>ss_buf := (ss_buf w)[ss_p w := c], ss_p := ss_p w + 1\<rparr>) else w)"

definition static_write_bytes :: "string \<Rightarrow> static_string \<Rightarrow> nat \<times> static_string" where
  "static_write_bytes s w = (let w' = static_copy s w in (ss_p w' - ss_p w, w'))"

definition static_writer :: "static_string writer" where
  "static_writer = \<lparr>write_char = static_write_char, write_bytes = static_write_bytes\<rparr>"

text \<open>\<open>CountingDecorator\<close>: the writer and the bytes it has taken.\<close>

type_synonym 'w out = "'w \<times> nat"

definition out_char :: "'w writer \<Rightarrow> char \<Rightarrow> 'w out \<Rightarrow> 'w out" where
  "out_char W c = (\<lambda>(w, n). let (k, w') = write_char W c w in (w', n + k))"

definition out_bytes :: "'w writer \<Rightarrow> string \<Rightarrow> 'w out \<Rightarrow> 'w out" where
  "out_bytes W s = (\<lambda>(w, n). let (k, w') = write_bytes W s w in (w', n + k))"

section \<open>Text\<close>

abbreviation BACKSLASH :: char where "BACKSLASH \<equiv> CHR 0x5C"
abbreviation QUOTE :: char where "QUOTE \<equiv> CHR 0x22"

definition escape_pairs :: "(char \<times> char) list" where
  "escape_pairs =
     [(CHR ''/'', CHR ''/''), (QUOTE, QUOTE), (BACKSLASH, BACKSLASH), (CHR ''b'', CHR 0x08),
      (CHR ''f'', CHR 0x0C), (CHR ''n'', CHR 0x0A), (CHR ''r'', CHR 0x0D), (CHR ''t'', CHR 0x09)]"

definition escape_table :: "bool \<Rightarrow> (char \<times> char) list" where
  "escape_table exclude_solidus = drop (if exclude_solidus then 1 else 0) escape_pairs"

fun escape_find :: "char \<Rightarrow> (char \<times> char) list \<Rightarrow> char" where
  "escape_find c [] = NUL"
| "escape_find c ((p0, p1) # t) = (if p1 \<noteq> c then escape_find c t else p0)"

fun unescape_find :: "char \<Rightarrow> (char \<times> char) list \<Rightarrow> char" where
  "unescape_find c [] = NUL"
| "unescape_find c ((p0, p1) # t) = (if p0 = c then p1 else unescape_find c t)"

definition escapeChar :: "char \<Rightarrow> char" where
  "escapeChar c = escape_find c (escape_table True)"

definition unescapeChar :: "char \<Rightarrow> char" where
  "unescapeChar c = unescape_find c (escape_table False)"

definition write_json_char :: "'w writer \<Rightarrow> char \<Rightarrow> 'w out \<Rightarrow> 'w out" where
  "write_json_char W c s =
     (let special = escapeChar c
      in if special \<noteq> NUL then out_char W special (out_char W BACKSLASH s)
         else if c \<noteq> NUL then out_char W c s
         else out_bytes W (BACKSLASH # ''u0000'') s)"

definition write_string :: "'w writer \<Rightarrow> string \<Rightarrow> 'w out \<Rightarrow> 'w out" where
  "write_string W str s = out_char W QUOTE (fold (write_json_char W) str (out_char W QUOTE s))"

definition write_boolean :: "'w writer \<Rightarrow> bool \<Rightarrow> 'w out \<Rightarrow> 'w out" where
  "write_boolean W b = out_bytes W (if b then ''true'' else ''false'')"

section \<open>The serializers\<close>

fun visit :: "'w writer \<Rightarrow> variant \<Rightarrow> 'w out \<Rightarrow> 'w out"
  and visit_elements :: "'w writer \<Rightarrow> variant list \<Rightarrow> 'w out \<Rightarrow> 'w out"
  and visit_members :: "'w writer \<Rightarrow> slot list \<Rightarrow> 'w out \<Rightarrow> 'w out" where
  "visit W VNull s = out_bytes W ''null'' s"
| "visit W (VBool b) s = write_boolean W b s"
| "visit W (VUInt n) s = out_bytes W (write_uint (unat n)) s"
| "visit W (VInt n) s = fold (out_bytes W) (write_int n) s"
| "visit W (VFloat f) s = fold (out_bytes W) (write_float f) s"
| "visit W (VString own str) s = write_string W str s"
| "visit W (VRaw own str) s = out_bytes W str s"
| "visit W (VArray vs) s = out_char W (CHR '']'') (visit_elements W vs (out_char W (CHR ''['') s))"
| "visit W (VObject ms) s = out_char W (CHR ''}'') (visit_members W ms (out_char W (CHR ''{'') s))"
| "visit_elements W [] s = s"
| "visit_elements W (v # vs) s =
     (let s' = visit W v s in if vs = [] then s' else visit_elements W vs (out_char W (CHR '','') s'))"
| "visit_members W [] s = s"
| "visit_members W (((own, k), v) # ms) s =
     (let s' = visit W v (out_char W (CHR '':'') (write_string W (c_str k) s))
      in if ms = [] then s' else visit_members W ms (out_char W (CHR '','') s'))"

definition TAB :: string where "TAB = ''  ''"

definition EOL :: string where "EOL = [CHR 0x0D, CHR 0x0A]"

text \<open>The nesting is a \<open>uint8_t\<close>.\<close>

definition indent :: "'w writer \<Rightarrow> u8 \<Rightarrow> 'w out \<Rightarrow> 'w out" where
  "indent W nest s = ((out_bytes W TAB) ^^ unat nest) s"

fun visit_pretty :: "'w writer \<Rightarrow> u8 \<Rightarrow> variant \<Rightarrow> 'w out \<Rightarrow> 'w out"
  and pretty_elements :: "'w writer \<Rightarrow> u8 \<Rightarrow> variant list \<Rightarrow> 'w out \<Rightarrow> 'w out"
  and pretty_members :: "'w writer \<Rightarrow> u8 \<Rightarrow> slot list \<Rightarrow> 'w out \<Rightarrow> 'w out" where
  "visit_pretty W nest (VArray vs) s =
     (if vs = [] then out_bytes W ''[]'' s
      else out_bytes W '']'' (indent W nest (pretty_elements W (nest + 1) vs (out_bytes W (''['' @ EOL) s))))"
| "visit_pretty W nest (VObject ms) s =
     (if ms = [] then out_bytes W ''{}'' s
      else out_bytes W ''}'' (indent W nest (pretty_members W (nest + 1) ms (out_bytes W (''{'' @ EOL) s))))"
| "visit_pretty W nest v s = visit W v s"
| "pretty_elements W nest [] s = s"
| "pretty_elements W nest (v # vs) s =
     pretty_elements W nest vs
       (out_bytes W ((if vs = [] then [] else '','') @ EOL) (visit_pretty W nest v (indent W nest s)))"
| "pretty_members W nest [] s = s"
| "pretty_members W nest (((own, k), v) # ms) s =
     pretty_members W nest ms
       (out_bytes W ((if ms = [] then [] else '','') @ EOL)
         (visit_pretty W nest v (out_bytes W '': '' (write_string W (c_str k) (indent W nest s)))))"

text \<open>\<open>measure\<close> and \<open>serialize\<close> into a buffer: the text is terminated when a byte is left.\<close>

definition measureJson :: "variant \<Rightarrow> nat" where
  "measureJson v = snd (visit dummy_writer v ((), 0))"

definition measureJsonPretty :: "variant \<Rightarrow> nat" where
  "measureJsonPretty v = snd (visit_pretty dummy_writer 0 v ((), 0))"

definition serialize_text :: "(static_string out \<Rightarrow> static_string out) \<Rightarrow> string \<Rightarrow> nat \<times> string" where
  "serialize_text serializer buffer =
     (let (w, n) = serializer (\<lparr>ss_buf = buffer, ss_p = 0\<rparr>, 0)
      in (n, if n < length buffer then (ss_buf w)[n := NUL] else ss_buf w))"

definition serializeJson :: "variant \<Rightarrow> string \<Rightarrow> nat \<times> string" where
  "serializeJson v = serialize_text (visit static_writer v)"

definition serializeJsonPretty :: "variant \<Rightarrow> string \<Rightarrow> nat \<times> string" where
  "serializeJsonPretty v = serialize_text (visit_pretty static_writer 0 v)"

section \<open>What is written\<close>

definition char_text :: "char \<Rightarrow> string" where
  "char_text c = (if escapeChar c \<noteq> NUL then [BACKSLASH, escapeChar c] else if c \<noteq> NUL then [c] else BACKSLASH # ''u0000'')"

definition string_text :: "string \<Rightarrow> string" where
  "string_text str = QUOTE # concat (map char_text str) @ [QUOTE]"

fun json_text :: "variant \<Rightarrow> string"
  and elements_text :: "variant list \<Rightarrow> string"
  and members_text :: "slot list \<Rightarrow> string" where
  "json_text VNull = ''null''"
| "json_text (VBool b) = (if b then ''true'' else ''false'')"
| "json_text (VUInt n) = write_uint (unat n)"
| "json_text (VInt n) = concat (write_int n)"
| "json_text (VFloat f) = concat (write_float f)"
| "json_text (VString own str) = string_text str"
| "json_text (VRaw own str) = str"
| "json_text (VArray vs) = ''['' @ elements_text vs @ '']''"
| "json_text (VObject ms) = ''{'' @ members_text ms @ ''}''"
| "elements_text [] = []"
| "elements_text (v # vs) = json_text v @ (if vs = [] then [] else '','' @ elements_text vs)"
| "members_text [] = []"
| "members_text (((own, k), v) # ms) =
     string_text (c_str k) @ '':'' @ json_text v @ (if ms = [] then [] else '','' @ members_text ms)"

definition indent_text :: "u8 \<Rightarrow> string" where
  "indent_text nest = concat (replicate (unat nest) TAB)"

fun pretty_text :: "u8 \<Rightarrow> variant \<Rightarrow> string"
  and pretty_elements_text :: "u8 \<Rightarrow> variant list \<Rightarrow> string"
  and pretty_members_text :: "u8 \<Rightarrow> slot list \<Rightarrow> string" where
  "pretty_text nest (VArray vs) =
     (if vs = [] then ''[]'' else ''['' @ EOL @ pretty_elements_text (nest + 1) vs @ indent_text nest @ '']'')"
| "pretty_text nest (VObject ms) =
     (if ms = [] then ''{}'' else ''{'' @ EOL @ pretty_members_text (nest + 1) ms @ indent_text nest @ ''}'')"
| "pretty_text nest v = json_text v"
| "pretty_elements_text nest [] = []"
| "pretty_elements_text nest (v # vs) =
     indent_text nest @ pretty_text nest v @ (if vs = [] then [] else '','') @ EOL @ pretty_elements_text nest vs"
| "pretty_members_text nest [] = []"
| "pretty_members_text nest (((own, k), v) # ms) =
     indent_text nest @ string_text (c_str k) @ '': '' @ pretty_text nest v @
     (if ms = [] then [] else '','') @ EOL @ pretty_members_text nest ms"

text \<open>What a writer promises: it holds the text it was given, cut where its room ends, and reports how
  many bytes it took.\<close>

locale text_writer =
  fixes W :: "'w writer"
    and holds :: "'w \<Rightarrow> string \<Rightarrow> bool"
    and taken :: "string \<Rightarrow> nat"
  assumes write_bytes_holds:
      "holds w t \<Longrightarrow> write_bytes W s w = (k, w') \<Longrightarrow> holds w' (t @ s) \<and> k + taken t = taken (t @ s)"
    and write_char_bytes: "write_char W c w = write_bytes W [c] w"
begin

definition ready :: "'w out \<Rightarrow> string \<Rightarrow> bool" where
  "ready s t \<longleftrightarrow> holds (fst s) t \<and> snd s = taken t"

lemma out_bytes_ready: "ready s t \<Longrightarrow> ready (out_bytes W str s) (t @ str)"
  using write_bytes_holds [of "fst s" t str] by (fastforce simp: ready_def out_bytes_def split: prod.splits)

lemma out_char_ready: "ready s t \<Longrightarrow> ready (out_char W c s) (t @ [c])"
  using out_bytes_ready [of s t "[c]"] by (simp add: out_char_def out_bytes_def write_char_bytes)

lemma chunks_ready: "ready s t \<Longrightarrow> ready (fold (out_bytes W) cs s) (t @ concat cs)"
  by (induction cs arbitrary: s t) (simp, metis out_bytes_ready append.assoc concat.simps(2) fold_simps(2))

lemma json_char_ready: "ready s t \<Longrightarrow> ready (write_json_char W c s) (t @ char_text c)"
  using out_char_ready [of s t] out_char_ready [of "out_char W BACKSLASH s" "t @ [BACKSLASH]"] out_bytes_ready [of s t]
  by (simp add: write_json_char_def char_text_def Let_def)

lemma json_chars_ready: "ready s t \<Longrightarrow> ready (fold (write_json_char W) cs s) (t @ concat (map char_text cs))"
proof (induction cs arbitrary: s t)
  case (Cons c cs)
  from Cons.IH [OF json_char_ready [OF Cons.prems]] show ?case by simp
qed simp

lemma write_string_ready: "ready s t \<Longrightarrow> ready (write_string W str s) (t @ string_text str)"
  using out_char_ready [OF json_chars_ready [OF out_char_ready [of s t QUOTE], where cs = str], of QUOTE]
  by (simp add: write_string_def string_text_def)

lemma visit_ready:
  "ready s t \<Longrightarrow> ready (visit W v s) (t @ json_text v)"
  "ready s t \<Longrightarrow> ready (visit_elements W vs s) (t @ elements_text vs)"
  "ready s t \<Longrightarrow> ready (visit_members W ms s) (t @ members_text ms)"
proof (induction v and vs and ms arbitrary: s t and s t and s t rule: json_text_elements_text_members_text.induct)
  case (8 vs)
  from out_char_ready [OF 8(1) [OF out_char_ready [OF 8(2)]]] show ?case by simp
next
  case (9 ms)
  from out_char_ready [OF 9(1) [OF out_char_ready [OF 9(2)]]] show ?case by simp
next
  case (11 v vs)
  show ?case
  proof (cases "vs = []")
    case True
    then show ?thesis using 11(1) [OF 11(3)] by simp
  next
    case False
    then show ?thesis using 11(2) [OF False out_char_ready [OF 11(1) [OF 11(3)]]] by simp
  qed
next
  case (13 own k v ms)
  note m = 13(1) [OF out_char_ready [OF write_string_ready [OF 13(3)]]]
  show ?case
  proof (cases "ms = []")
    case True
    then show ?thesis using m by simp
  next
    case False
    then show ?thesis using 13(2) [OF False out_char_ready [OF m]] by simp
  qed
qed (simp_all add: out_bytes_ready chunks_ready write_string_ready write_boolean_def)

lemma indent_ready: "ready s t \<Longrightarrow> ready (indent W nest s) (t @ indent_text nest)"
proof -
  assume s: "ready s t"
  have "ready ((out_bytes W TAB ^^ n) s) (t @ concat (replicate n TAB))" for n
  proof (induction n)
    case (Suc n)
    have "concat (replicate (Suc n) TAB) = concat (replicate n TAB) @ TAB"
      by (induction n) auto
    then show ?case using out_bytes_ready [OF Suc, of TAB] by simp
  qed (simp add: s)
  then show ?thesis by (simp add: indent_def indent_text_def)
qed

lemma pretty_ready:
  "ready s t \<Longrightarrow> ready (visit_pretty W nest v s) (t @ pretty_text nest v)"
  "ready s t \<Longrightarrow> ready (pretty_elements W nest vs s) (t @ pretty_elements_text nest vs)"
  "ready s t \<Longrightarrow> ready (pretty_members W nest ms s) (t @ pretty_members_text nest ms)"
proof (induction nest v and nest vs and nest ms arbitrary: s t and s t and s t
    rule: pretty_text_pretty_elements_text_pretty_members_text.induct)
  case (1 nest vs)
  show ?case
  proof (cases "vs = []")
    case True
    then show ?thesis using out_bytes_ready [OF 1(2)] by simp
  next
    case False
    have "ready (out_bytes W (''['' @ EOL) s) (t @ ''['' @ EOL)" by (rule out_bytes_ready [OF 1(2)])
    from out_bytes_ready [OF indent_ready [OF 1(1) [OF False this], of nest], of "'']''"] False
    show ?thesis by simp
  qed
next
  case (2 nest ms)
  show ?case
  proof (cases "ms = []")
    case True
    then show ?thesis using out_bytes_ready [OF 2(2)] by simp
  next
    case False
    have "ready (out_bytes W (''{'' @ EOL) s) (t @ ''{'' @ EOL)" by (rule out_bytes_ready [OF 2(2)])
    from out_bytes_ready [OF indent_ready [OF 2(1) [OF False this], of nest], of "''}''"] False
    show ?thesis by simp
  qed
next
  case (5 nest v vs)
  let ?sep = "(if vs = [] then [] else '','') @ EOL"
  have "ready (out_bytes W ?sep (visit_pretty W nest v (indent W nest s)))
      (((t @ indent_text nest) @ pretty_text nest v) @ ?sep)"
    by (rule out_bytes_ready [OF 5(1) [OF indent_ready [OF 5(3)]]])
  from 5(2) [OF this] show ?case by simp
next
  case (7 nest own k v ms)
  let ?sep = "(if ms = [] then [] else '','') @ EOL"
  have "ready (out_bytes W '': '' (write_string W (c_str k) (indent W nest s)))
      (((t @ indent_text nest) @ string_text (c_str k)) @ '': '')"
    by (rule out_bytes_ready [OF write_string_ready [OF indent_ready [OF 7(3)]]])
  then have "ready (out_bytes W ?sep (visit_pretty W nest v (out_bytes W '': '' (write_string W (c_str k) (indent W nest s)))))
      (((((t @ indent_text nest) @ string_text (c_str k)) @ '': '') @ pretty_text nest v) @ ?sep)"
    by (rule out_bytes_ready [OF 7(1)])
  from 7(2) [OF this] show ?case by simp
qed (simp_all add: out_bytes_ready chunks_ready write_string_ready write_boolean_def)

end

interpretation dummy: text_writer dummy_writer "\<lambda>_ _. True" length
  by unfold_locales (auto simp: dummy_writer_def)

text \<open>A buffer that had the bytes \<open>b\<close> and was given the text \<open>t\<close>.\<close>

definition static_holds :: "string \<Rightarrow> static_string \<Rightarrow> string \<Rightarrow> bool" where
  "static_holds b w t \<longleftrightarrow> ss_p w = min (length b) (length t) \<and> ss_buf w = take (length b) t @ drop (length t) b"

lemma static_holds_snoc:
  assumes "static_holds b w t"
  shows "ss_p w < length (ss_buf w) \<Longrightarrow>
      static_holds b (w\<lparr>ss_buf := (ss_buf w)[ss_p w := c], ss_p := ss_p w + 1\<rparr>) (t @ [c])"
    "\<not> ss_p w < length (ss_buf w) \<Longrightarrow> static_holds b w (t @ s)"
proof -
  note a = assms [unfolded static_holds_def]
  show "static_holds b (w\<lparr>ss_buf := (ss_buf w)[ss_p w := c], ss_p := ss_p w + 1\<rparr>) (t @ [c])"
    if "ss_p w < length (ss_buf w)"
  proof -
    have l: "length t < length b" using that a by auto
    then obtain x ys where d: "drop (length t) b = x # ys" by (cases "drop (length t) b") auto
    then have "drop (Suc (length t)) b = ys" by (metis drop_Suc list.sel(3) tl_drop)
    then show ?thesis using a l d by (simp add: static_holds_def list_update_append)
  qed
  show "static_holds b w (t @ s)" if "\<not> ss_p w < length (ss_buf w)"
    using that a by (auto simp: static_holds_def)
qed

lemma static_copy_holds: "static_holds b w t \<Longrightarrow> static_holds b (static_copy s w) (t @ s)"
proof (induction s arbitrary: w t)
  case (Cons c s)
  show ?case
  proof (cases "ss_p w < length (ss_buf w)")
    case True
    from Cons.IH [OF static_holds_snoc(1) [OF Cons.prems True, of c]] True show ?thesis by simp
  next
    case False
    with static_holds_snoc(2) [OF Cons.prems False] show ?thesis by simp
  qed
qed simp

interpretation static: text_writer static_writer "static_holds b" "\<lambda>t. min (length b) (length t)" for b
proof unfold_locales
  show "static_holds b w (t @ s) \<and> k + min (length b) (length t) = min (length b) (length (t @ s))"
    if "static_holds b w0 t" "write_bytes static_writer s w0 = (k, w)" for w0 w t s k
  proof -
    have "static_holds b w (t @ s)" "k = ss_p w - ss_p w0"
      using that static_copy_holds by (auto simp: static_writer_def static_write_bytes_def Let_def)
    with that(1) show ?thesis by (auto simp: static_holds_def)
  qed
  show "write_char static_writer c w = write_bytes static_writer [c] w" for c w
    by (simp add: static_writer_def static_write_char_def static_write_bytes_def Let_def)
qed

section \<open>Serialisation\<close>

text \<open>What \<open>serialize\<close> leaves in a buffer for a text.\<close>

definition terminated :: "string \<Rightarrow> string \<Rightarrow> string" where
  "terminated t b = take (length b) (t @ [NUL]) @ drop (length t + 1) b"

lemma serialize_text_result:
  assumes "static.ready b (serializer (\<lparr>ss_buf = b, ss_p = 0\<rparr>, 0)) t"
  shows "serialize_text serializer b = (min (length b) (length t), terminated t b)"
proof -
  obtain w n where s: "serializer (\<lparr>ss_buf = b, ss_p = 0\<rparr>, 0) = (w, n)"
    by (cases "serializer (\<lparr>ss_buf = b, ss_p = 0\<rparr>, 0)")
  have r: "n = min (length b) (length t)" "ss_buf w = take (length b) t @ drop (length t) b"
    using assms by (auto simp: static.ready_def static_holds_def s)
  show ?thesis
  proof (cases "length t < length b")
    case True
    then obtain x ys where d: "drop (length t) b = x # ys" by (cases "drop (length t) b") auto
    then have "drop (Suc (length t)) b = ys" by (metis drop_Suc list.sel(3) tl_drop)
    then show ?thesis using True r d s by (simp add: serialize_text_def terminated_def list_update_append)
  next
    case False
    then show ?thesis using r s by (simp add: serialize_text_def terminated_def)
  qed
qed

lemma static_start: "static.ready b (\<lparr>ss_buf = b, ss_p = 0\<rparr>, 0) []"
  by (simp add: static.ready_def static_holds_def)

lemma serializeJson_result: "serializeJson v b = (min (length b) (length (json_text v)), terminated (json_text v) b)"
  unfolding serializeJson_def using static.visit_ready(1) [OF static_start]
  by (intro serialize_text_result) simp

lemma serializeJsonPretty_result:
  "serializeJsonPretty v b = (min (length b) (length (pretty_text 0 v)), terminated (pretty_text 0 v) b)"
  unfolding serializeJsonPretty_def using static.pretty_ready(1) [OF static_start]
  by (intro serialize_text_result) simp

lemma measureJson_length: "measureJson v = length (json_text v)"
  using dummy.visit_ready(1) [of "((), 0)" "[]" v] by (simp add: measureJson_def dummy.ready_def)

lemma measureJsonPretty_length: "measureJsonPretty v = length (pretty_text 0 v)"
  using dummy.pretty_ready(1) [of "((), 0)" "[]" 0 v] by (simp add: measureJsonPretty_def dummy.ready_def)

lemma terminated_c_str: "NUL \<notin> set t \<Longrightarrow> length t < length b \<Longrightarrow> c_str (terminated t b) = t"
proof -
  assume a: "NUL \<notin> set t" "length t < length b"
  then have "terminated t b = t @ NUL # drop (length t + 1) b" by (simp add: terminated_def)
  with a(1) show ?thesis by simp
qed

text \<open>Only raw values can put a NUL into the text.\<close>

fun no_raw :: "variant \<Rightarrow> bool"
  and no_raw_elements :: "variant list \<Rightarrow> bool"
  and no_raw_members :: "slot list \<Rightarrow> bool" where
  "no_raw (VRaw own str) = False"
| "no_raw (VArray vs) = no_raw_elements vs"
| "no_raw (VObject ms) = no_raw_members ms"
| "no_raw v = True"
| "no_raw_elements [] = True"
| "no_raw_elements (v # vs) = (no_raw v \<and> no_raw_elements vs)"
| "no_raw_members [] = True"
| "no_raw_members ((k, v) # ms) = (no_raw v \<and> no_raw_members ms)"

lemma dec_digits_no_NUL: "NUL \<notin> set (dec_digits n)"
  using dec_digits_digits [of n] by (auto simp: is_digit_def)

lemma digit_not_NUL: "is_digit c \<Longrightarrow> c \<noteq> NUL"
  by (auto simp: is_digit_def)

lemma decimals_no_NUL: "NUL \<notin> set b \<Longrightarrow> NUL \<notin> set (write_decimals v n b)"
proof (induction v n b rule: write_decimals.induct)
  case (2 v n b)
  have "unat (v mod 10) < 10" by (simp add: unat_mod)
  then have "is_digit (char_of (48 + unat (v mod 10)))" by (simp add: is_digit_def of_char_digit)
  from digit_not_NUL [OF this] have "char_of (unat (v mod 10) + 48) \<noteq> NUL" by (simp add: add.commute)
  then show ?case using 2 by auto
qed simp

lemma write_number_no_NUL:
  "\<forall>x\<in>set (write_int w). NUL \<notin> set x" "\<forall>x\<in>set (write_float f). NUL \<notin> set x"
proof -
  show i: "\<forall>x\<in>set (write_int w). NUL \<notin> set x" for w
    by (simp add: write_int_def write_uint_eq dec_digits_no_NUL)
  show "\<forall>x\<in>set (write_float f). NUL \<notin> set x"
    using i decimals_no_NUL [of "[]"] by (auto simp: write_float_def write_uint_eq dec_digits_no_NUL Let_def)
qed

lemma char_text_no_NUL: "NUL \<notin> set (char_text c)"
  by (auto simp: char_text_def)

lemma string_text_no_NUL: "NUL \<notin> set (string_text s)"
  using char_text_no_NUL by (auto simp: string_text_def)

lemma json_text_no_NUL:
  "no_raw v \<Longrightarrow> NUL \<notin> set (json_text v)"
  "no_raw_elements vs \<Longrightarrow> NUL \<notin> set (elements_text vs)"
  "no_raw_members ms \<Longrightarrow> NUL \<notin> set (members_text ms)"
  by (induction v and vs and ms rule: json_text_elements_text_members_text.induct)
    (simp_all add: write_uint_eq dec_digits_no_NUL write_number_no_NUL string_text_no_NUL)

lemma layout_no_NUL: "NUL \<notin> set EOL" "NUL \<notin> set (indent_text nest)"
  by (auto simp: EOL_def TAB_def indent_text_def)

lemma pretty_text_no_NUL:
  "no_raw v \<Longrightarrow> NUL \<notin> set (pretty_text nest v)"
  "no_raw_elements vs \<Longrightarrow> NUL \<notin> set (pretty_elements_text nest vs)"
  "no_raw_members ms \<Longrightarrow> NUL \<notin> set (pretty_members_text nest ms)"
  by (induction nest v and nest vs and nest ms rule: pretty_text_pretty_elements_text_pretty_members_text.induct)
    (simp_all add: layout_no_NUL write_uint_eq dec_digits_no_NUL write_number_no_NUL string_text_no_NUL)

section \<open>Property\<close>

text \<open>The result of writing the text \<open>t\<close>, measured as \<open>m\<close>, into the buffer \<open>b\<close>.\<close>

definition text_in_buffer :: "string \<Rightarrow> nat \<Rightarrow> string \<Rightarrow> nat \<times> string \<Rightarrow> bool" where
  "text_in_buffer t m b = (\<lambda>(n, b').
     n = min (length b) m \<and> length b' = length b \<and> take n b' = take n t \<and> drop (n + 1) b' = drop (n + 1) b \<and>
     (m < length b \<longrightarrow> c_str b' = t) \<and> (length b \<le> m \<longrightarrow> NUL \<notin> set b'))"

lemma terminated_in_buffer:
  "NUL \<notin> set t \<Longrightarrow> text_in_buffer t (length t) b (min (length b) (length t), terminated t b)"
  by (auto simp: text_in_buffer_def terminated_c_str terminated_def min_def dest: in_set_takeD)



end
