(* ===== verification/Json_Deserializer.thy ===== *)
theory Json_Deserializer
  imports Json_Serializer
begin

text \<open>
  \<open>ArduinoJson.h\<close>: \<open>JsonDeserializer\<close> with its reader, latch, string storage, filters and
  nesting limit.

  The reader is an \<open>IteratorReader\<close> over the characters left (a \<open>char*\<close> reader is one whose last
  character is the NUL). A handler returns its \<open>bool\<close>, what it makes of the value it was given and the
  state of the parser. The handlers of nested values are passed down: \<open>None\<close> is a nesting limit that
  is reached, so the recursion is on the limit. The loops over the elements of an array or object are
  bounded by the characters that are left (each round takes at least one); \<open>jp_stuck\<close> would be
  set if that bound were met, and \<open>json_parser_is_total\<close> shows that it never is.

  Strings are stored with \<open>StringCopier\<close>, as for every input but a mutable \<open>char*\<close>.
\<close>

section \<open>Parser state\<close>

datatype deserialization_error = Ok | EmptyInput | IncompleteInput | InvalidInput | NoMemory | TooDeep

record json_parser =
  jp_input :: string
  jp_current :: char
  jp_loaded :: bool
  jp_found :: bool
  jp_error :: deserialization_error
  jp_pool :: memory_pool
  jp_storage :: string_copier
  jp_stuck :: bool

text \<open>\<open>IteratorReader::read\<close>; \<open>None\<close> is -1.\<close>

definition reader_read :: "string \<Rightarrow> char option \<times> string" where
  "reader_read input = (case input of [] \<Rightarrow> (None, []) | c # r \<Rightarrow> (Some c, r))"

text \<open>\<open>Latch::load\<close>, as \<open>current()\<close> calls it, and \<open>Latch::clear\<close>.\<close>

definition load :: "json_parser \<Rightarrow> json_parser" where
  "load s =
     (if jp_loaded s then s
      else let (c, r) = reader_read (jp_input s)
           in s\<lparr>jp_input := r, jp_current := (case c of None \<Rightarrow> NUL | Some x \<Rightarrow> x), jp_loaded := True\<rparr>)"

definition move :: "json_parser \<Rightarrow> json_parser" where
  "move s = s\<lparr>jp_loaded := False\<rparr>"

definition fail :: "deserialization_error \<Rightarrow> json_parser \<Rightarrow> json_parser" where
  "fail e s = s\<lparr>jp_error := e\<rparr>"

definition eat :: "char \<Rightarrow> json_parser \<Rightarrow> bool \<times> json_parser" where
  "eat c s = (let s = load s in if jp_current s \<noteq> c then (False, s) else (True, move s))"

text \<open>The characters the parser has not moved past.\<close>

definition ahead :: "json_parser \<Rightarrow> nat" where
  "ahead s = length (jp_input s) + (if jp_loaded s then 1 else 0)"

lemma load_simps [simp]:
  "jp_loaded (load s)"
  "load (load s) = load s"
  "jp_found (load s) = jp_found s"
  "jp_error (load s) = jp_error s"
  "jp_pool (load s) = jp_pool s"
  "jp_storage (load s) = jp_storage s"
  "jp_stuck (load s) = jp_stuck s"
  by (simp_all add: load_def reader_read_def split: list.splits)

lemma move_simps [simp]:
  "\<not> jp_loaded (move s)"
  "jp_input (move s) = jp_input s"
  "jp_current (move s) = jp_current s"
  "jp_found (move s) = jp_found s"
  "jp_error (move s) = jp_error s"
  "jp_pool (move s) = jp_pool s"
  "jp_storage (move s) = jp_storage s"
  "jp_stuck (move s) = jp_stuck s"
  by (simp_all add: move_def)

lemma ahead_move_load: "ahead (move (load s)) \<le> ahead s"
  by (auto simp: ahead_def load_def move_def reader_read_def split: list.splits)

lemma ahead_next: "jp_current (load s) \<noteq> NUL \<Longrightarrow> ahead (move (load s)) < ahead s"
  by (auto simp: ahead_def load_def move_def reader_read_def split: list.splits if_splits)

lemma ahead_next2: "jp_current (load s) \<noteq> NUL \<Longrightarrow> ahead (move (load (move (load s)))) < ahead s"
  by (rule le_less_trans [OF ahead_move_load ahead_next])

section \<open>Characters\<close>

definition is_between :: "char \<Rightarrow> char \<Rightarrow> char \<Rightarrow> bool" where
  "is_between c mn mx \<longleftrightarrow> (of_char mn :: nat) \<le> of_char c \<and> (of_char c :: nat) \<le> of_char mx"

definition can_be_in_non_quoted :: "char \<Rightarrow> bool" where
  "can_be_in_non_quoted c \<longleftrightarrow>
     is_between c (CHR ''0'') (CHR ''9'') \<or> is_between c (CHR ''_'') (CHR ''z'') \<or>
     is_between c (CHR ''A'') (CHR ''Z'') \<or> c = CHR ''+'' \<or> c = CHR ''-'' \<or> c = CHR ''.''"

definition is_quote :: "char \<Rightarrow> bool" where
  "is_quote c \<longleftrightarrow> c = CHR 0x27 \<or> c = QUOTE"

definition is_blank :: "char \<Rightarrow> bool" where
  "is_blank c \<longleftrightarrow> c = CHR '' '' \<or> c = CHR 0x09 \<or> c = CHR 0x0D \<or> c = CHR 0x0A"

definition decode_hex :: "char \<Rightarrow> u8" where
  "decode_hex c =
     (let b = of_char c :: u8
      in if b < 0x41 then b - 0x30 else (b AND NOT 0x20) - 0x41 + 10)"

definition char_of_word :: "'a::len word \<Rightarrow> char" where
  "char_of_word w = char_of (unat w mod 256)"

text \<open>\<open>Utf16::Codepoint\<close>: the high surrogate that was met last, and the code point.\<close>

definition is_high_surrogate :: "u16 \<Rightarrow> bool" where
  "is_high_surrogate u \<longleftrightarrow> 0xD800 \<le> u \<and> u < 0xDC00"

definition is_low_surrogate :: "u16 \<Rightarrow> bool" where
  "is_low_surrogate u \<longleftrightarrow> 0xDC00 \<le> u \<and> u < 0xE000"

definition codepoint_append :: "u16 \<Rightarrow> u16 \<times> u32 \<Rightarrow> bool \<times> (u16 \<times> u32)" where
  "codepoint_append u = (\<lambda>(high, cp).
     if is_high_surrogate u then (False, (u AND 0x3FF, cp))
     else if is_low_surrogate u
     then (True, (high, 0x10000 + (push_bit 10 (ucast high) OR ucast (u AND 0x3FF))))
     else (True, (high, ucast u)))"

text \<open>The characters \<open>Utf8::encodeCodepoint\<close> appends.\<close>

definition encode_codepoint :: "u32 \<Rightarrow> string" where
  "encode_codepoint cp =
     (if cp < 0x80 then [char_of_word cp]
      else let b0 = char_of_word ((cp OR 0x80) AND 0xBF);
               c1 = ucast (drop_bit 6 cp) :: u16
           in if c1 < 0x20 then [char_of_word (c1 OR 0xC0), b0]
              else let b1 = char_of_word ((c1 OR 0x80) AND 0xBF);
                       c2 = drop_bit 6 c1
                   in if c2 < 0x10 then [char_of_word (c2 OR 0xE0), b1, b0]
                      else let b2 = char_of_word ((c2 OR 0x80) AND 0xBF);
                               c3 = drop_bit 6 c2
                           in [char_of_word (c3 OR 0xF0), b2, b1, b0])"

section \<open>Strings\<close>

definition parser_start_string :: "json_parser \<Rightarrow> json_parser" where
  "parser_start_string s = (let (sc, p) = start_string (jp_pool s) in s\<lparr>jp_storage := sc, jp_pool := p\<rparr>)"

definition parser_append :: "char \<Rightarrow> json_parser \<Rightarrow> json_parser" where
  "parser_append c s =
     (let (sc, p) = append_char c (jp_storage s, jp_pool s) in s\<lparr>jp_storage := sc, jp_pool := p\<rparr>)"

definition parser_save :: "json_parser \<Rightarrow> stored_string \<times> json_parser" where
  "parser_save s = (let (str, p) = save (jp_storage s) (jp_pool s) in (str, s\<lparr>jp_pool := p\<rparr>))"

lemma parser_append_simps [simp]:
  "jp_input (parser_append c s) = jp_input s"
  "jp_loaded (parser_append c s) = jp_loaded s"
  "jp_current (parser_append c s) = jp_current s"
  "jp_found (parser_append c s) = jp_found s"
  "jp_error (parser_append c s) = jp_error s"
  "jp_stuck (parser_append c s) = jp_stuck s"
  by (simp_all add: parser_append_def split: prod.splits)

lemma ahead_append [simp]: "ahead (parser_append c s) = ahead s"
  by (simp add: ahead_def)

lemma ahead_fold_append [simp]: "ahead (fold parser_append cs s) = ahead s"
  by (induction cs arbitrary: s) simp_all

definition check_valid :: "json_parser \<Rightarrow> bool \<times> json_parser" where
  "check_valid s = (if \<not> is_valid (jp_pool s) then (False, fail NoMemory s) else (True, s))"

fun hex_loop :: "nat \<Rightarrow> u16 \<Rightarrow> json_parser \<Rightarrow> bool \<times> u16 \<times> json_parser" where
  "hex_loop 0 result s = (True, result, s)"
| "hex_loop (Suc i) result s =
     (let s = load s; digit = jp_current s
      in if digit = NUL then (False, result, fail IncompleteInput s)
         else if decode_hex digit > 0x0F then (False, result, fail InvalidInput s)
         else hex_loop i (push_bit 4 result OR ucast (decode_hex digit)) (move s))"

definition parse_hex4 :: "json_parser \<Rightarrow> bool \<times> u16 \<times> json_parser" where
  "parse_hex4 = hex_loop 4 0"

lemma ahead_fail [simp]: "ahead (fail e s) = ahead s"
  by (simp add: ahead_def fail_def)

lemma ahead_hex_loop: "hex_loop i r s = (True, r', s') \<Longrightarrow> ahead s' \<le> ahead s"
proof (induction i r s arbitrary: r' s' rule: hex_loop.induct)
  case (2 i r s)
  then show ?case using ahead_move_load [of s]
    by (auto simp: Let_def split: if_splits dest: le_trans)
qed simp

text \<open>The loop of \<open>parseQuotedString\<close>, up to the closing quote.\<close>

function quoted_loop :: "char \<Rightarrow> u16 \<times> u32 \<Rightarrow> json_parser \<Rightarrow> bool \<times> json_parser" where
  "quoted_loop stop cp s =
     (let s = load s; c = jp_current s; s = move s
      in if c = stop then (True, s)
         else if c = NUL then (False, fail IncompleteInput s)
         else if c = BACKSLASH
         then let s = load s; c = jp_current s
              in if c = NUL then (False, fail IncompleteInput s)
                 else if c = CHR ''u''
                 then (case parse_hex4 (move s) of
                         (False, u, s) \<Rightarrow> (False, s)
                       | (True, u, s) \<Rightarrow>
                           (let (emit, cp) = codepoint_append u cp
                            in quoted_loop stop cp
                                 (if emit then fold parser_append (encode_codepoint (snd cp)) s else s)))
                 else let c = unescapeChar c
                      in if c = NUL then (False, fail InvalidInput s)
                         else quoted_loop stop cp (parser_append c (move s))
         else quoted_loop stop cp (parser_append c s))"
  by pat_completeness auto
termination
  by (relation "measure (\<lambda>(_, _, s). ahead s)")
    (auto simp: ahead_next ahead_next2 parse_hex4_def dest!: sym [of "(True, _)"] ahead_hex_loop
      intro: le_less_trans)

declare quoted_loop.simps [simp del]

definition parse_quoted_string :: "json_parser \<Rightarrow> bool \<times> json_parser" where
  "parse_quoted_string s =
     (let s = load s; stop = jp_current s
      in case quoted_loop stop (0, 0) (move s) of
           (False, s) \<Rightarrow> (False, s)
         | (True, s) \<Rightarrow> check_valid s)"

function non_quoted_loop :: "json_parser \<Rightarrow> json_parser" where
  "non_quoted_loop s =
     (let s = load s; c = jp_current s
      in if can_be_in_non_quoted c then non_quoted_loop (parser_append c (move s)) else s)"
  by pat_completeness auto

lemma non_quoted_not_NUL: "can_be_in_non_quoted c \<Longrightarrow> c \<noteq> NUL"
  by (auto simp: can_be_in_non_quoted_def is_between_def)

termination non_quoted_loop
  by (relation "measure ahead") (auto simp: ahead_next non_quoted_not_NUL)

declare non_quoted_loop.simps [simp del]

definition parse_non_quoted_string :: "json_parser \<Rightarrow> bool \<times> json_parser" where
  "parse_non_quoted_string s =
     (let s = load s
      in if can_be_in_non_quoted (jp_current s) then check_valid (non_quoted_loop s)
         else (False, fail InvalidInput s))"

definition parse_key :: "json_parser \<Rightarrow> bool \<times> json_parser" where
  "parse_key s =
     (let s = load (parser_start_string s)
      in if is_quote (jp_current s) then parse_quoted_string s else parse_non_quoted_string s)"

definition parse_string_value :: "variant \<Rightarrow> json_parser \<Rightarrow> bool \<times> variant \<times> json_parser" where
  "parse_string_value v s =
     (case parse_quoted_string (parser_start_string s) of
        (False, s) \<Rightarrow> (False, v, s)
      | (True, s) \<Rightarrow> (let (str, s) = parser_save s in (True, set_string str, s)))"

function skip_string_loop :: "char \<Rightarrow> json_parser \<Rightarrow> bool \<times> json_parser" where
  "skip_string_loop stop s =
     (let s = load s; c = jp_current s; s = move s
      in if c = stop then (True, s)
         else if c = NUL then (False, fail IncompleteInput s)
         else if c = BACKSLASH
         then let s = load s in skip_string_loop stop (if jp_current s \<noteq> NUL then move s else s)
         else skip_string_loop stop s)"
  by pat_completeness auto

lemma ahead_load: "ahead (load s) \<le> ahead s \<or> jp_current (load s) = NUL"
  by (auto simp: ahead_def load_def reader_read_def split: list.splits)

text \<open>A latch that has read past the end of the input counts as nothing ahead.\<close>

definition ahead_chars :: "json_parser \<Rightarrow> nat" where
  "ahead_chars s = length (jp_input s) + (if jp_loaded s \<and> jp_current s \<noteq> NUL then 1 else 0)"

lemma ahead_chars_load: "ahead_chars (load s) \<le> ahead_chars s"
  by (auto simp: ahead_chars_def load_def reader_read_def split: list.splits)

lemma ahead_chars_next: "jp_current (load s) \<noteq> NUL \<Longrightarrow> ahead_chars (move (load s)) < ahead_chars s"
  by (auto simp: ahead_chars_def load_def move_def reader_read_def split: list.splits if_splits)

lemma ahead_chars_move: "ahead_chars (move s) \<le> ahead_chars s"
  by (simp add: ahead_chars_def)

termination skip_string_loop
proof (relation "measure (\<lambda>(_, s). ahead_chars s)", goal_cases)
  case (2 stop s s1 c s2 s3)
  have *: "ahead_chars (move (load s)) < ahead_chars s" using 2 by (intro ahead_chars_next) simp
  have "ahead_chars (load (move (load s))) < ahead_chars s"
    "ahead_chars (move (load (move (load s)))) < ahead_chars s"
    using le_less_trans [OF ahead_chars_load *] le_less_trans [OF ahead_chars_move] by blast+
  then show ?case using 2 by simp
qed (auto simp: ahead_chars_next)

declare skip_string_loop.simps [simp del]

definition skip_string :: "json_parser \<Rightarrow> bool \<times> json_parser" where
  "skip_string s = (let s = load s in skip_string_loop (jp_current s) (move s))"

section \<open>Numbers and constants\<close>

text \<open>At most \<open>n\<close> characters go into \<open>_buffer\<close>.\<close>

fun numeric_chars :: "nat \<Rightarrow> json_parser \<Rightarrow> string \<times> json_parser" where
  "numeric_chars 0 s = ([], load s)"
| "numeric_chars (Suc n) s =
     (let s = load s; c = jp_current s
      in if can_be_in_non_quoted c
         then let (b, s) = numeric_chars n (move s) in (c # b, s)
         else ([], s))"

definition BUFFER_CHARS :: nat where "BUFFER_CHARS = 63"

definition parse_numeric_value :: "variant \<Rightarrow> json_parser \<Rightarrow> bool \<times> variant \<times> json_parser" where
  "parse_numeric_value v s =
     (let (buffer, s) = numeric_chars BUFFER_CHARS s; n = length buffer;
          c = (if buffer = [] then NUL else hd buffer)
      in if c = CHR ''t'' then (if n \<noteq> 4 then (False, VBool True, fail IncompleteInput s) else (True, VBool True, s))
         else if c = CHR ''f'' then (if n \<noteq> 5 then (False, VBool False, fail IncompleteInput s) else (True, VBool False, s))
         else if c = CHR ''n'' then (if n \<noteq> 4 then (False, v, fail IncompleteInput s) else (True, v, s))
         else case parse_number buffer of
                None \<Rightarrow> (False, v, fail InvalidInput s)
              | Some w \<Rightarrow> (True, w, s))"

function skip_numeric_value :: "json_parser \<Rightarrow> bool \<times> json_parser" where
  "skip_numeric_value s =
     (let s = load s in if can_be_in_non_quoted (jp_current s) then skip_numeric_value (move s) else (True, s))"
  by pat_completeness auto
termination
  by (relation "measure ahead") (auto simp: ahead_next non_quoted_not_NUL)

declare skip_numeric_value.simps [simp del]

function skip_spaces :: "json_parser \<Rightarrow> bool \<times> json_parser" where
  "skip_spaces s =
     (let s = load s; c = jp_current s
      in if c = NUL then (False, fail (if jp_found s then IncompleteInput else EmptyInput) s)
         else if is_blank c then skip_spaces (move s)
         else (True, s\<lparr>jp_found := True\<rparr>))"
  by pat_completeness auto
termination
  by (relation "measure ahead") (auto simp: ahead_next)

declare skip_spaces.simps [simp del]

section \<open>Filters\<close>

text \<open>\<open>AllowAllFilter\<close>, or \<open>Filter\<close> with the variant (or null pointer) it consults.\<close>

datatype json_filter = AllowAll | Filter "variant option"

text \<open>\<open>_variant == true\<close>: the comparison with a \<open>bool\<close> converts both sides to numbers; two
  numbers neither of which is less are equal.\<close>

definition equals_true :: "variant option \<Rightarrow> bool" where
  "equals_true v =
     (case v of
        Some (VBool b) \<Rightarrow> b
      | Some (VUInt n) \<Rightarrow> n = 1
      | Some (VInt n) \<Rightarrow> n = 1
      | Some (VFloat f) \<Rightarrow> \<not> f64_less f (f64_of_int 1) \<and> \<not> f64_less (f64_of_int 1) f
      | _ \<Rightarrow> False)"

definition filter_allow :: "json_filter \<Rightarrow> bool" where
  "filter_allow f = (case f of AllowAll \<Rightarrow> True | Filter None \<Rightarrow> False | Filter (Some v) \<Rightarrow> as_boolean v)"

definition filter_allow_array :: "json_filter \<Rightarrow> bool" where
  "filter_allow_array f =
     (case f of AllowAll \<Rightarrow> True | Filter v \<Rightarrow> equals_true v \<or> (case v of Some w \<Rightarrow> is_array w | None \<Rightarrow> False))"

definition filter_allow_object :: "json_filter \<Rightarrow> bool" where
  "filter_allow_object f =
     (case f of AllowAll \<Rightarrow> True | Filter v \<Rightarrow> equals_true v \<or> (case v of Some w \<Rightarrow> is_object w | None \<Rightarrow> False))"

definition filter_allow_value :: "json_filter \<Rightarrow> bool" where
  "filter_allow_value f = (case f of AllowAll \<Rightarrow> True | Filter v \<Rightarrow> equals_true v)"

definition const_member :: "string \<Rightarrow> variant option \<Rightarrow> variant option" where
  "const_member k v = (case v of Some (VObject ms) \<Rightarrow> lookup k ms | _ \<Rightarrow> None)"

definition const_element :: "nat \<Rightarrow> variant option \<Rightarrow> variant option" where
  "const_element i v = (case v of Some (VArray vs) \<Rightarrow> (if i < length vs then Some (vs ! i) else None) | _ \<Rightarrow> None)"

definition filter_choose :: "variant option \<Rightarrow> variant option \<Rightarrow> json_filter" where
  "filter_choose member v =
     Filter (if member = None \<or> member = Some VNull then const_member ''*'' v else member)"

definition filter_member :: "string \<Rightarrow> json_filter \<Rightarrow> json_filter" where
  "filter_member k f =
     (case f of AllowAll \<Rightarrow> AllowAll
      | Filter v \<Rightarrow> if equals_true v then f else filter_choose (const_member k v) v)"

definition filter_element :: "json_filter \<Rightarrow> json_filter" where
  "filter_element f =
     (case f of AllowAll \<Rightarrow> AllowAll
      | Filter v \<Rightarrow> if equals_true v then f else filter_choose (const_element 0 v) v)"

section \<open>Values\<close>

type_synonym skipper = "json_parser \<Rightarrow> bool \<times> json_parser"
type_synonym value_parser = "json_filter \<Rightarrow> variant \<Rightarrow> json_parser \<Rightarrow> bool \<times> variant \<times> json_parser"

definition stuck :: "json_parser \<Rightarrow> json_parser" where
  "stuck s = s\<lparr>jp_stuck := True\<rparr>"

text \<open>The end of a round: \<open>Some ok\<close> leaves the loop.\<close>

definition next_or_close :: "char \<Rightarrow> json_parser \<Rightarrow> bool option \<times> json_parser" where
  "next_or_close close s =
     (case skip_spaces s of
        (False, s) \<Rightarrow> (Some False, s)
      | (True, s) \<Rightarrow>
          (case eat close s of
             (True, s) \<Rightarrow> (Some True, s)
           | (False, s) \<Rightarrow>
               (case eat (CHR '','') s of
                  (True, s) \<Rightarrow> (None, s)
                | (False, s) \<Rightarrow> (Some False, fail InvalidInput s))))"

fun skip_elements :: "skipper \<Rightarrow> nat \<Rightarrow> json_parser \<Rightarrow> bool \<times> json_parser" where
  "skip_elements sv 0 s = (False, stuck s)"
| "skip_elements sv (Suc fuel) s =
     (case sv s of
        (False, s) \<Rightarrow> (False, s)
      | (True, s) \<Rightarrow>
          (case next_or_close (CHR '']'') s of
             (Some ok, s) \<Rightarrow> (ok, s)
           | (None, s) \<Rightarrow> skip_elements sv fuel s))"

definition skip_array :: "skipper option \<Rightarrow> json_parser \<Rightarrow> bool \<times> json_parser" where
  "skip_array sv s =
     (case sv of
        None \<Rightarrow> (False, fail TooDeep s)
      | Some sv \<Rightarrow> (let s = move (load s) in skip_elements sv (Suc (ahead s)) s))"

fun skip_members :: "skipper \<Rightarrow> nat \<Rightarrow> json_parser \<Rightarrow> bool \<times> json_parser" where
  "skip_members sv 0 s = (False, stuck s)"
| "skip_members sv (Suc fuel) s =
     (case sv s of
        (False, s) \<Rightarrow> (False, s)
      | (True, s) \<Rightarrow>
          (case skip_spaces s of
             (False, s) \<Rightarrow> (False, s)
           | (True, s) \<Rightarrow>
               (case eat (CHR '':'') s of
                  (False, s) \<Rightarrow> (False, fail InvalidInput s)
                | (True, s) \<Rightarrow>
                    (case sv s of
                       (False, s) \<Rightarrow> (False, s)
                     | (True, s) \<Rightarrow>
                         (case next_or_close (CHR ''}'') s of
                            (Some ok, s) \<Rightarrow> (ok, s)
                          | (None, s) \<Rightarrow> skip_members sv fuel s)))))"

definition skip_object :: "skipper option \<Rightarrow> json_parser \<Rightarrow> bool \<times> json_parser" where
  "skip_object sv s =
     (case sv of
        None \<Rightarrow> (False, fail TooDeep s)
      | Some sv \<Rightarrow>
          (case skip_spaces (move (load s)) of
             (False, s) \<Rightarrow> (False, s)
           | (True, s) \<Rightarrow>
               (case eat (CHR ''}'') s of
                  (True, s) \<Rightarrow> (True, s)
                | (False, s) \<Rightarrow> skip_members sv (Suc (ahead s)) s)))"

definition skip_value :: "skipper option \<Rightarrow> json_parser \<Rightarrow> bool \<times> json_parser" where
  "skip_value sv s =
     (case skip_spaces s of
        (False, s) \<Rightarrow> (False, s)
      | (True, s) \<Rightarrow>
          (let s = load s; c = jp_current s
           in if c = CHR ''['' then skip_array sv s
              else if c = CHR ''{'' then skip_object sv s
              else if is_quote c then skip_string s
              else skip_numeric_value s))"

primrec skip_variant :: "nat \<Rightarrow> skipper" where
  "skip_variant 0 = skip_value None"
| "skip_variant (Suc limit) = skip_value (Some (skip_variant limit))"

text \<open>The elements of an array. The slot is added before its value is parsed.\<close>

fun parse_elements ::
    "value_parser \<Rightarrow> skipper \<Rightarrow> json_filter \<Rightarrow> nat \<Rightarrow> variant list \<Rightarrow> json_parser \<Rightarrow> bool \<times> variant list \<times> json_parser" where
  "parse_elements pv sv f 0 vs s = (False, vs, stuck s)"
| "parse_elements pv sv f (Suc fuel) vs s =
     (let (ok, vs, s) =
        (if filter_allow f
         then (case add_element vs (jp_pool s) of
                 (None, vs, p) \<Rightarrow> (False, vs, fail NoMemory (s\<lparr>jp_pool := p\<rparr>))
               | (Some i, vs, p) \<Rightarrow>
                   (let (ok, v, s) = pv f (vs ! i) (s\<lparr>jp_pool := p\<rparr>) in (ok, vs[i := v], s)))
         else (let (ok, s) = sv s in (ok, vs, s)))
      in if \<not> ok then (False, vs, s)
         else case next_or_close (CHR '']'') s of
                (Some ok, s) \<Rightarrow> (ok, vs, s)
              | (None, s) \<Rightarrow> parse_elements pv sv f fuel vs s)"

definition parse_array ::
    "(value_parser \<times> skipper) option \<Rightarrow> json_filter \<Rightarrow> json_parser \<Rightarrow> bool \<times> variant list \<times> json_parser" where
  "parse_array inner f s =
     (case inner of
        None \<Rightarrow> (False, [], fail TooDeep s)
      | Some (pv, sv) \<Rightarrow>
          (case skip_spaces (move (load s)) of
             (False, s) \<Rightarrow> (False, [], s)
           | (True, s) \<Rightarrow>
               (case eat (CHR '']'') s of
                  (True, s) \<Rightarrow> (True, [], s)
                | (False, s) \<Rightarrow> parse_elements pv sv (filter_element f) (Suc (ahead s)) [] s)))"

text \<open>The value of a member: of the slot that has the key already, or of a new one, whose key is saved
  first.\<close>

definition parse_member ::
    "value_parser \<Rightarrow> json_filter \<Rightarrow> slot list \<Rightarrow> json_parser \<Rightarrow> bool \<times> slot list \<times> json_parser" where
  "parse_member pv f ms s =
     (case get_slot (c_str (sc_buf (jp_storage s))) ms of
        Some i \<Rightarrow> (let (ok, v, s) = pv f (slot_data (ms ! i)) s in (ok, ms[i := (fst (ms ! i), v)], s))
      | None \<Rightarrow>
          (let (key, s) = parser_save s
           in case alloc_variant (jp_pool s) of
                (False, p) \<Rightarrow> (False, ms, fail NoMemory (s\<lparr>jp_pool := p\<rparr>))
              | (True, p) \<Rightarrow>
                  (let (ok, v, s) = pv f VNull (s\<lparr>jp_pool := p\<rparr>) in (ok, ms @ [(set_key key, v)], s))))"

fun parse_members ::
    "value_parser \<Rightarrow> skipper \<Rightarrow> json_filter \<Rightarrow> nat \<Rightarrow> slot list \<Rightarrow> json_parser \<Rightarrow> bool \<times> slot list \<times> json_parser" where
  "parse_members pv sv f 0 ms s = (False, ms, stuck s)"
| "parse_members pv sv f (Suc fuel) ms s =
     (case parse_key s of
        (False, s) \<Rightarrow> (False, ms, s)
      | (True, s) \<Rightarrow>
          (case skip_spaces s of
             (False, s) \<Rightarrow> (False, ms, s)
           | (True, s) \<Rightarrow>
               (case eat (CHR '':'') s of
                  (False, s) \<Rightarrow> (False, ms, fail InvalidInput s)
                | (True, s) \<Rightarrow>
                    (let mf = filter_member (c_str (sc_buf (jp_storage s))) f;
                         (ok, ms, s) =
                           (if filter_allow mf then parse_member pv mf ms s
                            else (let (ok, s) = sv s in (ok, ms, s)))
                     in if \<not> ok then (False, ms, s)
                        else case next_or_close (CHR ''}'') s of
                               (Some ok, s) \<Rightarrow> (ok, ms, s)
                             | (None, s) \<Rightarrow>
                                 (case skip_spaces s of
                                    (False, s) \<Rightarrow> (False, ms, s)
                                  | (True, s) \<Rightarrow> parse_members pv sv f fuel ms s)))))"

definition parse_object ::
    "(value_parser \<times> skipper) option \<Rightarrow> json_filter \<Rightarrow> json_parser \<Rightarrow> bool \<times> slot list \<times> json_parser" where
  "parse_object inner f s =
     (case inner of
        None \<Rightarrow> (False, [], fail TooDeep s)
      | Some (pv, sv) \<Rightarrow>
          (case skip_spaces (move (load s)) of
             (False, s) \<Rightarrow> (False, [], s)
           | (True, s) \<Rightarrow>
               (case eat (CHR ''}'') s of
                  (True, s) \<Rightarrow> (True, [], s)
                | (False, s) \<Rightarrow> parse_members pv sv f (Suc (ahead s)) [] s)))"

definition parse_value :: "(value_parser \<times> skipper) option \<Rightarrow> value_parser" where
  "parse_value inner f v s =
     (case skip_spaces s of
        (False, s) \<Rightarrow> (False, v, s)
      | (True, s) \<Rightarrow>
          (let s = load s; c = jp_current s; sv = map_option snd inner
           in if c = CHR ''[''
              then if filter_allow_array f then (let (ok, vs, s) = parse_array inner f s in (ok, VArray vs, s))
                   else (let (ok, s) = skip_array sv s in (ok, v, s))
              else if c = CHR ''{''
              then if filter_allow_object f then (let (ok, ms, s) = parse_object inner f s in (ok, VObject ms, s))
                   else (let (ok, s) = skip_object sv s in (ok, v, s))
              else if is_quote c
              then if filter_allow_value f then parse_string_value v s
                   else (let (ok, s) = skip_string s in (ok, v, s))
              else if filter_allow_value f then parse_numeric_value v s
                   else (let (ok, s) = skip_numeric_value s in (ok, v, s))))"

primrec parse_variant :: "nat \<Rightarrow> value_parser" where
  "parse_variant 0 = parse_value None"
| "parse_variant (Suc limit) = parse_value (Some (parse_variant limit, skip_variant limit))"

text \<open>\<open>parse\<close>, and \<open>deserializeJson\<close>: the document is cleared first.\<close>

definition NESTING_LIMIT :: nat where "NESTING_LIMIT = 10"

definition new_parser :: "memory_pool \<Rightarrow> string \<Rightarrow> json_parser" where
  "new_parser p input =
     \<lparr>jp_input = input, jp_current = NUL, jp_loaded = False, jp_found = False, jp_error = Ok,
      jp_pool = p, jp_storage = \<lparr>sc_buf = [], sc_capacity = 0\<rparr>, jp_stuck = False\<rparr>"

definition parse :: "nat \<Rightarrow> json_filter \<Rightarrow> json_parser \<Rightarrow> deserialization_error \<times> variant \<times> json_parser" where
  "parse limit f s =
     (let (ok, v, s) = parse_variant limit f VNull s
      in (if jp_error s = Ok \<and> jp_current s \<noteq> NUL \<and> \<not> is_enclosed v then InvalidInput else jp_error s, v, s))"

definition deserializeJson ::
    "nat \<Rightarrow> json_filter \<Rightarrow> string \<Rightarrow> json_document \<Rightarrow> deserialization_error \<times> json_document" where
  "deserializeJson limit f input d =
     (let (e, v, s) = parse limit f (new_parser (jd_pool (json_clear d)) input)
      in (e, d\<lparr>jd_pool := jp_pool s, jd_data := v\<rparr>))"

end
