(* ===== verification/Json_Parser_Safety.thy ===== *)
theory Json_Parser_Safety
  imports Json_Deserializer
begin

text \<open>
  What \<open>JsonDeserializer\<close> promises on every input: it returns, it reports an error exactly when it
  fails, it never leaves its memory pool, the value it builds is well formed and no deeper than the
  nesting limit. The nested handlers enter through the locale \<open>nested_parser\<close>, which is
  interpreted on \<open>parse_variant\<close> and \<open>skip_variant\<close> for every limit.
\<close>

section \<open>Sound steps\<close>

definition sound :: "bool \<Rightarrow> json_parser \<Rightarrow> json_parser \<Rightarrow> bool" where
  "sound ok s s' \<longleftrightarrow> ahead_chars s' \<le> ahead_chars s \<and> jp_stuck s' = jp_stuck s \<and>
     pool_extends (jp_pool s) (jp_pool s') \<and> (pool_ok (jp_pool s) \<longrightarrow> pool_ok (jp_pool s')) \<and>
     (if ok then jp_error s' = jp_error s else jp_error s' \<noteq> Ok)"

text \<open>Steps that touch neither the pool nor the string that is being built.\<close>

definition same_memory :: "json_parser \<Rightarrow> json_parser \<Rightarrow> bool" where
  "same_memory s s' \<longleftrightarrow> jp_pool s' = jp_pool s \<and> jp_storage s' = jp_storage s"

lemma sound_refl [simp]: "sound True s s"
  by (simp add: sound_def)

lemma sound_trans: "sound True s s1 \<Longrightarrow> sound ok s1 s2 \<Longrightarrow> sound ok s s2"
  by (auto simp: sound_def dest: pool_extends_trans split: if_splits)

lemma sound_fail: "sound True s s1 \<Longrightarrow> e \<noteq> Ok \<Longrightarrow> sound False s (fail e s1)"
  by (auto simp: sound_def fail_def ahead_chars_def)

lemma same_memory_refl [simp]: "same_memory s s"
  by (simp add: same_memory_def)

lemma same_memory_trans: "same_memory s s1 \<Longrightarrow> same_memory s1 s2 \<Longrightarrow> same_memory s s2"
  by (simp add: same_memory_def)

lemma same_memory_fail [simp]: "same_memory s (fail e s1) = same_memory s s1"
  by (simp add: same_memory_def fail_def)

lemma load_sound [simp]: "sound True s (load s)" "same_memory s (load s)"
  using ahead_chars_load [of s] by (simp_all add: sound_def same_memory_def)

lemma move_sound [simp]: "sound True s (move s)" "same_memory s (move s)"
  using ahead_chars_move [of s] by (simp_all add: sound_def same_memory_def)

lemma move_load_sound: "sound True s (move (load s))" "same_memory s (move (load s))"
  by (rule sound_trans [OF load_sound(1) move_sound(1)], rule same_memory_trans [OF load_sound(2) move_sound(2)])

lemma eat_sound:
  assumes "eat c s = (b, s')"
  shows "sound True s s'" "same_memory s s'" "b \<Longrightarrow> c \<noteq> NUL \<Longrightarrow> ahead_chars s' < ahead_chars s"
  using assms move_load_sound [of s] ahead_chars_next [of s]
  by (auto simp: eat_def Let_def split: if_splits)

lemma skip_spaces_sound:
  "skip_spaces s = (ok, s') \<Longrightarrow> sound ok s s' \<and> same_memory s s' \<and> (ok \<longrightarrow> jp_loaded s' \<and> jp_current s' \<noteq> NUL)"
proof (induction s rule: skip_spaces.induct)
  case (1 s)
  let ?c = "jp_current (load s)"
  consider "?c = NUL" | "?c \<noteq> NUL" "is_blank ?c" | "?c \<noteq> NUL" "\<not> is_blank ?c" by blast
  then show ?case
  proof cases
    case 1
    with "1.prems" sound_fail [OF load_sound(1) [of s]] show ?thesis
      by (subst (asm) skip_spaces.simps) (auto simp: Let_def split: if_splits)
  next
    case 2
    have "skip_spaces (move (load s)) = (ok, s')"
      using "1.prems" 2 by (subst (asm) skip_spaces.simps) (simp add: Let_def)
    from "1.IH" [OF refl refl _ _ this] 2 sound_trans [OF move_load_sound(1)] same_memory_trans [OF move_load_sound(2)]
    show ?thesis by blast
  next
    case 3
    with "1.prems" have "s' = (load s)\<lparr>jp_found := True\<rparr>" "ok"
      by (subst (asm) skip_spaces.simps, simp add: Let_def)+
    with 3 load_sound [of s] show ?thesis
      by (simp add: sound_def same_memory_def ahead_chars_def)
  qed
qed

lemma next_or_close_sound:
  assumes "next_or_close c s = (r, s')"
  shows "sound (r \<noteq> Some False) s s'" "same_memory s s'" "r = None \<Longrightarrow> ahead_chars s' < ahead_chars s"
proof -
  obtain b1 s1 where a: "skip_spaces s = (b1, s1)" by (cases "skip_spaces s")
  obtain b2 s2 where b: "eat c s1 = (b2, s2)" by (cases "eat c s1")
  obtain b3 s3 where d: "eat (CHR '','') s2 = (b3, s3)" by (cases "eat (CHR '','') s2")
  note A = skip_spaces_sound [OF a] and B = eat_sound [OF b] and D = eat_sound [OF d]
  have "sound (r \<noteq> Some False) s s' \<and> same_memory s s' \<and> (r = None \<longrightarrow> ahead_chars s' < ahead_chars s)"
  proof (cases b1)
    case False
    then show ?thesis using A a assms by (auto simp: next_or_close_def)
  next
    case b1: True
    then have 1: "sound True s s1" "same_memory s s1" using A by auto
    have 2: "sound True s s2" "same_memory s s2"
      using sound_trans [OF 1(1) B(1)] same_memory_trans [OF 1(2) B(2)] by auto
    have 3: "sound True s s3" "same_memory s s3"
      using sound_trans [OF 2(1) D(1)] same_memory_trans [OF 2(2) D(2)] by auto
    have "b3 \<Longrightarrow> ahead_chars s3 < ahead_chars s"
      using D(3) 2(1) by (auto simp: sound_def)
    then show ?thesis using a b d b1 2 3 assms sound_fail [OF 3(1), of InvalidInput]
      by (cases b2; cases b3) (auto simp: next_or_close_def)
  qed
  then show "sound (r \<noteq> Some False) s s'" "same_memory s s'" "r = None \<Longrightarrow> ahead_chars s' < ahead_chars s" by auto
qed

section \<open>Strings stay in the free zone\<close>

definition building :: "json_parser \<Rightarrow> bool" where
  "building s \<longleftrightarrow> sc_capacity (jp_storage s) = free_zone (jp_pool s) \<and> copier_ok (jp_storage s) \<and>
     (sc_capacity (jp_storage s) = 0 \<longrightarrow> mp_overflowed (jp_pool s))"

text \<open>A complete string, with room for its terminator.\<close>

definition built :: "json_parser \<Rightarrow> bool" where
  "built s \<longleftrightarrow> length (sc_buf (jp_storage s)) < free_zone (jp_pool s)"

lemma building_same: "same_memory s s' \<Longrightarrow> building s' = building s" "same_memory s s' \<Longrightarrow> built s' = built s"
  by (simp_all add: building_def built_def same_memory_def)

lemma building_fail [simp]: "building (fail e s) = building s"
  by (simp add: building_def fail_def)

lemma start_building:
  "sound True s (parser_start_string s)" "building (parser_start_string s)"
  "mp_right (jp_pool (parser_start_string s)) = mp_right (jp_pool s)"
  by (auto simp: parser_start_string_def start_string_def building_def sound_def ahead_chars_def copier_ok_def
      free_zone_def pool_simps)

lemma append_building:
  "sound True s (parser_append c s)" "building s \<Longrightarrow> building (parser_append c s)"
  "mp_right (jp_pool (parser_append c s)) = mp_right (jp_pool s)"
  by (auto simp: parser_append_def append_char_def building_def sound_def ahead_chars_def copier_ok_def
      free_zone_def pool_simps split: if_splits)

text \<open>Building steps are sound and keep the slots.\<close>

definition builds :: "bool \<Rightarrow> json_parser \<Rightarrow> json_parser \<Rightarrow> bool" where
  "builds ok s s' \<longleftrightarrow> sound ok s s' \<and> (building s \<longrightarrow> building s') \<and>
     mp_right (jp_pool s') = mp_right (jp_pool s)"

lemma builds_trans: "builds True s s1 \<Longrightarrow> builds ok s1 s2 \<Longrightarrow> builds ok s s2"
  by (auto simp: builds_def dest: sound_trans)

lemma builds_same: "sound ok s s' \<Longrightarrow> same_memory s s' \<Longrightarrow> builds ok s s'"
  using building_same(1) by (simp add: builds_def same_memory_def building_def)

lemma builds_refl [simp]: "builds True s s"
  by (simp add: builds_same)

lemma builds_fail: "builds True s s1 \<Longrightarrow> e \<noteq> Ok \<Longrightarrow> builds False s (fail e s1)"
  by (auto simp: builds_def fail_def dest: sound_fail) (auto simp: building_def fail_def dest: sound_fail)

lemma builds_load: "builds True s (load s)" "builds True s (move s)"
  by (simp_all add: builds_same)

lemma builds_next: "builds True s s1 \<Longrightarrow> builds True s (load s1)" "builds True s s1 \<Longrightarrow> builds True s (move s1)"
  using builds_trans builds_load by blast+

lemma builds_append: "builds True s s1 \<Longrightarrow> builds True s (parser_append c s1)"
  using append_building by (auto simp: builds_def intro: sound_trans)

lemma builds_appends: "builds True s s1 \<Longrightarrow> builds True s (fold parser_append cs s1)"
  by (induction cs arbitrary: s1) (auto intro: builds_append)

lemma hex_builds: "hex_loop i r s = (ok, r', s') \<Longrightarrow> builds ok s s'"
proof (induction i r s arbitrary: r' s' rule: hex_loop.induct)
  case (2 i r s)
  let ?d = "jp_current (load s)"
  consider "?d = NUL" | "?d \<noteq> NUL" "decode_hex ?d > 0x0F" | "?d \<noteq> NUL" "\<not> decode_hex ?d > 0x0F" by blast
  then show ?case
  proof cases
    case 3
    then have "hex_loop i (push_bit 4 r OR ucast (decode_hex ?d)) (move (load s)) = (ok, r', s')"
      using 2(2) by (simp add: Let_def)
    from 2(1) [OF refl refl _ _ this] 3 show ?thesis
      using builds_trans [OF builds_next(2) [OF builds_load(1)]] by auto
  qed (use 2 builds_fail [OF builds_load(1) [of s]] in \<open>auto simp: Let_def\<close>)
qed simp

text \<open>A round of the loop ends it, or builds something and goes on with less input ahead.\<close>

lemma quoted_escape:
  assumes "quoted_loop stop cp s = (ok, s')" and c: "jp_current (load s) \<noteq> stop" "jp_current (load s) = BACKSLASH"
  shows "builds ok s s' \<or> (\<exists>cp' t. quoted_loop stop cp' t = (ok, s') \<and> builds True s t \<and> ahead t < ahead s)"
proof -
  let ?s = "load (move (load s))"
  let ?d = "jp_current ?s"
  have s: "builds True s ?s" "builds True s (move ?s)" by (intro builds_next builds_load)+
  have less: "ahead (move ?s) < ahead s" using c(2) by (simp add: ahead_next2)
  consider (nul) "?d = NUL" | (hex) "?d = CHR ''u''" | (bad) "?d \<noteq> NUL" "?d \<noteq> CHR ''u''" "unescapeChar ?d = NUL"
    | (esc) "?d \<noteq> NUL" "?d \<noteq> CHR ''u''" "unescapeChar ?d \<noteq> NUL" by blast
  then show ?thesis
  proof cases
    case hex
    obtain b u s3 where h: "parse_hex4 (move ?s) = (b, u, s3)" by (cases "parse_hex4 (move ?s)") auto
    then have b: "builds b s s3" using hex_builds builds_trans [OF s(2)] unfolding parse_hex4_def by blast
    show ?thesis
    proof (cases b)
      case True
      obtain e cp' where cp: "codepoint_append u cp = (e, cp')" by (cases "codepoint_append u cp")
      let ?t = "if e then fold parser_append (encode_codepoint (snd cp')) s3 else s3"
      have "quoted_loop stop cp' ?t = (ok, s')"
        using assms hex h cp True by (subst (asm) quoted_loop.simps) (simp add: Let_def)
      moreover have "builds True s ?t" using b True builds_appends by auto
      moreover have "ahead ?t < ahead s" using less h True by (auto simp: parse_hex4_def dest: ahead_hex_loop)
      ultimately show ?thesis by blast
    qed (use assms hex h b in \<open>subst (asm) quoted_loop.simps, simp add: Let_def\<close>)
  next
    case esc
    then have "quoted_loop stop cp (parser_append (unescapeChar ?d) (move ?s)) = (ok, s')"
      using assms by (subst (asm) quoted_loop.simps) (simp add: Let_def)
    with less builds_append [OF s(2)] show ?thesis by fastforce
  qed (use assms(1) [unfolded quoted_loop.simps [of stop cp s]] c builds_fail [OF s(1)] in \<open>auto simp: Let_def\<close>)
qed

lemma quoted_builds: "quoted_loop stop cp s = (ok, s') \<Longrightarrow> builds ok s s'"
proof (induction "ahead s" arbitrary: cp s rule: less_induct)
  case less
  let ?c = "jp_current (load s)"
  have s: "builds True s (move (load s))" by (intro builds_next builds_load)
  consider (ends) "?c = stop \<or> ?c = NUL" | (plain) "?c \<noteq> stop" "?c \<noteq> NUL" "?c \<noteq> BACKSLASH"
    | (escape) "?c \<noteq> stop" "?c = BACKSLASH" by blast
  then show ?case
  proof cases
    case ends
    then show ?thesis using less.prems s builds_fail [OF s, of IncompleteInput]
      by (subst (asm) quoted_loop.simps) (auto simp: Let_def split: if_splits)
  next
    case plain
    then have "quoted_loop stop cp (parser_append ?c (move (load s))) = (ok, s')"
      using less.prems by (subst (asm) quoted_loop.simps) (simp add: Let_def)
    from less.hyps [OF _ this] plain(2) show ?thesis
      by (auto simp: ahead_next intro: builds_trans [OF builds_append [OF s]])
  next
    case escape
    from quoted_escape [OF less.prems this] less.hyps show ?thesis using builds_trans by blast
  qed
qed

lemma check_valid_builds:
  assumes "check_valid s = (ok, s')"
  shows "builds ok s s'" "ok \<Longrightarrow> building s \<Longrightarrow> built s'"
proof -
  show "builds ok s s'" using assms builds_fail [OF builds_refl [of s], of NoMemory]
    by (auto simp: check_valid_def split: if_splits)
  show "ok \<Longrightarrow> building s \<Longrightarrow> built s'" using assms
    by (auto simp: check_valid_def is_valid_def building_def built_def copier_ok_def split: if_splits)
qed

lemma parse_quoted_string_builds:
  assumes "parse_quoted_string s = (ok, s')"
  shows "builds ok s s'" "ok \<Longrightarrow> building s \<Longrightarrow> built s'"
proof -
  let ?s = "move (load s)"
  obtain b s1 where q: "quoted_loop (jp_current (load s)) (0, 0) ?s = (b, s1)"
    by (cases "quoted_loop (jp_current (load s)) (0, 0) ?s")
  have b: "builds b s s1"
    by (rule builds_trans [OF builds_next(2) [OF builds_load(1)] quoted_builds [OF q]])
  have "builds ok s s' \<and> (ok \<longrightarrow> building s \<longrightarrow> built s')"
  proof (cases b)
    case False
    then show ?thesis using assms q b by (simp add: parse_quoted_string_def Let_def)
  next
    case True
    then have v: "check_valid s1 = (ok, s')" using assms q by (simp add: parse_quoted_string_def Let_def)
    have "builds True s s1" using b True by simp
    from builds_trans [OF this check_valid_builds(1) [OF v]] check_valid_builds(2) [OF v] this
    show ?thesis by (auto simp: builds_def)
  qed
  then show "builds ok s s'" "ok \<Longrightarrow> building s \<Longrightarrow> built s'" by auto
qed

lemma non_quoted_loop_builds: "builds True s (non_quoted_loop s)"
proof (induction s rule: non_quoted_loop.induct)
  case (1 s)
  show ?case
  proof (cases "can_be_in_non_quoted (jp_current (load s))")
    case True
    have "builds True s (parser_append (jp_current (load s)) (move (load s)))"
      by (intro builds_append builds_next builds_load)
    from builds_trans [OF this "1.IH" [OF refl refl True]] True show ?thesis
      by (subst non_quoted_loop.simps) (simp add: Let_def)
  next
    case False
    then show ?thesis by (subst non_quoted_loop.simps) (simp add: Let_def builds_load)
  qed
qed

lemma parse_key_builds:
  assumes "parse_key s = (ok, s')"
  shows "sound ok s s'" "mp_right (jp_pool s') = mp_right (jp_pool s)" "ok \<Longrightarrow> built s'"
proof -
  let ?init = "parser_start_string s" let ?s = "load ?init"
  have b: "builds True ?init ?s" by (rule builds_load)
  then have bs: "building ?s" using start_building(2) by (auto simp: builds_def)
  have "builds ok ?s s' \<and> (ok \<longrightarrow> built s')"
  proof (cases "is_quote (jp_current ?s)")
    case True
    then have "parse_quoted_string ?s = (ok, s')" using assms by (simp add: parse_key_def Let_def)
    from parse_quoted_string_builds [OF this] bs show ?thesis by blast
  next
    case False
    show ?thesis
    proof (cases "can_be_in_non_quoted (jp_current (load ?s))")
      case True
      then have v: "check_valid (non_quoted_loop ?s) = (ok, s')"
        using assms False by (simp add: parse_key_def parse_non_quoted_string_def Let_def)
      have n: "builds True ?s (non_quoted_loop ?s)" by (rule non_quoted_loop_builds)
      from builds_trans [OF n check_valid_builds(1) [OF v]] check_valid_builds(2) [OF v] n bs
      show ?thesis by (auto simp: builds_def)
    next
      case False2: False
      then have "ok = False" "s' = fail InvalidInput (load ?s)"
        using assms False by (simp_all add: parse_key_def parse_non_quoted_string_def Let_def)
      then show ?thesis using builds_fail [OF builds_load(1) [of ?s], of InvalidInput] by simp
    qed
  qed
  moreover have "sound True s ?s" by (rule sound_trans [OF start_building(1) load_sound(1)])
  ultimately show "sound ok s s'" "mp_right (jp_pool s') = mp_right (jp_pool s)" "ok \<Longrightarrow> built s'"
    using sound_trans start_building(3) [of s] by (auto simp: builds_def)
qed

lemma parser_save_sound:
  assumes "parser_save s = (str, s')" "built s"
  shows "sound True s s'" "mp_right (jp_pool s') = mp_right (jp_pool s)"
    "str = (Copied, sc_buf (jp_storage s))" "jp_storage s' = jp_storage s"
proof -
  obtain off p where p: "save_string_from_free_zone (sc_buf (jp_storage s)) (jp_pool s) = (off, p)"
    by (cases "save_string_from_free_zone (sc_buf (jp_storage s)) (jp_pool s)")
  have s': "s' = s\<lparr>jp_pool := p\<rparr>" and str: "str = (Copied, sc_buf (jp_storage s))"
    using assms(1) p by (auto simp: parser_save_def save_def)
  have "pool_extends (jp_pool s) p" "mp_right p = mp_right (jp_pool s)"
    using p by (auto simp: save_string_from_free_zone_def pool_extends_def split: option.splits)
  moreover have "pool_ok (jp_pool s) \<Longrightarrow> pool_ok p"
    using save_from_zone_ok [OF p] assms(2) by (simp add: built_def)
  ultimately show "sound True s s'" "mp_right (jp_pool s') = mp_right (jp_pool s)"
    "str = (Copied, sc_buf (jp_storage s))" "jp_storage s' = jp_storage s"
    using s' str by (simp_all add: sound_def ahead_chars_def)
qed

section \<open>Values\<close>

text \<open>What the handler of a value does: the value it leaves, in the pool it leaves.\<close>

definition value_step :: "nat \<Rightarrow> bool \<Rightarrow> variant \<Rightarrow> json_parser \<Rightarrow> variant \<Rightarrow> json_parser \<Rightarrow> bool" where
  "value_step limit ok v s v' s' \<longleftrightarrow> sound ok s s' \<and> variant_ok v' \<and>
     SLOT_SIZE * slots v' + mp_right (jp_pool s) \<le> SLOT_SIZE * slots v + mp_right (jp_pool s') \<and>
     nesting v' \<le> max limit (nesting v)"

lemma value_step_same: "sound ok s s' \<Longrightarrow> variant_ok v \<Longrightarrow> value_step limit ok v s v s'"
  by (simp add: value_step_def sound_def pool_extends_def)

lemma value_step_leaf:
  "sound ok s s' \<Longrightarrow> slots w = 0 \<Longrightarrow> nesting w = 0 \<Longrightarrow> variant_ok w \<Longrightarrow> value_step limit ok v s w s'"
  by (auto simp: value_step_def sound_def pool_extends_def)

lemma value_step_before: "sound True s0 s \<Longrightarrow> value_step limit ok v s v' s' \<Longrightarrow> value_step limit ok v s0 v' s'"
  by (auto simp: value_step_def dest: sound_trans) (simp add: sound_def pool_extends_def)

lemma set_string_leaf [simp]:
  "slots (set_string str) = 0" "nesting (set_string str) = 0" "variant_ok (set_string str)"
  by (auto simp: set_string_def split: prod.splits storage.splits)

lemma parse_string_value_step:
  assumes "parse_string_value v s = (ok, v', s')" "variant_ok v"
  shows "value_step limit ok v s v' s'"
proof -
  obtain b s1 where q: "parse_quoted_string (parser_start_string s) = (b, s1)"
    by (cases "parse_quoted_string (parser_start_string s)")
  note B = parse_quoted_string_builds [OF q]
  have 1: "sound b s s1" using B(1) start_building(1) by (auto simp: builds_def intro: sound_trans)
  show ?thesis
  proof (cases b)
    case False
    then show ?thesis using assms q 1 by (auto simp: parse_string_value_def intro: value_step_same)
  next
    case True
    obtain str s2 where sv: "parser_save s1 = (str, s2)" by (cases "parser_save s1")
    have "built s1" using B(2) True start_building(2) by blast
    with parser_save_sound(1) [OF sv] 1 True have "sound True s s2" by (auto intro: sound_trans)
    then show ?thesis using assms q True sv
      by (auto simp: parse_string_value_def intro: value_step_leaf)
  qed
qed

lemma skip_string_loop_sound: "skip_string_loop stop s = (ok, s') \<Longrightarrow> sound ok s s'"
proof (induction stop s rule: skip_string_loop.induct)
  case (1 stop s)
  let ?s = "move (load s)" let ?c = "jp_current (load s)"
  let ?t = "if jp_current (load ?s) \<noteq> NUL then move (load ?s) else load ?s"
  have t: "sound True s ?t"
    using sound_trans [OF move_load_sound(1) load_sound(1)] sound_trans [OF move_load_sound(1) move_load_sound(1)] by auto
  consider "?c = stop" | "?c \<noteq> stop" "?c = NUL" | "?c \<noteq> stop" "?c \<noteq> NUL" "?c = BACKSLASH"
    | "?c \<noteq> stop" "?c \<noteq> NUL" "?c \<noteq> BACKSLASH" by blast
  then show ?case
  proof cases
    case 1
    then show ?thesis using "1.prems" move_load_sound(1) [of s] by (subst (asm) skip_string_loop.simps) (auto simp: Let_def)
  next
    case 2
    then show ?thesis using "1.prems" sound_fail [OF move_load_sound(1), of IncompleteInput s]
      by (subst (asm) skip_string_loop.simps) (auto simp: Let_def)
  next
    case 3
    then have "skip_string_loop stop ?t = (ok, s')"
      using "1.prems" by (subst (asm) skip_string_loop.simps) (simp add: Let_def)
    from "1.IH"(1) [OF refl refl refl 3 refl this] show ?thesis by (rule sound_trans [OF t])
  next
    case 4
    then have "skip_string_loop stop ?s = (ok, s')"
      using "1.prems" by (subst (asm) skip_string_loop.simps) (simp add: Let_def)
    from "1.IH"(2) [OF refl refl refl 4 this] show ?thesis by (rule sound_trans [OF move_load_sound(1)])
  qed
qed

lemma skip_string_sound: "skip_string s = (ok, s') \<Longrightarrow> sound ok s s'"
  using skip_string_loop_sound sound_trans [OF move_load_sound(1)]
  by (fastforce simp: skip_string_def Let_def)

lemma skip_numeric_sound: "skip_numeric_value s = (ok, s') \<Longrightarrow> sound ok s s'"
proof (induction s rule: skip_numeric_value.induct)
  case (1 s)
  show ?case
  proof (cases "can_be_in_non_quoted (jp_current (load s))")
    case True
    then have "skip_numeric_value (move (load s)) = (ok, s')"
      using "1.prems" by (subst (asm) skip_numeric_value.simps) (simp add: Let_def)
    from "1.IH" [OF refl True this] show ?thesis by (rule sound_trans [OF move_load_sound(1)])
  next
    case False
    then show ?thesis using "1.prems" by (subst (asm) skip_numeric_value.simps) (auto simp: Let_def)
  qed
qed

lemma numeric_chars_sound: "numeric_chars n s = (b, s') \<Longrightarrow> sound True s s'"
proof (induction n s arbitrary: b s' rule: numeric_chars.induct)
  case (2 n s)
  show ?case
  proof (cases "can_be_in_non_quoted (jp_current (load s))")
    case True
    obtain b1 s1 where r: "numeric_chars n (move (load s)) = (b1, s1)" by (cases "numeric_chars n (move (load s))")
    from 2(1) [OF refl refl True r] sound_trans [OF move_load_sound(1)] 2(2) r True show ?thesis
      by (auto simp: Let_def)
  next
    case False
    then show ?thesis using 2(2) by (auto simp: Let_def)
  qed
qed auto

definition number_leaf :: "variant \<Rightarrow> bool" where
  "number_leaf w \<longleftrightarrow> (\<exists>n. w = VUInt n \<or> w = VInt n \<or> w = VFloat n)"

lemma parse_float_leaf: "parse_float neg s m = Some w \<Longrightarrow> number_leaf w"
  by (auto simp: parse_float_def number_leaf_def Let_def split: prod.splits option.splits if_split_asm)

lemma parse_number_leaf: "parse_number str = Some w \<Longrightarrow> number_leaf w"
  by (auto simp: parse_number_def Let_def split: if_split_asm prod.splits intro: parse_float_leaf)
    (simp_all add: number_leaf_def)

lemma leaf_step: "number_leaf w \<Longrightarrow> sound ok s s' \<Longrightarrow> value_step limit ok v s w s'"
  by (auto simp: number_leaf_def intro: value_step_leaf)

lemma parse_numeric_value_step:
  assumes "parse_numeric_value v s = (ok, v', s')" "variant_ok v"
  shows "value_step limit ok v s v' s'"
proof -
  obtain b s1 where n: "numeric_chars BUFFER_CHARS s = (b, s1)" by (cases "numeric_chars BUFFER_CHARS s")
  have t: "sound True s s1" by (rule numeric_chars_sound [OF n])
  note f = sound_fail [OF t, of IncompleteInput] sound_fail [OF t, of InvalidInput]
  show ?thesis using assms n t f
    by (auto simp: parse_numeric_value_def Let_def intro: value_step_leaf value_step_same leaf_step
        dest!: parse_number_leaf split: if_splits option.splits)
qed

text \<open>Values that are no collection, or are skipped.\<close>

lemma parse_value_kinds:
  assumes "parse_value inner f v s = (ok, v', s')" "skip_spaces s = (True, s1)"
  obtains vs where "parse_array inner f (load s1) = (ok, vs, s')" "v' = VArray vs"
  | ms where "parse_object inner f (load s1) = (ok, ms, s')" "v' = VObject ms"
  | "parse_string_value v (load s1) = (ok, v', s')"
  | "parse_numeric_value v (load s1) = (ok, v', s')"
  | "v' = v" "skip_array (map_option snd inner) (load s1) = (ok, s')"
  | "v' = v" "skip_object (map_option snd inner) (load s1) = (ok, s')"
  | "v' = v" "skip_string (load s1) = (ok, s')"
  | "v' = v" "skip_numeric_value (load s1) = (ok, s')"
  using assms by (simp add: parse_value_def Let_def split: if_splits prod.splits)

lemma parse_value_step:
  assumes "parse_value inner f v s = (ok, v', s')" "variant_ok v"
    and arr_step: "\<And>s ok vs s'. parse_array inner f s = (ok, vs, s') \<Longrightarrow> value_step limit ok VNull s (VArray vs) s'"
    and obj_step: "\<And>s ok ms s'. parse_object inner f s = (ok, ms, s') \<Longrightarrow> value_step limit ok VNull s (VObject ms) s'"
    and skip_arr: "\<And>s ok s'. skip_array (map_option snd inner) s = (ok, s') \<Longrightarrow> sound ok s s'"
    and skip_obj: "\<And>s ok s'. skip_object (map_option snd inner) s = (ok, s') \<Longrightarrow> sound ok s s'"
  shows "value_step limit ok v s v' s'"
proof -
  obtain b1 s1 where a1: "skip_spaces s = (b1, s1)" by (cases "skip_spaces s")
  note A = skip_spaces_sound [OF a1]
  show ?thesis
  proof (cases b1)
    case False
    then show ?thesis using assms a1 A by (auto simp: parse_value_def intro: value_step_same)
  next
    case b1: True
    let ?s = "load s1"
    have "sound True s s1" using A b1 by simp
    then have t: "sound True s ?s" by (rule sound_trans [OF _ load_sound(1)])
    have right: "mp_right (jp_pool ?s) = mp_right (jp_pool s)" using A by (simp add: same_memory_def)
    have skip: "value_step limit ok v s v s'" if "sound ok ?s s'"
      by (rule value_step_same [OF sound_trans [OF t that] assms(2)])
    have "skip_spaces s = (True, s1)" using a1 b1 by simp
    with assms(1) show ?thesis
    proof (cases rule: parse_value_kinds)
      case (1 vs)
      from arr_step [OF 1(1)] sound_trans [OF t] right show ?thesis unfolding 1(2) by (auto simp: value_step_def)
    next
      case (2 ms)
      from obj_step [OF 2(1)] sound_trans [OF t] right show ?thesis unfolding 2(2) by (auto simp: value_step_def)
    next
      case 3
      from value_step_before [OF t parse_string_value_step [OF 3 assms(2)]] show ?thesis .
    next
      case 4
      from value_step_before [OF t parse_numeric_value_step [OF 4 assms(2)]] show ?thesis .
    qed (use skip skip_arr skip_obj skip_string_sound skip_numeric_sound in simp_all)
  qed
qed

lemma skip_value_sound:
  assumes "skip_value inner s = (ok, s')"
    and skip_arr: "\<And>s ok s'. skip_array inner s = (ok, s') \<Longrightarrow> sound ok s s'"
    and skip_obj: "\<And>s ok s'. skip_object inner s = (ok, s') \<Longrightarrow> sound ok s s'"
  shows "sound ok s s'"
proof -
  obtain b1 s1 where a1: "skip_spaces s = (b1, s1)" by (cases "skip_spaces s")
  note A = skip_spaces_sound [OF a1]
  show ?thesis
  proof (cases b1)
    case False
    then show ?thesis using assms(1) a1 A by (auto simp: skip_value_def)
  next
    case True
    have "sound True s s1" using A True by simp
    then have t: "sound True s (load s1)" by (rule sound_trans [OF _ load_sound(1)])
    have "sound ok (load s1) s'"
      using assms(1) a1 True skip_arr skip_obj skip_string_sound skip_numeric_sound
      by (auto simp: skip_value_def Let_def split: if_splits)
    then show ?thesis by (rule sound_trans [OF t])
  qed
qed

section \<open>Arrays and objects\<close>

text \<open>What the handlers of nested values promise to those of arrays and objects.\<close>

locale nested_parser =
  fixes pv :: value_parser and sv :: skipper and limit :: nat
  assumes pv_step: "pv f v s = (ok, v', s') \<Longrightarrow> variant_ok v \<Longrightarrow> value_step limit ok v s v' s'"
    and sv_sound: "sv s = (ok, s') \<Longrightarrow> sound ok s s'"
begin

lemma skip_elements_sound:
  "skip_elements sv fuel s = (ok, s') \<Longrightarrow> ahead_chars s < fuel \<Longrightarrow> sound ok s s'"
proof (induction fuel arbitrary: s)
  case (Suc fuel)
  obtain b1 s1 where a: "sv s = (b1, s1)" by (cases "sv s")
  obtain r s2 where c: "next_or_close (CHR '']'') s1 = (r, s2)" by (cases "next_or_close (CHR '']'') s1")
  note A = sv_sound [OF a] and C = next_or_close_sound [OF c]
  show ?case
  proof (cases "b1 \<and> r = None")
    case True
    then have A1: "sound True s s1" and C1: "sound True s1 s2" using A C(1) by simp_all
    from sound_trans [OF A1 C1] have t: "sound True s s2" .
    have "ahead_chars s2 < fuel" using C(3) True A1 Suc.prems(2) by (simp add: sound_def)
    from Suc.IH [OF _ this] Suc.prems(1) a c True have "sound ok s2 s'" by simp
    then show ?thesis by (rule sound_trans [OF t])
  next
    case False
    then show ?thesis using Suc.prems(1) A C(1) a c sound_trans [of s s1]
      by (cases b1; cases r; cases "the r") auto
  qed
qed simp

lemma skip_members_sound:
  "skip_members sv fuel s = (ok, s') \<Longrightarrow> ahead_chars s < fuel \<Longrightarrow> sound ok s s'"
proof (induction fuel arbitrary: s)
  case (Suc fuel)
  obtain b1 s1 where a1: "sv s = (b1, s1)" by (cases "sv s")
  obtain b2 s2 where a2: "skip_spaces s1 = (b2, s2)" by (cases "skip_spaces s1")
  obtain b3 s3 where a3: "eat (CHR '':'') s2 = (b3, s3)" by (cases "eat (CHR '':'') s2")
  obtain b4 s4 where a4: "sv s3 = (b4, s4)" by (cases "sv s3")
  obtain r s5 where a5: "next_or_close (CHR ''}'') s4 = (r, s5)" by (cases "next_or_close (CHR ''}'') s4")
  note A1 = sv_sound [OF a1]
  have A2: "b1 \<Longrightarrow> sound b2 s s2" using A1 skip_spaces_sound [OF a2] sound_trans by auto
  have A3: "b1 \<Longrightarrow> b2 \<Longrightarrow> sound True s s3" using A2 eat_sound(1) [OF a3] sound_trans by auto
  have A4: "b1 \<Longrightarrow> b2 \<Longrightarrow> sound b4 s s4" using A3 sv_sound [OF a4] sound_trans by auto
  have A5: "b1 \<Longrightarrow> b2 \<Longrightarrow> b4 \<Longrightarrow> sound (r \<noteq> Some False) s s5"
    using A4 next_or_close_sound(1) [OF a5] sound_trans by auto
  show ?case
  proof (cases "b1 \<and> b2 \<and> b3 \<and> b4 \<and> r = None")
    case True
    then have t: "sound True s s5" using A5 by simp
    have "ahead_chars s5 < fuel"
      using next_or_close_sound(3) [OF a5] True A4 Suc.prems(2) by (simp add: sound_def)
    from Suc.IH [OF _ this] Suc.prems(1) a1 a2 a3 a4 a5 True have "sound ok s5 s'" by simp
    then show ?thesis by (rule sound_trans [OF t])
  next
    case False
    then show ?thesis using Suc.prems(1) A1 A2 A4 A5 sound_fail [OF A3, of InvalidInput] a1 a2 a3 a4 a5
      by (cases b1; cases b2; cases b3; cases b4; cases r; cases "the r") auto
  qed
qed simp

lemma ahead_chars_le: "ahead_chars s \<le> ahead s"
  by (simp add: ahead_chars_def ahead_def)

lemma skip_array_sound: "skip_array (Some sv) s = (ok, s') \<Longrightarrow> sound ok s s'"
  using skip_elements_sound [of "Suc (ahead (move (load s)))" "move (load s)" ok s'] ahead_chars_le [of "move (load s)"]
    sound_trans [OF move_load_sound(1)]
  by (auto simp: skip_array_def Let_def simp del: skip_elements.simps)

lemma skip_object_sound:
  assumes "skip_object (Some sv) s = (ok, s')"
  shows "sound ok s s'"
proof -
  obtain b1 s1 where a1: "skip_spaces (move (load s)) = (b1, s1)" by (cases "skip_spaces (move (load s))")
  obtain b2 s2 where a2: "eat (CHR ''}'') s1 = (b2, s2)" by (cases "eat (CHR ''}'') s1")
  have A1: "sound b1 s s1" using skip_spaces_sound [OF a1] sound_trans [OF move_load_sound(1)] by blast
  have A2: "b1 \<Longrightarrow> sound True s s2" using A1 eat_sound(1) [OF a2] sound_trans by auto
  have "skip_members sv (Suc (ahead s2)) s2 = (ok, s') \<Longrightarrow> sound ok s2 s'"
    using skip_members_sound ahead_chars_le [of s2] le_imp_less_Suc by blast
  then show ?thesis using assms a1 a2 A1 A2 sound_trans
    by (cases b1; cases b2) (auto simp: skip_object_def simp del: skip_members.simps)
qed

text \<open>The slots of a growing array, and the deepest of its elements.\<close>

definition elements_step :: "bool \<Rightarrow> variant list \<Rightarrow> json_parser \<Rightarrow> variant list \<Rightarrow> json_parser \<Rightarrow> bool" where
  "elements_step ok vs s vs' s' \<longleftrightarrow> sound ok s s' \<and> elements_ok vs' \<and>
     SLOT_SIZE * elements_slots vs' + mp_right (jp_pool s) \<le> SLOT_SIZE * elements_slots vs + mp_right (jp_pool s') \<and>
     elements_nesting vs' \<le> max limit (elements_nesting vs)"

lemma elements_step_trans:
  "elements_step True vs s vs1 s1 \<Longrightarrow> elements_step ok vs1 s1 vs2 s2 \<Longrightarrow> elements_step ok vs s vs2 s2"
  by (auto simp: elements_step_def dest: sound_trans)

lemma elements_step_same: "sound ok s s' \<Longrightarrow> elements_ok vs \<Longrightarrow> elements_step ok vs s vs s'"
  by (simp add: elements_step_def sound_def pool_extends_def)

lemma elements_nesting_append [simp]:
  "elements_nesting (vs @ ws) = max (elements_nesting vs) (elements_nesting ws)"
  by (induction vs) auto

lemma elements_append [simp]:
  "elements_ok (vs @ ws) \<longleftrightarrow> elements_ok vs \<and> elements_ok ws"
  "elements_slots (vs @ ws) = elements_slots vs + elements_slots ws"
  by (auto simp: elements_ok_all elements_slots_sum)

lemma sound_pool:
  "pool_extends (jp_pool s) p \<Longrightarrow> (pool_ok (jp_pool s) \<Longrightarrow> pool_ok p) \<Longrightarrow> sound True s (s\<lparr>jp_pool := p\<rparr>)"
  by (simp add: sound_def ahead_chars_def)

lemma alloc_variant_sound:
  "alloc_variant (jp_pool s) = (b, p) \<Longrightarrow> sound True s (s\<lparr>jp_pool := p\<rparr>)"
  using alloc_variant_spec by (auto simp: alloc_spec_def intro: sound_pool)

text \<open>A round of the loop of \<open>parseArray\<close>, up to the separator.\<close>

definition element_round ::
    "json_filter \<Rightarrow> variant list \<Rightarrow> json_parser \<Rightarrow> bool \<times> variant list \<times> json_parser" where
  "element_round f vs s =
     (if filter_allow f
      then (case add_element vs (jp_pool s) of
              (None, vs, p) \<Rightarrow> (False, vs, fail NoMemory (s\<lparr>jp_pool := p\<rparr>))
            | (Some i, vs, p) \<Rightarrow>
                (let (ok, v, s) = pv f (vs ! i) (s\<lparr>jp_pool := p\<rparr>) in (ok, vs[i := v], s)))
      else (let (ok, s) = sv s in (ok, vs, s)))"

lemma element_round_step:
  assumes "element_round f vs s = (ok, vs', s')" "elements_ok vs"
  shows "elements_step ok vs s vs' s'"
proof (cases "filter_allow f")
  case False
  then show ?thesis using assms sv_sound
    by (auto simp: element_round_def intro: elements_step_same split: prod.splits)
next
  case True
  obtain b p where a: "alloc_variant (jp_pool s) = (b, p)" by (cases "alloc_variant (jp_pool s)")
  note A = alloc_variant_sound [OF a] alloc_variant_slots [OF a]
  show ?thesis
  proof (cases b)
    case False
    then show ?thesis using assms True a sound_fail [OF A(1), of NoMemory]
      by (auto simp: element_round_def add_element_def intro: elements_step_same)
  next
    case b: True
    obtain ok1 v s1 where v: "pv f VNull (s\<lparr>jp_pool := p\<rparr>) = (ok1, v, s1)" by (cases "pv f VNull (s\<lparr>jp_pool := p\<rparr>)") auto
    have r: "ok = ok1" "vs' = vs @ [v]" "s' = s1"
      using assms(1) True a b v by (auto simp: element_round_def add_element_def)
    from pv_step [OF v] have st: "value_step limit ok1 VNull (s\<lparr>jp_pool := p\<rparr>) v s1" by simp
    then have "sound ok1 s s1" using sound_trans [OF A(1)] by (simp add: value_step_def)
    then show ?thesis using st A(2) b assms(2) unfolding r
      by (auto simp: elements_step_def value_step_def distrib_left)
  qed
qed

lemma parse_elements_step:
  "parse_elements pv sv f fuel vs s = (ok, vs', s') \<Longrightarrow> ahead_chars s < fuel \<Longrightarrow> elements_ok vs \<Longrightarrow>
     elements_step ok vs s vs' s'"
proof (induction fuel arbitrary: vs s)
  case (Suc fuel)
  obtain b1 vs1 s1 where a: "element_round f vs s = (b1, vs1, s1)" by (cases "element_round f vs s") auto
  obtain r s2 where c: "next_or_close (CHR '']'') s1 = (r, s2)" by (cases "next_or_close (CHR '']'') s1")
  have eq: "parse_elements pv sv f (Suc fuel) vs s =
      (if \<not> b1 then (False, vs1, s1)
       else case r of Some ok \<Rightarrow> (ok, vs1, s2) | None \<Rightarrow> parse_elements pv sv f fuel vs1 s2)"
    using a c by (simp add: element_round_def [symmetric])
  note A = element_round_step [OF a Suc.prems(3)] and C = next_or_close_sound [OF c]
  have ok1: "elements_ok vs1" using A by (simp add: elements_step_def)
  have C2: "elements_step (r \<noteq> Some False) vs1 s1 vs1 s2" by (rule elements_step_same [OF C(1) ok1])
  show ?case
  proof (cases "b1 \<and> r = None")
    case True
    then have t: "elements_step True vs s vs1 s2" using elements_step_trans A C2 by auto
    have "ahead_chars s2 < fuel" using C(3) A True Suc.prems(2) by (simp add: elements_step_def sound_def)
    from Suc.IH [OF _ this ok1] Suc.prems(1) eq True have "elements_step ok vs1 s2 vs' s'" by simp
    then show ?thesis by (rule elements_step_trans [OF t])
  next
    case False
    then show ?thesis using Suc.prems(1) eq A C2 elements_step_trans [of vs s vs1 s1]
      by (cases b1; cases r; cases "the r") auto
  qed
qed (simp)

lemma parse_array_step:
  assumes "parse_array (Some (pv, sv)) f s = (ok, vs, s')"
  shows "elements_step ok [] s vs s'"
proof -
  obtain b1 s1 where a1: "skip_spaces (move (load s)) = (b1, s1)" by (cases "skip_spaces (move (load s))")
  obtain b2 s2 where a2: "eat (CHR '']'') s1 = (b2, s2)" by (cases "eat (CHR '']'') s1")
  have A1: "sound b1 s s1" using skip_spaces_sound [OF a1] sound_trans [OF move_load_sound(1)] by blast
  have A2: "b1 \<Longrightarrow> sound True s s2" using A1 eat_sound(1) [OF a2] sound_trans by auto
  have eq: "(ok, vs, s') =
      (if \<not> b1 then (False, [], s1) else if b2 then (True, [], s2)
       else parse_elements pv sv (filter_element f) (Suc (ahead s2)) [] s2)"
    using assms a1 a2 by (simp add: parse_array_def del: parse_elements.simps split: bool.splits)
  consider "\<not> b1" | "b1" "b2" | "b1" "\<not> b2" by blast
  then show ?thesis
  proof cases
    case 1
    then show ?thesis using eq A1 by (simp add: elements_step_same)
  next
    case 2
    then show ?thesis using eq A2 by (simp add: elements_step_same)
  next
    case 3
    then have p: "parse_elements pv sv (filter_element f) (Suc (ahead s2)) [] s2 = (ok, vs, s')" using eq by simp
    have "ahead_chars s2 < Suc (ahead s2)" using ahead_chars_le [of s2] by simp
    from parse_elements_step [OF p this] have "elements_step ok [] s2 vs s'" by simp
    moreover have "elements_step True [] s [] s2" using A2 3 by (intro elements_step_same) simp_all
    ultimately show ?thesis using elements_step_trans by blast
  qed
qed

text \<open>The members of a growing object.\<close>

definition members_step :: "bool \<Rightarrow> slot list \<Rightarrow> json_parser \<Rightarrow> slot list \<Rightarrow> json_parser \<Rightarrow> bool" where
  "members_step ok ms s ms' s' \<longleftrightarrow> sound ok s s' \<and> variant_ok (VObject ms') \<and>
     SLOT_SIZE * members_slots ms' + mp_right (jp_pool s) \<le> SLOT_SIZE * members_slots ms + mp_right (jp_pool s') \<and>
     members_nesting ms' \<le> max limit (members_nesting ms)"

lemma members_step_trans:
  "members_step True ms s ms1 s1 \<Longrightarrow> members_step ok ms1 s1 ms2 s2 \<Longrightarrow> members_step ok ms s ms2 s2"
  by (auto simp: members_step_def dest: sound_trans)

lemma members_step_same: "sound ok s s' \<Longrightarrow> variant_ok (VObject ms) \<Longrightarrow> members_step ok ms s ms s'"
  by (simp add: members_step_def sound_def pool_extends_def)

lemma members_nesting_le: "members_nesting ms \<le> n \<longleftrightarrow> (\<forall>s\<in>set ms. nesting (slot_data s) \<le> n)"
  by (induction ms) auto

lemma members_nesting_all: "s \<in> set ms \<Longrightarrow> nesting (slot_data s) \<le> members_nesting ms"
  using members_nesting_le by blast

lemma parse_known_member:
  assumes "parse_member pv f ms s = (ok, ms', s')" "variant_ok (VObject ms)"
    and Some: "get_slot (c_str (sc_buf (jp_storage s))) ms = Some i"
  shows "members_step ok ms s ms' s'"
proof -
  note i = get_slot_Some [OF Some, THEN conjunct1]
  obtain ok1 v s1 where v: "pv f (slot_data (ms ! i)) s = (ok1, v, s1)" by (cases "pv f (slot_data (ms ! i)) s") auto
  have r: "ok = ok1" "ms' = ms[i := (fst (ms ! i), v)]" "s' = s1"
    using assms(1) Some v by (auto simp: parse_member_def)
  have okm: "variant_ok (slot_data (ms ! i))" using assms(2) i by (auto simp: members_ok_all)
  note st = pv_step [OF v okm, unfolded value_step_def]
  note u = object_update_ok [OF assms(2) i, of v]
  have m: "SLOT_SIZE * slots (VObject ms') + SLOT_SIZE * slots (slot_data (ms ! i)) =
      SLOT_SIZE * slots (VObject ms) + SLOT_SIZE * slots v"
    using u(2) st unfolding r by (metis distrib_left)
  have all: "\<forall>s\<in>set ms. nesting (slot_data s) \<le> members_nesting ms"
    using members_nesting_le by blast
  have "nesting v \<le> max limit (members_nesting ms)" using st all [THEN bspec, OF nth_mem [OF i]] by (auto simp: le_max_iff_disj)
  then have "members_nesting ms' \<le> max limit (members_nesting ms)"
    using all unfolding members_nesting_le r
    by (auto simp: le_max_iff_disj dest!: set_update_subset_insert [THEN subsetD])
  then show ?thesis using st u(1) m unfolding members_step_def r by auto
qed

lemma parse_new_member:
  assumes "parse_member pv f ms s = (ok, ms', s')" "variant_ok (VObject ms)" "built s"
    and None: "get_slot (c_str (sc_buf (jp_storage s))) ms = None"
  shows "members_step ok ms s ms' s'"
proof -
  obtain key s1 where sv1: "parser_save s = (key, s1)" by (cases "parser_save s")
  note S = parser_save_sound [OF sv1 assms(3)]
  obtain b p where a: "alloc_variant (jp_pool s1) = (b, p)" by (cases "alloc_variant (jp_pool s1)")
  note A = alloc_variant_sound [OF a] alloc_variant_slots [OF a]
  note t = sound_trans [OF S(1) A(1)]
  show ?thesis
  proof (cases b)
    case False
    then have "ok = False" "ms' = ms" "s' = fail NoMemory (s1\<lparr>jp_pool := p\<rparr>)"
      using assms(1) None sv1 a by (auto simp: parse_member_def)
    then show ?thesis using members_step_same [OF sound_fail [OF t, of NoMemory] assms(2)] by simp
  next
    case b: True
    obtain ok1 v s2 where v: "pv f VNull (s1\<lparr>jp_pool := p\<rparr>) = (ok1, v, s2)" by (cases "pv f VNull (s1\<lparr>jp_pool := p\<rparr>)") auto
    have r: "ok = ok1" "ms' = ms @ [(set_key key, v)]" "s' = s2"
      using assms(1) None sv1 a b v by (auto simp: parse_member_def)
    from pv_step [OF v] have st: "value_step limit ok1 VNull (s1\<lparr>jp_pool := p\<rparr>) v s2" by simp
    have k: "snd (set_key key) = c_str (sc_buf (jp_storage s))" using S(3) by (simp add: set_key_def)
    have "sound ok1 s s2" using st sound_trans [OF t] by (simp add: value_step_def)
    moreover have "variant_ok (VObject ms')"
      using assms(2) st None unfolding r get_slot_None
      by (auto simp: members_ok_all k value_step_def)
    moreover have "members_nesting ms' \<le> max limit (members_nesting ms)"
      using st members_nesting_all [of _ ms] unfolding members_nesting_le r
      by (auto simp: value_step_def le_max_iff_disj)
    ultimately show ?thesis using st A(2) b S(2) unfolding r
      by (auto simp: members_step_def value_step_def members_slots_sum distrib_left)
  qed
qed

lemma parse_member_step:
  assumes "parse_member pv f ms s = (ok, ms', s')" "variant_ok (VObject ms)" "built s"
  shows "members_step ok ms s ms' s'"
  using parse_known_member [OF assms(1,2)] parse_new_member [OF assms]
  by (cases "get_slot (c_str (sc_buf (jp_storage s))) ms") simp_all

lemma member_head:
  assumes "parse_key s = (True, s1)" "skip_spaces s1 = (b2, s2)" "eat c s2 = (b3, s3)"
  shows "sound b2 s s2" "b2 \<Longrightarrow> sound True s s3" "b2 \<Longrightarrow> built s3"
proof -
  note K = parse_key_builds [OF assms(1)] and S = skip_spaces_sound [OF assms(2)] and E = eat_sound [OF assms(3)]
  show "sound b2 s s2" using K(1) S sound_trans by auto
  then show "b2 \<Longrightarrow> sound True s s3" using E(1) sound_trans by auto
  show "b2 \<Longrightarrow> built s3" using K(3) S E(2) building_same(2) same_memory_trans by blast
qed

lemma member_round:
  assumes "(if filter_allow mf then parse_member pv mf ms s else (let (ok, s) = sv s in (ok, ms, s))) = (b, ms1, s1)"
    and "variant_ok (VObject ms)" "built s"
  shows "members_step b ms s ms1 s1"
proof (cases "filter_allow mf")
  case True
  then show ?thesis using assms parse_member_step by simp
next
  case False
  then show ?thesis using assms sv_sound by (auto intro: members_step_same split: prod.splits)
qed

lemma parse_members_step:
  "parse_members pv sv f fuel ms s = (ok, ms', s') \<Longrightarrow> ahead_chars s < fuel \<Longrightarrow> variant_ok (VObject ms) \<Longrightarrow>
     members_step ok ms s ms' s'"
proof (induction fuel arbitrary: ms s)
  case (Suc fuel)
  obtain b1 s1 where a1: "parse_key s = (b1, s1)" by (cases "parse_key s")
  obtain b2 s2 where a2: "skip_spaces s1 = (b2, s2)" by (cases "skip_spaces s1")
  obtain b3 s3 where a3: "eat (CHR '':'') s2 = (b3, s3)" by (cases "eat (CHR '':'') s2")
  define mf where "mf = filter_member (c_str (sc_buf (jp_storage s3))) f"
  define round where "round = (if filter_allow mf then parse_member pv mf ms s3 else (let (ok, s) = sv s3 in (ok, ms, s)))"
  obtain b4 ms1 s4 where a4: "round = (b4, ms1, s4)" by (cases round) auto
  obtain r s5 where a5: "next_or_close (CHR ''}'') s4 = (r, s5)" by (cases "next_or_close (CHR ''}'') s4")
  obtain b6 s6 where a6: "skip_spaces s5 = (b6, s6)" by (cases "skip_spaces s5")
  have eq: "parse_members pv sv f (Suc fuel) ms s =
     (if \<not> b1 then (False, ms, s1) else if \<not> b2 then (False, ms, s2)
      else if \<not> b3 then (False, ms, fail InvalidInput s3)
      else if \<not> b4 then (False, ms1, s4)
      else case r of Some ok \<Rightarrow> (ok, ms1, s5)
           | None \<Rightarrow> if \<not> b6 then (False, ms1, s6) else parse_members pv sv f fuel ms1 s6)"
    using a1 a2 a3 a4 a5 a6 by (simp add: mf_def [symmetric] round_def [symmetric] split: bool.splits option.splits)
  have K: "sound b1 s s1" using parse_key_builds(1) [OF a1] .
  have H: "b1 \<Longrightarrow> sound b2 s s2" "b1 \<Longrightarrow> b2 \<Longrightarrow> sound True s s3" "b1 \<Longrightarrow> b2 \<Longrightarrow> built s3"
    using member_head [OF _ a2 a3] a1 by auto
  have A4: "members_step b4 ms s ms1 s4" if b: b1 b2
    using members_step_trans [OF members_step_same [OF H(2) [OF b] Suc.prems(3)]
        member_round [OF a4 [unfolded round_def] Suc.prems(3) H(3) [OF b]]] .
  have ok1: "b1 \<Longrightarrow> b2 \<Longrightarrow> variant_ok (VObject ms1)" using A4 by (simp add: members_step_def)
  have A5: "b1 \<Longrightarrow> b2 \<Longrightarrow> b4 \<Longrightarrow> members_step (r \<noteq> Some False) ms s ms1 s5"
    using A4 members_step_trans members_step_same [OF next_or_close_sound(1) [OF a5] ok1] by auto
  have A6: "b1 \<Longrightarrow> b2 \<Longrightarrow> b4 \<Longrightarrow> r = None \<Longrightarrow> members_step b6 ms s ms1 s6"
    using A5 members_step_trans members_step_same [OF _ ok1, of b6 s5 s6] skip_spaces_sound [OF a6] by auto
  have go: "members_step ok ms s ms' s'"
    if "b1" "b2" "b4" "r = None" "b6" and m: "parse_members pv sv f fuel ms1 s6 = (ok, ms', s')"
  proof (rule members_step_trans)
    show t: "members_step True ms s ms1 s6" using A6 that by simp
    have "ahead_chars s6 \<le> ahead_chars s5" using skip_spaces_sound [OF a6] by (simp add: sound_def)
    also have "\<dots> < ahead_chars s4" using next_or_close_sound(3) [OF a5] that by simp
    also have "\<dots> \<le> ahead_chars s" using A4 that by (simp add: members_step_def sound_def)
    finally show "members_step ok ms1 s6 ms' s'" using Suc.IH [OF m _ ok1] Suc.prems(2) that by simp
  qed
  have F: "b1 \<Longrightarrow> b2 \<Longrightarrow> members_step False ms s ms (fail InvalidInput s3)"
    using members_step_same [OF sound_fail [OF H(2), of InvalidInput]] Suc.prems(3) by simp
  have "b1 \<or> members_step False ms s ms s1" "b1 \<longrightarrow> b2 \<or> members_step False ms s ms s2"
    using K H(1) members_step_same [OF _ Suc.prems(3)] by (cases b1; cases b2; simp)+
  then show ?case using Suc.prems(1) F A4 A5 A6 go unfolding eq
    by (cases b1; cases b2; cases b3; cases b4; cases b6; cases r) auto
qed simp

lemma parse_object_step:
  assumes "parse_object (Some (pv, sv)) f s = (ok, ms, s')"
  shows "members_step ok [] s ms s'"
proof -
  obtain b1 s1 where a1: "skip_spaces (move (load s)) = (b1, s1)" by (cases "skip_spaces (move (load s))")
  obtain b2 s2 where a2: "eat (CHR ''}'') s1 = (b2, s2)" by (cases "eat (CHR ''}'') s1")
  have A1: "sound b1 s s1" using skip_spaces_sound [OF a1] sound_trans [OF move_load_sound(1)] by blast
  have A2: "b1 \<Longrightarrow> sound True s s2" using A1 eat_sound(1) [OF a2] sound_trans by auto
  have eq: "(ok, ms, s') =
      (if \<not> b1 then (False, [], s1) else if b2 then (True, [], s2)
       else parse_members pv sv f (Suc (ahead s2)) [] s2)"
    using assms a1 a2 by (simp add: parse_object_def del: parse_members.simps split: bool.splits)
  consider "\<not> b1" | "b1" "b2" | "b1" "\<not> b2" by blast
  then show ?thesis
  proof cases
    case 1
    then show ?thesis using eq A1 by (simp add: members_step_same)
  next
    case 2
    then show ?thesis using eq A2 by (simp add: members_step_same)
  next
    case 3
    then have p: "parse_members pv sv f (Suc (ahead s2)) [] s2 = (ok, ms, s')" using eq by simp
    have "ahead_chars s2 < Suc (ahead s2)" using ahead_chars_le [of s2] by simp
    from parse_members_step [OF p this] have "members_step ok [] s2 ms s'" by simp
    moreover have "members_step True [] s [] s2" using A2 3 by (intro members_step_same) simp_all
    ultimately show ?thesis using members_step_trans by blast
  qed
qed

text \<open>An array or object is one level deeper than its values.\<close>

lemma parse_array_value:
  "parse_array (Some (pv, sv)) f s = (ok, vs, s') \<Longrightarrow> value_step (Suc limit) ok VNull s (VArray vs) s'"
  by (drule parse_array_step) (simp add: elements_step_def value_step_def)

lemma parse_object_value:
  "parse_object (Some (pv, sv)) f s = (ok, ms, s') \<Longrightarrow> value_step (Suc limit) ok VNull s (VObject ms) s'"
  by (drule parse_object_step) (simp add: members_step_def value_step_def)

lemma parse_value_nested:
  assumes "parse_value (Some (pv, sv)) f v s = (ok, v', s')" "variant_ok v"
  shows "value_step (Suc limit) ok v s v' s'"
  by (rule parse_value_step [OF assms parse_array_value parse_object_value])
    (simp_all add: skip_array_sound skip_object_sound)

lemma skip_value_nested: "skip_value (Some sv) s = (ok, s') \<Longrightarrow> sound ok s s'"
  by (rule skip_value_sound [OF _ skip_array_sound skip_object_sound])

end

lemma too_deep_sound: "sound False s (fail TooDeep s)"
  by (rule sound_fail) simp_all

lemma too_deep_step:
  "value_step 1 False VNull s (VArray []) (fail TooDeep s)"
  "value_step 1 False VNull s (VObject []) (fail TooDeep s)"
  using too_deep_sound [of s] by (simp_all add: value_step_def fail_def)

text \<open>The handlers for every limit; a value at limit \<open>n\<close> can be one level deeper, the array or object
  that was refused.\<close>

lemma parse_too_deep:
  "parse_array None f s = (ok, vs, s') \<Longrightarrow> value_step (Suc 0) ok VNull s (VArray vs) s'"
  "parse_object None f s = (ok, ms, s') \<Longrightarrow> value_step (Suc 0) ok VNull s (VObject ms) s'"
  using too_deep_step [of s] by (auto simp: parse_array_def parse_object_def)

lemma skip_too_deep:
  "skip_array None s = (ok, s') \<Longrightarrow> sound ok s s'"
  "skip_object None s = (ok, s') \<Longrightarrow> sound ok s s'"
  using too_deep_sound [of s] by (auto simp: skip_array_def skip_object_def)

lemma parse_variant_nested: "nested_parser (parse_variant n) (skip_variant n) (Suc n)"
proof (induction n)
  case 0
  show ?case
  proof unfold_locales
    show "value_step (Suc 0) ok v s v' s'" if "parse_variant 0 f v s = (ok, v', s')" "variant_ok v" for f v s ok v' s'
      using that by (intro parse_value_step [OF _ that(2) parse_too_deep]) (auto dest: skip_too_deep)
    show "sound ok s s'" if "skip_variant 0 s = (ok, s')" for s ok s'
      using that by (intro skip_value_sound [OF _ skip_too_deep]) simp_all
  qed
next
  case (Suc n)
  show ?case
    by unfold_locales
      (simp_all add: nested_parser.parse_value_nested [OF Suc] nested_parser.skip_value_nested [OF Suc])
qed

interpretation nested: nested_parser "parse_variant n" "skip_variant n" "Suc n" for n
  by (rule parse_variant_nested)

section \<open>The property\<close>

lemma new_parser_simps [simp]:
  "jp_stuck (new_parser p input) = False" "jp_error (new_parser p input) = Ok"
  "jp_pool (new_parser p input) = p"
  by (simp_all add: new_parser_def)

text \<open>C15. Whatever the input, the filter, the nesting limit and the document, \<open>deserializeJson\<close>
  returns (no loop outlives the characters that are left); it keeps the memory pool and everything stored
  in the document well formed; the document is at most one level deeper than the limit (the collection
  that was refused); and the error code is \<open>Ok\<close> exactly when the value was parsed and nothing but
  a closed array or object can be followed by more input.\<close>

theorem json_parser_is_total:
  assumes "doc_ok d"
    and "parse_variant limit f VNull (new_parser (jd_pool (json_clear d)) input) = (ok, v, s)"
    and "deserializeJson limit f input d = (e, d')"
  shows "\<not> jp_stuck s \<and> doc_ok d' \<and> mp_capacity (jd_pool d') = mp_capacity (jd_pool d) \<and>
    nesting (jd_data d') \<le> Suc limit \<and>
    (e = Ok \<longleftrightarrow> ok \<and> (jp_current s = NUL \<or> is_enclosed (jd_data d')))"
proof -
  have d': "jd_data d' = v" "jd_pool d' = jp_pool s"
    and e: "e = (if jp_error s = Ok \<and> jp_current s \<noteq> NUL \<and> \<not> is_enclosed v then InvalidInput else jp_error s)"
    using assms(2,3) by (auto simp: deserializeJson_def parse_def)
  from nested.pv_step [OF assms(2)] doc_ok_clear [OF assms(1)]
  show ?thesis unfolding d'(1) e
    by (auto simp: value_step_def sound_def doc_ok_def d' json_clear_def pool_clear_def pool_extends_def split: if_splits)
qed

text \<open>A parse that stops at the nesting limit.\<close>

definition too_deep_input :: string where
  "too_deep_input = ''[true,[{''"

theorem json_parser_is_total_witness:
  "fst (deserializeJson 2 AllowAll too_deep_input (new_document True 256)) = TooDeep \<and>
   doc_ok (snd (deserializeJson 2 AllowAll too_deep_input (new_document True 256)))"
proof -
  let ?d = "new_document True 256"
  obtain ok v s where p: "parse_variant 2 AllowAll VNull (new_parser (jd_pool (json_clear ?d)) too_deep_input) = (ok, v, s)"
    by (cases "parse_variant 2 AllowAll VNull (new_parser (jd_pool (json_clear ?d)) too_deep_input)") auto
  obtain e d' where q: "deserializeJson 2 AllowAll too_deep_input ?d = (e, d')" by fastforce
  have "fst (deserializeJson 2 AllowAll too_deep_input ?d) = TooDeep" by code_simp
  with json_parser_is_total [OF new_document_ok p q] q show ?thesis by simp
qed

end
