(* ===== verification/Json_Round_Trip.thy ===== *)
theory Json_Round_Trip
  imports Json_Parser_Safety
begin

text \<open>
  \<open>deserializeJson\<close> undoes \<open>serializeJson\<close> (\<open>ArduinoJson.h\<close>): what the parser makes of the
  text of a value. Numbers come back unsigned when they are not negative, and every string is a copy
  in the pool of the new document (\<open>normal\<close>). The memory the parser takes is what \<open>memoryUsage\<close>
  reports of the value it builds. Floats are left out (their text is rounded to nine digits), and so is raw
  text, which may be anything.
\<close>

section \<open>What the parser is about to read\<close>

text \<open>\<open>t\<close> is what is left of the input, whether or not the latch holds its first character.\<close>

definition upcoming :: "json_parser \<Rightarrow> string \<Rightarrow> bool" where
  "upcoming s t \<longleftrightarrow>
     (case t of
        [] \<Rightarrow> jp_current (load s) = NUL \<and> jp_input (load s) = []
      | c # r \<Rightarrow> jp_current (load s) = c \<and> jp_input (load s) = r)"

lemma upcoming_load [simp]: "upcoming (load s) t = upcoming s t"
  by (cases t) (simp_all add: upcoming_def)

lemma upcoming_same:
  "jp_input s' = jp_input s \<Longrightarrow> jp_current s' = jp_current s \<Longrightarrow> jp_loaded s' = jp_loaded s \<Longrightarrow>
     upcoming s' t = upcoming s t"
  by (simp add: upcoming_def load_def reader_read_def split: list.splits)

lemma upcoming_updates [simp]:
  "upcoming (s\<lparr>jp_found := b\<rparr>) t = upcoming s t"
  "upcoming (s\<lparr>jp_pool := p\<rparr>) t = upcoming s t"
  "upcoming (s\<lparr>jp_storage := sc\<rparr>) t = upcoming s t"
  "upcoming (parser_append c s) t = upcoming s t"
  "upcoming (parser_start_string s) t = upcoming s t"
  by (rule upcoming_same; simp add: parser_start_string_def split: prod.splits)+

lemma upcoming_current: "upcoming s (c # r) \<Longrightarrow> jp_current (load s) = c"
  by (simp add: upcoming_def)

lemma upcoming_move: "upcoming s (c # r) \<Longrightarrow> upcoming (move (load s)) r"
  by (auto simp: upcoming_def load_def [of "move (load s)"] reader_read_def split: list.splits)

lemma upcoming_new: "upcoming (new_parser p t) t"
  by (simp add: upcoming_def new_parser_def load_def reader_read_def split: list.splits)

lemma upcoming_ahead: "upcoming s t \<Longrightarrow> length t \<le> Suc (ahead s)"
  by (cases t) (auto simp: upcoming_def ahead_def load_def reader_read_def split: list.splits if_splits)

lemma same_memory_move_load [simp]: "same_memory s (move (load s))"
  by (rule move_load_sound)

lemma skip_spaces_solid:
  assumes "upcoming s (c # r)" "c \<noteq> NUL" "\<not> is_blank c"
  shows "\<exists>s'. skip_spaces s = (True, s') \<and> upcoming s' (c # r) \<and> same_memory s s'"
  using assms upcoming_current [OF assms(1)]
  by (subst skip_spaces.simps) (simp add: same_memory_def Let_def)

lemma eat_upcoming:
  assumes "upcoming s (c # r)"
  shows "\<exists>s'. eat c s = (True, s') \<and> upcoming s' r \<and> same_memory s s'"
    and "d \<noteq> c \<Longrightarrow> eat d s = (False, load s)"
  using assms upcoming_current [OF assms] upcoming_move [OF assms]
  by (auto simp: eat_def Let_def)

lemma next_or_close_closes:
  assumes "upcoming s (c # r)" "c = CHR '']'' \<or> c = CHR ''}''"
  shows "\<exists>s'. next_or_close c s = (Some True, s') \<and> upcoming s' r \<and> same_memory s s'"
proof -
  have "c \<noteq> NUL" "\<not> is_blank c" using assms(2) by (auto simp: is_blank_def)
  from skip_spaces_solid [OF assms(1) this] obtain s1 where
    1: "skip_spaces s = (True, s1)" "upcoming s1 (c # r)" "same_memory s s1" by blast
  from eat_upcoming(1) [OF 1(2)] obtain s2 where
    "eat c s1 = (True, s2)" "upcoming s2 r" "same_memory s1 s2" by blast
  with 1 show ?thesis by (auto simp: next_or_close_def intro: same_memory_trans)
qed

lemma next_or_close_continues:
  assumes "upcoming s (CHR '','' # r)" "c = CHR '']'' \<or> c = CHR ''}''"
  shows "\<exists>s'. next_or_close c s = (None, s') \<and> upcoming s' r \<and> same_memory s s'"
proof -
  have "CHR '','' \<noteq> NUL" "\<not> is_blank (CHR '','')" "c \<noteq> CHR '',''" using assms(2) by (auto simp: is_blank_def)
  note c = this
  from skip_spaces_solid [OF assms(1) c(1,2)] obtain s1 where
    1: "skip_spaces s = (True, s1)" "upcoming s1 (CHR '','' # r)" "same_memory s s1" by blast
  have 2: "eat c s1 = (False, load s1)" by (rule eat_upcoming(2) [OF 1(2) c(3)])
  have "upcoming (load s1) (CHR '','' # r)" using 1(2) by simp
  from eat_upcoming(1) [OF this] obtain s2 where
    "eat (CHR '','') (load s1) = (True, s2)" "upcoming s2 r" "same_memory (load s1) s2" by blast
  with 1 2 show ?thesis
    by (auto simp: next_or_close_def intro: same_memory_trans [OF same_memory_trans [OF _ load_sound(2)]])
qed

section \<open>Room in the pool\<close>

definition pool_room :: "nat \<Rightarrow> memory_pool \<Rightarrow> bool" where
  "pool_room n p \<longleftrightarrow> pool_ok p \<and> \<not> mp_overflowed p \<and> n \<le> free_zone p"

lemma pool_room_less: "pool_room n p \<Longrightarrow> m \<le> n \<Longrightarrow> pool_room m p"
  by (simp add: pool_room_def)

lemma pool_room_alloc:
  assumes "pool_room (SLOT_SIZE + n) p"
  shows "\<exists>p'. alloc_variant p = (True, p') \<and> pool_room n p'"
  using assms
  by (auto simp: pool_room_def alloc_variant_def alloc_right_def can_alloc_def free_zone_def SLOT_SIZE_def pool_ok_def)

lemma pool_room_save:
  assumes "pool_room (length str + 1 + n) p" "sc_buf sc = str"
  shows "\<exists>p'. save sc p = ((Copied, str), p') \<and> pool_room n p'"
  using assms
  by (auto simp: pool_room_def save_def save_string_from_free_zone_def free_zone_def pool_ok_def split: option.splits)

definition room :: "nat \<Rightarrow> json_parser \<Rightarrow> bool" where
  "room n s \<longleftrightarrow> pool_room n (jp_pool s)"

lemma room_same: "same_memory s s' \<Longrightarrow> room n s' = room n s"
  by (simp add: room_def same_memory_def)

lemma room_less: "room n s \<Longrightarrow> m \<le> n \<Longrightarrow> room m s"
  by (simp add: room_def pool_room_less)

lemma room_alloc:
  assumes "room (SLOT_SIZE + n) s"
  shows "\<exists>p. alloc_variant (jp_pool s) = (True, p) \<and> room n (s\<lparr>jp_pool := p\<rparr>)"
  using pool_room_alloc [of n "jp_pool s"] assms by (simp add: room_def)

lemma room_save:
  assumes "room (length str + 1 + n) s" "sc_buf (jp_storage s) = str"
  shows "\<exists>s'. parser_save s = ((Copied, str), s') \<and> room n s' \<and> (\<forall>t. upcoming s' t = upcoming s t) \<and>
    jp_storage s' = jp_storage s"
  using pool_room_save [of str n "jp_pool s" "jp_storage s"] assms by (auto simp: room_def parser_save_def)

section \<open>Strings\<close>

lemma escape_back:
  assumes "escapeChar c \<noteq> NUL"
  shows "unescapeChar (escapeChar c) = c" "escapeChar c \<noteq> CHR ''u''" "c \<noteq> NUL" 
  using assms
  by (auto simp: escapeChar_def unescapeChar_def escape_table_def escape_pairs_def split: if_splits)

lemma not_escaped: "escapeChar c = NUL \<Longrightarrow> c \<noteq> QUOTE \<and> c \<noteq> BACKSLASH"
  by (auto simp: escapeChar_def escape_table_def escape_pairs_def split: if_splits)

lemma hex_zero:
  assumes "upcoming s (CHR ''0'' # r)"
  shows "hex_loop (Suc i) 0 s = hex_loop i 0 (move (load s))" "upcoming (move (load s)) r"
  using assms upcoming_current [OF assms] upcoming_move [OF assms]
  by (simp_all add: Let_def decode_hex_def)

lemma hex_zeros:
  "upcoming s (replicate i (CHR ''0'') @ r) \<Longrightarrow> \<exists>s'. hex_loop i 0 s = (True, 0, s') \<and> upcoming s' r \<and> same_memory s s'"
proof (induction i arbitrary: s)
  case (Suc i)
  then have z: "upcoming s (CHR ''0'' # replicate i (CHR ''0'') @ r)" by simp
  from Suc.IH [OF hex_zero(2) [OF z]] show ?case unfolding hex_zero(1) [OF z]
    using same_memory_trans [OF same_memory_move_load] by blast
qed simp

lemma quoted_step:
  assumes "upcoming s (char_text c @ r)"
    and "length (sc_buf (jp_storage s)) + 1 < sc_capacity (jp_storage s)"
  shows "\<exists>s1 cp1. quoted_loop QUOTE cp s = quoted_loop QUOTE cp1 s1 \<and> upcoming s1 r \<and> jp_pool s1 = jp_pool s \<and>
    jp_storage s1 = (jp_storage s)\<lparr>sc_buf := sc_buf (jp_storage s) @ [c]\<rparr>"
proof -
  have app: "jp_pool (parser_append c s') = jp_pool s"
    "jp_storage (parser_append c s') = (jp_storage s)\<lparr>sc_buf := sc_buf (jp_storage s) @ [c]\<rparr>"
    if "same_memory s s'" for s'
    using that assms(2) by (simp_all add: parser_append_def append_char_def same_memory_def)
  consider (esc) "escapeChar c \<noteq> NUL" | (nul) "escapeChar c = NUL" "c = NUL" | (raw) "escapeChar c = NUL" "c \<noteq> NUL"
    by blast
  then show ?thesis
  proof cases
    case esc
    note e = escape_back [OF esc]
    have u: "upcoming s (BACKSLASH # escapeChar c # r)" using assms(1) esc by (simp add: char_text_def)
    note u1 = upcoming_move [OF u]
    have "quoted_loop QUOTE cp s = quoted_loop QUOTE cp (parser_append c (move (load (move (load s)))))"
      using upcoming_current [OF u] upcoming_current [OF u1] esc e
      by (subst quoted_loop.simps) (simp add: Let_def)
    moreover have "same_memory s (move (load (move (load s))))"
      by (rule same_memory_trans [OF same_memory_move_load same_memory_move_load])
    ultimately show ?thesis using upcoming_move [OF u1] app by fastforce
  next
    case nul
    have u: "upcoming s (BACKSLASH # CHR ''u'' # replicate 4 (CHR ''0'') @ r)"
      using assms(1) nul by (auto simp: char_text_def numeral_eq_Suc)
    note u1 = upcoming_move [OF u]
    from hex_zeros [OF upcoming_move [OF u1]] obtain s2 where
      2: "parse_hex4 (move (load (move (load s)))) = (True, 0, s2)" "upcoming s2 r"
        "same_memory (move (load (move (load s)))) s2"
      by (auto simp: parse_hex4_def)
    have "encode_codepoint 0 = [NUL]" by code_simp
    then have enc: "encode_codepoint 0 = [c]" using nul(2) by simp
    have "codepoint_append 0 cp = (True, fst cp, 0)"
      by (cases cp) (simp add: codepoint_append_def is_high_surrogate_def is_low_surrogate_def)
    then have "quoted_loop QUOTE cp s = quoted_loop QUOTE (fst cp, 0) (parser_append c s2)"
      using upcoming_current [OF u] upcoming_current [OF u1] 2(1) enc
      by (subst quoted_loop.simps) (simp add: Let_def)
    moreover have "same_memory s s2"
      by (rule same_memory_trans [OF same_memory_trans [OF same_memory_move_load same_memory_move_load] 2(3)])
    ultimately show ?thesis using 2(2) app by fastforce
  next
    case raw
    have u: "upcoming s (c # r)" using assms(1) raw by (simp add: char_text_def)
    have "quoted_loop QUOTE cp s = quoted_loop QUOTE cp (parser_append c (move (load s)))"
      using upcoming_current [OF u] not_escaped [OF raw(1)] raw
      by (subst quoted_loop.simps) (simp add: Let_def)
    then show ?thesis using upcoming_move [OF u] app [OF same_memory_move_load] by fastforce
  qed
qed

lemma quoted_text:
  assumes "upcoming s (concat (map char_text str) @ QUOTE # r)"
    and "length (sc_buf (jp_storage s)) + length str < sc_capacity (jp_storage s) \<or> str = []"
  shows "\<exists>s'. quoted_loop QUOTE cp s = (True, s') \<and> upcoming s' r \<and> jp_pool s' = jp_pool s \<and>
    jp_storage s' = (jp_storage s)\<lparr>sc_buf := sc_buf (jp_storage s) @ str\<rparr>"
  using assms
proof (induction str arbitrary: s cp)
  case Nil
  then have u: "upcoming s (QUOTE # r)" by simp
  then show ?case using upcoming_current [OF u] upcoming_move [OF u]
    by (subst quoted_loop.simps) (simp add: Let_def)
next
  case (Cons c str)
  have "upcoming s (char_text c @ concat (map char_text str) @ QUOTE # r)"
    "length (sc_buf (jp_storage s)) + 1 < sc_capacity (jp_storage s)" using Cons.prems by auto
  from quoted_step [OF this, of cp] obtain s1 cp1 where
    1: "quoted_loop QUOTE cp s = quoted_loop QUOTE cp1 s1" "upcoming s1 (concat (map char_text str) @ QUOTE # r)"
      "jp_pool s1 = jp_pool s" "jp_storage s1 = (jp_storage s)\<lparr>sc_buf := sc_buf (jp_storage s) @ [c]\<rparr>" by blast
  have "length (sc_buf (jp_storage s1)) + length str < sc_capacity (jp_storage s1) \<or> str = []"
    using Cons.prems(2) 1(4) by auto
  from Cons.IH [OF 1(2) this, of cp1] 1 show ?case by auto
qed

lemma quoted_string_text:
  assumes "upcoming s (string_text str @ r)" "room (length str + 1 + n) s"
  shows "\<exists>s'. parse_quoted_string (parser_start_string s) = (True, s') \<and> upcoming s' r \<and>
    jp_pool s' = jp_pool s \<and> sc_buf (jp_storage s') = str"
proof -
  have u: "upcoming (parser_start_string s) (QUOTE # concat (map char_text str) @ QUOTE # r)"
    using assms(1) by (simp add: string_text_def)
  have st: "jp_pool (parser_start_string s) = jp_pool s"
    "jp_storage (parser_start_string s) = \<lparr>sc_buf = [], sc_capacity = free_zone (jp_pool s)\<rparr>"
    using assms(2) by (simp_all add: parser_start_string_def start_string_def room_def pool_room_def)
  let ?s = "move (load (parser_start_string s))"
  have "length (sc_buf (jp_storage ?s)) + length str < sc_capacity (jp_storage ?s) \<or> str = []"
    using assms(2) st by (simp add: room_def pool_room_def)
  from quoted_text [OF upcoming_move [OF u] this, of "(0, 0)"] obtain s1 where
    1: "quoted_loop QUOTE (0, 0) ?s = (True, s1)" "upcoming s1 r" "jp_pool s1 = jp_pool s" "sc_buf (jp_storage s1) = str"
    using st by auto
  then show ?thesis using upcoming_current [OF u] assms(2)
    by (auto simp: parse_quoted_string_def Let_def check_valid_def is_valid_def room_def pool_room_def)
qed

lemma string_value_text:
  assumes "upcoming s (string_text str @ r)" "room (length str + 1 + n) s"
  shows "\<exists>s'. parse_string_value w s = (True, VString Copied str, s') \<and> upcoming s' r \<and> room n s'"
proof -
  from quoted_string_text [OF assms] obtain s1 where
    1: "parse_quoted_string (parser_start_string s) = (True, s1)" "upcoming s1 r" "jp_pool s1 = jp_pool s"
      "sc_buf (jp_storage s1) = str" by blast
  have "room (length str + 1 + n) s1" using assms(2) 1(3) by (simp add: room_def)
  from room_save [OF this 1(4)] obtain s2 where
    "parser_save s1 = ((Copied, str), s2)" "room n s2" "upcoming s2 r" using 1(2) by blast
  with 1(1) show ?thesis by (auto simp: parse_string_value_def set_string_def)
qed

section \<open>Numbers and constants\<close>

definition stops :: "string \<Rightarrow> bool" where
  "stops t \<longleftrightarrow> t = [] \<or> \<not> can_be_in_non_quoted (hd t)"

lemma numeric_text:
  assumes "upcoming s (str @ t)" "\<forall>c\<in>set str. can_be_in_non_quoted c" "stops t" "length str \<le> n"
  shows "\<exists>s'. numeric_chars n s = (str, s') \<and> upcoming s' t \<and> same_memory s s'"
  using assms
proof (induction n arbitrary: s str)
  case (Suc n)
  show ?case
  proof (cases str)
    case Nil
    have "\<not> can_be_in_non_quoted (jp_current (load s))"
      using Suc.prems(1,3) non_quoted_not_NUL Nil by (cases t) (auto simp: stops_def upcoming_def)
    then show ?thesis using Suc.prems(1) Nil by (simp add: Let_def same_memory_def)
  next
    case (Cons c str')
    then have u: "upcoming s (c # str' @ t)" using Suc.prems(1) by simp
    from Suc.IH [OF upcoming_move [OF u]] Suc.prems(2-4) Cons obtain s' where
      "numeric_chars n (move (load s)) = (str', s')" "upcoming s' t" "same_memory (move (load s)) s'" by auto
    then show ?thesis using upcoming_current [OF u] Suc.prems(2) Cons same_memory_trans [OF same_memory_move_load]
      by (fastforce simp: Let_def)
  qed
qed (simp add: same_memory_def)

text \<open>The texts that \<open>parse_numeric_value\<close> turns into a value.\<close>

definition word_value :: "string \<Rightarrow> variant \<Rightarrow> bool" where
  "word_value str v \<longleftrightarrow>
     str = ''null'' \<and> v = VNull \<or> str = ''true'' \<and> v = VBool True \<or> str = ''false'' \<and> v = VBool False \<or>
     str \<noteq> [] \<and> hd str \<notin> {CHR ''t'', CHR ''f'', CHR ''n''} \<and> parse_number str = Some v"

lemma numeric_value_text:
  assumes "upcoming s (str @ t)" "\<forall>c\<in>set str. can_be_in_non_quoted c" "stops t" "length str \<le> 63" "word_value str v"
  shows "\<exists>s'. parse_numeric_value VNull s = (True, v, s') \<and> upcoming s' t \<and> same_memory s s'"
proof -
  from numeric_text [OF assms(1-4)] obtain s' where
    "numeric_chars BUFFER_CHARS s = (str, s')" "upcoming s' t" "same_memory s s'" by (auto simp: BUFFER_CHARS_def)
  with assms(5) show ?thesis by (auto simp: parse_numeric_value_def word_value_def Let_def)
qed

lemma digit_non_quoted: "is_digit c \<Longrightarrow> can_be_in_non_quoted c"
  by (simp add: is_digit_def can_be_in_non_quoted_def is_between_def)

lemma length_write_uint: "n < 2 ^ 64 \<Longrightarrow> length (write_uint n) \<le> 20"
  using length_dec_digits [of n 19] by (simp add: write_uint_eq)

lemma digits_word:
  assumes "hd str \<in> {CHR ''-''} \<or> is_digit (hd str)" "str \<noteq> []" "parse_number str = Some v"
  shows "word_value str v"
  using assms by (auto simp: word_value_def is_digit_def)

lemma uint_text:
  fixes w :: u64
  shows "word_value (write_uint (unat w)) (VUInt w)" "\<forall>c\<in>set (write_uint (unat w)). can_be_in_non_quoted c"
    "length (write_uint (unat w)) \<le> 63"
proof -
  have w: "unat w < 2 ^ 64" using unsigned_less [of w, where 'a = nat] by simp
  show "word_value (write_uint (unat w)) (VUInt w)"
    using dec_digits_hd [of "unat w"] parse_write_uint [OF w]
    by (intro digits_word) (simp_all add: write_uint_eq)
  show "\<forall>c\<in>set (write_uint (unat w)). can_be_in_non_quoted c"
    using dec_digits_digits digit_non_quoted by (auto simp: write_uint_eq)
  show "length (write_uint (unat w)) \<le> 63" using length_write_uint [OF w] by simp
qed

lemma int_text:
  fixes w :: u64
  assumes "w <s 0"
  shows "word_value (concat (write_int w)) (VInt w)" "\<forall>c\<in>set (concat (write_int w)). can_be_in_non_quoted c"
    "length (concat (write_int w)) \<le> 63"
proof -
  let ?n = "unat (NOT w + 1)"
  have t: "concat (write_int w) = CHR ''-'' # write_uint ?n" using assms by (simp add: write_int_def)
  show "word_value (concat (write_int w)) (VInt w)"
    using parse_write_int [OF assms] by (intro digits_word) (simp_all add: t)
  show "\<forall>c\<in>set (concat (write_int w)). can_be_in_non_quoted c"
    using uint_text(2) [of "NOT w + 1"] unfolding t by (simp add: can_be_in_non_quoted_def)
  have "?n < 2 ^ 64" using unsigned_less [of "NOT w + 1", where 'a = nat] by simp
  from length_write_uint [OF this] show "length (concat (write_int w)) \<le> 63" unfolding t by simp
qed

section \<open>Values\<close>

text \<open>The values whose text says all of them, and what is parsed from it.\<close>

fun plain :: "variant \<Rightarrow> bool"
  and plain_elements :: "variant list \<Rightarrow> bool"
  and plain_members :: "slot list \<Rightarrow> bool" where
  "plain (VFloat f) = False"
| "plain (VRaw own str) = False"
| "plain (VArray vs) = plain_elements vs"
| "plain (VObject ms) = plain_members ms"
| "plain v = True"
| "plain_elements [] = True"
| "plain_elements (v # vs) = (plain v \<and> plain_elements vs)"
| "plain_members [] = True"
| "plain_members ((k, v) # ms) = (plain v \<and> plain_members ms)"

fun normal :: "variant \<Rightarrow> variant"
  and normal_elements :: "variant list \<Rightarrow> variant list"
  and normal_members :: "slot list \<Rightarrow> slot list" where
  "normal (VInt w) = (if w <s 0 then VInt w else VUInt w)"
| "normal (VString own str) = VString Copied str"
| "normal (VArray vs) = VArray (normal_elements vs)"
| "normal (VObject ms) = VObject (normal_members ms)"
| "normal v = v"
| "normal_elements [] = []"
| "normal_elements (v # vs) = normal v # normal_elements vs"
| "normal_members [] = []"
| "normal_members (((own, k), v) # ms) = ((Copied, k), normal v) # normal_members ms"

lemma normal_elements_map: "normal_elements vs = map normal vs"
  by (induction vs) simp_all

lemma plain_elements_all: "plain_elements vs \<longleftrightarrow> (\<forall>v\<in>set vs. plain v)"
  by (induction vs) simp_all

lemma slot_keys_normal [simp]: "map slot_key (normal_members ms) = map slot_key ms"
  by (induction ms) auto

text \<open>The first character of a value is none of those that end a collection.\<close>

definition solid :: "char \<Rightarrow> bool" where
  "solid c \<longleftrightarrow> c \<noteq> NUL \<and> \<not> is_blank c \<and> c \<noteq> CHR '']'' \<and> c \<noteq> CHR ''}''"

lemma non_quoted_solid: "can_be_in_non_quoted c \<Longrightarrow> solid c"
proof -
  have "\<forall>c\<in>set [NUL, CHR '' '', CHR 0x09, CHR 0x0D, CHR 0x0A, CHR '']'', CHR ''}'']. \<not> can_be_in_non_quoted c"
    by code_simp
  then show "can_be_in_non_quoted c \<Longrightarrow> solid c" unfolding solid_def is_blank_def by auto
qed

text \<open>The text of a value that is neither a string nor a collection.\<close>

lemma leaf_text:
  assumes "plain v" "nesting v = 0" "\<forall>own str. v \<noteq> VString own str"
  shows "word_value (json_text v) (normal v) \<and> (\<forall>c\<in>set (json_text v). can_be_in_non_quoted c) \<and> length (json_text v) \<le> 63"
proof (cases v)
  case VNull
  then show ?thesis by (simp add: word_value_def can_be_in_non_quoted_def is_between_def)
next
  case (VBool b)
  then show ?thesis by (simp add: word_value_def can_be_in_non_quoted_def is_between_def)
next
  case (VInt w)
  then show ?thesis using int_text [of w] uint_text [of w] by (cases "w <s 0") (simp_all add: write_int_def)
qed (use assms uint_text in auto)

lemma word_value_ne: "word_value str v \<Longrightarrow> str \<noteq> []"
  by (auto simp: word_value_def)

lemma json_text_solid: "plain v \<Longrightarrow> \<exists>c r. json_text v = c # r \<and> solid c"
proof (cases "nesting v = 0 \<and> (\<forall>own str. v \<noteq> VString own str)")
  case True
  assume "plain v"
  note l = leaf_text [OF this conjunct1 [OF True] conjunct2 [OF True]]
  have "json_text v \<noteq> []" by (rule word_value_ne [OF conjunct1 [OF l]])
  moreover have "\<forall>c\<in>set (json_text v). can_be_in_non_quoted c" using l by blast
  ultimately have "json_text v \<noteq> [] \<and> (\<forall>c\<in>set (json_text v). can_be_in_non_quoted c)" ..
  then show ?thesis using non_quoted_solid by (cases "json_text v") auto
next
  case False
  then show ?thesis by (cases v) (auto simp: string_text_def solid_def is_blank_def)
qed

section \<open>Collections\<close>

text \<open>What the handler of nested values does with every text of a value that is not too deep.\<close>

locale value_reader =
  fixes pv :: value_parser and limit :: nat
  assumes reads: "plain v \<Longrightarrow> variant_ok v \<Longrightarrow> nesting v \<le> limit \<Longrightarrow> upcoming s (json_text v @ t) \<Longrightarrow> stops t \<Longrightarrow>
    room (memory_usage (normal v) + m) s \<Longrightarrow>
    \<exists>s'. pv AllowAll VNull s = (True, normal v, s') \<and> upcoming s' t \<and> room m s'"
begin

lemma element_text:
  assumes "plain v" "variant_ok v" "nesting v \<le> limit" "upcoming s (json_text v @ t)" "stops t"
    and "room (SLOT_SIZE + memory_usage (normal v) + m) s"
  shows "\<exists>p s'. alloc_variant (jp_pool s) = (True, p) \<and>
    pv AllowAll VNull (s\<lparr>jp_pool := p\<rparr>) = (True, normal v, s') \<and> upcoming s' t \<and> room m s'"
proof -
  from room_alloc [of "memory_usage (normal v) + m" s] assms(6) obtain p where
    p: "alloc_variant (jp_pool s) = (True, p)" "room (memory_usage (normal v) + m) (s\<lparr>jp_pool := p\<rparr>)"
    by (auto simp: add.assoc)
  from reads [OF assms(1-3) _ assms(5) p(2)] assms(4) p(1) show ?thesis by auto
qed

lemma parse_elements_text:
  assumes "vs \<noteq> []" "plain_elements vs" "elements_ok vs" "elements_nesting vs \<le> limit" "length vs \<le> fuel"
    and "upcoming s (elements_text vs @ CHR '']'' # t)" "room (elements_usage (normal_elements vs) + m) s"
  shows "\<exists>s'. parse_elements pv sv AllowAll fuel acc s = (True, acc @ normal_elements vs, s') \<and>
    upcoming s' t \<and> room m s'"
  using assms
proof (induction vs arbitrary: acc s fuel)
  case (Cons v vs)
  let ?rest = "if vs = [] then CHR '']'' # t else CHR '','' # elements_text vs @ CHR '']'' # t"
  obtain n where fuel: "fuel = Suc n" using Cons.prems(5) by (cases fuel) auto
  have u: "upcoming s (json_text v @ ?rest)" using Cons.prems(6) by (cases "vs = []") simp_all
  have st: "stops ?rest" by (simp add: stops_def can_be_in_non_quoted_def is_between_def)
  have "room (SLOT_SIZE + memory_usage (normal v) + (elements_usage (normal_elements vs) + m)) s"
    using Cons.prems(7) by (simp add: algebra_simps)
  from element_text [OF _ _ _ u st this] Cons.prems obtain p s1 where
    1: "alloc_variant (jp_pool s) = (True, p)" "pv AllowAll VNull (s\<lparr>jp_pool := p\<rparr>) = (True, normal v, s1)"
      "upcoming s1 ?rest" "room (elements_usage (normal_elements vs) + m) s1" by auto
  show ?case
  proof (cases "vs = []")
    case True
    from next_or_close_closes [of s1 "CHR '']''" t] 1(3) True obtain s2 where
      2: "next_or_close (CHR '']'') s1 = (Some True, s2)" "upcoming s2 t" "same_memory s1 s2" by auto
    show ?thesis using 1 2 True room_same [OF 2(3)]
      by (simp add: fuel filter_allow_def add_element_def)
  next
    case False
    from next_or_close_continues [of s1 _ "CHR '']''"] 1(3) False obtain s2 where
      2: "next_or_close (CHR '']'') s1 = (None, s2)" "upcoming s2 (elements_text vs @ CHR '']'' # t)" "same_memory s1 s2"
      by auto
    have "room (elements_usage (normal_elements vs) + m) s2" using 1(4) room_same [OF 2(3)] by simp
    from Cons.IH [OF False _ _ _ _ 2(2) this, of n "acc @ [normal v]"] Cons.prems(2-5) fuel
    show ?thesis using 1 2 by (simp add: fuel filter_allow_def add_element_def)
  qed
qed simp

lemma parse_key_text:
  assumes "upcoming s (string_text k @ t)" "room (length k + 1 + n) s"
  shows "\<exists>s'. parse_key s = (True, s') \<and> upcoming s' t \<and> jp_pool s' = jp_pool s \<and> sc_buf (jp_storage s') = k"
proof -
  have "upcoming (parser_start_string s) (QUOTE # concat (map char_text k) @ QUOTE # t)"
    using assms(1) by (simp add: string_text_def)
  from upcoming_current [OF this] quoted_string_text [OF assms] show ?thesis
    by (simp add: parse_key_def is_quote_def parse_quoted_string_def Let_def)
qed

lemma parse_member_text:
  assumes "plain v" "variant_ok v" "nesting v \<le> limit" "upcoming s (json_text v @ t)" "stops t"
    and "room (SLOT_SIZE + memory_usage (normal v) + (length k + 1) + m) s"
    and "sc_buf (jp_storage s) = k" "NUL \<notin> set k" "k \<notin> slot_key ` set acc"
  shows "\<exists>s'. parse_member pv AllowAll acc s = (True, acc @ [((Copied, k), normal v)], s') \<and> upcoming s' t \<and> room m s'"
proof -
  have "room (length k + 1 + (SLOT_SIZE + memory_usage (normal v) + m)) s" using assms(6) by (simp add: algebra_simps)
  from room_save [OF this assms(7)] obtain s1 where
    1: "parser_save s = ((Copied, k), s1)" "room (SLOT_SIZE + memory_usage (normal v) + m) s1"
      "upcoming s1 (json_text v @ t)" using assms(4) by blast
  have none: "get_slot (c_str (sc_buf (jp_storage s))) acc = None" using assms(7-9) by (simp add: get_slot_None)
  from element_text [OF assms(1-3) 1(3) assms(5) 1(2)] 1(1) assms(8) show ?thesis
    unfolding parse_member_def none by (auto simp: set_key_def)
qed

lemma parse_members_text:
  assumes "ms \<noteq> []" "plain_members ms" "members_ok ms" "members_nesting ms \<le> limit" "length ms \<le> fuel"
    and "distinct (map slot_key (acc @ ms))"
    and "upcoming s (members_text ms @ CHR ''}'' # t)" "room (members_usage (normal_members ms) + m) s"
  shows "\<exists>s'. parse_members pv sv AllowAll fuel acc s = (True, acc @ normal_members ms, s') \<and>
    upcoming s' t \<and> room m s'"
  using assms
proof (induction ms arbitrary: acc s fuel)
  case (Cons a ms)
  obtain own k v where a: "a = ((own, k), v)" by (metis prod.exhaust)
  let ?rest = "if ms = [] then CHR ''}'' # t else CHR '','' # members_text ms @ CHR ''}'' # t"
  obtain n where fuel: "fuel = Suc n" using Cons.prems(5) by (cases fuel) auto
  have k: "NUL \<notin> set k" "c_str k = k" "k \<notin> slot_key ` set acc" using Cons.prems(3,6) by (auto simp: a)
  let ?m = "members_usage (normal_members ms) + m"
  have u: "upcoming s (string_text k @ CHR '':'' # json_text v @ ?rest)"
    using Cons.prems(7) k by (cases "ms = []") (simp_all add: a)
  have st: "stops ?rest" by (simp add: stops_def can_be_in_non_quoted_def is_between_def)
  have r: "room (SLOT_SIZE + memory_usage (normal v) + (length k + 1) + ?m) s"
    using Cons.prems(8) k by (simp add: a algebra_simps)
  from parse_key_text [OF u room_less [OF r]] obtain s1 where
    1: "parse_key s = (True, s1)" "upcoming s1 (CHR '':'' # json_text v @ ?rest)" "jp_pool s1 = jp_pool s"
      "sc_buf (jp_storage s1) = k" by (metis add.commute le_add1)
  from skip_spaces_solid [OF 1(2)] obtain s2 where
    2: "skip_spaces s1 = (True, s2)" "upcoming s2 (CHR '':'' # json_text v @ ?rest)" "same_memory s1 s2"
    by (auto simp: is_blank_def)
  from eat_upcoming(1) [OF 2(2)] obtain s3 where
    3: "eat (CHR '':'') s2 = (True, s3)" "upcoming s3 (json_text v @ ?rest)" "same_memory s2 s3" by blast
  have mem: "jp_pool s3 = jp_pool s" "sc_buf (jp_storage s3) = k"
    using 1(3,4) 2(3) 3(3) by (simp_all add: same_memory_def)
  have "room (SLOT_SIZE + memory_usage (normal v) + (length k + 1) + ?m) s3" using r mem(1) by (simp add: room_def)
  from parse_member_text [OF _ _ _ 3(2) st this mem(2) k(1,3)] Cons.prems(2-4) obtain s4 where
    4: "parse_member pv AllowAll acc s3 = (True, acc @ [((Copied, k), normal v)], s4)" "upcoming s4 ?rest" "room ?m s4"
    by (auto simp: a)
  note run = 1(1) 2(1) 3(1) 4(1)
  show ?case
  proof (cases "ms = []")
    case True
    from next_or_close_closes [of s4 "CHR ''}''" t] 4(2) True obtain s5 where
      5: "next_or_close (CHR ''}'') s4 = (Some True, s5)" "upcoming s5 t" "same_memory s4 s5" by auto
    show ?thesis using run 4 5 True room_same [OF 5(3)]
      by (simp add: fuel a filter_allow_def filter_member_def Let_def)
  next
    case False
    from next_or_close_continues [of s4 _ "CHR ''}''"] 4(2) False obtain s5 where
      5: "next_or_close (CHR ''}'') s4 = (None, s5)" "upcoming s5 (members_text ms @ CHR ''}'' # t)" "same_memory s4 s5"
      by auto
    obtain r where "members_text ms = QUOTE # r" using False by (cases ms) (auto simp: string_text_def)
    with skip_spaces_solid [of s5 QUOTE] 5(2) obtain s6 where
      6: "skip_spaces s5 = (True, s6)" "upcoming s6 (members_text ms @ CHR ''}'' # t)" "same_memory s5 s6"
      by (auto simp: is_blank_def)
    have "room ?m s6" using 4(3) room_same [OF 5(3)] room_same [OF 6(3)] by simp
    from Cons.IH [OF False _ _ _ _ _ 6(2) this, of n "acc @ [((Copied, k), normal v)]"] Cons.prems(2-6) fuel
    show ?thesis using run 5 6 by (auto simp: fuel a filter_allow_def filter_member_def Let_def)
  qed
qed simp

text \<open>One level up.\<close>

lemma elements_text_length: "plain_elements vs \<Longrightarrow> length vs \<le> length (elements_text vs)"
proof (induction vs)
  case (Cons v vs)
  then have "plain v" by simp
  from json_text_solid [OF this] Cons show ?case by auto
qed simp

lemma members_text_length: "length ms \<le> length (members_text ms)"
  by (induction ms) (auto simp: string_text_def)

lemma parse_array_text:
  assumes "plain_elements vs" "elements_ok vs" "elements_nesting vs \<le> limit"
    and "upcoming s (json_text (VArray vs) @ t)" "room (elements_usage (normal_elements vs) + m) s"
  shows "\<exists>s'. parse_array (Some (pv, sv)) AllowAll s = (True, normal_elements vs, s') \<and> upcoming s' t \<and> room m s'"
proof -
  have u0: "upcoming s (CHR ''['' # elements_text vs @ CHR '']'' # t)" using assms(4) by simp
  note u = upcoming_move [OF u0]
  define c where "c = (if vs = [] then CHR '']'' else hd (elements_text vs))"
  define r where "r = (if vs = [] then t else tl (elements_text vs) @ CHR '']'' # t)"
  have c: "elements_text vs @ CHR '']'' # t = c # r \<and> c \<noteq> NUL \<and> \<not> is_blank c \<and> (c = CHR '']'') = (vs = [])"
  proof (cases vs)
    case (Cons v ws)
    then have "plain v" using assms(1) by simp
    from json_text_solid [OF this] Cons show ?thesis by (auto simp: c_def r_def solid_def)
  qed (simp add: c_def r_def is_blank_def)
  then have "upcoming (move (load s)) (c # r)" "c \<noteq> NUL" "\<not> is_blank c" using u by simp_all
  from skip_spaces_solid [OF this] obtain s1 where
    1: "skip_spaces (move (load s)) = (True, s1)" "upcoming s1 (c # r)" "same_memory (move (load s)) s1" by blast
  have room1: "room (elements_usage (normal_elements vs) + m) s1"
    using assms(5) room_same [OF same_memory_trans [OF same_memory_move_load 1(3)]] by simp
  show ?thesis
  proof (cases "vs = []")
    case True
    then have "c = CHR '']''" "r = t" by (simp_all add: c_def r_def)
    with eat_upcoming(1) [OF 1(2)] 1(1) room1 True show ?thesis
      by (auto simp: parse_array_def room_same)
  next
    case False
    then have ne: "CHR '']'' \<noteq> c" using c by auto
    have u1: "upcoming (load s1) (elements_text vs @ CHR '']'' # t)" using 1(2) c by simp
    have "length vs \<le> Suc (ahead (load s1))"
      using upcoming_ahead [OF u1] elements_text_length [OF assms(1)] by simp
    moreover have "room (elements_usage (normal_elements vs) + m) (load s1)"
      using room1 by (simp add: room_same [OF load_sound(2)])
    ultimately show ?thesis
      using parse_elements_text [OF False assms(1-3) _ u1, of "Suc (ahead (load s1))" m sv "[]"] 1(1)
        eat_upcoming(2) [OF 1(2) ne]
      by (simp add: parse_array_def filter_element_def)
  qed
qed

lemma parse_object_text:
  assumes "plain_members ms" "variant_ok (VObject ms)" "members_nesting ms \<le> limit"
    and "upcoming s (json_text (VObject ms) @ t)" "room (members_usage (normal_members ms) + m) s"
  shows "\<exists>s'. parse_object (Some (pv, sv)) AllowAll s = (True, normal_members ms, s') \<and> upcoming s' t \<and> room m s'"
proof -
  have u0: "upcoming s (CHR ''{'' # members_text ms @ CHR ''}'' # t)" using assms(4) by simp
  note u = upcoming_move [OF u0]
  define c where "c = (if ms = [] then CHR ''}'' else QUOTE)"
  define r where "r = (if ms = [] then t else tl (members_text ms) @ CHR ''}'' # t)"
  have c: "members_text ms @ CHR ''}'' # t = c # r \<and> c \<noteq> NUL \<and> \<not> is_blank c \<and> (c = CHR ''}'') = (ms = [])"
    by (cases ms) (auto simp: c_def r_def is_blank_def string_text_def)
  then have "upcoming (move (load s)) (c # r)" "c \<noteq> NUL" "\<not> is_blank c" using u by simp_all
  from skip_spaces_solid [OF this] obtain s1 where
    1: "skip_spaces (move (load s)) = (True, s1)" "upcoming s1 (c # r)" "same_memory (move (load s)) s1" by blast
  have room1: "room (members_usage (normal_members ms) + m) s1"
    using assms(5) room_same [OF same_memory_trans [OF same_memory_move_load 1(3)]] by simp
  show ?thesis
  proof (cases "ms = []")
    case True
    then have "c = CHR ''}''" "r = t" by (simp_all add: c_def r_def)
    with eat_upcoming(1) [OF 1(2)] 1(1) room1 True show ?thesis
      by (auto simp: parse_object_def room_same)
  next
    case False
    then have ne: "CHR ''}'' \<noteq> c" using c by auto
    have u1: "upcoming (load s1) (members_text ms @ CHR ''}'' # t)" using 1(2) c by simp
    have "length ms \<le> Suc (ahead (load s1))"
      using upcoming_ahead [OF u1] members_text_length [of ms] by simp
    moreover have "room (members_usage (normal_members ms) + m) (load s1)"
      using room1 by (simp add: room_same [OF load_sound(2)])
    ultimately show ?thesis
      using parse_members_text [OF False assms(1) _ assms(3) _ _ u1, of "Suc (ahead (load s1))" "[]" m sv] 1(1)
        eat_upcoming(2) [OF 1(2) ne] assms(2)
      by (simp add: parse_object_def)
  qed
qed

end

lemma parse_leaf_text:
  assumes "plain v" "nesting v = 0" "upcoming s (json_text v @ t)" "stops t" "room (memory_usage (normal v) + m) s"
  shows "\<exists>s'. parse_value inner AllowAll VNull s = (True, normal v, s') \<and> upcoming s' t \<and> room m s'"
proof -
  obtain c r where c: "json_text v = c # r" "solid c" using json_text_solid [OF assms(1)] by blast
  then have "upcoming s (c # r @ t)" "c \<noteq> NUL" "\<not> is_blank c" using assms(3) by (simp_all add: solid_def)
  from skip_spaces_solid [OF this] obtain s1 where
    1: "skip_spaces s = (True, s1)" "upcoming s1 (c # r @ t)" "same_memory s s1" by blast
  have u: "upcoming (load s1) (json_text v @ t)" using 1(2) c by simp
  have room1: "room (memory_usage (normal v) + m) (load s1)"
    using assms(5) room_same [OF same_memory_trans [OF 1(3) load_sound(2)]] by simp
  show ?thesis
  proof (cases "\<exists>own str. v = VString own str")
    case True
    then obtain own str where v: "v = VString own str" by blast
    have "upcoming (load s1) (string_text str @ t)" "room (length str + 1 + m) (load s1)" using u room1 by (simp_all add: v)
    from string_value_text [OF this, of VNull] show ?thesis
      using 1 c upcoming_current [OF 1(2)]
      by (auto simp: v parse_value_def string_text_def is_quote_def filter_allow_value_def Let_def)
  next
    case False
    note l = leaf_text [OF assms(1,2)]
    have "can_be_in_non_quoted c" using l False c(1) by auto
    moreover have "\<not> can_be_in_non_quoted d" if "d \<in> set [CHR ''['', CHR ''{'', CHR 0x27, QUOTE]" for d
      using that by (auto simp: can_be_in_non_quoted_def is_between_def)
    ultimately have "c \<notin> set [CHR ''['', CHR ''{'', CHR 0x27, QUOTE]" by blast
    moreover obtain s2 where "parse_numeric_value VNull (load s1) = (True, normal v, s2)" "upcoming s2 t"
      "same_memory (load s1) s2"
      using numeric_value_text [OF u _ assms(4)] l False by blast
    moreover have "memory_usage (normal v) = 0" using assms(1,2) False by (cases v) auto
    ultimately show ?thesis using 1 upcoming_current [OF 1(2)] room1
      by (auto simp: parse_value_def is_quote_def filter_allow_value_def Let_def room_same)
  qed
qed

lemma parse_collection_text:
  assumes "value_reader pv n" "plain v" "variant_ok v" "nesting v \<le> Suc n" "0 < nesting v"
    and "upcoming s (json_text v @ t)" "room (memory_usage (normal v) + m) s"
  shows "\<exists>s'. parse_value (Some (pv, sv)) AllowAll VNull s = (True, normal v, s') \<and> upcoming s' t \<and> room m s'"
proof -
  obtain c r where c: "json_text v = c # r" "solid c" using json_text_solid [OF assms(2)] by blast
  then have "upcoming s (c # r @ t)" "c \<noteq> NUL" "\<not> is_blank c" using assms(6) by (simp_all add: solid_def)
  from skip_spaces_solid [OF this] obtain s1 where
    1: "skip_spaces s = (True, s1)" "upcoming s1 (c # r @ t)" "same_memory s s1" by blast
  have u: "upcoming (load s1) (json_text v @ t)" using 1(2) c by simp
  have room1: "room (memory_usage (normal v) + m) (load s1)"
    using assms(7) room_same [OF same_memory_trans [OF 1(3) load_sound(2)]] by simp
  note cur = upcoming_current [OF 1(2)]
  consider vs where "v = VArray vs" | ms where "v = VObject ms" using assms(5) by (cases v) auto
  then show ?thesis
  proof cases
    case 1: (1 vs)
    from value_reader.parse_array_text [OF assms(1), of vs "load s1" t m sv] assms(2-4) u room1
    show ?thesis using c(1) cur \<open>skip_spaces s = (True, s1)\<close>
      by (auto simp: 1 parse_value_def filter_allow_array_def Let_def)
  next
    case 2: (2 ms)
    from value_reader.parse_object_text [OF assms(1), of ms "load s1" t m sv] assms(2-4) u room1
    show ?thesis using c(1) cur \<open>skip_spaces s = (True, s1)\<close>
      by (auto simp: 2 parse_value_def filter_allow_object_def Let_def)
  qed
qed

lemma parse_variant_reads: "value_reader (parse_variant n) n"
proof (induction n)
  case 0
  show ?case by unfold_locales (simp add: parse_leaf_text)
next
  case (Suc n)
  show ?case
  proof (unfold_locales, goal_cases)
    case (1 v s t m)
    then show ?case using parse_leaf_text [of v s t m "Some (parse_variant n, skip_variant n)"]
        parse_collection_text [OF Suc, of v s t m "skip_variant n"]
      by (cases "nesting v = 0") simp_all
  qed
qed

interpretation reading: value_reader "parse_variant n" n for n
  by (rule parse_variant_reads)

section \<open>The property\<close>

lemma numeric_chars_loaded: "jp_loaded (snd (numeric_chars n s))"
  by (induction n s rule: numeric_chars.induct) (auto simp: Let_def split: prod.splits)

text \<open>A number ends where the parser has looked at the next character.\<close>

lemma parsed_number_loaded:
  assumes "parse_value inner f w s = (True, v, s')" "\<not> is_enclosed v" "is_enclosed w"
  shows "jp_loaded s'"
proof -
  obtain b s1 where sp: "skip_spaces s = (b, s1)" by (cases "skip_spaces s")
  obtain str s2 where n: "numeric_chars BUFFER_CHARS (load s1) = (str, s2)"
    by (cases "numeric_chars BUFFER_CHARS (load s1)")
  then have "jp_loaded s2" using numeric_chars_loaded [of BUFFER_CHARS "load s1"] by simp
  then show ?thesis using assms n sp
    by (auto simp: parse_value_def parse_string_value_def parse_numeric_value_def is_enclosed_def set_string_def Let_def
        split: if_splits prod.splits bool.splits option.splits storage.splits)
qed

lemma parsed_to_the_end:
  assumes "parse_variant n f VNull s = (True, v, s')" "upcoming s' []"
  shows "jp_current s' = NUL \<or> is_enclosed v"
proof (rule disjCI)
  assume "\<not> is_enclosed v"
  moreover have "is_enclosed VNull" by (simp add: is_enclosed_def)
  ultimately have "jp_loaded s'" using assms(1) parsed_number_loaded by (cases n) auto
  then show "jp_current s' = NUL" using assms(2) by (simp add: upcoming_def load_def)
qed

text \<open>C17. What \<open>serializeJson\<close> writes, \<open>deserializeJson\<close> reads back: for a value without floats
  and raw text that is well formed and no deeper than the nesting limit, and a document with the room
  \<open>memoryUsage\<close> names, it reports \<open>Ok\<close> and builds the same value, its numbers unsigned when
  they are not negative and its strings copied into the document.\<close>

theorem json_text_is_read_back:
  assumes "plain v" "variant_ok v" "nesting v \<le> limit" "doc_ok d"
    and "memory_usage (normal v) \<le> mp_capacity (jd_pool d)"
    and "serializeJson v buffer = (n, buffer')" "measureJson v \<le> length buffer"
    and "deserializeJson limit AllowAll (take n buffer') d = (e, d')"
  shows "e = Ok \<and> jd_data d' = normal v \<and> doc_ok d'"
proof -
  let ?s = "new_parser (jd_pool (json_clear d)) (json_text v)"
  have written: "take n buffer' = json_text v"
    using assms(6,7) by (auto simp: serializeJson_result terminated_def measureJson_length)
  have "upcoming ?s (json_text v @ [])" using upcoming_new by simp
  moreover have "room (memory_usage (normal v) + 0) ?s"
    using assms(4,5) by (auto simp: room_def pool_room_def json_clear_def pool_clear_def free_zone_def doc_ok_def pool_ok_def)
  ultimately obtain s' where
    p: "parse_variant limit AllowAll VNull ?s = (True, normal v, s')" and u: "upcoming s' []"
    using reading.reads [OF assms(1-3), of ?s "[]" 0] by (auto simp: stops_def)
  have step: "value_step (Suc limit) True VNull ?s (normal v) s'" by (rule nested.pv_step [OF p]) simp
  then have ok: "jp_error s' = Ok" by (simp add: value_step_def sound_def)
  have "jp_current s' = NUL \<or> is_enclosed (normal v)"
    using parsed_to_the_end [OF p u] by blast
  with ok have "deserializeJson limit AllowAll (json_text v) d = (Ok, d\<lparr>jd_pool := jp_pool s', jd_data := normal v\<rparr>)"
    by (auto simp: deserializeJson_def parse_def p)
  then have "e = Ok" "d' = d\<lparr>jd_pool := jp_pool s', jd_data := normal v\<rparr>" using assms(8) written by simp_all
  then show ?thesis using step doc_ok_clear [OF assms(4)]
    by (auto simp: value_step_def sound_def doc_ok_def json_clear_def pool_clear_def)
qed

definition sample_value :: variant where
  "sample_value =
     VObject [((Linked, ''name''), VString Linked [QUOTE, BACKSLASH, CHR 0x0A, NUL, CHR ''/'']),
              ((Copied, ''ids''), VArray [VInt 17, VInt (- 2), VNull, VBool True, VArray []])]"

theorem json_text_is_read_back_witness:
  "jd_data (snd (deserializeJson 3 AllowAll
       (take (fst (serializeJson sample_value (replicate 64 NUL))) (snd (serializeJson sample_value (replicate 64 NUL))))
       (new_document True 200))) =
   VObject [((Copied, ''name''), VString Copied [QUOTE, BACKSLASH, CHR 0x0A, NUL, CHR ''/'']),
            ((Copied, ''ids''), VArray [VUInt 17, VInt (- 2), VNull, VBool True, VArray []])]"
proof -
  obtain n b where 1: "serializeJson sample_value (replicate 64 NUL) = (n, b)" by fastforce
  obtain e d' where 2: "deserializeJson 3 AllowAll (take n b) (new_document True 200) = (e, d')" by fastforce
  have "plain sample_value" "variant_ok sample_value" "nesting sample_value \<le> 3"
    "memory_usage (normal sample_value) \<le> mp_capacity (jd_pool (new_document True 200))"
    "measureJson sample_value \<le> length (replicate 64 NUL)"
    by code_simp+
  from json_text_is_read_back [OF this(1-3) new_document_ok this(4) 1 this(5) 2]
  have "jd_data d' = normal sample_value" by blast
  moreover have "normal sample_value =
     VObject [((Copied, ''name''), VString Copied [QUOTE, BACKSLASH, CHR 0x0A, NUL, CHR ''/'']),
              ((Copied, ''ids''), VArray [VUInt 17, VInt (- 2), VNull, VBool True, VArray []])]"
    by code_simp
  ultimately show ?thesis by (simp add: 1 2)
qed

end
