(* ===== verification/Json_Compare.thy ===== *)
theory Json_Compare
  imports Json_Deserializer
begin

text \<open>
  \<open>ArduinoJson.h\<close>: comparisons of values (\<open>compare\<close>, \<open>Comparer\<close>, \<open>arithmeticCompare\<close>,
  \<open>equalsArray\<close>, \<open>equalsObject\<close>). A comparer holds the right side and visits the left one; for two
  variants the left side is turned into a comparer in its turn, visits the right one, and the result is
  reversed. A null pointer to a value is \<open>None\<close>.

  The lemmas show that two values compare as equal exactly when they mean the same (\<open>meaning\<close>, where
  objects are maps) once booleans are counted as 1 and 0 (\<open>bool_as_int\<close>); what is left out there
  (floats, raw text, NULs in strings, members that are null) is where the code does something else,
  and examples show it.
\<close>

section \<open>Scalars\<close>

datatype compare_result = DIFFER | EQUAL | GREATER | LESS

fun result_code :: "compare_result \<Rightarrow> u8" where
  "result_code DIFFER = 0"
| "result_code EQUAL = 1"
| "result_code GREATER = 2"
| "result_code LESS = 4"

definition GREATER_OR_EQUAL :: u8 where "GREATER_OR_EQUAL = 3"
definition LESS_OR_EQUAL :: u8 where "LESS_OR_EQUAL = 5"

text \<open>\<open>arithmeticCompare\<close> of one type, and its overloads for two.\<close>

definition arithmetic_compare :: "('a \<Rightarrow> 'a \<Rightarrow> bool) \<Rightarrow> 'a \<Rightarrow> 'a \<Rightarrow> compare_result" where
  "arithmetic_compare lt lhs rhs =
     (if lt lhs rhs then LESS else if lt rhs lhs then GREATER else EQUAL)"

definition unsigned_of_bool :: "bool \<Rightarrow> u64" where
  "unsigned_of_bool b = (if b then 1 else 0)"

fun compare_numbers :: "variant \<Rightarrow> variant \<Rightarrow> compare_result" where
  "compare_numbers (VBool a) (VFloat b) = arithmetic_compare f64_less (as_float_number (VUInt (unsigned_of_bool a))) b"
| "compare_numbers (VBool a) (VInt b) =
     (if b <s 0 then GREATER else arithmetic_compare (<) (unsigned_of_bool a) b)"
| "compare_numbers (VBool a) (VUInt b) = arithmetic_compare (<) (unsigned_of_bool a) b"
| "compare_numbers (VBool a) (VBool b) = arithmetic_compare (<) (unsigned_of_bool a) (unsigned_of_bool b)"
| "compare_numbers (VUInt a) (VFloat b) = arithmetic_compare f64_less (as_float_number (VUInt a)) b"
| "compare_numbers (VUInt a) (VInt b) = (if b <s 0 then GREATER else arithmetic_compare (<) a b)"
| "compare_numbers (VUInt a) (VUInt b) = arithmetic_compare (<) a b"
| "compare_numbers (VUInt a) (VBool b) = arithmetic_compare (<) a (unsigned_of_bool b)"
| "compare_numbers (VInt a) (VFloat b) = arithmetic_compare f64_less (as_float_number (VInt a)) b"
| "compare_numbers (VInt a) (VInt b) = arithmetic_compare word_sless a b"
| "compare_numbers (VInt a) (VUInt b) = (if a <s 0 then LESS else arithmetic_compare (<) a b)"
| "compare_numbers (VInt a) (VBool b) = arithmetic_compare word_sless a (unsigned_of_bool b)"
| "compare_numbers (VFloat a) (VFloat b) = arithmetic_compare f64_less a b"
| "compare_numbers (VFloat a) (VInt b) = arithmetic_compare f64_less a (as_float_number (VInt b))"
| "compare_numbers (VFloat a) (VUInt b) = arithmetic_compare f64_less a (as_float_number (VUInt b))"
| "compare_numbers (VFloat a) (VBool b) = arithmetic_compare f64_less a (as_float_number (VBool b))"
| "compare_numbers _ _ = DIFFER"

text \<open>\<open>stringCompare\<close>: characters are unsigned on ARM.\<close>

fun string_compare :: "string \<Rightarrow> string \<Rightarrow> int" where
  "string_compare (a # s) (b # t) =
     (if a \<noteq> b then of_char a - of_char b else string_compare s t)"
| "string_compare [] (b # t) = -1"
| "string_compare (a # s) [] = 1"
| "string_compare [] [] = 0"

definition compare_string :: "string \<Rightarrow> variant option \<Rightarrow> compare_result" where
  "compare_string rhs lhs =
     (case lhs of
        Some (VString own s) \<Rightarrow>
          (let i = string_compare (c_str rhs) s in if i < 0 then GREATER else if i > 0 then LESS else EQUAL)
      | _ \<Rightarrow> DIFFER)"

definition compare_raw :: "string \<Rightarrow> variant option \<Rightarrow> compare_result" where
  "compare_raw rhs lhs =
     (case lhs of
        Some (VRaw own s) \<Rightarrow>
          (let n = min (length rhs) (length s); i = string_compare (take n s) (take n rhs)
           in if i < 0 then LESS else if i > 0 then GREATER else EQUAL)
      | _ \<Rightarrow> DIFFER)"

definition compare_null :: "variant option \<Rightarrow> compare_result" where
  "compare_null lhs = (if lhs = None \<or> lhs = Some VNull then EQUAL else DIFFER)"

definition compare_number :: "variant \<Rightarrow> variant option \<Rightarrow> compare_result" where
  "compare_number rhs lhs = (case lhs of None \<Rightarrow> DIFFER | Some v \<Rightarrow> compare_numbers v rhs)"

text \<open>The operators between a variant and a C++ value \<open>t\<close> (a number, a \<open>bool\<close>, a C string, a null
  pointer as \<open>VNull\<close>), with the variant on the left, and with the variant on the right.\<close>

definition compare_with :: "variant \<Rightarrow> variant option \<Rightarrow> compare_result" where
  "compare_with rhs lhs =
     (case rhs of VNull \<Rightarrow> compare_null lhs | VString own s \<Rightarrow> compare_string s lhs | _ \<Rightarrow> compare_number rhs lhs)"

definition op_eq :: "variant option \<Rightarrow> variant \<Rightarrow> bool" where
  "op_eq lhs t \<longleftrightarrow> compare_with t lhs = EQUAL"

definition op_ne :: "variant option \<Rightarrow> variant \<Rightarrow> bool" where
  "op_ne lhs t \<longleftrightarrow> compare_with t lhs \<noteq> EQUAL"

definition op_less :: "variant option \<Rightarrow> variant \<Rightarrow> bool" where
  "op_less lhs t \<longleftrightarrow> compare_with t lhs = LESS"

definition op_le :: "variant option \<Rightarrow> variant \<Rightarrow> bool" where
  "op_le lhs t \<longleftrightarrow> result_code (compare_with t lhs) AND LESS_OR_EQUAL \<noteq> 0"

definition op_greater :: "variant option \<Rightarrow> variant \<Rightarrow> bool" where
  "op_greater lhs t \<longleftrightarrow> compare_with t lhs = GREATER"

definition op_ge :: "variant option \<Rightarrow> variant \<Rightarrow> bool" where
  "op_ge lhs t \<longleftrightarrow> result_code (compare_with t lhs) AND GREATER_OR_EQUAL \<noteq> 0"

definition value_less :: "variant \<Rightarrow> variant option \<Rightarrow> bool" where
  "value_less t rhs \<longleftrightarrow> compare_with t rhs = GREATER"

definition value_le :: "variant \<Rightarrow> variant option \<Rightarrow> bool" where
  "value_le t rhs \<longleftrightarrow> result_code (compare_with t rhs) AND GREATER_OR_EQUAL \<noteq> 0"

definition value_greater :: "variant \<Rightarrow> variant option \<Rightarrow> bool" where
  "value_greater t rhs \<longleftrightarrow> compare_with t rhs = LESS"

definition value_ge :: "variant \<Rightarrow> variant option \<Rightarrow> bool" where
  "value_ge t rhs \<longleftrightarrow> result_code (compare_with t rhs) AND LESS_OR_EQUAL \<noteq> 0"

text \<open>\<open>variant | default\<close>, for strings and integers.\<close>

definition string_or :: "variant \<Rightarrow> stored_string \<Rightarrow> stored_string" where
  "string_or v d = (case as_string v of Some s \<Rightarrow> s | None \<Rightarrow> d)"

definition integer_or :: "int_type \<Rightarrow> variant \<Rightarrow> int \<Rightarrow> int" where
  "integer_or t v d = (if is_integer t v then as_integral t v else d)"

text \<open>The comparer of a variant, for every value but the collections: what the left side makes of
  the right one, reversed.\<close>

fun reversed :: "compare_result \<Rightarrow> compare_result" where
  "reversed GREATER = LESS"
| "reversed LESS = GREATER"
| "reversed r = r"

definition compare_scalar :: "variant option \<Rightarrow> variant option \<Rightarrow> compare_result" where
  "compare_scalar lhs rhs =
     reversed
       (case lhs of
          None \<Rightarrow> compare_null rhs
        | Some VNull \<Rightarrow> compare_null rhs
        | Some (VString own s) \<Rightarrow> compare_string s rhs
        | Some (VRaw own s) \<Rightarrow> compare_raw s rhs
        | Some (VArray vs) \<Rightarrow> DIFFER
        | Some (VObject ms) \<Rightarrow> DIFFER
        | Some v \<Rightarrow> compare_number v rhs)"

section \<open>Collections\<close>

fun weight :: "variant \<Rightarrow> nat"
  and elements_weight :: "variant list \<Rightarrow> nat"
  and members_weight :: "slot list \<Rightarrow> nat" where
  "weight (VArray vs) = Suc (elements_weight vs)"
| "weight (VObject ms) = Suc (members_weight ms)"
| "weight v = 1"
| "elements_weight [] = 0"
| "elements_weight (v # vs) = Suc (weight v + elements_weight vs)"
| "members_weight [] = 0"
| "members_weight ((k, v) # ms) = Suc (weight v + members_weight ms)"

lemma lookup_weight: "lookup k ms = Some v \<Longrightarrow> weight v < members_weight ms"
  by (induction ms) (auto simp: lookup_Cons split: if_splits)

lemma lookup_weight_option: "(case lookup k ms of None \<Rightarrow> 0 | Some v \<Rightarrow> weight v) \<le> members_weight ms"
  using lookup_weight [of k ms] by (auto split: option.splits dest: less_imp_le)

text \<open>\<open>equalsArray\<close> and \<open>equalsObject\<close> take the object they are called on first.\<close>

function compare :: "variant option \<Rightarrow> variant option \<Rightarrow> compare_result"
  and equals_array :: "variant list \<Rightarrow> variant list \<Rightarrow> bool"
  and equals_object :: "slot list \<Rightarrow> nat \<Rightarrow> slot list \<Rightarrow> bool" where
  "compare lhs rhs =
     (case (lhs, rhs) of
        (Some (VArray vs), Some (VArray ws)) \<Rightarrow> (if equals_array ws vs then EQUAL else DIFFER)
      | (Some (VObject ms), Some (VObject ns)) \<Rightarrow> (if equals_object ns 0 ms then EQUAL else DIFFER)
      | _ \<Rightarrow> compare_scalar lhs rhs)"
| "equals_array [] other = (other = [])"
| "equals_array (v # vs) other =
     (case other of
        [] \<Rightarrow> False
      | w # ws \<Rightarrow> compare (Some v) (Some w) = EQUAL \<and> equals_array vs ws)"
| "equals_object [] count other = (count = length other)"
| "equals_object (s # ms) count other =
     (compare (Some (slot_data s)) (lookup (slot_key s) other) = EQUAL \<and> equals_object ms (count + 1) other)"
  by pat_completeness auto
termination
proof (relation "measure (\<lambda>x. case x of
    Inl (l, r) \<Rightarrow> (case l of None \<Rightarrow> 0 | Some v \<Rightarrow> weight v) + (case r of None \<Rightarrow> 0 | Some v \<Rightarrow> weight v)
  | Inr (Inl (vs, ws)) \<Rightarrow> elements_weight vs + elements_weight ws
  | Inr (Inr (ms, n, ns)) \<Rightarrow> members_weight ms + members_weight ns)", goal_cases)
  case (6 s ms n other)
  then show ?case using lookup_weight_option [of "slot_key s" other] by (cases s) simp
next
  case (7 s ms n other)
  then show ?case by (cases s) simp
qed (auto dest: sym)

declare compare.simps [simp del] equals_object.simps [simp del]

section \<open>What a value means\<close>

text \<open>Each kind of value has a meaning of its own kind: numbers are mathematical integers or the bits of a
  \<open>double\<close>, objects are maps.\<close>

datatype json = JNull | JBool bool | JInt int | JFloat f64 | JString string | JRaw string
  | JArray "json list" | JObject "string \<Rightarrow> json option"

fun meaning :: "variant \<Rightarrow> json"
  and elements_meaning :: "variant list \<Rightarrow> json list"
  and members_meaning :: "slot list \<Rightarrow> string \<Rightarrow> json option" where
  "meaning VNull = JNull"
| "meaning (VBool b) = JBool b"
| "meaning (VUInt n) = JInt (uint n)"
| "meaning (VInt n) = JInt (sint n)"
| "meaning (VFloat f) = JFloat f"
| "meaning (VString own s) = JString s"
| "meaning (VRaw own s) = JRaw s"
| "meaning (VArray vs) = JArray (elements_meaning vs)"
| "meaning (VObject ms) = JObject (members_meaning ms)"
| "elements_meaning [] = []"
| "elements_meaning (v # vs) = meaning v # elements_meaning vs"
| "members_meaning [] = Map.empty"
| "members_meaning ((k, v) # ms) = (members_meaning ms)(snd k \<mapsto> meaning v)"

text \<open>As in C++, \<open>true\<close> and \<open>false\<close> count as 1 and 0 where values are compared, at any depth.\<close>

primrec bool_as_int :: "json \<Rightarrow> json" where
  "bool_as_int JNull = JNull"
| "bool_as_int (JBool b) = JInt (if b then 1 else 0)"
| "bool_as_int (JInt i) = JInt i"
| "bool_as_int (JFloat f) = JFloat f"
| "bool_as_int (JString s) = JString s"
| "bool_as_int (JRaw s) = JRaw s"
| "bool_as_int (JArray js) = JArray (map bool_as_int js)"
| "bool_as_int (JObject f) = JObject (map_option bool_as_int \<circ> f)"

text \<open>The meaning under this reading.\<close>

fun reading :: "variant \<Rightarrow> json"
  and elements_reading :: "variant list \<Rightarrow> json list"
  and members_reading :: "slot list \<Rightarrow> string \<Rightarrow> json option" where
  "reading VNull = JNull"
| "reading (VBool b) = JInt (if b then 1 else 0)"
| "reading (VUInt n) = JInt (uint n)"
| "reading (VInt n) = JInt (sint n)"
| "reading (VFloat f) = JFloat f"
| "reading (VString own s) = JString s"
| "reading (VRaw own s) = JRaw s"
| "reading (VArray vs) = JArray (elements_reading vs)"
| "reading (VObject ms) = JObject (members_reading ms)"
| "elements_reading [] = []"
| "elements_reading (v # vs) = reading v # elements_reading vs"
| "members_reading [] = Map.empty"
| "members_reading ((k, v) # ms) = (members_reading ms)(snd k \<mapsto> reading v)"

lemma reading_meaning:
  "reading v = bool_as_int (meaning v)"
  "elements_reading vs = map bool_as_int (elements_meaning vs)"
  "members_reading ms = map_option bool_as_int \<circ> members_meaning ms"
  by (induction v and vs and ms rule: meaning_elements_meaning_members_meaning.induct) (auto simp: fun_eq_iff)

fun comparable :: "variant \<Rightarrow> bool"
  and elements_comparable :: "variant list \<Rightarrow> bool"
  and members_comparable :: "slot list \<Rightarrow> bool" where
  "comparable (VFloat f) = False"
| "comparable (VRaw own s) = False"
| "comparable (VString own s) = (NUL \<notin> set s)"
| "comparable (VArray vs) = elements_comparable vs"
| "comparable (VObject ms) = (members_comparable ms \<and> distinct (map slot_key ms))"
| "comparable v = True"
| "elements_comparable [] = True"
| "elements_comparable (v # vs) = (comparable v \<and> elements_comparable vs)"
| "members_comparable [] = True"
| "members_comparable ((k, v) # ms) = (v \<noteq> VNull \<and> comparable v \<and> members_comparable ms)"

lemma reversed_EQUAL [simp]: "reversed r = EQUAL \<longleftrightarrow> r = EQUAL"
  by (cases r) simp_all

lemma string_compare_zero [simp]: "string_compare s t = 0 \<longleftrightarrow> s = t"
  by (induction s t rule: string_compare.induct) auto

lemma string_compare_same [simp]: "string_compare s s = 0"
  by simp

lemma arithmetic_EQUAL [simp]: "arithmetic_compare (<) i j = EQUAL \<longleftrightarrow> i = (j :: int)"
  by (auto simp: arithmetic_compare_def)

lemma reversed_arithmetic [simp]: "reversed (arithmetic_compare (<) i j) = arithmetic_compare (<) j (i :: int)"
  by (auto simp: arithmetic_compare_def)

lemma unsigned_order: "arithmetic_compare (<) a b = arithmetic_compare (<) (uint a) (uint b)"
  for a b :: u64
  by (simp add: arithmetic_compare_def word_less_def)

lemma signed_order: "arithmetic_compare word_sless a b = arithmetic_compare (<) (sint a) (sint b)"
  by (simp add: arithmetic_compare_def word_sless_alt)

lemma uint_of_bool [simp]: "uint (unsigned_of_bool b) = (if b then 1 else 0)"
  "sint (unsigned_of_bool b) = (if b then 1 else 0)"
  by (simp_all add: unsigned_of_bool_def)

lemma mixed_order:
  fixes a b :: u64
  shows "(if b <s 0 then GREATER else arithmetic_compare (<) a b) = arithmetic_compare (<) (uint a) (sint b)"
    and "(if b <s 0 then LESS else arithmetic_compare (<) b a) = arithmetic_compare (<) (sint b) (uint a)"
proof -
  have "sint b < uint a \<and> \<not> uint a < sint b" if "b <s 0" using sint_negative [OF that] uint_ge_0 [of a] by linarith
  then show "(if b <s 0 then GREATER else arithmetic_compare (<) a b) = arithmetic_compare (<) (uint a) (sint b)"
    "(if b <s 0 then LESS else arithmetic_compare (<) b a) = arithmetic_compare (<) (sint b) (uint a)"
    using sint_nonneg [of b] by (auto simp: arithmetic_compare_def word_less_def)
qed

definition is_number :: "variant \<Rightarrow> bool" where
  "is_number v \<longleftrightarrow> (\<exists>n. reading v = JInt n)"

lemma compare_numbers_order:
  "reading v = JInt i \<Longrightarrow> reading w = JInt j \<Longrightarrow> compare_numbers v w = arithmetic_compare (<) i j"
  by (cases v; cases w) (auto simp: mixed_order unsigned_order signed_order simp del: if_split)

lemma compare_numbers_meaning:
  assumes "comparable v" "comparable w"
  shows "compare_numbers v w = EQUAL \<longleftrightarrow> is_number v \<and> reading v = reading w"
proof (cases "is_number v \<and> is_number w")
  case True
  then obtain i j where "reading v = JInt i" "reading w = JInt j" by (auto simp: is_number_def)
  with compare_numbers_order [OF this] show ?thesis by (simp add: is_number_def)
next
  case False
  then show ?thesis using assms by (cases v; cases w) (auto simp: is_number_def)
qed

lemma string_compare_lexord:
  "string_compare s t < 0 \<longleftrightarrow> (s, t) \<in> lexord {(a, b). (of_char a :: int) < of_char b}"
  by (induction s t rule: string_compare.induct) auto

lemma sign_EQUAL:
  "(if i < 0 then GREATER else if i > 0 then LESS else EQUAL) = EQUAL \<longleftrightarrow> i = (0 :: int)"
  by auto

lemma compare_scalar_meaning:
  assumes "comparable v" "comparable w" "\<not> is_collection v \<or> \<not> is_collection w"
  shows "compare_scalar (Some v) (Some w) = EQUAL \<longleftrightarrow> reading v = reading w"
proof -
  have num: "compare_numbers w v = EQUAL \<longleftrightarrow> is_number w \<and> reading w = reading v"
    by (rule compare_numbers_meaning [OF assms(2,1)])
  show ?thesis using assms num
    by (cases v; cases w)
      (auto simp: compare_scalar_def compare_null_def compare_number_def compare_string_def compare_raw_def
        is_number_def Let_def sign_EQUAL simp del: if_split compare_numbers.simps)
qed

section \<open>Objects are maps\<close>

lemma members_reading_lookup: "members_reading ms k = map_option reading (lookup k ms)"
  by (induction ms) (auto simp: lookup_Cons)

lemma lookup_slot: "distinct (map slot_key ms) \<Longrightarrow> s \<in> set ms \<Longrightarrow> lookup (slot_key s) ms = Some (slot_data s)"
  unfolding lookup_map_of by (rule map_of_is_SomeI) (auto simp: o_def)

lemma lookup_in: "lookup k ms = Some v \<Longrightarrow> \<exists>s\<in>set ms. slot_key s = k \<and> slot_data s = v"
  by (induction ms) (auto simp: lookup_Cons split: if_splits)

lemma lookup_comparable: "lookup k ms = Some v \<Longrightarrow> members_comparable ms \<Longrightarrow> comparable v"
  by (induction ms) (auto simp: lookup_Cons split: if_splits)

text \<open>What \<open>equalsObject\<close> looks at.\<close>

definition members_match :: "slot list \<Rightarrow> slot list \<Rightarrow> bool" where
  "members_match ms ns \<longleftrightarrow>
     (\<forall>s\<in>set ms. members_reading ns (slot_key s) = Some (reading (slot_data s)))"

lemma dom_members: "dom (members_reading ms) = slot_key ` set ms"
proof (induction ms)
  case (Cons s ms)
  have "members_reading (s # ms) = (members_reading ms)(slot_key s \<mapsto> reading (slot_data s))" by (cases s) simp
  then show ?case by (simp only: dom_fun_upd Cons) simp
qed simp

lemma members_match_iff:
  assumes "distinct (map slot_key ms)" "distinct (map slot_key ns)"
  shows "members_match ms ns \<and> length ms = length ns \<longleftrightarrow> members_reading ms = members_reading ns"
proof
  assume m: "members_match ms ns \<and> length ms = length ns"
  have "card (slot_key ` set ms) = card (slot_key ` set ns)"
    using assms m distinct_card [OF assms(1)] distinct_card [OF assms(2)] by simp
  moreover have "slot_key ` set ms \<subseteq> slot_key ` set ns"
  proof (rule image_subsetI)
    fix s assume "s \<in> set ms"
    then have "slot_key s \<in> dom (members_reading ns)" using m by (simp add: members_match_def domIff)
    then show "slot_key s \<in> slot_key ` set ns" by (simp only: dom_members)
  qed
  ultimately have same: "slot_key ` set ms = slot_key ` set ns"
    by (intro card_subset_eq) simp_all
  show "members_reading ms = members_reading ns"
  proof
    fix k
    show "members_reading ms k = members_reading ns k"
    proof (cases "k \<in> slot_key ` set ms")
      case True
      then obtain s where "s \<in> set ms" "k = slot_key s" by blast
      then show ?thesis using m lookup_slot [OF assms(1)]
        by (simp add: members_match_def members_reading_lookup [of ms])
    next
      case False
      then have "k \<notin> dom (members_reading ms)" "k \<notin> dom (members_reading ns)" using same unfolding dom_members by simp_all
      then show ?thesis by (simp add: domIff)
    qed
  qed
next
  assume e: "members_reading ms = members_reading ns"
  then have "slot_key ` set ms = slot_key ` set ns" by (simp only: dom_members [symmetric])
  then have "length ms = length ns"
    using distinct_card [OF assms(1)] distinct_card [OF assms(2)] by simp
  moreover have "members_match ms ns"
    unfolding members_match_def e [symmetric] using lookup_slot [OF assms(1)] by (simp add: members_reading_lookup)
  ultimately show "members_match ms ns \<and> length ms = length ns" by blast
qed

lemma compare_None: "comparable v \<Longrightarrow> v \<noteq> VNull \<Longrightarrow> compare (Some v) None \<noteq> EQUAL"
  by (cases v) (simp_all add: compare.simps compare_scalar_def compare_null_def compare_number_def
      compare_string_def)

lemma compare_meaning:
  "(\<And>v w. l = Some v \<Longrightarrow> r = Some w \<Longrightarrow> comparable v \<Longrightarrow> comparable w \<Longrightarrow>
     compare l r = EQUAL \<longleftrightarrow> reading v = reading w)"
  "elements_comparable vs \<Longrightarrow> elements_comparable ws \<Longrightarrow>
     equals_array vs ws \<longleftrightarrow> elements_reading vs = elements_reading ws"
  "members_comparable ms \<Longrightarrow> members_comparable ns \<Longrightarrow>
     equals_object ms n ns \<longleftrightarrow> members_match ms ns \<and> n + length ms = length ns"
proof (induction l r and vs ws and ms n ns rule: compare_equals_array_equals_object.induct)
  case (1 lhs rhs)
  consider (arrays) vs ws where "v = VArray vs" "w = VArray ws"
    | (objects) ms ns where "v = VObject ms" "w = VObject ns"
    | (scalars) "compare (Some v) (Some w) = compare_scalar (Some v) (Some w)" "\<not> is_collection v \<or> \<not> is_collection w"
    | (mixed) "compare (Some v) (Some w) = compare_scalar (Some v) (Some w)" "is_array v \<noteq> is_array w"
    by (cases v; cases w) (auto simp: compare.simps)
  then show ?case
  proof cases
    case arrays
    then have "equals_array ws vs \<longleftrightarrow> elements_reading ws = elements_reading vs"
      using 1 by (intro "1.IH"(1)) auto
    then show ?thesis using 1(3,4) arrays by (auto simp: compare.simps)
  next
    case objects
    then have "equals_object ns 0 ms \<longleftrightarrow> members_match ns ms \<and> 0 + length ns = length ms"
      using 1 by (intro "1.IH"(2)) auto
    then show ?thesis using 1(3-) objects members_match_iff [of ns ms] by (auto simp: compare.simps)
  next
    case scalars
    then show ?thesis using 1(3-) compare_scalar_meaning [of v w] by simp
  next
    case mixed
    then show ?thesis using 1(3-)
      by (cases v; cases w) (auto simp: compare_scalar_def compare_null_def compare_number_def compare_string_def)
  qed
next
  case (2 other)
  then show ?case by (cases other) auto
next
  case (3 v vs other)
  then show ?case by (cases other) auto
next
  case (4 count other)
  then show ?case by (auto simp: equals_object.simps members_match_def)
next
  case (5 s ms count other)
  obtain k v where s: "s = (k, v)" by (cases s)
  have v: "comparable v" "v \<noteq> VNull" "members_comparable ms" using 5(3) by (auto simp: s)
  have "compare (Some v) (lookup (snd k) other) = EQUAL \<longleftrightarrow> members_reading other (snd k) = Some (reading v)"
  proof (cases "lookup (snd k) other")
    case None
    then show ?thesis using compare_None [OF v(1,2)] by (simp add: members_reading_lookup)
  next
    case (Some w)
    then show ?thesis using 5(1) [of v w] lookup_comparable [OF Some 5(4)] v(1)
      by (auto simp: s members_reading_lookup)
  qed
  then show ?case using 5(2) [OF v(3) 5(4)] by (auto simp: s equals_object.simps members_match_def)
qed

section \<open>The property\<close>

text \<open>C39. For values that hold, at any depth, no float, no raw text, no NUL in a string, and in whose
  objects no member is null and no key is repeated (\<open>comparable\<close>): two values compare as equal exactly
  when they have the same meaning once \<open>true\<close> and \<open>false\<close> are counted as 1 and 0, that is the same
  integer whatever its type, the same characters, equal elements in the same order, or objects equal as
  maps; integers of either type and booleans are ordered by their value (a negative one is below
  every unsigned one), strings by their characters. Of the excluded values some do not compare
  so, as the lemmas after the theorem show.\<close>

theorem comparison_is_by_meaning:
  assumes "comparable v" "comparable w"
  shows "(compare (Some v) (Some w) = EQUAL \<longleftrightarrow> bool_as_int (meaning v) = bool_as_int (meaning w)) \<and>
    (\<forall>i j. bool_as_int (meaning v) = JInt i \<longrightarrow> bool_as_int (meaning w) = JInt j \<longrightarrow>
       compare (Some v) (Some w) = (if i < j then LESS else if j < i then GREATER else EQUAL)) \<and>
    (\<forall>s t. meaning v = JString s \<longrightarrow> meaning w = JString t \<longrightarrow>
       (compare (Some v) (Some w) = LESS \<longleftrightarrow> (s, t) \<in> lexord {(a, b). (of_char a :: int) < of_char b}))"
proof (intro conjI allI impI)
  show "compare (Some v) (Some w) = EQUAL \<longleftrightarrow> bool_as_int (meaning v) = bool_as_int (meaning w)"
    unfolding reading_meaning(1) [symmetric] by (rule compare_meaning(1) [OF refl refl assms])
next
  fix i j assume "bool_as_int (meaning v) = JInt i" "bool_as_int (meaning w) = JInt j"
  then have "reading v = JInt i" "reading w = JInt j" by (simp_all add: reading_meaning)
  then have "compare (Some v) (Some w) = arithmetic_compare (<) i j"
    using compare_numbers_order [of w j v i] assms
    by (cases v; cases w) (auto simp: compare.simps compare_scalar_def compare_number_def simp del: compare_numbers.simps)
  then show "compare (Some v) (Some w) = (if i < j then LESS else if j < i then GREATER else EQUAL)"
    by (simp add: arithmetic_compare_def)
next
  fix s t assume "meaning v = JString s" "meaning w = JString t"
  then show "compare (Some v) (Some w) = LESS \<longleftrightarrow> (s, t) \<in> lexord {(a, b). (of_char a :: int) < of_char b}"
    using assms string_compare_lexord [of s t]
    by (cases v; cases w) (auto simp: compare.simps compare_scalar_def compare_string_def Let_def)
qed

definition sample_left :: variant where
  "sample_left = VObject [((Linked, ''a''), VInt (- 1)), ((Copied, ''b''), VArray [VUInt 1, VString Linked ''x''])]"

definition sample_right :: variant where
  "sample_right = VObject [((Copied, ''b''), VArray [VBool True, VString Copied ''x'']), ((Linked, ''a''), VInt (- 1))]"

theorem comparison_is_by_meaning_witness:
  "compare (Some sample_left) (Some sample_right) = EQUAL \<and> compare (Some (VInt (- 1))) (Some (VUInt 0)) = LESS"
proof -
  have "comparable sample_left" "comparable sample_right" by code_simp+
  moreover have "bool_as_int (meaning sample_left) = bool_as_int (meaning sample_right)"
    unfolding reading_meaning(1) [symmetric] by (simp add: sample_left_def sample_right_def fun_upd_twist)
  ultimately have "compare (Some sample_left) (Some sample_right) = EQUAL"
    using comparison_is_by_meaning by blast
  moreover have "compare (Some (VInt (- 1))) (Some (VUInt 0)) = LESS"
    using comparison_is_by_meaning [of "VInt (- 1)" "VUInt 0"] by simp
  ultimately show ?thesis ..
qed

text \<open>Where the code departs from it: a member that is missing on the right counts as null, so the
  equality of objects is not even symmetric; a NaN equals every number; a string with a NUL
  differs from itself; raw texts are equal when one begins with the other.\<close>

lemma missing_member_is_null:
  "compare (Some (VObject [((Linked, ''b''), VUInt 1)])) (Some (VObject [((Linked, ''a''), VNull)])) = EQUAL"
  "compare (Some (VObject [((Linked, ''a''), VNull)])) (Some (VObject [((Linked, ''b''), VUInt 1)])) = DIFFER"
  by (simp_all add: compare.simps equals_object.simps compare_scalar_def compare_null_def compare_number_def lookup_Cons)

lemma nan_equals_numbers: "compare (Some (VFloat f64_nan)) (Some (VUInt n)) = EQUAL"
proof -
  have "decode64 f64_nan = FNan" by (simp add: decode64_def f64_nan_def fl_decode_def binary64_def)
  then show ?thesis
    by (simp add: compare.simps compare_scalar_def compare_number_def arithmetic_compare_def f64_less_def fl_less_def
        split: float_value.splits)
qed

lemma nul_string_differs: "compare (Some (VString own [NUL])) (Some (VString own [NUL])) \<noteq> EQUAL"
  by (simp add: compare.simps compare_scalar_def compare_string_def c_str_def)

lemma raw_prefix_equals: "compare (Some (VRaw own s)) (Some (VRaw own (s @ t))) = EQUAL"
  by (simp add: compare.simps compare_scalar_def compare_raw_def Let_def)

text \<open>The operators on numbers.\<close>

lemma operators_order:
  assumes "reading v = JInt i" "reading t = JInt j"
  shows "op_eq (Some v) t \<longleftrightarrow> i = j" "op_ne (Some v) t \<longleftrightarrow> i \<noteq> j" "op_less (Some v) t \<longleftrightarrow> i < j"
    "op_le (Some v) t \<longleftrightarrow> i \<le> j" "op_greater (Some v) t \<longleftrightarrow> i > j" "op_ge (Some v) t \<longleftrightarrow> i \<ge> j"
    "value_less t (Some v) \<longleftrightarrow> j < i" "value_le t (Some v) \<longleftrightarrow> j \<le> i" "value_greater t (Some v) \<longleftrightarrow> j > i"
    "value_ge t (Some v) \<longleftrightarrow> j \<ge> i"
proof -
  have "compare_with t (Some v) = compare_numbers v t"
    using assms(2) by (cases t) (simp_all add: compare_with_def compare_number_def)
  then have c: "compare_with t (Some v) = (if i < j then LESS else if j < i then GREATER else EQUAL)"
    using compare_numbers_order [OF assms] by (simp add: arithmetic_compare_def)
  show "op_eq (Some v) t \<longleftrightarrow> i = j" "op_ne (Some v) t \<longleftrightarrow> i \<noteq> j" "op_less (Some v) t \<longleftrightarrow> i < j"
    "op_le (Some v) t \<longleftrightarrow> i \<le> j" "op_greater (Some v) t \<longleftrightarrow> i > j" "op_ge (Some v) t \<longleftrightarrow> i \<ge> j"
    "value_less t (Some v) \<longleftrightarrow> j < i" "value_le t (Some v) \<longleftrightarrow> j \<le> i" "value_greater t (Some v) \<longleftrightarrow> j > i"
    "value_ge t (Some v) \<longleftrightarrow> j \<ge> i"
    by (auto simp: op_eq_def op_ne_def op_less_def op_le_def op_greater_def op_ge_def value_less_def value_le_def
        value_greater_def value_ge_def c GREATER_OR_EQUAL_def LESS_OR_EQUAL_def)
qed

text \<open>The filter of the parser asks with this comparison whether it is \<open>true\<close>.\<close>

lemma equals_true_compare: "equals_true v \<longleftrightarrow> compare_number (VBool True) v = EQUAL"
proof -
  have "n = 1 \<longleftrightarrow> uint n = 1" for n :: u64 by (simp add: word_uint_eq_iff)
  moreover have "n = 1 \<longleftrightarrow> sint n = 1" for n :: u64 using signed_word_eqI [of n 1] by auto
  ultimately show ?thesis
    by (cases v; cases "the v")
      (auto simp: equals_true_def compare_number_def unsigned_order signed_order as_float_number_def
        arithmetic_compare_def [of f64_less])
qed

end
