(* ===== verification/Json_References.thy ===== *)
theory Json_References
  imports Json_Compare Json_Serializer
begin

text \<open>
  \<open>ArduinoJson.h\<close>: \<open>VariantRef\<close>, \<open>ArrayRef\<close>, \<open>ObjectRef\<close> and their const versions, the
  iterators, \<open>Converter\<close>, \<open>copyArray\<close>, and the constructors and assignments of documents that
  take a reference.

  A reference is a pointer to a value of its document. In the model it is the position of the value in
  the tree, \<open>None\<close> for the null pointer, so a position is meaningful until something before it is removed.
  An operation of a reference returns the document it leaves. The lemmas show that every operation keeps the document in its memory, and what loops over a collection,
  copied arrays and assigned values give.
\<close>

section \<open>References\<close>

type_synonym vref = "nat list option"

text \<open>The value behind the pointer.\<close>

definition deref :: "vref \<Rightarrow> json_document \<Rightarrow> variant option" where
  "deref r d = Option.bind r (\<lambda>pos. locate pos (jd_data d))"

text \<open>An operation on the value behind the pointer: nothing happens behind a null pointer. The first
  component of its result is the slot it returns a pointer to.\<close>

definition on_ref ::
    "(variant \<Rightarrow> memory_pool \<Rightarrow> nat option \<times> variant \<times> memory_pool) \<Rightarrow> vref \<Rightarrow> json_document \<Rightarrow> vref \<times> json_document" where
  "on_ref f r d =
     (case (r, deref r d) of
        (Some pos, Some v) \<Rightarrow>
          (let (i, v', p) = f v (jd_pool d)
           in (map_option (\<lambda>i. pos @ [i]) i, \<lparr>jd_pool = p, jd_data = put_at pos v' (jd_data d)\<rparr>))
      | _ \<Rightarrow> (None, d))"

subsection \<open>\<open>VariantRef\<close>\<close>

definition ref_is_unbound :: "vref \<Rightarrow> bool" where
  "ref_is_unbound r \<longleftrightarrow> r = None"

definition ref_is_null :: "vref \<Rightarrow> json_document \<Rightarrow> bool" where
  "ref_is_null r d = (case deref r d of None \<Rightarrow> True | Some v \<Rightarrow> is_null v)"

definition ref_size :: "vref \<Rightarrow> json_document \<Rightarrow> nat" where
  "ref_size r d = (case deref r d of None \<Rightarrow> 0 | Some v \<Rightarrow> variant_size v)"

definition ref_memory_usage :: "vref \<Rightarrow> json_document \<Rightarrow> nat" where
  "ref_memory_usage r d = (case deref r d of None \<Rightarrow> 0 | Some v \<Rightarrow> memory_usage v)"

definition ref_nesting :: "vref \<Rightarrow> json_document \<Rightarrow> nat" where
  "ref_nesting r d = (case deref r d of None \<Rightarrow> 0 | Some v \<Rightarrow> nesting v)"

definition ref_accept :: "'w writer \<Rightarrow> vref \<Rightarrow> json_document \<Rightarrow> 'w \<times> nat \<Rightarrow> 'w \<times> nat" where
  "ref_accept w r d = visit w (case deref r d of None \<Rightarrow> VNull | Some v \<Rightarrow> v)"

definition ref_get_element :: "nat \<Rightarrow> vref \<Rightarrow> json_document \<Rightarrow> vref" where
  "ref_get_element n r d =
     (case (r, deref r d) of
        (Some pos, Some (VArray vs)) \<Rightarrow> map_option (\<lambda>i. pos @ [i]) (get_element n vs)
      | _ \<Rightarrow> None)"

definition ref_get_member :: "string option \<Rightarrow> vref \<Rightarrow> json_document \<Rightarrow> vref" where
  "ref_get_member k r d =
     (case (r, deref r d) of
        (Some pos, Some (VObject ms)) \<Rightarrow> map_option (\<lambda>i. pos @ [i]) (get_member k ms)
      | _ \<Rightarrow> None)"

definition ref_contains_key :: "string option \<Rightarrow> vref \<Rightarrow> json_document \<Rightarrow> bool" where
  "ref_contains_key k r d \<longleftrightarrow> \<not> ref_is_unbound (ref_get_member k r d)"

definition ref_add_element :: "vref \<Rightarrow> json_document \<Rightarrow> vref \<times> json_document" where
  "ref_add_element = on_ref variant_add_element"

definition ref_get_or_add_element :: "nat \<Rightarrow> vref \<Rightarrow> json_document \<Rightarrow> vref \<times> json_document" where
  "ref_get_or_add_element n = on_ref (variant_get_or_add_element n)"

definition ref_get_or_add_member ::
    "storage \<Rightarrow> string option \<Rightarrow> vref \<Rightarrow> json_document \<Rightarrow> vref \<times> json_document" where
  "ref_get_or_add_member pol k = on_ref (variant_get_or_add_member pol k)"

definition ref_clear :: "vref \<Rightarrow> json_document \<Rightarrow> json_document" where
  "ref_clear r d = snd (on_ref (\<lambda>v p. (None, VNull, p)) r d)"

definition ref_remove_element :: "nat \<Rightarrow> vref \<Rightarrow> json_document \<Rightarrow> json_document" where
  "ref_remove_element n r d = snd (on_ref (\<lambda>v p. (None, remove_element n v, p)) r d)"

definition ref_remove_member :: "string option \<Rightarrow> vref \<Rightarrow> json_document \<Rightarrow> json_document" where
  "ref_remove_member k r d = snd (on_ref (\<lambda>v p. (None, remove_member k v, p)) r d)"

text \<open>\<open>set\<close> answers whether the pool has overflowed, whatever became of the value.\<close>

definition ref_set :: "json_src \<Rightarrow> vref \<Rightarrow> json_document \<Rightarrow> bool \<times> json_document" where
  "ref_set src r d =
     (let d' = snd (on_ref (\<lambda>v p. (None, convert_to_json src p)) r d)
      in (\<not> json_overflowed d', d'))"

text \<open>\<open>variantCopyFrom\<close>, the value of another document (\<open>None\<close>: a null pointer).\<close>

definition ref_copy :: "variant option \<Rightarrow> vref \<Rightarrow> json_document \<Rightarrow> bool \<times> json_document" where
  "ref_copy src r d =
     (let d' = snd (on_ref (\<lambda>v p. (None, (case src of None \<Rightarrow> (VNull, p) | Some w \<Rightarrow> snd (copy_from w p)))) r d)
      in (\<not> json_overflowed d', d'))"

text \<open>The same from a value of this document, when the destination is not inside it. The value is read after
  the destination has been cleared, which shows when they are one.\<close>

definition ref_assign :: "vref \<Rightarrow> vref \<Rightarrow> json_document \<Rightarrow> bool \<times> json_document" where
  "ref_assign src dst d =
     ref_copy (map_option (\<lambda>v. if src = dst then (case v of VArray vs \<Rightarrow> VArray [] | VObject ms \<Rightarrow> VObject [] | w \<Rightarrow> w)
                              else v) (deref src d)) dst d"

definition ref_add :: "json_src \<Rightarrow> vref \<Rightarrow> json_document \<Rightarrow> bool \<times> json_document" where
  "ref_add src r d = (let (e, d') = ref_add_element r d in ref_set src e d')"

definition ref_to_array :: "vref \<Rightarrow> json_document \<Rightarrow> vref \<times> json_document" where
  "ref_to_array r d = (r, snd (on_ref (\<lambda>v p. (None, VArray [], p)) r d))"

definition ref_to_object :: "vref \<Rightarrow> json_document \<Rightarrow> vref \<times> json_document" where
  "ref_to_object r d = (r, snd (on_ref (\<lambda>v p. (None, VObject [], p)) r d))"

definition ref_to_variant :: "vref \<Rightarrow> json_document \<Rightarrow> vref \<times> json_document" where
  "ref_to_variant r d = (r, ref_clear r d)"

definition create_nested_array :: "vref \<Rightarrow> json_document \<Rightarrow> vref \<times> json_document" where
  "create_nested_array r d = (let (e, d') = ref_add_element r d in ref_to_array e d')"

definition create_nested_object :: "vref \<Rightarrow> json_document \<Rightarrow> vref \<times> json_document" where
  "create_nested_object r d = (let (e, d') = ref_add_element r d in ref_to_object e d')"

definition create_nested_array_at :: "storage \<Rightarrow> string option \<Rightarrow> vref \<Rightarrow> json_document \<Rightarrow> vref \<times> json_document" where
  "create_nested_array_at pol k r d = (let (e, d') = ref_get_or_add_member pol k r d in ref_to_array e d')"

definition create_nested_object_at :: "storage \<Rightarrow> string option \<Rightarrow> vref \<Rightarrow> json_document \<Rightarrow> vref \<times> json_document" where
  "create_nested_object_at pol k r d = (let (e, d') = ref_get_or_add_member pol k r d in ref_to_object e d')"

subsection \<open>Conversions to C++ values\<close>

definition ref_as_integral :: "int_type \<Rightarrow> vref \<Rightarrow> json_document \<Rightarrow> int" where
  "ref_as_integral t r d = (case deref r d of None \<Rightarrow> 0 | Some v \<Rightarrow> as_integral t v)"

definition ref_is_integer :: "int_type \<Rightarrow> vref \<Rightarrow> json_document \<Rightarrow> bool" where
  "ref_is_integer t r d = (case deref r d of None \<Rightarrow> False | Some v \<Rightarrow> is_integer t v)"

definition ref_as_boolean :: "vref \<Rightarrow> json_document \<Rightarrow> bool" where
  "ref_as_boolean r d = (case deref r d of None \<Rightarrow> False | Some v \<Rightarrow> as_boolean v)"

definition ref_is_boolean :: "vref \<Rightarrow> json_document \<Rightarrow> bool" where
  "ref_is_boolean r d = (case deref r d of None \<Rightarrow> False | Some v \<Rightarrow> is_boolean v)"

definition ref_as_float :: "vref \<Rightarrow> json_document \<Rightarrow> f64" where
  "ref_as_float r d = (case deref r d of None \<Rightarrow> 0 | Some v \<Rightarrow> as_float v)"

definition ref_is_float :: "vref \<Rightarrow> json_document \<Rightarrow> bool" where
  "ref_is_float r d = (case deref r d of None \<Rightarrow> False | Some v \<Rightarrow> is_float v)"

definition ref_as_chars :: "vref \<Rightarrow> json_document \<Rightarrow> string option" where
  "ref_as_chars r d = (case deref r d of None \<Rightarrow> None | Some v \<Rightarrow> map_option (\<lambda>s. c_str (snd s)) (as_string v))"

definition ref_as_string :: "vref \<Rightarrow> json_document \<Rightarrow> stored_string option" where
  "ref_as_string r d = (case deref r d of None \<Rightarrow> None | Some v \<Rightarrow> as_string v)"

definition ref_is_string :: "vref \<Rightarrow> json_document \<Rightarrow> bool" where
  "ref_is_string r d = (case deref r d of None \<Rightarrow> False | Some v \<Rightarrow> is_string v)"

definition ref_as_array :: "vref \<Rightarrow> json_document \<Rightarrow> vref" where
  "ref_as_array r d = (case deref r d of None \<Rightarrow> None | Some v \<Rightarrow> if is_array v then r else None)"

definition ref_is_array :: "vref \<Rightarrow> json_document \<Rightarrow> bool" where
  "ref_is_array r d = (case deref r d of None \<Rightarrow> False | Some v \<Rightarrow> is_array v)"

definition ref_as_object :: "vref \<Rightarrow> json_document \<Rightarrow> vref" where
  "ref_as_object r d = (case deref r d of None \<Rightarrow> None | Some v \<Rightarrow> if is_object v then r else None)"

definition ref_is_object :: "vref \<Rightarrow> json_document \<Rightarrow> bool" where
  "ref_is_object r d = (case deref r d of None \<Rightarrow> False | Some v \<Rightarrow> is_object v)"

definition ref_is_bound :: "vref \<Rightarrow> json_document \<Rightarrow> bool" where
  "ref_is_bound r d \<longleftrightarrow> deref r d \<noteq> None"

text \<open>\<open>preferedValue ? preferedValue : defaultValue\<close>: the test converts the value to \<open>bool\<close>.\<close>

definition ref_or :: "vref \<Rightarrow> vref \<Rightarrow> json_document \<Rightarrow> vref" where
  "ref_or preferred other d = (if ref_as_boolean preferred d then preferred else other)"

subsection \<open>\<open>ArrayRef\<close> and \<open>ObjectRef\<close>\<close>

text \<open>Their pointer is to the collection itself. Looking things up is as for a \<open>VariantRef\<close>.\<close>

definition on_elements ::
    "(variant list \<Rightarrow> memory_pool \<Rightarrow> nat option \<times> variant list \<times> memory_pool) \<Rightarrow>
     variant \<Rightarrow> memory_pool \<Rightarrow> nat option \<times> variant \<times> memory_pool" where
  "on_elements f v p =
     (case v of VArray vs \<Rightarrow> (let (i, vs', p') = f vs p in (i, VArray vs', p')) | _ \<Rightarrow> (None, v, p))"

definition on_members ::
    "(slot list \<Rightarrow> memory_pool \<Rightarrow> nat option \<times> slot list \<times> memory_pool) \<Rightarrow>
     variant \<Rightarrow> memory_pool \<Rightarrow> nat option \<times> variant \<times> memory_pool" where
  "on_members f v p =
     (case v of VObject ms \<Rightarrow> (let (i, ms', p') = f ms p in (i, VObject ms', p')) | _ \<Rightarrow> (None, v, p))"

definition array_add_element :: "vref \<Rightarrow> json_document \<Rightarrow> vref \<times> json_document" where
  "array_add_element = on_ref (on_elements add_element)"

definition array_get_or_add_element :: "nat \<Rightarrow> vref \<Rightarrow> json_document \<Rightarrow> vref \<times> json_document" where
  "array_get_or_add_element n = on_ref (on_elements (get_or_add_element n))"

definition array_clear :: "vref \<Rightarrow> json_document \<Rightarrow> json_document" where
  "array_clear r d = snd (on_ref (on_elements (\<lambda>vs p. (None, [], p))) r d)"

definition array_remove :: "nat \<Rightarrow> vref \<Rightarrow> json_document \<Rightarrow> json_document" where
  "array_remove n r d = snd (on_ref (on_elements (\<lambda>vs p. (None, remove_slot (get_element n vs) vs, p))) r d)"

text \<open>\<open>set\<close> of a collection copies from another array (object); the answer is \<open>copyFrom\<close>'s.\<close>

definition array_set :: "variant list option \<Rightarrow> vref \<Rightarrow> json_document \<Rightarrow> bool \<times> json_document" where
  "array_set src r d =
     (case (src, ref_as_array r d) of
        (Some vs, Some pos) \<Rightarrow>
          (let (b, vs', p) = copy_elements vs (jd_pool d)
           in (b, \<lparr>jd_pool = p, jd_data = put_at pos (VArray vs') (jd_data d)\<rparr>))
      | _ \<Rightarrow> (False, d))"

definition object_set :: "slot list option \<Rightarrow> vref \<Rightarrow> json_document \<Rightarrow> bool \<times> json_document" where
  "object_set src r d =
     (case (src, ref_as_object r d) of
        (Some ms, Some pos) \<Rightarrow>
          (let (b, ms', p) = copy_members ms (jd_pool d)
           in (b, \<lparr>jd_pool = p, jd_data = put_at pos (VObject ms') (jd_data d)\<rparr>))
      | _ \<Rightarrow> (False, d))"

definition object_get_or_add_member ::
    "storage \<Rightarrow> string option \<Rightarrow> vref \<Rightarrow> json_document \<Rightarrow> vref \<times> json_document" where
  "object_get_or_add_member pol k = on_ref (on_members (get_or_add_member pol k))"

definition object_clear :: "vref \<Rightarrow> json_document \<Rightarrow> json_document" where
  "object_clear r d = snd (on_ref (on_members (\<lambda>ms p. (None, [], p))) r d)"

definition object_remove :: "string option \<Rightarrow> vref \<Rightarrow> json_document \<Rightarrow> json_document" where
  "object_remove k r d = snd (on_ref (on_members (\<lambda>ms p. (None, remove_slot (get_member k ms) ms, p))) r d)"

text \<open>Two references to the same collection are equal whatever is in it.\<close>

definition array_equals :: "vref \<Rightarrow> vref \<Rightarrow> json_document \<Rightarrow> bool" where
  "array_equals lhs rhs d \<longleftrightarrow> lhs = rhs \<or>
     (case (deref lhs d, deref rhs d) of
        (Some (VArray vs), Some (VArray ws)) \<Rightarrow> equals_array vs ws
      | _ \<Rightarrow> False)"

definition object_equals :: "vref \<Rightarrow> vref \<Rightarrow> json_document \<Rightarrow> bool" where
  "object_equals lhs rhs d \<longleftrightarrow> lhs = rhs \<or>
     (case (deref lhs d, deref rhs d) of
        (Some (VObject ms), Some (VObject ns)) \<Rightarrow> equals_object ms 0 ns
      | _ \<Rightarrow> False)"

section \<open>Iterators\<close>

text \<open>A slot of the collection at a position; \<open>None\<close> is the null pointer behind the last one.\<close>

type_synonym iterator = "(nat list \<times> nat) option"

definition it_begin :: "vref \<Rightarrow> json_document \<Rightarrow> iterator" where
  "it_begin r d =
     (case (r, deref r d) of
        (Some pos, Some v) \<Rightarrow> (if variant_size v = 0 then None else Some (pos, 0))
      | _ \<Rightarrow> None)"

definition it_next :: "iterator \<Rightarrow> json_document \<Rightarrow> iterator" where
  "it_next it d =
     (case it of
        None \<Rightarrow> None
      | Some (pos, i) \<Rightarrow> (if i + 1 < ref_size (Some pos) d then Some (pos, i + 1) else None))"

definition it_value :: "iterator \<Rightarrow> vref" where
  "it_value it = map_option (\<lambda>(pos, i). pos @ [i]) it"

text \<open>\<open>next(distance)\<close>, behind \<open>+=\<close>.\<close>

fun it_advance :: "nat \<Rightarrow> iterator \<Rightarrow> json_document \<Rightarrow> iterator" where
  "it_advance 0 it d = it"
| "it_advance (Suc n) it d =
     (case it_next it d of None \<Rightarrow> None | Some s \<Rightarrow> it_advance n (Some s) d)"

text \<open>\<open>Pair\<close>: the key and the value of a member.\<close>

definition it_pair :: "iterator \<Rightarrow> json_document \<Rightarrow> stored_string option \<times> vref" where
  "it_pair it d =
     (case it of
        None \<Rightarrow> (None, None)
      | Some (pos, i) \<Rightarrow>
          (case deref (Some pos) d of
             Some (VObject ms) \<Rightarrow> (if i < length ms then (Some (fst (ms ! i)), it_value it) else (None, None))
           | _ \<Rightarrow> (None, None)))"

definition array_remove_at :: "iterator \<Rightarrow> json_document \<Rightarrow> json_document" where
  "array_remove_at it d =
     (case it of
        None \<Rightarrow> d
      | Some (pos, i) \<Rightarrow> snd (on_ref (on_elements (\<lambda>vs p. (None, remove_slot (Some i) vs, p))) (Some pos) d))"

definition object_remove_at :: "iterator \<Rightarrow> json_document \<Rightarrow> json_document" where
  "object_remove_at it d =
     (case it of
        None \<Rightarrow> d
      | Some (pos, i) \<Rightarrow> snd (on_ref (on_members (\<lambda>ms p. (None, remove_slot (Some i) ms, p))) (Some pos) d))"

text \<open>\<open>for (VariantRef v : collection)\<close>: the references the loop body gets.\<close>

function iterate :: "iterator \<Rightarrow> json_document \<Rightarrow> vref list" where
  "iterate it d = (if it = None then [] else it_value it # iterate (it_next it d) d)"
  by pat_completeness auto
termination
  by (relation "measure (\<lambda>(it, d). case it of None \<Rightarrow> 0 | Some (pos, i) \<Rightarrow> 1 + (ref_size (Some pos) d - i))")
    (auto simp: it_next_def split: if_splits)

declare iterate.simps [simp del]

section \<open>\<open>copyArray\<close>\<close>

fun copy_array :: "json_src list \<Rightarrow> vref \<Rightarrow> json_document \<Rightarrow> bool \<times> json_document" where
  "copy_array [] dst d = (True, d)"
| "copy_array (x # xs) dst d =
     (let (e, d) = array_add_element dst d;
          (b, d) = ref_set x e d;
          (bs, d) = copy_array xs dst d
      in (b \<and> bs, d))"

text \<open>From the JSON array to an array of \<open>len\<close> integers: the ones that are written.\<close>

fun copy_integers :: "int_type \<Rightarrow> nat \<Rightarrow> iterator \<Rightarrow> json_document \<Rightarrow> int list" where
  "copy_integers t 0 it d = []"
| "copy_integers t (Suc len) it d =
     (case it of
        None \<Rightarrow> []
      | Some s \<Rightarrow> ref_as_integral t (it_value it) d # copy_integers t len (it_next it d) d)"

text \<open>To a character array of \<open>n\<close> bytes: the ones that are written.\<close>

definition copy_chars :: "nat \<Rightarrow> vref \<Rightarrow> json_document \<Rightarrow> string" where
  "copy_chars n r d = take (n - 1) (case ref_as_string r d of None \<Rightarrow> [] | Some s \<Rightarrow> snd s) @ [NUL]"

section \<open>Documents and references\<close>

text \<open>The document's own operations are those of a reference to its root.\<close>

definition json_is_null :: "json_document \<Rightarrow> bool" where
  "json_is_null d = ref_is_null (Some []) d"

definition json_memory_usage :: "json_document \<Rightarrow> nat" where
  "json_memory_usage d = pool_size (jd_pool d)"

definition json_nesting :: "json_document \<Rightarrow> nat" where
  "json_nesting d = nesting (jd_data d)"

definition json_capacity :: "json_document \<Rightarrow> nat" where
  "json_capacity d = mp_capacity (jd_pool d)"

definition json_size :: "json_document \<Rightarrow> nat" where
  "json_size d = variant_size (jd_data d)"

definition json_get_element :: "nat \<Rightarrow> json_document \<Rightarrow> vref" where
  "json_get_element n d = ref_get_element n (Some []) d"

definition json_get_or_add_element :: "nat \<Rightarrow> json_document \<Rightarrow> vref \<times> json_document" where
  "json_get_or_add_element n d = ref_get_or_add_element n (Some []) d"

definition json_get_member :: "string option \<Rightarrow> json_document \<Rightarrow> vref" where
  "json_get_member k d = ref_get_member k (Some []) d"

definition json_get_or_add_member :: "storage \<Rightarrow> string option \<Rightarrow> json_document \<Rightarrow> vref \<times> json_document" where
  "json_get_or_add_member pol k d = ref_get_or_add_member pol k (Some []) d"

definition json_contains_key :: "string option \<Rightarrow> json_document \<Rightarrow> bool" where
  "json_contains_key k d \<longleftrightarrow> \<not> ref_is_unbound (json_get_member k d)"

definition json_add_element :: "json_document \<Rightarrow> vref \<times> json_document" where
  "json_add_element d = ref_add_element (Some []) d"

definition json_add :: "json_src \<Rightarrow> json_document \<Rightarrow> bool \<times> json_document" where
  "json_add src d = (let (e, d') = json_add_element d in ref_set src e d')"

definition json_nested_array :: "storage \<Rightarrow> string option \<Rightarrow> json_document \<Rightarrow> vref \<times> json_document" where
  "json_nested_array pol k d = (let (e, d') = json_get_or_add_member pol k d in ref_to_array e d')"

definition json_nested_object :: "storage \<Rightarrow> string option \<Rightarrow> json_document \<Rightarrow> vref \<times> json_document" where
  "json_nested_object pol k d = (let (e, d') = json_get_or_add_member pol k d in ref_to_object e d')"

text \<open>\<open>set\<close> of a C++ value and \<open>to<T>()\<close> clear the document first.\<close>

definition json_set_value :: "json_src \<Rightarrow> json_document \<Rightarrow> bool \<times> json_document" where
  "json_set_value src d = ref_set src (Some []) (json_clear d)"


definition json_to_array :: "json_document \<Rightarrow> vref \<times> json_document" where
  "json_to_array d = ref_to_array (Some []) (json_clear d)"

definition json_to_object :: "json_document \<Rightarrow> vref \<times> json_document" where
  "json_to_object d = ref_to_object (Some []) (json_clear d)"

definition copy_array_document :: "json_src list \<Rightarrow> json_document \<Rightarrow> bool \<times> json_document" where
  "copy_array_document xs d = (let (dst, d') = json_to_array d in copy_array xs dst d')"

text \<open>The constructor from a reference and the assignment of one: the room is made to measure.\<close>

definition document_of_value :: "bool \<Rightarrow> variant \<Rightarrow> json_document" where
  "document_of_value malloc_ok src = snd (json_copy src (new_document malloc_ok (memory_usage src)))"

definition assign_value :: "bool \<Rightarrow> variant \<Rightarrow> json_document \<Rightarrow> json_document" where
  "assign_value malloc_ok src d =
     (let required = memory_usage src;
          d' = (if mp_capacity (jd_pool d) < required then realloc_pool malloc_ok required d else d)
      in snd (json_copy src d'))"

definition copy_document :: "bool \<Rightarrow> json_document \<Rightarrow> json_document" where
  "copy_document malloc_ok src = copy_assign_from malloc_ok src \<lparr>jd_pool = new_pool 0, jd_data = VNull\<rparr>"

text \<open>\<open>moveAssignFrom\<close>: the document that was moved from is left empty.\<close>

definition move_assign_from :: "json_document \<Rightarrow> json_document \<Rightarrow> json_document \<times> json_document" where
  "move_assign_from src d = (\<lparr>jd_pool = new_pool 0, jd_data = VNull\<rparr>, src)"

text \<open>\<open>StaticJsonDocument\<close>: the buffer is a member.\<close>

definition static_document :: "nat \<Rightarrow> json_document" where
  "static_document capa = \<lparr>jd_pool = new_pool (add_padding (max 1 capa)), jd_data = VNull\<rparr>"

definition static_garbage_collect :: "nat \<Rightarrow> json_document \<Rightarrow> json_document" where
  "static_garbage_collect capa d =
     (let tmp = snd (json_copy (jd_data d) (static_document capa)) in snd (json_copy (jd_data tmp) d))"

section \<open>What a reference stands for\<close>

lemma deref_simps [simp]:
  "deref None d = None"
  "deref (Some []) d = Some (jd_data d)"
  "deref (Some pos) \<lparr>jd_pool = p, jd_data = v\<rparr> = locate pos v"
  by (simp_all add: deref_def)

lemma deref_Some: "deref (Some pos) d = locate pos (jd_data d)"
  by (simp add: deref_def)

lemma on_ref_None [simp]: "on_ref f None d = (None, d)"
  by (simp add: on_ref_def)

lemma on_ref_Some:
  "locate pos (jd_data d) = Some v \<Longrightarrow> on_ref f (Some pos) d =
     (case f v (jd_pool d) of (i, v', p) \<Rightarrow>
        (map_option (\<lambda>i. pos @ [i]) i, \<lparr>jd_pool = p, jd_data = put_at pos v' (jd_data d)\<rparr>))"
  by (simp add: on_ref_def deref_def)

section \<open>Every operation stays in the document's memory\<close>

definition keeps_doc :: "json_document \<Rightarrow> json_document \<Rightarrow> bool" where
  "keeps_doc d d' \<longleftrightarrow> doc_ok d \<longrightarrow> doc_ok d' \<and> pool_extends (jd_pool d) (jd_pool d')"

lemma keeps_doc_refl [simp]: "keeps_doc d d"
  by (simp add: keeps_doc_def)

lemma keeps_doc_trans: "keeps_doc d d1 \<Longrightarrow> keeps_doc d1 d2 \<Longrightarrow> keeps_doc d d2"
  by (auto simp: keeps_doc_def dest: pool_extends_trans)

text \<open>An operation on a value of the document is sound when it is sound on the value alone.\<close>

lemma on_ref_keeps:
  assumes "\<And>u p i w p'. f u p = (i, w, p') \<Longrightarrow> variant_ok u \<Longrightarrow> pool_ok p \<Longrightarrow> grows u p w p'"
  shows "keeps_doc d (snd (on_ref f r d))"
proof (cases "r = None \<or> deref r d = None")
  case True
  then show ?thesis by (auto simp: on_ref_def split: option.splits)
next
  case False
  then obtain pos u where u: "r = Some pos" "locate pos (jd_data d) = Some u" by (auto simp: deref_def)
  obtain i w p where f: "f u (jd_pool d) = (i, w, p)" by (cases "f u (jd_pool d)") auto
  show ?thesis
  proof (unfold keeps_doc_def, intro impI)
    assume ok: "doc_ok d"
    then have g: "grows u (jd_pool d) w p" using assms [OF f] locate_ok [OF u(2)] by (simp add: doc_ok_def)
    have "SLOT_SIZE * slots (put_at pos w (jd_data d)) + SLOT_SIZE * slots u = SLOT_SIZE * slots (jd_data d) + SLOT_SIZE * slots w"
      using put_slots [OF u(2), of w] g ok by (metis distrib_left doc_ok_def grows_def)
    with put_slots [OF u(2), of w] g ok f u
    show "doc_ok (snd (on_ref f r d)) \<and> pool_extends (jd_pool d) (jd_pool (snd (on_ref f r d)))"
      by (auto simp: on_ref_Some doc_ok_def grows_def)
  qed
qed

lemma grows_refl: "variant_ok u \<Longrightarrow> pool_ok p \<Longrightarrow> grows u p u p"
  by (simp add: grows_def)

lemma grows_shrink: "variant_ok w \<Longrightarrow> slots w \<le> slots u \<Longrightarrow> pool_ok p \<Longrightarrow> grows u p w p"
  by (simp add: grows_def)

lemma grows_add_element:
  assumes "variant_add_element u p = (i, w, p')" "variant_ok u" "pool_ok p"
  shows "grows u p w p'"
proof (cases "\<exists>vs. (if is_null u then VArray [] else u) = VArray vs")
  case True
  then obtain vs where vs: "(if is_null u then VArray [] else u) = VArray vs" by blast
  then obtain ws where a: "add_element vs p = (i, ws, p')" "w = VArray ws"
    using assms(1) by (auto simp: variant_add_element_def split: prod.splits)
  have "slots (VArray vs) = slots u" "elements_ok vs" using vs assms(2) by (auto split: if_splits)
  with add_element_ok [OF a(1)] a(2) assms(3) show ?thesis
    by (auto simp: grows_def elements_ok_all elements_slots_sum sum_list_replicate SLOT_SIZE_def)
next
  case False
  then have "w = u" "p' = p" using assms(1)
    by (auto simp: variant_add_element_def split: variant.splits if_splits)
  with assms(2,3) show ?thesis by (simp add: grows_refl)
qed

lemma grows_remove:
  assumes "variant_ok u" "pool_ok p"
  shows "grows u p (remove_element n u) p" "grows u p (remove_member k u) p"
proof -
  show "grows u p (remove_element n u) p"
  proof (cases u)
    case (VArray vs)
    with assms remove_slot_ok(2) [of vs "get_element n vs"] show ?thesis
      by (simp add: remove_element_def grows_shrink)
  qed (use assms in \<open>simp_all add: remove_element_def grows_refl\<close>)
  show "grows u p (remove_member k u) p"
  proof (cases u)
    case (VObject ms)
    with assms remove_slot_ok(1) [of ms "get_member k ms"] show ?thesis
      by (simp add: remove_member_def grows_shrink)
  qed (use assms in \<open>simp_all add: remove_member_def grows_refl\<close>)
qed

lemma grows_copy:
  assumes "copy_from v p = (b, w, p')" "variant_ok v" "pool_ok p"
  shows "grows u p w p'"
  using copy_correct(1) [OF assms(1,2)] copy_slots(1) [OF assms(1,2)] assms(3)
  by (auto simp: grows_def alloc_spec_def)

definition key_ok :: "string option \<Rightarrow> bool" where
  "key_ok k \<longleftrightarrow> (\<forall>s. k = Some s \<longrightarrow> NUL \<notin> set s)"

lemma grows_get_or_add_member:
  assumes "variant_get_or_add_member pol k u p = (i, w, p')" "variant_ok u" "pool_ok p" "key_ok k"
  shows "grows u p w p'"
proof (cases k)
  case None
  then have "p' = p" "w = u \<or> w = VObject [] \<and> u = VNull" using assms(1)
    by (auto simp: variant_get_or_add_member_def get_or_add_member_def split: variant.splits if_splits)
  with assms(2,3) show ?thesis by (auto simp: grows_def)
next
  case (Some s)
  with grows_member(1) [of pol s u p i w p'] assms show ?thesis by (simp add: key_ok_def)
qed

lemma on_elements_variant:
  "on_elements add_element u p = (case u of VArray vs \<Rightarrow> variant_add_element u p | _ \<Rightarrow> (None, u, p))"
  "on_elements (get_or_add_element n) u p = (case u of VArray vs \<Rightarrow> variant_get_or_add_element n u p | _ \<Rightarrow> (None, u, p))"
  "on_members (get_or_add_member pol k) u p = (case u of VObject ms \<Rightarrow> variant_get_or_add_member pol k u p | _ \<Rightarrow> (None, u, p))"
  by (auto simp: on_elements_def on_members_def variant_add_element_def variant_get_or_add_element_def
      variant_get_or_add_member_def split: variant.splits)

lemma grows_on_elements:
  "on_elements add_element u p = (i, w, p') \<Longrightarrow> variant_ok u \<Longrightarrow> pool_ok p \<Longrightarrow> grows u p w p'"
  "on_elements (get_or_add_element n) u p = (i, w, p') \<Longrightarrow> variant_ok u \<Longrightarrow> pool_ok p \<Longrightarrow> grows u p w p'"
  "on_members (get_or_add_member pol k) u p = (i, w, p') \<Longrightarrow> variant_ok u \<Longrightarrow> pool_ok p \<Longrightarrow> key_ok k \<Longrightarrow> grows u p w p'"
  by (cases u; simp only: on_elements_variant variant.case; (erule (2) grows_add_element grows_element | auto simp: grows_refl intro: grows_get_or_add_member))+

text \<open>Each operation, as it stands.\<close>

named_theorems ref_keeps "the operations of references that keep a document in its memory"

lemma lookup_keeps [ref_keeps]:
  "keeps_doc d (snd (ref_add_element r d))"
  "keeps_doc d (snd (ref_get_or_add_element n r d))"
  "key_ok k \<Longrightarrow> keeps_doc d (snd (ref_get_or_add_member pol k r d))"
  "keeps_doc d (snd (array_add_element r d))"
  "keeps_doc d (snd (array_get_or_add_element n r d))"
  "key_ok k \<Longrightarrow> keeps_doc d (snd (object_get_or_add_member pol k r d))"
  unfolding ref_add_element_def ref_get_or_add_element_def ref_get_or_add_member_def
    array_add_element_def array_get_or_add_element_def object_get_or_add_member_def
  by (rule on_ref_keeps; blast intro: grows_add_element grows_element(1) grows_get_or_add_member grows_on_elements)+

lemma write_keeps [ref_keeps]:
  "keeps_doc d (snd (ref_set src r d))"
  "pred_option variant_ok v \<Longrightarrow> keeps_doc d (snd (ref_copy v r d))"
  "keeps_doc d (ref_clear r d)"
  "keeps_doc d (ref_remove_element n r d)"
  "keeps_doc d (ref_remove_member k r d)"
  "keeps_doc d (snd (ref_to_array r d))"
  "keeps_doc d (snd (ref_to_object r d))"
  "keeps_doc d (snd (ref_to_variant r d))"
proof -
  show "keeps_doc d (snd (ref_set src r d))"
    by (auto simp: ref_set_def Let_def intro!: on_ref_keeps intro: convert_grows)
  show "keeps_doc d (snd (ref_copy v r d))" if "pred_option variant_ok v"
    using that grows_copy
    by (auto simp: ref_copy_def Let_def grows_shrink prod_eq_iff intro!: on_ref_keeps split: option.splits)
qed (auto simp: ref_clear_def ref_remove_element_def ref_remove_member_def ref_to_array_def ref_to_object_def
    ref_to_variant_def grows_shrink intro!: on_ref_keeps intro: grows_remove)

lemma grows_copy_collection:
  assumes "pool_ok p"
  shows "copy_elements vs p = (b, vs', p') \<Longrightarrow> elements_ok vs \<Longrightarrow> grows u p (VArray vs') p'"
    "copy_members ms p = (b, ms', p') \<Longrightarrow> variant_ok (VObject ms) \<Longrightarrow> grows u p (VObject ms') p'"
  using grows_copy [of "VArray vs" p b "VArray vs'" p' u] grows_copy [of "VObject ms" p b "VObject ms'" p' u] assms
  by simp_all

lemma array_set_on_ref:
  "snd (array_set (Some vs) r d) =
     snd (on_ref (on_elements (\<lambda>us p. case copy_elements vs p of (b, vs', p') \<Rightarrow> (None, vs', p'))) r d)"
  "snd (object_set (Some ms) r d) =
     snd (on_ref (on_members (\<lambda>us p. case copy_members ms p of (b, ms', p') \<Rightarrow> (None, ms', p'))) r d)"
  by (auto simp: array_set_def object_set_def ref_as_array_def ref_as_object_def on_ref_def on_elements_def
      on_members_def deref_def put_locate split: option.splits variant.splits prod.splits)

lemma collection_keeps [ref_keeps]:
  "keeps_doc d (array_clear r d)"
  "keeps_doc d (array_remove n r d)"
  "keeps_doc d (array_remove_at it d)"
  "keeps_doc d (object_clear r d)"
  "keeps_doc d (object_remove k r d)"
  "keeps_doc d (object_remove_at it d)"
  "elements_ok vs \<Longrightarrow> keeps_doc d (snd (array_set (Some vs) r d))"
  "variant_ok (VObject ms) \<Longrightarrow> keeps_doc d (snd (object_set (Some ms) r d))"
proof -
  have "grows u p (VArray (remove_slot i vs)) p" if "u = VArray vs" "variant_ok u" "pool_ok p" for u p i vs
    using that remove_slot_ok(2) [of vs i] by (simp add: grows_shrink)
  moreover have "grows u p (VObject (remove_slot i ms)) p" if "u = VObject ms" "variant_ok u" "pool_ok p" for u p i ms
    using that remove_slot_ok(1) [of ms i] by (simp add: grows_shrink)
  moreover have "pool_ok p \<Longrightarrow> grows u p (VArray []) p" "pool_ok p \<Longrightarrow> grows u p (VObject []) p" for u p
    by (simp_all add: grows_shrink)
  ultimately show "keeps_doc d (array_clear r d)" "keeps_doc d (array_remove n r d)" "keeps_doc d (array_remove_at it d)"
    "keeps_doc d (object_clear r d)" "keeps_doc d (object_remove k r d)" "keeps_doc d (object_remove_at it d)"
    by (auto simp: array_clear_def array_remove_def array_remove_at_def object_clear_def object_remove_def
        object_remove_at_def on_elements_def on_members_def grows_shrink intro!: on_ref_keeps
        simp del: variant_ok.simps split: variant.splits option.splits)
  show "elements_ok vs \<Longrightarrow> keeps_doc d (snd (array_set (Some vs) r d))"
    by (auto simp: array_set_on_ref on_elements_def grows_refl intro!: on_ref_keeps
        intro: grows_copy_collection simp del: variant_ok.simps split: variant.splits prod.splits)
  show "variant_ok (VObject ms) \<Longrightarrow> keeps_doc d (snd (object_set (Some ms) r d))"
    by (auto simp: array_set_on_ref on_members_def grows_refl intro!: on_ref_keeps
        intro: grows_copy_collection simp del: variant_ok.simps split: variant.splits prod.splits)
qed

lemma deref_ok: "doc_ok d \<Longrightarrow> pred_option variant_ok (deref r d)"
  by (cases r) (auto simp: deref_def doc_ok_def pred_option_def elim: locate_ok)

lemma assign_keeps [ref_keeps]: "keeps_doc d (snd (ref_assign src dst d))"
proof -
  have "pred_option variant_ok (map_option (\<lambda>v. if src = dst then (case v of VArray vs \<Rightarrow> VArray [] | VObject ms \<Rightarrow> VObject [] | w \<Rightarrow> w)
      else v) (deref src d))" if "doc_ok d"
    using deref_ok [OF that, of src] by (auto simp: pred_option_def split: variant.splits)
  then show ?thesis using write_keeps(2) [of _ d dst] unfolding ref_assign_def keeps_doc_def by blast
qed

lemma copy_array_keeps [ref_keeps]: "keeps_doc d (snd (copy_array xs dst d))"
proof (induction xs arbitrary: d)
  case (Cons x xs)
  obtain e d1 where 1: "array_add_element dst d = (e, d1)" by (cases "array_add_element dst d") auto
  obtain b d2 where 2: "ref_set x e d1 = (b, d2)" by (cases "ref_set x e d1") auto
  have "keeps_doc d d1" "keeps_doc d1 d2" using lookup_keeps(4) [of d dst] write_keeps(1) [of d1 x e] 1 2 by simp_all
  then have "keeps_doc d (snd (copy_array xs dst d2))" using Cons.IH keeps_doc_trans by blast
  then show ?case using 1 2 by (simp add: case_prod_beta)
qed simp

section \<open>Loops, copies and assignments\<close>

lemma ref_size_Some: "locate pos (jd_data d) = Some v \<Longrightarrow> ref_size (Some pos) d = variant_size v"
  by (simp add: ref_size_def deref_Some)

lemma iterate_from:
  assumes "locate pos (jd_data d) = Some v" "i < variant_size v"
  shows "iterate (Some (pos, i)) d = map (\<lambda>j. Some (pos @ [j])) [i ..< variant_size v]"
  using assms(2)
proof (induction "variant_size v - i" arbitrary: i)
  case (Suc n)
  show ?case
  proof (cases "Suc i < variant_size v")
    case True
    then have "n = variant_size v - Suc i" using Suc.hyps(2) by simp
    with Suc.hyps(1) [of "Suc i"] True ref_size_Some [OF assms(1)] show ?thesis
      by (subst iterate.simps) (simp add: it_next_def it_value_def upt_conv_Cons)
  next
    case False
    with Suc.prems have "[i ..< variant_size v] = [i]" by (simp add: upt_conv_Cons)
    with False ref_size_Some [OF assms(1)] show ?thesis
      by (subst iterate.simps, subst iterate.simps) (simp add: it_next_def it_value_def)
  qed
qed simp

text \<open>A loop over a collection visits its slots, all of them, in their order.\<close>

lemma iterate_all:
  assumes "locate pos (jd_data d) = Some v"
  shows "iterate (it_begin (Some pos) d) d = map (\<lambda>i. Some (pos @ [i])) [0 ..< variant_size v]"
  using assms iterate_from [OF assms, of 0]
  by (cases "variant_size v = 0") (simp_all add: it_begin_def deref_Some iterate.simps)

lemma iterate_values:
  assumes "locate pos (jd_data d) = Some (VArray vs)"
  shows "map (\<lambda>r. deref r d) (iterate (it_begin (Some pos) d) d) = map Some vs"
  unfolding iterate_all [OF assms]
  using assms by (auto simp: deref_Some locate_append variant_size_def intro: nth_equalityI)

lemma copy_integers_iterate:
  "copy_integers t n it d = map (\<lambda>r. ref_as_integral t r d) (take n (iterate it d))"
proof (induction n arbitrary: it)
  case (Suc n)
  then show ?case by (cases it) (simp_all add: iterate.simps [of None] iterate.simps [of "Some s" for s])
qed simp

text \<open>Values that were copied into an array, when there was room.\<close>

lemma array_add_element_at:
  assumes "locate pos (jd_data d) = Some (VArray vs)" "array_add_element (Some pos) d = (e, d')"
    and "\<not> json_overflowed d'"
  shows "e = Some (pos @ [length vs])" "jd_data d' = put_at pos (VArray (vs @ [VNull])) (jd_data d)"
  using assms by (auto simp: array_add_element_def on_ref_Some on_elements_def add_element_def json_overflowed_def
      split: prod.splits bool.splits dest: alloc_variant_effect simp: pool_simps)

lemma ref_set_at:
  assumes "locate pos (jd_data d) = Some v" "ref_set src (Some pos) d = (b, d')" "\<not> json_overflowed d'"
  shows "b" "jd_data d' = put_at pos (stored_value src) (jd_data d)"
  using assms convert_stores
  by (auto simp: ref_set_def Let_def on_ref_Some json_overflowed_def split: prod.splits)

lemma copy_array_at:
  assumes "locate pos (jd_data d) = Some (VArray vs)" "copy_array xs (Some pos) d = (b, d')" "\<not> json_overflowed d'"
    and "doc_ok d"
  shows "b" "jd_data d' = put_at pos (VArray (vs @ map stored_value xs)) (jd_data d)"
proof -
  have "b \<and> jd_data d' = put_at pos (VArray (vs @ map stored_value xs)) (jd_data d)"
    using assms
  proof (induction xs arbitrary: d vs b)
    case (Cons x xs)
    obtain e d1 where 1: "array_add_element (Some pos) d = (e, d1)" by (cases "array_add_element (Some pos) d") auto
    obtain b2 d2 where 2: "ref_set x e d1 = (b2, d2)" by (cases "ref_set x e d1") auto
    obtain b3 where 3: "copy_array xs (Some pos) d2 = (b3, d')" "b = (b2 \<and> b3)"
      using Cons.prems(2) 1 2 by (auto split: prod.splits)
    have ok: "doc_ok d1" "doc_ok d2" "pool_extends (jd_pool d1) (jd_pool d2)" "pool_extends (jd_pool d2) (jd_pool d')"
      using lookup_keeps(4) [of d "Some pos"] write_keeps(1) [of d1 x e] copy_array_keeps [of d2 xs "Some pos"]
        Cons.prems(4) 1 2 3 by (auto simp: keeps_doc_def)
    then have no: "\<not> json_overflowed d2" "\<not> json_overflowed d1" using Cons.prems(3) overflow_mono
      by (auto simp: json_overflowed_def)
    note A = array_add_element_at [OF Cons.prems(1) 1 no(2)]
    have l1: "locate (pos @ [length vs]) (jd_data d1) = Some VNull"
      by (simp add: A(2) locate_put_below [OF Cons.prems(1)])
    note B = ref_set_at [OF l1 2 [unfolded A(1)] no(1)]
    have d2: "jd_data d2 = put_at pos (VArray (vs @ [stored_value x])) (jd_data d)"
      by (simp add: B(2) A(2) put_under [OF Cons.prems(1)])
    have l2: "locate pos (jd_data d2) = Some (VArray (vs @ [stored_value x]))"
      by (simp add: d2 locate_put [OF Cons.prems(1)])
    from Cons.IH [OF l2 3(1) Cons.prems(3) ok(2)] B(1) 3(2) show ?case by (simp add: d2 put_put)
  qed (simp add: put_locate)
  then show "b" "jd_data d' = put_at pos (VArray (vs @ map stored_value xs)) (jd_data d)" by auto
qed

lemma as_integral_stored:
  assumes "lowest t \<le> x" "x \<le> highest t" "- (2 ^ 63) \<le> x" "x < 2 ^ 63"
  shows "as_integral t (stored_value (Src_int x)) = x"
proof -
  have "sint (word_of_int x :: u64) = x" using assms(3,4) by (simp add: signed_of_int signed_take_bit_int_eq_self)
  with assms show ?thesis by (simp add: as_integral_def as_integral_number_def stored_value_def can_convert_signed_def)
qed

text \<open>An array of integers that fits comes back from the document as it was.\<close>

lemma copied_array_is_read_back:
  assumes "\<forall>x\<in>set xs. lowest t \<le> x \<and> x \<le> highest t \<and> - (2 ^ 63) \<le> x \<and> x < 2 ^ 63"
    and "doc_ok d" "locate pos (jd_data d) = Some (VArray [])"
    and "copy_array (map Src_int xs) (Some pos) d = (b, d')" "\<not> json_overflowed d'"
  shows "b \<and> copy_integers t (length xs) (it_begin (Some pos) d') d' = xs"
proof -
  let ?vs = "map stored_value (map Src_int xs)"
  note C = copy_array_at [OF assms(3,4,5,2)]
  have l: "locate pos (jd_data d') = Some (VArray ?vs)" using C(2) locate_put [OF assms(3)] by simp
  have "map (\<lambda>r. ref_as_integral t r d') (iterate (it_begin (Some pos) d') d')
      = map (\<lambda>v. as_integral t (the v)) (map (\<lambda>r. deref r d') (iterate (it_begin (Some pos) d') d'))"
    by (auto simp: iterate_all [OF l] ref_as_integral_def deref_Some locate_append l variant_size_def)
  also have "\<dots> = xs" unfolding iterate_values [OF l] using as_integral_stored assms(1) by (auto intro: map_idI)
  finally show ?thesis using C(1) by (simp add: copy_integers_iterate iterate_all [OF l] variant_size_def)
qed

text \<open>A value for which room is made to measure arrives whole.\<close>

lemma json_copy_fits:
  assumes "variant_ok v" "pool_ok (jd_pool d)" "memory_usage v \<le> mp_capacity (jd_pool d)"
    and "json_copy v d = (b, d')"
  shows "b" "jd_data d' = v" "\<not> json_overflowed d'"
proof -
  obtain b' w p where c: "copy_from v (pool_clear (jd_pool d)) = (b', w, p)"
    by (cases "copy_from v (pool_clear (jd_pool d))") auto
  have "memory_usage v \<le> free_zone (pool_clear (jd_pool d))"
    using assms(3) by (simp add: free_zone_def pool_clear_def)
  with copy_correct(1) [OF c assms(1)] have "b'" "w = v" "mp_overflowed p = mp_overflowed (pool_clear (jd_pool d))"
    by (auto simp: alloc_spec_def)
  with c assms(4) show "b" "jd_data d' = v" "\<not> json_overflowed d'"
    by (auto simp: json_copy_def json_clear_def json_overflowed_def pool_clear_def)
qed

lemma assign_value_whole:
  assumes "variant_ok v" "doc_ok d"
  shows "jd_data (assign_value True v d) = v" "jd_data (document_of_value True v) = v"
proof -
  have le: "n \<le> add_padding n" for n by (simp add: add_padding_def)
  let ?d = "if mp_capacity (jd_pool d) < memory_usage v then realloc_pool True (memory_usage v) d else d"
  have "pool_ok (jd_pool ?d)" "memory_usage v \<le> mp_capacity (jd_pool ?d)"
    using assms(2) le [of "memory_usage v"] le [of "add_padding (memory_usage v)"]
    by (auto simp: realloc_pool_def alloc_pool_def doc_ok_def new_pool_def pool_ok_def split: if_splits)
  from json_copy_fits [OF assms(1) this] show "jd_data (assign_value True v d) = v"
    by (simp add: assign_value_def Let_def prod_eq_iff)
  have "pool_ok (jd_pool (new_document True (memory_usage v)))"
    "memory_usage v \<le> mp_capacity (jd_pool (new_document True (memory_usage v)))"
    using le [of "memory_usage v"] by (simp_all add: new_document_def alloc_pool_def) (simp add: new_pool_def)
  from json_copy_fits [OF assms(1) this] show "jd_data (document_of_value True v) = v"
    by (simp add: document_of_value_def prod_eq_iff)
qed

end
