(* ===== verification/Json_Proxies.thy ===== *)
theory Json_Proxies
  imports Json_References
begin

text \<open>
  \<open>ArduinoJson.h\<close>: \<open>MemberProxy\<close> and \<open>ElementProxy\<close>. A proxy \<open>json["a"][3]\<close> is the
  expression itself: each time it is used it looks its value up (\<open>upstream\<close>), or looks it up and adds
  what is missing (\<open>upstream_or_add\<close>). The lemmas show that assigning to a proxy is the assignment at a
  path of \<open>Json_Document\<close>, so that a document behaves as a nested map, and which reads change it.
\<close>

section \<open>Proxies\<close>

text \<open>What \<open>operator[]\<close> is applied to: the document, a reference, or another proxy.\<close>

datatype proxy = Doc | Ref vref | MemberOf proxy storage string | ElementOf proxy nat

text \<open>\<open>upstream\<close> is \<open>getUpstreamMember\<close> and \<open>getUpstreamElement\<close>, \<open>upstream_or_add\<close> the
  two functions with \<open>OrAdd\<close>. They call \<open>getMember\<close>, \<open>getElement\<close> and the like of what the
  proxy is applied to; of these \<open>ElementProxy::getElement\<close> alone looks its own value up with
  \<open>getOrAddUpstreamElement\<close>.\<close>

fun upstream :: "proxy \<Rightarrow> json_document \<Rightarrow> vref \<times> json_document"
  and upstream_or_add :: "proxy \<Rightarrow> json_document \<Rightarrow> vref \<times> json_document" where
  "upstream Doc d = (Some [], d)"
| "upstream (Ref r) d = (r, d)"
| "upstream (MemberOf x pol k) d =
     (let (r, d') = upstream x d in (ref_get_member (Some k) r d', d'))"
| "upstream (ElementOf x n) d =
     (let (r, d') = (case x of ElementOf y m \<Rightarrow> upstream_or_add x d | _ \<Rightarrow> upstream x d)
      in (ref_get_element n r d', d'))"
| "upstream_or_add Doc d = (Some [], d)"
| "upstream_or_add (Ref r) d = (r, d)"
| "upstream_or_add (MemberOf x pol k) d =
     (let (r, d') = upstream_or_add x d in ref_get_or_add_member pol (Some k) r d')"
| "upstream_or_add (ElementOf x n) d =
     (let (r, d') = upstream_or_add x d in ref_get_or_add_element n r d')"

text \<open>The operations of a proxy: those that read, and \<open>clear\<close> and \<open>remove\<close>, look the value up,
  the others add it.\<close>

definition proxy_set :: "proxy \<Rightarrow> json_src \<Rightarrow> json_document \<Rightarrow> bool \<times> json_document" where
  "proxy_set x src d = (let (r, d') = upstream_or_add x d in ref_set src r d')"

definition proxy_clear :: "proxy \<Rightarrow> json_document \<Rightarrow> json_document" where
  "proxy_clear x d = (let (r, d') = upstream x d in ref_clear r d')"

definition proxy_is_null :: "proxy \<Rightarrow> json_document \<Rightarrow> bool \<times> json_document" where
  "proxy_is_null x d = (let (r, d') = upstream x d in (ref_is_null r d', d'))"

definition proxy_size :: "proxy \<Rightarrow> json_document \<Rightarrow> nat \<times> json_document" where
  "proxy_size x d = (let (r, d') = upstream x d in (ref_size r d', d'))"

definition proxy_memory_usage :: "proxy \<Rightarrow> json_document \<Rightarrow> nat \<times> json_document" where
  "proxy_memory_usage x d = (let (r, d') = upstream x d in (ref_memory_usage r d', d'))"

definition proxy_as_integral :: "int_type \<Rightarrow> proxy \<Rightarrow> json_document \<Rightarrow> int \<times> json_document" where
  "proxy_as_integral t x d = (let (r, d') = upstream x d in (ref_as_integral t r d', d'))"

definition proxy_as_chars :: "proxy \<Rightarrow> json_document \<Rightarrow> string option \<times> json_document" where
  "proxy_as_chars x d = (let (r, d') = upstream x d in (ref_as_chars r d', d'))"

definition proxy_is_integer :: "int_type \<Rightarrow> proxy \<Rightarrow> json_document \<Rightarrow> bool \<times> json_document" where
  "proxy_is_integer t x d = (let (r, d') = upstream x d in (ref_is_integer t r d', d'))"

definition proxy_accept :: "'w writer \<Rightarrow> proxy \<Rightarrow> json_document \<Rightarrow> 'w \<times> nat \<Rightarrow> ('w \<times> nat) \<times> json_document" where
  "proxy_accept w x d out = (let (r, d') = upstream x d in (ref_accept w r d' out, d'))"

definition proxy_remove_element :: "proxy \<Rightarrow> nat \<Rightarrow> json_document \<Rightarrow> json_document" where
  "proxy_remove_element x n d = (let (r, d') = upstream x d in ref_remove_element n r d')"

definition proxy_remove_member :: "proxy \<Rightarrow> string option \<Rightarrow> json_document \<Rightarrow> json_document" where
  "proxy_remove_member x k d = (let (r, d') = upstream x d in ref_remove_member k r d')"

definition proxy_to_array :: "proxy \<Rightarrow> json_document \<Rightarrow> vref \<times> json_document" where
  "proxy_to_array x d = (let (r, d') = upstream_or_add x d in ref_to_array r d')"

definition proxy_to_object :: "proxy \<Rightarrow> json_document \<Rightarrow> vref \<times> json_document" where
  "proxy_to_object x d = (let (r, d') = upstream_or_add x d in ref_to_object r d')"

definition proxy_add_element :: "proxy \<Rightarrow> json_document \<Rightarrow> vref \<times> json_document" where
  "proxy_add_element x d = (let (r, d') = upstream_or_add x d in ref_add_element r d')"

definition proxy_add :: "proxy \<Rightarrow> json_src \<Rightarrow> json_document \<Rightarrow> bool \<times> json_document" where
  "proxy_add x src d = (let (e, d') = proxy_add_element x d in ref_set src e d')"

text \<open>Assigning a proxy to a proxy, and \<open>containsKey\<close>.\<close>

definition proxy_copy :: "proxy \<Rightarrow> variant option \<Rightarrow> json_document \<Rightarrow> bool \<times> json_document" where
  "proxy_copy x src d = (let (r, d') = upstream_or_add x d in ref_copy src r d')"

definition proxy_assign :: "proxy \<Rightarrow> proxy \<Rightarrow> json_document \<Rightarrow> bool \<times> json_document" where
  "proxy_assign x y d =
     (let (r, d1) = upstream_or_add x d; (s, d2) = upstream y d1 in ref_assign s r d2)"

definition proxy_contains_key :: "proxy \<Rightarrow> string \<Rightarrow> json_document \<Rightarrow> bool \<times> json_document" where
  "proxy_contains_key x k d =
     (let (r, d') = upstream (MemberOf x Linked k) d in (\<not> ref_is_unbound r, d'))"

section \<open>A chain of proxies is a path\<close>

fun path_proxy :: "path_step \<Rightarrow> proxy \<Rightarrow> proxy" where
  "path_proxy (Member pol k) x = MemberOf x pol k"
| "path_proxy (Element n) x = ElementOf x n"

text \<open>\<open>json[s1]...[sn]\<close>.\<close>

definition proxy_of :: "path_step list \<Rightarrow> proxy" where
  "proxy_of ps = fold path_proxy ps Doc"

lemma proxy_of_simps [simp]:
  "proxy_of [] = Doc"
  "proxy_of (ps @ [s]) = path_proxy s (proxy_of ps)"
  by (simp_all add: proxy_of_def)

text \<open>One step into a value, and a path of them, for an operation that sees the value it ends at.\<close>

definition step_into ::
    "path_step \<Rightarrow> (variant \<Rightarrow> memory_pool \<Rightarrow> variant \<times> memory_pool) \<Rightarrow> variant \<Rightarrow> memory_pool \<Rightarrow> variant \<times> memory_pool" where
  "step_into s g v p =
     (case add_slot s v p of
        (None, v', p') \<Rightarrow> (v', p')
      | (Some i, v', p') \<Rightarrow> (let (w, p'') = g (the (locate [i] v')) p' in (put_at [i] w v', p'')))"

definition walk :: "path_step list \<Rightarrow> (variant \<Rightarrow> memory_pool \<Rightarrow> variant \<times> memory_pool) \<Rightarrow> variant \<Rightarrow> memory_pool \<Rightarrow> variant \<times> memory_pool" where
  "walk = foldr step_into"

lemma walk_simps [simp]:
  "walk [] g = g"
  "walk (s # ps) g = step_into s (walk ps g)"
  "walk (ps @ [s]) g = walk ps (step_into s g)"
  by (simp_all add: walk_def)

lemma at_path_walk: "at_path ps f v p = walk ps (\<lambda>u. f) v p"
  by (induction ps arbitrary: v p)
    (simp_all add: at_path_step step_into_def del: at_path.simps(2,3) cong: option.case_cong)

lemma upstream_step:
  "upstream_or_add (path_proxy s x) d = (case upstream_or_add x d of (r, d') \<Rightarrow> on_ref (add_slot s) r d')"
  by (cases s) (simp_all add: ref_get_or_add_member_def ref_get_or_add_element_def add_slot_def [abs_def])

text \<open>What \<open>getOrAddUpstream...\<close> finds, and leaves, is what a walk along the path does.\<close>

lemma upstream_walk:
  assumes "upstream_or_add (proxy_of ps) d = (r, d')"
  shows "walk ps g (jd_data d) (jd_pool d) =
      (case r of None \<Rightarrow> (jd_data d', jd_pool d')
       | Some pos \<Rightarrow> (case g (the (locate pos (jd_data d'))) (jd_pool d') of (w, p) \<Rightarrow> (put_at pos w (jd_data d'), p))) \<and>
    (\<forall>pos. r = Some pos \<longrightarrow> locate pos (jd_data d') \<noteq> None)"
  using assms
proof (induction ps arbitrary: r d' g rule: rev_induct)
  case Nil
  then show ?case by (auto split: prod.splits)
next
  case (snoc s ps)
  obtain r1 d1 where u: "upstream_or_add (proxy_of ps) d = (r1, d1)" by (cases "upstream_or_add (proxy_of ps) d") auto
  from snoc.prems u have o: "on_ref (add_slot s) r1 d1 = (r, d')" by (simp add: upstream_step)
  note IH = snoc.IH [OF u, of "step_into s g"]
  show ?case
  proof (cases r1)
    case None
    with o IH show ?thesis by simp
  next
    case (Some pos)
    with IH obtain v where v: "locate pos (jd_data d1) = Some v" by auto
    obtain i v' p' where f: "add_slot s v (jd_pool d1) = (i, v', p')" by (cases "add_slot s v (jd_pool d1)") auto
    from o Some v f have R: "r = map_option (\<lambda>i. pos @ [i]) i" "jd_data d' = put_at pos v' (jd_data d1)" "jd_pool d' = p'"
      by (auto simp: on_ref_Some)
    have st: "step_into s g v (jd_pool d1) =
        (case i of None \<Rightarrow> (v', p') | Some i \<Rightarrow> (case g (the (locate [i] v')) p' of (w, p'') \<Rightarrow> (put_at [i] w v', p'')))"
      using f by (simp add: step_into_def split: option.splits)
    show ?thesis
    proof (cases i)
      case None
      with IH Some v R st show ?thesis by simp
    next
      case (Some j)
      obtain u where u: "locate [j] v' = Some u" using f Some add_slot_locate by blast
      have "locate (pos @ [j]) (put_at pos v' (jd_data d1)) = Some u"
        using locate_put_below [OF v] u by simp
      moreover have "put_at (pos @ [j]) w (put_at pos v' (jd_data d1)) = put_at pos (put_at [j] w v') (jd_data d1)" for w
        by (rule put_under [OF v])
      ultimately show ?thesis using IH Some \<open>r1 = Some pos\<close> v R u st
        by (simp split: prod.splits del: locate.simps put_at.simps)
    qed
  qed
qed

text \<open>\<open>json[s1]...[sn] = src\<close> is the assignment at the path.\<close>

lemma proxy_set_is_path:
  "proxy_set (proxy_of ps) src d = (\<not> json_overflowed (json_set ps src d), json_set ps src d)"
proof -
  obtain r d' where u: "upstream_or_add (proxy_of ps) d = (r, d')" by (cases "upstream_or_add (proxy_of ps) d") auto
  note W = upstream_walk [OF u, of "\<lambda>_. convert_to_json src"]
  have "snd (on_ref (\<lambda>v p. (None, convert_to_json src p)) r d') = json_set ps src d"
  proof (cases r)
    case None
    with W show ?thesis by (simp add: json_set_def at_path_walk)
  next
    case (Some pos)
    with W obtain v where "locate pos (jd_data d') = Some v" by auto
    with W Some show ?thesis by (simp add: json_set_def at_path_walk on_ref_Some split: prod.splits)
  qed
  then show ?thesis by (simp add: proxy_set_def u ref_set_def Let_def)
qed

section \<open>Reading through proxies\<close>

definition proxy_value :: "proxy \<Rightarrow> json_document \<Rightarrow> variant option" where
  "proxy_value x d = (case upstream x d of (r, d') \<Rightarrow> deref r d')"

lemma get_path_append: "get_path (ks @ [k]) v = Option.bind (get_path ks v) (get_path [k])"
  by (induction ks arbitrary: v) (auto split: variant.splits option.splits)

lemma deref_get_member: "deref (ref_get_member (Some k) r d) d = Option.bind (deref r d) (get_path [k])"
proof (cases "deref r d")
  case None
  then show ?thesis by (auto simp: ref_get_member_def split: option.splits)
next
  case (Some v)
  then obtain pos where r: "r = Some pos" "locate pos (jd_data d) = Some v" by (cases r) (auto simp: deref_Some)
  show ?thesis
  proof (cases v)
    case (VObject ms)
    with r show ?thesis
      by (auto simp: ref_get_member_def deref_Some locate_append get_member_def dest: get_slot_Some split: option.splits)
  qed (use r in \<open>simp_all add: ref_get_member_def deref_Some\<close>)
qed

text \<open>Reading \<open>json[k1]...[kn]\<close> changes nothing, and finds what is at the path.\<close>

lemma upstream_members:
  "upstream (proxy_of (members ks)) d = (fst (upstream (proxy_of (members ks)) d), d) \<and>
   deref (fst (upstream (proxy_of (members ks)) d)) d = get_path (map snd ks) (jd_data d)"
proof (induction ks rule: rev_induct)
  case (snoc pk ks)
  obtain pol k where pk: "pk = (pol, k)" by (cases pk)
  obtain r where u: "upstream (proxy_of (members ks)) d = (r, d)" using snoc by (metis fst_conv)
  then show ?case using snoc pk by (simp add: members_def deref_get_member get_path_append)
qed (simp add: members_def)

lemma proxy_value_members: "proxy_value (proxy_of (members ks)) d = get_path (map snd ks) (jd_data d)"
  using upstream_members [of ks d] by (auto simp: proxy_value_def split: prod.splits)

text \<open>Reads that leave the document alone: no element of an element is asked for.\<close>

fun reads_only :: "proxy \<Rightarrow> bool" where
  "reads_only (MemberOf x pol k) = reads_only x"
| "reads_only (ElementOf (ElementOf x m) n) = False"
| "reads_only (ElementOf x n) = reads_only x"
| "reads_only x = True"

lemma reads_only_keeps: "reads_only x \<Longrightarrow> snd (upstream x d) = d"
proof (induction x rule: reads_only.induct)
  case (1 x pol k)
  then show ?case by (simp add: split_def)
qed (simp_all add: split_def)

text \<open>\<open>json[m][n]\<close> does not: looking at it in an empty document makes an array of \<open>m + 1\<close> nulls.\<close>

lemma add_elements_room:
  assumes "length (mp_strings p) + (mp_right p + n * SLOT_SIZE) \<le> mp_capacity p"
  shows "add_elements n r vs p =
    (if n = 0 then r else Some (length vs + n - 1), vs @ replicate n VNull, p\<lparr>mp_right := mp_right p + n * SLOT_SIZE\<rparr>)"
  using assms
proof (induction n arbitrary: r vs p)
  case (Suc n)
  let ?p = "p\<lparr>mp_right := mp_right p + SLOT_SIZE\<rparr>"
  have a: "add_element vs p = (Some (length vs), vs @ [VNull], ?p)"
    using Suc.prems by (simp add: add_element_def alloc_variant_def alloc_right_def can_alloc_def)
  have "add_elements n (Some (length vs)) (vs @ [VNull]) ?p =
      (if n = 0 then Some (length vs) else Some (length (vs @ [VNull]) + n - 1), (vs @ [VNull]) @ replicate n VNull,
       ?p\<lparr>mp_right := mp_right ?p + n * SLOT_SIZE\<rparr>)"
    using Suc.prems by (intro Suc.IH) (simp add: algebra_simps)
  with a show ?case by (simp add: algebra_simps)
qed simp

lemma element_read_adds:
  assumes "jd_data d = VNull" "length (mp_strings (jd_pool d)) + (mp_right (jd_pool d) + (m + 1) * SLOT_SIZE) \<le> mp_capacity (jd_pool d)"
  shows "fst (upstream (ElementOf (ElementOf Doc m) n) d) = None"
    "jd_data (snd (upstream (ElementOf (ElementOf Doc m) n) d)) = VArray (replicate (m + 1) VNull)"
    "\<not> json_overflowed d \<Longrightarrow> \<not> json_overflowed (snd (upstream (ElementOf (ElementOf Doc m) n) d))"
proof -
  let ?p = "(jd_pool d)\<lparr>mp_right := mp_right (jd_pool d) + (m + 1) * SLOT_SIZE\<rparr>"
  have "variant_get_or_add_element m VNull (jd_pool d) = (Some m, VArray (replicate (m + 1) VNull), ?p)"
    using add_elements_room [of "jd_pool d" "m + 1" None "[]"] assms(2)
    by (simp add: variant_get_or_add_element_def get_or_add_element_def del: add_elements.simps)
  then have "upstream_or_add (ElementOf Doc m) d =
      (Some [m], \<lparr>jd_pool = ?p, jd_data = VArray (replicate (m + 1) VNull)\<rparr>)"
    using assms(1) by (simp add: ref_get_or_add_element_def on_ref_Some)
  then show "fst (upstream (ElementOf (ElementOf Doc m) n) d) = None"
    "jd_data (snd (upstream (ElementOf (ElementOf Doc m) n) d)) = VArray (replicate (m + 1) VNull)"
    "\<not> json_overflowed d \<Longrightarrow> \<not> json_overflowed (snd (upstream (ElementOf (ElementOf Doc m) n) d))"
    by (simp_all add: ref_get_element_def json_overflowed_def del: upstream_or_add.simps replicate.simps)
qed

text \<open>\<open>set\<close> behind a value that is no object stores nothing, and answers as if it had.\<close>

lemma blocked_set_succeeds:
  assumes "upstream_or_add x d = (Some pos, d')" "locate pos (jd_data d') = Some v" "\<not> is_null v" "\<not> is_object v"
  shows "proxy_set (MemberOf x pol k) src d = (\<not> json_overflowed d', d')"
proof -
  have "variant_get_or_add_member pol (Some k) v (jd_pool d') = (None, v, jd_pool d')"
    using assms(3,4) by (cases v) (simp_all add: variant_get_or_add_member_def)
  with assms(1,2) show ?thesis
    by (simp add: proxy_set_def ref_get_or_add_member_def on_ref_Some put_locate ref_set_def json_overflowed_def)
qed

text \<open>\<open>json[k] = json[k]\<close> empties an array or an object.\<close>

lemma self_assignment_empties:
  assumes "locate pos (jd_data d) = Some v" "is_array v \<or> is_object v"
  shows "locate pos (jd_data (snd (ref_assign (Some pos) (Some pos) d))) = Some (if is_array v then VArray [] else VObject [])"
  using assms by (auto simp: ref_assign_def ref_copy_def Let_def deref_Some on_ref_Some locate_put)

section \<open>Sequences of operations\<close>

fun proxy_ok :: "proxy \<Rightarrow> bool" where
  "proxy_ok (MemberOf x pol k) \<longleftrightarrow> NUL \<notin> set k \<and> proxy_ok x"
| "proxy_ok (ElementOf x n) \<longleftrightarrow> proxy_ok x"
| "proxy_ok x \<longleftrightarrow> True"

lemma upstream_element:
  "snd (upstream (ElementOf x n) d) = snd (upstream_or_add x d) \<or> snd (upstream (ElementOf x n) d) = snd (upstream x d)"
  by (cases x) (simp_all add: split_def Let_def)

lemma upstream_keeps:
  "proxy_ok x \<Longrightarrow> keeps_doc d (snd (upstream_or_add x d))"
  "proxy_ok x \<Longrightarrow> keeps_doc d (snd (upstream x d))"
proof -
  show add: "keeps_doc d (snd (upstream_or_add x d))" if "proxy_ok x" for x d
    using that
  proof (induction x)
    case (MemberOf x pol k)
    obtain r d' where u: "upstream_or_add x d = (r, d')" by (cases "upstream_or_add x d") auto
    with MemberOf have "keeps_doc d d'" by simp
    moreover have "keeps_doc d' (snd (ref_get_or_add_member pol (Some k) r d'))"
      using MemberOf.prems by (intro lookup_keeps(3)) (simp add: key_ok_def)
    ultimately show ?case using u keeps_doc_trans by simp
  next
    case (ElementOf x n)
    obtain r d' where u: "upstream_or_add x d = (r, d')" by (cases "upstream_or_add x d") auto
    with ElementOf have "keeps_doc d d'" by simp
    with u lookup_keeps(2) [of d' n r] keeps_doc_trans show ?case by simp
  qed simp_all
  show "keeps_doc d (snd (upstream x d))" if "proxy_ok x"
    using that
  proof (induction x)
    case (ElementOf x n)
    then show ?case using add [of x d] upstream_element [of x n d] by (auto simp del: upstream.simps)
  qed (simp_all add: split_def Let_def)
qed

text \<open>What a program may do to a document: the operations of the document itself, those of references (to
  any place, whether there is something or not), and those of proxies, whose values are looked up again in
  each of them.\<close>

inductive ref_step :: "json_document \<Rightarrow> json_document \<Rightarrow> bool" where
  step_document: "json_step d d' \<Longrightarrow> ref_step d d'"
| step_set: "ref_step d (snd (ref_set src r d))"
| step_copy: "pred_option variant_ok v \<Longrightarrow> ref_step d (snd (ref_copy v r d))"
| step_assign: "ref_step d (snd (ref_assign s r d))"
| step_clear: "ref_step d (ref_clear r d)"
| step_remove_element: "ref_step d (ref_remove_element n r d)"
| step_remove_member: "ref_step d (ref_remove_member k r d)"
| step_to_array: "ref_step d (snd (ref_to_array r d))"
| step_to_object: "ref_step d (snd (ref_to_object r d))"
| step_add_element: "ref_step d (snd (ref_add_element r d))"
| step_get_or_add_element: "ref_step d (snd (ref_get_or_add_element n r d))"
| step_get_or_add_member: "key_ok k \<Longrightarrow> ref_step d (snd (ref_get_or_add_member pol k r d))"
| step_array_add: "ref_step d (snd (array_add_element r d))"
| step_array_get_or_add: "ref_step d (snd (array_get_or_add_element n r d))"
| step_array_set: "elements_ok vs \<Longrightarrow> ref_step d (snd (array_set (Some vs) r d))"
| step_array_clear: "ref_step d (array_clear r d)"
| step_array_remove: "ref_step d (array_remove n r d)"
| step_array_remove_at: "ref_step d (array_remove_at it d)"
| step_object_get_or_add: "key_ok k \<Longrightarrow> ref_step d (snd (object_get_or_add_member pol k r d))"
| step_object_set: "variant_ok (VObject ms) \<Longrightarrow> ref_step d (snd (object_set (Some ms) r d))"
| step_object_clear: "ref_step d (object_clear r d)"
| step_object_remove: "ref_step d (object_remove k r d)"
| step_object_remove_at: "ref_step d (object_remove_at it d)"
| step_copy_array: "ref_step d (snd (copy_array xs r d))"
| step_upstream: "proxy_ok x \<Longrightarrow> ref_step d (snd (upstream x d))"
| step_upstream_or_add: "proxy_ok x \<Longrightarrow> ref_step d (snd (upstream_or_add x d))"

inductive json_reachable :: "nat \<Rightarrow> json_document \<Rightarrow> bool" for capa where
  reach_new: "json_reachable capa (new_document malloc_ok capa)"
| reach_step: "json_reachable capa d \<Longrightarrow> ref_step d d' \<Longrightarrow> json_reachable capa d'"

lemma keeps_doc_ok:
  "keeps_doc d d' \<Longrightarrow> doc_ok d \<Longrightarrow> doc_ok d' \<and> mp_capacity (jd_pool d') \<le> mp_capacity (jd_pool d)"
  by (simp add: keeps_doc_def pool_extends_def)

lemma ref_step_ok:
  "ref_step d d' \<Longrightarrow> doc_ok d \<Longrightarrow> doc_ok d' \<and> mp_capacity (jd_pool d') \<le> mp_capacity (jd_pool d)"
proof (induction rule: ref_step.induct)
  case (step_document d d')
  then show ?case using json_step_ok by blast
qed (erule keeps_doc_ok [rotated], simp add: ref_keeps upstream_keeps)+

lemma json_reachable_ok:
  "json_reachable capa d \<Longrightarrow> doc_ok d \<and> mp_capacity (jd_pool d) \<le> add_padding capa"
proof (induction rule: json_reachable.induct)
  case (reach_new malloc_ok)
  then show ?case using new_document_ok by (simp add: new_document_def alloc_pool_def new_pool_def)
next
  case (reach_step d d')
  then show ?case using ref_step_ok by fastforce
qed

lemma proxy_set_reachable:
  assumes "json_reachable capa d" "proxy_ok x"
  shows "json_reachable capa (snd (proxy_set x src d))"
proof -
  obtain r d' where u: "upstream_or_add x d = (r, d')" by (cases "upstream_or_add x d") auto
  have "json_reachable capa d'" using reach_step [OF assms(1) step_upstream_or_add [OF assms(2)]] u by simp
  from reach_step [OF this step_set [of d' src r]] u show ?thesis by (simp add: proxy_set_def)
qed

section \<open>Properties\<close>

text \<open>C34. Whatever a program does to a document, through the document itself, through references to any place
  in it and through proxies (clearing it, assignments, copies from other values and within it, additions and
  removals, loops that fill arrays, reads that add what is missing, shrinking), its strings and slots stay
  inside the buffer it was given, the two ends never meet, every slot in the tree is one the pool has handed
  out, and every object keeps distinct keys.\<close>

theorem json_document_stays_in_pool:
  assumes "json_reachable capa d"
  shows "pool_size (jd_pool d) \<le> mp_capacity (jd_pool d) \<and> mp_capacity (jd_pool d) \<le> add_padding capa \<and>
    SLOT_SIZE * slots (jd_data d) \<le> mp_right (jd_pool d) \<and> variant_ok (jd_data d)"
  using json_reachable_ok [OF assms] by (auto simp: doc_ok_def pool_ok_def pool_size_def)

definition demo_document :: json_document where
  "demo_document =
     snd (proxy_set (ElementOf (MemberOf Doc Linked ''list'') 1) (Src_string ''ab'')
       (snd (proxy_set (MemberOf (MemberOf Doc Linked ''pagers'') Copied ''4660'') (Src_int 30) (new_document True 128))))"

lemma demo_reachable: "json_reachable 128 demo_document"
  unfolding demo_document_def by (intro proxy_set_reachable reach_new) simp_all

theorem json_document_stays_in_pool_witness:
  "pool_size (jd_pool demo_document) \<le> mp_capacity (jd_pool demo_document) \<and>
   SLOT_SIZE * slots (jd_data demo_document) \<le> mp_right (jd_pool demo_document) \<and>
   slots (jd_data demo_document) = 5"
proof -
  have "slots (jd_data demo_document) = 5" by code_simp
  with json_document_stays_in_pool [OF demo_reachable] show ?thesis by simp
qed

text \<open>C16. An assignment \<open>json[k1]...[kn] = src\<close> through a chain of member proxies, on a document that
  has no other kind of value in the way and that does not run out of memory, answers true and stores the value:
  read back through the same chain it is there, every chain that is neither a beginning nor a continuation of
  the one assigned reads what it read before (those two lie above and inside the value), and reading
  changes nothing. The document behaves as a nested map that is updated.\<close>

theorem proxy_assignment_updates:
  assumes "doc_ok d" "\<forall>(pol, k)\<in>set ks. NUL \<notin> set k" "path_open (map snd ks) (jd_data d)"
    and "proxy_set (proxy_of (members ks)) src d = (b, d')" "\<not> json_overflowed d'"
  shows "b \<and> proxy_value (proxy_of (members ks)) d' = Some (stored_value src) \<and>
    (\<forall>js. (\<nexists>zs. map snd js = map snd ks @ zs) \<longrightarrow> (\<nexists>zs. map snd ks = map snd js @ zs) \<longrightarrow>
       proxy_value (proxy_of (members js)) d' = proxy_value (proxy_of (members js)) d) \<and>
    (\<forall>js. snd (upstream (proxy_of (members js)) d') = d')"
proof -
  have d': "d' = json_set (members ks) src d" "b = (\<not> json_overflowed d')"
    using assms(4) by (auto simp: proxy_set_is_path)
  note A = assignment_updates [OF assms(1-3) d'(1) assms(5)]
  have "snd (upstream (proxy_of (members js)) d') = d'" for js
    using upstream_members [of js d'] by (metis snd_conv)
  with A assms(5) d'(2) show ?thesis by (simp add: proxy_value_members)
qed

theorem proxy_assignment_updates_witness:
  "proxy_value (MemberOf (MemberOf Doc Linked ''pagers'') Linked ''4660'') demo_document = Some (VInt 30) \<and>
   proxy_value (MemberOf Doc Linked ''total'') (json_set (members [(Linked, ''total'')]) (Src_unsigned 2) demo_document)
     = Some (VUInt 2)"
proof -
  let ?ks = "[(Linked, ''total'')]"
  let ?js = "[(Linked, ''pagers''), (Linked, ''4660'')]"
  let ?d = "json_set (members ?ks) (Src_unsigned 2) demo_document"
  have p: "proxy_of (members ?ks) = MemberOf Doc Linked ''total''"
    "proxy_of (members ?js) = MemberOf (MemberOf Doc Linked ''pagers'') Linked ''4660''"
    by (simp_all add: proxy_of_def members_def)
  have *: "\<not> json_overflowed ?d" "path_open (map snd ?ks) (jd_data demo_document)" by code_simp+
  have ok: "doc_ok demo_document" "\<forall>(pol, k)\<in>set ?ks. NUL \<notin> set k"
    using json_reachable_ok [OF demo_reachable] by simp_all
  note U = proxy_assignment_updates [OF ok *(2) proxy_set_is_path *(1)]
  have A: "proxy_value (proxy_of (members ?ks)) ?d = Some (stored_value (Src_unsigned 2))"
    using U by blast
  have B: "proxy_value (proxy_of (members ?js)) ?d = proxy_value (proxy_of (members ?js)) demo_document"
    using U [THEN conjunct2, THEN conjunct2, THEN conjunct1, rule_format, of ?js] by simp
  have "proxy_value (MemberOf (MemberOf Doc Linked ''pagers'') Linked ''4660'') ?d = Some (VInt 30)" by code_simp
  with A B p show ?thesis by (simp add: stored_value_def)
qed

end
