(* ===== verification/Msgpack_Serializer.thy ===== *)
theory Msgpack_Serializer
  imports Json_Serializer
begin

text \<open>
  \<open>ArduinoJson.h\<close>: \<open>MsgPackSerializer\<close> over the counting writer. Bytes are characters. The
  RP2040 is little-endian, so \<open>fixEndianess\<close> reverses the bytes of a number. A float is written as an
  integer when it is one, else in four bytes when \<open>float\<close> holds it exactly, else in eight. The
  conversion of a \<open>float\<close> to \<open>Integer\<close> is undefined beyond the 64-bit integers, so a visit may end
  in the fault \<open>UndefinedConversion\<close>; the check in front of it lets exactly \<open>2 ^ 63\<close> through.

  The lemmas show what is written (\<open>packed_text\<close>), whatever the writer.
\<close>

section \<open>Numbers as bytes\<close>

fun little_endian :: "nat \<Rightarrow> nat \<Rightarrow> string" where
  "little_endian 0 n = []"
| "little_endian (Suc k) n = char_of (n mod 256) # little_endian k (n div 256)"

definition fixEndianess :: "string \<Rightarrow> string" where
  "fixEndianess b = rev b"

definition big_endian :: "nat \<Rightarrow> nat \<Rightarrow> string" where
  "big_endian k n = fixEndianess (little_endian k n)"

definition pack_byte :: "'w writer \<Rightarrow> nat \<Rightarrow> 'w out \<Rightarrow> 'w out" where
  "pack_byte W c = out_char W (char_of c)"

definition pack_integer :: "'w writer \<Rightarrow> nat \<Rightarrow> nat \<Rightarrow> 'w out \<Rightarrow> 'w out" where
  "pack_integer W k n = out_bytes W (big_endian k n)"

section \<open>The serializer\<close>

text \<open>\<open>visitUnsignedInteger\<close> and \<open>visitSignedInteger\<close>.\<close>

definition pack_unsigned :: "'w writer \<Rightarrow> u64 \<Rightarrow> 'w out \<Rightarrow> 'w out" where
  "pack_unsigned W n s =
     (if n \<le> 0x7F then pack_integer W 1 (unat n) s
      else if n \<le> 0xFF then pack_integer W 1 (unat n) (pack_byte W 0xCC s)
      else if n \<le> 0xFFFF then pack_integer W 2 (unat n) (pack_byte W 0xCD s)
      else if n \<le> 0xFFFFFFFF then pack_integer W 4 (unat n) (pack_byte W 0xCE s)
      else pack_integer W 8 (unat n) (pack_byte W 0xCF s))"

definition pack_signed :: "'w writer \<Rightarrow> u64 \<Rightarrow> 'w out \<Rightarrow> 'w out" where
  "pack_signed W n s =
     (if 0 <s n then pack_unsigned W n s
      else if - 0x20 \<le>s n then pack_integer W 1 (unat n) s
      else if - 0x80 \<le>s n then pack_integer W 1 (unat n) (pack_byte W 0xD0 s)
      else if - 0x8000 \<le>s n then pack_integer W 2 (unat n) (pack_byte W 0xD1 s)
      else if - 0x80000000 \<le>s n then pack_integer W 4 (unat n) (pack_byte W 0xD2 s)
      else pack_integer W 8 (unat n) (pack_byte W 0xD3 s))"

text \<open>\<open>canConvertNumber<Integer>\<close> of a \<open>float\<close>, and the conversion.\<close>

definition f32_eq :: "f32 \<Rightarrow> f32 \<Rightarrow> bool" where
  "f32_eq a b = fl_eq (decode32 a) (decode32 b)"

definition f32_le :: "f32 \<Rightarrow> f32 \<Rightarrow> bool" where
  "f32_le a b \<longleftrightarrow> fl_less (decode32 a) (decode32 b) \<or> f32_eq a b"

definition can_convert_f32 :: "f32 \<Rightarrow> bool" where
  "can_convert_f32 f \<longleftrightarrow> f32_le (f32_of_int (- (2 ^ 63))) f \<and> f32_le f (f32_of_int (2 ^ 63 - 1))"

definition f32_to_integer :: "f32 \<Rightarrow> u64 result" where
  "f32_to_integer f =
     (let n = fl_trunc (decode32 f)
      in if - (2 ^ 63) \<le> n \<and> n < 2 ^ 63 then Inr (word_of_int n) else Inl UndefinedConversion)"

text \<open>The integer a \<open>float\<close> is written as, if it is one.\<close>

definition whole_number :: "f32 \<Rightarrow> u64 option result" where
  "whole_number f =
     (if can_convert_f32 f
      then rbind (f32_to_integer f) (\<lambda>n. Inr (if f32_eq f (f32_of_int (sint n)) then Some n else None))
      else Inr None)"

definition pack_float32 :: "'w writer \<Rightarrow> f32 \<Rightarrow> 'w out \<Rightarrow> 'w out result" where
  "pack_float32 W f s =
     rbind (whole_number f) (\<lambda>x. case x of
         Some n \<Rightarrow> Inr (pack_signed W n s)
       | None \<Rightarrow> Inr (pack_integer W 4 (unat f) (pack_byte W 0xCA s)))"

definition fits_f32 :: "f64 \<Rightarrow> bool" where
  "fits_f32 f \<longleftrightarrow> f64_eq (f32_to_f64 (f64_to_f32 f)) f"

definition pack_float :: "'w writer \<Rightarrow> f64 \<Rightarrow> 'w out \<Rightarrow> 'w out result" where
  "pack_float W f s =
     (if fits_f32 f then pack_float32 W (f64_to_f32 f) s
      else Inr (pack_integer W 8 (unat f) (pack_byte W 0xCB s)))"

definition pack_string :: "'w writer \<Rightarrow> string \<Rightarrow> 'w out \<Rightarrow> 'w out" where
  "pack_string W str s =
     (let n = length str
      in out_bytes W str
           (if n < 0x20 then pack_byte W (0xA0 + n) s
            else if n < 0x100 then pack_integer W 1 n (pack_byte W 0xD9 s)
            else if n < 0x10000 then pack_integer W 2 n (pack_byte W 0xDA s)
            else pack_integer W 4 n (pack_byte W 0xDB s)))"

text \<open>The head of an array (\<open>short = 0x90\<close>) or object (\<open>0x80\<close>).\<close>

definition pack_count :: "'w writer \<Rightarrow> nat \<Rightarrow> nat \<Rightarrow> nat \<Rightarrow> 'w out \<Rightarrow> 'w out" where
  "pack_count W short long n s =
     (if n < 0x10 then pack_byte W (short + n) s
      else if n < 0x10000 then pack_integer W 2 n (pack_byte W long s)
      else pack_integer W 4 n (pack_byte W (long + 1) s))"

fun pack :: "'w writer \<Rightarrow> variant \<Rightarrow> 'w out \<Rightarrow> 'w out result"
  and pack_elements :: "'w writer \<Rightarrow> variant list \<Rightarrow> 'w out \<Rightarrow> 'w out result"
  and pack_members :: "'w writer \<Rightarrow> slot list \<Rightarrow> 'w out \<Rightarrow> 'w out result" where
  "pack W VNull s = Inr (pack_byte W 0xC0 s)"
| "pack W (VBool b) s = Inr (pack_byte W (if b then 0xC3 else 0xC2) s)"
| "pack W (VUInt n) s = Inr (pack_unsigned W n s)"
| "pack W (VInt n) s = Inr (pack_signed W n s)"
| "pack W (VFloat f) s = pack_float W f s"
| "pack W (VString own str) s = Inr (pack_string W str s)"
| "pack W (VRaw own str) s = Inr (out_bytes W str s)"
| "pack W (VArray vs) s = pack_elements W vs (pack_count W 0x90 0xDC (length vs) s)"
| "pack W (VObject ms) s = pack_members W ms (pack_count W 0x80 0xDE (length ms) s)"
| "pack_elements W [] s = Inr s"
| "pack_elements W (v # vs) s = rbind (pack W v s) (pack_elements W vs)"
| "pack_members W [] s = Inr s"
| "pack_members W (((own, k), v) # ms) s = rbind (pack W v (pack_string W (c_str k) s)) (pack_members W ms)"

text \<open>Nothing terminates the output: it is no text.\<close>

definition measureMsgPack :: "variant \<Rightarrow> nat result" where
  "measureMsgPack v = rbind (pack dummy_writer v ((), 0)) (\<lambda>(_, n). Inr n)"

definition serializeMsgPack :: "variant \<Rightarrow> string \<Rightarrow> (nat \<times> string) result" where
  "serializeMsgPack v buffer =
     rbind (pack static_writer v (\<lparr>ss_buf = buffer, ss_p = 0\<rparr>, 0)) (\<lambda>(w, n). Inr (n, ss_buf w))"

section \<open>What is written\<close>

definition unsigned_bytes :: "u64 \<Rightarrow> string" where
  "unsigned_bytes n =
     (if n \<le> 0x7F then big_endian 1 (unat n)
      else if n \<le> 0xFF then char_of (0xCC :: nat) # big_endian 1 (unat n)
      else if n \<le> 0xFFFF then char_of (0xCD :: nat) # big_endian 2 (unat n)
      else if n \<le> 0xFFFFFFFF then char_of (0xCE :: nat) # big_endian 4 (unat n)
      else char_of (0xCF :: nat) # big_endian 8 (unat n))"

definition signed_bytes :: "u64 \<Rightarrow> string" where
  "signed_bytes n =
     (if 0 <s n then unsigned_bytes n
      else if - 0x20 \<le>s n then big_endian 1 (unat n)
      else if - 0x80 \<le>s n then char_of (0xD0 :: nat) # big_endian 1 (unat n)
      else if - 0x8000 \<le>s n then char_of (0xD1 :: nat) # big_endian 2 (unat n)
      else if - 0x80000000 \<le>s n then char_of (0xD2 :: nat) # big_endian 4 (unat n)
      else char_of (0xD3 :: nat) # big_endian 8 (unat n))"

definition float_bytes :: "f64 \<Rightarrow> string" where
  "float_bytes f =
     (if fits_f32 f
      then let g = f64_to_f32 f
           in case whole_number g of
                Inr (Some n) \<Rightarrow> signed_bytes n
              | _ \<Rightarrow> char_of (0xCA :: nat) # big_endian 4 (unat g)
      else char_of (0xCB :: nat) # big_endian 8 (unat f))"

definition string_head :: "nat \<Rightarrow> string" where
  "string_head n =
     (if n < 0x20 then [char_of (0xA0 + n)]
      else if n < 0x100 then char_of (0xD9 :: nat) # big_endian 1 n
      else if n < 0x10000 then char_of (0xDA :: nat) # big_endian 2 n
      else char_of (0xDB :: nat) # big_endian 4 n)"

definition count_head :: "nat \<Rightarrow> nat \<Rightarrow> nat \<Rightarrow> string" where
  "count_head short long n =
     (if n < 0x10 then [char_of (short + n)]
      else if n < 0x10000 then char_of long # big_endian 2 n
      else char_of (long + 1) # big_endian 4 n)"

fun packed_text :: "variant \<Rightarrow> string"
  and packed_elements :: "variant list \<Rightarrow> string"
  and packed_members :: "slot list \<Rightarrow> string" where
  "packed_text VNull = [char_of (0xC0 :: nat)]"
| "packed_text (VBool b) = [char_of (if b then 0xC3 else 0xC2 :: nat)]"
| "packed_text (VUInt n) = unsigned_bytes n"
| "packed_text (VInt n) = signed_bytes n"
| "packed_text (VFloat f) = float_bytes f"
| "packed_text (VString own str) = string_head (length str) @ str"
| "packed_text (VRaw own str) = str"
| "packed_text (VArray vs) = count_head 0x90 0xDC (length vs) @ packed_elements vs"
| "packed_text (VObject ms) = count_head 0x80 0xDE (length ms) @ packed_members ms"
| "packed_elements [] = []"
| "packed_elements (v # vs) = packed_text v @ packed_elements vs"
| "packed_members [] = []"
| "packed_members (((own, k), v) # ms) =
     string_head (length (c_str k)) @ c_str k @ packed_text v @ packed_members ms"

text \<open>No float meets the undefined conversion.\<close>

definition float_converts :: "f64 \<Rightarrow> bool" where
  "float_converts f \<longleftrightarrow> \<not> fits_f32 f \<or> whole_number (f64_to_f32 f) \<noteq> Inl UndefinedConversion"

fun converts :: "variant \<Rightarrow> bool"
  and elements_convert :: "variant list \<Rightarrow> bool"
  and members_convert :: "slot list \<Rightarrow> bool" where
  "converts (VFloat f) = float_converts f"
| "converts (VArray vs) = elements_convert vs"
| "converts (VObject ms) = members_convert ms"
| "converts v = True"
| "elements_convert [] = True"
| "elements_convert (v # vs) = (converts v \<and> elements_convert vs)"
| "members_convert [] = True"
| "members_convert ((k, v) # ms) = (converts v \<and> members_convert ms)"

lemma whole_number_cases: "(\<exists>x. whole_number f = Inr x) \<or> whole_number f = Inl UndefinedConversion"
  by (simp add: whole_number_def f32_to_integer_def Let_def)

context text_writer
begin

lemma pack_byte_ready: "ready s t \<Longrightarrow> ready (pack_byte W c s) (t @ [char_of c])"
  unfolding pack_byte_def by (rule out_char_ready)

lemma pack_integer_ready: "ready s t \<Longrightarrow> ready (pack_integer W k n s) (t @ big_endian k n)"
  unfolding pack_integer_def by (rule out_bytes_ready)

lemma pack_prefixed_ready:
  assumes "ready s t"
  shows "ready (pack_integer W k n (pack_byte W c s)) (t @ char_of c # big_endian k n)"
proof -
  have "ready (pack_byte W c s) (t @ [char_of c])" by (rule pack_byte_ready [OF assms])
  from pack_integer_ready [OF this, of k n] show ?thesis by simp
qed

lemma pack_unsigned_ready: "ready s t \<Longrightarrow> ready (pack_unsigned W n s) (t @ unsigned_bytes n)"
  by (simp add: pack_unsigned_def unsigned_bytes_def pack_integer_ready pack_prefixed_ready)

lemma pack_signed_ready: "ready s t \<Longrightarrow> ready (pack_signed W n s) (t @ signed_bytes n)"
  by (simp add: pack_signed_def signed_bytes_def pack_integer_ready pack_prefixed_ready pack_unsigned_ready)

lemma pack_float_ready:
  assumes "ready s t" "float_converts f"
  shows "\<exists>s'. pack_float W f s = Inr s' \<and> ready s' (t @ float_bytes f)"
proof (cases "fits_f32 f")
  case True
  with assms(2) whole_number_cases obtain x where "whole_number (f64_to_f32 f) = Inr x"
    by (auto simp: float_converts_def)
  with True assms(1) show ?thesis
    by (cases x) (simp_all add: pack_float_def pack_float32_def float_bytes_def pack_signed_ready pack_prefixed_ready)
next
  case False
  with assms(1) show ?thesis by (simp add: pack_float_def float_bytes_def pack_prefixed_ready)
qed

lemma pack_string_ready: "ready s t \<Longrightarrow> ready (pack_string W str s) (t @ string_head (length str) @ str)"
proof -
  assume s: "ready s t"
  have "ready (if length str < 0x20 then pack_byte W (0xA0 + length str) s
     else if length str < 0x100 then pack_integer W 1 (length str) (pack_byte W 0xD9 s)
     else if length str < 0x10000 then pack_integer W 2 (length str) (pack_byte W 0xDA s)
     else pack_integer W 4 (length str) (pack_byte W 0xDB s)) (t @ string_head (length str))"
    using s by (simp add: string_head_def pack_byte_ready pack_prefixed_ready)
  from out_bytes_ready [OF this, of str] show ?thesis by (simp add: pack_string_def Let_def)
qed

lemma pack_count_ready: "ready s t \<Longrightarrow> ready (pack_count W short long n s) (t @ count_head short long n)"
  by (simp add: pack_count_def count_head_def pack_byte_ready pack_prefixed_ready)

lemma pack_ready:
  "ready s t \<Longrightarrow> converts v \<Longrightarrow> \<exists>s'. pack W v s = Inr s' \<and> ready s' (t @ packed_text v)"
  "ready s t \<Longrightarrow> elements_convert vs \<Longrightarrow> \<exists>s'. pack_elements W vs s = Inr s' \<and> ready s' (t @ packed_elements vs)"
  "ready s t \<Longrightarrow> members_convert ms \<Longrightarrow> \<exists>s'. pack_members W ms s = Inr s' \<and> ready s' (t @ packed_members ms)"
proof (induction v and vs and ms arbitrary: s t and s t and s t rule: packed_text_packed_elements_packed_members.induct)
  case (8 vs)
  from 8(1) [OF pack_count_ready [OF 8(2)]] 8(3) show ?case by simp
next
  case (9 ms)
  from 9(1) [OF pack_count_ready [OF 9(2)]] 9(3) show ?case by simp
next
  case (11 v vs)
  then obtain s1 where "pack W v s = Inr s1" "ready s1 (t @ packed_text v)" by fastforce
  with 11(2) [of s1 "t @ packed_text v"] 11(4) show ?case by auto
next
  case (13 own k v ms)
  from 13(1) [OF pack_string_ready [OF 13(3), of "c_str k"]] 13(4) obtain s1 where
    "pack W v (pack_string W (c_str k) s) = Inr s1"
    "ready s1 ((t @ string_head (length (c_str k)) @ c_str k) @ packed_text v)" by auto
  with 13(2) [of s1 "(t @ string_head (length (c_str k)) @ c_str k) @ packed_text v"] 13(4) show ?case by auto
qed (simp_all add: pack_byte_ready pack_unsigned_ready pack_signed_ready pack_float_ready pack_string_ready out_bytes_ready
    del: split_paired_Ex)

end

lemma measureMsgPack_length: "converts v \<Longrightarrow> measureMsgPack v = Inr (length (packed_text v))"
proof -
  assume c: "converts v"
  have "dummy.ready ((), 0) []" by (simp add: dummy.ready_def)
  from dummy.pack_ready(1) [OF this c] show ?thesis by (auto simp: measureMsgPack_def dummy.ready_def)
qed

lemma serializeMsgPack_result:
  assumes "converts v"
  shows "serializeMsgPack v b =
     Inr (min (length b) (length (packed_text v)), take (length b) (packed_text v) @ drop (length (packed_text v)) b)"
  using static.pack_ready(1) [OF static_start assms, where b = b]
  by (auto simp: serializeMsgPack_def static.ready_def static_holds_def split: prod.splits)

text \<open>The one \<open>float\<close> whose conversion is undefined.\<close>

lemma two_63_is_undefined: "measureMsgPack (VFloat (f64_of_int (2 ^ 63))) = Inl UndefinedConversion"
proof -
  have "f64_of_int (2 ^ 63) = 0x43E0000000000000" by (simp add: float_eval Let_def)
  moreover have "f64_to_f32 0x43E0000000000000 = 0x5F000000" by (simp add: float_eval Let_def)
  moreover have "fits_f32 0x43E0000000000000" by (simp add: fits_f32_def float_eval Let_def)
  moreover have "can_convert_f32 0x5F000000"
    by (simp add: can_convert_f32_def f32_le_def f32_eq_def float_eval Let_def)
  moreover have "fl_trunc (decode32 0x5F000000) = 2 ^ 63" by (simp add: float_eval Let_def)
  ultimately show ?thesis
    by (simp add: measureMsgPack_def pack_float_def pack_float32_def whole_number_def f32_to_integer_def)
qed

end
