(* ===== verification/Msgpack_Deserializer.thy ===== *)
theory Msgpack_Deserializer
  imports Json_Deserializer Msgpack_Serializer
begin

text \<open>
  \<open>ArduinoJson.h\<close>: \<open>MsgPackDeserializer\<close> over an \<open>IteratorReader\<close>, with the string storage, the
  filters and the nesting limit of the JSON parser.

  A value is read into a slot, or nowhere when the filter refuses it: the target is then the null
  pointer (\<open>None\<close>), as is the collection of an array or object the filter refuses. Storing
  through a null pointer is the fault \<open>NullPointer\<close>. As in the JSON parser, a handler is given the
  handler of nested values, \<open>None\<close> when the nesting limit is reached.
\<close>

section \<open>Reading bytes\<close>

record msgpack_parser =
  mk_input :: string
  mk_found :: bool
  mk_error :: deserialization_error
  mk_pool :: memory_pool
  mk_storage :: string_copier

definition mk_fail :: "deserialization_error \<Rightarrow> msgpack_parser \<Rightarrow> msgpack_parser" where
  "mk_fail e s = s\<lparr>mk_error := e\<rparr>"

definition read_byte :: "msgpack_parser \<Rightarrow> nat option \<times> msgpack_parser" where
  "read_byte s =
     (case reader_read (mk_input s) of
        (None, r) \<Rightarrow> (None, mk_fail IncompleteInput (s\<lparr>mk_input := r\<rparr>))
      | (Some c, r) \<Rightarrow> (Some (of_char c), s\<lparr>mk_input := r\<rparr>))"

text \<open>\<open>IteratorReader::readBytes\<close>.\<close>

fun reader_read_bytes :: "nat \<Rightarrow> string \<Rightarrow> string \<times> string" where
  "reader_read_bytes (Suc n) (c # r) = (let (b, r') = reader_read_bytes n r in (c # b, r'))"
| "reader_read_bytes n r = ([], r)"

definition read_bytes :: "nat \<Rightarrow> msgpack_parser \<Rightarrow> string option \<times> msgpack_parser" where
  "read_bytes n s =
     (let (b, r) = reader_read_bytes n (mk_input s); s = s\<lparr>mk_input := r\<rparr>
      in if length b = n then (Some b, s) else (None, mk_fail IncompleteInput s))"

fun skip_bytes :: "nat \<Rightarrow> msgpack_parser \<Rightarrow> bool \<times> msgpack_parser" where
  "skip_bytes 0 s = (True, s)"
| "skip_bytes (Suc n) s =
     (case reader_read (mk_input s) of
        (None, r) \<Rightarrow> (False, mk_fail IncompleteInput (s\<lparr>mk_input := r\<rparr>))
      | (Some c, r) \<Rightarrow> skip_bytes n (s\<lparr>mk_input := r\<rparr>))"

text \<open>The number in \<open>k\<close> bytes; \<open>0\<close> stands in when they are not there.\<close>

fun bytes_value :: "string \<Rightarrow> nat" where
  "bytes_value [] = 0"
| "bytes_value (c # b) = of_char c + 256 * bytes_value b"

definition read_number :: "nat \<Rightarrow> msgpack_parser \<Rightarrow> nat option \<times> msgpack_parser" where
  "read_number k s =
     (case read_bytes k s of
        (None, s) \<Rightarrow> (None, s)
      | (Some b, s) \<Rightarrow> (Some (bytes_value (fixEndianess b)), s))"

section \<open>Strings\<close>

definition mk_start_string :: "msgpack_parser \<Rightarrow> msgpack_parser" where
  "mk_start_string s = (let (sc, p) = start_string (mk_pool s) in s\<lparr>mk_storage := sc, mk_pool := p\<rparr>)"

definition mk_append :: "char \<Rightarrow> msgpack_parser \<Rightarrow> msgpack_parser" where
  "mk_append c s = (let (sc, p) = append_char c (mk_storage s, mk_pool s) in s\<lparr>mk_storage := sc, mk_pool := p\<rparr>)"

definition mk_save :: "msgpack_parser \<Rightarrow> stored_string \<times> msgpack_parser" where
  "mk_save s = (let (str, p) = save (mk_storage s) (mk_pool s) in (str, s\<lparr>mk_pool := p\<rparr>))"

fun read_chars :: "nat \<Rightarrow> msgpack_parser \<Rightarrow> bool \<times> msgpack_parser" where
  "read_chars 0 s =
     (if \<not> is_valid (mk_pool s) then (False, mk_fail NoMemory s) else (True, s))"
| "read_chars (Suc n) s =
     (case read_bytes 1 s of
        (None, s) \<Rightarrow> (False, s)
      | (Some b, s) \<Rightarrow> read_chars n (mk_append (hd b) s))"

definition read_string :: "nat \<Rightarrow> msgpack_parser \<Rightarrow> bool \<times> msgpack_parser" where
  "read_string n s = read_chars n (mk_start_string s)"

definition read_sized_string :: "nat \<Rightarrow> msgpack_parser \<Rightarrow> bool \<times> msgpack_parser" where
  "read_sized_string k s =
     (case read_number k s of (None, s) \<Rightarrow> (False, s) | (Some n, s) \<Rightarrow> read_string n s)"

definition skip_sized :: "nat \<Rightarrow> msgpack_parser \<Rightarrow> bool \<times> msgpack_parser" where
  "skip_sized k s =
     (case read_number k s of (None, s) \<Rightarrow> (False, s) | (Some n, s) \<Rightarrow> skip_bytes n s)"

text \<open>\<open>size + 1U\<close> is computed in 32 bits.\<close>

definition skip_ext :: "nat \<Rightarrow> msgpack_parser \<Rightarrow> bool \<times> msgpack_parser" where
  "skip_ext k s =
     (case read_number k s of
        (None, s) \<Rightarrow> (False, s)
      | (Some n, s) \<Rightarrow> skip_bytes ((n + 1) mod 2 ^ 32) s)"

definition read_key :: "msgpack_parser \<Rightarrow> bool \<times> msgpack_parser" where
  "read_key s =
     (case read_byte s of
        (None, s) \<Rightarrow> (False, s)
      | (Some code, s) \<Rightarrow>
          (if code div 32 = 5 then read_string (code mod 32) s
           else if code = 0xD9 then read_sized_string 1 s
           else if code = 0xDA then read_sized_string 2 s
           else if code = 0xDB then read_sized_string 4 s
           else (False, mk_fail InvalidInput s)))"

section \<open>Values\<close>

type_synonym target = "variant option"
type_synonym mk_reader = "json_filter \<Rightarrow> target \<Rightarrow> msgpack_parser \<Rightarrow> (bool \<times> target \<times> msgpack_parser) result"

text \<open>\<open>variant->set...(v)\<close>, and what only reads on.\<close>

definition mk_set :: "variant \<Rightarrow> target \<Rightarrow> msgpack_parser \<Rightarrow> (bool \<times> target \<times> msgpack_parser) result" where
  "mk_set v w s = (case w of None \<Rightarrow> Inl NullPointer | Some _ \<Rightarrow> Inr (True, Some v, s))"

definition mk_skip :: "target \<Rightarrow> bool \<times> msgpack_parser \<Rightarrow> (bool \<times> target \<times> msgpack_parser) result" where
  "mk_skip w = (\<lambda>(ok, s). Inr (ok, w, s))"

definition read_scalar ::
    "nat \<Rightarrow> (nat \<Rightarrow> variant) \<Rightarrow> target \<Rightarrow> msgpack_parser \<Rightarrow> (bool \<times> target \<times> msgpack_parser) result" where
  "read_scalar k value w s =
     (case read_number k s of
        (None, s) \<Rightarrow> Inr (False, w, s)
      | (Some n, s) \<Rightarrow> mk_set (value n) w s)"

text \<open>The conversions of the integer types to \<open>UInt\<close> and \<open>Integer\<close>.\<close>

definition unsigned_value :: "nat \<Rightarrow> variant" where
  "unsigned_value n = VUInt (of_nat n)"

definition signed_value :: "nat \<Rightarrow> nat \<Rightarrow> variant" where
  "signed_value k n = VInt (word_of_int (signed_take_bit (8 * k - 1) (int n)))"

definition float32_value :: "nat \<Rightarrow> variant" where
  "float32_value n = VFloat (f32_to_f64 (of_nat n))"

definition float64_value :: "nat \<Rightarrow> variant" where
  "float64_value n = VFloat (of_nat n)"

definition finish_string ::
    "target \<Rightarrow> bool \<times> msgpack_parser \<Rightarrow> (bool \<times> target \<times> msgpack_parser) result" where
  "finish_string w = (\<lambda>(ok, s).
     if \<not> ok then Inr (False, w, s)
     else let (str, s) = mk_save s in mk_set (set_string str) w s)"

text \<open>The elements. A slot is taken from the pool before the collection is looked at.\<close>

fun read_elements ::
    "mk_reader \<Rightarrow> json_filter \<Rightarrow> nat \<Rightarrow> variant list option \<Rightarrow> msgpack_parser \<Rightarrow>
     (bool \<times> variant list option \<times> msgpack_parser) result" where
  "read_elements rv f 0 vs s = Inr (True, vs, s)"
| "read_elements rv f (Suc n) vs s =
     (if filter_allow f
      then (case alloc_variant (mk_pool s) of
              (False, p) \<Rightarrow> Inr (False, vs, mk_fail NoMemory (s\<lparr>mk_pool := p\<rparr>))
            | (True, p) \<Rightarrow>
                (case vs of
                   None \<Rightarrow> Inl NullPointer
                 | Some xs \<Rightarrow>
                     rbind (rv f (Some VNull) (s\<lparr>mk_pool := p\<rparr>))
                       (\<lambda>(ok, v, s).
                          (let vs = Some (xs @ [the v])
                           in if ok then read_elements rv f n vs s else Inr (False, vs, s)))))
      else rbind (rv f None s)
             (\<lambda>(ok, v, s). if ok then read_elements rv f n vs s else Inr (False, vs, s)))"

definition to_array :: "target \<Rightarrow> variant list result" where
  "to_array w = (case w of None \<Rightarrow> Inl NullPointer | Some _ \<Rightarrow> Inr [])"

definition read_array ::
    "mk_reader option \<Rightarrow> json_filter \<Rightarrow> nat \<Rightarrow> target \<Rightarrow> msgpack_parser \<Rightarrow> (bool \<times> target \<times> msgpack_parser) result" where
  "read_array inner f n w s =
     (case inner of
        None \<Rightarrow> Inr (False, w, mk_fail TooDeep s)
      | Some rv \<Rightarrow>
          (if filter_allow_array f
           then rbind (to_array w) (\<lambda>vs.
                  rbind (read_elements rv (filter_element f) n (Some vs) s)
                    (\<lambda>(ok, vs, s). Inr (ok, map_option VArray vs, s)))
           else rbind (read_elements rv (filter_element f) n None s)
                  (\<lambda>(ok, vs, s). Inr (ok, w, s))))"

text \<open>The members. Nothing asks whether the object has the key already.\<close>

fun read_members ::
    "mk_reader \<Rightarrow> json_filter \<Rightarrow> nat \<Rightarrow> slot list option \<Rightarrow> msgpack_parser \<Rightarrow>
     (bool \<times> slot list option \<times> msgpack_parser) result" where
  "read_members rv f 0 ms s = Inr (True, ms, s)"
| "read_members rv f (Suc n) ms s =
     (case read_key s of
        (False, s) \<Rightarrow> Inr (False, ms, s)
      | (True, s) \<Rightarrow>
          (let mf = filter_member (c_str (sc_buf (mk_storage s))) f
           in if filter_allow mf
              then (let (key, s) = mk_save s
                    in case alloc_variant (mk_pool s) of
                         (False, p) \<Rightarrow> Inr (False, ms, mk_fail NoMemory (s\<lparr>mk_pool := p\<rparr>))
                       | (True, p) \<Rightarrow>
                           (case ms of
                              None \<Rightarrow> Inl NullPointer
                            | Some xs \<Rightarrow>
                                rbind (rv mf (Some VNull) (s\<lparr>mk_pool := p\<rparr>))
                                  (\<lambda>(ok, v, s).
                                     (let ms = Some (xs @ [(set_key key, the v)])
                                      in if ok then read_members rv f n ms s else Inr (False, ms, s)))))
              else rbind (rv mf None s)
                     (\<lambda>(ok, v, s). if ok then read_members rv f n ms s else Inr (False, ms, s))))"

definition to_object :: "target \<Rightarrow> slot list result" where
  "to_object w = (case w of None \<Rightarrow> Inl NullPointer | Some _ \<Rightarrow> Inr [])"

definition read_object ::
    "mk_reader option \<Rightarrow> json_filter \<Rightarrow> nat \<Rightarrow> target \<Rightarrow> msgpack_parser \<Rightarrow> (bool \<times> target \<times> msgpack_parser) result" where
  "read_object inner f n w s =
     (case inner of
        None \<Rightarrow> Inr (False, w, mk_fail TooDeep s)
      | Some rv \<Rightarrow>
          (if filter_allow_object f
           then rbind (to_object w) (\<lambda>ms.
                  rbind (read_members rv f n (Some ms) s)
                    (\<lambda>(ok, ms, s). Inr (ok, map_option VObject ms, s)))
           else rbind (read_members rv f n None s)
                  (\<lambda>(ok, ms, s). Inr (ok, w, s))))"

definition read_sized ::
    "nat \<Rightarrow> (nat \<Rightarrow> target \<Rightarrow> msgpack_parser \<Rightarrow> (bool \<times> target \<times> msgpack_parser) result) \<Rightarrow>
     target \<Rightarrow> msgpack_parser \<Rightarrow> (bool \<times> target \<times> msgpack_parser) result" where
  "read_sized k body w s =
     (case read_number k s of
        (None, s) \<Rightarrow> Inr (False, w, s)
      | (Some n, s) \<Rightarrow> body n w s)"

text \<open>The first \<open>switch\<close> of \<open>parseVariant\<close>.\<close>

definition scalar_or_skip ::
    "bool \<Rightarrow> nat \<Rightarrow> (nat \<Rightarrow> variant) \<Rightarrow> target \<Rightarrow> msgpack_parser \<Rightarrow> (bool \<times> target \<times> msgpack_parser) result" where
  "scalar_or_skip allow_value k value w s =
     (if allow_value then read_scalar k value w s else mk_skip w (skip_bytes k s))"

definition string_or_skip ::
    "bool \<Rightarrow> nat \<Rightarrow> target \<Rightarrow> msgpack_parser \<Rightarrow> (bool \<times> target \<times> msgpack_parser) result" where
  "string_or_skip allow_value k w s =
     (if allow_value then finish_string w (read_sized_string k s) else mk_skip w (skip_sized k s))"

definition read_coded ::
    "mk_reader option \<Rightarrow> json_filter \<Rightarrow> nat \<Rightarrow> target \<Rightarrow> msgpack_parser \<Rightarrow> (bool \<times> target \<times> msgpack_parser) result" where
  "read_coded inner f code w s =
     (let av = filter_allow_value f
      in if code = 0xC0 then Inr (True, w, s)
         else if code = 0xC1 then Inr (False, w, mk_fail InvalidInput s)
         else if code = 0xC2 then (if av then mk_set (VBool False) w s else Inr (True, w, s))
         else if code = 0xC3 then (if av then mk_set (VBool True) w s else Inr (True, w, s))
         else if code = 0xC4 then mk_skip w (skip_sized 1 s)
         else if code = 0xC5 then mk_skip w (skip_sized 2 s)
         else if code = 0xC6 then mk_skip w (skip_sized 4 s)
         else if code = 0xC7 then mk_skip w (skip_ext 1 s)
         else if code = 0xC8 then mk_skip w (skip_ext 2 s)
         else if code = 0xC9 then mk_skip w (skip_ext 4 s)
         else if code = 0xCA then scalar_or_skip av 4 float32_value w s
         else if code = 0xCB then scalar_or_skip av 8 float64_value w s
         else if code = 0xCC then scalar_or_skip av 1 unsigned_value w s
         else if code = 0xCD then scalar_or_skip av 2 unsigned_value w s
         else if code = 0xCE then scalar_or_skip av 4 unsigned_value w s
         else if code = 0xCF then scalar_or_skip av 8 unsigned_value w s
         else if code = 0xD0 then scalar_or_skip av 1 (signed_value 1) w s
         else if code = 0xD1 then scalar_or_skip av 2 (signed_value 2) w s
         else if code = 0xD2 then scalar_or_skip av 4 (signed_value 4) w s
         else if code = 0xD3 then scalar_or_skip av 8 (signed_value 8) w s
         else if code = 0xD4 then mk_skip w (skip_bytes 2 s)
         else if code = 0xD5 then mk_skip w (skip_bytes 3 s)
         else if code = 0xD6 then mk_skip w (skip_bytes 5 s)
         else if code = 0xD7 then mk_skip w (skip_bytes 9 s)
         else if code = 0xD8 then mk_skip w (skip_bytes 17 s)
         else if code = 0xD9 then string_or_skip av 1 w s
         else if code = 0xDA then string_or_skip av 2 w s
         else if code = 0xDB then string_or_skip av 4 w s
         else if code = 0xDC then read_sized 2 (read_array inner f) w s
         else if code = 0xDD then read_sized 4 (read_array inner f) w s
         else if code = 0xDE then read_sized 2 (read_object inner f) w s
         else read_sized 4 (read_object inner f) w s)"

definition read_value :: "mk_reader option \<Rightarrow> mk_reader" where
  "read_value inner f w s =
     (case read_byte s of
        (None, s) \<Rightarrow> Inr (False, w, s)
      | (Some code, s) \<Rightarrow>
          (let s = s\<lparr>mk_found := True\<rparr>; av = filter_allow_value f
           in if 0xC0 \<le> code \<and> code \<le> 0xDF then read_coded inner f code w s
              else if code div 16 = 8 then read_object inner f (code mod 16) w s
              else if code div 16 = 9 then read_array inner f (code mod 16) w s
              else if code div 32 = 5
              then (if av then finish_string w (read_string (code mod 32) s)
                    else mk_skip w (skip_bytes (code mod 32) s))
              else if av then mk_set (signed_value 1 code) w s
              else Inr (True, w, s)))"

primrec read_variant :: "nat \<Rightarrow> mk_reader" where
  "read_variant 0 = read_value None"
| "read_variant (Suc limit) = read_value (Some (read_variant limit))"

definition new_msgpack_parser :: "memory_pool \<Rightarrow> string \<Rightarrow> msgpack_parser" where
  "new_msgpack_parser p input =
     \<lparr>mk_input = input, mk_found = False, mk_error = Ok, mk_pool = p, mk_storage = \<lparr>sc_buf = [], sc_capacity = 0\<rparr>\<rparr>"

definition deserializeMsgPack ::
    "nat \<Rightarrow> json_filter \<Rightarrow> string \<Rightarrow> json_document \<Rightarrow> (deserialization_error \<times> json_document) result" where
  "deserializeMsgPack limit f input d =
     rbind (read_variant limit f (Some VNull) (new_msgpack_parser (jd_pool (json_clear d)) input))
       (\<lambda>(ok, v, s). Inr (if mk_found s then mk_error s else EmptyInput, d\<lparr>jd_pool := mk_pool s, jd_data := the v\<rparr>))"

lemma allow_all [simp]:
  "filter_allow_value AllowAll" "filter_allow AllowAll" "filter_allow_array AllowAll"
  "filter_allow_object AllowAll" "filter_element AllowAll = AllowAll" "filter_member k AllowAll = AllowAll"
  by (simp_all add: filter_allow_value_def filter_allow_def filter_allow_array_def filter_allow_object_def
      filter_element_def filter_member_def)

end
