(* ===== verification/Msgpack_Round_Trip.thy ===== *)
theory Msgpack_Round_Trip
  imports Msgpack_Deserializer Json_Round_Trip Ieee_Exact
begin

text \<open>
  \<open>deserializeMsgPack\<close> undoes \<open>serializeMsgPack\<close> (\<open>ArduinoJson.h\<close>). What is read back is
  \<open>packed\<close> of the value that was written: small numbers are signed and large ones unsigned, a float
  that is whole is an integer, one that fits in four bytes is the \<open>float\<close> that equals it, and strings
  are copies. \<open>same_value\<close> says, without regard to the types numbers are kept in, when two values are
  the same: its numbers are compared as \<open>m * 2 ^ e\<close>, exactly. Lengths are below \<open>2 ^ 32\<close>, as on the
  RP2040 they must be; the float \<open>2 ^ 63\<close>, whose conversion is undefined, is excluded.
\<close>

section \<open>Numbers\<close>

fun packed_unsigned :: "u64 \<Rightarrow> variant" where
  "packed_unsigned n = (if n \<le> 0x7F then VInt n else VUInt n)"

definition packed_signed :: "u64 \<Rightarrow> variant" where
  "packed_signed n = (if 0 <s n then packed_unsigned n else VInt n)"

definition packed_float :: "f64 \<Rightarrow> variant" where
  "packed_float f =
     (if fits_f32 f
      then let g = f64_to_f32 f
           in case whole_number g of Inr (Some n) \<Rightarrow> packed_signed n | _ \<Rightarrow> VFloat (f32_to_f64 g)
      else VFloat f)"

lemma length_little_endian [simp]: "length (little_endian k n) = k"
  by (induction k arbitrary: n) simp_all

lemma length_big_endian [simp]: "length (big_endian k n) = k"
  by (simp add: big_endian_def fixEndianess_def)

lemma bytes_value_little_endian: "bytes_value (little_endian k n) = n mod 256 ^ k"
  by (induction k arbitrary: n) (simp_all add: mod_mult2_eq)

lemma little_endian_mod: "little_endian k (n mod 256 ^ k) = little_endian k n"
proof (induction k arbitrary: n)
  case (Suc k)
  have "n mod 256 ^ Suc k mod 256 = n mod 256" by (simp add: mod_mult2_eq mod_mod_cancel)
  moreover have "n mod 256 ^ Suc k div 256 = n div 256 mod 256 ^ k" by (simp add: mod_mult2_eq)
  ultimately show ?case using Suc by simp
qed simp

lemma big_endian_1: "big_endian (Suc 0) n = [char_of (n mod 256)]"
  by (simp add: big_endian_def fixEndianess_def)

lemma reader_read_bytes_append: "reader_read_bytes (length b) (b @ t) = (b, t)"
  by (induction b) simp_all

lemma read_number_bytes:
  assumes "mk_input s = big_endian k n @ t"
  shows "read_number k s = (Some (n mod 256 ^ k), s\<lparr>mk_input := t\<rparr>)"
proof -
  have "reader_read_bytes k (mk_input s) = (big_endian k n, t)"
    using reader_read_bytes_append [of "big_endian k n" t] assms by simp
  then show ?thesis
    by (simp add: read_number_def read_bytes_def big_endian_def fixEndianess_def bytes_value_little_endian)
qed

text \<open>A signed number comes back from the bytes that hold it.\<close>

lemma signed_value_word:
  fixes w :: u64
  assumes "0 < k" "k \<le> 8" "- (2 ^ (8 * k - 1)) \<le> sint w" "sint w < 2 ^ (8 * k - 1)"
  shows "signed_value k (unat w mod 256 ^ k) = VInt w"
proof -
  have p: "(256 :: int) ^ k = 2 ^ (8 * k)" by (simp add: power_mult)
  have u: "uint w = take_bit 64 (sint w)" using uint_sint [of w] by simp
  have "int (unat w mod 256 ^ k) = uint w mod 256 ^ k" by (simp add: zmod_int)
  also have "\<dots> = take_bit (8 * k) (take_bit 64 (sint w))" by (simp only: take_bit_eq_mod [of "8 * k"] p u)
  also have "\<dots> = take_bit (8 * k) (sint w)" using assms(2) by (simp add: take_bit_take_bit min_def)
  finally have e: "int (unat w mod 256 ^ k) = take_bit (8 * k) (sint w)" .
  have "\<not> 8 * k \<le> 8 * k - Suc 0" using assms(1) by simp
  then have "signed_take_bit (8 * k - 1) (int (unat w mod 256 ^ k)) = signed_take_bit (8 * k - 1) (sint w)"
    unfolding e by (simp add: signed_take_bit_take_bit)
  also have "\<dots> = sint w" using assms(3,4) by (intro signed_take_bit_int_eq_self) simp_all
  finally show ?thesis by (simp add: signed_value_def)
qed

lemma read_byte_char:
  assumes "mk_input s = char_of c # r" "c < 256"
  shows "read_byte s = (Some c, s\<lparr>mk_input := r\<rparr>)"
  using assms by (simp add: read_byte_def reader_read_def)

lemma read_value_coded:
  assumes "mk_input s = char_of c # r" "0xC0 \<le> c" "c \<le> 0xDF"
  shows "read_value inner f w s = read_coded inner f c w (s\<lparr>mk_input := r, mk_found := True\<rparr>)"
  using assms read_byte_char [of s c r] by (simp add: read_value_def Let_def)

abbreviation advanced :: "string \<Rightarrow> msgpack_parser \<Rightarrow> msgpack_parser" where
  "advanced t s \<equiv> s\<lparr>mk_input := t, mk_found := True\<rparr>"

lemma read_scalar_bytes:
  assumes "mk_input s = big_endian k n @ t"
  shows "scalar_or_skip True k value (Some w) s = Inr (True, Some (value (n mod 256 ^ k)), s\<lparr>mk_input := t\<rparr>)"
  using read_number_bytes [OF assms] by (simp add: scalar_or_skip_def read_scalar_def mk_set_def)

text \<open>A single byte that is a number.\<close>

lemma read_fixint:
  fixes n :: u64
  assumes "mk_input s = big_endian 1 (unat n) @ t" "- 32 \<le> sint n" "sint n \<le> 127"
  shows "read_value inner AllowAll (Some VNull) s = Inr (True, Some (VInt n), advanced t s)"
proof -
  let ?c = "unat n mod 256"
  have "int ?c = sint n mod 256"
  proof -
    have "uint n = sint n mod 2 ^ 64" by (simp add: uint_sint take_bit_eq_mod)
    then have "uint n mod 256 = sint n mod 256" by (simp only:) (rule mod_mod_cancel, simp)
    then show ?thesis by (simp add: zmod_int)
  qed
  moreover have "sint n mod 256 = sint n \<or> sint n mod 256 = sint n + 256 \<and> sint n < 0"
  proof (cases "sint n < 0")
    case True
    have "(sint n + 256) mod 256 = sint n + 256" using True assms(2) by (intro mod_pos_pos_trivial) linarith+
    then show ?thesis using True by (simp only: mod_add_self2) simp
  next
    case False
    then show ?thesis using assms(3) by (intro disjI1 mod_pos_pos_trivial) linarith+
  qed
  ultimately have c: "?c < 128 \<or> 224 \<le> ?c" using assms(2,3) by linarith
  have "?c div 16 \<noteq> 8" "?c div 16 \<noteq> 9" "?c div 32 \<noteq> 5" "\<not> (0xC0 \<le> ?c \<and> ?c \<le> 0xDF)"
    using c by auto
  moreover have "signed_value 1 ?c = VInt n" using signed_value_word [of 1 n] assms(2,3) by simp
  moreover have "read_byte s = (Some ?c, s\<lparr>mk_input := t\<rparr>)"
    using read_byte_char [of s ?c t] assms(1) by (simp add: big_endian_1)
  ultimately show ?thesis by (auto simp: read_value_def Let_def mk_set_def)
qed

lemma uint_le: "n \<le> m \<longleftrightarrow> uint n \<le> uint m"
  by (rule word_le_def)

lemma unsigned_value_unat [simp]: "unsigned_value (unat n) = VUInt n"
  by (simp add: unsigned_value_def)

lemma read_unsigned:
  assumes "mk_input s = unsigned_bytes n @ t"
  shows "read_value inner AllowAll (Some VNull) s = Inr (True, Some (packed_unsigned n), advanced t s)"
proof (cases "n \<le> 0x7F")
  case True
  then have "uint n \<le> 127" by (simp add: uint_le)
  then have "sint n = uint n" by (intro sint_small) simp
  then show ?thesis using True assms read_fixint [of s n t inner] uint_ge_0 [of n] \<open>uint n \<le> 127\<close>
    by (simp add: unsigned_bytes_def)
next
  case False
  define c k :: nat where "c = (if n \<le> 0xFF then 0xCC else if n \<le> 0xFFFF then 0xCD else if n \<le> 0xFFFFFFFF then 0xCE else 0xCF)"
    and "k = (if n \<le> 0xFF then 1 else if n \<le> 0xFFFF then 2 else if n \<le> 0xFFFFFFFF then 4 else 8)"
  have b: "mk_input s = char_of c # big_endian k (unat n) @ t"
    using assms False by (auto simp: unsigned_bytes_def c_def k_def)
  have "unat n < 256 ^ k"
  proof -
    have "unat n < 256" if "n \<le> 0xFF" using that by (simp add: word_le_nat_alt)
    moreover have "unat n < 65536" if "n \<le> 0xFFFF" using that by (simp add: word_le_nat_alt)
    moreover have "unat n < 4294967296" if "n \<le> 0xFFFFFFFF" using that by (simp add: word_le_nat_alt)
    moreover have "unat n < 18446744073709551616" using unsigned_less [of n, where 'a = nat] by simp
    ultimately show ?thesis by (auto simp: k_def)
  qed
  then have v: "unsigned_value (unat n mod 256 ^ k) = VUInt n" by simp
  have "0xC0 \<le> c" "c \<le> 0xDF" by (simp_all add: c_def)
  note r = read_value_coded [OF b this]
  have i: "mk_input (advanced (big_endian k (unat n) @ t) s) = big_endian k (unat n) @ t" by simp
  have "read_coded inner AllowAll c (Some VNull) (advanced (big_endian k (unat n) @ t) s) =
     scalar_or_skip True k unsigned_value (Some VNull) (advanced (big_endian k (unat n) @ t) s)"
    by (simp add: read_coded_def c_def k_def)
  also have "\<dots> = Inr (True, Some (VUInt n), advanced t s)"
    using read_scalar_bytes [OF i, of unsigned_value VNull] v by simp
  finally show ?thesis using r False by simp
qed

lemma read_signed:
  assumes "mk_input s = signed_bytes n @ t"
  shows "read_value inner AllowAll (Some VNull) s = Inr (True, Some (packed_signed n), advanced t s)"
proof (cases "0 <s n")
  case True
  then show ?thesis using read_unsigned [of s n t inner] assms by (simp add: signed_bytes_def packed_signed_def)
next
  case False
  then have neg: "sint n \<le> 0" by (simp add: word_sless_alt)
  show ?thesis
  proof (cases "- 0x20 \<le>s n")
    case True
    then show ?thesis using read_fixint [of s n t inner] assms False neg
      by (simp add: signed_bytes_def packed_signed_def word_sle_eq)
  next
    case nfix: False
    define c k :: nat where "c = (if - 0x80 \<le>s n then 0xD0 else if - 0x8000 \<le>s n then 0xD1 else if - 0x80000000 \<le>s n then 0xD2 else 0xD3)"
      and "k = (if - 0x80 \<le>s n then 1 else if - 0x8000 \<le>s n then 2 else if - 0x80000000 \<le>s n then 4 else 8)"
    have b: "mk_input s = char_of c # big_endian k (unat n) @ t"
      using assms False nfix by (auto simp: signed_bytes_def c_def k_def)
    have "- (2 ^ 63) \<le> sint n" using sint_ge [of n] by simp
    then have "signed_value k (unat n mod 256 ^ k) = VInt n"
      using neg by (intro signed_value_word) (auto simp: k_def word_sle_eq)
    note v = this
    have "0xC0 \<le> c" "c \<le> 0xDF" by (simp_all add: c_def)
    note r = read_value_coded [OF b this]
    have i: "mk_input (advanced (big_endian k (unat n) @ t) s) = big_endian k (unat n) @ t" by simp
    have "read_coded inner AllowAll c (Some VNull) (advanced (big_endian k (unat n) @ t) s) =
       scalar_or_skip True k (signed_value k) (Some VNull) (advanced (big_endian k (unat n) @ t) s)"
      by (simp add: read_coded_def c_def k_def)
    also have "\<dots> = Inr (True, Some (VInt n), advanced t s)"
      using read_scalar_bytes [OF i, of "signed_value k" VNull] v by simp
    finally show ?thesis using r False by (simp add: packed_signed_def)
  qed
qed

lemma read_float:
  assumes "mk_input s = float_bytes f @ t"
  shows "read_value inner AllowAll (Some VNull) s = Inr (True, Some (packed_float f), advanced t s)"
proof (cases "fits_f32 f")
  case True
  let ?g = "f64_to_f32 f"
  show ?thesis
  proof (cases "\<exists>n. whole_number ?g = Inr (Some n)")
    case w: True
    then obtain n where "whole_number ?g = Inr (Some n)" by blast
    then show ?thesis using read_signed [of s n t inner] assms True
      by (simp add: float_bytes_def packed_float_def)
  next
    case False
    then have no: "float_bytes f = char_of (0xCA :: nat) # big_endian 4 (unat ?g)" "packed_float f = VFloat (f32_to_f64 ?g)"
      using True by (auto simp: float_bytes_def packed_float_def Let_def split: sum.split option.split)
    then have b: "mk_input s = char_of (0xCA :: nat) # big_endian 4 (unat ?g) @ t" using assms by simp
    have i: "mk_input (advanced (big_endian 4 (unat ?g) @ t) s) = big_endian 4 (unat ?g) @ t" by simp
    have "unat ?g < 256 ^ 4" using unsigned_less [of ?g, where 'a = nat] by simp
    then have "float32_value (unat ?g mod 256 ^ 4) = VFloat (f32_to_f64 ?g)" by (simp add: float32_value_def)
    then show ?thesis using read_value_coded [OF b, of inner AllowAll "Some VNull"] no
        read_scalar_bytes [OF i, of float32_value VNull]
      by (simp add: read_coded_def)
  qed
next
  case False
  then have b: "mk_input s = char_of (0xCB :: nat) # big_endian 8 (unat f) @ t"
    using assms by (simp add: float_bytes_def)
  have i: "mk_input (advanced (big_endian 8 (unat f) @ t) s) = big_endian 8 (unat f) @ t" by simp
  have "unat f < 256 ^ 8" using unsigned_less [of f, where 'a = nat] by simp
  then have "float64_value (unat f mod 256 ^ 8) = VFloat f" by (simp add: float64_value_def)
  then show ?thesis using read_value_coded [OF b, of inner AllowAll "Some VNull"] False
      read_scalar_bytes [OF i, of float64_value VNull]
    by (simp add: read_coded_def packed_float_def Let_def)
qed

section \<open>Strings\<close>

lemma read_chars_append:
  assumes "mk_input s = str @ t" "is_valid (mk_pool s)"
    and "length (sc_buf (mk_storage s)) + length str < sc_capacity (mk_storage s) \<or> str = []"
  shows "\<exists>s'. read_chars (length str) s = (True, s') \<and> mk_input s' = t \<and> mk_pool s' = mk_pool s \<and>
    mk_error s' = mk_error s \<and> mk_found s' = mk_found s \<and>
    mk_storage s' = (mk_storage s)\<lparr>sc_buf := sc_buf (mk_storage s) @ str\<rparr>"
  using assms
proof (induction str arbitrary: s)
  case (Cons c str)
  let ?s = "mk_append c (s\<lparr>mk_input := str @ t\<rparr>)"
  have r: "read_bytes 1 s = (Some [c], s\<lparr>mk_input := str @ t\<rparr>)"
    using Cons.prems(1) by (simp add: read_bytes_def numeral_eq_Suc)
  have a: "mk_input ?s = str @ t" "mk_pool ?s = mk_pool s" "mk_error ?s = mk_error s" "mk_found ?s = mk_found s"
    "mk_storage ?s = (mk_storage s)\<lparr>sc_buf := sc_buf (mk_storage s) @ [c]\<rparr>"
    using Cons.prems(3) by (auto simp: mk_append_def append_char_def)
  have "length (sc_buf (mk_storage ?s)) + length str < sc_capacity (mk_storage ?s) \<or> str = []"
    using Cons.prems(3) by (auto simp: a)
  from Cons.IH [OF a(1) _ this] Cons.prems(2) show ?case using r by (auto simp: a)
qed simp

lemma read_string_text:
  assumes "mk_input s = str @ t" "pool_room (length str + 1 + n) (mk_pool s)"
  shows "\<exists>s'. read_string (length str) s = (True, s') \<and> mk_input s' = t \<and> mk_pool s' = mk_pool s \<and>
    mk_error s' = mk_error s \<and> mk_found s' = mk_found s \<and> sc_buf (mk_storage s') = str"
proof -
  let ?s = "mk_start_string s"
  have st: "mk_pool ?s = mk_pool s" "mk_storage ?s = \<lparr>sc_buf = [], sc_capacity = free_zone (mk_pool s)\<rparr>"
    "mk_input ?s = mk_input s" "mk_error ?s = mk_error s" "mk_found ?s = mk_found s"
    using assms(2) by (simp_all add: mk_start_string_def start_string_def pool_room_def)
  have "length (sc_buf (mk_storage ?s)) + length str < sc_capacity (mk_storage ?s) \<or> str = []"
    "is_valid (mk_pool ?s)"
    using assms(2) by (auto simp: st pool_room_def is_valid_def)
  from read_chars_append [OF _ this(2,1), of t] assms(1) show ?thesis by (auto simp: read_string_def st)
qed

lemma mk_save_room:
  assumes "pool_room (length str + 1 + n) (mk_pool s)" "sc_buf (mk_storage s) = str"
  shows "\<exists>p. mk_save s = ((Copied, str), s\<lparr>mk_pool := p\<rparr>) \<and> pool_room n p"
  using pool_room_save [OF assms] by (auto simp: mk_save_def)

lemma short_code: "n < 32 \<Longrightarrow> (160 + n) mod 32 = (n :: nat)"
  using mod_mult_self1 [of n 5 32] by (simp add: add.commute)

text \<open>The head of a string: a code that leads to \<open>read_string\<close> with its length.\<close>

lemma string_head_cases:
  assumes "n < 2 ^ 32"
  obtains (short) "n < 0x20" "string_head n = [char_of (0xA0 + n)]"
  | (long) c k :: nat where "string_head n = char_of c # big_endian k n" "n < 256 ^ k"
      "(c, k) \<in> {(0xD9, 1), (0xDA, 2), (0xDB, 4)}"
proof -
  consider "n < 0x20" | "\<not> n < 0x20" "n < 0x100" | "\<not> n < 0x100" "n < 0x10000" | "\<not> n < 0x10000" by linarith
  then show ?thesis
  proof cases
    case 1
    then show ?thesis by (intro short) (simp_all add: string_head_def)
  next
    case 2
    then have "string_head n = char_of (0xD9 :: nat) # big_endian 1 n" by (simp add: string_head_def)
    from long [OF this] show ?thesis using 2 by simp
  next
    case 3
    then have "string_head n = char_of (0xDA :: nat) # big_endian 2 n" by (simp add: string_head_def)
    from long [OF this] show ?thesis using 3 by simp
  next
    case 4
    then have "string_head n = char_of (0xDB :: nat) # big_endian 4 n" by (simp add: string_head_def)
    from long [OF this] show ?thesis using assms 4 by simp
  qed
qed

lemma read_key_text:
  assumes "mk_input s = string_head (length k) @ k @ t" "length k < 2 ^ 32" "pool_room (length k + 1 + n) (mk_pool s)"
  shows "\<exists>s'. read_key s = (True, s') \<and> mk_input s' = t \<and> mk_pool s' = mk_pool s \<and>
    mk_error s' = mk_error s \<and> mk_found s' = mk_found s \<and> sc_buf (mk_storage s') = k"
  using assms(2)
proof (cases rule: string_head_cases)
  case short
  have c: "(160 + length k) div 32 = 5" "(160 + length k) mod 32 = length k" using short(1) short_code by auto
  have "read_byte s = (Some (0xA0 + length k), s\<lparr>mk_input := k @ t\<rparr>)"
    using assms(1) short by (intro read_byte_char) simp_all
  then have "read_key s = read_string (length k) (s\<lparr>mk_input := k @ t\<rparr>)" using c by (simp add: read_key_def)
  then show ?thesis using read_string_text [of "s\<lparr>mk_input := k @ t\<rparr>" k t n] assms(3) by simp
next
  case (long c j)
  have "read_byte s = (Some c, s\<lparr>mk_input := big_endian j (length k) @ k @ t\<rparr>)"
    using assms(1) long by (intro read_byte_char) auto
  moreover have "read_number j (s\<lparr>mk_input := big_endian j (length k) @ k @ t\<rparr>) = (Some (length k), s\<lparr>mk_input := k @ t\<rparr>)"
    using read_number_bytes [of "s\<lparr>mk_input := big_endian j (length k) @ k @ t\<rparr>" j "length k" "k @ t"] long(2) by simp
  ultimately have "read_key s = read_string (length k) (s\<lparr>mk_input := k @ t\<rparr>)"
    using long(3) by (auto simp: read_key_def read_sized_string_def)
  then show ?thesis using read_string_text [of "s\<lparr>mk_input := k @ t\<rparr>" k t n] assms(3) by simp
qed

lemma finish_string_room:
  assumes "mk_input s = str @ t" "pool_room (length str + 1 + n) (mk_pool s)"
  shows "\<exists>s'. finish_string (Some w) (read_string (length str) s) = Inr (True, Some (VString Copied str), s') \<and>
    mk_input s' = t \<and> pool_room n (mk_pool s') \<and> mk_error s' = mk_error s \<and> mk_found s' = mk_found s"
proof -
  from read_string_text [OF assms] obtain s1 where
    1: "read_string (length str) s = (True, s1)" "mk_input s1 = t" "mk_pool s1 = mk_pool s"
      "mk_error s1 = mk_error s" "mk_found s1 = mk_found s" "sc_buf (mk_storage s1) = str" by blast
  have "pool_room (length str + 1 + n) (mk_pool s1)" using assms(2) 1 by simp
  from mk_save_room [OF this 1(6)] obtain p where
    "mk_save s1 = ((Copied, str), s1\<lparr>mk_pool := p\<rparr>)" "pool_room n p" by blast
  then show ?thesis using 1 by (simp add: finish_string_def mk_set_def set_string_def)
qed

lemma read_string_value:
  assumes "mk_input s = string_head (length str) @ str @ t" "length str < 2 ^ 32"
    and "pool_room (length str + 1 + n) (mk_pool s)"
  shows "\<exists>s'. read_value inner AllowAll (Some VNull) s = Inr (True, Some (VString Copied str), s') \<and>
    mk_input s' = t \<and> pool_room n (mk_pool s') \<and> mk_error s' = mk_error s \<and> mk_found s'"
  using assms(2)
proof (cases rule: string_head_cases)
  case short
  have c: "(160 + length str) div 32 = 5" "(160 + length str) mod 32 = length str"
    "(160 + length str) div 16 \<noteq> 8" "(160 + length str) div 16 \<noteq> 9" "\<not> 192 \<le> 160 + length str" using short(1) short_code by auto
  have "read_byte s = (Some (0xA0 + length str), s\<lparr>mk_input := str @ t\<rparr>)"
    using assms(1) short by (intro read_byte_char) simp_all
  then have "read_value inner AllowAll (Some VNull) s = finish_string (Some VNull) (read_string (length str) (advanced (str @ t) s))"
    using c by (simp add: read_value_def Let_def)
  then show ?thesis using finish_string_room [of "advanced (str @ t) s" str t n VNull] assms(3) by simp
next
  case (long c j)
  let ?r = "big_endian j (length str) @ str @ t"
  have "read_value inner AllowAll (Some VNull) s = read_coded inner AllowAll c (Some VNull) (advanced ?r s)"
    using assms(1) long by (intro read_value_coded) auto
  moreover have "read_number j (advanced ?r s) = (Some (length str), advanced (str @ t) s)"
    using read_number_bytes [of "advanced ?r s" j "length str" "str @ t"] long(2) by simp
  ultimately have "read_value inner AllowAll (Some VNull) s = finish_string (Some VNull) (read_string (length str) (advanced (str @ t) s))"
    using long(3) by (auto simp: read_coded_def string_or_skip_def read_sized_string_def)
  then show ?thesis using finish_string_room [of "advanced (str @ t) s" str t n VNull] assms(3) by simp
qed

section \<open>Values\<close>

fun packable :: "variant \<Rightarrow> bool"
  and packable_elements :: "variant list \<Rightarrow> bool"
  and packable_members :: "slot list \<Rightarrow> bool" where
  "packable (VFloat f) = (\<not> f64_eq f (f64_of_int (2 ^ 63)))"
| "packable (VString own str) = (length str < 2 ^ 32)"
| "packable (VRaw own str) = False"
| "packable (VArray vs) = (length vs < 2 ^ 32 \<and> packable_elements vs)"
| "packable (VObject ms) = (length ms < 2 ^ 32 \<and> packable_members ms)"
| "packable v = True"
| "packable_elements [] = True"
| "packable_elements (v # vs) = (packable v \<and> packable_elements vs)"
| "packable_members [] = True"
| "packable_members (((own, k), v) # ms) =
     (NUL \<notin> set k \<and> length (c_str k) < 2 ^ 32 \<and> packable v \<and> packable_members ms)"

fun packed :: "variant \<Rightarrow> variant"
  and packed_list :: "variant list \<Rightarrow> variant list"
  and packed_slots :: "slot list \<Rightarrow> slot list" where
  "packed (VUInt n) = packed_unsigned n"
| "packed (VInt n) = packed_signed n"
| "packed (VFloat f) = packed_float f"
| "packed (VString own str) = VString Copied str"
| "packed (VArray vs) = VArray (packed_list vs)"
| "packed (VObject ms) = VObject (packed_slots ms)"
| "packed v = v"
| "packed_list [] = []"
| "packed_list (v # vs) = packed v # packed_list vs"
| "packed_slots [] = []"
| "packed_slots (((own, k), v) # ms) = ((Copied, c_str k), packed v) # packed_slots ms"

text \<open>Read up to \<open>t\<close>, with room for \<open>m\<close> bytes left.\<close>

definition read_up_to :: "string \<Rightarrow> nat \<Rightarrow> msgpack_parser \<Rightarrow> msgpack_parser \<Rightarrow> bool" where
  "read_up_to t m s s' \<longleftrightarrow>
     mk_input s' = t \<and> pool_room m (mk_pool s') \<and> mk_error s' = mk_error s \<and> mk_found s'"

lemma read_leaf:
  assumes "packable v" "nesting v = 0" "mk_input s = packed_text v @ t" "pool_room (memory_usage (packed v) + m) (mk_pool s)"
  shows "\<exists>s'. read_value inner AllowAll (Some VNull) s = Inr (True, Some (packed v), s') \<and> read_up_to t m s s'"
proof -
  have up: "read_up_to t m s (advanced t s)"
    using pool_room_less [OF assms(4) le_add2] by (simp add: read_up_to_def)
  then have finished: "?thesis" if "read_value inner AllowAll (Some VNull) s = Inr (True, Some (packed v), advanced t s)"
    using that by blast
  have byte: "read_value inner AllowAll (Some VNull) s = Inr (True, Some v', advanced t s)"
    if "mk_input s = char_of c # t" "read_coded inner AllowAll c (Some VNull) (advanced t s) = Inr (True, Some v', advanced t s)"
      "0xC0 \<le> c" "c \<le> 0xDF" for c v'
    using read_value_coded [OF that(1,3,4), of inner AllowAll "Some VNull"] that(2) by simp
  show ?thesis
  proof (cases v)
    case VNull
    then show ?thesis using assms(3) byte [of "0xC0" VNull] by (intro finished) (simp add: read_coded_def)
  next
    case (VBool b)
    then show ?thesis using assms(3) byte [of "0xC3" "VBool True"] byte [of "0xC2" "VBool False"]
      by (intro finished) (cases b; simp add: read_coded_def mk_set_def)
  next
    case (VString own str)
    then show ?thesis using read_string_value [of s str t m inner] assms by (simp add: read_up_to_def)
  qed (use assms in \<open>auto intro!: finished simp: read_unsigned read_signed read_float up simp del: packed_unsigned.simps\<close>)
qed

section \<open>Collections\<close>

locale msgpack_reader =
  fixes rv :: mk_reader and limit :: nat
  assumes reads: "packable v \<Longrightarrow> nesting v \<le> limit \<Longrightarrow> mk_input s = packed_text v @ t \<Longrightarrow>
    pool_room (memory_usage (packed v) + m) (mk_pool s) \<Longrightarrow>
    \<exists>s'. rv AllowAll (Some VNull) s = Inr (True, Some (packed v), s') \<and> read_up_to t m s s'"
begin

lemma slot_text:
  assumes "packable v" "nesting v \<le> limit" "mk_input s = packed_text v @ t"
    and "pool_room (SLOT_SIZE + memory_usage (packed v) + m) (mk_pool s)"
  shows "\<exists>p s'. alloc_variant (mk_pool s) = (True, p) \<and>
    rv AllowAll (Some VNull) (s\<lparr>mk_pool := p\<rparr>) = Inr (True, Some (packed v), s') \<and> read_up_to t m s s'"
proof -
  from pool_room_alloc [of "memory_usage (packed v) + m" "mk_pool s"] assms(4) obtain p where
    p: "alloc_variant (mk_pool s) = (True, p)" "pool_room (memory_usage (packed v) + m) p" by (auto simp: add.assoc)
  from reads [of v "s\<lparr>mk_pool := p\<rparr>" t m] assms p show ?thesis by (auto simp: read_up_to_def)
qed

lemma read_elements_text:
  assumes "packable_elements vs" "elements_nesting vs \<le> limit" "mk_input s = packed_elements vs @ t" "mk_found s"
    and "pool_room (elements_usage (packed_list vs) + m) (mk_pool s)"
  shows "\<exists>s'. read_elements rv AllowAll (length vs) (Some acc) s = Inr (True, Some (acc @ packed_list vs), s') \<and>
    read_up_to t m s s'"
  using assms
proof (induction vs arbitrary: acc s)
  case (Cons v vs)
  have "pool_room (SLOT_SIZE + memory_usage (packed v) + (elements_usage (packed_list vs) + m)) (mk_pool s)"
    using Cons.prems(5) by (simp add: algebra_simps)
  from slot_text [of v s "packed_elements vs @ t", OF _ _ _ this] Cons.prems obtain p s1 where
    1: "alloc_variant (mk_pool s) = (True, p)"
      "rv AllowAll (Some VNull) (s\<lparr>mk_pool := p\<rparr>) = Inr (True, Some (packed v), s1)"
      "read_up_to (packed_elements vs @ t) (elements_usage (packed_list vs) + m) s s1" by auto
  from Cons.IH [of s1 "acc @ [packed v]"] Cons.prems 1 show ?case by (auto simp: read_up_to_def)
qed (simp add: read_up_to_def)

lemma read_members_text:
  assumes "packable_members ms" "members_nesting ms \<le> limit" "mk_input s = packed_members ms @ t" "mk_found s"
    and "pool_room (members_usage (packed_slots ms) + m) (mk_pool s)"
  shows "\<exists>s'. read_members rv AllowAll (length ms) (Some acc) s = Inr (True, Some (acc @ packed_slots ms), s') \<and>
    read_up_to t m s s'"
  using assms
proof (induction ms arbitrary: acc s)
  case (Cons a ms)
  obtain own k v where a: "a = ((own, k), v)" by (metis prod.exhaust)
  define key where "key = c_str k"
  have key: "NUL \<notin> set key" "c_str key = key" by (simp_all add: key_def)
  let ?m = "members_usage (packed_slots ms) + m"
  let ?t = "packed_text v @ packed_members ms @ t"
  have room: "pool_room (length key + 1 + (SLOT_SIZE + memory_usage (packed v) + ?m)) (mk_pool s)"
    using Cons.prems(5) key(2) by (simp add: a key_def [symmetric] algebra_simps)
  have "mk_input s = string_head (length key) @ key @ ?t" "length key < 2 ^ 32"
    using Cons.prems(1,3) by (auto simp: a key_def)
  from read_key_text [OF this room] obtain s1 where
    1: "read_key s = (True, s1)" "mk_input s1 = ?t" "mk_pool s1 = mk_pool s" "mk_error s1 = mk_error s"
      "mk_found s1 = mk_found s" "sc_buf (mk_storage s1) = key" by blast
  have "pool_room (length key + 1 + (SLOT_SIZE + memory_usage (packed v) + ?m)) (mk_pool s1)" using room 1(3) by simp
  from mk_save_room [OF this 1(6)] obtain q where
    2: "mk_save s1 = ((Copied, key), s1\<lparr>mk_pool := q\<rparr>)" "pool_room (SLOT_SIZE + memory_usage (packed v) + ?m) q" by blast
  from slot_text [of v "s1\<lparr>mk_pool := q\<rparr>" "packed_members ms @ t" ?m] Cons.prems 1(2) 2(2) obtain p s2 where
    3: "alloc_variant q = (True, p)" "rv AllowAll (Some VNull) (s1\<lparr>mk_pool := p\<rparr>) = Inr (True, Some (packed v), s2)"
      "read_up_to (packed_members ms @ t) ?m (s1\<lparr>mk_pool := q\<rparr>) s2" by (auto simp: a)
  from Cons.IH [of s2 "acc @ [((Copied, key), packed v)]"] Cons.prems(1,2) 3(3) obtain s3 where
    "read_members rv AllowAll (length ms) (Some (acc @ [((Copied, key), packed v)])) s2 =
      Inr (True, Some ((acc @ [((Copied, key), packed v)]) @ packed_slots ms), s3)" "read_up_to t m s2 s3"
    by (auto simp: a read_up_to_def)
  then show ?case using 1 2(1) 3 key(2)
    by (auto simp: a read_up_to_def set_key_def key_def [symmetric] Let_def)
qed (simp add: read_up_to_def)

end

text \<open>The head of a collection leads to its body with the number of its elements.\<close>

lemma count_head_cases:
  assumes "n < 2 ^ 32"
  obtains (short) "n < 0x10" "count_head short long n = [char_of (short + n)]"
  | (long) c k where "count_head short long n = char_of c # big_endian k n" "n < 256 ^ k"
      "c = long \<and> k = 2 \<or> c = long + 1 \<and> k = 4"
proof -
  consider "n < 0x10" | "\<not> n < 0x10" "n < 0x10000" | "\<not> n < 0x10000" by linarith
  then show ?thesis
  proof cases
    case 1
    then show ?thesis by (intro that(1)) (simp_all add: count_head_def)
  next
    case 2
    then have "count_head short long n = char_of long # big_endian 2 n" by (simp add: count_head_def)
    from that(2) [OF this] show ?thesis using 2 by simp
  next
    case 3
    then have "count_head short long n = char_of (long + 1) # big_endian 4 n" by (simp add: count_head_def)
    from that(2) [OF this] show ?thesis using assms by simp
  qed
qed

lemma read_sized_bytes:
  assumes "mk_input s = char_of c # big_endian k n @ r" "n < 256 ^ k"
  shows "read_sized k body w (advanced (big_endian k n @ r) s) = body n w (advanced r s)"
proof -
  have "read_number k (advanced (big_endian k n @ r) s) = (Some n, advanced r s)"
    using read_number_bytes [of "advanced (big_endian k n @ r) s" k n r] assms(2) by (cases s) simp
  then show ?thesis by (simp add: read_sized_def)
qed

lemma short_count:
  fixes n :: nat
  assumes "n < 16"
  shows "(0x90 + n) div 16 = 9" "(0x90 + n) mod 16 = n" "(0x80 + n) div 16 = 8" "(0x80 + n) mod 16 = n"
  using assms mod_mult_self1 [of n 9 16] mod_mult_self1 [of n 8 16] by (auto simp: add.commute)

lemma read_array_head:
  assumes "mk_input s = count_head 0x90 0xDC n @ r" "n < 2 ^ 32"
  shows "read_value inner f w s = read_array inner f n w (advanced r s)"
  using assms(2)
proof (cases rule: count_head_cases [where short = "0x90" and long = "0xDC"])
  case short
  have "read_byte s = (Some (0x90 + n), s\<lparr>mk_input := r\<rparr>)"
    using assms(1) short by (intro read_byte_char) simp_all
  then show ?thesis using short(1) short_count [OF short(1)] by (simp add: read_value_def Let_def)
next
  case (long c k)
  have i: "mk_input s = char_of c # big_endian k n @ r" using assms(1) long(1) by simp
  have "read_value inner f w s = read_coded inner f c w (advanced (big_endian k n @ r) s)"
    using i long(3) by (intro read_value_coded) auto
  also have "\<dots> = read_sized k (read_array inner f) w (advanced (big_endian k n @ r) s)"
    using long(3) by (auto simp: read_coded_def)
  finally show ?thesis using read_sized_bytes [OF i long(2)] by simp
qed

lemma read_object_head:
  assumes "mk_input s = count_head 0x80 0xDE n @ r" "n < 2 ^ 32"
  shows "read_value inner f w s = read_object inner f n w (advanced r s)"
  using assms(2)
proof (cases rule: count_head_cases [where short = "0x80" and long = "0xDE"])
  case short
  have "read_byte s = (Some (0x80 + n), s\<lparr>mk_input := r\<rparr>)"
    using assms(1) short by (intro read_byte_char) simp_all
  then show ?thesis using short(1) short_count [OF short(1)] by (simp add: read_value_def Let_def)
next
  case (long c k)
  have i: "mk_input s = char_of c # big_endian k n @ r" using assms(1) long(1) by simp
  have "read_value inner f w s = read_coded inner f c w (advanced (big_endian k n @ r) s)"
    using i long(3) by (intro read_value_coded) auto
  also have "\<dots> = read_sized k (read_object inner f) w (advanced (big_endian k n @ r) s)"
    using long(3) by (auto simp: read_coded_def)
  finally show ?thesis using read_sized_bytes [OF i long(2)] by simp
qed

lemma read_collection:
  assumes "msgpack_reader rv n" "packable v" "nesting v \<le> Suc n" "0 < nesting v"
    and "mk_input s = packed_text v @ t" "pool_room (memory_usage (packed v) + m) (mk_pool s)"
  shows "\<exists>s'. read_value (Some rv) AllowAll (Some VNull) s = Inr (True, Some (packed v), s') \<and> read_up_to t m s s'"
proof -
  consider vs where "v = VArray vs" | ms where "v = VObject ms" using assms(4) by (cases v) auto
  then show ?thesis
  proof cases
    case (1 vs)
    then have "read_value (Some rv) AllowAll (Some VNull) s =
        read_array (Some rv) AllowAll (length vs) (Some VNull) (advanced (packed_elements vs @ t) s)"
      using assms(2,5) by (intro read_array_head) simp_all
    moreover from msgpack_reader.read_elements_text [OF assms(1), of vs "advanced (packed_elements vs @ t) s" t m "[]"]
    obtain s' where "read_elements rv AllowAll (length vs) (Some []) (advanced (packed_elements vs @ t) s) =
        Inr (True, Some (packed_list vs), s')" "read_up_to t m s s'"
      using assms(2,3,6) 1 by (auto simp: read_up_to_def)
    ultimately show ?thesis using 1 by (simp add: read_array_def to_array_def)
  next
    case (2 ms)
    then have "read_value (Some rv) AllowAll (Some VNull) s =
        read_object (Some rv) AllowAll (length ms) (Some VNull) (advanced (packed_members ms @ t) s)"
      using assms(2,5) by (intro read_object_head) simp_all
    moreover from msgpack_reader.read_members_text [OF assms(1), of ms "advanced (packed_members ms @ t) s" t m "[]"]
    obtain s' where "read_members rv AllowAll (length ms) (Some []) (advanced (packed_members ms @ t) s) =
        Inr (True, Some (packed_slots ms), s')" "read_up_to t m s s'"
      using assms(2,3,6) 2 by (auto simp: read_up_to_def)
    ultimately show ?thesis using 2 by (simp add: read_object_def to_object_def)
  qed
qed

lemma read_variant_reads: "msgpack_reader (read_variant n) n"
proof (induction n)
  case 0
  show ?case by unfold_locales (simp add: read_leaf)
next
  case (Suc n)
  show ?case
  proof (unfold_locales, goal_cases)
    case (1 v s t m)
    then show ?case using read_leaf [of v s t m "Some (read_variant n)"] read_collection [OF Suc, of v s t m]
      by (cases "nesting v = 0") simp_all
  qed
qed

interpretation unpacking: msgpack_reader "read_variant n" n for n
  by (rule read_variant_reads)

section \<open>The same value\<close>

text \<open>A number as a sign, a magnitude and an exponent.\<close>

fun number_value :: "variant \<Rightarrow> float_value option" where
  "number_value (VUInt n) = Some (FFin False (unat n) 0)"
| "number_value (VInt n) = Some (FFin (sint n < 0) (nat \<bar>sint n\<bar>) 0)"
| "number_value (VFloat f) = Some (decode64 f)"
| "number_value v = None"

definition same_number :: "variant \<Rightarrow> variant \<Rightarrow> bool" where
  "same_number v w \<longleftrightarrow>
     (case (number_value v, number_value w) of (Some x, Some y) \<Rightarrow> v = w \<or> fl_eq x y | _ \<Rightarrow> False)"

text \<open>What was read against what was written: nulls, booleans, characters, numbers by their value (a
  NaN, which equals nothing, bit for bit), elements and members in their order.\<close>

fun same_value :: "variant \<Rightarrow> variant \<Rightarrow> bool"
  and same_elements :: "variant list \<Rightarrow> variant list \<Rightarrow> bool"
  and same_members :: "slot list \<Rightarrow> slot list \<Rightarrow> bool" where
  "same_value VNull w = (w = VNull)"
| "same_value (VBool a) w = (w = VBool a)"
| "same_value (VString own s) w = (\<exists>own'. w = VString own' s)"
| "same_value (VArray vs) w = (case w of VArray ws \<Rightarrow> same_elements vs ws | _ \<Rightarrow> False)"
| "same_value (VObject ms) w = (case w of VObject ns \<Rightarrow> same_members ms ns | _ \<Rightarrow> False)"
| "same_value (VRaw own s) w = (\<exists>own'. w = VRaw own' s)"
| "same_value v w = same_number v w"
| "same_elements [] ws = (ws = [])"
| "same_elements (v # vs) ws = (case ws of [] \<Rightarrow> False | w # ws' \<Rightarrow> same_value v w \<and> same_elements vs ws')"
| "same_members [] ns = (ns = [])"
| "same_members ((k, v) # ms) ns =
     (case ns of [] \<Rightarrow> False | (l, w) # ns' \<Rightarrow> snd k = snd l \<and> same_value v w \<and> same_members ms ns')"

lemma fl_eq_int_refl [simp]: "fl_eq (FFin s m e) (FFin s m e)"
  by (simp add: fl_eq_def)

lemma packed_unsigned_value: "number_value (packed_unsigned n) = Some (FFin False (unat n) 0)"
proof (cases "n \<le> 0x7F")
  case True
  then have "uint n \<le> 127" by (simp add: uint_le)
  moreover have "- (2 ^ 63) \<le> uint n" by (rule order_trans [OF _ uint_ge_0]) simp
  ultimately have "signed_take_bit 63 (uint n) = uint n" by (intro signed_take_bit_int_eq_self) simp_all
  then have "sint n = uint n" by (simp add: sint_uint)
  with True show ?thesis by simp
qed simp

lemma packed_signed_value: "number_value (packed_signed n) = number_value (VInt n)"
proof (cases "0 <s n")
  case True
  then have "0 < sint n" by (simp add: word_sless_alt)
  then have "uint n = sint n" using sint_nonneg [of n] by (simp add: word_sless_alt)
  then have "nat (sint n) = unat n" by (metis unat_eq_nat_uint)
  with True \<open>0 < sint n\<close> show ?thesis
    by (simp add: packed_signed_def packed_unsigned_value del: packed_unsigned.simps)
qed (simp add: packed_signed_def)

text \<open>What passes the test for \<open>Integer\<close> is finite, and converts unless it is \<open>2 ^ 63\<close>.\<close>

lemma float_limits:
  "decode32 (f32_of_int (- (2 ^ 63))) = FFin True (2 ^ 23) 40" "decode32 (f32_of_int (2 ^ 63 - 1)) = FFin False (2 ^ 23) 40"
  by (simp_all add: float_eval Let_def)

lemma can_convert_finite:
  assumes "can_convert_f32 g"
  obtains s m e where "decode32 g = FFin s m e"
    "- (2 ^ 63) \<le> fl_trunc (decode32 g)"
    "fl_trunc (decode32 g) < 2 ^ 63 \<or> fl_eq (decode32 g) (FFin False 1 63)"
proof -
  from assms obtain s m e where g: "decode32 g = FFin s m e"
    unfolding can_convert_f32_def f32_le_def f32_eq_def float_limits
    by (cases "decode32 g") (auto simp: fl_less_def fl_eq_def)
  note r = decode32_range [OF g]
  have "- (2 ^ 63) \<le> fl_trunc (decode32 g) \<and> (fl_trunc (decode32 g) < 2 ^ 63 \<or> fl_eq (decode32 g) (FFin False 1 63))"
  proof (cases "0 \<le> e")
    case True
    have t: "fl_trunc (decode32 g) = scaled s m e 0" using True by (simp add: g fl_trunc_def scaled_def Let_def)
    have "scaled True (2 ^ 23) 40 0 \<le> scaled s m e 0 \<and> scaled s m e 0 \<le> scaled False (2 ^ 23) 40 0"
      using assms True unfolding can_convert_f32_def f32_le_def f32_eq_def float_limits g
      by (auto simp: fl_eq_at [of 0] fl_less_at [of 0])
    then have b: "- (2 ^ 63) \<le> scaled s m e 0" "scaled s m e 0 \<le> 2 ^ 63" by (simp_all add: scaled_def)
    have "fl_eq (decode32 g) (FFin False 1 63)" if "scaled s m e 0 = 2 ^ 63"
      using that True by (simp add: g fl_eq_at [of 0]) (simp add: scaled_def)
    with b t show ?thesis by force
  next
    case False
    have "m div 2 ^ nat (- e) < 2 ^ 24" using r(1) by (rule le_less_trans [OF div_le_dividend])
    then have "\<bar>fl_trunc (decode32 g)\<bar> < 2 ^ 24" using False by (simp add: g fl_trunc_def Let_def)
    then show ?thesis by auto
  qed
  with g that show ?thesis by blast
qed

text \<open>A \<open>float\<close> that is written as an integer is that integer.\<close>

lemma whole_number_value:
  assumes "whole_number g = Inr (Some n)"
  shows "fl_eq (decode32 g) (FFin (sint n < 0) (nat \<bar>sint n\<bar>) 0)"
proof -
  let ?i = "fl_trunc (decode32 g)"
  from assms have c: "can_convert_f32 g" and n: "- (2 ^ 63) \<le> ?i" "?i < 2 ^ 63" "n = word_of_int ?i"
    and eq: "f32_eq g (f32_of_int (sint n))"
    by (auto simp: whole_number_def f32_to_integer_def Let_def rbind_eq_Inr split: if_splits)
  have "sint n = ?i"
    using n(1,2) unfolding n(3) by (simp add: sint_sbintrunc' signed_take_bit_int_eq_self)
  note i = this
  from can_convert_finite [OF c] obtain s m e where g: "decode32 g = FFin s m e" by blast
  show ?thesis
  proof (cases "0 \<le> e")
    case True
    then show ?thesis using scaled_trunc [of e s m] by (simp add: i g)
  next
    case False
    have "m div 2 ^ nat (- e) < 2 ^ 24" using decode32_range(1) [OF g] by (rule le_less_trans [OF div_le_dividend])
    then have "\<bar>?i\<bar> < 2 ^ 24" using False by (simp add: g fl_trunc_def Let_def)
    then have "fl_eq (decode32 (f32_of_int ?i)) (FFin (?i < 0) (nat \<bar>?i\<bar>) 0)" by (rule f32_of_int_exact)
    with eq show ?thesis unfolding f32_eq_def i by (rule fl_eq_trans)
  qed
qed

lemma fits_value:
  assumes "fits_f32 f" "decode32 (f64_to_f32 f) = FFin s m e"
  shows "fl_eq (decode32 (f64_to_f32 f)) (decode64 f)"
  using f32_to_f64_exact [OF assms(2)] assms(1) fl_eq_sym fl_eq_trans unfolding fits_f32_def f64_eq_def by blast

lemma two_63_value: "fl_eq (FFin False 1 63) (decode64 (f64_of_int (2 ^ 63)))"
  by (simp add: float_eval Let_def)

lemma float_converts_unless:
  assumes "\<not> f64_eq f (f64_of_int (2 ^ 63))"
  shows "float_converts f"
proof (rule ccontr)
  let ?g = "f64_to_f32 f"
  assume "\<not> float_converts f"
  then have f: "fits_f32 f" and w: "whole_number ?g = Inl UndefinedConversion" by (simp_all add: float_converts_def)
  from w have c: "can_convert_f32 ?g" and out: "\<not> (- (2 ^ 63) \<le> fl_trunc (decode32 ?g) \<and> fl_trunc (decode32 ?g) < 2 ^ 63)"
    by (auto simp: whole_number_def f32_to_integer_def Let_def split: if_splits)
  from can_convert_finite [OF c] out obtain s m e where
    g: "decode32 ?g = FFin s m e" "fl_eq (decode32 ?g) (FFin False 1 63)" by blast
  from fl_eq_trans [OF fl_eq_sym [OF fits_value [OF f g(1)]] fl_eq_trans [OF g(2) two_63_value]] assms
  show False by (simp add: f64_eq_def)
qed

lemma packed_float_same:
  assumes "\<not> f64_eq f (f64_of_int (2 ^ 63))"
  shows "same_number (packed_float f) (VFloat f)"
proof (cases "fits_f32 f")
  case True
  let ?g = "f64_to_f32 f"
  show ?thesis
  proof (cases "\<exists>n. whole_number ?g = Inr (Some n)")
    case w: True
    then obtain n where n: "whole_number ?g = Inr (Some n)" by blast
    then have "can_convert_f32 ?g" by (auto simp: whole_number_def split: if_splits)
    from can_convert_finite [OF this] obtain s m e where "decode32 ?g = FFin s m e" by blast
    from fl_eq_trans [OF fl_eq_sym [OF whole_number_value [OF n]] fits_value [OF True this]] n True
    show ?thesis by (simp add: packed_float_def same_number_def packed_signed_value)
  next
    case False
    then have "packed_float f = VFloat (f32_to_f64 ?g)"
      using True by (auto simp: packed_float_def Let_def split: sum.split option.split)
    with True show ?thesis by (simp add: same_number_def fits_f32_def f64_eq_def)
  qed
next
  case False
  then show ?thesis by (simp add: packed_float_def same_number_def)
qed

lemma same_packed_integer [simp]:
  "same_value (packed_unsigned n) (VUInt n)" "same_value (packed_signed n) (VInt n)"
proof -
  have num: "same_value v w = same_number v w" if "number_value v \<noteq> None" for v w
    using that by (cases v) simp_all
  show "same_value (packed_unsigned n) (VUInt n)" "same_value (packed_signed n) (VInt n)"
    by (simp_all add: num packed_unsigned_value packed_signed_value same_number_def del: packed_unsigned.simps)
qed

lemma same_packed_float: "\<not> f64_eq f (f64_of_int (2 ^ 63)) \<Longrightarrow> same_value (packed_float f) (VFloat f)"
  using packed_float_same [of f] by (cases "packed_float f") (simp_all add: same_number_def)

lemma packed_same:
  "packable v \<Longrightarrow> same_value (packed v) v"
  "packable_elements vs \<Longrightarrow> same_elements (packed_list vs) vs"
  "packable_members ms \<Longrightarrow> same_members (packed_slots ms) ms"
  by (induction v and vs and ms rule: packed_packed_list_packed_slots.induct)
    (simp_all add: same_packed_float c_str_plain del: packed_unsigned.simps)

lemma packable_converts:
  "packable v \<Longrightarrow> converts v" "packable_elements vs \<Longrightarrow> elements_convert vs"
  "packable_members ms \<Longrightarrow> members_convert ms"
  by (induction v and vs and ms rule: packable_packable_elements_packable_members.induct)
    (simp_all add: float_converts_unless)

section \<open>The property\<close>

text \<open>C40. What \<open>serializeMsgPack\<close> writes, \<open>deserializeMsgPack\<close> reads back as the same value. The
  value has no raw text, no NUL in a key, no string or collection of \<open>2 ^ 32\<close> or more, no float
  equal to \<open>2 ^ 63\<close> (the one whose conversion to \<open>Integer\<close> is undefined) and is no deeper than the
  nesting limit; the document has the room \<open>memoryUsage\<close> names for what is read. Then
  \<open>measureMsgPack\<close> and, into a buffer of at least the measured size, \<open>serializeMsgPack\<close> end without a
  fault, and the reader reports \<open>Ok\<close> and builds the value: the same nulls, booleans and characters,
  every number, integer or float, equal to the one written as an exact number (the sign of a zero and the type
  it is kept in may differ; a NaN is the same bits), elements and members in their order.\<close>

theorem msgpack_is_read_back:
  assumes "packable v" "nesting v \<le> limit" "pool_ok (jd_pool d)"
    and "memory_usage (packed v) \<le> mp_capacity (jd_pool d)"
  shows "\<exists>k. measureMsgPack v = Inr k \<and>
    (k \<le> length buffer \<longrightarrow>
      (\<exists>n buffer' d'. serializeMsgPack v buffer = Inr (n, buffer') \<and>
        deserializeMsgPack limit AllowAll (take n buffer') d = Inr (Ok, d') \<and>
        same_value (jd_data d') v \<and> pool_ok (jd_pool d')))"
proof -
  let ?s = "new_msgpack_parser (jd_pool (json_clear d)) (packed_text v)"
  note conv = packable_converts(1) [OF assms(1)]
  have "mk_input ?s = packed_text v @ []" by (simp add: new_msgpack_parser_def)
  moreover have "pool_room (memory_usage (packed v) + 0) (mk_pool ?s)"
    using assms(3,4)
    by (auto simp: pool_room_def new_msgpack_parser_def json_clear_def pool_clear_def free_zone_def pool_ok_def)
  ultimately obtain s' where
    "read_variant limit AllowAll (Some VNull) ?s = Inr (True, Some (packed v), s')" "read_up_to [] 0 ?s s'"
    using unpacking.reads [OF assms(1,2), of ?s "[]" 0] by blast
  then have "\<exists>d'. deserializeMsgPack limit AllowAll (packed_text v) d = Inr (Ok, d') \<and>
      jd_data d' = packed v \<and> pool_ok (jd_pool d')"
    by (auto simp: deserializeMsgPack_def read_up_to_def new_msgpack_parser_def pool_room_def)
  then show ?thesis
    using measureMsgPack_length [OF conv] serializeMsgPack_result [OF conv, of buffer] packed_same(1) [OF assms(1)]
    by (auto simp: min_def)
qed

definition sample_packed :: variant where
  "sample_packed =
     VObject [((Linked, ''a''), VArray [VInt 5, VUInt 300, VInt (- 1), VInt (- 200), VNull, VBool True]),
              ((Copied, ''b''), VString Linked ''xy''), ((Linked, ''c''), VFloat 0x3ff8000000000000)]"

theorem msgpack_is_read_back_witness:
  "\<exists>n buffer' d'. serializeMsgPack sample_packed (replicate 32 NUL) = Inr (n, buffer') \<and>
     deserializeMsgPack 2 AllowAll (take n buffer') (new_document True 200) = Inr (Ok, d') \<and>
     same_value (jd_data d') sample_packed"
proof -
  have "f64_to_f32 0x3ff8000000000000 = 0x3fc00000" by (simp add: float_eval Let_def)
  moreover have "can_convert_f32 0x3fc00000"
    by (simp add: can_convert_f32_def f32_le_def f32_eq_def float_eval Let_def)
  moreover have "fl_trunc (decode32 0x3fc00000) = 1" by (simp add: float_eval Let_def)
  moreover have "\<not> f32_eq 0x3fc00000 (f32_of_int 1)" by (simp add: f32_eq_def float_eval Let_def)
  ultimately have whole: "whole_number (f64_to_f32 0x3ff8000000000000) = Inr None"
    by (simp add: whole_number_def f32_to_integer_def)
  have fits: "fits_f32 0x3ff8000000000000" by (simp add: fits_f32_def float_eval Let_def)
  have "\<not> f64_eq 0x3ff8000000000000 (f64_of_int (2 ^ 63))" by (simp add: float_eval Let_def)
  note half = fits whole this
  have p: "packed sample_packed =
     VObject [((Copied, ''a''), VArray [VInt 5, VUInt 300, VInt (- 1), VInt (- 200), VNull, VBool True]),
              ((Copied, ''b''), VString Copied ''xy''), ((Copied, ''c''), VFloat (f32_to_f64 (f64_to_f32 0x3ff8000000000000)))]"
    using fits whole by (simp add: sample_packed_def packed_signed_def packed_float_def word_sless_alt)
  have "packable sample_packed" "nesting sample_packed \<le> 2" using half(3) by (simp_all add: sample_packed_def)
  moreover have "pool_ok (jd_pool (new_document True 200))" by code_simp
  moreover have "memory_usage (packed sample_packed) \<le> mp_capacity (jd_pool (new_document True 200))"
    unfolding p by (simp add: SLOT_SIZE_def new_document_def alloc_pool_def new_pool_def add_padding_def)
  ultimately obtain k where k: "measureMsgPack sample_packed = Inr k"
    "k \<le> length (replicate 32 NUL) \<longrightarrow> (\<exists>n buffer' d'. serializeMsgPack sample_packed (replicate 32 NUL) = Inr (n, buffer') \<and>
        deserializeMsgPack 2 AllowAll (take n buffer') (new_document True 200) = Inr (Ok, d') \<and>
        same_value (jd_data d') sample_packed \<and> pool_ok (jd_pool d'))"
    using msgpack_is_read_back [of sample_packed 2 "new_document True 200" "replicate 32 NUL"] by blast
  have "converts sample_packed" using half by (simp add: sample_packed_def float_converts_def)
  then have "k \<le> 32" using measureMsgPack_length [of sample_packed] k(1) half
    by (simp add: sample_packed_def count_head_def string_head_def signed_bytes_def float_bytes_def
        unsigned_bytes_def word_sless_alt word_sle_eq)
  with k(2) show ?thesis by auto
qed

end
