(* ===== verification/Msgpack_Safety.thy ===== *)
theory Msgpack_Safety
  imports Msgpack_Deserializer Json_Parser_Safety
begin

text \<open>
  What \<open>MsgPackDeserializer\<close> promises on every input: without a filter it meets no fault, stays in
  its memory pool and builds a value that is no deeper than the nesting limit. A filter that is an object
  with the member \<open>*\<close> makes it follow a null pointer on an array. The nested reader enters through
  the locale \<open>safe_reader\<close>.
\<close>

section \<open>Steps\<close>

definition mk_step :: "msgpack_parser \<Rightarrow> msgpack_parser \<Rightarrow> bool" where
  "mk_step s s' \<longleftrightarrow> (pool_ok (mk_pool s) \<longrightarrow> pool_ok (mk_pool s')) \<and> pool_extends (mk_pool s) (mk_pool s') \<and>
     length (mk_input s') \<le> length (mk_input s)"

lemma mk_step_refl [simp]: "mk_step s s"
  by (simp add: mk_step_def)

lemma mk_step_trans: "mk_step s s1 \<Longrightarrow> mk_step s1 s2 \<Longrightarrow> mk_step s s2"
  by (auto simp: mk_step_def dest: pool_extends_trans)

lemma mk_step_input [simp]:
  "mk_step s (mk_fail e s') = mk_step s s'"
  "mk_step s (s'\<lparr>mk_found := b\<rparr>) = mk_step s s'"
  by (simp_all add: mk_step_def mk_fail_def)

lemma reader_read_length: "reader_read i = (c, r) \<Longrightarrow> length r \<le> length i"
  by (auto simp: reader_read_def split: list.splits)

lemma mk_step_read: "length r \<le> length (mk_input s) \<Longrightarrow> mk_step s (s\<lparr>mk_input := r\<rparr>)"
  by (simp add: mk_step_def)

lemma read_byte_step: "read_byte s = (c, s') \<Longrightarrow> mk_step s s'"
  by (auto simp: read_byte_def mk_step_read split: prod.splits option.splits dest!: reader_read_length)

lemma reader_read_bytes_length: "reader_read_bytes n i = (b, r) \<Longrightarrow> length r \<le> length i"
  by (induction n i arbitrary: b r rule: reader_read_bytes.induct) (auto split: prod.splits intro: le_SucI)

lemma read_bytes_step: "read_bytes n s = (b, s') \<Longrightarrow> mk_step s s' \<and> mk_pool s' = mk_pool s \<and> mk_storage s' = mk_storage s"
  by (auto simp: read_bytes_def mk_step_read mk_fail_def Let_def split: prod.splits if_splits
      dest!: reader_read_bytes_length) (simp add: mk_step_def)

lemma read_number_step: "read_number k s = (n, s') \<Longrightarrow> mk_step s s'"
  by (auto simp: read_number_def split: prod.splits option.splits dest!: read_bytes_step)

lemma skip_bytes_step: "skip_bytes n s = (ok, s') \<Longrightarrow> mk_step s s'"
proof (induction n s rule: skip_bytes.induct)
  case (2 n s)
  then show ?case
    by (auto split: prod.splits option.splits intro: mk_step_trans [OF mk_step_read] mk_step_read dest!: reader_read_length)
qed simp

lemma skip_sized_step: "skip_sized k s = (ok, s') \<Longrightarrow> mk_step s s'"
  by (auto simp: skip_sized_def split: prod.splits option.splits dest: read_number_step skip_bytes_step intro: mk_step_trans)

lemma skip_ext_step: "skip_ext k s = (ok, s') \<Longrightarrow> mk_step s s'"
  by (auto simp: skip_ext_def split: prod.splits option.splits dest: read_number_step skip_bytes_step intro: mk_step_trans)

section \<open>Strings\<close>

definition mk_building :: "msgpack_parser \<Rightarrow> bool" where
  "mk_building s \<longleftrightarrow> copier_ok (mk_storage s) \<and> sc_capacity (mk_storage s) = free_zone (mk_pool s) \<and>
     (free_zone (mk_pool s) = 0 \<longrightarrow> mp_overflowed (mk_pool s))"

definition mk_built :: "msgpack_parser \<Rightarrow> bool" where
  "mk_built s \<longleftrightarrow> length (sc_buf (mk_storage s)) < free_zone (mk_pool s)"

lemma mk_append_step: "mk_building s \<Longrightarrow> mk_building (mk_append c s) \<and> mk_step s (mk_append c s)"
  by (auto simp: mk_building_def mk_append_def append_char_def copier_ok_def mk_step_def free_zone_def pool_simps)

lemma read_chars_step: "read_chars n s = (ok, s') \<Longrightarrow> mk_building s \<Longrightarrow> mk_step s s' \<and> (ok \<longrightarrow> mk_built s')"
proof (induction n s rule: read_chars.induct)
  case (1 s)
  then show ?case by (auto simp: mk_building_def mk_built_def is_valid_def copier_ok_def split: if_splits)
next
  case (2 n s)
  obtain b s1 where b: "read_bytes 1 s = (b, s1)" by fastforce
  note 1 = read_bytes_step [OF b]
  then have bu: "mk_building s1" using 2(3) by (simp add: mk_building_def)
  show ?case
  proof (cases b)
    case None
    then show ?thesis using 2(2) b 1 by simp
  next
    case (Some x)
    with 2(2) b have "read_chars n (mk_append (hd x) s1) = (ok, s')" by simp
    with 2(1) [OF b [symmetric] Some] mk_append_step [OF bu, of "hd x"]
    have "mk_step (mk_append (hd x) s1) s' \<and> (ok \<longrightarrow> mk_built s')" by blast
    then show ?thesis using 1 mk_append_step [OF bu] mk_step_trans by blast
  qed
qed

lemma read_string_step: "read_string n s = (ok, s') \<Longrightarrow> mk_step s s' \<and> (ok \<longrightarrow> mk_built s')"
proof -
  assume r: "read_string n s = (ok, s')"
  have "mk_building (mk_start_string s)" "mk_step s (mk_start_string s)"
    by (auto simp: mk_building_def mk_start_string_def start_string_def copier_ok_def free_zone_def mk_step_def pool_simps)
  with r show ?thesis using read_chars_step mk_step_trans unfolding read_string_def by blast
qed

lemma read_sized_string_step: "read_sized_string k s = (ok, s') \<Longrightarrow> mk_step s s' \<and> (ok \<longrightarrow> mk_built s')"
  by (auto simp: read_sized_string_def split: prod.splits option.splits
      dest!: read_number_step dest: read_string_step intro: mk_step_trans)

lemma read_key_step: "read_key s = (ok, s') \<Longrightarrow> mk_step s s' \<and> (ok \<longrightarrow> mk_built s')"
proof -
  assume k: "read_key s = (ok, s')"
  obtain c s1 where c: "read_byte s = (c, s1)" by fastforce
  note 1 = read_byte_step [OF c]
  show ?thesis
  proof (cases c)
    case (Some code)
    have "mk_step s1 s' \<and> (ok \<longrightarrow> mk_built s')"
      using k c Some read_string_step [of _ s1] read_sized_string_step [of _ s1]
      by (auto simp: read_key_def split: if_splits)
    then show ?thesis using 1 mk_step_trans by blast
  qed (use k c 1 in \<open>simp add: read_key_def\<close>)
qed

lemma save_from_zone_extends: "pool_extends p (snd (save_string_from_free_zone str p))"
  by (auto simp: save_string_from_free_zone_def pool_extends_def split: option.splits)

lemma mk_save_step: "mk_save s = (str, s') \<Longrightarrow> mk_built s \<Longrightarrow> mk_step s s'"
  using save_from_zone_ok [of "sc_buf (mk_storage s)" "mk_pool s", OF prod.collapse [symmetric]]
  by (auto simp: mk_save_def save_def mk_step_def mk_built_def save_from_zone_extends)

section \<open>Values\<close>

definition safely :: "nat \<Rightarrow> msgpack_parser \<Rightarrow> (bool \<times> target \<times> msgpack_parser) result \<Rightarrow> bool" where
  "safely limit s r \<longleftrightarrow> (\<exists>ok v s'. r = Inr (ok, Some v, s') \<and> mk_step s s' \<and> nesting v \<le> limit)"

lemma safely_before: "mk_step s0 s \<Longrightarrow> safely limit s r \<Longrightarrow> safely limit s0 r"
  by (auto simp: safely_def dest: mk_step_trans)

lemma safely_found: "safely limit (s\<lparr>mk_found := b\<rparr>) r = safely limit s r"
  by (simp add: safely_def mk_step_def)

lemma safely_Inr: "mk_step s s' \<Longrightarrow> nesting v \<le> limit \<Longrightarrow> safely limit s (Inr (ok, Some v, s'))"
  by (simp add: safely_def)

lemma safely_set: "mk_step s s' \<Longrightarrow> nesting v = 0 \<Longrightarrow> safely limit s (mk_set v (Some w) s')"
  by (auto simp: safely_def mk_set_def)

lemma safely_skip: "(\<And>ok s'. r = (ok, s') \<Longrightarrow> mk_step s s') \<Longrightarrow> safely limit s (mk_skip (Some VNull) r)"
  by (cases r) (simp add: safely_def mk_skip_def)

lemma safely_scalar: "(\<And>n. nesting (value n) = 0) \<Longrightarrow> safely limit s (scalar_or_skip True k value (Some VNull) s)"
proof -
  assume v: "\<And>n. nesting (value n) = 0"
  obtain n s1 where r: "read_number k s = (n, s1)" by fastforce
  from read_number_step [OF r] show ?thesis using v
    by (cases n) (simp_all add: scalar_or_skip_def read_scalar_def r safely_Inr safely_set)
qed

lemma safely_finish:
  assumes "r = (ok, s1)" "mk_step s s1 \<and> (ok \<longrightarrow> mk_built s1)"
  shows "safely limit s (finish_string (Some VNull) r)"
proof -
  obtain str s2 where sv: "mk_save s1 = (str, s2)" by fastforce
  have "mk_step s s2" if ok using mk_save_step [OF sv] assms(2) that mk_step_trans by blast
  then show ?thesis using assms
    by (auto simp: finish_string_def sv Let_def safely_Inr set_string_def split: prod.splits storage.splits
        intro!: safely_set)
qed

locale safe_reader =
  fixes rv :: mk_reader and limit :: nat
  assumes safe: "safely limit s (rv AllowAll (Some VNull) s)"
begin

lemma slot_safe:
  assumes "alloc_variant (mk_pool s) = (True, p)"
  shows "\<exists>ok v s'. rv AllowAll (Some VNull) (s\<lparr>mk_pool := p\<rparr>) = Inr (ok, Some v, s') \<and> mk_step s s' \<and> nesting v \<le> limit"
proof -
  have "pool_ok (mk_pool s) \<longrightarrow> pool_ok p" "pool_extends (mk_pool s) p"
    using assms alloc_variant_ok [OF assms] by (auto simp: alloc_variant_effect(1) [OF assms] pool_extends_def)
  then have "mk_step s (s\<lparr>mk_pool := p\<rparr>)" by (simp add: mk_step_def)
  with safe [of "s\<lparr>mk_pool := p\<rparr>"] show ?thesis unfolding safely_def using mk_step_trans by blast
qed

lemma full_step: "alloc_variant (mk_pool s) = (False, p) \<Longrightarrow> mk_step s (mk_fail NoMemory (s\<lparr>mk_pool := p\<rparr>))"
  by (auto simp: mk_step_def mk_fail_def dest: alloc_variant_effect(2))

lemma read_elements_safe:
  "elements_nesting vs \<le> limit \<Longrightarrow>
   \<exists>ok vs' s'. read_elements rv AllowAll n (Some vs) s = Inr (ok, Some vs', s') \<and> mk_step s s' \<and> elements_nesting vs' \<le> limit"
proof (induction n arbitrary: vs s)
  case (Suc n)
  obtain b p where a: "alloc_variant (mk_pool s) = (b, p)" by fastforce
  show ?case
  proof (cases b)
    case True
    with slot_safe [of s p] a obtain ok v s1 where
      1: "rv AllowAll (Some VNull) (s\<lparr>mk_pool := p\<rparr>) = Inr (ok, Some v, s1)" "mk_step s s1" "nesting v \<le> limit" by auto
    have "elements_nesting (vs @ [v]) \<le> limit" using Suc.prems 1(3) by simp
    with Suc.IH [OF this, of s1] 1 a True show ?thesis
      by (cases ok) (auto simp: Let_def dest: mk_step_trans [OF 1(2)])
  next
    case False
    with a Suc.prems full_step [of s p] show ?thesis by auto
  qed
qed auto

lemma read_members_safe:
  "members_nesting ms \<le> limit \<Longrightarrow>
   \<exists>ok ms' s'. read_members rv AllowAll n (Some ms) s = Inr (ok, Some ms', s') \<and> mk_step s s' \<and> members_nesting ms' \<le> limit"
proof (induction n arbitrary: ms s)
  case (Suc n)
  obtain b s1 where k: "read_key s = (b, s1)" by fastforce
  note 1 = read_key_step [OF k]
  show ?case
  proof (cases b)
    case False
    with k 1 Suc.prems show ?thesis by auto
  next
    case True
    obtain key s2 where sv: "mk_save s1 = (key, s2)" by fastforce
    have 2: "mk_step s s2" using mk_save_step [OF sv] 1 True mk_step_trans by blast
    obtain c p where a: "alloc_variant (mk_pool s2) = (c, p)" by fastforce
    show ?thesis
    proof (cases c)
      case True
      with slot_safe [of s2 p] a obtain ok v s3 where
        3: "rv AllowAll (Some VNull) (s2\<lparr>mk_pool := p\<rparr>) = Inr (ok, Some v, s3)" "mk_step s2 s3" "nesting v \<le> limit" by auto
      have "members_nesting (ms @ [(set_key key, v)]) \<le> limit" using Suc.prems 3(3) by (auto simp: nested.members_nesting_le)
      with Suc.IH [OF this, of s3] 3 a True k \<open>b\<close> sv show ?thesis
        by (cases ok) (auto simp: Let_def dest: mk_step_trans [OF mk_step_trans [OF 2 3(2)]] intro: mk_step_trans [OF 2])
    next
      case False
      with a k \<open>b\<close> sv Suc.prems mk_step_trans [OF 2 full_step [of s2 p]] show ?thesis by (auto simp: Let_def)
    qed
  qed
qed auto

end

text \<open>One level up; the limit is reached where there is no nested reader.\<close>

definition inner_ok :: "mk_reader option \<Rightarrow> nat \<Rightarrow> bool" where
  "inner_ok inner limit \<longleftrightarrow> (\<forall>rv. inner = Some rv \<longrightarrow> (\<exists>n. limit = Suc n \<and> safe_reader rv n))"

lemma read_array_safe: "inner_ok inner limit \<Longrightarrow> safely limit s (read_array inner AllowAll n (Some VNull) s)"
proof (cases inner)
  case None
  then show ?thesis by (simp add: read_array_def safely_Inr)
next
  case (Some rv)
  assume "inner_ok inner limit"
  then obtain l where l: "limit = Suc l" "safe_reader rv l" using Some by (auto simp: inner_ok_def)
  from safe_reader.read_elements_safe [OF l(2), of "[]" n s] show ?thesis
    by (auto simp: read_array_def Some to_array_def l(1) safely_def)
qed

lemma read_object_safe: "inner_ok inner limit \<Longrightarrow> safely limit s (read_object inner AllowAll n (Some VNull) s)"
proof (cases inner)
  case None
  then show ?thesis by (simp add: read_object_def safely_Inr)
next
  case (Some rv)
  assume "inner_ok inner limit"
  then obtain l where l: "limit = Suc l" "safe_reader rv l" using Some by (auto simp: inner_ok_def)
  from safe_reader.read_members_safe [OF l(2), of "[]" n s] show ?thesis
    by (auto simp: read_object_def Some to_object_def l(1) safely_def)
qed

lemma read_sized_safe:
  "(\<And>n s. safely limit s (body n (Some VNull) s)) \<Longrightarrow> safely limit s (read_sized k body (Some VNull) s)"
proof -
  assume b: "\<And>n s. safely limit s (body n (Some VNull) s)"
  obtain n s1 where r: "read_number k s = (n, s1)" by fastforce
  from read_number_step [OF r] show ?thesis
    by (cases n) (simp_all add: read_sized_def r safely_Inr safely_before [OF _ b])
qed

lemma safely_string: "safely limit s (string_or_skip True k (Some VNull) s)"
proof -
  obtain ok s1 where r: "read_sized_string k s = (ok, s1)" by fastforce
  from safely_finish [OF refl read_sized_string_step [OF r]] show ?thesis by (simp add: string_or_skip_def r)
qed

lemma safely_if: "(b \<Longrightarrow> safely l s x) \<Longrightarrow> (\<not> b \<Longrightarrow> safely l s y) \<Longrightarrow> safely l s (if b then x else y)"
  by simp

lemma value_nesting [simp]: "nesting (unsigned_value n) = 0" "nesting (signed_value k n) = 0"
  "nesting (float32_value n) = 0" "nesting (float64_value n) = 0"
  by (simp_all add: unsigned_value_def signed_value_def float32_value_def float64_value_def)

lemma read_coded_safe: "inner_ok inner limit \<Longrightarrow> safely limit s (read_coded inner AllowAll code (Some VNull) s)"
  unfolding read_coded_def Let_def allow_all if_True
  by (intro safely_if safely_string safely_scalar safely_skip read_sized_safe read_array_safe read_object_safe safely_set)
    (simp_all add: safely_Inr safely_scalar safely_string skip_bytes_step skip_sized_step skip_ext_step)

lemma read_value_safe: "inner_ok inner limit \<Longrightarrow> safely limit s (read_value inner AllowAll (Some VNull) s)"
proof -
  assume i: "inner_ok inner limit"
  obtain c s1 where r: "read_byte s = (c, s1)" by fastforce
  note 1 = read_byte_step [OF r]
  show ?thesis
  proof (cases c)
    case (Some code)
    have st: "safely limit s1 (finish_string (Some VNull) (read_string n (s1\<lparr>mk_found := True\<rparr>)))" for n
    proof -
      obtain ok s2 where q: "read_string n (s1\<lparr>mk_found := True\<rparr>) = (ok, s2)" by fastforce
      from safely_finish [OF refl read_string_step [OF q]] show ?thesis by (simp add: q safely_found)
    qed
    have "safely limit s1 (read_value inner AllowAll (Some VNull) s)"
      using i read_coded_safe [OF i, of "s1\<lparr>mk_found := True\<rparr>" code]
        read_array_safe [OF i, of "s1\<lparr>mk_found := True\<rparr>"] read_object_safe [OF i, of "s1\<lparr>mk_found := True\<rparr>"] st
      by (simp add: read_value_def r Some Let_def safely_found safely_set)
    then show ?thesis by (rule safely_before [OF 1])
  qed (simp add: read_value_def r safely_Inr 1)
qed

lemma read_variant_safe: "safe_reader (read_variant n) n"
proof (induction n)
  case 0
  show ?case by unfold_locales (simp add: read_value_safe inner_ok_def)
next
  case (Suc n)
  then show ?case by unfold_locales (simp add: read_value_safe inner_ok_def)
qed

interpretation reader: safe_reader "read_variant n" n for n
  by (rule read_variant_safe)

section \<open>The properties\<close>

text \<open>Without a filter, \<open>deserializeMsgPack\<close> returns on every input without a fault; the
  document stays inside its pool and is no deeper than the nesting limit.\<close>

theorem msgpack_reader_is_safe:
  assumes "pool_ok (jd_pool d)"
  shows "\<exists>e d'. deserializeMsgPack limit AllowAll input d = Inr (e, d') \<and> pool_ok (jd_pool d') \<and>
    mp_capacity (jd_pool d') = mp_capacity (jd_pool d) \<and> nesting (jd_data d') \<le> limit"
proof -
  let ?s = "new_msgpack_parser (jd_pool (json_clear d)) input"
  obtain ok v s where "read_variant limit AllowAll (Some VNull) ?s = Inr (ok, Some v, s)" "mk_step ?s s" "nesting v \<le> limit"
    using reader.safe [of limit ?s] unfolding safely_def by blast
  then show ?thesis using assms
    by (auto simp: deserializeMsgPack_def mk_step_def new_msgpack_parser_def json_clear_def pool_clear_def pool_ok_def
        pool_extends_def)
qed

text \<open>An array header that announces more than there is, three levels deep.\<close>

theorem msgpack_reader_is_safe_witness:
  "\<exists>e d'. deserializeMsgPack 2 AllowAll (map char_of [0x91, 0xDC, 0x00 :: nat]) (new_document True 64) = Inr (e, d') \<and>
     pool_ok (jd_pool d') \<and> mp_capacity (jd_pool d') = mp_capacity (jd_pool (new_document True 64)) \<and>
     nesting (jd_data d') \<le> 2"
proof -
  have "pool_ok (jd_pool (new_document True 64))" by code_simp
  then show ?thesis by (rule msgpack_reader_is_safe)
qed

text \<open>A filter that is an object with the member \<open>*\<close> refuses arrays, but not their elements: an array
  whose element fits in the document is stored through a null pointer.\<close>

theorem filtered_array_faults:
  assumes "16 \<le> mp_capacity (jd_pool d)"
  shows "deserializeMsgPack (Suc limit) (Filter (Some (VObject [((own, ''*''), VBool True)]))) (char_of (0x91 :: nat) # input) d =
    Inl NullPointer"
proof -
  let ?f = "Filter (Some (VObject [((own, ''*''), VBool True)]))"
  let ?s = "new_msgpack_parser (jd_pool (json_clear d)) (char_of (0x91 :: nat) # input)"
  have f: "\<not> filter_allow_array ?f" "filter_allow (filter_element ?f)"
    by (simp_all add: filter_allow_array_def equals_true_def filter_element_def filter_choose_def const_element_def
        const_member_def lookup_Cons filter_allow_def as_boolean_def)
  have "\<exists>p. alloc_variant (mk_pool ?s) = (True, p)"
    using assms by (auto simp: new_msgpack_parser_def json_clear_def pool_clear_def alloc_variant_def alloc_right_def
        can_alloc_def SLOT_SIZE_def)
  then have "read_variant (Suc limit) ?f (Some VNull) ?s = Inl NullPointer"
    using f by (auto simp: read_value_def read_byte_def reader_read_def new_msgpack_parser_def read_array_def Let_def)
  then show ?thesis by (simp add: deserializeMsgPack_def)
qed

theorem filtered_array_faults_witness:
  "deserializeMsgPack 10 (Filter (Some (VObject [((Linked, ''*''), VBool True)]))) (map char_of [0x91, 0x01 :: nat])
     (new_document True 64) = Inl NullPointer"
proof -
  have "16 \<le> mp_capacity (jd_pool (new_document True 64))" by code_simp
  from filtered_array_faults [OF this, of 9 Linked] show ?thesis by simp
qed

end
