(* ===== verification/Json_Fields.thy ===== *)
theory Json_Fields
  imports Json_Serializer
begin

text \<open>
  Documents that are filled field by field, as the request handlers do it: what an assignment to
  \<open>json[k]\<close> or \<open>json[k][f]\<close> leaves when there is room for it, and how long the text of
  such a document gets.
\<close>

section \<open>Room for an assignment\<close>

definition has_room :: "nat \<Rightarrow> memory_pool \<Rightarrow> bool" where
  "has_room n p \<longleftrightarrow> pool_ok p \<and> n \<le> free_zone p"

text \<open>The members of a value that is an object or still null.\<close>

fun fields_of :: "variant \<Rightarrow> slot list option" where
  "fields_of VNull = Some []"
| "fields_of (VObject ms) = Some ms"
| "fields_of _ = None"

definition src_size :: "json_src \<Rightarrow> nat" where
  "src_size src = (case src of Src_string s \<Rightarrow> length s + 1 | _ \<Rightarrow> 0)"

definition field_size :: "string \<Rightarrow> json_src \<Rightarrow> nat" where
  "field_size k src = SLOT_SIZE + length k + 1 + src_size src"

lemma alloc_spec_room: "alloc_spec n p b p' \<Longrightarrow> has_room (n + m) p \<Longrightarrow> b \<and> has_room m p'"
  by (auto simp: alloc_spec_def has_room_def)

lemma has_room_mono: "has_room n p \<Longrightarrow> m \<le> n \<Longrightarrow> has_room m p"
  by (simp add: has_room_def)

lemma convert_room:
  assumes "has_room (src_size src + m) p"
  shows "\<exists>p'. convert_to_json src p = (stored_value src, p') \<and> has_room m p'"
proof (cases src)
  case (Src_string str)
  obtain r b p1 where st: "store Copied (Some str) p = (r, b, p1)" by (cases "store Copied (Some str) p") auto
  have room: "b \<and> has_room m p1"
    using alloc_spec_room [OF store_spec [OF st]] assms by (simp add: Src_string src_size_def)
  then have "r = Some (Copied, str)" using store_Some st store_flag [OF st] by fastforce
  then show ?thesis using st room
    by (simp add: Src_string convert_to_json_def store_string_def stored_value_def set_string_def)
qed (use assms in \<open>auto simp: convert_to_json_def stored_value_def store_string_def store_def set_string_def src_size_def
    split: option.splits\<close>)

text \<open>A new member.\<close>

lemma add_field_room:
  assumes "fields_of v = Some ms" "get_slot k ms = None" "NUL \<notin> set k" "has_room (SLOT_SIZE + length k + 1 + m) p"
  shows "\<exists>p'. variant_get_or_add_member pol (Some k) v p =
     (Some (length ms), VObject (ms @ [((pol, k), VNull)]), p') \<and> has_room m p'"
proof -
  obtain r ms' p' where a: "add_member pol (Some k) ms p = (r, ms', p')" by (cases "add_member pol (Some k) ms p") auto
  have room: "r \<noteq> None \<and> has_room m p'"
    using alloc_spec_room [OF add_member_spec [OF a], of m] has_room_mono [OF assms(4)] by (simp add: add.commute add.left_commute)
  have res: "r = Some (length ms)" "ms' = ms @ [((pol, k), VNull)]"
    using a room assms(3) by (auto elim: add_member_cases dest: store_Some simp: set_key_def)
  have "(if is_null v then VObject [] else v) = VObject ms" using assms(1) by (cases v) auto
  then show ?thesis using a room res assms(2)
    by (simp add: variant_get_or_add_member_def get_or_add_member_def)
qed

lemma old_field:
  "fields_of v = Some ms \<Longrightarrow> get_slot k ms = Some i \<Longrightarrow>
     variant_get_or_add_member pol (Some k) v p = (Some i, VObject ms, p)"
  by (cases v) (auto simp: variant_get_or_add_member_def get_or_add_member_def)

section \<open>Assignments\<close>

definition field_set :: "json_document \<Rightarrow> variant \<Rightarrow> nat \<Rightarrow> json_document \<Rightarrow> bool" where
  "field_set d v m d' \<longleftrightarrow> jd_data d' = v \<and> has_room m (jd_pool d')"

lemma json_set_field:
  assumes "fields_of (jd_data d) = Some ms" "get_slot k ms = None" "NUL \<notin> set k"
    and "has_room (field_size k src + m) (jd_pool d)"
  shows "field_set d (VObject (ms @ [((pol, k), stored_value src)])) m (json_set [Member pol k] src d)"
proof -
  have "has_room (SLOT_SIZE + length k + 1 + (src_size src + m)) (jd_pool d)"
    using assms(4) by (simp add: field_size_def add.assoc)
  from add_field_room [OF assms(1-3) this, of pol] obtain p1 where
    1: "variant_get_or_add_member pol (Some k) (jd_data d) (jd_pool d) =
        (Some (length ms), VObject (ms @ [((pol, k), VNull)]), p1)" "has_room (src_size src + m) p1" by blast
  from convert_room [OF 1(2)] obtain p2 where
    "convert_to_json src p1 = (stored_value src, p2)" "has_room m p2" by blast
  with 1(1) show ?thesis by (simp add: json_set_def field_set_def nth_append list_update_append)
qed

lemma json_set_new_object:
  assumes "fields_of (jd_data d) = Some ms" "get_slot k ms = None" "NUL \<notin> set k" "NUL \<notin> set f"
    and "has_room (SLOT_SIZE + length k + 1 + field_size f src + m) (jd_pool d)"
  shows "field_set d (VObject (ms @ [((pol, k), VObject [((pol', f), stored_value src)])])) m
     (json_set [Member pol k, Member pol' f] src d)"
proof -
  have room: "has_room (SLOT_SIZE + length k + 1 + (SLOT_SIZE + length f + 1 + (src_size src + m))) (jd_pool d)"
    using assms(5) by (simp add: field_size_def add.assoc)
  from add_field_room [OF assms(1-3) room, of pol] obtain p1 where
    1: "variant_get_or_add_member pol (Some k) (jd_data d) (jd_pool d) =
        (Some (length ms), VObject (ms @ [((pol, k), VNull)]), p1)"
      "has_room (SLOT_SIZE + length f + 1 + (src_size src + m)) p1" by blast
  have "fields_of VNull = Some []" "get_slot f [] = None" by simp_all
  from add_field_room [OF this assms(4) 1(2), of pol'] obtain p2 where
    2: "variant_get_or_add_member pol' (Some f) VNull p1 = (Some 0, VObject [((pol', f), VNull)], p2)"
      "has_room (src_size src + m) p2" by auto
  from convert_room [OF 2(2)] obtain p3 where
    "convert_to_json src p2 = (stored_value src, p3)" "has_room m p3" by blast
  with 1(1) 2(1) show ?thesis by (simp add: json_set_def field_set_def nth_append list_update_append)
qed

lemma json_set_object_field:
  assumes "fields_of (jd_data d) = Some (ms @ [((own, k), VObject fs)])" "get_slot k ms = None" "get_slot f fs = None"
    and "NUL \<notin> set f" "has_room (field_size f src + m) (jd_pool d)"
  shows "field_set d (VObject (ms @ [((own, k), VObject (fs @ [((pol', f), stored_value src)]))])) m
     (json_set [Member pol k, Member pol' f] src d)"
proof -
  have "get_slot k (ms @ [((own, k), VObject fs)]) = Some (length ms)"
    using assms(2) by (simp add: get_slot_append)
  note 1 = old_field [OF assms(1) this]
  have "has_room (SLOT_SIZE + length f + 1 + (src_size src + m)) (jd_pool d)"
    using assms(5) by (simp add: field_size_def add.assoc)
  from add_field_room [OF fields_of.simps(2) assms(3,4) this, of pol'] obtain p1 where
    2: "variant_get_or_add_member pol' (Some f) (VObject fs) (jd_pool d) =
        (Some (length fs), VObject (fs @ [((pol', f), VNull)]), p1)"
      "has_room (src_size src + m) p1" by blast
  from convert_room [OF 2(2)] obtain p2 where
    "convert_to_json src p1 = (stored_value src, p2)" "has_room m p2" by blast
  with 1 2(1) show ?thesis by (simp add: json_set_def field_set_def nth_append list_update_append)
qed

section \<open>The text of fields\<close>

lemma char_text_length: "c \<noteq> NUL \<Longrightarrow> length (char_text c) \<le> 2"
  by (auto simp: char_text_def)

lemma string_text_length: "NUL \<notin> set s \<Longrightarrow> length (string_text s) \<le> 2 * length s + 2"
proof -
  have "length (concat (map char_text s)) \<le> 2 * length s" if "NUL \<notin> set s" for s
    using that
  proof (induction s)
    case (Cons c s)
    then have "length (char_text c) \<le> 2" "length (concat (map char_text s)) \<le> 2 * length s"
      using char_text_length [of c] by auto
    then show ?case by simp
  qed simp
  then show "NUL \<notin> set s \<Longrightarrow> length (string_text s) \<le> 2 * length s + 2" by (simp add: string_text_def)
qed

lemma uint_text_length: "n < 10 ^ Suc k \<Longrightarrow> length (write_uint n) \<le> Suc k"
  using length_dec_digits [of n k] by (simp add: write_uint_eq)

lemma int_text_length:
  assumes "\<bar>i\<bar> < 10 ^ Suc k" "\<bar>i\<bar> < 2 ^ 63"
  shows "length (concat (write_int (word_of_int i))) \<le> Suc (Suc k)"
proof -
  let ?w = "word_of_int i :: u64"
  have "sint ?w = i" using assms(2) by (simp add: signed_of_int signed_take_bit_int_eq_self)
  then have neg: "?w <s 0 \<longleftrightarrow> i < 0" by (simp add: word_sless_alt)
  have val: "unat (word_of_int j :: u64) = nat j" if "0 \<le> j" "j < 2 ^ 63" for j
    using that by (simp add: unsigned_of_int take_bit_int_eq_self)
  have "NOT ?w + 1 = word_of_int (- i)" by (simp add: not_eq_complement)
  then have val': "unat (NOT ?w + 1) = nat (- i)" if "i < 0"
    using that assms(2) val [of "- i"] by (simp only:)
  show ?thesis
  proof (cases "i < 0")
    case True
    then show ?thesis using uint_text_length [of "nat (- i)" k] assms(1) neg val'
      by (simp add: write_int_def nat_less_iff)
  next
    case False
    then show ?thesis using uint_text_length [of "nat i" k] assms neg val [of i]
      by (simp add: write_int_def nat_less_iff)
  qed
qed

end
