(* ===== verification/Pagers_Json.thy ===== *)
theory Pagers_Json
  imports Server_Queue Json_Serializer
begin

text \<open>
  \<open>HttpServerClient::response_json\<close> and the handler \<open>http_pagers_list\<close> of
  \<open>src/pagers-server/main.cpp\<close>: the JSON document and the text buffer are globals of 8 KB each
  (\<open>json_page\<close>), shared by every handler that answers in JSON.

  \<open>response_json\<close> passes the buffer on as a C string. \<open>serializeJson\<close> terminates it only when the
  text is shorter than the buffer; without a terminator, \<open>strlen\<close> reads behind the buffer, which is a
  fault here. The lemmas show that the list of pagers never gets that far, and how many pagers it can
  name.
\<close>

section \<open>JSON responses\<close>

definition JSON_SIZE :: nat where "JSON_SIZE = 8 * 1024"

record json_page =
  json_g :: json_document
  jbuf_g :: string

definition json_page_init :: json_page where
  "json_page_init = \<lparr>json_g = new_document True JSON_SIZE, jbuf_g = replicate JSON_SIZE NUL\<rparr>"

text \<open>The buffer's new contents come with the result.\<close>

definition response_json ::
    "nat \<Rightarrow> 'w net \<Rightarrow> json_document \<Rightarrow> string \<Rightarrow> http_client \<times> 'w \<Rightarrow>
       (string \<times> http_client \<times> 'w) result option" where
  "response_json fuel net json_doc buf = (\<lambda>(c, w).
     let (len, buf) = serializeJson (jd_data json_doc) buf;
         c = set_content_length (int len) (set_json c)
     in if NUL \<notin> set buf then Some (Inl OutOfBounds)
        else map_option (\<lambda>cw. Inr (buf, cw)) (response_ok fuel net (c_str buf) (c, w)))"

text \<open>\<open>client->response_json(json, jbuf, 8*1024)\<close> with the document \<open>d\<close> in \<open>json\<close>.\<close>

definition answer_json ::
    "nat \<Rightarrow> 'w net \<Rightarrow> json_document \<Rightarrow> http_client \<times> 'w \<Rightarrow> json_page \<Rightarrow>
       ((http_client \<times> 'w) \<times> json_page) result option" where
  "answer_json fuel net d cw page =
     obind (response_json fuel net d (jbuf_g page) cw) (\<lambda>(buf, cw).
       Some (Inr (cw, page\<lparr>json_g := d, jbuf_g := buf\<rparr>)))"

section \<open>The list of pagers\<close>

fun pagers_json_loop :: "pager_heap \<Rightarrow> (u16, nat) std_map \<Rightarrow> json_document \<Rightarrow> json_document result" where
  "pagers_json_loop h [] d = Inr d"
| "pagers_json_loop h ((k, pager) # m) d =
     rbind (heap_get h (Some pager)) (\<lambda>p.
       pagers_json_loop h m
         (json_set [Member Linked ''pagers'', Member Copied (to_string (uint (device_id p)))] (Src_int 30) d))"

definition http_pagers_list ::
    "nat \<Rightarrow> 'w net \<Rightarrow> http_client \<times> 'w \<Rightarrow> server \<times> json_page \<Rightarrow>
       ((http_client \<times> 'w) \<times> server \<times> json_page) result option" where
  "http_pagers_list fuel net cw = (\<lambda>(s, page).
     let d = json_set [Member Linked ''total_pagers''] (Src_int (int (pl_size (registry s)))) (json_clear (json_g page))
     in obind (Some (pagers_json_loop (heap_g s) (pagers (registry s)) d)) (\<lambda>d.
        obind (answer_json fuel net d cw page) (\<lambda>(cw, page). Some (Inr (cw, s, page)))))"

section \<open>The document of the list\<close>

definition pager_key :: "u16 \<Rightarrow> string" where
  "pager_key dev = to_string (uint dev)"

definition pager_entry :: "u16 \<Rightarrow> slot" where
  "pager_entry dev = ((Copied, pager_key dev), VInt 30)"

definition listing :: "nat \<Rightarrow> u16 list \<Rightarrow> variant" where
  "listing n ids =
     VObject (((Linked, ''total_pagers''), VInt (word_of_nat n)) #
       (if ids = [] then [] else [((Linked, ''pagers''), VObject (map pager_entry ids))]))"

lemma pager_key_facts: "pager_key dev \<noteq> []" "length (pager_key dev) \<le> 5" "\<forall>c\<in>set (pager_key dev). is_digit c"
  "NUL \<notin> set (pager_key dev)" "c_str (pager_key dev) = pager_key dev"
proof -
  have k: "pager_key dev = dec_digits (unat dev)" by (simp add: pager_key_def to_string_def)
  have "unat dev < 10 ^ Suc 4" using unsigned_less [of dev, where 'a = nat] by simp
  from length_dec_digits [OF this] show "length (pager_key dev) \<le> 5" by (simp add: k)
  show "pager_key dev \<noteq> []" "\<forall>c\<in>set (pager_key dev). is_digit c" by (simp_all add: k dec_digits_digits)
  then show n: "NUL \<notin> set (pager_key dev)" using digit_not_NUL by blast
  then show "c_str (pager_key dev) = pager_key dev" by simp
qed

lemma pager_key_inj: "pager_key a = pager_key b \<longleftrightarrow> a = b"
proof
  assume "pager_key a = pager_key b"
  then have "stoi (pager_key a) = stoi (pager_key b)" by simp
  moreover have "stoi (pager_key x) = Inr (uint x)" for x
    unfolding pager_key_def using unsigned_less [of x, where 'a = int]
    by (intro stoi_to_string order_trans [OF _ uint_ge_0]) auto
  ultimately have "uint a = uint b" by simp
  then show "a = b" by (simp only: word_uint_eq_iff)
qed simp

section \<open>Memory for a pager\<close>

text \<open>Adding a member with a short copied key: it succeeds, or fewer than \<open>SLOT_SIZE\<close> bytes are left.\<close>

lemma free_zone_extends: "pool_extends p p' \<Longrightarrow> free_zone p' \<le> free_zone p"
  by (auto simp: pool_extends_def free_zone_def)

lemma alloc_variant_free:
  "alloc_variant p = (b, p') \<Longrightarrow> pool_ok p \<Longrightarrow>
     b = (SLOT_SIZE \<le> free_zone p) \<and> free_zone p' = (if b then free_zone p - SLOT_SIZE else free_zone p)"
  by (auto simp: alloc_variant_def alloc_right_def can_alloc_def free_zone_def pool_ok_def pool_simps split: if_splits)

lemma store_copied_free:
  assumes "store Copied (Some k) p = (r, b, p')" "pool_ok p"
  shows "b \<and> free_zone p \<le> free_zone p' + length k + 1 \<or> \<not> b \<and> free_zone p \<le> length k \<and> free_zone p' = free_zone p"
  using assms
  by (auto simp: store_def save_string_def alloc_string_def can_alloc_def free_zone_def pool_ok_def pool_simps
      split: option.splits if_splits)

lemma add_copied_cases:
  assumes "add_member Copied (Some k) ms p = (r, ms', p')" "pool_ok p" "length k < SLOT_SIZE" "NUL \<notin> set k"
  obtains "r = Some (length ms)" "ms' = ms @ [((Copied, k), VNull)]" "SLOT_SIZE \<le> free_zone p"
      "free_zone p \<le> free_zone p' + SLOT_SIZE + length k + 1"
  | "r = None" "ms' = ms" "free_zone p' < SLOT_SIZE" "free_zone p < SLOT_SIZE + length k + 1"
  using assms(1)
proof (cases rule: add_member_cases)
  case 1
  then show ?thesis using that(2) alloc_variant_free [OF 1(3) assms(2)] by simp
next
  case (2 p1 x)
  then show ?thesis using that(2) alloc_variant_free [OF 2(3) assms(2)] alloc_variant_ok [OF 2(3) assms(2)]
      store_copied_free [OF 2(4)] assms(3) by auto
next
  case (3 p1 k')
  then show ?thesis using that(1) alloc_variant_free [OF 3(4) assms(2)] alloc_variant_ok [OF 3(4) assms(2)]
      store_copied_free [of k p1 "Some (Copied, k')" True p'] assms(4) by auto
qed

text \<open>The assignment \<open>json["pagers"][id] = 30\<close>: the id is listed, or there is no room for a slot
  left.\<close>

lemma entry_key_fresh: "dev \<notin> set ids \<Longrightarrow> get_slot (pager_key dev) (map pager_entry ids) = None"
  by (auto simp: get_slot_None pager_entry_def pager_key_inj)

lemma pagers_member:
  assumes "pool_ok p" "ids = [] \<Longrightarrow> SLOT_SIZE \<le> free_zone p"
  shows "\<exists>p1. variant_get_or_add_member Linked (Some ''pagers'') (listing n ids) p =
     (Some 1, VObject [((Linked, ''total_pagers''), VInt (word_of_nat n)),
        ((Linked, ''pagers''), if ids = [] then VNull else VObject (map pager_entry ids))], p1) \<and>
     pool_ok p1 \<and> free_zone p1 = (if ids = [] then free_zone p - SLOT_SIZE else free_zone p)"
proof (cases "ids = []")
  case True
  obtain b p1 where a: "alloc_variant p = (b, p1)" by (cases "alloc_variant p")
  note A = alloc_variant_free [OF a assms(1)] alloc_variant_ok [OF a assms(1)]
  have "get_slot ''pagers'' [((Linked, ''total_pagers''), VInt (word_of_nat n))] = None" by simp
  then show ?thesis using A a True assms(2)
    by (simp add: variant_get_or_add_member_def listing_def get_or_add_member_def add_member_def store_def set_key_def)
next
  case False
  then show ?thesis using assms(1)
    by (simp add: variant_get_or_add_member_def listing_def get_or_add_member_def)
qed

lemma list_step:
  assumes "doc_ok d" "jd_data d = listing n ids" "dev \<notin> set ids"
    and "ids = [] \<longrightarrow> 2 * SLOT_SIZE + 6 \<le> free_zone (jd_pool d)"
    and d': "d' = json_set [Member Linked ''pagers'', Member Copied (pager_key dev)] (Src_int 30) d"
  obtains "jd_data d' = listing n (ids @ [dev])" "SLOT_SIZE \<le> free_zone (jd_pool d)"
      "free_zone (jd_pool d) \<le> free_zone (jd_pool d') + SLOT_SIZE + 6 + (if ids = [] then SLOT_SIZE else 0)"
  | "jd_data d' = listing n ids" "ids \<noteq> []" "free_zone (jd_pool d') < SLOT_SIZE"
      "free_zone (jd_pool d) < SLOT_SIZE + 6"
proof -
  let ?k = "pager_key dev"
  have ok: "pool_ok (jd_pool d)" using assms(1) by (simp add: doc_ok_def)
  have room: "ids = [] \<Longrightarrow> SLOT_SIZE \<le> free_zone (jd_pool d)" using assms(4) by simp
  obtain p1 where p1: "variant_get_or_add_member Linked (Some ''pagers'') (listing n ids) (jd_pool d) =
       (Some 1, VObject [((Linked, ''total_pagers''), VInt (word_of_nat n)),
          ((Linked, ''pagers''), if ids = [] then VNull else VObject (map pager_entry ids))], p1)"
      "pool_ok p1" "free_zone p1 = (if ids = [] then free_zone (jd_pool d) - SLOT_SIZE else free_zone (jd_pool d))"
    using pagers_member [OF ok room] by blast
  obtain r ms p2 where a: "add_member Copied (Some ?k) (map pager_entry ids) p1 = (r, ms, p2)"
    by (cases "add_member Copied (Some ?k) (map pager_entry ids) p1") auto
  have inner: "variant_get_or_add_member Copied (Some ?k) (if ids = [] then VNull else VObject (map pager_entry ids)) p1 =
      (r, VObject ms, p2)"
    using a entry_key_fresh [OF assms(3)]
    by (cases "ids = []") (simp_all add: variant_get_or_add_member_def get_or_add_member_def)
  have klen: "length ?k < SLOT_SIZE" "length ?k \<le> 5" "NUL \<notin> set ?k"
    using pager_key_facts [of dev] by (simp_all add: SLOT_SIZE_def)
  show ?thesis
    using a p1(2) klen(1,3)
  proof (cases rule: add_copied_cases)
    case 1
    have "jd_data d' = listing n (ids @ [dev])" "jd_pool d' = p2"
      unfolding d' using p1(1) inner 1(1,2) assms(2)
      by (simp_all add: json_set_def convert_to_json_def listing_def pager_entry_def nth_append list_update_append)
    then show ?thesis using that(1) 1(3,4) p1(3) klen(2) by (auto split: if_splits)
  next
    case 2
    have ne: "ids \<noteq> []" using 2(4) p1(3) assms(4) klen(2) by (auto split: if_splits)
    have "jd_data d' = listing n ids" "jd_pool d' = p2"
      unfolding d' using p1(1) inner 2(1,2) ne assms(2)
      by (simp_all add: json_set_def listing_def)
    then show ?thesis using that(2) 2(3,4) p1(3) ne klen(2) by (auto split: if_splits)
  qed
qed

lemma pagers_loop:
  assumes "list_all (live_pager h) m" "distinct (ids @ map fst m)" "doc_ok d" "jd_data d = listing n ids"
    and "ids = [] \<longrightarrow> 2 * SLOT_SIZE + 6 \<le> free_zone (jd_pool d)"
  shows "\<exists>d' k. pagers_json_loop h m d = Inr d' \<and> doc_ok d' \<and>
     mp_capacity (jd_pool d') = mp_capacity (jd_pool d) \<and> k \<le> length m \<and>
     jd_data d' = listing n (ids @ take k (map fst m)) \<and>
     ((SLOT_SIZE + 6) * length m + (if ids = [] then SLOT_SIZE else 0) \<le> free_zone (jd_pool d) \<longrightarrow> k = length m) \<and>
     (ids \<noteq> [] \<and> free_zone (jd_pool d) < SLOT_SIZE \<longrightarrow> k = 0)"
  using assms
proof (induction m arbitrary: ids d)
  case Nil
  then show ?case by simp
next
  case (Cons e m)
  obtain dev a where e: "e = (dev, a)" by fastforce
  with Cons.prems(1) obtain q where q: "heap_get h (Some a) = Inr q" "device_id q = dev"
    by (auto simp: live_pager_def heap_get_def arr_get_def)
  let ?path = "[Member Linked ''pagers'', Member Copied (pager_key dev)]"
  define d1 where "d1 = json_set ?path (Src_int 30) d"
  have loop: "pagers_json_loop h (e # m) d = pagers_json_loop h m d1"
    by (simp add: e q d1_def pager_key_def)
  have ok1: "doc_ok d1" "mp_capacity (jd_pool d1) = mp_capacity (jd_pool d)"
    using json_set_ok [OF Cons.prems(3), of ?path "Src_int 30"] pager_key_facts(4) [of dev]
    by (simp_all add: d1_def step_ok_def pool_extends_def)
  have new: "dev \<notin> set ids" using Cons.prems(2) e by auto
  have m: "list_all (live_pager h) m" using Cons.prems(1) by simp
  show ?case
    using Cons.prems(3,4) new Cons.prems(5) d1_def
  proof (cases rule: list_step)
    case 1
    have dist: "distinct ((ids @ [dev]) @ map fst m)" using Cons.prems(2) e by auto
    from Cons.IH [OF m dist ok1(1) 1(1)] obtain d' k where
      D: "pagers_json_loop h m d1 = Inr d'" "doc_ok d'" "mp_capacity (jd_pool d') = mp_capacity (jd_pool d1)"
        "k \<le> length m" "jd_data d' = listing n ((ids @ [dev]) @ take k (map fst m))"
        "(SLOT_SIZE + 6) * length m \<le> free_zone (jd_pool d1) \<longrightarrow> k = length m" by auto
    have "(SLOT_SIZE + 6) * length m \<le> free_zone (jd_pool d1)"
      if "(SLOT_SIZE + 6) * length (e # m) + (if ids = [] then SLOT_SIZE else 0) \<le> free_zone (jd_pool d)"
      using that 1(3) by (auto split: if_splits)
    then show ?thesis using D loop ok1(2) e 1(2) by (intro exI [of _ d'] exI [of _ "Suc k"]) auto
  next
    case 2
    have dist: "distinct (ids @ map fst m)" using Cons.prems(2) by auto
    from Cons.IH [OF m dist ok1(1) 2(1)] 2(2,3) obtain d' where
      D: "pagers_json_loop h m d1 = Inr d'" "doc_ok d'" "mp_capacity (jd_pool d') = mp_capacity (jd_pool d1)"
        "jd_data d' = listing n ids" by auto
    then show ?thesis using loop ok1(2) 2(2,4) by (intro exI [of _ d'] exI [of _ 0]) auto
  qed
qed

section \<open>The text of the list\<close>

lemma escape_find_other: "\<forall>x\<in>set (map snd t). x \<noteq> c \<Longrightarrow> escape_find c t = NUL"
  by (induction c t rule: escape_find.induct) auto

lemma digit_char_text:
  assumes "is_digit c"
  shows "char_text c = [c]"
proof -
  have "\<forall>x\<in>set (map snd (escape_table True)). \<not> is_digit x" by code_simp
  then have "escapeChar c = NUL" unfolding escapeChar_def using assms by (intro escape_find_other) auto
  then show ?thesis using digit_not_NUL [OF assms] by (simp add: char_text_def)
qed

lemma key_text_length: "length (string_text (c_str (pager_key dev))) \<le> 7"
proof -
  have "concat (map char_text cs) = cs" if "\<forall>c\<in>set cs. is_digit c" for cs
    using that by (induction cs) (simp_all add: digit_char_text)
  then have "concat (map char_text (pager_key dev)) = pager_key dev" using pager_key_facts(3) by blast
  then show ?thesis using pager_key_facts(2,5) [of dev] by (simp add: string_text_def)
qed

lemma entries_text_length: "length (members_text (map pager_entry ids)) \<le> 11 * length ids"
proof (induction ids)
  case (Cons dev ids)
  have "concat (write_int 30) = ''30''" by code_simp
  then show ?case using Cons key_text_length [of dev] by (simp add: pager_entry_def)
qed simp

lemma write_int_length: "length (concat (write_int w)) \<le> 21"
proof -
  have "length (write_uint (unat x)) \<le> 20" for x :: u64
    using write_uint_fits [of "unat x"] unsigned_less [of x, where 'a = nat] by simp
  from this [of w] this [of "NOT w + 1"] show ?thesis by (simp add: write_int_def)
qed

lemma listing_text_length: "length (json_text (listing n ids)) \<le> 11 * length ids + 64"
proof -
  have k: "length (string_text ''total_pagers'') = 14" "length (string_text ''pagers'') = 8" by code_simp+
  show ?thesis using entries_text_length [of ids] write_int_length [of "word_of_nat n"]
    by (simp add: listing_def k)
qed

lemma listing_no_raw: "no_raw (listing n ids)"
proof -
  have "no_raw_members (map pager_entry ids)" by (induction ids) (simp_all add: pager_entry_def)
  then show ?thesis by (simp add: listing_def)
qed

lemma listing_slots: "slots (listing n ids) = (if ids = [] then 1 else length ids + 2)"
proof -
  have "members_slots (map pager_entry ids) = length ids" by (induction ids) (simp_all add: pager_entry_def)
  then show ?thesis by (simp add: listing_def)
qed

section \<open>The response\<close>

lemma response_json_ok:
  assumes "no_raw (jd_data d)" "length (json_text (jd_data d)) < length b"
  shows "response_json fuel net d b (c, w) =
     map_option (\<lambda>cw. Inr (terminated (json_text (jd_data d)) b, cw))
       (response_ok fuel net (json_text (jd_data d))
          (set_content_length (int (length (json_text (jd_data d)))) (set_json c), w))"
proof -
  let ?t = "json_text (jd_data d)"
  have "c_str (terminated ?t b) = ?t" by (rule terminated_c_str [OF json_text_no_NUL(1) [OF assms(1)] assms(2)])
  moreover have "NUL \<in> set (terminated ?t b)" using assms(2) by (simp add: terminated_def)
  ultimately show ?thesis using assms(2)
    by (simp add: response_json_def serializeJson_result Let_def)
qed

text \<open>The text of an answer on a fresh client: three headers, and the document as the body.\<close>

definition json_answer :: "string \<Rightarrow> string" where
  "json_answer body =
     ''HTTP/1.0 200 OK'' @ CRLF @ ''Access-Control-Allow-Origin: *'' @ CRLF @
     ''Content-Length: '' @ to_string (int (length body)) @ CRLF @
     ''Content-Type: application/json'' @ CRLF @ CRLF @ body"

lemma json_response_text:
  assumes "response_headers c = []" "length body < 10 ^ 10"
  shows "response_text 200 ''OK'' body (set_content_length n (set_json c)) = json_answer body"
proof -
  have len: "length (to_string (int (length body))) \<le> 10"
    using length_dec_digits [of "length body" 9] assms(2) by (simp add: to_string_def)
  let ?hs = "[(''Access-Control-Allow-Origin'', ''*''), (''Content-Length'', to_string (int (length body))),
     (''Content-Type'', ''application/json'')]"
  have hs: "response_headers_of body (set_content_length n (set_json c)) = ?hs"
    by (simp add: response_headers_of_def set_content_length_def set_json_def set_content_type_def set_header_def
        assms(1) less_list_code less_char_def)
  have "status_line 200 ''OK'' = ''HTTP/1.0 200 OK'' @ CRLF" by code_simp
  moreover have "map header_line ?hs = map plain_header ?hs"
    using len by (simp add: header_line_plain short_header_def)
  ultimately show ?thesis
    by (simp add: response_text_def response_head_def hs json_answer_def plain_header_def del: map_eq_conv)
qed

text \<open>A text that fills the buffer is not terminated: reading the buffer as a C string leaves it.\<close>

lemma response_json_overrun:
  assumes "no_raw (jd_data d)" "length b \<le> length (json_text (jd_data d))"
  shows "response_json fuel net d b cw = Some (Inl OutOfBounds)"
proof -
  have "NUL \<notin> set (terminated (json_text (jd_data d)) b)"
    using json_text_no_NUL(1) [OF assms(1)] assms(2) by (auto simp: terminated_def dest: in_set_takeD)
  then show ?thesis using assms(2)
    by (simp add: response_json_def serializeJson_result Let_def split: prod.split)
qed

lemma response_json_sends:
  assumes "net_takes net txt" "0 < fuel" "response_headers c = []"
    and "no_raw (jd_data d)" "length (json_text (jd_data d)) < length b" "length b \<le> 11680"
  shows "\<exists>c' w'. response_json fuel net d b (c, w) = Some (Inr (terminated (json_text (jd_data d)) b, c', w')) \<and>
     txt w' = txt w @ json_answer (json_text (jd_data d))"
proof -
  let ?t = "json_text (jd_data d)"
  let ?c = "set_content_length (int (length ?t)) (set_json c)"
  have "length ?t \<le> TCP_SND_BUF" using assms(5,6) by (intro snd_buf_le) simp
  from respond_sends [OF assms(1,2) this, of 200 "''OK''" ?c w] obtain c' w' where
    "response_ok fuel net ?t (?c, w) = Some (c', w')" "txt w' = txt w @ response_text 200 ''OK'' ?t ?c"
    unfolding response_ok_def by blast
  moreover have "response_text 200 ''OK'' ?t ?c = json_answer ?t"
    using json_response_text [OF assms(3)] assms(5,6) by simp
  ultimately show ?thesis using response_json_ok [OF assms(4,5), of fuel net c w] by simp
qed

definition page_ok :: "json_page \<Rightarrow> bool" where
  "page_ok page \<longleftrightarrow> doc_ok (json_g page) \<and> mp_capacity (jd_pool (json_g page)) = JSON_SIZE \<and>
     length (jbuf_g page) = JSON_SIZE"

lemma page_ok_init: "page_ok json_page_init"
  by (simp add: page_ok_def json_page_init_def new_document_ok)
    (simp add: new_document_def alloc_pool_def new_pool_def add_padding_def JSON_SIZE_def)

lemma page_ok_parts:
  assumes "page_ok page"
  shows "doc_ok (json_g page)" "mp_capacity (jd_pool (json_g page)) = JSON_SIZE" "length (jbuf_g page) = JSON_SIZE"
  using assms by (simp_all add: page_ok_def)

lemma answer_json_sends:
  assumes "net_takes net txt" "0 < fuel" "response_headers c = []" "page_ok page"
    and "doc_ok d" "mp_capacity (jd_pool d) = JSON_SIZE" "no_raw (jd_data d)" "length (json_text (jd_data d)) < JSON_SIZE"
  shows "\<exists>c' w' page'. answer_json fuel net d (c, w) page = Some (Inr ((c', w'), page')) \<and>
     txt w' = txt w @ json_answer (json_text (jd_data d)) \<and> page_ok page'"
proof -
  note P = page_ok_parts [OF assms(4)]
  have fits: "length (json_text (jd_data d)) < length (jbuf_g page)" using assms(8) P(3) by simp
  have small: "length (jbuf_g page) \<le> 11680" by (simp add: P(3) JSON_SIZE_def)
  from response_json_sends [OF assms(1-3,7) fits small, of w] obtain c' w' where
    R: "response_json fuel net d (jbuf_g page) (c, w) = Some (Inr (terminated (json_text (jd_data d)) (jbuf_g page), c', w'))"
      "txt w' = txt w @ json_answer (json_text (jd_data d))" by blast
  have "page_ok (page\<lparr>json_g := d, jbuf_g := terminated (json_text (jd_data d)) (jbuf_g page)\<rparr>)"
    using fits P(3) assms(5,6) by (simp add: page_ok_def terminated_def)
  then show ?thesis using R by (simp add: answer_json_def)
qed

lemma answer_json_overrun:
  assumes "page_ok page" "no_raw (jd_data d)" "JSON_SIZE \<le> length (json_text (jd_data d))"
  shows "answer_json fuel net d cw page = Some (Inl OutOfBounds)"
  using response_json_overrun [OF assms(2), where b = "jbuf_g page" and fuel = fuel and net = net and cw = cw] assms(3) page_ok_parts(3) [OF assms(1)]
  by (simp add: answer_json_def)

lemma cleared_total:
  fixes n :: nat
  assumes "doc_ok d" "mp_capacity (jd_pool d) = JSON_SIZE"
  defines "d' \<equiv> json_set [Member Linked ''total_pagers''] (Src_int (int n)) (json_clear d)"
  shows "doc_ok d'" "jd_data d' = listing n []" "mp_capacity (jd_pool d') = JSON_SIZE"
    "free_zone (jd_pool d') = JSON_SIZE - SLOT_SIZE"
proof -
  have ok: "doc_ok (json_clear d)" by (rule doc_ok_clear [OF assms(1)])
  show "doc_ok d'" unfolding d'_def by (rule json_set_ok(1) [OF ok]) (simp add: step_ok_def)
  show "jd_data d' = listing n []" "mp_capacity (jd_pool d') = JSON_SIZE" "free_zone (jd_pool d') = JSON_SIZE - SLOT_SIZE"
    using assms(2)
    by (simp_all add: d'_def json_set_def json_clear_def variant_get_or_add_member_def get_or_add_member_def
        add_member_def alloc_variant_def alloc_right_def can_alloc_def pool_clear_def store_def set_key_def
        convert_to_json_def listing_def free_zone_def SLOT_SIZE_def JSON_SIZE_def)
qed

section \<open>Property\<close>

lemma pagers_list_sends:
  assumes "net_takes net txt" "0 < fuel" "response_headers c = []" "server_inv s" "page_ok page"
  shows "\<exists>c' w' page' m. http_pagers_list fuel net (c, w) (s, page) = Some (Inr ((c', w'), s, page')) \<and>
     txt w' = txt w @ json_answer (json_text (listing (pl_size (registry s)) (take m (pl_ids (registry s))))) \<and>
     m \<le> pl_size (registry s) \<and> (pl_size (registry s) \<le> 370 \<longrightarrow> m = pl_size (registry s)) \<and> page_ok page'"
proof -
  let ?n = "pl_size (registry s)" let ?m = "pagers (registry s)"
  define d where "d = json_set [Member Linked ''total_pagers''] (Src_int (int ?n)) (json_clear (json_g page))"
  note page = page_ok_parts [OF assms(5)]
  note D = cleared_total [OF page(1,2), of ?n, folded d_def]
  have live: "list_all (live_pager (heap_g s)) ?m" and dist: "distinct ([] @ map fst ?m)"
    using assms(4) smap.entries_distinct [of ?m] by (auto simp: server_inv_def pl_inv_def)
  have free: "[] = [] \<longrightarrow> 2 * SLOT_SIZE + 6 \<le> free_zone (jd_pool d)"
    by (simp add: D SLOT_SIZE_def JSON_SIZE_def)
  from pagers_loop [OF live dist D(1,2) free] obtain d' k where
    L: "pagers_json_loop (heap_g s) ?m d = Inr d'" "doc_ok d'" "mp_capacity (jd_pool d') = JSON_SIZE"
      "k \<le> ?n" "jd_data d' = listing ?n (take k (pl_ids (registry s)))"
      "(SLOT_SIZE + 6) * ?n + SLOT_SIZE \<le> free_zone (jd_pool d) \<longrightarrow> k = ?n"
    unfolding D(3) pl_size_def pl_ids_def by auto
  let ?ids = "take k (pl_ids (registry s))"
  have "SLOT_SIZE * slots (jd_data d') \<le> JSON_SIZE"
    using L(2,3) by (auto simp: doc_ok_def pool_ok_def)
  then have "length ?ids \<le> 510" by (auto simp: L(5) listing_slots SLOT_SIZE_def JSON_SIZE_def split: if_splits)
  then have fits: "length (json_text (jd_data d')) < JSON_SIZE"
    using listing_text_length [of ?n ?ids] by (simp add: L(5) JSON_SIZE_def)
  have raw: "no_raw (jd_data d')" by (simp add: L(5) listing_no_raw)
  from answer_json_sends [OF assms(1-3,5) L(2,3) raw fits, of w] obtain c' w' page' where
    R: "answer_json fuel net d' (c, w) page = Some (Inr ((c', w'), page'))"
      "txt w' = txt w @ json_answer (json_text (jd_data d'))" "page_ok page'" by blast
  have all: "?n \<le> 370 \<longrightarrow> k = ?n" using L(6) by (simp add: D(4) SLOT_SIZE_def JSON_SIZE_def)
  have "http_pagers_list fuel net (c, w) (s, page) = Some (Inr ((c', w'), s, page'))"
    using L(1) R(1) by (simp add: http_pagers_list_def d_def [symmetric])
  then show ?thesis using R(2,3) L(4) all unfolding L(5) by blast
qed

text \<open>C36. \<open>GET /pagers/list\<close> never overruns its document or its buffer, whatever is registered, and
  answers with the number of pagers and their ids in ascending order. All of them are named as long as
  there are no more than 370; above that, the 8 KB document fills up and the rest is left out without
  a word.\<close>

theorem pagers_list_answers:
  assumes "net_takes net txt" "0 < fuel" "response_headers c = []" "server_inv s" "page_ok page"
  shows "\<exists>c' w' page' m. http_pagers_list fuel net (c, w) (s, page) = Some (Inr ((c', w'), s, page')) \<and>
     txt w' = txt w @ json_answer (json_text (listing (pl_size (registry s)) (take m (pl_ids (registry s))))) \<and>
     m \<le> pl_size (registry s) \<and> (pl_size (registry s) \<le> 370 \<longrightarrow> m = pl_size (registry s)) \<and> page_ok page'"
  by (rule pagers_list_sends [OF assms])

text \<open>Two pagers, 3 and 48879.\<close>

definition two_pagers :: server where
  "two_pagers = server_init\<lparr>heap_g := [Some (new_Pager 3), Some (new_Pager 0xBEEF)],
     registry := \<lparr>pagers = [(3, 0), (0xBEEF, 1)], pl_path = ''/pagers'', update_fs_required = False\<rparr>\<rparr>"

theorem pagers_list_answers_witness:
  "\<exists>c' w' page'. http_pagers_list 1 log_net (new_http_client, []) (two_pagers, json_page_init) =
       Some (Inr ((c', w'), two_pagers, page')) \<and>
     w' = json_answer (''{'' @ [QUOTE] @ ''total_pagers'' @ [QUOTE] @ '':2,'' @ [QUOTE] @ ''pagers'' @ [QUOTE] @
       '':{'' @ [QUOTE] @ ''3'' @ [QUOTE] @ '':30,'' @ [QUOTE] @ ''48879'' @ [QUOTE] @ '':30}}'')"
proof -
  have inv: "server_inv two_pagers"
    using server_inv_init
    by (simp add: server_inv_def two_pagers_def pl_inv_def sm_ok_def live_pager_def new_Pager_def no_leak_def
        heap_inv_def pager_inv_def any_flash_msgs_left_def less_Suc_eq server_init_def)
  have k: "pager_key 3 = ''3''" "pager_key 0xBEEF = ''48879''"
    by (simp_all add: pager_key_def to_string_def dec_digits.simps) code_simp+
  have n: "concat (write_int 30) = ''30''" "concat (write_int 2) = ''2''" by code_simp+
  have q: "string_text ''3'' = QUOTE # ''3'' @ [QUOTE]"
    "string_text ''48879'' = QUOTE # ''48879'' @ [QUOTE]"
    "string_text ''total_pagers'' = QUOTE # ''total_pagers'' @ [QUOTE]"
    "string_text ''pagers'' = QUOTE # ''pagers'' @ [QUOTE]" by code_simp+
  have t: "json_text (listing 2 [3, 0xBEEF]) = ''{'' @ [QUOTE] @ ''total_pagers'' @ [QUOTE] @ '':2,'' @ [QUOTE] @
      ''pagers'' @ [QUOTE] @ '':{'' @ [QUOTE] @ ''3'' @ [QUOTE] @ '':30,'' @ [QUOTE] @ ''48879'' @ [QUOTE] @ '':30}}''"
    by (simp add: listing_def pager_entry_def k n q)
  have r: "pl_size (registry two_pagers) = 2" "pl_ids (registry two_pagers) = [3, 0xBEEF]"
    by (simp_all add: two_pagers_def pl_size_def pl_ids_def)
  have h: "response_headers new_http_client = []" by (simp add: new_http_client_def)
  from pagers_list_answers [OF log_net_takes zero_less_one h inv page_ok_init, of "[]"] obtain c' w' page' m where
    R: "http_pagers_list 1 log_net (new_http_client, []) (two_pagers, json_page_init) =
       Some (Inr ((c', w'), two_pagers, page'))"
      "w' = [] @ json_answer (json_text (listing 2 (take m [3, 0xBEEF])))" "m = 2"
    unfolding r by auto
  have "take 2 [3, 0xBEEF] = [3, 0xBEEF :: u16]" by simp
  with R show ?thesis by (simp only: t append_Nil) blast
qed

end
