(* ===== verification/Wifi_Config.thy ===== *)
theory Wifi_Config
  imports Pager_List
begin

text \<open>
  \<open>src/pagers-common/fsutil.cpp\<close> and \<open>src/pagers-server/wififs.cpp\<close>: the WiFi network the server
  joins at boot, kept in the file \<open>/wifi\<close> as three lines (name, password and the
  authentication mode in hexadecimal).

  The lines are read character by character into arrays of the caller, whose sizes are the
  arguments \<open>cap\<close>; storing behind an array is a fault, and so is the use of \<open>chr\<close> before
  anything was read into it. At the end of the file \<open>lfs_file_read\<close> leaves \<open>chr\<close> as it was.
\<close>

section \<open>Lines of a file\<close>

abbreviation LINE_END :: char where "LINE_END \<equiv> CHR 0x0A"

text \<open>The loop of \<open>write_line\<close>, over the characters before the terminator.\<close>

fun write_chars :: "'w lfs \<Rightarrow> string \<Rightarrow> 'w \<Rightarrow> 'w" where
  "write_chars fs [] w = w"
| "write_chars fs (c # line) w = write_chars fs line (snd (lfs_file_write fs [c] w))"

definition write_line :: "'w lfs \<Rightarrow> string \<Rightarrow> 'w \<Rightarrow> 'w" where
  "write_line fs line w = snd (lfs_file_write fs [LINE_END] (write_chars fs (c_str line) w))"

text \<open>The loop of \<open>read_line\<close>, at most \<open>fuel\<close> rounds of it; \<open>line\<close> is what is stored already.\<close>

fun read_line_loop ::
    "nat \<Rightarrow> 'w lfs \<Rightarrow> nat \<Rightarrow> char option \<Rightarrow> string \<Rightarrow> 'w \<Rightarrow> (string \<times> 'w) result option" where
  "read_line_loop 0 fs cap chr line w = None"
| "read_line_loop (Suc fuel) fs cap chr line w =
     (let (r, buf, w) = lfs_file_read fs 1 w;
          chr = (if r \<ge> 1 then Some (hd buf) else chr)
      in case chr of
           None \<Rightarrow> Some (Inl Uninitialised)
         | Some c \<Rightarrow>
             if length line \<ge> cap then Some (Inl OutOfBounds)
             else if c = LINE_END then Some (Inr (line, w))
             else read_line_loop fuel fs cap chr (line @ [c]) w)"

definition read_line :: "nat \<Rightarrow> 'w lfs \<Rightarrow> nat \<Rightarrow> 'w \<Rightarrow> (string \<times> 'w) result option" where
  "read_line fuel fs cap w = read_line_loop fuel fs cap None [] w"

section \<open>The file\<close>

definition WIFI_PATH :: string where "WIFI_PATH = ''/wifi''"
definition SSID_SIZE :: nat where "SSID_SIZE = 32"
definition PW_SIZE :: nat where "PW_SIZE = 64"

text \<open>\<open>sprintf("%08lx")\<close>.\<close>

definition hex8 :: "u32 \<Rightarrow> string" where
  "hex8 v = map (\<lambda>i. hex_digit (unat v div 16 ^ i mod 16)) [7, 6, 5, 4, 3, 2, 1, 0]"

definition wifi_save :: "'w lfs \<Rightarrow> string \<Rightarrow> string \<Rightarrow> u32 \<Rightarrow> 'w \<Rightarrow> 'w" where
  "wifi_save fs ssid pwd auth w =
     (let (_, w) = lfs_file_open fs WIFI_PATH WRONLY_CREAT w;
          w = write_line fs ssid w;
          w = write_line fs pwd w;
          w = write_line fs (hex8 auth) w
      in snd (lfs_file_close fs w))"

text \<open>\<open>sscanf(buf, "%lx", auth)\<close>: without a number, \<open>auth\<close> keeps its value \<open>auth0\<close>. A result
  \<open>None\<close> inside is -1.\<close>

definition wifi_read ::
    "nat \<Rightarrow> 'w lfs \<Rightarrow> u32 \<Rightarrow> 'w \<Rightarrow> ((string \<times> string \<times> u32) option \<times> 'w) result option" where
  "wifi_read fuel fs auth0 w =
     (let (r, w) = lfs_file_open fs WIFI_PATH RDONLY w in
      if r < 0 then Some (Inr (None, w))
      else
        obind (read_line fuel fs SSID_SIZE w) (\<lambda>(ssid, w).
        obind (read_line fuel fs PW_SIZE w) (\<lambda>(pwd, w).
        obind (read_line fuel fs 9 w) (\<lambda>(buf, w).
          let auth = (case scan_x (c_str buf) of None \<Rightarrow> auth0 | Some v \<Rightarrow> word_of_int v)
          in Some (Inr (Some (ssid, pwd, auth), snd (lfs_file_close fs w)))))))"

section \<open>On a working disk\<close>

text \<open>What stands in the file before \<open>pos\<close> is written, what stands behind it is old.\<close>

definition overwrite :: "string \<Rightarrow> nat \<Rightarrow> string \<Rightarrow> string" where
  "overwrite c pos d = take pos c @ d @ drop (pos + length d) c"

lemma overwrite_append:
  "pos \<le> length c \<Longrightarrow> overwrite (overwrite c pos d) (pos + length d) e = overwrite c pos (d @ e)"
  by (simp add: overwrite_def ac_simps)

lemma overwrite_bound: "pos \<le> length c \<Longrightarrow> pos + length d \<le> length (overwrite c pos d)"
  by (simp add: overwrite_def)

lemma write_one:
  assumes "lfs_reliable fs view" "view w = (files(p \<mapsto> c), Some (p, pos))" "pos \<le> length c"
  shows "view (snd (lfs_file_write fs d w)) = (files(p \<mapsto> overwrite c pos d), Some (p, pos + length d))"
  using lfs_reliable_overwrite [OF assms(1,2) fun_upd_same assms(3), of d]
  by (auto simp: overwrite_def simp del: fun_upd_apply)

lemma write_chars_view:
  assumes "lfs_reliable fs view"
  shows "view w = (files(p \<mapsto> c), Some (p, pos)) \<Longrightarrow> pos \<le> length c \<Longrightarrow>
     view (write_chars fs d w) = (files(p \<mapsto> overwrite c pos d), Some (p, pos + length d))"
proof (induction d arbitrary: w c pos)
  case Nil
  then show ?case by (simp add: overwrite_def)
next
  case (Cons a d)
  from Cons.IH [OF write_one [OF assms Cons.prems, of "[a]"]] overwrite_bound [OF Cons.prems(2), of "[a]"]
  show ?case using overwrite_append [OF Cons.prems(2), of "[a]" d] by (simp del: fun_upd_apply)
qed

lemma write_line_view:
  assumes "lfs_reliable fs view" "view w = (files(p \<mapsto> c), Some (p, pos))" "pos \<le> length c" "NUL \<notin> set d"
  shows "view (write_line fs d w) =
     (files(p \<mapsto> overwrite c pos (d @ [LINE_END])), Some (p, pos + length (d @ [LINE_END])))"
  using write_one [OF assms(1) write_chars_view [OF assms(1-3), of d] overwrite_bound [OF assms(3)], of "[LINE_END]"]
    overwrite_append [OF assms(3), of d "[LINE_END]"] assms(4)
  by (simp add: write_line_def del: fun_upd_apply)

lemma read_line_loop_view:
  assumes "lfs_reliable fs view"
  shows "view w = (files, Some (p, pos)) \<Longrightarrow> files p = Some c \<Longrightarrow> drop pos c = d @ LINE_END # rest \<Longrightarrow>
     LINE_END \<notin> set d \<Longrightarrow> length line + length d < cap \<Longrightarrow> length d < fuel \<Longrightarrow>
     \<exists>w'. read_line_loop fuel fs cap chr line w = Some (Inr (line @ d, w')) \<and>
       view w' = (files, Some (p, pos + length d + 1))"
proof (induction d arbitrary: w pos line fuel chr)
  case Nil
  then obtain f where f: "fuel = Suc f" by (cases fuel) auto
  have n: "min 1 (length c - pos) = 1" using arg_cong [OF Nil.prems(3), of length] by simp
  from lfs_reliable_read [OF assms Nil.prems(1,2), of 1] n Nil.prems(3)
  obtain buf w1 where "lfs_file_read fs 1 w = (1, buf, w1)" "take 1 buf = [LINE_END]" "view w1 = (files, Some (p, pos + 1))"
    by auto
  then show ?case using Nil.prems(5) by (cases buf) (auto simp: f)
next
  case (Cons a d)
  then obtain f where f: "fuel = Suc f" by (cases fuel) auto
  have n: "min 1 (length c - pos) = 1" using arg_cong [OF Cons.prems(3), of length] by simp
  from lfs_reliable_read [OF assms Cons.prems(1,2), of 1] n Cons.prems(3)
  obtain buf w1 where r: "lfs_file_read fs 1 w = (1, buf, w1)" "take 1 buf = [a]" "view w1 = (files, Some (p, pos + 1))"
    by auto
  then have a: "hd buf = a" by (cases buf) auto
  have "drop (pos + 1) c = d @ LINE_END # rest" using arg_cong [OF Cons.prems(3), of tl] by (simp add: drop_Suc tl_drop)
  from Cons.IH [OF r(3) Cons.prems(2) this, of "line @ [a]" f "Some a"] Cons.prems(4-6) f
  obtain w' where "read_line_loop f fs cap (Some a) (line @ [a]) w1 = Some (Inr (line @ a # d, w'))"
    "view w' = (files, Some (p, pos + length (a # d) + 1))" by auto
  moreover have "a \<noteq> LINE_END" using Cons.prems(4) by auto
  ultimately show ?case using r(1) a Cons.prems(5) by (simp add: f)
qed

text \<open>The three lines of the file, with whatever a longer file had behind them.\<close>

definition wifi_lines :: "string \<Rightarrow> string \<Rightarrow> u32 \<Rightarrow> string" where
  "wifi_lines ssid pwd auth = ssid @ [LINE_END] @ pwd @ [LINE_END] @ hex8 auth @ [LINE_END]"

lemma hex_digits_value:
  assumes "\<forall>n\<in>set ns. hex_val (hex_digit n) = Some n"
  shows "foldl (\<lambda>n c. 16 * n + int (the (hex_val c))) (int v) (map hex_digit ns) =
     int (foldl (\<lambda>v n. 16 * v + n) v ns)"
  using assms
proof (induction ns arbitrary: v)
  case (Cons a ns)
  from Cons.IH [of "16 * v + a"] Cons.prems show ?case by simp
qed simp

lemma scan_x_hex:
  assumes "ns \<noteq> []" "\<forall>n\<in>set ns. n < 16"
  shows "scan_x (c_str (map hex_digit ns)) = Some (int (foldl (\<lambda>v n. 16 * v + n) 0 ns))"
proof -
  have dig: "hex_val (hex_digit n) = Some n" "hex_digit n \<noteq> NUL" "\<not> c_space (hex_digit n)"
    "hex_digit n \<noteq> CHR ''-''" "hex_digit n \<noteq> CHR ''+''" "hex_digit n \<noteq> CHR ''x''" "hex_digit n \<noteq> CHR ''X''"
    if "n \<in> set ns" for n using hex_digit_facts assms(2) that by auto
  let ?s = "map hex_digit ns"
  have c: "c_str ?s = ?s" using dig(2) by (intro c_str_plain) (metis imageE list.set_map)
  have hd: "hd ?s \<noteq> CHR ''-''" "hd ?s \<noteq> CHR ''+''" "\<not> c_space (hd ?s)"
    using dig assms(1) by (auto simp: hd_map)
  have sp: "dropWhile c_space ?s = ?s" using hd(3) assms(1) by (cases ?s) auto
  have "skip_0x ?s = ?s"
    using dig(6,7) by (cases ns; cases "tl ns") (auto simp: skip_0x_def)
  moreover have tw: "takeWhile (\<lambda>c. hex_val c \<noteq> None) ?s = ?s" using dig(1) by (simp add: takeWhile_eq_all_conv)
  moreover have "foldl (\<lambda>n c. 16 * n + int (the (hex_val c))) 0 ?s = int (foldl (\<lambda>v n. 16 * v + n) 0 ns)"
    using hex_digits_value [of ns 0] dig(1) by simp
  ultimately show ?thesis using assms(1) hd by (simp add: scan_x_def Let_def c sp tw del: not_None_eq)
qed

lemma hex_fold:
  fixes n :: nat
  shows "foldl (\<lambda>v i. 16 * v + n div 16 ^ i mod 16) a (rev [0..<k]) = 16 ^ k * a + n mod 16 ^ k"
proof (induction k arbitrary: a)
  case (Suc k)
  have "n mod (16 ^ k * 16) = 16 ^ k * (n div 16 ^ k mod 16) + n mod 16 ^ k" by (rule mod_mult2_eq)
  with Suc show ?case by (simp add: algebra_simps)
qed simp

lemma hex8_value: "scan_x (c_str (hex8 v)) = Some (uint v)"
proof -
  let ?n = "unat v"
  let ?ns = "map (\<lambda>i. ?n div 16 ^ i mod 16) (rev [0..<8])"
  have "?n < 16 ^ 8" using unsigned_less [of v, where 'a = nat] by simp
  then have "foldl (\<lambda>v n. 16 * v + n) 0 ?ns = ?n"
    using hex_fold [of ?n 0 8] by (simp only: foldl_map) simp
  moreover have "rev [0..<8] = [7, 6, 5, 4, 3, 2, 1, 0 :: nat]" by code_simp
  then have "hex8 v = map hex_digit ?ns" by (simp add: hex8_def)
  moreover have "?ns \<noteq> []" "\<forall>n\<in>set ?ns. n < 16" by auto
  ultimately show ?thesis using scan_x_hex [of ?ns] by (metis uint_nat)
qed

lemma hex8_plain: "NUL \<notin> set (hex8 v)" "LINE_END \<notin> set (hex8 v)" "length (hex8 v) = 8"
proof -
  have "hex_digit n \<noteq> NUL" "hex_digit n \<noteq> LINE_END" if "n < 16" for n
    using hex_digit_facts(2,3) [OF that] by (auto simp: c_space_def)
  then have "c \<noteq> NUL" "c \<noteq> LINE_END" if "c \<in> set (hex8 v)" for c
    using that unfolding hex8_def by (metis (no_types, lifting) imageE list.set_map mod_less_divisor zero_less_numeral)+
  then show "NUL \<notin> set (hex8 v)" "LINE_END \<notin> set (hex8 v)" by blast+
  show "length (hex8 v) = 8" by (simp add: hex8_def)
qed

text \<open>A name or password the arrays and the lines can hold.\<close>

definition line_plain :: "nat \<Rightarrow> string \<Rightarrow> bool" where
  "line_plain cap s \<longleftrightarrow> length s < cap \<and> NUL \<notin> set s \<and> LINE_END \<notin> set s"

lemma wifi_save_view:
  assumes "lfs_reliable fs view" "view w = (files, None)" "NUL \<notin> set ssid" "NUL \<notin> set pwd"
  shows "\<exists>old. view (wifi_save fs ssid pwd auth w) = (files(WIFI_PATH \<mapsto> wifi_lines ssid pwd auth @ old), None)"
proof -
  define c where "c = (case files WIFI_PATH of None \<Rightarrow> [] | Some c \<Rightarrow> c)"
  from lfs_reliable_open(3) [OF assms(1,2), of WIFI_PATH] obtain r w1 where
    o: "lfs_file_open fs WIFI_PATH WRONLY_CREAT w = (r, w1)" "view w1 = (files(WIFI_PATH \<mapsto> c), Some (WIFI_PATH, 0))"
    by (auto simp: c_def)
  let ?a = "ssid @ [LINE_END]" let ?b = "pwd @ [LINE_END]" let ?d = "hex8 auth @ [LINE_END]"
  note 1 = write_line_view [OF assms(1) o(2) _ assms(3), simplified]
  note 2 = write_line_view [OF assms(1) 1 _ assms(4)]
  let ?c1 = "overwrite c 0 ?a"
  have b1: "length ?a \<le> length ?c1" using overwrite_bound [of 0 c ?a] by simp
  have v2: "view (write_line fs pwd (write_line fs ssid w1)) =
     (files(WIFI_PATH \<mapsto> overwrite ?c1 (length ?a) ?b), Some (WIFI_PATH, length ?a + length ?b))"
    using write_line_view [OF assms(1), of "write_line fs ssid w1" files WIFI_PATH ?c1 "length ?a" pwd] 1 b1 assms(4)
    by simp
  let ?c2 = "overwrite c 0 (?a @ ?b)"
  have c2: "overwrite ?c1 (length ?a) ?b = ?c2" using overwrite_append [of 0 c ?a ?b] by simp
  have b2: "length ?a + length ?b \<le> length ?c2" using overwrite_bound [of 0 c "?a @ ?b"] by simp
  have "view (write_line fs (hex8 auth) (write_line fs pwd (write_line fs ssid w1))) =
     (files(WIFI_PATH \<mapsto> overwrite ?c2 (length ?a + length ?b) ?d), Some (WIFI_PATH, length ?a + length ?b + length ?d))"
    using write_line_view [OF assms(1) v2 [unfolded c2] b2, of "hex8 auth"] hex8_plain by simp
  moreover have "overwrite ?c2 (length ?a + length ?b) ?d = overwrite c 0 ((?a @ ?b) @ ?d)"
    using overwrite_append [of 0 c "?a @ ?b" ?d] by simp
  moreover have "overwrite c 0 ((?a @ ?b) @ ?d) = wifi_lines ssid pwd auth @ drop (length ((?a @ ?b) @ ?d)) c"
    by (simp add: overwrite_def wifi_lines_def)
  ultimately show ?thesis
    using lfs_reliable_close [OF assms(1)] o(1) by (auto simp: wifi_save_def Let_def)
qed

lemma read_line_view:
  assumes "lfs_reliable fs view" "view w = (files, Some (p, pos))" "files p = Some c"
    and "drop pos c = d @ LINE_END # rest" "LINE_END \<notin> set d" "length d < cap" "length d < fuel"
  shows "\<exists>w'. read_line fuel fs cap w = Some (Inr (d, w')) \<and>
     view w' = (files, Some (p, pos + length d + 1))"
  using read_line_loop_view [OF assms(1-5), of "[]" cap fuel None] assms(6,7) by (simp add: read_line_def)

lemma wifi_read_view:
  assumes "lfs_reliable fs view" "view w = (files, None)"
    and "files WIFI_PATH = Some (wifi_lines ssid pwd auth @ old)"
    and "line_plain SSID_SIZE ssid" "line_plain PW_SIZE pwd" "PW_SIZE \<le> fuel"
  shows "\<exists>w'. wifi_read fuel fs auth0 w = Some (Inr (Some (ssid, pwd, auth), w')) \<and> view w' = (files, None)"
proof -
  let ?c = "wifi_lines ssid pwd auth @ old"
  have len: "length ssid < SSID_SIZE" "length ssid < fuel" "length pwd < PW_SIZE" "length pwd < fuel"
    "length (hex8 auth) < 9" "length (hex8 auth) < fuel"
    using assms(4-6) hex8_plain(3) [of auth] by (auto simp: line_plain_def SSID_SIZE_def PW_SIZE_def)
  have no: "LINE_END \<notin> set ssid" "LINE_END \<notin> set pwd" using assms(4,5) by (simp_all add: line_plain_def)
  from lfs_reliable_open(1) [OF assms(1-3)] obtain r w1 where
    o: "lfs_file_open fs WIFI_PATH RDONLY w = (r, w1)" "0 \<le> r" "view w1 = (files, Some (WIFI_PATH, 0))" by blast
  from read_line_view [OF assms(1) o(3) assms(3), of ssid _ SSID_SIZE fuel] len(1,2) no(1) obtain w2 where
    w2: "read_line fuel fs SSID_SIZE w1 = Some (Inr (ssid, w2))" "view w2 = (files, Some (WIFI_PATH, length ssid + 1))"
    by (auto simp: wifi_lines_def)
  from read_line_view [OF assms(1) w2(2) assms(3), of pwd _ PW_SIZE fuel] len(3,4) no(2) obtain w3 where
    w3: "read_line fuel fs PW_SIZE w2 = Some (Inr (pwd, w3))"
      "view w3 = (files, Some (WIFI_PATH, length ssid + 1 + length pwd + 1))"
    by (auto simp: wifi_lines_def)
  from read_line_view [OF assms(1) w3(2) assms(3), of "hex8 auth" _ 9 fuel] len(5,6) hex8_plain(2) [of auth]
  obtain w4 where
    w4: "read_line fuel fs 9 w3 = Some (Inr (hex8 auth, w4))" "view w4 = (files, Some (WIFI_PATH, length ssid + 1 + length pwd + 1 + 8 + 1))"
    by (auto simp: wifi_lines_def hex8_plain(3))
  from lfs_reliable_close [OF assms(1) w4(2)] show ?thesis
    using o w2(1) w3(1) w4(1) by (simp add: wifi_read_def hex8_value)
qed

section \<open>Properties\<close>

text \<open>A file that ends inside its first line: there is no end of the line to find.\<close>

lemma read_line_no_end:
  assumes "lfs_reliable fs view"
  shows "view w = (files, Some (p, pos)) \<Longrightarrow> files p = Some c \<Longrightarrow> LINE_END \<notin> set c \<Longrightarrow>
     chr \<noteq> Some LINE_END \<Longrightarrow> pos < length c \<or> chr \<noteq> None \<Longrightarrow> cap \<le> length line + n \<Longrightarrow>
     read_line_loop (Suc n) fs cap chr line w = Some (Inl OutOfBounds)"
proof (induction n arbitrary: w pos line chr)
  case (0 w pos line chr)
  from lfs_reliable_read [OF assms 0(1,2), of 1] obtain buf w1 where
    r: "lfs_file_read fs 1 w = (int (min 1 (length c - pos)), buf, w1)"
    "take (min 1 (length c - pos)) buf = take 1 (drop pos c)" by blast
  with 0 show ?case by (auto split: option.splits)
next
  case (Suc n w pos line chr)
  from lfs_reliable_read [OF assms Suc.prems(1,2), of 1] obtain buf w1 where
    r: "lfs_file_read fs 1 w = (int (min 1 (length c - pos)), buf, w1)"
    "take (min 1 (length c - pos)) buf = take 1 (drop pos c)"
    "view w1 = (files, Some (p, pos + min 1 (length c - pos)))" by blast
  have "\<exists>x. (if int (min 1 (length c - pos)) \<ge> 1 then Some (hd buf) else chr) = Some x \<and> x \<noteq> LINE_END"
  proof (cases "pos < length c")
    case True
    then have "min 1 (length c - pos) = 1" by simp
    with r(2) True have "take 1 buf = [c ! pos]" by (simp add: take_Suc_conv_app_nth hd_drop_conv_nth take_Suc)
    then have "hd buf = c ! pos" by (cases buf) auto
    moreover have "c ! pos \<noteq> LINE_END" using Suc.prems(3) nth_mem [OF True] by auto
    ultimately show ?thesis using True by simp
  next
    case False
    then show ?thesis using Suc.prems(4,5) by auto
  qed
  then obtain x where x: "(if int (min 1 (length c - pos)) \<ge> 1 then Some (hd buf) else chr) = Some x" "x \<noteq> LINE_END"
    by blast
  from Suc.IH [OF r(3) Suc.prems(2,3), of "Some x" "line @ [x]"] x(2) Suc.prems(6)
  have "read_line_loop (Suc n) fs cap (Some x) (line @ [x]) w1 = Some (Inl OutOfBounds)" by simp
  then show ?case using r(1) x by (subst read_line_loop.simps) (simp add: Let_def del: read_line_loop.simps)
qed

text \<open>A file that was created but not completed (the power failed before its first line end was
  written) is not recognised at boot: the reading loop has no test for the end of the file, so it
  uses an unset variable when the file is empty and otherwise repeats the last character until it has
  run over the end of the 32-byte name.\<close>

theorem incomplete_config_overflows:
  assumes "lfs_reliable fs view" "view w = (files, None)"
    and "files WIFI_PATH = Some c" "LINE_END \<notin> set c" "SSID_SIZE < fuel"
  shows "wifi_read fuel fs auth0 w = Some (Inl (if c = [] then Uninitialised else OutOfBounds))"
proof -
  from lfs_reliable_open(1) [OF assms(1-3)] obtain r w1 where
    o: "lfs_file_open fs WIFI_PATH RDONLY w = (r, w1)" "0 \<le> r" "view w1 = (files, Some (WIFI_PATH, 0))" by blast
  obtain n where n: "fuel = Suc n" "SSID_SIZE \<le> n" using assms(5) by (cases fuel) auto
  have "read_line fuel fs SSID_SIZE w1 = Some (Inl (if c = [] then Uninitialised else OutOfBounds))"
  proof (cases "c = []")
    case True
    from lfs_reliable_read [OF assms(1) o(3) assms(3), of 1] True show ?thesis
      by (auto simp: read_line_def n(1))
  next
    case False
    from read_line_no_end [OF assms(1) o(3) assms(3,4), of None SSID_SIZE "[]" n] False n show ?thesis
      by (simp add: read_line_def)
  qed
  then show ?thesis using o(1,2) by (simp add: wifi_read_def)
qed

theorem incomplete_config_overflows_witness:
  "wifi_read 33 ram_fs 0 ([(WIFI_PATH, [])], None) = Some (Inl Uninitialised) \<and>
   wifi_read 33 ram_fs 0 ([(WIFI_PATH, ''gue'')], None) = Some (Inl OutOfBounds)"
proof -
  have v: "ram_view ([(WIFI_PATH, c)], None) = (map_of [(WIFI_PATH, c)], None)" for c by (simp add: ram_view_def)
  show ?thesis
    using incomplete_config_overflows [OF ram_fs_reliable v, of "[]" "[]" 33 0]
      incomplete_config_overflows [OF ram_fs_reliable v, of "''gue''" "''gue''" 33 0]
    by (simp add: SSID_SIZE_def)
qed

end
