(* ===== verification/Wifi_Handlers.thy ===== *)
theory Wifi_Handlers
  imports Pagers_Json Json_Fields Wifi_Config
begin

text \<open>
  \<open>src/pagers-server/main.cpp\<close>, the WiFi half: the handlers that start a scan, report its state
  and its results, accept a network to join and report the state of the connection; the callback
  \<open>scan_result\<close> for every network found; and what the main loop does for them
  (\<open>do_wifi_scan\<close>, \<open>do_wifi_connect\<close>).

  The CYW43 driver and lwIP are not part of the repository: they are the record \<open>cyw43\<close> over an
  arbitrary world, with the two constants of its header the code uses. The map of scan results is an
  object on a heap of its own, so that a map that is lost or used after its deletion shows. The fixed
  arrays \<open>connect_ssid\<close> and \<open>connect_pw\<close> are strings of 32 and 64 bytes; reading one that
  has no terminator as a C string leaves it, which is a fault.
\<close>

section \<open>The driver\<close>

text \<open>The fields of \<open>cyw43_ev_scan_result_t\<close> the program reads, \<open>ev_ssid\<close> with all its
  bytes and \<open>ev_rssi\<close> as the bits of an \<open>int16_t\<close>.\<close>

record ev_scan_result =
  ev_ssid :: string
  ev_rssi :: u16
  ev_channel :: u16
  ev_auth_mode :: u8

record 'w cyw43 =
  enable_sta_mode :: "'w \<Rightarrow> 'w"
  scan_active :: "'w \<Rightarrow> bool"
  cyw43_scan :: "'w \<Rightarrow> int \<times> 'w"
  connect_blocking :: "string \<Rightarrow> string \<Rightarrow> u32 \<Rightarrow> 'w \<Rightarrow> int \<times> 'w"
  sta_address :: "'w \<Rightarrow> string"
  enable_ap_mode :: "string \<Rightarrow> string \<Rightarrow> u32 \<Rightarrow> 'w \<Rightarrow> 'w"
  AUTH_WPA2_AES_PSK :: u32
  AUTH_WPA_TKIP_PSK :: u32

section \<open>State\<close>

type_synonym scan_map = "(string, ev_scan_result) std_map"

record wifi =
  wifi_scan_g :: bool
  scan_results_g :: "nat option"
  scan_maps :: "scan_map heap"
  wifi_connect_g :: bool
  connect_ssid_g :: string
  connect_pw_g :: string
  connect_auth_g :: u32
  connect_err_code_g :: int

definition wifi_init :: wifi where
  "wifi_init = \<lparr>wifi_scan_g = False, scan_results_g = None, scan_maps = [], wifi_connect_g = False,
     connect_ssid_g = replicate SSID_SIZE NUL, connect_pw_g = replicate PW_SIZE NUL,
     connect_auth_g = 0, connect_err_code_g = 0\<rparr>"

type_synonym 'w wifi_handled = "((http_client \<times> 'w) \<times> wifi \<times> json_page) result option"

text \<open>A fixed array read as a C string.\<close>

definition array_c_str :: "string \<Rightarrow> string result" where
  "array_c_str a = (if NUL \<in> set a then Inr (c_str a) else Inl OutOfBounds)"

definition strncpy :: "string \<Rightarrow> nat \<Rightarrow> string" where
  "strncpy src n = take n (c_str src @ replicate n NUL)"

definition wifi_finish :: "(http_client \<times> 'w) option \<Rightarrow> wifi \<times> json_page \<Rightarrow> 'w wifi_handled" where
  "wifi_finish resp g = map_option (\<lambda>cw. Inr (cw, g)) resp"

section \<open>Scanning\<close>

definition http_wifi_scan_start ::
    "nat \<Rightarrow> 'w net \<Rightarrow> http_client \<times> 'w \<Rightarrow> wifi \<times> json_page \<Rightarrow> 'w wifi_handled" where
  "http_wifi_scan_start fuel net cw = (\<lambda>(ws, page).
     let (a, maps) = heap_new [] (scan_maps ws)
     in wifi_finish (response_ok fuel net ''ok'' cw)
          (ws\<lparr>scan_maps := maps, scan_results_g := Some a, wifi_scan_g := True\<rparr>, page))"

definition http_wifi_scan_status ::
    "nat \<Rightarrow> 'w net \<Rightarrow> 'w cyw43 \<Rightarrow> http_client \<times> 'w \<Rightarrow> wifi \<times> json_page \<Rightarrow> 'w wifi_handled" where
  "http_wifi_scan_status fuel net cy cw = (\<lambda>(ws, page).
     let d = json_set [Member Linked ''active''] (Src_bool (scan_active cy (snd cw))) (json_clear (json_g page))
     in obind (answer_json fuel net d cw page) (\<lambda>(cw, page). Some (Inr (cw, ws, page))))"

fun scan_results_loop :: "scan_map \<Rightarrow> json_document \<Rightarrow> json_document result" where
  "scan_results_loop [] d = Inr d"
| "scan_results_loop ((k, r) # m) d =
     rbind (array_c_str (ev_ssid r)) (\<lambda>ssid.
       let d = json_set [Member Copied k, Member Linked ''ssid''] (Src_string ssid) d;
           d = json_set [Member Copied k, Member Linked ''rssi''] (Src_int (sint (ev_rssi r))) d;
           d = json_set [Member Copied k, Member Linked ''channel''] (Src_unsigned (unat (ev_channel r))) d;
           d = json_set [Member Copied k, Member Linked ''auth''] (Src_unsigned (unat (ev_auth_mode r))) d
       in scan_results_loop m d)"

definition http_wifi_scan_results ::
    "nat \<Rightarrow> 'w net \<Rightarrow> 'w cyw43 \<Rightarrow> http_client \<times> 'w \<Rightarrow> wifi \<times> json_page \<Rightarrow> 'w wifi_handled" where
  "http_wifi_scan_results fuel net cy cw = (\<lambda>(ws, page).
     if scan_results_g ws = None then wifi_finish (response_bad fuel net ''start a scan first'' cw) (ws, page)
     else if scan_active cy (snd cw) then
       wifi_finish (response_bad fuel net ''scan still in progress'' cw) (ws, page)
     else
       obind (Some (heap_get (scan_maps ws) (scan_results_g ws))) (\<lambda>m.
       obind (Some (scan_results_loop m (json_clear (json_g page)))) (\<lambda>d.
       obind (Some (heap_delete (scan_results_g ws) (scan_maps ws))) (\<lambda>maps.
       obind (answer_json fuel net d cw page) (\<lambda>(cw, page).
         Some (Inr (cw, ws\<lparr>scan_maps := maps, scan_results_g := None\<rparr>, page)))))))"

text \<open>The driver calls this for every network, and with a null pointer at the end.\<close>

definition scan_result :: "ev_scan_result option \<Rightarrow> wifi \<Rightarrow> wifi result" where
  "scan_result res ws =
     (case res of
        None \<Rightarrow> Inr ws
      | Some r \<Rightarrow>
          if scan_results_g ws = None then Inr ws
          else
            rbind (array_c_str (ev_ssid r)) (\<lambda>ssid.
            rbind (heap_update (scan_results_g ws) (sm_put ssid r) (scan_maps ws)) (\<lambda>maps.
              Inr (ws\<lparr>scan_maps := maps\<rparr>))))"

definition do_wifi_scan :: "'w cyw43 \<Rightarrow> 'w \<Rightarrow> 'w" where
  "do_wifi_scan cy w = snd (cyw43_scan cy (enable_sta_mode cy w))"

section \<open>Connecting\<close>

definition fix_auth :: "'w cyw43 \<Rightarrow> u8 \<Rightarrow> u32" where
  "fix_auth cy sec =
     (if sec AND 0x04 \<noteq> 0 then AUTH_WPA2_AES_PSK cy
      else if sec AND 0x02 \<noteq> 0 then AUTH_WPA_TKIP_PSK cy
      else -1)"

definition do_wifi_connect :: "bool \<Rightarrow> 'w cyw43 \<Rightarrow> 'w lfs \<Rightarrow> wifi \<times> 'w \<Rightarrow> (wifi \<times> 'w) result" where
  "do_wifi_connect do_save cy fs = (\<lambda>(ws, w).
     let w = enable_sta_mode cy w in
     rbind (array_c_str (connect_ssid_g ws)) (\<lambda>ssid.
     rbind (array_c_str (connect_pw_g ws)) (\<lambda>pwd.
       let (err, w) = connect_blocking cy ssid pwd (connect_auth_g ws) w;
           ws = ws\<lparr>connect_err_code_g := err\<rparr>
       in if err \<noteq> 0 then Inr (ws, w)
          else if do_save then Inr (ws, wifi_save fs ssid pwd (connect_auth_g ws) w)
          else Inr (ws, w))))"

definition http_wifi_connect ::
    "nat \<Rightarrow> 'w net \<Rightarrow> 'w cyw43 \<Rightarrow> http_client \<times> 'w \<Rightarrow> wifi \<times> json_page \<Rightarrow> 'w wifi_handled" where
  "http_wifi_connect fuel net cy cw = (\<lambda>(ws, page).
     let client = fst cw in
     if \<not> has_req_param client ''ssid'' \<or> \<not> has_req_param client ''password'' \<or> \<not> has_req_param client ''auth'' then
       wifi_finish (response_bad fuel net ''no ssid or password or auth given'' cw) (ws, page)
     else
       obind (Some (get_req_param client ''ssid'')) (\<lambda>ssid.
       obind (Some (get_req_param client ''password'')) (\<lambda>pwd.
       obind (Some (get_req_param_int client ''auth'')) (\<lambda>auth.
         wifi_finish (response_ok fuel net ''ok'' cw)
           (ws\<lparr>connect_ssid_g := strncpy ssid SSID_SIZE, connect_pw_g := strncpy pwd PW_SIZE,
             connect_auth_g := fix_auth cy (word_of_int auth), wifi_connect_g := True\<rparr>, page)))))"

definition http_wifi_connect_status ::
    "nat \<Rightarrow> 'w net \<Rightarrow> 'w cyw43 \<Rightarrow> http_client \<times> 'w \<Rightarrow> wifi \<times> json_page \<Rightarrow> 'w wifi_handled" where
  "http_wifi_connect_status fuel net cy cw = (\<lambda>(ws, page).
     let d = json_clear (json_g page);
         d = json_set [Member Linked ''success''] (Src_bool (connect_err_code_g ws = 0)) d;
         d = json_set [Member Linked ''err_code''] (Src_int (connect_err_code_g ws)) d;
         d = json_set [Member Linked ''ip''] (Src_string (sta_address cy (snd cw))) d
     in obind (answer_json fuel net d cw page) (\<lambda>(cw, page). Some (Inr (cw, ws, page))))"

section \<open>The main loop's part\<close>

text \<open>The two tests at the start of a round of \<open>while (1)\<close>.\<close>

definition poll_wifi_scan :: "'w cyw43 \<Rightarrow> wifi \<times> 'w \<Rightarrow> wifi \<times> 'w" where
  "poll_wifi_scan cy = (\<lambda>(ws, w).
     if wifi_scan_g ws then (ws\<lparr>wifi_scan_g := False\<rparr>, do_wifi_scan cy w) else (ws, w))"

definition poll_wifi_connect :: "'w cyw43 \<Rightarrow> 'w lfs \<Rightarrow> wifi \<times> 'w \<Rightarrow> (wifi \<times> 'w) result" where
  "poll_wifi_connect cy fs = (\<lambda>(ws, w).
     if wifi_connect_g ws then do_wifi_connect True cy fs (ws\<lparr>wifi_connect_g := False\<rparr>, w) else Inr (ws, w))"

text \<open>At boot: the stored network is joined, or the server opens its own. \<open>read_line\<close> stores a line and
  its terminator at the start of the array.\<close>

definition store_line :: "string \<Rightarrow> string \<Rightarrow> string" where
  "store_line line a = line @ [NUL] @ drop (length line + 1) a"

definition boot_wifi :: "nat \<Rightarrow> 'w cyw43 \<Rightarrow> 'w lfs \<Rightarrow> wifi \<times> 'w \<Rightarrow> (wifi \<times> 'w) result option" where
  "boot_wifi fuel cy fs = (\<lambda>(ws, w).
     obind (wifi_read fuel fs (connect_auth_g ws) w) (\<lambda>(r, w).
       case r of
         None \<Rightarrow> Some (Inr (ws, enable_ap_mode cy ''pagers-server'' ''password'' (AUTH_WPA2_AES_PSK cy) w))
       | Some (ssid, pwd, auth) \<Rightarrow>
           Some (do_wifi_connect False cy fs
             (ws\<lparr>connect_ssid_g := store_line ssid (connect_ssid_g ws),
               connect_pw_g := store_line pwd (connect_pw_g ws), connect_auth_g := auth\<rparr>, w))))"

section \<open>The document of a scan\<close>

definition network_fields :: "ev_scan_result \<Rightarrow> slot list" where
  "network_fields r =
     [((Linked, ''ssid''), VString Copied (c_str (ev_ssid r))), ((Linked, ''rssi''), VInt (word_of_int (sint (ev_rssi r)))),
      ((Linked, ''channel''), VUInt (word_of_nat (unat (ev_channel r)))),
      ((Linked, ''auth''), VUInt (word_of_nat (unat (ev_auth_mode r))))]"

definition network_slot :: "string \<times> ev_scan_result \<Rightarrow> slot" where
  "network_slot e = ((Copied, fst e), VObject (network_fields (snd e)))"

text \<open>The handler only assigns members, so with no network the document stays null.\<close>

definition network_list :: "scan_map \<Rightarrow> variant" where
  "network_list m = (if m = [] then VNull else VObject (map network_slot m))"

definition network_ok :: "string \<times> ev_scan_result \<Rightarrow> bool" where
  "network_ok e \<longleftrightarrow> NUL \<in> set (ev_ssid (snd e)) \<and> length (ev_ssid (snd e)) = SSID_SIZE \<and> fst e = c_str (ev_ssid (snd e))"

lemma c_str_short: "NUL \<in> set a \<Longrightarrow> length (c_str a) < length a"
  unfolding c_str_def by (induction a) auto

lemma network_key:
  assumes "network_ok (k, r)"
  shows "NUL \<notin> set k" "length k \<le> 31" "array_c_str (ev_ssid r) = Inr k" "c_str (ev_ssid r) = k"
  using assms c_str_short [of "ev_ssid r"] by (auto simp: network_ok_def array_c_str_def SSID_SIZE_def)

text \<open>The room a network takes at most: five slots, and its name twice.\<close>

definition NETWORK_ROOM :: nat where "NETWORK_ROOM = 167"

lemma fresh_network: "k \<notin> fst ` set known \<Longrightarrow> get_slot k (map network_slot known) = None"
  by (force simp: get_slot_None network_slot_def)

lemma network_step:
  assumes "network_ok (k, r)" "k \<notin> fst ` set known" "fields_of (jd_data d) = Some (map network_slot known)"
    and "has_room (NETWORK_ROOM + m) (jd_pool d)"
  defines "d1 \<equiv> json_set [Member Copied k, Member Linked ''ssid''] (Src_string k) d"
  defines "d2 \<equiv> json_set [Member Copied k, Member Linked ''rssi''] (Src_int (sint (ev_rssi r))) d1"
  defines "d3 \<equiv> json_set [Member Copied k, Member Linked ''channel''] (Src_unsigned (unat (ev_channel r))) d2"
  defines "d4 \<equiv> json_set [Member Copied k, Member Linked ''auth''] (Src_unsigned (unat (ev_auth_mode r))) d3"
  shows "field_set d (VObject (map network_slot (known @ [(k, r)]))) m d4"
proof -
  let ?ms = "map network_slot known"
  note key = network_key [OF assms(1)]
  note fresh = fresh_network [OF assms(2)]
  note sizes = field_size_def src_size_def SLOT_SIZE_def
  let ?v1 = "VString Copied k" let ?v2 = "VInt (word_of_int (sint (ev_rssi r)))"
  let ?v3 = "VUInt (word_of_nat (unat (ev_channel r)))" let ?v4 = "VUInt (word_of_nat (unat (ev_auth_mode r)))"
  let ?m3 = "m + (SLOT_SIZE + 5)" let ?m2 = "m + (SLOT_SIZE + 5) + (SLOT_SIZE + 8)"
  let ?m1 = "m + (SLOT_SIZE + 5) + (SLOT_SIZE + 8) + (SLOT_SIZE + 5)"
  have 1: "field_set d (VObject (?ms @ [((Copied, k), VObject [((Linked, ''ssid''), ?v1)])])) ?m1 d1"
    unfolding d1_def
    using json_set_new_object [OF assms(3) fresh key(1), of "''ssid''" "Src_string k" ?m1 Copied Linked]
      has_room_mono [OF assms(4)] key(2) by (simp add: sizes NETWORK_ROOM_def stored_value_def)
  have 2: "field_set d (VObject (?ms @ [((Copied, k), VObject [((Linked, ''ssid''), ?v1), ((Linked, ''rssi''), ?v2)])])) ?m2 d2"
    unfolding d2_def
    using json_set_object_field [of d1 ?ms Copied k "[((Linked, ''ssid''), ?v1)]" "''rssi''" "Src_int (sint (ev_rssi r))" ?m2 Linked Copied]
      1 fresh by (simp add: sizes stored_value_def field_set_def)
  have 3: "field_set d (VObject (?ms @ [((Copied, k), VObject [((Linked, ''ssid''), ?v1), ((Linked, ''rssi''), ?v2),
      ((Linked, ''channel''), ?v3)])])) ?m3 d3"
    unfolding d3_def
    using json_set_object_field [of d2 ?ms Copied k "[((Linked, ''ssid''), ?v1), ((Linked, ''rssi''), ?v2)]" "''channel''"
        "Src_unsigned (unat (ev_channel r))" ?m3 Linked Copied]
      2 fresh by (simp add: sizes stored_value_def field_set_def)
  show ?thesis
    unfolding d4_def
    using json_set_object_field [of d3 ?ms Copied k "[((Linked, ''ssid''), ?v1), ((Linked, ''rssi''), ?v2), ((Linked, ''channel''), ?v3)]"
        "''auth''" "Src_unsigned (unat (ev_auth_mode r))" m Linked Copied]
      3 fresh key(4) by (simp add: sizes stored_value_def field_set_def network_slot_def network_fields_def add.commute)
qed

lemma network_list_fields: "fields_of (network_list m) = Some (map network_slot m)"
  by (simp add: network_list_def)

lemma scan_loop_lists:
  assumes "list_all network_ok m" "distinct (map fst (known @ m))" "jd_data d = network_list known"
    and "doc_ok d" "NETWORK_ROOM * length m \<le> free_zone (jd_pool d)"
  shows "\<exists>d'. scan_results_loop m d = Inr d' \<and> jd_data d' = network_list (known @ m) \<and> doc_ok d' \<and>
     mp_capacity (jd_pool d') = mp_capacity (jd_pool d)"
  using assms
proof (induction m arbitrary: known d)
  case (Cons e m)
  obtain k r where e: "e = (k, r)" by fastforce
  have ok: "network_ok (k, r)" using Cons.prems(1) e by simp
  let ?m = "NETWORK_ROOM * length m"
  have room: "has_room (NETWORK_ROOM + ?m) (jd_pool d)"
    using Cons.prems(4,5) by (simp add: has_room_def doc_ok_def)
  have fresh: "k \<notin> fst ` set known" using Cons.prems(2) e by auto
  have fields: "fields_of (jd_data d) = Some (map network_slot known)"
    by (simp add: Cons.prems(3) network_list_fields)
  define d1 where "d1 = json_set [Member Copied k, Member Linked ''ssid''] (Src_string k) d"
  define d2 where "d2 = json_set [Member Copied k, Member Linked ''rssi''] (Src_int (sint (ev_rssi r))) d1"
  define d3 where "d3 = json_set [Member Copied k, Member Linked ''channel''] (Src_unsigned (unat (ev_channel r))) d2"
  define d4 where "d4 = json_set [Member Copied k, Member Linked ''auth''] (Src_unsigned (unat (ev_auth_mode r))) d3"
  note defs = d1_def d2_def d3_def d4_def
  have step: "field_set d (VObject (map network_slot (known @ [(k, r)]))) ?m d4"
    using network_step [OF ok fresh fields room] unfolding defs .
  have keep: "doc_ok (json_set [Member Copied k, Member Linked f] src x) \<and>
      mp_capacity (jd_pool (json_set [Member Copied k, Member Linked f] src x)) = mp_capacity (jd_pool x)"
    if "doc_ok x" "NUL \<notin> set f" for f src x
    using json_set_ok [OF that(1), of "[Member Copied k, Member Linked f]" src] network_key(1) [OF ok] that(2)
    by (simp add: step_ok_def pool_extends_def)
  have d4: "doc_ok d4" "mp_capacity (jd_pool d4) = mp_capacity (jd_pool d)"
    unfolding defs using Cons.prems(4) keep by simp_all
  have "scan_results_loop (e # m) d = scan_results_loop m d4"
    by (simp add: e network_key(3) [OF ok] defs Let_def)
  moreover have "jd_data d4 = network_list (known @ [e])" "?m \<le> free_zone (jd_pool d4)"
    using step by (simp_all add: field_set_def has_room_def network_list_def e)
  moreover from Cons.IH [OF _ _ this(1) d4(1) this(2)] Cons.prems(1,2)
  obtain d' where "scan_results_loop m d4 = Inr d'" "jd_data d' = network_list ((known @ [e]) @ m)" "doc_ok d'"
    "mp_capacity (jd_pool d') = mp_capacity (jd_pool d4)" by auto
  ultimately show ?case using d4(2) by simp
qed simp

lemma unat_of_nat_u64:
  "unat (word_of_nat (unat (x :: u16)) :: u64) = unat x" "unat (word_of_nat (unat (y :: u8)) :: u64) = unat y"
  using unsigned_less [of x, where 'a = nat] unsigned_less [of y, where 'a = nat]
  by (simp_all add: unsigned_of_nat take_bit_nat_eq_self del: of_nat_unat)

text \<open>The text of a network has at most 180 characters, its separator included.\<close>

lemma network_text_length:
  "list_all network_ok m \<Longrightarrow> length (members_text (map network_slot m)) \<le> 180 * length m"
proof (induction m)
  case (Cons e m)
  obtain k r where e: "e = (k, r)" by fastforce
  note key = network_key [of k r]
  have ok: "network_ok (k, r)" using Cons.prems e by simp
  have k: "length (string_text k) \<le> 64"
    using string_text_length [OF key(1) [OF ok]] key(2) [OF ok] by simp
  have names: "length (string_text ''ssid'') = 6" "length (string_text ''rssi'') = 6"
    "length (string_text ''channel'') = 9" "length (string_text ''auth'') = 6" by code_simp+
  have "\<bar>sint (ev_rssi r)\<bar> \<le> 2 ^ 15"
    using sint_ge [of "ev_rssi r"] sint_lt [of "ev_rssi r"] by simp
  then have rssi: "length (concat (write_int (word_of_int (sint (ev_rssi r))))) \<le> 6"
    using int_text_length [of "sint (ev_rssi r)" 4] by simp
  have "unat (ev_channel r) < 10 ^ Suc 4" "unat (ev_auth_mode r) < 10 ^ Suc 2"
    using unsigned_less [of "ev_channel r", where 'a = nat] unsigned_less [of "ev_auth_mode r", where 'a = nat] by simp_all
  from this [THEN uint_text_length]
  have nums: "length (write_uint (unat (word_of_nat (unat (ev_channel r)) :: u64))) \<le> 5"
    "length (write_uint (unat (word_of_nat (unat (ev_auth_mode r)) :: u64))) \<le> 3"
    by (simp_all only: unat_of_nat_u64)
  have "length (members_text (network_fields r)) \<le> 114 - 2"
    using k names rssi nums key(4) [OF ok] key(1) [OF ok]
    by (simp add: network_fields_def del: of_nat_unat word_of_int_uint)
  then show ?case using Cons k key(1) [OF ok] by (simp add: e network_slot_def)
qed simp

lemma network_list_text: "list_all network_ok m \<Longrightarrow> length (json_text (network_list m)) \<le> 180 * length m + 4"
  using network_text_length [of m] by (simp add: network_list_def)

lemma network_list_no_raw: "no_raw (network_list m)"
proof -
  have "no_raw_members (map network_slot m)" by (induction m) (simp_all add: network_slot_def network_fields_def)
  then show ?thesis by (simp add: network_list_def)
qed

section \<open>The invariant\<close>

definition scan_map_ok :: "scan_map \<Rightarrow> bool" where
  "scan_map_ok m \<longleftrightarrow> sm_ok m \<and> list_all network_ok m"

definition scan_open :: "wifi \<Rightarrow> scan_map \<Rightarrow> bool" where
  "scan_open ws m \<longleftrightarrow> scan_results_g ws \<noteq> None \<and> heap_get (scan_maps ws) (scan_results_g ws) = Inr m"

definition wifi_inv :: "wifi \<Rightarrow> bool" where
  "wifi_inv ws \<longleftrightarrow> length (connect_ssid_g ws) = SSID_SIZE \<and> length (connect_pw_g ws) = PW_SIZE \<and>
     (scan_results_g ws \<noteq> None \<longrightarrow> (\<exists>m. scan_open ws m \<and> scan_map_ok m))"

definition terminated_ssid :: "ev_scan_result \<Rightarrow> bool" where
  "terminated_ssid r \<longleftrightarrow> NUL \<in> set (ev_ssid r) \<and> length (ev_ssid r) = SSID_SIZE"

lemma scan_map_put: "scan_map_ok m \<Longrightarrow> terminated_ssid r \<Longrightarrow> scan_map_ok (sm_put (c_str (ev_ssid r)) r m)"
proof -
  assume a: "scan_map_ok m" "terminated_ssid r"
  have "list_all network_ok (sm_put k r m)" if "list_all network_ok m" "network_ok (k, r)" for k
    using that by (induction k r m rule: sm_put.induct) auto
  with a show ?thesis by (simp add: scan_map_ok_def sm_put_ok network_ok_def terminated_ssid_def)
qed

lemma wifi_inv_init: "wifi_inv wifi_init"
  by (simp add: wifi_inv_def wifi_init_def)

lemma scan_result_found:
  assumes "scan_open ws m" "terminated_ssid r"
  shows "\<exists>ws'. scan_result (Some r) ws = Inr ws' \<and> scan_open ws' (sm_put (c_str (ev_ssid r)) r m) \<and>
     connect_ssid_g ws' = connect_ssid_g ws \<and> connect_pw_g ws' = connect_pw_g ws"
proof -
  from assms(1) obtain a where a: "scan_results_g ws = Some a" "a < length (scan_maps ws)" "scan_maps ws ! a = Some m"
    by (auto simp: scan_open_def heap_get_Some)
  then show ?thesis using assms(2) heap_update_Some [OF a(2,3)]
    by (simp add: scan_result_def array_c_str_def terminated_ssid_def scan_open_def heap_get_Some)
qed

lemma scan_start_opens:
  "http_wifi_scan_start fuel net cw (ws, page) = Some (Inr (cw', ws', page')) \<Longrightarrow>
     scan_open ws' [] \<and> page' = page \<and> connect_ssid_g ws' = connect_ssid_g ws \<and> connect_pw_g ws' = connect_pw_g ws"
  by (auto simp: http_wifi_scan_start_def heap_new_def wifi_finish_def scan_open_def heap_get_Some)

lemma scan_results_answer:
  assumes "net_takes net txt" "0 < fuel" "response_headers c = []" "page_ok page"
    and "scan_open ws m" "scan_map_ok m" "length m \<le> 45" "\<not> scan_active cy w"
  shows "\<exists>c' w' ws' page'. http_wifi_scan_results fuel net cy (c, w) (ws, page) = Some (Inr ((c', w'), ws', page')) \<and>
     txt w' = txt w @ json_answer (json_text (network_list m)) \<and> scan_results_g ws' = None \<and> page_ok page' \<and>
     connect_ssid_g ws' = connect_ssid_g ws \<and> connect_pw_g ws' = connect_pw_g ws"
proof -
  note P = page_ok_parts [OF assms(4)]
  let ?d = "json_clear (json_g page)"
  have d: "doc_ok ?d" "jd_data ?d = network_list []" "mp_capacity (jd_pool ?d) = JSON_SIZE" "free_zone (jd_pool ?d) = JSON_SIZE"
    using doc_ok_clear [OF P(1)] P(2) by (simp_all add: json_clear_def pool_clear_def network_list_def free_zone_def)
  have m: "list_all network_ok m" "distinct (map fst ([] @ m))"
    using assms(6) smap.entries_distinct [of m] by (simp_all add: scan_map_ok_def)
  have room: "NETWORK_ROOM * length m \<le> free_zone (jd_pool ?d)"
    using assms(7) by (simp add: d(4) NETWORK_ROOM_def JSON_SIZE_def)
  from scan_loop_lists [OF m d(2,1) room] obtain d' where
    L: "scan_results_loop m ?d = Inr d'" "jd_data d' = network_list m" "doc_ok d'" "mp_capacity (jd_pool d') = JSON_SIZE"
    by (auto simp: d(3))
  have fits: "length (json_text (jd_data d')) < JSON_SIZE"
    using network_list_text [OF m(1)] assms(7) by (simp add: L(2) JSON_SIZE_def)
  have raw: "no_raw (jd_data d')" by (simp add: L(2) network_list_no_raw)
  from answer_json_sends [OF assms(1-4) L(3,4) raw fits, of w] obtain c' w' page' where
    R: "answer_json fuel net d' (c, w) page = Some (Inr ((c', w'), page'))"
      "txt w' = txt w @ json_answer (json_text (network_list m))" "page_ok page'" by (auto simp: L(2))
  from assms(5) obtain a where a: "scan_results_g ws = Some a" "heap_get (scan_maps ws) (Some a) = Inr m"
    by (auto simp: scan_open_def)
  then show ?thesis using assms(8) L(1) R
    by (simp add: http_wifi_scan_results_def heap_delete_def)
qed

section \<open>Sequences of requests and callbacks\<close>

text \<open>Requests are answered, networks are found and the main loop polls in any order; between two steps
  the world and the shared page may change. A scan is delivered by \<open>found\<close>.\<close>

inductive wifi_step :: "nat \<Rightarrow> 'w net \<Rightarrow> 'w cyw43 \<Rightarrow> 'w lfs \<Rightarrow> wifi \<Rightarrow> wifi \<Rightarrow> bool" for fuel net cy fs where
  step_start: "http_wifi_scan_start fuel net cw (ws, page) = Some (Inr (cw', ws', page')) \<Longrightarrow> wifi_step fuel net cy fs ws ws'"
| step_status: "http_wifi_scan_status fuel net cy cw (ws, page) = Some (Inr (cw', ws', page')) \<Longrightarrow> wifi_step fuel net cy fs ws ws'"
| step_results: "http_wifi_scan_results fuel net cy cw (ws, page) = Some (Inr (cw', ws', page')) \<Longrightarrow> wifi_step fuel net cy fs ws ws'"
| step_connect: "http_wifi_connect fuel net cy cw (ws, page) = Some (Inr (cw', ws', page')) \<Longrightarrow> wifi_step fuel net cy fs ws ws'"
| step_connect_status:
    "http_wifi_connect_status fuel net cy cw (ws, page) = Some (Inr (cw', ws', page')) \<Longrightarrow> wifi_step fuel net cy fs ws ws'"
| step_found: "list_all terminated_ssid (case res of None \<Rightarrow> [] | Some r \<Rightarrow> [r]) \<Longrightarrow>
    scan_result res ws = Inr ws' \<Longrightarrow> wifi_step fuel net cy fs ws ws'"
| step_poll_scan: "poll_wifi_scan cy (ws, w) = (ws', w') \<Longrightarrow> wifi_step fuel net cy fs ws ws'"
| step_poll_connect: "poll_wifi_connect cy fs (ws, w) = Inr (ws', w') \<Longrightarrow> wifi_step fuel net cy fs ws ws'"

inductive wifi_reachable :: "nat \<Rightarrow> 'w net \<Rightarrow> 'w cyw43 \<Rightarrow> 'w lfs \<Rightarrow> wifi \<Rightarrow> bool" for fuel net cy fs where
  wifi_boot: "wifi_reachable fuel net cy fs wifi_init"
| wifi_next: "wifi_reachable fuel net cy fs ws \<Longrightarrow> wifi_step fuel net cy fs ws ws' \<Longrightarrow> wifi_reachable fuel net cy fs ws'"

lemma obind_Inr: "obind m f = Some (Inr y) \<longleftrightarrow> (\<exists>x. m = Some (Inr x) \<and> f x = Some (Inr y))"
  by (auto simp: obind_def split: option.splits sum.splits)

lemma rbind_Inr: "rbind m f = Inr y \<longleftrightarrow> (\<exists>x. m = Inr x \<and> f x = Inr y)"
  by (auto simp: rbind_def split: sum.splits)

lemma strncpy_length: "length (strncpy src n) = n"
  by (simp add: strncpy_def)

lemma scan_open_cong:
  "scan_results_g ws' = scan_results_g ws \<Longrightarrow> scan_maps ws' = scan_maps ws \<Longrightarrow> scan_open ws' m = scan_open ws m"
  by (simp add: scan_open_def)

lemma wifi_inv_cong:
  "wifi_inv ws \<Longrightarrow> scan_results_g ws' = scan_results_g ws \<Longrightarrow> scan_maps ws' = scan_maps ws \<Longrightarrow>
     length (connect_ssid_g ws') = SSID_SIZE \<Longrightarrow> length (connect_pw_g ws') = PW_SIZE \<Longrightarrow> wifi_inv ws'"
  using scan_open_cong [of ws' ws] by (auto simp: wifi_inv_def)

lemma do_wifi_connect_state:
  assumes "do_wifi_connect do_save cy fs (ws, w) = Inr (ws', w')"
  shows "\<exists>err. ws' = ws\<lparr>connect_err_code_g := err\<rparr>"
proof -
  obtain err w1 where
    "connect_blocking cy (c_str (connect_ssid_g ws)) (c_str (connect_pw_g ws)) (connect_auth_g ws) (enable_sta_mode cy w) = (err, w1)"
    by fastforce
  with assms show ?thesis by (auto simp: do_wifi_connect_def array_c_str_def Let_def split: if_splits)
qed

lemma wifi_step_inv:
  assumes "wifi_step fuel net cy fs ws ws'" "wifi_inv ws"
  shows "wifi_inv ws'"
  using assms
proof (induction rule: wifi_step.induct)
  case (step_start cw ws page cw' ws' page')
  from scan_start_opens [OF step_start(1)] step_start(2) show ?case by (auto simp: wifi_inv_def scan_map_ok_def)
next
  case (step_status cw ws page cw' ws' page')
  then show ?case by (auto simp: http_wifi_scan_status_def obind_Inr)
next
  case (step_results cw ws page cw' ws' page')
  then have "ws' = ws \<or> scan_results_g ws' = None \<and> connect_ssid_g ws' = connect_ssid_g ws \<and> connect_pw_g ws' = connect_pw_g ws"
    by (auto simp: http_wifi_scan_results_def obind_Inr wifi_finish_def split: if_splits)
  with step_results(2) show ?case by (auto simp: wifi_inv_def)
next
  case (step_connect cw ws page cw' ws' page')
  then show ?case
    by (auto simp: http_wifi_connect_def obind_Inr wifi_finish_def strncpy_length Let_def split: if_splits
        intro: wifi_inv_cong)
next
  case (step_connect_status cw ws page cw' ws' page')
  then show ?case by (auto simp: http_wifi_connect_status_def obind_Inr)
next
  case (step_found res ws ws')
  show ?case
  proof (cases "res = None \<or> scan_results_g ws = None")
    case True
    then show ?thesis using step_found by (auto simp: scan_result_def split: option.splits)
  next
    case False
    then obtain r m where r: "res = Some r" "scan_open ws m" "scan_map_ok m" using step_found(3) by (auto simp: wifi_inv_def)
    have t: "terminated_ssid r" using step_found(1) r(1) by simp
    from scan_result_found [OF r(2) t] scan_map_put [OF r(3) t] step_found(2,3) r(1) show ?thesis
      by (auto simp: wifi_inv_def)
  qed
next
  case (step_poll_scan ws w ws' w')
  then show ?case by (auto simp: poll_wifi_scan_def wifi_inv_def scan_open_def split: if_splits)
next
  case (step_poll_connect ws w ws' w')
  then have "scan_results_g ws' = scan_results_g ws" "scan_maps ws' = scan_maps ws"
    "connect_ssid_g ws' = connect_ssid_g ws" "connect_pw_g ws' = connect_pw_g ws"
    by (auto simp: poll_wifi_connect_def split: if_splits dest: do_wifi_connect_state)
  with step_poll_connect(2) show ?case by (auto simp: wifi_inv_def scan_open_def)
qed

lemma wifi_reachable_inv: "wifi_reachable fuel net cy fs ws \<Longrightarrow> wifi_inv ws"
  by (induction rule: wifi_reachable.induct) (auto simp: wifi_inv_init dest: wifi_step_inv)

section \<open>Properties of scanning\<close>

fun scan_found :: "ev_scan_result list \<Rightarrow> wifi \<Rightarrow> wifi result" where
  "scan_found [] ws = Inr ws"
| "scan_found (r # rs) ws = rbind (scan_result (Some r) ws) (scan_found rs)"

definition found_networks :: "scan_map \<Rightarrow> ev_scan_result list \<Rightarrow> scan_map" where
  "found_networks m rs = foldl (\<lambda>m r. sm_put (c_str (ev_ssid r)) r m) m rs"

lemma scan_found_lists:
  assumes "scan_open ws m" "scan_map_ok m" "list_all terminated_ssid rs"
  shows "\<exists>ws'. scan_found rs ws = Inr ws' \<and> scan_open ws' (found_networks m rs) \<and> scan_map_ok (found_networks m rs)"
  using assms
proof (induction rs arbitrary: ws m)
  case (Cons r rs)
  then have t: "terminated_ssid r" "list_all terminated_ssid rs" by simp_all
  from scan_result_found [OF Cons.prems(1) t(1)] obtain ws1 where
    1: "scan_result (Some r) ws = Inr ws1" "scan_open ws1 (sm_put (c_str (ev_ssid r)) r m)" by blast
  from Cons.IH [OF 1(2) scan_map_put [OF Cons.prems(2) t(1)] t(2)] 1(1) show ?case
    by (auto simp: found_networks_def)
qed (simp add: found_networks_def)

text \<open>What the map of results is, seen from the reports: one entry for each name, the last report of it.\<close>

lemma found_networks_spec:
  "sm_ok m \<Longrightarrow> sm_ok (found_networks m rs) \<and> (found_networks m rs = [] \<longleftrightarrow> m = [] \<and> rs = []) \<and>
     sm_find (found_networks m rs) name =
       (case map_of (rev (map (\<lambda>r. (c_str (ev_ssid r), r)) rs)) name of None \<Rightarrow> sm_find m name | Some r \<Rightarrow> Some r)"
proof (induction rs arbitrary: m)
  case (Cons r rs)
  have "sm_put k v m \<noteq> []" for k v by (cases m) (auto split: if_splits)
  moreover from Cons.IH [of "sm_put (c_str (ev_ssid r)) r m"] Cons.prems
  have "sm_ok (found_networks (sm_put (c_str (ev_ssid r)) r m) rs)"
    "found_networks (sm_put (c_str (ev_ssid r)) r m) rs = [] \<longleftrightarrow> sm_put (c_str (ev_ssid r)) r m = [] \<and> rs = []"
    "sm_find (found_networks (sm_put (c_str (ev_ssid r)) r m) rs) name =
       (case map_of (rev (map (\<lambda>r. (c_str (ev_ssid r), r)) rs)) name of
          None \<Rightarrow> sm_find (sm_put (c_str (ev_ssid r)) r m) name | Some r \<Rightarrow> Some r)"
    by (simp_all add: smap.ok_put)
  ultimately show ?case using Cons.prems
    by (simp add: found_networks_def smap.find_put map_add_def split: option.splits)
qed (simp add: found_networks_def)

text \<open>C37. A scan reports the networks the driver found: after a scan was started and the driver has
  delivered any results, at most 45 different names and each terminated in its array of 32, a request for
  the results that comes when the scan is no longer active is answered. If nothing was found the answer
  is \<open>null\<close>; otherwise it is an object with one member for each name, in order, which gives the
  signal, channel and mode of the last report with that name. The request deletes the map, and a second
  one is refused. The connection takes what it is given, and the handlers find no header set.\<close>

theorem scan_session_reports_networks:
  assumes "net_takes net txt" "0 < fuel" "response_headers c1 = []" "response_headers c2 = []" "page_ok page"
    and "list_all terminated_ssid rs" "length (found_networks [] rs) \<le> 45" "\<not> scan_active cy w2"
  shows "\<exists>c1' w1' ws1 ws2 c2' w2' ws3 page' nets.
     http_wifi_scan_start fuel net (c1, w1) (ws, page) = Some (Inr ((c1', w1'), ws1, page)) \<and>
     scan_found rs ws1 = Inr ws2 \<and>
     http_wifi_scan_results fuel net cy (c2, w2) (ws2, page) = Some (Inr ((c2', w2'), ws3, page')) \<and>
     txt w2' = txt w2 @ json_answer (if rs = [] then ''null'' else json_text (VObject (map network_slot nets))) \<and>
     sm_ok nets \<and>
     (\<forall>name. sm_find nets name = map_of (rev (map (\<lambda>r. (c_str (ev_ssid r), r)) rs)) name) \<and>
     (\<forall>cw. http_wifi_scan_results fuel net cy cw (ws3, page') =
        wifi_finish (response_bad fuel net ''start a scan first'' cw) (ws3, page'))"
proof -
  let ?nets = "found_networks [] rs"
  from respond_sends [OF assms(1,2), of "''ok''" 200 "''OK''" c1 w1] snd_buf_le [of 2] obtain c1' w1' where
    r: "response_ok fuel net ''ok'' (c1, w1) = Some (c1', w1')" by (auto simp: response_ok_def)
  then obtain ws1 where
    1: "http_wifi_scan_start fuel net (c1, w1) (ws, page) = Some (Inr ((c1', w1'), ws1, page))"
    by (simp add: http_wifi_scan_start_def heap_new_def wifi_finish_def)
  have "scan_map_ok []" by (simp add: scan_map_ok_def)
  from scan_found_lists [OF conjunct1 [OF scan_start_opens [OF 1]] this assms(6)] obtain ws2 where
    2: "scan_found rs ws1 = Inr ws2" "scan_open ws2 ?nets" "scan_map_ok ?nets" by blast
  from scan_results_answer [OF assms(1,2,4,5) 2(2,3) assms(7,8)] obtain c2' w2' ws3 page' where
    3: "http_wifi_scan_results fuel net cy (c2, w2) (ws2, page) = Some (Inr ((c2', w2'), ws3, page'))"
      "txt w2' = txt w2 @ json_answer (json_text (network_list ?nets))" "scan_results_g ws3 = None" by blast
  have spec: "sm_ok ?nets" "?nets = [] \<longleftrightarrow> rs = []"
    "\<forall>name. sm_find ?nets name = map_of (rev (map (\<lambda>r. (c_str (ev_ssid r), r)) rs)) name"
    using found_networks_spec [of "[]" rs] by (auto split: option.split)
  have "json_text (network_list ?nets) = (if rs = [] then ''null'' else json_text (VObject (map network_slot ?nets)))"
    by (simp add: network_list_def spec(2))
  then have "txt w2' = txt w2 @ json_answer (if rs = [] then ''null'' else json_text (VObject (map network_slot ?nets)))"
    unfolding 3(2) by (rule arg_cong)
  moreover have "\<forall>cw. http_wifi_scan_results fuel net cy cw (ws3, page') =
     wifi_finish (response_bad fuel net ''start a scan first'' cw) (ws3, page')"
    using 3(3) by (simp add: http_wifi_scan_results_def)
  ultimately show ?thesis using 1 2(1) 3(1) spec(1,3) by blast
qed

definition idle_cyw43 :: "'w cyw43" where
  "idle_cyw43 = \<lparr>enable_sta_mode = \<lambda>w. w, scan_active = \<lambda>w. False, cyw43_scan = \<lambda>w. (0, w),
     connect_blocking = \<lambda>ssid pwd auth w. (0, w), sta_address = \<lambda>w. ''192.168.1.7'',
     enable_ap_mode = \<lambda>name pwd auth w. w,
     AUTH_WPA2_AES_PSK = 0x00400004, AUTH_WPA_TKIP_PSK = 0x00200002\<rparr>"

definition found_network :: "string \<Rightarrow> u16 \<Rightarrow> ev_scan_result" where
  "found_network name signal = \<lparr>ev_ssid = name @ replicate (SSID_SIZE - length name) NUL, ev_rssi = signal,
     ev_channel = 6, ev_auth_mode = 5\<rparr>"

theorem scan_session_reports_networks_witness:
  "(\<exists>ws1 ws2 c2' w2' ws3 page' nets.
     scan_found [found_network ''guest'' (-60), found_network ''bar'' (-71), found_network ''guest'' (-58)] ws1 = Inr ws2 \<and>
     http_wifi_scan_results 1 log_net idle_cyw43 (new_http_client, []) (ws2, json_page_init) = Some (Inr ((c2', w2'), ws3, page')) \<and>
     w2' = json_answer (json_text (VObject (map network_slot nets))) \<and>
     sm_find nets ''guest'' = Some (found_network ''guest'' (-58)) \<and> sm_find nets ''bar'' = Some (found_network ''bar'' (-71)) \<and>
     sm_find nets ''foo'' = None) \<and>
   (\<exists>ws1 c2' ws3 page'. http_wifi_scan_results 1 log_net idle_cyw43 (new_http_client, []) (ws1, json_page_init) =
      Some (Inr ((c2', json_answer ''null''), ws3, page')))"
proof -
  let ?rs = "[found_network ''guest'' (-60), found_network ''bar'' (-71), found_network ''guest'' (-58)]"
  have h: "response_headers new_http_client = []" by (simp add: new_http_client_def)
  have t: "list_all terminated_ssid ?rs" by (simp add: found_network_def terminated_ssid_def SSID_SIZE_def)
  have f: "found_networks [] ?rs = [(''bar'', found_network ''bar'' (-71)), (''guest'', found_network ''guest'' (-58))]"
    by (simp add: found_networks_def found_network_def SSID_SIZE_def c_str_def less_list_code less_char_def)
  have l: "length (found_networks [] ?rs) \<le> 45" "\<not> scan_active idle_cyw43 []" by (simp_all add: f idle_cyw43_def)
  have m: "map_of (rev (map (\<lambda>r. (c_str (ev_ssid r), r)) ?rs)) =
      [''guest'' \<mapsto> found_network ''guest'' (-58), ''bar'' \<mapsto> found_network ''bar'' (-71)]"
    by (auto simp: found_network_def SSID_SIZE_def c_str_def fun_eq_iff)
  note base = log_net_takes zero_less_one h h page_ok_init
  from scan_session_reports_networks [OF base t l, of "[]" wifi_init] obtain ws1 ws2 c2' w2' ws3 page' nets where
    1: "scan_found ?rs ws1 = Inr ws2"
      "http_wifi_scan_results 1 log_net idle_cyw43 (new_http_client, []) (ws2, json_page_init) = Some (Inr ((c2', w2'), ws3, page'))"
      "id w2' = id [] @ json_answer (if ?rs = [] then ''null'' else json_text (VObject (map network_slot nets)))"
      "\<forall>name. sm_find nets name = map_of (rev (map (\<lambda>r. (c_str (ev_ssid r), r)) ?rs)) name" by blast
  have e: "list_all terminated_ssid []" "length (found_networks [] []) \<le> 45" "\<not> scan_active idle_cyw43 []"
    by (simp_all add: found_networks_def idle_cyw43_def)
  from scan_session_reports_networks [OF base e, of "[]" wifi_init] obtain ws1' ws2' d2' v2' ws3' page'' nets' where
    2: "scan_found [] ws1' = Inr ws2'"
      "http_wifi_scan_results 1 log_net idle_cyw43 (new_http_client, []) (ws2', json_page_init) = Some (Inr ((d2', v2'), ws3', page''))"
      "id v2' = id [] @ json_answer (if [] = ([] :: ev_scan_result list) then ''null'' else json_text (VObject (map network_slot nets')))"
    by blast
  have "w2' = json_answer (json_text (VObject (map network_slot nets)))" "v2' = json_answer ''null''"
    using 1(3) 2(3) by simp_all
  moreover have "sm_find nets ''guest'' = Some (found_network ''guest'' (-58))"
    "sm_find nets ''bar'' = Some (found_network ''bar'' (-71))" "sm_find nets ''foo'' = None"
    using 1(4) unfolding m by simp_all
  ultimately show ?thesis using 1(1,2) 2(2) by blast
qed

section \<open>Every request is answered\<close>

definition status_document :: "bool \<Rightarrow> variant" where
  "status_document active = VObject [((Linked, ''active''), VBool active)]"

definition connection_document :: "int \<Rightarrow> string \<Rightarrow> variant" where
  "connection_document err ip = VObject [((Linked, ''success''), VBool (err = 0)),
     ((Linked, ''err_code''), VInt (word_of_int err)), ((Linked, ''ip''), VString Copied ip)]"

lemma cleared_room:
  assumes "page_ok page" "n \<le> JSON_SIZE"
  shows "has_room n (jd_pool (json_clear (json_g page)))" "fields_of (jd_data (json_clear (json_g page))) = Some []"
    "doc_ok (json_clear (json_g page))" "mp_capacity (jd_pool (json_clear (json_g page))) = JSON_SIZE"
  using page_ok_parts [OF assms(1)] doc_ok_clear [of "json_g page"] assms(2)
  by (auto simp: has_room_def doc_ok_def json_clear_def pool_clear_def free_zone_def)

lemma field_keeps:
  "doc_ok d \<Longrightarrow> NUL \<notin> set k \<Longrightarrow> doc_ok (json_set [Member Linked k] src d) \<and>
     mp_capacity (jd_pool (json_set [Member Linked k] src d)) = mp_capacity (jd_pool d)"
  using json_set_ok [of d "[Member Linked k]" src] by (simp add: step_ok_def pool_extends_def)

lemma status_answers:
  assumes "net_takes net txt" "0 < fuel" "response_headers c = []" "page_ok page"
  shows "\<exists>c' w' page'. http_wifi_scan_status fuel net cy (c, w) (ws, page) = Some (Inr ((c', w'), ws, page')) \<and>
     txt w' = txt w @ json_answer (json_text (status_document (scan_active cy w))) \<and> page_ok page'"
proof -
  define d where "d = json_set [Member Linked ''active''] (Src_bool (scan_active cy w)) (json_clear (json_g page))"
  have "64 \<le> JSON_SIZE" by (simp add: JSON_SIZE_def)
  note R = cleared_room [OF assms(4) this]
  have "field_set (json_clear (json_g page)) (VObject ([] @ [((Linked, ''active''), stored_value (Src_bool (scan_active cy w)))])) 0 d"
    unfolding d_def
    using R(1) by (intro json_set_field [OF R(2)]) (simp_all add: field_size_def src_size_def SLOT_SIZE_def has_room_def)
  then have data: "jd_data d = status_document (scan_active cy w)"
    by (simp add: field_set_def status_document_def stored_value_def)
  have ok: "doc_ok d" "mp_capacity (jd_pool d) = JSON_SIZE"
    using field_keeps [OF R(3), of "''active''"] R(4) by (simp_all add: d_def)
  have t: "length (string_text ''active'') = 8" by code_simp
  have raw: "no_raw (jd_data d)" by (simp add: data status_document_def)
  have fits: "length (json_text (jd_data d)) < JSON_SIZE" by (simp add: data status_document_def t JSON_SIZE_def)
  from answer_json_sends [OF assms ok raw fits, of w] show ?thesis
    by (auto simp: http_wifi_scan_status_def d_def [symmetric] data)
qed

lemma connect_status_answers:
  assumes "net_takes net txt" "0 < fuel" "response_headers c = []" "page_ok page"
    and "length (sta_address cy w) \<le> 15" "NUL \<notin> set (sta_address cy w)"
  shows "\<exists>c' w' page'. http_wifi_connect_status fuel net cy (c, w) (ws, page) = Some (Inr ((c', w'), ws, page')) \<and>
     txt w' = txt w @ json_answer (json_text (connection_document (connect_err_code_g ws) (sta_address cy w))) \<and> page_ok page'"
proof -
  let ?e = "connect_err_code_g ws" let ?ip = "sta_address cy w" let ?d = "json_clear (json_g page)"
  let ?s1 = "Src_bool (?e = 0)" let ?s2 = "Src_int ?e" let ?s3 = "Src_string ?ip"
  define d1 where "d1 = json_set [Member Linked ''success''] ?s1 ?d"
  define d2 where "d2 = json_set [Member Linked ''err_code''] ?s2 d1"
  define d3 where "d3 = json_set [Member Linked ''ip''] ?s3 d2"
  have "256 \<le> JSON_SIZE" by (simp add: JSON_SIZE_def)
  note R = cleared_room [OF assms(4) this]
  note sizes = field_size_def src_size_def SLOT_SIZE_def
  have 1: "field_set ?d (VObject ([] @ [((Linked, ''success''), stored_value ?s1)])) 128 d1"
    unfolding d1_def using R(1) by (intro json_set_field [OF R(2)]) (simp_all add: sizes has_room_def)
  have 2: "field_set ?d (VObject ([((Linked, ''success''), stored_value ?s1)] @ [((Linked, ''err_code''), stored_value ?s2)])) 64 d2"
    using json_set_field [of d1 "[((Linked, ''success''), stored_value ?s1)]" "''err_code''" ?s2 64 Linked] 1
    by (simp add: d2_def sizes has_room_def field_set_def)
  have 3: "field_set ?d (VObject ([((Linked, ''success''), stored_value ?s1), ((Linked, ''err_code''), stored_value ?s2)] @
      [((Linked, ''ip''), stored_value ?s3)])) 0 d3"
    using json_set_field [of d2 "[((Linked, ''success''), stored_value ?s1), ((Linked, ''err_code''), stored_value ?s2)]" "''ip''" ?s3 0 Linked]
      2 assms(5) by (simp add: d3_def sizes has_room_def field_set_def)
  then have data: "jd_data d3 = connection_document ?e ?ip"
    by (simp add: field_set_def connection_document_def stored_value_def)
  have ok: "doc_ok d3" "mp_capacity (jd_pool d3) = JSON_SIZE"
    using R(3,4) by (simp_all add: d1_def d2_def d3_def field_keeps)
  have t: "length (string_text ''success'') = 9" "length (string_text ''err_code'') = 10" "length (string_text ''ip'') = 4"
    by code_simp+
  have raw: "no_raw (jd_data d3)" by (simp add: data connection_document_def)
  have "length (concat (write_int 0)) \<le> 21" by (rule write_int_length)
  then have fits: "length (json_text (jd_data d3)) < JSON_SIZE"
    using write_int_length [of "word_of_int ?e"] string_text_length [OF assms(6)] assms(5)
    by (simp add: data connection_document_def t JSON_SIZE_def)
  from answer_json_sends [OF assms(1-4) ok raw fits, of w] show ?thesis
    by (auto simp: http_wifi_connect_status_def d1_def [symmetric] d2_def [symmetric] d3_def [symmetric] data Let_def)
qed

lemma response_returns:
  assumes "net_takes net txt" "0 < fuel" "length str \<le> TCP_SND_BUF"
  shows "\<exists>c' w'. response_ok fuel net str (c, w) = Some (c', w')" "\<exists>c' w'. response_bad fuel net str (c, w) = Some (c', w')"
  using respond_sends [OF assms] unfolding response_ok_def response_bad_def by blast+

lemma wifi_requests_answer:
  assumes "net_takes net txt" "0 < fuel" "response_headers c = []" "page_ok page" "wifi_inv ws"
    and "\<forall>m. scan_open ws m \<longrightarrow> length m \<le> 45"
    and "length (sta_address cy w) \<le> 15" "NUL \<notin> set (sta_address cy w)"
  shows "(\<exists>r. http_wifi_scan_start fuel net (c, w) (ws, page) = Some (Inr r)) \<and>
     (\<exists>r. http_wifi_scan_results fuel net cy (c, w) (ws, page) = Some (Inr r)) \<and>
     (\<forall>r. terminated_ssid r \<longrightarrow> (\<exists>ws'. scan_result (Some r) ws = Inr ws')) \<and>
     (\<exists>c' w' page'. http_wifi_scan_status fuel net cy (c, w) (ws, page) = Some (Inr ((c', w'), ws, page')) \<and>
        txt w' = txt w @ json_answer (json_text (status_document (scan_active cy w)))) \<and>
     (\<exists>c' w' page'. http_wifi_connect_status fuel net cy (c, w) (ws, page) = Some (Inr ((c', w'), ws, page')) \<and>
        txt w' = txt w @ json_answer (json_text (connection_document (connect_err_code_g ws) (sta_address cy w))))"
proof (intro conjI)
  note inv = assms(5)
  note returns = response_returns [OF assms(1,2) snd_buf_le]
  show "\<exists>r. http_wifi_scan_start fuel net (c, w) (ws, page) = Some (Inr r)"
    using returns(1) [of "''ok''" c w] by (auto simp: http_wifi_scan_start_def heap_new_def wifi_finish_def)
  show "\<exists>r. http_wifi_scan_results fuel net cy (c, w) (ws, page) = Some (Inr r)"
  proof (cases "scan_results_g ws = None \<or> scan_active cy w")
    case True
    then show ?thesis using returns(2) [of "''start a scan first''" c w] returns(2) [of "''scan still in progress''" c w]
      by (auto simp: http_wifi_scan_results_def wifi_finish_def)
  next
    case False
    then obtain m where m: "scan_open ws m" "scan_map_ok m" using inv by (auto simp: wifi_inv_def)
    from scan_results_answer [OF assms(1-4) m, of cy w] assms(6) m(1) False show ?thesis by blast
  qed
  show "\<forall>r. terminated_ssid r \<longrightarrow> (\<exists>ws'. scan_result (Some r) ws = Inr ws')"
  proof (intro allI impI)
    fix r assume r: "terminated_ssid r"
    show "\<exists>ws'. scan_result (Some r) ws = Inr ws'"
    proof (cases "scan_results_g ws = None")
      case True
      then show ?thesis by (simp add: scan_result_def)
    next
      case False
      then obtain m where "scan_open ws m" using inv by (auto simp: wifi_inv_def)
      from scan_result_found [OF this r] show ?thesis by blast
    qed
  qed
qed (use status_answers [OF assms(1-4)] connect_status_answers [OF assms(1-4,7,8)] in blast)+

text \<open>Whatever requests, scan results and rounds of the main loop came before, the requests about
  scans and connections are answered and the driver's callback is safe: no request and no result ever
  meets a deleted or missing map, as long as a scan finds no more than 45 networks and the driver
  terminates the names. The state of the scan and the state of the connection are reported as they are.\<close>

theorem wifi_requests_are_answered:
  assumes "net_takes net txt" "0 < fuel" "response_headers c = []" "page_ok page" "wifi_reachable fuel net cy fs ws"
    and "\<forall>m. scan_open ws m \<longrightarrow> length m \<le> 45"
    and "length (sta_address cy w) \<le> 15" "NUL \<notin> set (sta_address cy w)"
  shows "(\<exists>r. http_wifi_scan_start fuel net (c, w) (ws, page) = Some (Inr r)) \<and>
     (\<exists>r. http_wifi_scan_results fuel net cy (c, w) (ws, page) = Some (Inr r)) \<and>
     (\<forall>r. terminated_ssid r \<longrightarrow> (\<exists>ws'. scan_result (Some r) ws = Inr ws')) \<and>
     (\<exists>c' w' page'. http_wifi_scan_status fuel net cy (c, w) (ws, page) = Some (Inr ((c', w'), ws, page')) \<and>
        txt w' = txt w @ json_answer (json_text (status_document (scan_active cy w)))) \<and>
     (\<exists>c' w' page'. http_wifi_connect_status fuel net cy (c, w) (ws, page) = Some (Inr ((c', w'), ws, page')) \<and>
        txt w' = txt w @ json_answer (json_text (connection_document (connect_err_code_g ws) (sta_address cy w))))"
  using assms wifi_reachable_inv [OF assms(5)] by (intro wifi_requests_answer)

definition no_disk :: "'w lfs" where
  "no_disk = \<lparr>lfs_file_open = \<lambda>path mode w. (-1, w), lfs_file_read = \<lambda>n w. (-1, [], w),
     lfs_file_write = \<lambda>c w. (-1, w), lfs_file_close = \<lambda>w. (-1, w)\<rparr>"

lemma scanned_reachable:
  assumes "net_takes net txt" "0 < fuel"
  shows "\<exists>ws m. wifi_reachable fuel net cy fs ws \<and> scan_open ws m \<and> m = [(''bar'', found_network ''bar'' (-71))]"
proof -
  have "length ''ok'' \<le> TCP_SND_BUF" by (rule snd_buf_le) simp
  from response_returns(1) [OF assms this, of new_http_client w] obtain c' w' where
    "response_ok fuel net ''ok'' (new_http_client, w) = Some (c', w')" by blast
  then obtain ws1 where
    1: "http_wifi_scan_start fuel net (new_http_client, w) (wifi_init, json_page_init) = Some (Inr ((c', w'), ws1, json_page_init))"
    by (simp add: http_wifi_scan_start_def heap_new_def wifi_finish_def)
  have t: "terminated_ssid (found_network ''bar'' (-71))" "c_str (ev_ssid (found_network ''bar'' (-71))) = ''bar''"
    by (simp_all add: found_network_def terminated_ssid_def SSID_SIZE_def c_str_def)
  from scan_result_found [OF conjunct1 [OF scan_start_opens [OF 1]] t(1)] obtain ws2 where
    2: "scan_result (Some (found_network ''bar'' (-71))) ws1 = Inr ws2" "scan_open ws2 [(''bar'', found_network ''bar'' (-71))]"
    by (auto simp: t(2))
  have "wifi_step fuel net cy fs ws1 ws2" by (rule step_found [OF _ 2(1)]) (simp add: t(1))
  then have "wifi_reachable fuel net cy fs ws2" by (rule wifi_next [OF wifi_next [OF wifi_boot step_start [OF 1]]])
  then show ?thesis using 2(2) by blast
qed

theorem wifi_requests_are_answered_witness:
  "\<exists>ws c' w' page'. scan_open ws [(''bar'', found_network ''bar'' (-71))] \<and>
     http_wifi_connect_status 1 log_net idle_cyw43 (new_http_client, []) (ws, json_page_init) = Some (Inr ((c', w'), ws, page')) \<and>
     w' = json_answer (json_text (connection_document (connect_err_code_g ws) ''192.168.1.7''))"
proof -
  have h: "response_headers new_http_client = []" by (simp add: new_http_client_def)
  from scanned_reachable [OF log_net_takes zero_less_one, of idle_cyw43 no_disk] obtain ws where
    ws: "wifi_reachable 1 log_net idle_cyw43 no_disk ws" "scan_open ws [(''bar'', found_network ''bar'' (-71))]"
    by blast
  have few: "\<forall>m. scan_open ws m \<longrightarrow> length m \<le> 45" using ws(2) by (auto simp: scan_open_def)
  have ip: "length (sta_address idle_cyw43 []) \<le> 15" "NUL \<notin> set (sta_address idle_cyw43 [])"
    by (simp_all add: idle_cyw43_def)
  have a: "sta_address idle_cyw43 [] = ''192.168.1.7''" by (simp add: idle_cyw43_def)
  show ?thesis
    using wifi_requests_are_answered [OF log_net_takes zero_less_one h page_ok_init ws(1) few ip] ws(2)
    unfolding a id_apply append_Nil by blast
qed

section \<open>Joining a network\<close>

lemma strncpy_short:
  assumes "line_plain n src"
  shows "array_c_str (strncpy src n) = Inr src"
proof -
  have src: "NUL \<notin> set src" "length src < n" using assms by (simp_all add: line_plain_def)
  then obtain k where k: "n - length src = Suc k" by (cases "n - length src") auto
  have "strncpy src n = src @ replicate (n - length src) NUL"
    using src by (simp add: strncpy_def take_append min_def)
  then show ?thesis using src(1) by (simp add: array_c_str_def k)
qed

lemma strncpy_long: "NUL \<notin> set src \<Longrightarrow> n \<le> length src \<Longrightarrow> array_c_str (strncpy src n) = Inl OutOfBounds"
  by (auto simp: array_c_str_def strncpy_def dest: in_set_takeD)

lemma store_line_c_str:
  "line_plain n line \<Longrightarrow> array_c_str (store_line line a) = Inr line"
  by (simp add: array_c_str_def store_line_def line_plain_def)

lemma http_wifi_connect_stores:
  assumes "sm_find (request_params c) ''ssid'' = Some ssid" "sm_find (request_params c) ''password'' = Some pwd"
    and "sm_find (request_params c) ''auth'' = Some a" "stoi a = Inr auth"
    and "response_ok fuel net ''ok'' (c, w) = Some cw'"
  shows "http_wifi_connect fuel net cy (c, w) (ws, page) = Some (Inr (cw',
     ws\<lparr>connect_ssid_g := strncpy ssid SSID_SIZE, connect_pw_g := strncpy pwd PW_SIZE,
       connect_auth_g := fix_auth cy (word_of_int auth), wifi_connect_g := True\<rparr>, page))"
  using assms
  by (simp add: http_wifi_connect_def has_req_param_def get_req_param_def get_req_param_int_def sm_at_def wifi_finish_def)

text \<open>C11. A network that was joined through the API is joined again after a power cycle: when a client
  asks for a network (its name below 32 and its password below 64 characters) and the driver connects to
  it, the main loop stores it, and a server that boots from this disk asks the driver for the same network
  with the same password and mode.\<close>

theorem joined_network_is_rejoined:
  assumes "sm_find (request_params c) ''ssid'' = Some ssid" "sm_find (request_params c) ''password'' = Some pwd"
    and "sm_find (request_params c) ''auth'' = Some a" "stoi a = Inr auth"
    and "line_plain SSID_SIZE ssid" "line_plain PW_SIZE pwd"
    and "response_ok fuel net ''ok'' (c, w) = Some cw'"
    and "connect_blocking cy ssid pwd (fix_auth cy (word_of_int auth)) (enable_sta_mode cy w1) = (0, w2)"
    and "lfs_reliable fs view" "view w2 = (files, None)"
  shows "\<exists>ws1 ws2 w3 w4. http_wifi_connect fuel net cy (c, w) (ws, page) = Some (Inr (cw', ws1, page)) \<and>
     poll_wifi_connect cy fs (ws1, w1) = Inr (ws2, w3) \<and> connect_err_code_g ws2 = 0 \<and> \<not> wifi_connect_g ws2 \<and>
     view w4 = view w3 \<and>
     boot_wifi PW_SIZE cy fs (wifi_init, w3) =
       Some (do_wifi_connect False cy fs (wifi_init\<lparr>connect_ssid_g := store_line ssid (replicate SSID_SIZE NUL),
         connect_pw_g := store_line pwd (replicate PW_SIZE NUL),
         connect_auth_g := fix_auth cy (word_of_int auth)\<rparr>, w4)) \<and>
     (\<forall>err w5. connect_blocking cy ssid pwd (fix_auth cy (word_of_int auth)) (enable_sta_mode cy w4) = (err, w5) \<longrightarrow>
       (\<exists>ws3. boot_wifi PW_SIZE cy fs (wifi_init, w3) = Some (Inr (ws3, w5)) \<and> connect_err_code_g ws3 = err))"
proof -
  let ?auth = "fix_auth cy (word_of_int auth)"
  let ?ws1 = "ws\<lparr>connect_ssid_g := strncpy ssid SSID_SIZE, connect_pw_g := strncpy pwd PW_SIZE,
       connect_auth_g := ?auth, wifi_connect_g := True\<rparr>"
  let ?w3 = "wifi_save fs ssid pwd ?auth w2"
  note 1 = http_wifi_connect_stores [OF assms(1-4,7), of cy ws page]
  have 2: "poll_wifi_connect cy fs (?ws1, w1) = Inr (?ws1\<lparr>wifi_connect_g := False, connect_err_code_g := 0\<rparr>, ?w3)"
    using assms(8) strncpy_short [OF assms(5)] strncpy_short [OF assms(6)]
    by (simp add: poll_wifi_connect_def do_wifi_connect_def Let_def)
  from wifi_save_view [OF assms(9,10), of ssid pwd ?auth] assms(5,6) obtain old where
    v: "view ?w3 = (files(WIFI_PATH \<mapsto> wifi_lines ssid pwd ?auth @ old), None)"
    by (auto simp: line_plain_def)
  from wifi_read_view [OF assms(9) v fun_upd_same assms(5,6) order_refl, of 0] v obtain w4 where
    w4: "wifi_read PW_SIZE fs 0 ?w3 = Some (Inr (Some (ssid, pwd, ?auth), w4))" "view w4 = view ?w3"
    by (auto simp del: fun_upd_apply)
  let ?wi = "wifi_init\<lparr>connect_ssid_g := store_line ssid (replicate SSID_SIZE NUL),
     connect_pw_g := store_line pwd (replicate PW_SIZE NUL), connect_auth_g := ?auth\<rparr>"
  have 3: "boot_wifi PW_SIZE cy fs (wifi_init, ?w3) = Some (do_wifi_connect False cy fs (?wi, w4))"
    using w4(1) by (simp add: boot_wifi_def wifi_init_def)
  have 4: "do_wifi_connect False cy fs (?wi, w4) = Inr (?wi\<lparr>connect_err_code_g := err\<rparr>, w5)"
    if "connect_blocking cy ssid pwd ?auth (enable_sta_mode cy w4) = (err, w5)" for err w5
    using that store_line_c_str [OF assms(5)] store_line_c_str [OF assms(6)]
    by (simp add: do_wifi_connect_def Let_def)
  show ?thesis
    by (rule exI [of _ ?ws1], rule exI [of _ "?ws1\<lparr>wifi_connect_g := False, connect_err_code_g := 0\<rparr>"],
        rule exI [of _ ?w3], rule exI [of _ w4]) (use 1 2 3 4 w4(2) in auto)
qed

definition join_request :: "string \<Rightarrow> string \<Rightarrow> http_client" where
  "join_request ssid pwd = new_http_client\<lparr>request_params :=
     sm_put ''auth'' ''5'' (sm_put ''password'' pwd (sm_put ''ssid'' ssid []))\<rparr>"

definition silent_net :: "'w net" where
  "silent_net = \<lparr>tcp_write = \<lambda>str w. (ERR_OK, w), read_sent = \<lambda>w. (0, w)\<rparr>"

lemma silent_net_takes: "\<exists>cw'. response_ok (Suc fuel) silent_net str (c, w) = Some cw'"
proof -
  have s: "send_string (Suc fuel) silent_net str (c, w) = Some (c\<lparr>should_send := should_send c + int (length str)\<rparr>, w)"
    for str c and w :: 'a by (simp add: send_string_def silent_net_def)
  have "\<exists>c' w'. send_strings (Suc fuel) silent_net strs (c, w) = Some (c', w')" for strs c and w :: 'a
    by (induction strs arbitrary: c) (simp_all add: s)
  then show ?thesis
    by (auto simp: response_ok_def respond_def response_begin_def s Let_def split: option.splits bind_splits)
qed

lemma join_request_params:
  "sm_find (request_params (join_request ssid pwd)) ''ssid'' = Some ssid"
  "sm_find (request_params (join_request ssid pwd)) ''password'' = Some pwd"
  "sm_find (request_params (join_request ssid pwd)) ''auth'' = Some ''5''"
  by (simp_all add: join_request_def sm_find_put sm_put_ok del: sm_put.simps)

lemma stoi_5: "stoi ''5'' = Inr 5" by code_simp

theorem joined_network_is_rejoined_witness:
  "\<exists>cw' ws1 ws2 w3 ws3 w5.
     http_wifi_connect 1 silent_net idle_cyw43 (join_request ''guest'' ''secret12'', ([], None) :: ram_world) (wifi_init, json_page_init) =
       Some (Inr (cw', ws1, json_page_init)) \<and>
     poll_wifi_connect idle_cyw43 ram_fs (ws1, ([], None)) = Inr (ws2, w3) \<and>
     boot_wifi PW_SIZE idle_cyw43 ram_fs (wifi_init, w3) = Some (Inr (ws3, w5)) \<and> connect_err_code_g ws3 = 0"
proof -
  define w0 :: ram_world where "w0 = ([], None)"
  obtain cw' where r: "response_ok 1 silent_net ''ok'' (join_request ''guest'' ''secret12'', w0) = Some cw'"
    using silent_net_takes [of 0 "''ok''" "join_request ''guest'' ''secret12''" w0] by auto
  have p: "line_plain SSID_SIZE ''guest''" "line_plain PW_SIZE ''secret12''"
    by (simp_all add: line_plain_def SSID_SIZE_def PW_SIZE_def)
  have j: "connect_blocking idle_cyw43 s p a (enable_sta_mode idle_cyw43 w) = (0, w)" for s p a and w :: ram_world
    by (simp add: idle_cyw43_def)
  have v: "ram_view w0 = (map_of [], None)" by (simp add: ram_view_def w0_def)
  from joined_network_is_rejoined [OF join_request_params stoi_5 p r j ram_fs_reliable v, of wifi_init json_page_init]
  obtain ws1 ws2 w3 w4 where K:
    "http_wifi_connect 1 silent_net idle_cyw43 (join_request ''guest'' ''secret12'', w0) (wifi_init, json_page_init) =
       Some (Inr (cw', ws1, json_page_init))"
    "poll_wifi_connect idle_cyw43 ram_fs (ws1, w0) = Inr (ws2, w3)"
    "\<forall>err w5. (0, w4) = (err, w5) \<longrightarrow> (\<exists>ws3. boot_wifi PW_SIZE idle_cyw43 ram_fs (wifi_init, w3) = Some (Inr (ws3, w5)) \<and>
       connect_err_code_g ws3 = err)"
    unfolding j by blast
  from K(3) [rule_format, OF refl] K(1,2) show ?thesis unfolding w0_def by blast
qed

text \<open>A network name of 32 or more characters (32 is the most a name may have) or a password of 64 or
  more is accepted with "ok", but \<open>strncpy\<close> leaves the array without a terminator: the next round of
  the main loop reads behind it.\<close>

theorem long_network_name_overflows:
  assumes "sm_find (request_params c) ''ssid'' = Some ssid" "sm_find (request_params c) ''password'' = Some pwd"
    and "sm_find (request_params c) ''auth'' = Some a" "stoi a = Inr auth"
    and "NUL \<notin> set ssid" "NUL \<notin> set pwd" "SSID_SIZE \<le> length ssid \<or> PW_SIZE \<le> length pwd"
    and "response_ok fuel net ''ok'' (c, w) = Some cw'"
  shows "\<exists>ws1. http_wifi_connect fuel net cy (c, w) (ws, page) = Some (Inr (cw', ws1, page)) \<and>
     poll_wifi_connect cy fs (ws1, w1) = Inl OutOfBounds"
proof -
  have "array_c_str (strncpy ssid SSID_SIZE) = Inl OutOfBounds \<or> array_c_str (strncpy pwd PW_SIZE) = Inl OutOfBounds"
    using strncpy_long [OF assms(5)] strncpy_long [OF assms(6)] assms(7) by blast
  then have "poll_wifi_connect cy fs (ws\<lparr>connect_ssid_g := strncpy ssid SSID_SIZE, connect_pw_g := strncpy pwd PW_SIZE,
       connect_auth_g := fix_auth cy (word_of_int auth), wifi_connect_g := True\<rparr>, w1) = Inl OutOfBounds"
    by (auto simp: poll_wifi_connect_def do_wifi_connect_def Let_def array_c_str_def)
  then show ?thesis using http_wifi_connect_stores [OF assms(1-4,8)] by blast
qed

theorem long_network_name_overflows_witness:
  "\<exists>cw' ws1.
     http_wifi_connect 1 silent_net idle_cyw43
       (join_request (replicate 32 (CHR ''x'')) ''secret12'', ()) (wifi_init, json_page_init) =
       Some (Inr (cw', ws1, json_page_init)) \<and>
     poll_wifi_connect idle_cyw43 no_disk (ws1, ()) = Inl OutOfBounds"
proof -
  let ?name = "replicate 32 (CHR ''x'')"
  obtain cw' where r: "response_ok 1 silent_net ''ok'' (join_request ?name ''secret12'', ()) = Some cw'"
    using silent_net_takes [of 0 "''ok''" "join_request ?name ''secret12''" "()"] by auto
  have n: "NUL \<notin> set ?name" "NUL \<notin> set ''secret12''" "SSID_SIZE \<le> length ?name \<or> PW_SIZE \<le> length ''secret12''"
    by (simp_all add: SSID_SIZE_def)
  from long_network_name_overflows [OF join_request_params stoi_5 n r, of idle_cyw43 wifi_init json_page_init no_disk "()"]
  show ?thesis by blast
qed

end
