(* ===== verification/Server_Main.thy ===== *)
theory Server_Main
  imports System Http_Server Wifi_Handlers Dhcp_Server Dns_Server
begin

text \<open>
  \<open>main\<close> of \<open>src/pagers-server/main.cpp\<close>: the boot sequence, the table of routes and the
  loop. The globals of the program are the record \<open>globals\<close>; the world \<open>'w\<close> is what the
  program talks to (the file system, lwIP, the CYW43 driver), and the request handlers run over both.

  lwIP's callbacks (\<open>Http_Server\<close>), the driver's (\<open>Wifi_Handlers\<close>), the PWM interrupt
  (\<open>Physical\<close>) and the DHCP and DNS servers run between and during the rounds of the loop; they are
  modelled in their theories, and the properties of a round hold from any state that satisfies the
  invariants.
\<close>

section \<open>Globals\<close>

record globals =
  srv :: server
  wifi_g :: wifi
  page_g :: json_page

definition globals_init :: globals where
  "globals_init = \<lparr>srv = server_init, wifi_g = wifi_init, page_g = json_page_init\<rparr>"

type_synonym 'w machine = "'w \<times> globals"

text \<open>The network and the file system of a world, seen from the machine.\<close>

definition machine_net :: "'w net \<Rightarrow> 'w machine net" where
  "machine_net net =
     \<lparr>tcp_write = \<lambda>str (w, g). (case tcp_write net str w of (r, w') \<Rightarrow> (r, w', g)),
      read_sent = \<lambda>(w, g). (case read_sent net w of (n, w') \<Rightarrow> (n, w', g))\<rparr>"

definition machine_fs :: "'w lfs \<Rightarrow> 'w machine lfs" where
  "machine_fs fs =
     \<lparr>lfs_file_open = \<lambda>p m (w, g). (case lfs_file_open fs p m w of (r, w') \<Rightarrow> (r, w', g)),
      lfs_file_read = \<lambda>n (w, g). (case lfs_file_read fs n w of (r, buf, w') \<Rightarrow> (r, buf, w', g)),
      lfs_file_write = \<lambda>d (w, g). (case lfs_file_write fs d w of (r, w') \<Rightarrow> (r, w', g)),
      lfs_file_close = \<lambda>(w, g). (case lfs_file_close fs w of (r, w') \<Rightarrow> (r, w', g))\<rparr>"

section \<open>Routes\<close>

text \<open>The handlers as callbacks of the HTTP server: each works on its part of the globals.\<close>

definition pager_callback :: "(http_client \<times> 'w \<Rightarrow> server \<Rightarrow> 'w handled) \<Rightarrow> 'w machine handler" where
  "pager_callback h = (\<lambda>(c, w, g).
     obind (h (c, w) (srv g)) (\<lambda>((c, w), s). Some (Inr (c, w, g\<lparr>srv := s\<rparr>))))"

definition wifi_callback :: "(http_client \<times> 'w \<Rightarrow> wifi \<times> json_page \<Rightarrow> 'w wifi_handled) \<Rightarrow> 'w machine handler" where
  "wifi_callback h = (\<lambda>(c, w, g).
     obind (h (c, w) (wifi_g g, page_g g)) (\<lambda>((c, w), ws, page).
       Some (Inr (c, w, g\<lparr>wifi_g := ws, page_g := page\<rparr>))))"

definition list_callback ::
    "(http_client \<times> 'w \<Rightarrow> server \<times> json_page \<Rightarrow> ((http_client \<times> 'w) \<times> server \<times> json_page) result option) \<Rightarrow>
       'w machine handler" where
  "list_callback h = (\<lambda>(c, w, g).
     obind (h (c, w) (srv g, page_g g)) (\<lambda>((c, w), s, page).
       Some (Inr (c, w, g\<lparr>srv := s, page_g := page\<rparr>))))"

definition routes :: "nat \<Rightarrow> 'w net \<Rightarrow> 'w cyw43 \<Rightarrow> ((Method \<times> string) \<times> 'w machine handler) list" where
  "routes fuel net cy =
     [((GET, ''/wifi/scan/start''), wifi_callback (http_wifi_scan_start fuel net)),
      ((GET, ''/wifi/scan/status''), wifi_callback (http_wifi_scan_status fuel net cy)),
      ((GET, ''/wifi/scan/results''), wifi_callback (http_wifi_scan_results fuel net cy)),
      ((GET, ''/wifi/connect''), wifi_callback (http_wifi_connect fuel net cy)),
      ((GET, ''/wifi/connect/status''), wifi_callback (http_wifi_connect_status fuel net cy)),
      ((GET, ''/pagers/pair''), pager_callback (http_pagers_pair fuel net)),
      ((GET, ''/pagers/list''), list_callback (http_pagers_list fuel net)),
      ((GET, ''/pagers/remove''), pager_callback (http_pagers_remove fuel net)),
      ((GET, ''/pagers/flash''), pager_callback (http_pagers_flash fuel net))]"

definition new_http_server :: "'w http_server" where
  "new_http_server = \<lparr>paths = [], server_pcb = None, static_enabled = False, fs_path = [], client_vect = [], client_heap = []\<rparr>"

text \<open>\<open>server.start(80)\<close>, whose result is ignored, the static content and the routes.\<close>

definition server_setup ::
    "tcp_answers \<Rightarrow> nat \<Rightarrow> 'w net \<Rightarrow> 'w cyw43 \<Rightarrow> tcp_call list \<times> 'w machine http_server" where
  "server_setup ans fuel net cy =
     (let (_, calls, s) = http_start ans 80 new_http_server;
          s = static_content ''/static'' s
      in (calls, fold (\<lambda>((mth, path), h). on_route mth path h) (routes fuel net cy) s))"

section \<open>Boot\<close>

record 'w board =
  lfs_mount :: "'w \<Rightarrow> int \<times> 'w"
  cyw43_arch_init :: "'w \<Rightarrow> int \<times> 'w"
  udp_answers :: net_answers
  http_answers :: tcp_answers
  IP4_ADDR :: "nat \<Rightarrow> nat \<Rightarrow> nat \<Rightarrow> nat \<Rightarrow> u32"

text \<open>How a boot ends: \<open>while(1)\<close> after a failed mount, \<open>return 1\<close>, or in the loop.\<close>

datatype 'w boot =
    MountFailed
  | Returned int
  | Running dhcp_server dns_server "'w machine http_server" "'w machine"

text \<open>\<open>junk\<close> is the uninitialised \<open>dns_server\<close> on the stack of \<open>main\<close>.\<close>

definition main_boot ::
    "nat \<Rightarrow> 'w board \<Rightarrow> 'w cyw43 \<Rightarrow> 'w lfs \<Rightarrow> 'w net \<Rightarrow> dns_server \<Rightarrow> 'w \<Rightarrow> 'w boot result option" where
  "main_boot fuel board cy fs net junk w =
     (let (r, w) = lfs_mount board w in
      if r < 0 then Some (Inr MountFailed)
      else
        obind (load_fs fuel fs (registry server_init) (heap_g server_init) w) (\<lambda>(pl, h, w).
          let s = server_init\<lparr>registry := pl, heap_g := h\<rparr>;
              (r, w) = cyw43_arch_init board w
          in if r \<noteq> 0 then Some (Inr (Returned 1))
             else
               obind (boot_wifi fuel cy fs (wifi_init, w)) (\<lambda>(ws, w).
                 let gw = IP4_ADDR board 192 168 4 1;
                     mask = IP4_ADDR board 255 255 255 0;
                     (_, dhcp) = dhcp_server_init (udp_answers board) gw mask;
                     (_, dns) = dns_server_init (udp_answers board) junk gw;
                     (_, http) = server_setup (http_answers board) fuel net cy
                 in Some (Inr (Running dhcp dns http (w, globals_init\<lparr>srv := s, wifi_g := ws\<rparr>))))))"

section \<open>The loop\<close>

text \<open>One round of \<open>while (1)\<close>; \<open>frame\<close> is the uninitialised frame of \<open>send_message\<close>.\<close>

definition main_round ::
    "nat \<Rightarrow> 'w cyw43 \<Rightarrow> 'w lfs \<Rightarrow> ('w machine \<Rightarrow> int) \<Rightarrow> 'w net \<Rightarrow> proto_frame \<Rightarrow> 'w machine http_server \<times> 'w machine \<Rightarrow>
       (tx_action list \<times> 'w machine http_server \<times> 'w machine) result option" where
  "main_round fuel cy fs file_size net frame = (\<lambda>(http, w, g).
     let (ws, w) = poll_wifi_scan cy (wifi_g g, w) in
     obind (Some (poll_wifi_connect cy fs (ws, w))) (\<lambda>(ws, w).
     obind (send_messages fuel frame (srv g)) (\<lambda>(acts, s).
     obind (http_loop fuel (machine_fs fs) file_size (machine_net net) (http, w, g\<lparr>wifi_g := ws, srv := s\<rparr>))
       (\<lambda>(http, w, g).
     obind (Some (pl_loop fs (heap_g (srv g)) (registry (srv g)) w)) (\<lambda>(pl, w).
       Some (Inr (acts, http, w, g\<lparr>srv := (srv g)\<lparr>registry := pl\<rparr>\<rparr>)))))))"

section \<open>The table of routes\<close>

lemma on_routes_find:
  "sm_ok (paths s) \<Longrightarrow> sm_find (paths (fold (\<lambda>((mth, path), h). on_route mth path h) rs s)) k =
     (case map_of (rev rs) k of None \<Rightarrow> sm_find (paths s) k | Some h \<Rightarrow> Some h)"
proof (induction rs arbitrary: s)
  case (Cons r rs)
  obtain mth path h where r: "r = ((mth, path), h)" by (metis prod.collapse)
  from Cons.IH [of "on_route mth path h s"] Cons.prems show ?case
    by (auto simp: r on_route_def smap.ok_put smap.find_put map_add_def split: option.splits)
qed simp

lemma on_routes_keep:
  "static_enabled (fold (\<lambda>((mth, path), h). on_route mth path h) rs s) = static_enabled s"
  "fs_path (fold (\<lambda>((mth, path), h). on_route mth path h) rs s) = fs_path s"
  "client_vect (fold (\<lambda>((mth, path), h). on_route mth path h) rs s) = client_vect s"
  "client_heap (fold (\<lambda>((mth, path), h). on_route mth path h) rs s) = client_heap s"
  by (induction rs arbitrary: s) (auto simp: on_route_def)

lemma http_start_paths: "http_start ans port new_http_server = (b, calls, s) \<Longrightarrow> paths s = []"
  by (auto simp: http_start_def new_http_server_def split: option.splits if_splits)

lemma server_setup_paths: "sm_find (paths (snd (server_setup ans fuel net cy))) k = map_of (routes fuel net cy) k"
proof -
  obtain b calls s where st: "http_start ans 80 (new_http_server :: 'a machine http_server) = (b, calls, s)"
    by (metis prod.collapse)
  have "distinct (map fst (routes fuel net cy))" by (simp add: routes_def)
  then have r: "map_of (rev (routes fuel net cy)) = map_of (routes fuel net cy)" by (simp add: map_of_inject_set rev_map [symmetric])
  have "paths (static_content ''/static'' s) = []" using http_start_paths [OF st] by (simp add: static_content_def)
  with on_routes_find [of "static_content ''/static'' s" "routes fuel net cy" k] show ?thesis
    by (simp add: server_setup_def st r split: option.splits)
qed

section \<open>Requests from the wire\<close>

text \<open>The packets of a connection as lwIP hands them to \<open>tcp_client_recv\<close>.\<close>

fun receive_packets ::
    "nat \<Rightarrow> tcp_answers \<Rightarrow> nat \<Rightarrow> nat \<Rightarrow> string list \<Rightarrow> tcp_client heap \<Rightarrow> tcp_client heap result option" where
  "receive_packets fuel ans a pcb [] heap = Some (Inr heap)"
| "receive_packets fuel ans a pcb (p # ps) heap =
     obind (tcp_client_recv fuel ans (Some a) pcb (Some p) 0 heap) (\<lambda>(_, _, heap).
       receive_packets fuel ans a pcb ps heap)"

lemma receive_packets_heap:
  assumes "heap_get heap (Some a) = Inr cn" "recv_packets fuel pcb ps (tc_conn cn) = Some (Inr (calls, h))"
  shows "receive_packets fuel ans a pcb ps heap = Some (Inr (heap[a := Some (cn\<lparr>tc_conn := h\<rparr>)]))"
  using assms
proof (induction ps arbitrary: heap cn calls)
  case Nil
  then have "cn\<lparr>tc_conn := h\<rparr> = cn" by auto
  moreover have "heap[a := Some cn] = heap" using Nil(1) list_update_id [of heap a] by (simp add: heap_get_Some)
  ultimately show ?case by simp
next
  case (Cons p ps)
  from Cons.prems(2) obtain calls1 h1 calls2 where
    1: "recv_packet fuel pcb p (tc_conn cn) = Some (Inr (calls1, h1))"
      "recv_packets fuel pcb ps h1 = Some (Inr (calls2, h))" by (auto simp: obind_Inr)
  let ?heap = "heap[a := Some (cn\<lparr>tc_conn := h1\<rparr>)]"
  have "heap_get ?heap (Some a) = Inr (cn\<lparr>tc_conn := h1\<rparr>)" using Cons.prems(1) by (simp add: heap_get_Some)
  from Cons.IH [OF this, of calls2] 1(2) have
    "receive_packets fuel ans a pcb ps ?heap = Some (Inr (?heap[a := Some (cn\<lparr>tc_conn := h\<rparr>)]))" by simp
  with 1(1) Cons.prems(1) show ?case by (simp add: tcp_client_recv_def)
qed

lemma waiting_append: "waiting heap b \<Longrightarrow> waiting (heap @ [x]) b"
  by (auto simp: waiting_def heap_get_Some nth_append)

lemma round_idle:
  assumes "\<not> wifi_scan_g (wifi_g g)" "\<not> wifi_connect_g (wifi_g g)"
    and "send_messages fuel frame (srv g) = Some (Inr (acts, s))"
    and "http_loop fuel (machine_fs fs) file_size (machine_net net) (http, w, g\<lparr>srv := s\<rparr>) = Some (Inr (http', w', g'))"
    and "\<not> update_fs_required (registry (srv g'))"
  shows "main_round fuel cy fs file_size net frame (http, w, g) = Some (Inr (acts, http', w', g'))"
proof -
  have "(srv g')\<lparr>registry := registry (srv g')\<rparr> = srv g'" by simp
  then have "g'\<lparr>srv := (srv g')\<lparr>registry := registry (srv g')\<rparr>\<rparr> = g'" by simp
  moreover have "g\<lparr>wifi_g := wifi_g g, srv := s\<rparr> = g\<lparr>srv := s\<rparr>" by simp
  ultimately show ?thesis using assms
    by (simp add: main_round_def poll_wifi_scan_def poll_wifi_connect_def pl_loop_def)
qed

section \<open>Properties\<close>

lemma machine_net_takes: "net_takes net txt \<Longrightarrow> net_takes (machine_net net) (txt \<circ> fst)"
  by (simp add: net_takes_def machine_net_def) (metis (no_types, lifting) case_prod_conv)

text \<open>The server serves what it registers and nothing else: after the set-up in \<open>main\<close>, a ready
  GET request for one of the nine paths is given to its handler in the next round of the loop, and the
  static files lie under \<open>/static\<close>; no other method or path has a callback.\<close>

theorem routes_reach_their_handlers:
  assumes "http = snd (server_setup ans fuel net cy)"
  shows "static_enabled http \<and> fs_path http = ''/static'' \<and>
     (\<forall>k. sm_find (paths http) k = map_of (routes fuel net cy) k) \<and>
     (\<forall>conn path h callback c w r.
        ((GET, path), callback) \<in> set (routes fuel net cy) \<longrightarrow> handle_body conn = Inr h \<longrightarrow>
        conn_client h = c \<longrightarrow> http_method c = Some GET \<longrightarrow> req_path c = path \<longrightarrow> callback (c, w) = Some (Inr r) \<longrightarrow>
        handle_request fuel (machine_fs fs) file_size (machine_net net) http (conn, w) =
          Some (Inr (h\<lparr>conn_client := fst r\<rparr>, snd r)))"
proof (intro conjI allI impI)
  obtain b calls s0 where st: "http_start ans 80 (new_http_server :: 'a machine http_server) = (b, calls, s0)"
    by (metis prod.collapse)
  show "static_enabled http" "fs_path http = ''/static''"
    by (simp_all add: assms server_setup_def st static_content_def on_routes_keep)
  show find: "sm_find (paths http) k = map_of (routes fuel net cy) k" for k
    by (simp add: assms server_setup_paths)
  fix conn path h callback c w and r :: "http_client \<times> 'a machine"
  assume hyps: "((GET, path), callback) \<in> set (routes fuel net cy)" "handle_body conn = Inr h" "conn_client h = c"
    "http_method c = Some GET" "req_path c = path" "callback (c, w) = Some (Inr r)"
  have "distinct (map fst (routes fuel net cy))" by (simp add: routes_def)
  from map_of_is_SomeI [OF this hyps(1)] have "sm_find (paths http) (GET, path) = Some callback" by (simp add: find)
  then show "handle_request fuel (machine_fs fs) file_size (machine_net net) http (conn, w) =
      Some (Inr (h\<lparr>conn_client := fst r\<rparr>, snd r))"
    using hyps(2-6) by (cases r) (simp add: handle_request_def Let_def)
qed

lemma request_arrives:
  fixes hs :: "(string \<times> string) list"
  assumes "concat ps = request_line GET path args @ concat (map plain_header hs) @ CRLF"
    and "length (concat ps) < 1024" "length mem = 1024 + 128" "list_all arg_ok args" "list_all header_ok hs"
    and "path_ok path" "map_of (rev hs) ''Content-Length'' = None"
  shows "\<exists>conn. receive_packets 1025 ans (length heap) pcb ps (heap @ [Some (new_tcp_client mem pcb)]) =
       Some (Inr (heap @ [Some ((new_tcp_client mem pcb)\<lparr>tc_conn := conn\<rparr>)])) \<and>
     request_ready (conn_client conn) \<and> http_method (conn_client conn) = Some GET \<and>
     req_path (conn_client conn) = path \<and> sm_find (request_params (conn_client conn)) = map_of (rev args) \<and>
     handle_body conn = Inr conn"
proof -
  let ?new = "new_tcp_client mem pcb"
  from packets_parsed [OF assms(1-3) _ _ assms(6,4,5), of 1025 pcb] obtain lens conn where
    1: "recv_packets 1025 pcb ps (tc_conn ?new) = Some (Inr (map (TcpRecved pcb) lens, conn))"
      "request_ready (conn_client conn)" "http_method (conn_client conn) = Some GET" "req_path (conn_client conn) = path"
      "sm_find (request_params (conn_client conn)) = map_of (rev args)"
      "sm_find (request_headers (conn_client conn)) = map_of (rev hs)" by auto
  have "heap_get (heap @ [Some ?new]) (Some (length heap)) = Inr ?new" by (simp add: heap_get_Some)
  from receive_packets_heap [OF this 1(1), of ans] have
    "receive_packets 1025 ans (length heap) pcb ps (heap @ [Some ?new]) = Some (Inr (heap @ [Some (?new\<lparr>tc_conn := conn\<rparr>)]))"
    by simp
  moreover have "handle_body conn = Inr conn" using 1(6) assms(7) by (simp add: handle_body_def has_req_header_def)
  ultimately show ?thesis using 1(2-5) by blast
qed

lemma flash_request_served:
  assumes "server_inv s" "word_of_int v \<in> set (pl_ids (registry s))" "frame_wf frame" "tx_pending ls (tx_g s)"
    and "sm_find (request_params c) ''id'' = Some i" "stoi i = Inr v"
    and "sm_find (request_params c) ''time'' = Some t" "stoi t = Inr u" "net_takes net txt"
  shows "\<exists>c' w' s1. http_pagers_flash 1025 net (c, w) s = Some (Inr ((c', w'), s1)) \<and>
     txt w' = txt w @ response_text 200 ''OK'' ''flashing the pager'' c \<and> server_inv s1 \<and> registry s1 = registry s \<and>
     (\<exists>acts s2 ls' pre post k. send_messages 1025 frame s1 = Some (Inr (acts, s2)) \<and> tx_pending ls' (tx_g s2) \<and>
        tx_levels acts @ ls' = pre @ wire_levels (proto_seal
          ((blank_message (word_of_int v) FLASH (word_of_int u))\<lparr>sequence_number := k\<rparr>)) @ post)"
proof -
  from assms(2) obtain q where q: "get_pager (word_of_int v) (registry s) = Some q"
    using pager_exists_iff [of "word_of_int v" "registry s"] by (auto simp: get_pager_find pager_exists_def)
  from server_pager [OF assms(1) q] obtain p where
    p: "q < length (heap_g s)" "heap_g s ! q = Some p" "device_id p = word_of_int v" "pager_inv p" by blast
  let ?p = "p\<lparr>flash_msgs_left := 5, flash_time := Some (word_of_int u)\<rparr>"
  let ?s = "s\<lparr>heap_g := (heap_g s)[q := Some ?p]\<rparr>"
  from respond_sends [OF assms(9), of 1025 "''flashing the pager''" 200 "''OK''" c w] snd_buf_le [of 18] obtain c' w' where
    1: "response_ok 1025 net ''flashing the pager'' (c, w) = Some (c', w')"
      "txt w' = txt w @ response_text 200 ''OK'' ''flashing the pager'' c" by (auto simp: response_ok_def)
  have 2: "http_pagers_flash 1025 net (c, w) s = Some (Inr ((c', w'), ?s))"
    using flash_handler_value [OF assms(1), of "(c, w)" i v t u q p 1025 net] assms(5-8) q p(2) 1(1)
    by (simp add: finish_def)
  have inv: "server_inv ?s"
    by (rule server_inv_put [OF assms(1) p(1,2)]) (simp_all add: flashed_pager_inv p(4))
  have "blank_message (word_of_int v) FLASH (word_of_int u) \<in> set (round_messages ?s)"
    by (rule pager_in_round [OF inv, of "word_of_int v" q ?p])
      (use q p(1,3) in \<open>simp_all add: pager_messages_def\<close>)
  moreover have "tx_pending ls (tx_g ?s)" using assms(4) by simp
  ultimately have "\<exists>acts s2 ls' pre post k. send_messages 1025 frame ?s = Some (Inr (acts, s2)) \<and> tx_pending ls' (tx_g s2) \<and>
      tx_levels acts @ ls' = pre @ wire_levels (proto_seal
        ((blank_message (word_of_int v) FLASH (word_of_int u))\<lparr>sequence_number := k\<rparr>)) @ post"
    using round_on_air [OF inv assms(3)] by blast
  then show ?thesis using 1(2) 2 inv
    by - (rule exI [of _ c'], rule exI [of _ w'], rule exI [of _ ?s], simp)
qed

lemma round_serves_pager_request:
  assumes "\<not> wifi_scan_g (wifi_g g)" "\<not> wifi_connect_g (wifi_g g)"
    and "send_messages 1025 frame (srv g) = Some (Inr (acts, s1))" "h (conn_client conn, w) s1 = Some (Inr ((c', w'), s2))"
    and "\<not> update_fs_required (registry s2)"
    and "list_all (waiting heap) vect" "request_ready (conn_client conn)" "http_method (conn_client conn) = Some GET"
    and "handle_body conn = Inr conn" "map_of (routes 1025 net cy) (GET, req_path (conn_client conn)) = Some (pager_callback h)"
    and "\<forall>k. sm_find (paths http) k = map_of (routes 1025 net cy) k"
    and "client_heap http = heap @ [Some (cn\<lparr>tc_conn := conn\<rparr>)]" "client_vect http = vect @ [length heap]"
  shows "\<exists>http2. main_round 1025 cy fs file_size net frame (http, w, g) = Some (Inr (acts, http2, w', g\<lparr>srv := s2\<rparr>)) \<and>
     client_vect http2 = vect"
proof -
  let ?cn = "cn\<lparr>tc_conn := conn\<rparr>"
  have "list_all (waiting (client_heap http)) (vect @ [])"
    using assms(6) by (auto simp: list_all_iff assms(12) waiting_append)
  moreover have "heap_get (client_heap http) (Some (length heap)) = Inr ?cn" by (simp add: assms(12) heap_get_Some)
  moreover have "pager_callback h (conn_client conn, w, g\<lparr>srv := s1\<rparr>) = Some (Inr (c', w', g\<lparr>srv := s2\<rparr>))"
    using assms(4) by (simp add: pager_callback_def)
  ultimately have "http_loop 1025 (machine_fs fs) file_size (machine_net net) (http, w, g\<lparr>srv := s1\<rparr>) =
      Some (Inr (http\<lparr>client_vect := vect @ [],
        client_heap := (client_heap http)[length heap := Some (?cn\<lparr>tc_conn := conn\<lparr>conn_client := c'\<rparr>\<rparr>)]\<rparr>, w', g\<lparr>srv := s2\<rparr>))"
    using assms(7-11,13)
    by (intro dispatch_ready [where c = "conn_client conn" and mth = GET]) simp_all
  from round_idle [OF assms(1-3) this] assms(5) show ?thesis by simp
qed

text \<open>C2. From TCP to the air: a client connects and sends, cut into any packets, a GET request for
  \<open>/pagers/flash\<close> with an id and a time that are numbers, the id registered; the next round of the main
  loop answers it and takes the connection off the list, and the round after it puts a sealed FLASH message
  with that id and time on the air. The request has less than 1024 bytes, no \<open>Content-Length\<close>, and
  arguments and headers whose names and values have less than 128 characters each and none of the
  characters that separate them (a header of 128 overflows its array: \<open>long_header_overflows\<close>). The
  server is idle otherwise: the invariants hold, no scan or connection of the WiFi is asked for, no write of the
  registry is due, every other client on the list still waits, the routes are those of \<open>main\<close>, the
  transmitter is in a state it can be in (idle or with bits left to send), and lwIP accepts what is
  written (\<open>net_takes\<close>).\<close>

theorem flash_over_http:
  assumes "concat ps = request_line GET ''/pagers/flash'' args @ concat (map plain_header hs) @ CRLF"
    and "length (concat ps) < 1024" "length mem = 1024 + 128" "list_all arg_ok args" "list_all header_ok hs"
    and "map_of (rev hs) ''Content-Length'' = None"
    and "map_of (rev args) ''id'' = Some i" "stoi i = Inr v" "map_of (rev args) ''time'' = Some t" "stoi t = Inr u"
    and "server_inv (srv g)" "word_of_int v \<in> set (pl_ids (registry (srv g)))" "\<not> update_fs_required (registry (srv g))"
    and "\<not> wifi_scan_g (wifi_g g)" "\<not> wifi_connect_g (wifi_g g)" "frame_wf frame" "tx_pending ls (tx_g (srv g))"
    and "net_takes net txt" "list_all (waiting (client_heap http)) (client_vect http)"
    and "\<forall>k. sm_find (paths http) k = map_of (routes 1025 net cy) k"
  shows "\<exists>a http1 heap conn acts http2 w' g' acts' s' ls' pre post k.
     tcp_server_accept mem (Some pcb) 0 http = (0, [TcpArg pcb (Some a), TcpCallbacks pcb], http1) \<and>
     receive_packets 1025 ans a pcb ps (client_heap http1) = Some (Inr heap) \<and>
     main_round 1025 cy fs file_size net frame (http1\<lparr>client_heap := heap\<rparr>, w, g) = Some (Inr (acts, http2, w', g')) \<and>
     client_vect http2 = client_vect http \<and>
     txt w' = txt w @ response_text 200 ''OK'' ''flashing the pager'' conn \<and>
     server_inv (srv g') \<and> pl_ids (registry (srv g')) = pl_ids (registry (srv g)) \<and>
     send_messages 1025 frame (srv g') = Some (Inr (acts', s')) \<and> tx_pending ls' (tx_g s') \<and>
     tx_levels acts' @ ls' = pre @ wire_levels (proto_seal
       ((blank_message (word_of_int v) FLASH (word_of_int u))\<lparr>sequence_number := k\<rparr>)) @ post"
proof -
  let ?http1 = "http\<lparr>client_heap := client_heap http @ [Some (new_tcp_client mem pcb)],
    client_vect := client_vect http @ [length (client_heap http)]\<rparr>"
  have 1: "tcp_server_accept mem (Some pcb) 0 http =
      (0, [TcpArg pcb (Some (length (client_heap http))), TcpCallbacks pcb], ?http1)"
    by (simp add: tcp_server_accept_def heap_new_def new_client_def Let_def)
  have path: "path_ok ''/pagers/flash''" by (simp add: path_ok_def plain_def REQ_PATH_SIZE_def)
  from request_arrives [OF assms(1-5) path assms(6), of ans "client_heap http" pcb] obtain conn where
    2: "receive_packets 1025 ans (length (client_heap http)) pcb ps (client_heap ?http1) =
        Some (Inr (client_heap http @ [Some ((new_tcp_client mem pcb)\<lparr>tc_conn := conn\<rparr>)]))"
      "request_ready (conn_client conn)" "http_method (conn_client conn) = Some GET" "handle_body conn = Inr conn"
      "req_path (conn_client conn) = ''/pagers/flash''" "sm_find (request_params (conn_client conn)) = map_of (rev args)"
    by auto
  from send_messages_queues [OF assms(11,16)] obtain acts s1 where
    3: "send_messages 1025 frame (srv g) = Some (Inr (acts, s1))"
      "queued (round_messages (srv g)) (map (map_option pager_sent) (heap_g (srv g))) (srv g) acts s1" "server_inv s1" by blast
  have reg: "registry s1 = registry (srv g)" using queued_heap(2) [OF 3(2)] .
  obtain ls1 where tx: "tx_pending ls1 (tx_g s1)" using 3(2) assms(17) unfolding queued_def by force
  have "word_of_int v \<in> set (pl_ids (registry s1))" using assms(12) by (simp add: reg)
  from flash_request_served [OF 3(3) this assms(16) tx _ assms(8) _ assms(10,18), of "conn_client conn" w] 2(6) assms(7,9)
  obtain c' w' s2 acts' s' ls' pre post k where
    4: "http_pagers_flash 1025 net (conn_client conn, w) s1 = Some (Inr ((c', w'), s2))"
      "txt w' = txt w @ response_text 200 ''OK'' ''flashing the pager'' (conn_client conn)" "server_inv s2" "registry s2 = registry s1"
      "send_messages 1025 frame s2 = Some (Inr (acts', s'))" "tx_pending ls' (tx_g s')"
      "tx_levels acts' @ ls' = pre @ wire_levels (proto_seal
       ((blank_message (word_of_int v) FLASH (word_of_int u))\<lparr>sequence_number := k\<rparr>)) @ post" by auto
  have "map_of (routes 1025 net cy) (GET, req_path (conn_client conn)) = Some (pager_callback (http_pagers_flash 1025 net))"
    by (simp add: routes_def 2(5))
  from round_serves_pager_request [where http = "?http1\<lparr>client_heap := _\<rparr>", OF assms(14,15) 3(1) 4(1) _ assms(19) 2(2-4) this] assms(13,20) obtain http2 where
    "main_round 1025 cy fs file_size net frame (?http1\<lparr>client_heap := client_heap http @ [Some ((new_tcp_client mem pcb)\<lparr>tc_conn := conn\<rparr>)]\<rparr>, w, g) =
       Some (Inr (acts, http2, w', g\<lparr>srv := s2\<rparr>))" "client_vect http2 = client_vect http"
    by (force simp: 4(4) reg)
  moreover have "srv (g\<lparr>srv := s2\<rparr>) = s2" "pl_ids (registry s2) = pl_ids (registry (srv g))" by (simp_all add: 4(4) reg)
  ultimately show ?thesis using 1 2(1) 4(2,3,5-7) by metis
qed

text \<open>C10. The server comes back after a power cycle: from a disk with the file of pagers and the network
  the server stores, the boot sequence ends in the loop, with the registry of the stored ids (none leaked or
  shared) and no message waiting, the stored network asked for and the driver's answer noted, every route in
  place and all invariants of the loop established.\<close>

theorem server_restarts:
  assumes "lfs_reliable fs view" "lfs_mount board w = (r, w1)" "0 \<le> r" "view w1 = (files, None)"
    and "files ''/pagers'' = Some (concat (map pager_line ids))" "sorted_wrt (<) ids" "length ids < fuel"
    and "\<forall>w. fst (cyw43_arch_init board w) = 0 \<and> view (snd (cyw43_arch_init board w)) = view w"
    and "files WIFI_PATH = Some (wifi_lines ssid pwd auth @ old)" "line_plain SSID_SIZE ssid" "line_plain PW_SIZE pwd"
    and "PW_SIZE \<le> fuel"
  shows "\<exists>w2 dhcp dns http w' g err. view w2 = (files, None) \<and>
     connect_blocking cy ssid pwd auth (enable_sta_mode cy w2) = (err, w') \<and>
     main_boot fuel board cy fs net junk w = Some (Inr (Running dhcp dns http (w', g))) \<and>
     server_inv (srv g) \<and> pl_ids (registry (srv g)) = ids \<and> round_messages (srv g) = [] \<and>
     wifi_inv (wifi_g g) \<and> connect_err_code_g (wifi_g g) = err \<and> page_ok (page_g g) \<and>
     (\<forall>k. sm_find (paths http) k = map_of (routes fuel net cy) k)"
proof -
  have init: "server_init = \<lparr>sequence_number_g = 0, registry = new_PagerList ''/pagers'', heap_g = [],
     crc_g = crc_init, tx_g = tx_init\<rparr>" by (simp add: server_init_def)
  let ?pl = "(new_PagerList ''/pagers'')\<lparr>pagers := zip ids [0..<length ids]\<rparr>"
  let ?h = "map (Some \<circ> new_Pager) ids"
  from load_fs_reads [OF assms(1,4-7), of "[]"] obtain wl where
    L: "load_fs fuel fs (registry server_init) (heap_g server_init) w1 = Some (Inr (?pl, ?h, wl))" "view wl = (files, None)"
    by (auto simp: init)
  obtain wc where c: "cyw43_arch_init board wl = (0, wc)" "view wc = (files, None)"
    using assms(8) L(2) by (metis prod.collapse)
  from wifi_read_view [OF assms(1) c(2) assms(9-12), of 0] obtain w2 where
    R: "wifi_read fuel fs 0 wc = Some (Inr (Some (ssid, pwd, auth), w2))" "view w2 = (files, None)" by blast
  obtain err w' where con: "connect_blocking cy ssid pwd auth (enable_sta_mode cy w2) = (err, w')" by fastforce
  let ?ws = "wifi_init\<lparr>connect_ssid_g := store_line ssid (replicate SSID_SIZE NUL),
     connect_pw_g := store_line pwd (replicate PW_SIZE NUL), connect_auth_g := auth, connect_err_code_g := err\<rparr>"
  have boot: "boot_wifi fuel cy fs (wifi_init, wc) = Some (Inr (?ws, w'))"
    using R(1) con store_line_c_str [OF assms(10)] store_line_c_str [OF assms(11)]
    by (simp add: boot_wifi_def wifi_init_def do_wifi_connect_def Let_def)
  let ?s = "server_init\<lparr>registry := ?pl, heap_g := ?h\<rparr>"
  let ?g = "globals_init\<lparr>srv := ?s, wifi_g := ?ws\<rparr>"
  have "heap_inv ?h" by (auto simp: heap_inv_def pager_inv_def new_Pager_def any_flash_msgs_left_def)
  then have s: "server_inv ?s" "pl_ids (registry ?s) = ids"
    using server_inv_init loaded_inv [OF assms(6), of "''/pagers''"]
    by (simp_all add: server_inv_def pl_ids_def)
  have "pager_messages (the (?h ! a)) = []" if "(k, a) \<in> set (zip ids [0..<length ids])" for k a
    using that by (auto simp: set_zip pager_messages_def new_Pager_def)
  then have none: "round_messages ?s = []" by (auto simp: round_messages_def)
  have "length ssid < SSID_SIZE" "length pwd < PW_SIZE" using assms(10,11) by (simp_all add: line_plain_def)
  then have ws: "wifi_inv ?ws" by (simp add: wifi_inv_def wifi_init_def store_line_def)
  obtain calls1 dhcp calls2 dns where d:
    "dhcp_server_init (udp_answers board) (IP4_ADDR board 192 168 4 1) (IP4_ADDR board 255 255 255 0) = (calls1, dhcp)"
    "dns_server_init (udp_answers board) junk (IP4_ADDR board 192 168 4 1) = (calls2, dns)" by (metis prod.collapse)
  let ?http = "snd (server_setup (http_answers board) fuel net cy)"
  have "main_boot fuel board cy fs net junk w = Some (Inr (Running dhcp dns ?http (w', ?g)))"
    using assms(2,3) L(1) c(1) boot d by (simp add: main_boot_def Let_def split: prod.split)
  moreover have "page_ok (page_g ?g)" by (simp add: globals_init_def page_ok_init)
  moreover note R(2) con s none ws server_setup_paths [of "http_answers board" fuel net cy]
  ultimately show ?thesis
    by - (rule exI [of _ w2], rule exI [of _ dhcp], rule exI [of _ dns], rule exI [of _ ?http],
        rule exI [of _ w'], rule exI [of _ ?g], rule exI [of _ err], simp)
qed

section \<open>Witnesses\<close>

definition quiet_tcp :: tcp_answers where
  "quiet_tcp = \<lparr>tcp_new_answer = Some 1, tcp_bind_answer = 0, tcp_listen_answer = Some 2, tcp_close_answer = 0\<rparr>"

definition sample_globals :: globals where
  "sample_globals = globals_init\<lparr>srv := Server_Queue.sample_server\<rparr>"

theorem routes_reach_their_handlers_witness:
  "sm_find (paths (snd (server_setup quiet_tcp 1 log_net idle_cyw43))) (GET, ''/pagers/list'') =
     Some (list_callback (http_pagers_list 1 log_net)) \<and>
   sm_find (paths (snd (server_setup quiet_tcp 1 log_net idle_cyw43))) (POST, ''/pagers/list'') = None"
proof -
  have "\<forall>k. sm_find (paths (snd (server_setup quiet_tcp 1 log_net idle_cyw43))) k = map_of (routes 1 log_net idle_cyw43) k"
    using routes_reach_their_handlers [OF refl, of quiet_tcp 1 log_net idle_cyw43] by blast
  then show ?thesis by (simp add: routes_def)
qed

theorem flash_over_http_witness:
  "\<exists>a http1 heap acts http2 w' g'.
     tcp_server_accept (replicate 1152 NUL) (Some 5) 0 (snd (server_setup quiet_tcp 1025 log_net idle_cyw43)) =
       (0, [TcpArg 5 (Some a), TcpCallbacks 5], http1) \<and>
     receive_packets 1025 quiet_tcp a 5 [''GET /pagers/flash?id=4629'', ''&time=7 HTTP/1.1'' @ CRLF @ CRLF] (client_heap http1) =
       Some (Inr heap) \<and>
     main_round 1025 idle_cyw43 no_disk (\<lambda>_. 0) log_net \<lparr>encrypted_data = replicate 32 0\<rparr>
       (http1\<lparr>client_heap := heap\<rparr>, [], sample_globals) = Some (Inr (acts, http2, w', g')) \<and>
     pl_ids (registry (srv g')) = [0x1215]"
proof -
  let ?ps = "[''GET /pagers/flash?id=4629'', ''&time=7 HTTP/1.1'' @ CRLF @ CRLF]"
  let ?args = "[(''id'', ''4629''), (''time'', ''7'')]"
  let ?http = "snd (server_setup quiet_tcp 1025 log_net idle_cyw43)"
  have t: "concat ?ps = request_line GET ''/pagers/flash'' ?args @ concat (map plain_header []) @ CRLF"
    by (simp add: request_line_def method_text_def target_text_def CRLF_chars)
  have a: "list_all arg_ok ?args" "list_all header_ok []"
    by (simp_all add: arg_ok_def plain_def TOKEN_SIZE_def)
  have n: "length (concat ?ps) < 1024" "length (replicate 1152 NUL) = 1024 + 128" by (simp_all add: CRLF_chars)
  have f: "map_of (rev []) ''Content-Length'' = (None :: string option)"
    "map_of (rev ?args) ''id'' = Some ''4629''" "map_of (rev ?args) ''time'' = Some ''7''" by simp_all
  have g: "server_inv (srv sample_globals)" "word_of_int 4629 \<in> set (pl_ids (registry (srv sample_globals)))"
    "\<not> update_fs_required (registry (srv sample_globals))" "\<not> wifi_scan_g (wifi_g sample_globals)"
    "\<not> wifi_connect_g (wifi_g sample_globals)" "tx_pending [] (tx_g (srv sample_globals))"
    "pl_ids (registry (srv sample_globals)) = [0x1215]"
    using sample_server_inv tx_pending_init
    by (simp_all add: sample_globals_def Server_Queue.sample_server_def pl_ids_def new_PagerList_def globals_init_def wifi_init_def server_init_def)
  have w: "list_all (waiting (client_heap ?http)) (client_vect ?http)"
    by (simp add: server_setup_def http_start_def quiet_tcp_def new_http_server_def static_content_def on_routes_keep)
  from flash_over_http [OF t n a f(1,2) sample_numbers(1) f(3) sample_numbers(2) g(1-5) sample_frame g(6) log_net_takes w,
      of idle_cyw43 5 quiet_tcp no_disk "\<lambda>_. 0" "[]"] server_setup_paths
  show ?thesis unfolding g(7) by blast
qed

definition steady_board :: "'w board" where
  "steady_board = \<lparr>lfs_mount = \<lambda>w. (0, w), cyw43_arch_init = \<lambda>w. (0, w),
     udp_answers = \<lparr>udp_new_answer = Some 3, udp_bind_answer = 0, pbuf_alloc_answer = True, udp_sendto_answer = 0\<rparr>,
     http_answers = quiet_tcp, IP4_ADDR = \<lambda>a b c d. word_of_nat (a + 256 * b + 65536 * c + 16777216 * d)\<rparr>"

theorem server_restarts_witness:
  "\<exists>dhcp dns http w' g.
     main_boot 64 steady_board idle_cyw43 ram_fs silent_net \<lparr>dns_udp = None, dns_ip = 0\<rparr>
       ([(WIFI_PATH, wifi_lines ''guest'' ''secret12'' 0x00400004), (''/pagers'', concat (map pager_line [3, 48879]))], None) =
       Some (Inr (Running dhcp dns http (w', g))) \<and>
     server_inv (srv g) \<and> pl_ids (registry (srv g)) = [3, 48879] \<and> connect_err_code_g (wifi_g g) = 0"
proof -
  define w :: ram_world where
    "w = ([(WIFI_PATH, wifi_lines ''guest'' ''secret12'' 0x00400004), (''/pagers'', concat (map pager_line [3, 48879]))], None)"
  have m: "lfs_mount steady_board w = (0, w)" "(0 :: int) \<le> 0" by (simp_all add: steady_board_def)
  have v: "ram_view w = (map_of (fst w), None)" by (simp add: ram_view_def w_def)
  have p: "map_of (fst w) ''/pagers'' = Some (concat (map pager_line [3, 48879]))"
    "map_of (fst w) WIFI_PATH = Some (wifi_lines ''guest'' ''secret12'' 0x00400004 @ [])"
    by (simp_all add: w_def WIFI_PATH_def)
  have o: "sorted_wrt (<) [3, 48879 :: u16]" "length [3, 48879 :: u16] < 64" "PW_SIZE \<le> 64" by (simp_all add: PW_SIZE_def)
  have c: "\<forall>w. fst (cyw43_arch_init steady_board w) = 0 \<and> ram_view (snd (cyw43_arch_init steady_board w)) = ram_view w"
    by (simp add: steady_board_def)
  have l: "line_plain SSID_SIZE ''guest''" "line_plain PW_SIZE ''secret12''"
    by (simp_all add: line_plain_def SSID_SIZE_def PW_SIZE_def)
  have j: "fst (connect_blocking idle_cyw43 s q a x) = 0" for s q a and x :: ram_world by (simp add: idle_cyw43_def)
  from server_restarts [OF ram_fs_reliable m v p(1) o(1,2) c p(2) l o(3), of idle_cyw43 silent_net "\<lparr>dns_udp = None, dns_ip = 0\<rparr>"]
  show ?thesis unfolding w_def using j by (metis fst_conv)
qed

end
