(* ===== verification/Server_Runs.thy ===== *)
theory Server_Runs
  imports Server_Main
begin

text \<open>
  The server from its boot on, with everything that interrupts \<open>main\<close>: the step relation
  \<open>server_step\<close> lets lwIP's callbacks of the HTTP server (connections, packets, acknowledgements,
  errors), the DHCP packets, the driver's scan results, the PWM interrupt and the rounds of
  \<open>while (1)\<close> happen in any order, and the world change in between. A step is one that does not
  fault: what faults (a callback whose connection was deleted, a flash of an unknown id, a number
  \<open>stoi\<close> throws on, a header too long for its array, a DHCP option that leads behind the message) ends
  the program and is left out. The invariants of all components hold after each step, and in every
  state that is reached the events that can fault are named.

  The world is anything the program does not own. That a callback of the HTTP server leaves the
  globals alone where it should is proved once, in the locale \<open>world_keeper\<close>.
\<close>

section \<open>More interrupts never hurt\<close>

lemma send_bytes_mono: "n \<le> m \<Longrightarrow> send_bytes n bs count st = Some r \<Longrightarrow> send_bytes m bs count st = Some r"
  using tx_wait_mono_le [of n m st] by (auto simp: send_bytes_def)

lemma obind_mono:
  "(\<And>r. a = Some r \<Longrightarrow> b = Some r) \<Longrightarrow> (\<And>x r. f x = Some r \<Longrightarrow> g x = Some r) \<Longrightarrow>
     obind a f = Some r \<Longrightarrow> obind b g = Some r"
  by (auto simp: obind_def split: option.splits sum.splits)

lemma send_message_mono: "n \<le> m \<Longrightarrow> send_message n junk d s = Some r \<Longrightarrow> send_message m junk d s = Some r"
  unfolding send_message_def Let_def
  by (elim obind_mono [rotated -1]; clarify?) (auto elim!: obind_mono [rotated -1] dest: send_bytes_mono)

lemma send_flash_msg_mono: "n \<le> m \<Longrightarrow> send_flash_msg n junk a s = Some r \<Longrightarrow> send_flash_msg m junk a s = Some r"
  unfolding send_flash_msg_def
  by (auto elim!: obind_mono [rotated -1] dest: send_message_mono split: option.splits if_splits)

lemma send_pair_msg_mono: "n \<le> m \<Longrightarrow> send_pair_msg n junk a s = Some r \<Longrightarrow> send_pair_msg m junk a s = Some r"
  unfolding send_pair_msg_def
  by (auto elim!: obind_mono [rotated -1] dest: send_message_mono split: if_splits)

lemma send_to_all_mono: "n \<le> m \<Longrightarrow> send_to_all n junk ps s = Some r \<Longrightarrow> send_to_all m junk ps s = Some r"
proof (induction ps arbitrary: s r)
  case (Cons e ps)
  obtain k a where e: "e = (k, a)" by fastforce
  show ?case using Cons.prems(2) unfolding e send_to_all.simps
    by (auto elim!: obind_mono [rotated -1] dest: send_flash_msg_mono [OF Cons.prems(1)]
        send_pair_msg_mono [OF Cons.prems(1)] Cons.IH [OF Cons.prems(1)])
qed simp

text \<open>So whatever bound a round is run with, its end is that of \<open>send_messages_queues\<close>.\<close>

lemma send_messages_keeps:
  assumes "server_inv s" "frame_wf junk" "send_messages fuel junk s = Some (Inr (acts, s'))"
  shows "server_inv s'"
proof -
  from send_messages_queues [OF assms(1,2)] obtain acts1 s1 where
    1: "send_messages 1025 junk s = Some (Inr (acts1, s1))" "server_inv s1" by blast
  have "send_messages (max fuel 1025) junk s = Some (Inr (acts, s'))"
    using send_to_all_mono [OF max.cobounded1 assms(3) [unfolded send_messages_def]] by (simp add: send_messages_def)
  moreover have "send_messages (max fuel 1025) junk s = Some (Inr (acts1, s1))"
    using send_to_all_mono [OF max.cobounded2 1(1) [unfolded send_messages_def]] by (simp add: send_messages_def)
  ultimately have "s' = s1" by simp
  with 1(2) show ?thesis by simp
qed

section \<open>What the web server leaves alone\<close>

locale world_keeper =
  fixes fs :: "'v lfs" and net :: "'v net" and good :: "'v \<Rightarrow> bool"
  assumes net_write: "good w \<Longrightarrow> good (snd (tcp_write net str w))"
    and net_read: "good w \<Longrightarrow> good (snd (read_sent net w))"
    and disk_open: "good w \<Longrightarrow> good (snd (lfs_file_open fs path mode w))"
    and disk_read: "good w \<Longrightarrow> good (snd (snd (lfs_file_read fs n w)))"
    and disk_close: "good w \<Longrightarrow> good (snd (lfs_file_close fs w))"
begin

lemma wait_sent_good: "wait_sent fuel net k w = Some w' \<Longrightarrow> good w \<Longrightarrow> good w'"
  using net_read by (induction fuel arbitrary: w) (force simp: Let_def split: prod.splits if_splits)+

lemma write_loop_good: "write_loop fuel net str w = Some w' \<Longrightarrow> good w \<Longrightarrow> good w'"
proof (induction fuel arbitrary: w)
  case (Suc fuel)
  obtain r w1 where r: "tcp_write net (tcp_piece str) w = (r, w1)" by fastforce
  have 1: "good w1" using net_write [OF Suc.prems(2), of "tcp_piece str"] by (simp add: r)
  obtain k w2 where k: "read_sent net w1 = (k, w2)" by fastforce
  have "good w2" using net_read [OF 1] by (simp add: k)
  with Suc.prems(1) 1 show ?case
    by (cases r) (auto simp: r k split: option.splits dest: wait_sent_good Suc.IH simp del: wait_sent.simps)
qed simp

lemma send_string_good: "send_string fuel net str (c, w) = Some (c', w') \<Longrightarrow> good w \<Longrightarrow> good w'"
  by (auto simp: send_string_def dest: write_loop_good)

lemma send_strings_good: "send_strings fuel net strs (c, w) = Some (c', w') \<Longrightarrow> good w \<Longrightarrow> good w'"
  by (induction strs arbitrary: c w) (auto simp: bind_eq_Some_conv dest: send_string_good)

lemma response_begin_good: "response_begin fuel net code str (c, w) = Some (c', w') \<Longrightarrow> good w \<Longrightarrow> good w'"
  by (auto simp: response_begin_def Let_def bind_eq_Some_conv dest: send_string_good send_strings_good)

lemma respond_good: "respond fuel net code code_str str (c, w) = Some (c', w') \<Longrightarrow> good w \<Longrightarrow> good w'"
  by (auto simp: respond_def bind_eq_Some_conv dest: response_begin_good send_string_good)

lemma static_loop_good: "static_loop fuel fs net (c, w) = Some (Inr (found, c', w')) \<Longrightarrow> good w \<Longrightarrow> good w'"
proof (induction fuel arbitrary: c w)
  case (Suc fuel)
  obtain n buf w1 where r: "lfs_file_read fs (BUFSZ - 1) w = (n, buf, w1)" by (metis prod.collapse)
  have 1: "good w1" using disk_read [OF Suc.prems(2), of "BUFSZ - 1"] unfolding r by simp
  show ?case using Suc.prems(1) 1
    by (auto simp: r [simplified] Let_def split: if_splits option.splits prod.splits
        dest: send_string_good Suc.IH intro: disk_close)
qed simp

lemma try_static_good: "try_static fuel fs fsize net s path (c, w) = Some (Inr (found, c', w')) \<Longrightarrow> good w \<Longrightarrow> good w'"
proof -
  assume a: "try_static fuel fs fsize net s path (c, w) = Some (Inr (found, c', w'))" and w: "good w"
  let ?buf = "snprintf BUFSZ (if path = ''/'' then fs_path s @ ''/index.html'' else fs_path s @ path)"
  obtain r w1 where r: "lfs_file_open fs ?buf RDONLY w = (r, w1)" by fastforce
  have "good w1" using disk_open [OF w, of ?buf RDONLY] by (simp add: r)
  with a w show "good w'"
    by (auto simp: try_static_def Let_def r split: if_splits option.splits prod.splits
        dest: response_begin_good static_loop_good)
qed

text \<open>The loop keeps what all callbacks keep.\<close>

lemma handle_request_good:
  assumes "handle_request fuel fs fsize net s (h, w) = Some (Inr (h', w'))" "good w"
    and "\<And>k f c w c' w'. sm_find (paths s) k = Some f \<Longrightarrow> f (c, w) = Some (Inr (c', w')) \<Longrightarrow> good w \<Longrightarrow> good w'"
  shows "good w'"
proof -
  from assms(1) obtain h1 mth c1 where
    1: "handle_body h = Inr h1" "http_method (conn_client h1) = Some mth"
      "(case sm_find (paths s) (mth, req_path (conn_client h1)) of
          Some callback \<Rightarrow> callback (conn_client h1, w)
        | None \<Rightarrow> obind (if mth = GET then try_static fuel fs fsize net s (req_path (conn_client h1)) (conn_client h1, w)
             else Some (Inr (False, conn_client h1, w))) (\<lambda>(found, c, w).
           if found then Some (Inr (c, w)) else map_option Inr (not_found fuel net (c, w)))) = Some (Inr (c1, w'))"
    by (cases "handle_body h"; cases "http_method (conn_client (projr (handle_body h)))")
      (auto simp: handle_request_def Let_def obind_Inr split: if_splits)
  show ?thesis
  proof (cases "sm_find (paths s) (mth, req_path (conn_client h1))")
    case (Some f)
    with 1(3) assms(2,3) show ?thesis by auto
  next
    case None
    with 1(3) assms(2) show ?thesis
      by (auto simp: obind_Inr not_found_def split: if_splits dest!: try_static_good respond_good)
  qed
qed

lemma loop_clients_good:
  assumes "\<And>k f c w c' w'. sm_find (paths s) k = Some f \<Longrightarrow> f (c, w) = Some (Inr (c', w')) \<Longrightarrow> good w \<Longrightarrow> good w'"
  shows "loop_clients fuel fs fsize net s as (heap, w) = Some (Inr (vect, heap', w')) \<Longrightarrow> good w \<Longrightarrow> good w'"
proof (induction as arbitrary: heap w vect)
  case (Cons a as)
  show ?case
  proof (cases "request_ready (conn_client (tc_conn (projr (heap_get heap (Some a)))))")
    case True
    with Cons.prems(1) obtain c h w1 where
      1: "handle_request fuel fs fsize net s (tc_conn c, w) = Some (Inr (h, w1))"
        "loop_clients fuel fs fsize net s as (heap[a := Some (c\<lparr>tc_conn := h\<rparr>)], w1) = Some (Inr (vect, heap', w'))"
      by (auto simp: obind_Inr)
    from Cons.IH [OF 1(2) handle_request_good [OF 1(1) Cons.prems(2) assms]] show ?thesis .
  next
    case False
    with Cons.prems(1) obtain vect1 where "loop_clients fuel fs fsize net s as (heap, w) = Some (Inr (vect1, heap', w'))"
      by (auto simp: obind_Inr)
    then show ?thesis by (rule Cons.IH [OF _ Cons.prems(2)])
  qed
qed simp

end

text \<open>The machine's network and file system touch the world only.\<close>

interpretation machine: world_keeper "machine_fs fs" "machine_net net" "\<lambda>(w, g). keeps g" for fs net keeps
  by unfold_locales (auto simp: machine_fs_def machine_net_def split: prod.splits)

section \<open>What the handlers keep\<close>

lemma finish_Inr: "finish resp s = Some (Inr (cw, s')) \<longleftrightarrow> resp = Some cw \<and> s' = s"
  by (cases cw) (auto simp: finish_def)

lemma param_cases:
  obtains "\<not> has_req_param c k"
  | e where "has_req_param c k" "get_req_param_int c k = Inl e"
  | i v where "sm_find (request_params c) k = Some i" "stoi i = Inr v"
proof (cases "sm_find (request_params c) k")
  case None
  then show thesis using that(1) param_missing by blast
next
  case (Some i)
  from param_found [OF Some] that(2,3) Some show thesis by (cases "stoi i") auto
qed

lemma pair_keeps:
  assumes "server_inv s" "http_pagers_pair fuel net cw s = Some (Inr (cw', s'))"
  shows "server_inv s'"
proof (cases rule: param_cases [of "fst cw" "''id''"])
  case (3 i v)
  show ?thesis
  proof (cases "get_pager (word_of_int v) (registry s)")
    case None
    from pair_handler_new [OF assms(1) 3 None, of fuel net] assms(2) show ?thesis by (metis finish_Inr)
  next
    case (Some a)
    from server_pager [OF assms(1) Some] obtain p where
      p: "a < length (heap_g s)" "heap_g s ! a = Some p" "pager_inv p" by blast
    have "server_inv (s\<lparr>heap_g := (heap_g s)[a := Some (p\<lparr>pair_msgs_left := 5\<rparr>)]\<rparr>)"
      by (rule server_inv_put [OF assms(1) p(1,2)]) (simp_all add: paired_pager_inv p(3))
    with pair_handler_known [OF assms(1) 3 Some p(2), of fuel net] assms(2) show ?thesis by (metis finish_Inr)
  qed
qed (use assms in \<open>auto simp: http_pagers_pair_def finish_Inr\<close>)

lemma remove_keeps:
  assumes "server_inv s" "http_pagers_remove fuel net cw s = Some (Inr (cw', s'))"
  shows "server_inv s'"
proof (cases rule: param_cases [of "fst cw" "''id''"])
  case (3 i v)
  from remove_handler_value [OF assms(1) 3, of fuel net] assms(2) show ?thesis by (metis finish_Inr)
qed (use assms in \<open>auto simp: http_pagers_remove_def finish_Inr\<close>)

lemma flash_keeps:
  assumes "server_inv s" "http_pagers_flash fuel net cw s = Some (Inr (cw', s'))"
  shows "server_inv s'"
proof (cases rule: param_cases [of "fst cw" "''id''"])
  case id: (3 i v)
  show ?thesis
  proof (cases rule: param_cases [of "fst cw" "''time''"])
    case 1
    with assms param_found [OF id(1)] show ?thesis by (auto simp: http_pagers_flash_def Let_def finish_Inr split: if_splits)
  next
    case (2 e)
    with assms(2) param_found [OF id(1)] id(2) show ?thesis by (auto simp: http_pagers_flash_def Let_def obind_Inr)
  next
    case time: (3 t u)
    show ?thesis
    proof (cases "get_pager (word_of_int v) (registry s)")
      case None
      with assms(2) param_found [OF id(1)] param_found [OF time(1)] id(2) show ?thesis
        by (simp add: http_pagers_flash_def heap_update_def heap_get_def)
    next
      case (Some a)
      from server_pager [OF assms(1) Some] obtain p where
        p: "a < length (heap_g s)" "heap_g s ! a = Some p" "pager_inv p" by blast
      have "server_inv (s\<lparr>heap_g := (heap_g s)[a := Some (p\<lparr>flash_msgs_left := 5, flash_time := Some (word_of_int u)\<rparr>)]\<rparr>)"
        by (rule server_inv_put [OF assms(1) p(1,2)]) (simp_all add: flashed_pager_inv p(3))
      with flash_handler_value [OF assms(1) id time Some p(2), of fuel net] assms(2) show ?thesis
        by (metis finish_Inr)
    qed
  qed
qed (use assms in \<open>auto simp: http_pagers_flash_def Let_def finish_Inr split: if_splits\<close>)

text \<open>The document and the buffer the handlers share.\<close>

definition page_doc :: "json_document \<Rightarrow> bool" where
  "page_doc d \<longleftrightarrow> doc_ok d \<and> mp_capacity (jd_pool d) = JSON_SIZE"

lemma page_doc_clear: "page_ok page \<Longrightarrow> page_doc (json_clear (json_g page))"
  using page_ok_parts [of page] doc_ok_clear by (simp add: page_doc_def json_clear_def pool_clear_def)

lemma page_doc_set: "page_doc d \<Longrightarrow> list_all step_ok path \<Longrightarrow> page_doc (json_set path src d)"
  using json_set_ok [of d path src] by (simp add: page_doc_def pool_extends_def)

lemma answer_json_keeps:
  assumes "answer_json fuel net d cw page = Some (Inr (cw', page'))" "page_ok page" "page_doc d"
  shows "page_ok page'"
proof -
  have "length (terminated t b) = length b" if "NUL \<in> set (terminated t b)" for t b
    by (simp add: terminated_def)
  with assms show ?thesis
    by (cases cw) (auto simp: answer_json_def response_json_def obind_Inr serializeJson_result page_ok_def page_doc_def
        split: if_splits)
qed

lemma pagers_json_keeps: "pagers_json_loop h m d = Inr d' \<Longrightarrow> page_doc d \<Longrightarrow> page_doc d'"
proof (induction h m d rule: pagers_json_loop.induct)
  case (2 h k pager m d)
  from "2.prems"(1) obtain p where
    p: "heap_get h (Some pager) = Inr p" "pagers_json_loop h m (json_set
       [Member Linked ''pagers'', Member Copied (to_string (uint (device_id p)))] (Src_int 30) d) = Inr d'"
    by (auto simp: rbind_Inr)
  have "NUL \<notin> set (to_string (uint (device_id p)))" 
    using pager_key_facts(4) [of "device_id p"] by (simp add: pager_key_def)
  then show ?case by (intro "2.IH" [OF p(2)] page_doc_set "2.prems"(2)) (simp add: step_ok_def)
qed simp

lemma list_keeps:
  assumes "http_pagers_list fuel net cw (s, page) = Some (Inr (cw', s', page'))" "page_ok page"
  shows "s' = s" "page_ok page'"
proof -
  define d where "d = json_set [Member Linked ''total_pagers''] (Src_int (int (pl_size (registry s)))) (json_clear (json_g page))"
  from assms(1) obtain d' where
    1: "pagers_json_loop (heap_g s) (pagers (registry s)) d = Inr d'" "answer_json fuel net d' cw page = Some (Inr (cw', page'))" "s' = s"
    by (auto simp: http_pagers_list_def obind_Inr d_def)
  have "page_doc d" unfolding d_def by (intro page_doc_set page_doc_clear assms(2)) (simp add: step_ok_def)
  from answer_json_keeps [OF 1(2) assms(2) pagers_json_keeps [OF 1(1) this]] 1(3) show "s' = s" "page_ok page'" by simp_all
qed

lemma scan_results_loop_keeps:
  "scan_results_loop m d = Inr d' \<Longrightarrow> list_all network_ok m \<Longrightarrow> page_doc d \<Longrightarrow> page_doc d'"
proof (induction m arbitrary: d)
  case (Cons e m)
  obtain k r where e: "e = (k, r)" by fastforce
  have k: "network_ok (k, r)" using Cons.prems(2) by (simp add: e)
  then have "NUL \<notin> set k" by (simp add: network_ok_def)
  then have "page_doc (json_set [Member Copied k, Member Linked t] src d)" if "page_doc d" "NUL \<notin> set t" for t src d
    using that page_doc_set by (simp add: step_ok_def)
  then show ?case
    using Cons.prems by (intro Cons.IH [rotated 2]) (auto simp: e Let_def network_key(3) [OF k])
qed simp

lemma wifi_page_keeps:
  assumes "page_ok page" "wifi_inv ws"
  shows "http_wifi_scan_status fuel net cy cw (ws, page) = Some (Inr (cw', ws', page')) \<Longrightarrow> page_ok page'"
    and "http_wifi_connect_status fuel net cy cw (ws, page) = Some (Inr (cw', ws', page')) \<Longrightarrow> page_ok page'"
    and "http_wifi_scan_results fuel net cy cw (ws, page) = Some (Inr (cw', ws', page')) \<Longrightarrow> page_ok page'"
proof -
  note keep = answer_json_keeps [OF _ assms(1)] and doc = page_doc_set page_doc_clear [OF assms(1)]
  have ok: "list_all step_ok [Member Linked ''active'']" "list_all step_ok [Member Linked ''success'']"
    "list_all step_ok [Member Linked ''err_code'']" "list_all step_ok [Member Linked ''ip'']"
    by (simp_all add: step_ok_def)
  show "http_wifi_scan_status fuel net cy cw (ws, page) = Some (Inr (cw', ws', page')) \<Longrightarrow> page_ok page'"
    by (auto simp: http_wifi_scan_status_def Let_def obind_Inr intro!: keep doc ok elim!: keep)
  show "http_wifi_connect_status fuel net cy cw (ws, page) = Some (Inr (cw', ws', page')) \<Longrightarrow> page_ok page'"
    by (auto simp: http_wifi_connect_status_def Let_def obind_Inr elim!: keep intro!: doc ok)
  assume a: "http_wifi_scan_results fuel net cy cw (ws, page) = Some (Inr (cw', ws', page'))"
  show "page_ok page'"
  proof (cases "scan_results_g ws = None \<or> scan_active cy (snd cw)")
    case True
    with a assms(1) show ?thesis by (auto simp: http_wifi_scan_results_def wifi_finish_def split: if_splits)
  next
    case False
    with a obtain m d where
      1: "heap_get (scan_maps ws) (scan_results_g ws) = Inr m" "scan_results_loop m (json_clear (json_g page)) = Inr d"
        "answer_json fuel net d cw page = Some (Inr (cw', page'))"
      by (auto simp: http_wifi_scan_results_def obind_Inr)
    have "list_all network_ok m" using assms(2) False 1(1) by (auto simp: wifi_inv_def scan_open_def scan_map_ok_def)
    from keep [OF 1(3) scan_results_loop_keeps [OF 1(2) this doc(2)]] show ?thesis .
  qed
qed

section \<open>The routes\<close>

definition globals_inv :: "globals \<Rightarrow> bool" where
  "globals_inv g \<longleftrightarrow> server_inv (srv g) \<and> wifi_inv (wifi_g g) \<and> page_ok (page_g g)"

lemma pager_callback_keeps:
  assumes "\<And>cw s cw' s'. server_inv s \<Longrightarrow> h cw s = Some (Inr (cw', s')) \<Longrightarrow> server_inv s'"
    and "pager_callback h (c, w, g) = Some (Inr (c', w', g'))" "globals_inv g"
  shows "globals_inv g'"
  using assms(2,3) by (auto simp: pager_callback_def obind_Inr globals_inv_def dest: assms(1))

lemma wifi_callback_keeps:
  assumes "\<And>cw ws page cw' ws' page'. wifi_inv ws \<Longrightarrow> page_ok page \<Longrightarrow> h cw (ws, page) = Some (Inr (cw', ws', page')) \<Longrightarrow>
      wifi_inv ws' \<and> page_ok page'"
    and "wifi_callback h (c, w, g) = Some (Inr (c', w', g'))" "globals_inv g"
  shows "globals_inv g'"
  using assms(2,3) by (auto simp: wifi_callback_def obind_Inr globals_inv_def dest: assms(1))

lemma list_callback_keeps:
  "list_callback (http_pagers_list fuel net) (c, w, g) = Some (Inr (c', w', g')) \<Longrightarrow> globals_inv g \<Longrightarrow> globals_inv g'"
  by (auto simp: list_callback_def obind_Inr globals_inv_def dest: list_keeps)

definition wifi_handlers :: "nat \<Rightarrow> 'w net \<Rightarrow> 'w cyw43 \<Rightarrow> (http_client \<times> 'w \<Rightarrow> wifi \<times> json_page \<Rightarrow> 'w wifi_handled) set" where
  "wifi_handlers fuel net cy = {http_wifi_scan_start fuel net, http_wifi_scan_status fuel net cy,
     http_wifi_scan_results fuel net cy, http_wifi_connect fuel net cy, http_wifi_connect_status fuel net cy}"

lemma wifi_handlers_keep:
  assumes "h \<in> wifi_handlers fuel net cy" "h cw (ws, page) = Some (Inr (cw', ws', page'))" "wifi_inv ws" "page_ok page"
  shows "wifi_inv ws' \<and> page_ok page'"
proof -
  note inv = wifi_step_inv [OF _ assms(3), where fs = no_disk]
  from assms(1) consider "h = http_wifi_scan_start fuel net" | "h = http_wifi_scan_status fuel net cy"
    | "h = http_wifi_scan_results fuel net cy" | "h = http_wifi_connect fuel net cy" | "h = http_wifi_connect_status fuel net cy"
    by (auto simp: wifi_handlers_def)
  then show ?thesis
  proof cases
    case 1
    note e = assms(2) [unfolded 1]
    from inv [OF step_start [OF e]] scan_start_opens [of fuel net cw ws page "cw'" ws' page'] e assms(4) show ?thesis
      by (cases "cw'") auto
  next
    case 2
    note e = assms(2) [unfolded 2]
    from inv [OF step_status [OF e]] wifi_page_keeps(1) [OF assms(4,3) e] show ?thesis by blast
  next
    case 3
    note e = assms(2) [unfolded 3]
    from inv [OF step_results [OF e]] wifi_page_keeps(3) [OF assms(4,3) e] show ?thesis by blast
  next
    case 4
    note e = assms(2) [unfolded 4]
    then have "page' = page" by (auto simp: http_wifi_connect_def Let_def obind_Inr wifi_finish_def split: if_splits)
    with inv [OF step_connect [OF e]] assms(4) show ?thesis by simp
  next
    case 5
    note e = assms(2) [unfolded 5]
    from inv [OF step_connect_status [OF e]] wifi_page_keeps(2) [OF assms(4,3) e] show ?thesis by blast
  qed
qed

lemma routes_keep:
  assumes "map_of (routes fuel net cy) k = Some f" "f (c, w, g) = Some (Inr (c', w', g'))" "globals_inv g"
  shows "globals_inv g'"
proof -
  have "(k, f) \<in> set (routes fuel net cy)" using assms(1) by (rule map_of_SomeD)
  then consider
      (pagers) h where "f = pager_callback h" "h \<in> {http_pagers_pair fuel net, http_pagers_remove fuel net, http_pagers_flash fuel net}"
    | (list) "f = list_callback (http_pagers_list fuel net)"
    | (wifi) h where "f = wifi_callback h" "h \<in> wifi_handlers fuel net cy"
    unfolding routes_def wifi_handlers_def by auto
  then show ?thesis
  proof cases
    case pagers
    show ?thesis
      by (rule pager_callback_keeps [OF _ assms(2) [unfolded pagers(1)] assms(3)])
        (use pagers(2) pair_keeps remove_keeps flash_keeps in blast)
  next
    case list
    with assms(2,3) show ?thesis by (simp add: list_callback_keeps)
  next
    case wifi
    show ?thesis
      by (rule wifi_callback_keeps [OF _ assms(2) [unfolded wifi(1)] assms(3)])
        (rule wifi_handlers_keep [OF wifi(2)])
  qed
qed

section \<open>Which requests are answered\<close>

text \<open>The requests whose handler faults: a parameter \<open>stoi\<close> throws on, and a flash of an id that is not
  registered.\<close>

definition not_a_number :: "http_client \<Rightarrow> string \<Rightarrow> bool" where
  "not_a_number c k \<longleftrightarrow> has_req_param c k \<and> isl (get_req_param_int c k)"

definition unregistered_id :: "PagerList \<Rightarrow> http_client \<Rightarrow> bool" where
  "unregistered_id pl c \<longleftrightarrow>
     (case get_req_param_int c ''id'' of Inl _ \<Rightarrow> False | Inr v \<Rightarrow> word_of_int v \<notin> set (pl_ids pl))"

definition request_faults :: "PagerList \<Rightarrow> string \<Rightarrow> http_client \<Rightarrow> bool" where
  "request_faults pl path c \<longleftrightarrow>
     path \<in> {''/pagers/pair'', ''/pagers/remove''} \<and> not_a_number c ''id'' \<or>
     path = ''/pagers/flash'' \<and> has_req_param c ''id'' \<and> has_req_param c ''time'' \<and>
       (not_a_number c ''id'' \<or> not_a_number c ''time'' \<or> unregistered_id pl c) \<or>
     path = ''/wifi/connect'' \<and> has_req_param c ''ssid'' \<and> has_req_param c ''password'' \<and> not_a_number c ''auth''"

definition returns :: "'a result option \<Rightarrow> bool" where
  "returns r \<longleftrightarrow> (\<exists>x. r = Some (Inr x))"

lemma returns_simps [simp]: "returns (Some (Inr x))" "\<not> returns (Some (Inl e))" "\<not> returns None"
  by (simp_all add: returns_def)

lemma answered_returns: "answered txt code code_str str cw r s \<Longrightarrow> returns r"
  by (auto simp: answered_def)

lemma get_pager_None: "get_pager d pl = None \<longleftrightarrow> d \<notin> set (pl_ids pl)"
  by (simp add: get_pager_find pager_exists_iff [symmetric] pager_exists_def)

lemma pager_requests_return:
  assumes "server_inv s" "net_takes net txt" "0 < fuel"
  shows "returns (http_pagers_pair fuel net (c, w) s) \<longleftrightarrow> \<not> not_a_number c ''id''"
    and "returns (http_pagers_remove fuel net (c, w) s) \<longleftrightarrow> \<not> not_a_number c ''id''"
    and "returns (http_pagers_flash fuel net (c, w) s) \<longleftrightarrow> \<not> request_faults (registry s) ''/pagers/flash'' c"
proof -
  note none = handlers_without_id [OF assms(2,3), of "(c, w)"]
  note bad = finish_answers(2) [OF assms(2,3) snd_buf_le, THEN answered_returns]
  have id: "returns (http_pagers_pair fuel net (c, w) s) = (\<not> not_a_number c ''id'') \<and>
      returns (http_pagers_remove fuel net (c, w) s) = (\<not> not_a_number c ''id'')"
  proof (cases "sm_find (request_params c) ''id''")
    case None
    with none(1) [of s] param_missing [OF None] answered_returns show ?thesis by (fastforce simp: not_a_number_def)
  next
    case (Some i)
    note par = param_found [OF Some]
    show ?thesis
    proof (cases "stoi i")
      case (Inl e)
      with none(2) [of i e s] Some par show ?thesis by (simp add: not_a_number_def)
    next
      case (Inr v)
      with pair_handler_total [OF assms, of "(c, w)" i v] remove_handler_total [OF assms, of "(c, w)" i v] Some par
      show ?thesis by (auto simp: not_a_number_def dest: answered_returns)
    qed
  qed
  then show "returns (http_pagers_pair fuel net (c, w) s) \<longleftrightarrow> \<not> not_a_number c ''id''"
    "returns (http_pagers_remove fuel net (c, w) s) \<longleftrightarrow> \<not> not_a_number c ''id''" by simp_all
  show "returns (http_pagers_flash fuel net (c, w) s) \<longleftrightarrow> \<not> request_faults (registry s) ''/pagers/flash'' c"
  proof (cases "has_req_param c ''id'' \<and> has_req_param c ''time''")
    case False
    then show ?thesis using bad [of _ "(c, w)" s]
      by (auto simp: http_pagers_flash_def request_faults_def Let_def)
  next
    case True
    then obtain i t where it: "sm_find (request_params c) ''id'' = Some i" "sm_find (request_params c) ''time'' = Some t"
      by (auto simp: has_req_param_def)
    note par = param_found [OF it(1)] param_found [OF it(2)]
    show ?thesis
    proof (cases "stoi i")
      case (Inl e)
      with par show ?thesis by (simp add: http_pagers_flash_def request_faults_def not_a_number_def)
    next
      case (Inr v)
      show ?thesis
      proof (cases "get_pager (word_of_int v) (registry s)")
        case None
        with par Inr show ?thesis
          by (simp add: http_pagers_flash_def heap_update_def heap_get_def request_faults_def unregistered_id_def
              get_pager_None [symmetric])
      next
        case (Some a)
        then have reg: "word_of_int v \<in> set (pl_ids (registry s))" using get_pager_None [of "word_of_int v" "registry s"] by simp
        from server_pager [OF assms(1) Some] obtain p where p: "a < length (heap_g s)" "heap_g s ! a = Some p" by blast
        show ?thesis
        proof (cases "stoi t")
          case (Inl e)
          with par \<open>stoi i = Inr v\<close> Some heap_update_Some [OF p] show ?thesis
            by (simp add: http_pagers_flash_def request_faults_def not_a_number_def)
        next
          case time: (Inr u)
          from flash_handler_value [OF assms(1), of "(c, w)" i v t u a p fuel net] it Inr time Some p(2)
            finish_answers(1) [OF assms(2,3) snd_buf_le, THEN answered_returns]
          show ?thesis using par reg by (simp add: request_faults_def not_a_number_def unregistered_id_def)
        qed
      qed
    qed
  qed
qed

lemma connect_returns:
  assumes "net_takes net txt" "0 < fuel"
  shows "returns (http_wifi_connect fuel net cy (c, w) (ws, page)) \<longleftrightarrow> \<not> request_faults pl ''/wifi/connect'' c"
proof -
  note ok = response_returns [OF assms snd_buf_le, of _ c w]
  have fin: "returns (wifi_finish (response_ok fuel net ''ok'' (c, w)) x)"
    "returns (wifi_finish (response_bad fuel net ''no ssid or password or auth given'' (c, w)) x)" for x
    using ok(1) [of "''ok''"] ok(2) [of "''no ssid or password or auth given''"] by (auto simp: wifi_finish_def)
  have par: "\<exists>v. get_req_param c k = Inr v" if "has_req_param c k" for k
    using that by (auto simp: has_req_param_def get_req_param_def sm_at_def split: option.splits)
  show ?thesis
  proof (cases "has_req_param c ''ssid'' \<and> has_req_param c ''password'' \<and> has_req_param c ''auth''")
    case True
    with par obtain ssid pwd where "get_req_param c ''ssid'' = Inr ssid" "get_req_param c ''password'' = Inr pwd" by blast
    with True show ?thesis
      by (cases "get_req_param_int c ''auth''") (simp_all add: http_wifi_connect_def request_faults_def not_a_number_def fin)
  next
    case False
    then show ?thesis by (auto simp: http_wifi_connect_def request_faults_def not_a_number_def Let_def fin)
  qed
qed

text \<open>Every route, on every request.\<close>

lemma callbacks_return:
  "returns (pager_callback h (c, w, g)) \<longleftrightarrow> returns (h (c, w) (srv g))"
  "returns (list_callback hl (c, w, g)) \<longleftrightarrow> returns (hl (c, w) (srv g, page_g g))"
  "returns (wifi_callback hw (c, w, g)) \<longleftrightarrow> returns (hw (c, w) (wifi_g g, page_g g))"
  by (auto simp: pager_callback_def list_callback_def wifi_callback_def returns_def obind_Inr)

lemma routes_return:
  assumes "net_takes net txt" "0 < fuel" "response_headers c = []" "globals_inv g"
    and "\<forall>m. scan_open (wifi_g g) m \<longrightarrow> length m \<le> 45"
    and "length (sta_address cy w) \<le> 15" "NUL \<notin> set (sta_address cy w)"
    and "map_of (routes fuel net cy) (mth, path) = Some f"
  shows "returns (f (c, w, g)) \<longleftrightarrow> \<not> request_faults (registry (srv g)) path c"
proof -
  have g: "server_inv (srv g)" "page_ok (page_g g)" "wifi_inv (wifi_g g)" using assms(4) by (simp_all add: globals_inv_def)
  note pagers = pager_requests_return [OF g(1) assms(1,2)]
  note list = pagers_list_sends [OF assms(1-3) g(1,2), of w]
  note wifi = wifi_requests_answer [OF assms(1-3) g(2,3) assms(5-7)]
  have w: "returns (http_wifi_scan_start fuel net (c, w) (wifi_g g, page_g g))"
    "returns (http_wifi_scan_results fuel net cy (c, w) (wifi_g g, page_g g))"
    "returns (http_wifi_scan_status fuel net cy (c, w) (wifi_g g, page_g g))"
    "returns (http_wifi_connect_status fuel net cy (c, w) (wifi_g g, page_g g))"
    "returns (http_pagers_list fuel net (c, w) (srv g, page_g g))"
    unfolding returns_def using wifi list by blast+
  have "((mth, path), f) \<in> set (routes fuel net cy)" using assms(8) by (rule map_of_SomeD)
  then show ?thesis
    unfolding routes_def
    by (auto simp: callbacks_return pagers w connect_returns [OF assms(1,2), of cy c w _ _ "registry (srv g)"])
      (simp_all add: request_faults_def)
qed

text \<open>A callback of lwIP that carries no data faults exactly when its argument is an object already deleted.\<close>

definition arg_alive :: "tcp_client heap \<Rightarrow> nat option \<Rightarrow> bool" where
  "arg_alive heap arg \<longleftrightarrow> arg = None \<or> \<not> isl (heap_get heap arg)"

lemma callbacks_fault:
  "isl (tcp_server_sent ans arg pcb len heap) \<longleftrightarrow> \<not> arg_alive heap arg"
  "isl (tcp_client_err ans arg err heap) \<longleftrightarrow> err \<noteq> ERR_ABRT \<and> \<not> arg_alive heap arg"
  "returns (tcp_client_recv fuel ans arg pcb None err heap) \<longleftrightarrow> arg_alive heap arg"
proof -
  have close: "isl (tcp_close_client_connection ans pcb arg e heap) \<longleftrightarrow> \<not> arg_alive heap arg" for pcb e heap
    by (cases arg; cases "heap_get heap arg")
      (auto simp: tcp_close_client_connection_def arg_alive_def Let_def case_prod_beta heap_delete_def heap_get_def split: option.splits if_splits)
  show "isl (tcp_server_sent ans arg pcb len heap) \<longleftrightarrow> \<not> arg_alive heap arg"
  proof (cases arg)
    case (Some a)
    show ?thesis
    proof (cases "heap_get heap arg")
      case (Inl e)
      then show ?thesis by (simp add: tcp_server_sent_def Some arg_alive_def heap_update_def)
    next
      case (Inr c)
      let ?heap = "heap[a := Some (send_ack (uint len) c)]"
      have a: "a < length heap" "heap ! a = Some c" using Inr by (simp_all add: Some heap_get_Some)
      have up: "heap_update arg (send_ack (uint len)) heap = Inr ?heap" by (simp add: Some heap_update_Some [OF a])
      have get: "heap_get ?heap arg = Inr (send_ack (uint len) c)" using a by (simp add: Some heap_get_Some)
      then have "\<not> isl (tcp_close_client_connection ans (Some pcb) arg 0 ?heap)" by (simp add: close arg_alive_def)
      then obtain x where "tcp_close_client_connection ans (Some pcb) arg 0 ?heap = Inr x"
        by (cases "tcp_close_client_connection ans (Some pcb) arg 0 ?heap") auto
      then show ?thesis using up get Inr
        by (simp add: tcp_server_sent_def Some arg_alive_def case_prod_beta)
    qed
  qed (simp add: tcp_server_sent_def arg_alive_def)
  show "isl (tcp_client_err ans arg err heap) \<longleftrightarrow> err \<noteq> ERR_ABRT \<and> \<not> arg_alive heap arg"
    using close [of None err heap] by (cases "tcp_close_client_connection ans None arg err heap")
      (simp_all add: tcp_client_err_def case_prod_beta)
  show "returns (tcp_client_recv fuel ans arg pcb None err heap) \<longleftrightarrow> arg_alive heap arg"
    using close [of "Some pcb" err heap] by (cases "tcp_close_client_connection ans (Some pcb) arg err heap")
      (simp_all add: tcp_client_recv_def case_prod_beta)
qed

section \<open>The server after its boot\<close>

record 'w running =
  web_s :: "'w machine http_server"
  outside_s :: 'w
  vars_s :: globals
  dhcp_s :: dhcp_server

text \<open>What can happen between two instructions of \<open>main\<close>'s loop, and a round of it. The
  uninitialised memory a callback finds (\<open>mem\<close>, \<open>junk\<close>, \<open>frame\<close>) and lwIP's answers are any. Every
  rule asks for a result \<open>Inr\<close>: the relation has the steps that do not fault.\<close>

inductive server_step ::
    "nat \<Rightarrow> 'p lwip \<Rightarrow> 'w cyw43 \<Rightarrow> 'w lfs \<Rightarrow> ('w machine \<Rightarrow> int) \<Rightarrow> 'w net \<Rightarrow> 'w running \<Rightarrow> 'w running \<Rightarrow> bool"
  for fuel L cy fs fsize net where
  step_accept: "tcp_server_accept mem pcb err (web_s r) = (res, calls, http) \<Longrightarrow>
    server_step fuel L cy fs fsize net r (r\<lparr>web_s := http\<rparr>)"
| step_packet: "tcp_client_recv fuel ans arg pcb p err (client_heap (web_s r)) = Some (Inr (res, calls, heap)) \<Longrightarrow>
    server_step fuel L cy fs fsize net r (r\<lparr>web_s := (web_s r)\<lparr>client_heap := heap\<rparr>\<rparr>)"
| step_sent: "tcp_server_sent ans arg pcb len (client_heap (web_s r)) = Inr (res, calls, heap) \<Longrightarrow>
    server_step fuel L cy fs fsize net r (r\<lparr>web_s := (web_s r)\<lparr>client_heap := heap\<rparr>\<rparr>)"
| step_error: "tcp_client_err ans arg err (client_heap (web_s r)) = Inr (calls, heap) \<Longrightarrow>
    server_step fuel L cy fs fsize net r (r\<lparr>web_s := (web_s r)\<lparr>client_heap := heap\<rparr>\<rparr>)"
| step_network: "list_all terminated_ssid (case res of None \<Rightarrow> [] | Some n \<Rightarrow> [n]) \<Longrightarrow>
    scan_result res (wifi_g (vars_s r)) = Inr ws \<Longrightarrow>
    server_step fuel L cy fs fsize net r (r\<lparr>vars_s := (vars_s r)\<lparr>wifi_g := ws\<rparr>\<rparr>)"
| step_lease: "length junk = MSG_SIZE \<Longrightarrow> dhcp_udp (dhcp_s r) = Some u \<Longrightarrow>
    dhcp_server_process L nans ticks (dhcp_s r) junk packet = Inr (ucalls, d) \<Longrightarrow>
    server_step fuel L cy fs fsize net r (r\<lparr>dhcp_s := d\<rparr>)"
| step_wrap: "pwm_wrap_irq pending (tx_g (srv (vars_s r))) = Inr (acts, tx) \<Longrightarrow>
    server_step fuel L cy fs fsize net r (r\<lparr>vars_s := (vars_s r)\<lparr>srv := (srv (vars_s r))\<lparr>tx_g := tx\<rparr>\<rparr>\<rparr>)"
| step_round: "frame_wf frame \<Longrightarrow>
    main_round fuel cy fs fsize net frame (web_s r, outside_s r, vars_s r) = Some (Inr (acts, http, w, g)) \<Longrightarrow>
    server_step fuel L cy fs fsize net r (r\<lparr>web_s := http, outside_s := w, vars_s := g\<rparr>)"
| step_world: "server_step fuel L cy fs fsize net r (r\<lparr>outside_s := w\<rparr>)"

text \<open>A boot that reaches the loop, from any disk whose file names no pager twice.\<close>

inductive server_reachable ::
    "nat \<Rightarrow> 'p lwip \<Rightarrow> 'w cyw43 \<Rightarrow> 'w lfs \<Rightarrow> ('w machine \<Rightarrow> int) \<Rightarrow> 'w net \<Rightarrow> 'w running \<Rightarrow> bool"
  for fuel L cy fs fsize net where
  server_boot: "main_boot fuel board cy fs net stack w0 = Some (Inr (Running dhcp dns http (w, g))) \<Longrightarrow>
    no_leak (heap_g (srv g)) (registry (srv g)) \<Longrightarrow>
    server_reachable fuel L cy fs fsize net \<lparr>web_s = http, outside_s = w, vars_s = g, dhcp_s = dhcp\<rparr>"
| server_next: "server_reachable fuel L cy fs fsize net r \<Longrightarrow> server_step fuel L cy fs fsize net r r' \<Longrightarrow>
    server_reachable fuel L cy fs fsize net r'"

definition web_ok :: "nat \<Rightarrow> 'w net \<Rightarrow> 'w cyw43 \<Rightarrow> 'w machine http_server \<Rightarrow> bool" where
  "web_ok fuel net cy s \<longleftrightarrow> distinct (client_vect s) \<and> (\<forall>a\<in>set (client_vect s). a < length (client_heap s)) \<and>
     (\<forall>k. sm_find (paths s) k = map_of (routes fuel net cy) k)"

definition running_inv :: "nat \<Rightarrow> 'w net \<Rightarrow> 'w cyw43 \<Rightarrow> 'w running \<Rightarrow> bool" where
  "running_inv fuel net cy r \<longleftrightarrow> globals_inv (vars_s r) \<and> dhcp_ok (dhcp_s r) \<and> web_ok fuel net cy (web_s r)"

section \<open>The boot\<close>

lemma distinct_sm_put:
  "distinct (map snd m) \<Longrightarrow> v \<notin> snd ` set m \<Longrightarrow> distinct (map snd (sm_put k v m))"
proof (induction k v m rule: sm_put.induct)
  case (2 k v k' v' m)
  have "snd ` set (sm_put k v m) \<subseteq> insert v (snd ` set m)"
    by (induction k v m rule: sm_put.induct) auto
  with 2 show ?case by auto
qed simp

lemma new_pager_inv: "pager_inv (new_Pager dev)"
  by (simp add: pager_inv_def new_Pager_def any_flash_msgs_left_def)

lemma load_loop_keeps:
  "load_loop fuel fs m h w = Some (Inr (m', h', w')) \<Longrightarrow> sm_ok m \<and> distinct (map snd m) \<and> list_all (live_pager h) m \<and> heap_inv h \<Longrightarrow>
     sm_ok m' \<and> distinct (map snd m') \<and> list_all (live_pager h') m' \<and> heap_inv h'"
proof (induction fuel arbitrary: m h w)
  case (Suc fuel)
  obtain n buf w1 where r: "lfs_file_read fs 5 w = (n, buf, w1)" by (metis prod.collapse)
  show ?case
  proof (cases "n < 5")
    case True
    with Suc.prems show ?thesis by (auto simp: r split: if_splits)
  next
    case False
    with Suc.prems(1) obtain v where
      v: "load_loop fuel fs (sm_put (word_of_int v) (length h) m) (h @ [Some (new_Pager (word_of_int v))]) w1 = Some (Inr (m', h', w'))"
      by (auto simp: r heap_new_def split: option.splits)
    let ?m = "sm_put (word_of_int v) (length h) m" let ?h = "h @ [Some (new_Pager (word_of_int v))]"
    have fresh: "length h \<notin> snd ` set m" using Suc.prems(2) by (auto simp: list_all_iff live_pager_def)
    have "live_pager ?h (word_of_int v, length h)" by (simp add: live_pager_def new_Pager_def)
    moreover have "list_all (live_pager ?h) m" using Suc.prems(2) by (auto simp: list_all_iff intro: live_pager_append)
    moreover have "list_all P (sm_put k a m)" if "list_all P m" "P (k, a)" for P k a
      using that by (induction k a m rule: sm_put.induct) auto
    ultimately have "list_all (live_pager ?h) ?m" by blast
    moreover have "heap_inv ?h" using Suc.prems(2) by (simp add: heap_inv_def new_pager_inv)
    moreover have "distinct (map snd ?m)" "sm_ok ?m"
      using Suc.prems(2) distinct_sm_put [OF _ fresh] by (simp_all add: sm_put_ok)
    ultimately show ?thesis by (intro Suc.IH [OF v] conjI)
  qed
qed simp

lemma read_line_short: "read_line fuel fs cap w = Some (Inr (line, w')) \<Longrightarrow> length line < cap"
proof -
  have "read_line_loop fuel fs cap chr l w = Some (Inr (line, w')) \<Longrightarrow> length line < cap" for chr l w
  proof (induction fuel arbitrary: chr l w)
    case (Suc fuel)
    obtain n buf w1 where r: "lfs_file_read fs 1 w = (n, buf, w1)" by (metis prod.collapse)
    let ?chr = "if 1 \<le> n then Some (hd buf) else chr"
    from Suc.prems obtain c where c: "?chr = Some c" by (cases ?chr) (simp_all add: r [simplified] Let_def)
    then show ?case using Suc.prems Suc.IH [of "Some c" "l @ [c]" w1]
      by (auto simp: r [simplified] Let_def split: if_splits)
  qed simp
  then show "read_line fuel fs cap w = Some (Inr (line, w')) \<Longrightarrow> length line < cap" by (simp add: read_line_def)
qed

lemma boot_wifi_inv:
  assumes "boot_wifi fuel cy fs (ws, w) = Some (Inr (ws', w'))" "wifi_inv ws"
  shows "wifi_inv ws'"
proof -
  from assms(1) obtain x w1 where 1: "wifi_read fuel fs (connect_auth_g ws) w = Some (Inr (x, w1))"
    "(case x of None \<Rightarrow> Some (Inr (ws, enable_ap_mode cy ''pagers-server'' ''password'' (AUTH_WPA2_AES_PSK cy) w1))
      | Some (ssid, pwd, auth) \<Rightarrow> Some (do_wifi_connect False cy fs
          (ws\<lparr>connect_ssid_g := store_line ssid (connect_ssid_g ws),
            connect_pw_g := store_line pwd (connect_pw_g ws), connect_auth_g := auth\<rparr>, w1))) = Some (Inr (ws', w'))"
    by (auto simp: boot_wifi_def obind_Inr)
  show ?thesis
  proof (cases x)
    case None
    with 1(2) assms(2) show ?thesis by simp
  next
    case (Some line)
    obtain ssid pwd auth where line: "line = (ssid, pwd, auth)" by (metis prod.collapse)
    have "length ssid < SSID_SIZE" "length pwd < PW_SIZE"
      using 1(1) by (auto simp: wifi_read_def obind_Inr Some line Let_def split: prod.splits if_splits dest: read_line_short)
    then show ?thesis
      using 1(2) assms(2) by (auto simp: Some line wifi_inv_def scan_open_def store_line_def dest!: do_wifi_connect_state)
  qed
qed

lemma http_start_clients: "http_start ans port new_http_server = (b, calls, s) \<Longrightarrow> client_vect s = []"
  by (auto simp: http_start_def new_http_server_def split: option.splits if_splits)

lemma server_setup_ok: "web_ok fuel net cy (snd (server_setup ans fuel net cy))"
proof -
  obtain b calls s where st: "http_start ans 80 (new_http_server :: 'a machine http_server) = (b, calls, s)"
    by (metis prod.collapse)
  have "client_vect (snd (server_setup ans fuel net cy)) = []"
    using http_start_clients [OF st] by (simp add: server_setup_def st on_routes_keep static_content_def)
  then show ?thesis using server_setup_paths [of ans fuel net cy] by (simp add: web_ok_def)
qed

lemma load_fs_keeps:
  assumes "load_fs fuel fs (registry server_init) (heap_g server_init) w = Some (Inr (pl, h, w'))"
  shows "pl_inv h pl" "heap_inv h"
proof -
  have start: "pagers (registry server_init) = []" "heap_g server_init = []"
    by (simp_all add: server_init_def new_PagerList_def)
  have empty: "sm_ok ([] :: (u16, nat) std_map) \<and> distinct (map snd ([] :: (u16, nat) std_map)) \<and>
      list_all (live_pager []) ([] :: (u16, nat) std_map) \<and> heap_inv []" by (simp add: heap_inv_def)
  obtain n w1 where o: "lfs_file_open fs (pl_path (registry server_init)) RDONLY w = (n, w1)" by fastforce
  have "sm_ok (pagers pl) \<and> distinct (map snd (pagers pl)) \<and> list_all (live_pager h) (pagers pl) \<and> heap_inv h"
  proof (cases "n < 0")
    case True
    with assms start empty show ?thesis by (simp add: load_fs_def o)
  next
    case False
    with assms obtain m w2 where "load_loop fuel fs [] [] w1 = Some (Inr (m, h, w2))" "pagers pl = m"
      by (auto simp: load_fs_def o start rbind_Inr)
    with load_loop_keeps [OF this(1) empty] show ?thesis by simp
  qed
  then show "pl_inv h pl" "heap_inv h" by (simp_all add: pl_inv_def)
qed

lemma boot_inv:
  assumes "main_boot fuel board cy fs net stack w0 = Some (Inr (Running dhcp dns http (w, g)))"
    and "no_leak (heap_g (srv g)) (registry (srv g))"
  shows "running_inv fuel net cy \<lparr>web_s = http, outside_s = w, vars_s = g, dhcp_s = dhcp\<rparr>"
proof -
  obtain n w1 where m: "lfs_mount board w0 = (n, w1)" by fastforce
  from assms(1) obtain pl h w2 where
    L: "load_fs fuel fs (registry server_init) (heap_g server_init) w1 = Some (Inr (pl, h, w2))"
    by (auto simp: main_boot_def m Let_def obind_Inr split: if_splits)
  obtain e w3 where c: "cyw43_arch_init board w2 = (e, w3)" by fastforce
  from assms(1) obtain ws where
    B: "boot_wifi fuel cy fs (wifi_init, w3) = Some (Inr (ws, w))"
      "g = globals_init\<lparr>srv := server_init\<lparr>registry := pl, heap_g := h\<rparr>, wifi_g := ws\<rparr>"
      "http = snd (server_setup (http_answers board) fuel net cy)"
      "\<exists>ip nm. dhcp = snd (dhcp_server_init (udp_answers board) ip nm)"
    by (auto simp: main_boot_def m L c Let_def obind_Inr case_prod_beta split: if_splits)
  have "server_inv (srv g)"
    using assms(2) load_fs_keeps [OF L] server_inv_init by (simp add: B(2) server_inv_def)
  moreover have "wifi_inv (wifi_g g)" using boot_wifi_inv [OF B(1) wifi_inv_init] by (simp add: B(2))
  moreover have "page_ok (page_g g)" by (simp add: B(2) globals_init_def page_ok_init)
  ultimately show ?thesis using B(4) by (auto simp: running_inv_def globals_inv_def B(3) server_setup_ok dhcp_init_ok)
qed

section \<open>The steps\<close>

lemma heap_delete_length: "heap_delete p h = Inr h' \<Longrightarrow> length h' = length h"
  by (auto simp: heap_delete_def rbind_Inr split: option.splits)

lemma close_length: "tcp_close_client_connection ans pcb client err heap = Inr (e, calls, heap') \<Longrightarrow> length heap' = length heap"
  by (auto simp: tcp_close_client_connection_def Let_def rbind_Inr case_prod_beta split: option.splits dest: heap_delete_length)

lemma callbacks_length:
  "tcp_client_recv fuel ans arg pcb p err heap = Some (Inr (res, calls, heap')) \<Longrightarrow> length heap' = length heap"
  "tcp_server_sent ans arg pcb len heap = Inr (res, calls, heap') \<Longrightarrow> length heap' = length heap"
  "tcp_client_err ans arg err heap = Inr (calls, heap') \<Longrightarrow> length heap' = length heap"
  by (auto simp: tcp_client_recv_def tcp_server_sent_def tcp_client_err_def heap_update_def obind_Inr rbind_Inr
      split: option.splits if_splits dest!: close_length)

lemma web_ok_heap: "web_ok fuel net cy s \<Longrightarrow> length heap = length (client_heap s) \<Longrightarrow> web_ok fuel net cy (s\<lparr>client_heap := heap\<rparr>)"
  by (simp add: web_ok_def)

lemma accept_ok:
  "tcp_server_accept mem pcb err s = (res, calls, s') \<Longrightarrow> web_ok fuel net cy s \<Longrightarrow> web_ok fuel net cy s'"
  by (auto simp: tcp_server_accept_def new_client_def heap_new_def web_ok_def split: option.splits if_splits
      intro!: less_SucI)

lemma loop_clients_list:
  "loop_clients fuel fs fsize net s as (heap, w) = Some (Inr (vect, heap', w')) \<Longrightarrow>
     set vect \<subseteq> set as \<and> (distinct as \<longrightarrow> distinct vect) \<and> length heap' = length heap"
proof (induction as arbitrary: heap w vect)
  case (Cons a as)
  from Cons.prems obtain c where c: "heap_get heap (Some a) = Inr c" by (auto simp: obind_Inr)
  show ?case
  proof (cases "request_ready (conn_client (tc_conn c))")
    case True
    with Cons.prems c obtain h w1 where
      "loop_clients fuel fs fsize net s as (heap[a := Some (c\<lparr>tc_conn := h\<rparr>)], w1) = Some (Inr (vect, heap', w'))"
      by (auto simp: obind_Inr)
    from Cons.IH [OF this] show ?thesis by auto
  next
    case False
    with Cons.prems c obtain vect1 where
      "loop_clients fuel fs fsize net s as (heap, w) = Some (Inr (vect1, heap', w'))" "vect = a # vect1"
      by (auto simp: obind_Inr)
    from Cons.IH [OF this(1)] this(2) show ?thesis by auto
  qed
qed simp

lemma http_loop_ok:
  assumes "http_loop fuel fs fsize net0 (s, x) = Some (Inr (s', x'))" "web_ok fuel net cy s"
  shows "web_ok fuel net cy s'"
proof -
  from assms(1) obtain vect heap where
    1: "loop_clients fuel fs fsize net0 s (client_vect s) (client_heap s, x) = Some (Inr (vect, heap, x'))"
      "s' = s\<lparr>client_vect := vect, client_heap := heap\<rparr>" by (auto simp: http_loop_def obind_Inr)
  from loop_clients_list [OF 1(1)] assms(2) show ?thesis by (auto simp: web_ok_def 1(2))
qed

lemma http_loop_keeps:
  assumes "http_loop fuel (machine_fs fs) fsize (machine_net net) (s, w, g) = Some (Inr (s', w', g'))"
    and "web_ok fuel net cy s" "globals_inv g"
  shows "globals_inv g'"
proof -
  from assms(1) obtain vect heap where
    1: "loop_clients fuel (machine_fs fs) fsize (machine_net net) s (client_vect s) (client_heap s, w, g) =
        Some (Inr (vect, heap, w', g'))" by (auto simp: http_loop_def obind_Inr)
  have "case (w', g') of (w, g) \<Rightarrow> globals_inv g"
    by (rule machine.loop_clients_good [OF _ 1])
      (use assms(2,3) routes_keep in \<open>auto simp: web_ok_def\<close>)
  then show ?thesis by simp
qed

lemma poll_keeps:
  "poll_wifi_scan cy (ws, w) = (ws', w') \<Longrightarrow> wifi_inv ws \<Longrightarrow> wifi_inv ws'"
  "poll_wifi_connect cy fs (ws, w) = Inr (ws', w') \<Longrightarrow> wifi_inv ws \<Longrightarrow> wifi_inv ws'"
  by (erule wifi_step_inv [OF step_poll_scan] wifi_step_inv [OF step_poll_connect]; assumption)+

lemma pl_loop_keeps:
  assumes "pl_loop fs (heap_g s) (registry s) w = Inr (pl, w')" "server_inv s"
  shows "server_inv (s\<lparr>registry := pl\<rparr>)"
proof -
  have "pagers pl = pagers (registry s)"
    using assms(1) by (auto simp: pl_loop_def rbind_Inr split: if_splits)
  then show ?thesis using assms(2) by (simp add: server_inv_def pl_inv_def no_leak_def)
qed

lemma round_keeps:
  assumes "main_round fuel cy fs fsize net frame (s, w, g) = Some (Inr (acts, s', w', g'))" "frame_wf frame"
    and "globals_inv g" "web_ok fuel net cy s"
  shows "globals_inv g' \<and> web_ok fuel net cy s'"
proof -
  obtain ws1 w1 where p: "poll_wifi_scan cy (wifi_g g, w) = (ws1, w1)" by fastforce
  from assms(1) obtain ws2 w2 s2 g3 w3 pl where
    1: "poll_wifi_connect cy fs (ws1, w1) = Inr (ws2, w2)" "send_messages fuel frame (srv g) = Some (Inr (acts, s2))"
      "http_loop fuel (machine_fs fs) fsize (machine_net net) (s, w2, g\<lparr>wifi_g := ws2, srv := s2\<rparr>) = Some (Inr (s', w3, g3))"
      "pl_loop fs (heap_g (srv g3)) (registry (srv g3)) w3 = Inr (pl, w')" "g' = g3\<lparr>srv := (srv g3)\<lparr>registry := pl\<rparr>\<rparr>"
    by (auto simp: main_round_def p obind_Inr)
  have "globals_inv (g\<lparr>wifi_g := ws2, srv := s2\<rparr>)"
    using assms(3) send_messages_keeps [OF _ assms(2) 1(2)] poll_keeps(1) [OF p] poll_keeps(2) [OF 1(1)]
    by (simp add: globals_inv_def)
  from http_loop_keeps [OF 1(3) assms(4) this] pl_loop_keeps [OF 1(4)] http_loop_ok [OF 1(3) assms(4)]
  show ?thesis by (simp add: globals_inv_def 1(5))
qed

lemma server_step_inv:
  assumes "server_step fuel L cy fs fsize net r r'" "lwip_ok L" "running_inv fuel net cy r"
  shows "running_inv fuel net cy r'"
  using assms
proof (induction rule: server_step.induct)
  case (step_network res r ws)
  then have "wifi_inv ws"
    using wifi_step_inv [OF step_found [OF step_network(1,2)]] by (simp add: running_inv_def globals_inv_def)
  with step_network(4) show ?case by (simp add: running_inv_def globals_inv_def)
next
  case (step_wrap pending r acts tx)
  then have "tx_inv tx" using tx_inv_irq [of "tx_g (srv (vars_s r))" pending]
    by (auto simp: running_inv_def globals_inv_def server_inv_def)
  with step_wrap(3) show ?case by (simp add: running_inv_def globals_inv_def server_inv_def)
next
  case (step_round frame r acts http w g)
  then show ?case using round_keeps [OF step_round(2,1)] by (simp add: running_inv_def)
qed (auto simp: running_inv_def intro: accept_ok web_ok_heap callbacks_length dhcp_process_keeps(1))

lemma server_reachable_inv:
  assumes "server_reachable fuel L cy fs fsize net r" "lwip_ok L"
  shows "running_inv fuel net cy r"
  using assms by (induction rule: server_reachable.induct) (auto intro: boot_inv server_step_inv)

section \<open>Property\<close>

lemma waiting_round:
  assumes "server_inv (srv g)" "frame_wf frame" "1025 \<le> fuel" "list_all (waiting (client_heap s)) (client_vect s)"
    and "\<not> wifi_scan_g (wifi_g g)" "\<not> wifi_connect_g (wifi_g g)" "\<not> update_fs_required (registry (srv g))"
  shows "\<exists>acts s'. main_round fuel cy fs fsize net frame (s, w, g) = Some (Inr (acts, s, w, g\<lparr>srv := s'\<rparr>)) \<and>
     queued (round_messages (srv g)) (map (map_option pager_sent) (heap_g (srv g))) (srv g) acts s'"
proof -
  from send_messages_queues [OF assms(1,2)] obtain acts s' where
    1: "send_messages 1025 frame (srv g) = Some (Inr (acts, s'))"
      "queued (round_messages (srv g)) (map (map_option pager_sent) (heap_g (srv g))) (srv g) acts s'" by blast
  then have 2: "send_messages fuel frame (srv g) = Some (Inr (acts, s'))"
    using send_to_all_mono [OF assms(3)] by (simp add: send_messages_def)
  have "http_loop fuel (machine_fs fs) fsize (machine_net net) (s, w, g\<lparr>srv := s'\<rparr>) = Some (Inr (s, w, g\<lparr>srv := s'\<rparr>))"
    using assms(4) by (simp add: http_loop_def loop_clients_waiting)
  from round_idle [OF assms(5,6) 2 this] assms(7) queued_heap(2) [OF 1(2)] 1(2) show ?thesis by auto
qed

lemma dhcp_returns:
  assumes "lwip_ok L" "length junk = MSG_SIZE" "dhcp_ok d" "dhcp_udp d = Some u"
    and "reads_inside (dhcp_msg_of L junk p) DHCP_OPT_MSG_TYPE 2" "reads_inside (dhcp_msg_of L junk p) DHCP_OPT_REQUESTED_IP 5"
  shows "\<exists>x. dhcp_server_process L ans ticks d junk p = Inr x"
proof -
  from decide_returns [OF assms(5,6)] obtain r where "decide ticks d (dhcp_msg_of L junk p) = Inr r" by blast
  then show ?thesis unfolding dhcp_process_decide(1) [OF assms(1-4)] by (simp add: case_prod_beta)
qed

text \<open>C3. The server stays in order, in every run without a fault. A run is a boot that reaches the
  loop, from a disk whose file names no pager twice, and then any steps of \<open>server_step\<close> in any order;
  a step that faults is not one of them. In every state that is reached so, the registry, the WiFi
  state, the shared document and its buffer, the lease table, the list of clients and the table of
  routes have their invariants, and it is said which events fault there. The interrupt never does,
  nor does a scan result with a terminated name. A DHCP message is processed if the reads of the two
  options stay inside it. An acknowledgement faults exactly when lwIP still holds a pointer to a deleted
  connection, an error or a closing packet likewise (a packet with data is not characterised here).
  A request on any route is answered, the list with its listing, except exactly those of \<open>request_faults\<close>:
  a parameter that is no number, and a flash of an id that is not registered; this for at most 45
  networks in an open scan and a station address of at most 15 characters. A round of the loop with every
  client waiting, no flag of the WiFi requests set and no write of the registry due returns, and has
  put on the air exactly the messages that wait.\<close>

theorem server_stays_in_order:
  assumes "server_reachable fuel L cy fs fsize net r" "lwip_ok L" "net_takes net txt" "1025 \<le> fuel"
    and "frame_wf frame" "response_headers c = []"
    and "\<forall>m. scan_open (wifi_g (vars_s r)) m \<longrightarrow> length m \<le> 45"
    and "length (sta_address cy w) \<le> 15" "NUL \<notin> set (sta_address cy w)"
  defines "s \<equiv> srv (vars_s r)" and "ws \<equiv> wifi_g (vars_s r)" and "page \<equiv> page_g (vars_s r)"
    and "heap \<equiv> client_heap (web_s r)"
  shows "running_inv fuel net cy r \<and>
     (\<forall>pending. \<exists>acts tx. pwm_wrap_irq pending (tx_g s) = Inr (acts, tx)) \<and>
     (\<forall>n. terminated_ssid n \<longrightarrow> (\<exists>ws'. scan_result (Some n) ws = Inr ws')) \<and>
     (\<forall>ans ticks junk u p. length junk = MSG_SIZE \<longrightarrow> dhcp_udp (dhcp_s r) = Some u \<longrightarrow>
        reads_inside (dhcp_msg_of L junk p) DHCP_OPT_MSG_TYPE 2 \<longrightarrow>
        reads_inside (dhcp_msg_of L junk p) DHCP_OPT_REQUESTED_IP 5 \<longrightarrow>
        (\<exists>x. dhcp_server_process L ans ticks (dhcp_s r) junk p = Inr x)) \<and>
     (\<forall>ans arg pcb len. isl (tcp_server_sent ans arg pcb len heap) \<longleftrightarrow> \<not> arg_alive heap arg) \<and>
     (\<forall>ans arg err. isl (tcp_client_err ans arg err heap) \<longleftrightarrow> err \<noteq> ERR_ABRT \<and> \<not> arg_alive heap arg) \<and>
     (\<forall>ans arg pcb err. returns (tcp_client_recv fuel ans arg pcb None err heap) \<longleftrightarrow> arg_alive heap arg) \<and>
     (\<forall>mth path f. sm_find (paths (web_s r)) (mth, path) = Some f \<longrightarrow>
        returns (f (c, w, vars_s r)) = (\<not> request_faults (registry s) path c)) \<and>
     (\<exists>c' w' page' m. http_pagers_list fuel net (c, w) (s, page) = Some (Inr ((c', w'), s, page')) \<and>
        txt w' = txt w @ json_answer (json_text (listing (pl_size (registry s)) (take m (pl_ids (registry s)))))) \<and>
     (list_all (waiting heap) (client_vect (web_s r)) \<longrightarrow>
      \<not> wifi_scan_g ws \<longrightarrow> \<not> wifi_connect_g ws \<longrightarrow> \<not> update_fs_required (registry s) \<longrightarrow>
      (\<exists>acts s'. main_round fuel cy fs fsize net frame (web_s r, w, vars_s r) =
           Some (Inr (acts, web_s r, w, (vars_s r)\<lparr>srv := s'\<rparr>)) \<and>
         queued (round_messages s) (map (map_option pager_sent) (heap_g s)) s acts s'))"
proof -
  have inv: "running_inv fuel net cy r" by (rule server_reachable_inv [OF assms(1,2)])
  then have g: "server_inv s" "wifi_inv ws" "page_ok page"
    by (simp_all add: running_inv_def globals_inv_def s_def ws_def page_def)
  have fuel: "0 < fuel" using assms(4) by simp
  have tx: "\<exists>acts tx. pwm_wrap_irq pending (tx_g s) = Inr (acts, tx)" for pending
    using tx_inv_irq [of "tx_g s" pending] g(1) by (auto simp: server_inv_def)
  have dhcp: "dhcp_ok (dhcp_s r)" using inv by (simp add: running_inv_def)
  have route: "returns (f (c, w, vars_s r)) = (\<not> request_faults (registry s) path c)"
    if "sm_find (paths (web_s r)) (mth, path) = Some f" for mth path f
    using routes_return [OF assms(3) fuel assms(6) _ assms(7-9)] inv that
    by (simp add: running_inv_def web_ok_def s_def)
  note wifi = wifi_requests_answer [OF assms(3) fuel assms(6) g(3,2) assms(7) [folded ws_def] assms(8,9)]
  note round = waiting_round [OF g(1) [unfolded s_def] assms(5,4), where s = "web_s r" and w = w,
      folded s_def ws_def heap_def]
  have list: "\<exists>c' w' page' m. http_pagers_list fuel net (c, w) (s, page) = Some (Inr ((c', w'), s, page')) \<and>
        txt w' = txt w @ json_answer (json_text (listing (pl_size (registry s)) (take m (pl_ids (registry s)))))"
    using pagers_list_sends [OF assms(3) fuel assms(6) g(1,3), of w] by blast
  show ?thesis
  proof (intro conjI)
    show "\<forall>n. terminated_ssid n \<longrightarrow> (\<exists>ws'. scan_result (Some n) ws = Inr ws')" using wifi by blast
    show "\<forall>ans ticks junk u p. length junk = MSG_SIZE \<longrightarrow> dhcp_udp (dhcp_s r) = Some u \<longrightarrow>
        reads_inside (dhcp_msg_of L junk p) DHCP_OPT_MSG_TYPE 2 \<longrightarrow>
        reads_inside (dhcp_msg_of L junk p) DHCP_OPT_REQUESTED_IP 5 \<longrightarrow>
        (\<exists>x. dhcp_server_process L ans ticks (dhcp_s r) junk p = Inr x)"
      using dhcp_returns [OF assms(2) _ dhcp] by blast
  qed (use inv tx route list round callbacks_fault in auto)
qed

lemma first_boot:
  "\<exists>dhcp dns g. main_boot 1025 steady_board idle_cyw43 no_disk log_net stack [] =
       Some (Inr (Running dhcp dns (snd (server_setup quiet_tcp 1025 log_net idle_cyw43)) ([], g))) \<and>
     srv g = server_init \<and> wifi_g g = wifi_init"
proof -
  obtain c1 dhcp where d: "dhcp_server_init (udp_answers steady_board) (IP4_ADDR steady_board 192 168 4 1)
      (IP4_ADDR steady_board 255 255 255 0) = (c1, dhcp)" by fastforce
  obtain c2 dns where n: "dns_server_init (udp_answers steady_board) stack (IP4_ADDR steady_board 192 168 4 1) = (c2, dns)"
    by fastforce
  have L: "load_fs 1025 no_disk (registry server_init) (heap_g server_init) [] =
      Some (Inr (registry server_init, heap_g server_init, []))" by (simp add: load_fs_def no_disk_def)
  have B: "boot_wifi 1025 idle_cyw43 no_disk (wifi_init, []) = Some (Inr (wifi_init, []))"
    by (simp add: boot_wifi_def wifi_read_def no_disk_def idle_cyw43_def)
  have m: "lfs_mount steady_board [] = (0, [])" "cyw43_arch_init steady_board [] = (0, [])"
    "http_answers steady_board = quiet_tcp" by (simp_all add: steady_board_def)
  show ?thesis by (simp add: main_boot_def Let_def L B d [simplified] n [simplified] m case_prod_beta)
qed

theorem server_stays_in_order_witness:
  "\<exists>r :: string running. server_reachable 1025 list_lwip idle_cyw43 no_disk (\<lambda>_. 0) log_net r \<and>
     client_vect (web_s r) = [0] \<and> running_inv 1025 log_net idle_cyw43 r \<and>
     \<not> request_faults (registry (srv (vars_s r))) ''/pagers/pair'' Server_Queue.sample_request \<and>
     (\<exists>f. sm_find (paths (web_s r)) (GET, ''/pagers/pair'') = Some f \<and> returns (f (Server_Queue.sample_request, [], vars_s r))) \<and>
     (\<exists>acts s'. main_round 1025 idle_cyw43 no_disk (\<lambda>_. 0) log_net \<lparr>encrypted_data = replicate 32 0\<rparr>
        (web_s r, [], vars_s r) = Some (Inr (acts, web_s r, [], (vars_s r)\<lparr>srv := s'\<rparr>)))"
proof -
  let ?web = "snd (server_setup quiet_tcp 1025 log_net idle_cyw43)"
  let ?web1 = "?web\<lparr>client_heap := [Some (new_tcp_client (replicate 1152 NUL) 5)], client_vect := [0]\<rparr>"
  from first_boot obtain dhcp dns g where
    b: "main_boot 1025 steady_board idle_cyw43 no_disk log_net \<lparr>dns_udp = None, dns_ip = 0\<rparr> [] =
       Some (Inr (Running dhcp dns ?web ([], g)))" "srv g = server_init" "wifi_g g = wifi_init" by blast
  let ?r = "\<lparr>web_s = ?web, outside_s = [], vars_s = g, dhcp_s = dhcp\<rparr>"
  let ?r1 = "?r\<lparr>web_s := ?web1\<rparr>"
  have leak: "no_leak (heap_g (srv g)) (registry (srv g))" by (simp add: b(2) server_init_def no_leak_def)
  have "client_vect ?web = []" "client_heap ?web = []"
    by (simp_all add: server_setup_def http_start_def quiet_tcp_def new_http_server_def static_content_def on_routes_keep)
  then have "tcp_server_accept (replicate 1152 NUL) (Some 5) 0 (web_s ?r) = (0, [TcpArg 5 (Some 0), TcpCallbacks 5], ?web1)"
    by (simp add: tcp_server_accept_def heap_new_def new_client_def)
  from server_next [OF server_boot [OF b(1) leak] step_accept [OF this]] have
    1: "server_reachable 1025 list_lwip idle_cyw43 no_disk (\<lambda>_. 0) log_net ?r1" .
  let ?c = "Server_Queue.sample_request"
  have 2: "response_headers ?c = []" "(1025 :: nat) \<le> 1025"
    by (simp_all add: Server_Queue.sample_request_def new_http_client_def)
  have few: "\<forall>m. scan_open (wifi_g (vars_s ?r1)) m \<longrightarrow> length m \<le> 45"
    by (simp add: b(3) wifi_init_def scan_open_def)
  have ip: "length (sta_address idle_cyw43 []) \<le> 15" "NUL \<notin> set (sta_address idle_cyw43 [])" by (simp_all add: idle_cyw43_def)
  have 3: "list_all (waiting (client_heap ?web1)) (client_vect ?web1)"
    by (simp add: waiting_def heap_get_Some new_tcp_client_def new_http_client_def)
  have 4: "\<not> wifi_scan_g wifi_init" "\<not> wifi_connect_g wifi_init" "\<not> update_fs_required (registry server_init)"
    by (simp_all add: wifi_init_def server_init_def new_PagerList_def)
  have 5: "sm_find (paths (web_s ?r1)) (GET, ''/pagers/pair'') = Some (pager_callback (http_pagers_pair 1025 log_net))"
    using server_setup_paths [of quiet_tcp 1025 log_net idle_cyw43] by (simp add: routes_def)
  have 6: "\<not> request_faults (registry (srv (vars_s ?r1))) ''/pagers/pair'' ?c"
    by (simp add: request_faults_def not_a_number_def get_req_param_int_def get_req_param_def sm_at_def
        Server_Queue.sample_request_def new_http_client_def sample_numbers)
  note T = server_stays_in_order [OF 1 list_lwip_ok log_net_takes 2(2) sample_frame 2(1) few ip]
  have "client_vect (web_s ?r1) = [0]" "running_inv 1025 log_net idle_cyw43 ?r1" using T by simp_all
  moreover have "returns (pager_callback (http_pagers_pair 1025 log_net) (?c, [], vars_s ?r1))" using T 5 6 by blast
  moreover have "\<exists>acts s'. main_round 1025 idle_cyw43 no_disk (\<lambda>_. 0) log_net \<lparr>encrypted_data = replicate 32 0\<rparr>
        (web_s ?r1, [], vars_s ?r1) = Some (Inr (acts, web_s ?r1, [], (vars_s ?r1)\<lparr>srv := s'\<rparr>))"
    using T 3 4 by (auto simp: b(2,3))
  ultimately show ?thesis using 1 5 6 by blast
qed

end
