(* ===== verification/Flash_Device.thy ===== *)
theory Flash_Device
  imports Pager_Prelude
begin

text \<open>
  \<open>src/pagers-common/fs.cpp\<close> and \<open>fs.hpp\<close>: the block device LittleFS runs on, the last 64 KB of the
  flash, and its configuration.

  The flash hardware of the Pico SDK and its constants are not part of the repository: they are the
  record \<open>flash_hw\<close> over an arbitrary world, and \<open>flash_chip\<close> states what is documented of
  them: programming can only clear bits and works in whole pages, erasing a range of whole sectors sets
  its bytes. Addresses are 32-bit words, as in the code. \<open>pico_erase\<close> passes a count of 1, which is not
  a number of whole sectors: what it does is not documented, so no lemma is about it, and the
  property is about pages that are erased already.
\<close>

section \<open>The hardware\<close>

record 'w flash_hw =
  FLASH_PAGE_SIZE :: u32
  FLASH_SECTOR_SIZE :: u32
  PICO_FLASH_SIZE_BYTES :: u32
  XIP_NOCACHE_NOALLOC_BASE :: u32
  xip_read :: "u32 \<Rightarrow> nat \<Rightarrow> 'w \<Rightarrow> u8 list"
  flash_range_program :: "u32 \<Rightarrow> u8 list \<Rightarrow> 'w \<Rightarrow> 'w"
  flash_range_erase :: "u32 \<Rightarrow> u32 \<Rightarrow> 'w \<Rightarrow> 'w"
  save_and_disable_interrupts :: "'w \<Rightarrow> u32 \<times> 'w"
  restore_interrupts :: "u32 \<Rightarrow> 'w \<Rightarrow> 'w"

section \<open>The device\<close>

definition FS_SIZE :: u32 where "FS_SIZE = push_bit 16 1"

definition FS_BASE_IN_FLASH :: "'w flash_hw \<Rightarrow> u32" where
  "FS_BASE_IN_FLASH hw = PICO_FLASH_SIZE_BYTES hw - FS_SIZE"

definition FS_BASE_ABS :: "'w flash_hw \<Rightarrow> u32" where
  "FS_BASE_ABS hw = XIP_NOCACHE_NOALLOC_BASE hw + FS_BASE_IN_FLASH hw"

definition pico_read :: "'w flash_hw \<Rightarrow> u32 \<Rightarrow> u32 \<Rightarrow> nat \<Rightarrow> 'w \<Rightarrow> int \<times> u8 list" where
  "pico_read hw block off sz w = (0, xip_read hw (FS_BASE_ABS hw + block * FLASH_SECTOR_SIZE hw + off) sz w)"

definition pico_prog :: "'w flash_hw \<Rightarrow> u32 \<Rightarrow> u32 \<Rightarrow> u8 list \<Rightarrow> 'w \<Rightarrow> int \<times> 'w" where
  "pico_prog hw block off buffer w =
     (let (ints, w) = save_and_disable_interrupts hw w;
          w = flash_range_program hw (FS_BASE_IN_FLASH hw + block * FLASH_SECTOR_SIZE hw + off) buffer w
      in (0, restore_interrupts hw ints w))"

definition pico_erase :: "'w flash_hw \<Rightarrow> u32 \<Rightarrow> 'w \<Rightarrow> int \<times> 'w" where
  "pico_erase hw block w =
     (let (ints, w) = save_and_disable_interrupts hw w;
          w = flash_range_erase hw (FS_BASE_IN_FLASH hw + block * FLASH_SECTOR_SIZE hw) 1 w
      in (0, restore_interrupts hw ints w))"

definition pico_sync :: "'w \<Rightarrow> int \<times> 'w" where
  "pico_sync w = (0, w)"

record lfs_config =
  read_size :: u32
  prog_size :: u32
  block_size :: u32
  block_count :: u32
  block_cycles :: int
  cache_size :: u32
  lookahead_size :: u32

definition pico_lfs_config :: "'w flash_hw \<Rightarrow> lfs_config" where
  "pico_lfs_config hw =
     \<lparr>read_size = FLASH_PAGE_SIZE hw, prog_size = FLASH_PAGE_SIZE hw, block_size = FLASH_SECTOR_SIZE hw,
      block_count = FS_SIZE div FLASH_SECTOR_SIZE hw, block_cycles = 500, cache_size = 1024, lookahead_size = 1024\<rparr>"

section \<open>What is documented of the hardware\<close>

text \<open>\<open>mem w\<close>: the bytes of the flash.\<close>

definition and_bytes :: "u8 list \<Rightarrow> u8 list \<Rightarrow> u8 list" where
  "and_bytes xs ys = map2 (AND) xs ys"

definition put_at :: "nat \<Rightarrow> 'a list \<Rightarrow> 'a list \<Rightarrow> 'a list" where
  "put_at a d m = take a m @ d @ drop (a + length d) m"

definition flash_chip :: "'w flash_hw \<Rightarrow> ('w \<Rightarrow> u8 list) \<Rightarrow> bool" where
  "flash_chip hw mem \<longleftrightarrow>
     FLASH_PAGE_SIZE hw = 256 \<and> FLASH_SECTOR_SIZE hw = 4096 \<and>
     4096 dvd unat (PICO_FLASH_SIZE_BYTES hw) \<and> 65536 \<le> unat (PICO_FLASH_SIZE_BYTES hw) \<and>
     (\<forall>w. length (mem w) = unat (PICO_FLASH_SIZE_BYTES hw)) \<and>
     (\<forall>a n w. unat a + n \<le> length (mem w) \<longrightarrow>
        xip_read hw (XIP_NOCACHE_NOALLOC_BASE hw + a) n w = take n (drop (unat a) (mem w))) \<and>
     (\<forall>a d w. 256 dvd unat a \<and> 256 dvd length d \<and> unat a + length d \<le> length (mem w) \<longrightarrow>
        mem (flash_range_program hw a d w) =
          put_at (unat a) (and_bytes (take (length d) (drop (unat a) (mem w))) d) (mem w)) \<and>
     (\<forall>a n w. 4096 dvd unat a \<and> 4096 dvd unat n \<and> unat a + unat n \<le> length (mem w) \<longrightarrow>
        mem (flash_range_erase hw a n w) = put_at (unat a) (replicate (unat n) 0xFF) (mem w)) \<and>
     (\<forall>w. mem (snd (save_and_disable_interrupts hw w)) = mem w) \<and>
     (\<forall>ints w. mem (restore_interrupts hw ints w) = mem w)"

lemma flash_chipD:
  assumes "flash_chip hw mem"
  shows "FLASH_SECTOR_SIZE hw = 4096" "4096 dvd unat (PICO_FLASH_SIZE_BYTES hw)"
    "65536 \<le> unat (PICO_FLASH_SIZE_BYTES hw)" "length (mem w) = unat (PICO_FLASH_SIZE_BYTES hw)"
    and "unat a + n \<le> length (mem w) \<Longrightarrow>
      xip_read hw (XIP_NOCACHE_NOALLOC_BASE hw + a) n w = take n (drop (unat a) (mem w))"
    and "256 dvd unat a \<Longrightarrow> 256 dvd length d \<Longrightarrow> unat a + length d \<le> length (mem w) \<Longrightarrow>
      mem (flash_range_program hw a d w) =
        put_at (unat a) (and_bytes (take (length d) (drop (unat a) (mem w))) d) (mem w)"
    and "mem (snd (save_and_disable_interrupts hw w)) = mem w" "mem (restore_interrupts hw ints w) = mem w"
  using assms unfolding flash_chip_def by blast+

section \<open>Blocks\<close>

definition block_start :: "'w flash_hw \<Rightarrow> u32 \<Rightarrow> nat" where
  "block_start hw block = unat (PICO_FLASH_SIZE_BYTES hw) - 65536 + unat block * 4096"

lemma block_address:
  assumes "flash_chip hw mem" "block < 16" "unat off \<le> 4095"
  shows "unat (FS_BASE_IN_FLASH hw + block * FLASH_SECTOR_SIZE hw + off) = block_start hw block + unat off"
    and "block_start hw block + 4096 \<le> unat (PICO_FLASH_SIZE_BYTES hw)"
    and "4096 dvd block_start hw block"
proof -
  let ?n = "unat (PICO_FLASH_SIZE_BYTES hw)"
  note chip = flash_chipD(1-3) [OF assms(1)]
  have b: "unat block \<le> 15" using assms(2) by (simp add: word_less_nat_alt)
  have fs: "FS_SIZE = 65536" "unat FS_SIZE = 65536" by (simp_all add: FS_SIZE_def)
  have base: "unat (FS_BASE_IN_FLASH hw) = ?n - 65536"
    using chip(3) fs by (simp add: FS_BASE_IN_FLASH_def unat_sub word_le_nat_alt)
  have top: "?n < 2 ^ 32" using unsigned_less [of "PICO_FLASH_SIZE_BYTES hw", where 'a = nat] by simp
  have mul: "unat (block * 4096) = unat block * 4096"
    using b by (simp add: unat_word_ariths)
  have "unat (FS_BASE_IN_FLASH hw + block * 4096) = ?n - 65536 + unat block * 4096"
    using b chip(3) top by (simp add: unat_word_ariths(1) base mul)
  then show "unat (FS_BASE_IN_FLASH hw + block * FLASH_SECTOR_SIZE hw + off) = block_start hw block + unat off"
    using b chip(3) top assms(3) by (simp add: chip(1) unat_word_ariths(1) [of _ off] block_start_def)
  show "block_start hw block + 4096 \<le> ?n" using b chip(3) by (simp add: block_start_def)
  have "4096 dvd ?n - 65536" using chip(2) by (intro dvd_diff_nat) simp_all
  then show "4096 dvd block_start hw block" by (simp add: block_start_def)
qed

lemma length_put_at: "a + length d \<le> length m \<Longrightarrow> length (put_at a d m) = length m"
  by (simp add: put_at_def)

lemma nth_put_at:
  "a + length d \<le> length m \<Longrightarrow> i < length m \<Longrightarrow>
     put_at a d m ! i = (if a \<le> i \<and> i < a + length d then d ! (i - a) else m ! i)"
  by (auto simp: put_at_def nth_append)

lemma prog_effect:
  assumes "flash_chip hw mem" "block < 16" "256 dvd unat off" "256 dvd length d" "unat off + length d \<le> 4096" "d \<noteq> []"
  shows "mem (snd (pico_prog hw block off d w)) =
     put_at (block_start hw block + unat off)
       (and_bytes (take (length d) (drop (block_start hw block + unat off) (mem w))) d) (mem w)"
proof -
  have off: "unat off \<le> 4095" using assms(5,6) by (cases d) auto
  note addr = block_address [OF assms(1,2) off]
  obtain ints w1 where i: "save_and_disable_interrupts hw w = (ints, w1)" by fastforce
  have m: "mem w1 = mem w" using flash_chipD(7) [OF assms(1), of w] i by simp
  have al: "256 dvd block_start hw block + unat off"
    using addr(3) assms(3) dvd_trans [of "256 :: nat" 4096] by (intro dvd_add) simp_all
  show ?thesis
    using flash_chipD(6) [OF assms(1), of "FS_BASE_IN_FLASH hw + block * FLASH_SECTOR_SIZE hw + off" d w1] al assms(4,5)
      addr(1,2) flash_chipD(4,8) [OF assms(1)]
    by (simp add: pico_prog_def i m)
qed

section \<open>Programming pages that are erased\<close>

text \<open>A call of \<open>pico_prog\<close>: block, offset and data, as LittleFS may make it.\<close>

type_synonym flash_write = "u32 \<times> u32 \<times> u8 list"

fun write_ok :: "'w flash_hw \<Rightarrow> flash_write \<Rightarrow> bool" where
  "write_ok hw (block, off, d) \<longleftrightarrow>
     block < block_count (pico_lfs_config hw) \<and> 256 dvd unat off \<and> 256 dvd length d \<and> d \<noteq> [] \<and>
     unat off + length d \<le> unat (block_size (pico_lfs_config hw))"

fun write_start :: "'w flash_hw \<Rightarrow> flash_write \<Rightarrow> nat" where
  "write_start hw (block, off, d) = block_start hw block + unat off"

fun write_data :: "flash_write \<Rightarrow> u8 list" where
  "write_data (block, off, d) = d"

definition write_end :: "'w flash_hw \<Rightarrow> flash_write \<Rightarrow> nat" where
  "write_end hw x = write_start hw x + length (write_data x)"

fun apart :: "'w flash_hw \<Rightarrow> flash_write list \<Rightarrow> bool" where
  "apart hw [] \<longleftrightarrow> True"
| "apart hw (x # xs) \<longleftrightarrow>
     list_all (\<lambda>y. write_end hw x \<le> write_start hw y \<or> write_end hw y \<le> write_start hw x) xs \<and> apart hw xs"

definition erased_for :: "'w flash_hw \<Rightarrow> u8 list \<Rightarrow> flash_write \<Rightarrow> bool" where
  "erased_for hw m x \<longleftrightarrow> (\<forall>i. write_start hw x \<le> i \<and> i < write_end hw x \<longrightarrow> m ! i = 0xFF)"

fun prog_one :: "'w flash_hw \<Rightarrow> flash_write \<Rightarrow> 'w \<Rightarrow> 'w" where
  "prog_one hw (block, off, d) w = snd (pico_prog hw block off d w)"

lemma config_blocks:
  assumes "flash_chip hw mem"
  shows "block_count (pico_lfs_config hw) = 16" "block_size (pico_lfs_config hw) = 4096"
proof -
  have "FLASH_SECTOR_SIZE hw = 4096" using assms by (simp add: flash_chip_def)
  then show "block_count (pico_lfs_config hw) = 16" "block_size (pico_lfs_config hw) = 4096"
    by (simp_all add: pico_lfs_config_def FS_SIZE_def word_div_def)
qed

text \<open>A write stays in the last 64 KB.\<close>

lemma write_place:
  assumes "flash_chip hw mem" "write_ok hw x"
  shows "unat (PICO_FLASH_SIZE_BYTES hw) - 65536 \<le> write_start hw x"
    "write_end hw x \<le> unat (PICO_FLASH_SIZE_BYTES hw)"
proof -
  obtain block off d where x: "x = (block, off, d)" by (metis prod.exhaust)
  have "block < 16" "unat off + length d \<le> 4096" using assms(2) by (simp_all add: x config_blocks [OF assms(1)])
  then show "unat (PICO_FLASH_SIZE_BYTES hw) - 65536 \<le> write_start hw x"
    "write_end hw x \<le> unat (PICO_FLASH_SIZE_BYTES hw)"
    using block_address(2) [OF assms(1), of block 0] by (simp_all add: x write_end_def block_start_def)
qed

lemma prog_one_effect:
  assumes "flash_chip hw mem" "write_ok hw x" "erased_for hw (mem w) x"
  shows "mem (prog_one hw x w) = put_at (write_start hw x) (write_data x) (mem w)"
proof -
  obtain block off d where x: "x = (block, off, d)" by (metis prod.exhaust)
  have ok: "block < 16" "256 dvd unat off" "256 dvd length d" "unat off + length d \<le> 4096" "d \<noteq> []"
    using assms(2) by (simp_all add: x config_blocks [OF assms(1)])
  have L: "length (mem w) = unat (PICO_FLASH_SIZE_BYTES hw)" by (rule flash_chipD(4) [OF assms(1)])
  have "write_start hw x + length d \<le> length (mem w)"
    using write_place(2) [OF assms(1,2)] by (simp add: L write_end_def x)
  then have "take (length d) (drop (write_start hw x) (mem w)) = replicate (length d) 0xFF"
    using assms(3) by (intro nth_equalityI) (simp_all add: erased_for_def write_end_def x)
  moreover have "and_bytes (replicate (length d) 0xFF) d = d"
  proof -
    have "(0xFF :: u8) = - 1" by simp
    then have "0xFF AND y = y" for y :: u8 by (simp only: and.left_neutral)
    then show ?thesis by (intro nth_equalityI) (simp_all add: and_bytes_def)
  qed
  ultimately show ?thesis using prog_effect [OF assms(1) ok, of w] by (simp add: x)
qed

text \<open>After any writes to erased pages that do not overlap.\<close>

lemma prog_all_effect:
  assumes chip: "flash_chip hw mem"
  shows "list_all (write_ok hw) xs \<Longrightarrow> apart hw xs \<Longrightarrow> list_all (erased_for hw (mem w)) xs \<Longrightarrow>
    list_all (\<lambda>x. \<forall>j < length (write_data x). mem (fold (prog_one hw) xs w) ! (write_start hw x + j) = write_data x ! j) xs \<and>
    (\<forall>i < unat (PICO_FLASH_SIZE_BYTES hw). list_all (\<lambda>x. i < write_start hw x \<or> write_end hw x \<le> i) xs \<longrightarrow>
       mem (fold (prog_one hw) xs w) ! i = mem w ! i)"
proof (induction xs arbitrary: w)
  case (Cons x xs)
  let ?w = "prog_one hw x w" and ?n = "unat (PICO_FLASH_SIZE_BYTES hw)"
  have L: "length (mem w) = ?n" for w by (rule flash_chipD(4) [OF chip])
  have stop: "write_start hw x + length (write_data x) \<le> ?n"
    using write_place(2) [OF chip, of x] Cons.prems(1) by (simp add: write_end_def)
  have m: "mem ?w = put_at (write_start hw x) (write_data x) (mem w)"
    using prog_one_effect [OF chip, of x w] Cons.prems by simp
  have at: "mem ?w ! i = (if write_start hw x \<le> i \<and> i < write_end hw x then write_data x ! (i - write_start hw x)
      else mem w ! i)" if "i < ?n" for i
    using stop that by (simp add: m nth_put_at L write_end_def)
  have "erased_for hw (mem ?w) y" if y: "y \<in> set xs" for y
    unfolding erased_for_def
  proof (intro allI impI)
    fix i assume i: "write_start hw y \<le> i \<and> i < write_end hw y"
    have "write_end hw y \<le> ?n" using write_place(2) [OF chip, of y] y Cons.prems(1) by (simp add: list_all_iff)
    moreover have "write_end hw x \<le> write_start hw y \<or> write_end hw y \<le> write_start hw x"
      using y Cons.prems(2) by (simp add: list_all_iff)
    ultimately show "mem ?w ! i = 0xFF" using i y Cons.prems(3) by (auto simp: at erased_for_def list_all_iff)
  qed
  then have "list_all (erased_for hw (mem ?w)) xs" by (simp add: list_all_iff)
  with Cons.IH [of ?w] Cons.prems(1,2) have IH:
    "list_all (\<lambda>x. \<forall>j < length (write_data x). mem (fold (prog_one hw) xs ?w) ! (write_start hw x + j) = write_data x ! j) xs"
    "\<And>i. i < ?n \<Longrightarrow> list_all (\<lambda>x. i < write_start hw x \<or> write_end hw x \<le> i) xs \<Longrightarrow>
       mem (fold (prog_one hw) xs ?w) ! i = mem ?w ! i" by simp_all
  have "mem (fold (prog_one hw) xs ?w) ! (write_start hw x + j) = write_data x ! j" if j: "j < length (write_data x)" for j
  proof -
    have "list_all (\<lambda>y. write_start hw x + j < write_start hw y \<or> write_end hw y \<le> write_start hw x + j) xs"
      using j Cons.prems(2) by (auto simp: list_all_iff write_end_def)
    with IH(2) [of "write_start hw x + j"] j stop show ?thesis by (simp add: at write_end_def)
  qed
  with IH at show ?case by (auto simp: not_le not_less)
qed simp

section \<open>Properties\<close>

text \<open>C38. The block device keeps what is programmed, and nothing else of the flash is touched. On a
  chip that programs as documented (whole pages, bits are only cleared), take any sequence of \<open>pico_prog\<close>
  calls with whole pages inside a block of the configuration, at ranges that do not overlap and are
  erased beforehand: afterwards \<open>pico_read\<close> gives the data of every one of them; every other byte of
  the flash is as it was; and all of them lie in the last 64 KB. The configuration names
  exactly these 64 KB, in sizes LittleFS accepts. How the pages came to be erased is left open:
  \<open>pico_erase\<close> asks the SDK for one byte where it takes whole sectors.\<close>

theorem flash_block_keeps_data:
  assumes "flash_chip hw mem" "list_all (write_ok hw) xs" "apart hw xs" "list_all (erased_for hw (mem w)) xs"
  defines "n \<equiv> unat (PICO_FLASH_SIZE_BYTES hw)" and "w' \<equiv> fold (prog_one hw) xs w"
  shows "list_all (\<lambda>(block, off, d). pico_read hw block off (length d) w' = (0, d)) xs \<and>
     (\<forall>i < n. list_all (\<lambda>x. i < write_start hw x \<or> write_end hw x \<le> i) xs \<longrightarrow> mem w' ! i = mem w ! i) \<and>
     list_all (\<lambda>x. n - unat FS_SIZE \<le> write_start hw x \<and> write_end hw x \<le> n) xs \<and>
     unat (block_count (pico_lfs_config hw)) * unat (block_size (pico_lfs_config hw)) = unat FS_SIZE \<and>
     block_size (pico_lfs_config hw) mod cache_size (pico_lfs_config hw) = 0 \<and>
     cache_size (pico_lfs_config hw) mod prog_size (pico_lfs_config hw) = 0 \<and>
     lookahead_size (pico_lfs_config hw) mod 8 = 0"
proof -
  note eff = prog_all_effect [OF assms(1-4), folded w'_def n_def] and cnt = config_blocks [OF assms(1)]
  have L: "length (mem w) = n" for w using flash_chipD(4) [OF assms(1)] by (simp add: n_def)
  have rd: "pico_read hw block off (length d) w' = (0, d)" if x: "(block, off, d) \<in> set xs" for block off d
  proof -
    have ok: "write_ok hw (block, off, d)" using assms(2) x unfolding list_all_iff by blast
    then have len: "block < 16" "unat off + length d \<le> 4096" "d \<noteq> []" by (simp_all add: cnt)
    then have "unat off \<le> 4095" by (cases d) auto
    note addr = block_address(1) [OF assms(1) len(1) this]
    have e: "block_start hw block + unat off + length d \<le> n"
      using write_place(2) [OF assms(1) ok] by (simp add: write_end_def n_def)
    have "\<forall>j < length d. mem w' ! (block_start hw block + unat off + j) = d ! j"
      using eff x by (auto simp: list_all_iff)
    then have "take (length d) (drop (block_start hw block + unat off) (mem w')) = d"
      using e by (intro nth_equalityI) (simp_all add: L)
    then show ?thesis
      using flash_chipD(5) [OF assms(1), of "FS_BASE_IN_FLASH hw + block * FLASH_SECTOR_SIZE hw + off" "length d" w'] e
      by (simp add: pico_read_def FS_BASE_ABS_def add.assoc addr [simplified add.assoc] L)
  qed
  have cfg: "FLASH_PAGE_SIZE hw = 256" "FLASH_SECTOR_SIZE hw = 4096" using assms(1) by (simp_all add: flash_chip_def)
  have fs: "FS_SIZE = 65536" by (simp add: FS_SIZE_def)
  have "list_all (\<lambda>x. n - unat FS_SIZE \<le> write_start hw x \<and> write_end hw x \<le> n) xs"
    using assms(2) write_place [OF assms(1)] by (auto simp: list_all_iff fs n_def)
  moreover have "block_size (pico_lfs_config hw) mod cache_size (pico_lfs_config hw) = 0"
    "cache_size (pico_lfs_config hw) mod prog_size (pico_lfs_config hw) = 0" "lookahead_size (pico_lfs_config hw) mod 8 = 0"
    by (simp_all add: pico_lfs_config_def cfg word_mod_def)
  moreover have "list_all (\<lambda>(block, off, d). pico_read hw block off (length d) w' = (0, d)) xs"
    using rd by (auto simp: list_all_iff)
  ultimately show ?thesis using eff by (simp add: cnt fs)
qed

text \<open>A flash of 2 MB as a list of bytes.\<close>

definition list_mem :: "u8 list \<Rightarrow> u8 list" where
  "list_mem w = take 2097152 (w @ replicate 2097152 0)"

definition list_flash :: "u8 list flash_hw" where
  "list_flash = \<lparr>FLASH_PAGE_SIZE = 256, FLASH_SECTOR_SIZE = 4096, PICO_FLASH_SIZE_BYTES = 2097152,
     XIP_NOCACHE_NOALLOC_BASE = 0x13000000,
     xip_read = \<lambda>a n w. take n (drop (unat (a - 0x13000000)) (list_mem w)),
     flash_range_program = \<lambda>a d w. put_at (unat a) (and_bytes (take (length d) (drop (unat a) (list_mem w))) d) (list_mem w),
     flash_range_erase = \<lambda>a n w. put_at (unat a) (replicate (unat n) 0xFF) (list_mem w),
     save_and_disable_interrupts = \<lambda>w. (0, w), restore_interrupts = \<lambda>ints w. w\<rparr>"

lemma list_mem_length: "length (list_mem w) = 2097152"
  by (simp add: list_mem_def)

lemma list_mem_id: "length w = 2097152 \<Longrightarrow> list_mem w = w"
  by (simp add: list_mem_def)

lemma list_flash_chip: "flash_chip list_flash list_mem"
  unfolding flash_chip_def list_flash_def
  by (auto simp: list_mem_length length_put_at and_bytes_def intro!: list_mem_id)

lemma list_mem_erased: "i < 2097152 \<Longrightarrow> list_mem (replicate 2097152 0xFF) ! i = 0xFF"
  by (simp add: list_mem_id)

theorem flash_block_keeps_data_witness:
  "pico_read list_flash 3 256 256 (snd (pico_prog list_flash 3 512 (replicate 256 9)
     (snd (pico_prog list_flash 3 256 (replicate 256 7) (replicate 2097152 0xFF))))) = (0, replicate 256 7)"
proof -
  let ?xs = "[(3, 256, replicate 256 7), (3, 512, replicate 256 9)] :: flash_write list"
  let ?w = "replicate 2097152 0xFF"
  have len: "length (replicate 256 x) = 256" for x :: u8 by simp
  have start: "block_start list_flash 3 = 2043904" by (simp add: block_start_def list_flash_def)
  have ok: "list_all (write_ok list_flash) ?xs"
    by (simp add: config_blocks [OF list_flash_chip])
  have "apart list_flash ?xs" by (simp add: write_end_def start)
  moreover have "list_all (erased_for list_flash (list_mem ?w)) ?xs"
    by (simp add: erased_for_def write_end_def start list_mem_erased)
  ultimately show ?thesis
    using conjunct1 [OF flash_block_keeps_data [OF list_flash_chip ok]] by (simp add: len)
qed

end
