(* ===== verification/Spec2Isabelle.thy ===== *)
theory Spec2Isabelle
  imports Pager_Prelude Crc Fermat Security Protocol Physical Radio_Link Physical_Setup Circular_Buffer
    Std_Map Pager_List Http_Client Server_Queue Client_Main System
    Lwip_Udp Dns_Server Dhcp_Server Http_Request Http_Server
    Json_Pool Json_Value Json_Position Json_Document Ieee_Double Ieee_Exact Json_Number Json_Number_Examples Json_Serializer
    Json_Deserializer Json_Parser_Safety Json_Round_Trip Json_Compare Json_References Json_Proxies
    Msgpack_Serializer Msgpack_Deserializer Msgpack_Round_Trip Msgpack_Safety
    Json_Fields Pagers_Json Wifi_Config Wifi_Handlers Server_Main Server_Runs Flash_Device
begin

text \<open>
  Pico Pagers is a paging system for a restaurant on RP2040 microcontrollers. The
  server (\<open>src/pagers-server\<close>) takes requests over HTTP, keeps a registry of paired pagers on its
  flash and sends messages by pulse-width modulation at 2400 Hz; a client (\<open>src/pagers-client\<close>) is a pager
  that receives them and blinks. Both use \<open>src/pagers-common\<close>. This development models the C and C++
  code of the three directories and proves what makes it correct.

  \<^bold>\<open>How the parts interact.\<close> A browser finds the server through its own access point: the
  DHCP server gives it an address, the DNS server answers every name with the server's address, the
  HTTP server delivers the pages and dispatches the requests of the API to nine handlers. A pager
  handler changes counters in the registry; the main loop turns counters into messages, a message is
  given a sequence number and a checksum, encrypted byte by byte and put on the air. The pager's
  receiver classifies pulse lengths into bits and bytes, and a silence ends the frame; its callback
  decrypts, its main loop obeys. The WiFi handlers ask the main loop to scan or to join a network,
  which is then stored and joined again at the next boot.

  \<^bold>\<open>Conventions.\<close> Integers have their width (\<open>Pager_Prelude\<close>: \<open>u8\<close>, \<open>u16\<close>, \<open>u32\<close>, \<open>u64\<close>); where
  C leaves an overflow, an access out of bounds, a null or freed pointer, an unset variable, a
  conversion out of range or an uncaught exception undefined, the operation returns \<open>Inl\<close> of a \<open>fault\<close>, and \<open>rbind\<close> passes it on. A loop
  that waits for something outside takes fuel and returns \<open>None\<close> when it runs out of it. What is not in the
  repository is an argument: \<open>lfs\<close> (LittleFS), \<open>net\<close> and \<open>lwip\<close> (lwIP), \<open>cyw43\<close> (the WiFi driver),
  \<open>pwm_sdk\<close> and \<open>flash_hw\<close> (the SDK's flash routines), each a record of functions over an arbitrary world; what the theorems
  need of it is a named predicate (\<open>lfs_reliable\<close>, \<open>flash_chip\<close>, ...), and every witness instantiates it.

  \<^bold>\<open>Shared by both programs.\<close>
  \<^item> \<open>Crc\<close> (\<open>crc.cpp\<close>): the lazily built table; \<open>crc_16\<close> is the bitwise CRC, and detects what it should.
  \<^item> \<open>Security\<close> (\<open>security.cpp\<close>), \<open>Fermat\<close>: \<open>power\<close> computes \<open>x ^ y mod p\<close> without overflow; with the
    key pair of the code, decryption inverts encryption. Locale \<open>block_cipher\<close>, interpreted on both functions.
  \<^item> \<open>Protocol\<close> (\<open>protocol.cpp\<close>, \<open>protocol.hpp\<close>): layout, checksum, sealing and opening of a frame.
  \<^item> \<open>Physical\<close>, \<open>Radio_Link\<close> (\<open>physical.cpp\<close>, \<open>physical.hpp\<close>): the sender's PWM interrupt and \<open>send_bytes\<close>
    with its busy wait (one step of fuel for each bit and one more: 1025 for the 128 bytes allowed), the receiver's
    edge interrupt; levels of a frame, safety under arbitrary edges, and delivery over a link that distorts pulses
    within a tolerance (locale \<open>pulse_code\<close>, interpreted on the PWM constants). \<open>Physical_Setup\<close>: the calls that
    set up both ends and the table that is printed; the SDK is the record \<open>pwm_sdk\<close>.
  \<^item> \<open>Circular_Buffer\<close> (\<open>circularbuffer.cpp\<close>): the ring with its spare cells for wrapping; it implements a
    queue of bytes (locale \<open>byte_queue\<close>).
  \<^item> \<open>Flash_Device\<close> (\<open>fs.cpp\<close>): the block device of LittleFS. \<open>Wifi_Config\<close> (\<open>fsutil.cpp\<close>, \<open>wififs.cpp\<close>): the
    stored network; a line is read with one step of fuel for each byte of the caller's array.

  \<^bold>\<open>The pager.\<close> \<open>Client_Main\<close> (\<open>pagers-client/main.cpp\<close>): callback, the phases of the loop, boot. The
  lemmas state what every frame does, that pairing needs the button, how long it flashes, and that no sequence of
  interrupts and rounds leads to a fault.

  \<^bold>\<open>The server.\<close>
  \<^item> \<open>Std_Map\<close> (\<open>std::map\<close> as a sorted association list, locale \<open>ordered_map\<close>), \<open>Pager_List\<close> (\<open>pager.hpp\<close>,
    \<open>pagerlist.cpp\<close>): the registry over a heap of pagers, its invariant, its file. \<open>load_fs\<close> takes one step of fuel
    for each line and one for the end of the file.
  \<^item> \<open>Server_Queue\<close> (\<open>main.cpp\<close>, pager half): queue and handlers; a round is refined by the frames it sends.
  \<^item> \<open>Lwip_Udp\<close>, \<open>Dns_Server\<close> (\<open>dnsserver.c\<close>), \<open>Dhcp_Server\<close> (\<open>dhcpserver.c\<close>): receive callbacks over their
    buffers, with bounds, answers, leases.
  \<^item> \<open>Http_Request\<close>, \<open>Http_Client\<close> (\<open>httpserverclient.cpp\<close>): parsing out of the ring (1024 bytes and 128
    spare) in packets cut anywhere, building of responses. \<open>Http_Server\<close> (\<open>httpserver.cpp\<close>, \<open>mime.cpp\<close>):
    connections on a heap, routes, static files, the loop.
  \<^item> \<open>Wifi_Handlers\<close> (\<open>main.cpp\<close>, WiFi half): scan and join, with a reachability invariant over every
    interleaving of requests, driver callbacks and rounds. \<open>Server_Main\<close> (\<open>main\<close>): boot, routes, a round over all globals.
    \<open>Server_Runs\<close>: the server with lwIP's and the driver's callbacks, interrupts, DHCP and rounds in any order,
    as long as none faults (the relation has no faulting steps); the invariants of all components hold in every
    state that is reached, and which callbacks and requests fault there is said. What the web server leaves
    alone is proved in the locale \<open>world_keeper\<close>, interpreted on the network and the disk of the machine.
  \<^item> \<open>System\<close>: both programs and the radio together; a request reaches the pager.

  \<^bold>\<open>JSON\<close> (\<open>json/ArduinoJson.h\<close>, a library the repository carries in its tree and compiles).
  \<^item> \<open>Json_Pool\<close>, \<open>Json_Value\<close>, \<open>Json_Position\<close>, \<open>Json_Document\<close>: the memory pool (strings from the left, 16-byte
    slots from the right), variants and collections, places in a tree of them, documents and the assignment at a path.
  \<^item> \<open>Json_References\<close>: references (a position in the document, or null), arrays, objects, iterators,
    \<open>copyArray\<close>. \<open>Json_Proxies\<close>: \<open>json[k1][k2] = v\<close> is the assignment at its path, so a document
    behaves as a nested map; which reads add to it; and no sequence of operations leaves the pool.
  \<^item> \<open>Ieee_Double\<close>, \<open>Json_Number\<close>, \<open>Json_Number_Examples\<close>: doubles as 64-bit patterns, printing and parsing of numbers,
    conversions. \<open>Ieee_Exact\<close>: which conversions between \<open>float\<close>, \<open>double\<close> and integers keep the value.
  \<^item> \<open>Json_Serializer\<close>: compact and indented text over a counting writer (locale \<open>text_writer\<close>, interpreted on the
    measuring and on the buffer writer). \<open>Json_Deserializer\<close>, \<open>Json_Parser_Safety\<close>: the parser with its
    nesting limit (10) and filters; it is total (its loops take one step of fuel for each byte left) and safe
    (locale \<open>nested_parser\<close>, interpreted on the parser one level down).
  \<^item> \<open>Json_Round_Trip\<close>: the parser reads back what the serializer wrote (locale \<open>value_reader\<close>, interpreted on
    the parser at every nesting limit).
  \<^item> \<open>Json_Fields\<close>, \<open>Pagers_Json\<close>: the documents the handlers fill (8 KB: 370 pagers fit) and their text.
  \<^item> \<open>Json_Compare\<close>: comparisons; equality is equality of meaning with booleans as 1 and 0, and where it is not.
  \<^item> \<open>Msgpack_Serializer\<close>, \<open>Msgpack_Deserializer\<close>, \<open>Msgpack_Round_Trip\<close>, \<open>Msgpack_Safety\<close>: the MessagePack
    reader and writer, which reads back what was written (locale \<open>msgpack_reader\<close>) and meets no fault on any
    input without a filter (locale \<open>safe_reader\<close>), but does with one.

  \<^bold>\<open>Not modelled, and why.\<close>
  \<^item> Board set-up (\<open>stdio_init_all\<close>, LED and button pins), log lines, \<open>debug_read\<close> and the dump functions: calls of
    the SDK and printing, with no state of the program. \<open>lwipopts.h\<close> only
    configures lwIP; \<open>Http_Client\<close> takes the size of the send buffer from it.
  \<^item> In \<open>ArduinoJson.h\<close>: readers and writers for Arduino streams, \<open>String\<close>, \<open>std::istream\<close> and in-place input,
    and PROGMEM, none of which the build enables or the program uses; template
    machinery; the 32-bit \<open>FloatTraits\<close>; references that outlive the removal of what they stand for.
  \<^item> The static pages under \<open>pagers-server/lfs\<close>, scripts, CMake files and documents are no C code.
  \<^item> The timing of lwIP and of the interrupts relative to one another is arbitrary where a theorem quantifies over
    sequences of steps (\<open>Client_Main\<close>, \<open>Wifi_Handlers\<close>, \<open>Http_Server\<close>, \<open>Server_Runs\<close>); a step itself is atomic.
\<close>

end
